(* ===== verification/Prelude.thy ===== *)
theory Prelude
  imports Complex_Main "HOL-Library.Word" "HOL-Library.AList" "HOL-Library.Multiset"
begin

section \<open>Prelude: outcomes, 64-bit integers, Go maps and text formatting\<close>

text \<open>
  What every component of the development shares: the outcome of a Go call (a value, an error
  value, a run-time panic), the two's-complement wrap-around of \<^verbatim>\<open>int64\<close>, Go maps
  represented by association lists whose order is the order in which a \<^verbatim>\<open>range\<close> loop
  visits them, and the \<^verbatim>\<open>fmt\<close> verbs the source prints keys with (\<^verbatim>\<open>%d\<close>,
  \<^verbatim>\<open>%02x\<close>, \<^verbatim>\<open>%012d\<close>).

  Three theorem collections drive the automation: \<open>go_defs\<close> (definitions unfolded when an
  operation is executed), \<open>go_inv\<close> (definitions of invariants) and \<open>alist_simps\<close>
  (rewrite rules of the association lists).
\<close>

named_theorems go_defs \<open>definitions of operations, unfolded by the component proofs\<close>
named_theorems go_inv \<open>definitions of well-formedness predicates\<close>
named_theorems alist_simps \<open>rewrite rules for maps represented as association lists\<close>

subsection \<open>Outcomes\<close>

text \<open>A Go function with an \<^verbatim>\<open>error\<close> result returns a value or an error (whose text is
  kept); a nil dereference or an out-of-range slice is a panic.\<close>

datatype 'a outcome = Ok 'a | Err string | Panic

fun is_ok :: "'a outcome \<Rightarrow> bool" where
  "is_ok (Ok _) = True"
| "is_ok _ = False"

lemma is_ok_iff: "is_ok r \<longleftrightarrow> (\<exists>x. r = Ok x)"
  by (cases r) auto

subsection \<open>Two's-complement 64-bit integers\<close>

definition i64 :: "int \<Rightarrow> int" where
  "i64 x = (x + 2 ^ 63) mod 2 ^ 64 - 2 ^ 63"

lemma i64_id [simp]: "- (2 ^ 63) \<le> x \<Longrightarrow> x < 2 ^ 63 \<Longrightarrow> i64 x = x"
  by (simp add: i64_def)

lemma i64_range: "- (2 ^ 63) \<le> i64 x" "i64 x < 2 ^ 63"
proof -
  have "0 \<le> (x + 2 ^ 63) mod 2 ^ 64" "(x + 2 ^ 63) mod 2 ^ 64 < 2 ^ 64"
    by simp_all
  then show "- (2 ^ 63) \<le> i64 x" "i64 x < 2 ^ 63"
    by (simp_all add: i64_def)
qed

lemma i64_overflow: "i64 (2 ^ 63) = - (2 ^ 63)"
  by (simp add: i64_def)

text \<open>The conversion to \<^verbatim>\<open>int32\<close>.\<close>

definition i32 :: "int \<Rightarrow> int" where
  "i32 x = (x + 2 ^ 31) mod 2 ^ 32 - 2 ^ 31"

lemma i32_id [simp]: "- (2 ^ 31) \<le> x \<Longrightarrow> x < 2 ^ 31 \<Longrightarrow> i32 x = x"
  by (simp add: i32_def)

text \<open>Integer division truncates toward zero.\<close>

definition go_div :: "int \<Rightarrow> int \<Rightarrow> int" where
  "go_div a b = (if (a < 0) = (b < 0) then \<bar>a\<bar> div \<bar>b\<bar> else - (\<bar>a\<bar> div \<bar>b\<bar>))"

lemma go_div_nonneg: "0 \<le> a \<Longrightarrow> 0 < b \<Longrightarrow> go_div a b = a div b"
  by (simp add: go_div_def)

subsection \<open>Maps as association lists\<close>

type_synonym ('k, 'v) gomap = "('k \<times> 'v) list"

declare map_of_eq_Some_iff [simp del] Some_eq_map_of_iff [simp del]

lemma map_of_update [simp, alist_simps]:
  "map_of (AList.update k v m) = (map_of m)(k \<mapsto> v)"
  by (simp add: update_conv')

lemma map_of_update_apply [alist_simps]:
  "map_of (AList.update k v m) x = (if x = k then Some v else map_of m x)"
  by simp

lemma keys_update [simp, alist_simps]:
  "fst ` set (AList.update k v m) = insert k (fst ` set m)"
  by (simp add: dom_update)

lemma distinct_keys_update [simp]:
  "distinct (map fst m) \<Longrightarrow> distinct (map fst (AList.update k v m))"
  by (rule distinct_update)

lemma keys_update_list:
  "map fst (AList.update k v m) = (if k \<in> set (map fst m) then map fst m else map fst m @ [k])"
  by (induction m) auto

lemma set_update_iff:
  "distinct (map fst m) \<Longrightarrow>
     (x, y) \<in> set (AList.update k v m) \<longleftrightarrow> (if x = k then y = v else (x, y) \<in> set m)"
  by (metis distinct_keys_update map_of_eq_Some_iff map_of_update_apply option.inject)

lemma ball_update:
  assumes "distinct (map fst m)" and "\<forall>(k, v) \<in> set m. P k v" and "P k v"
  shows "\<forall>(k, v) \<in> set (AList.update k v m). P k v"
  using assms by (auto simp: set_update_iff split: if_splits)

lemma map_of_in_set: "map_of m k = Some v \<Longrightarrow> (k, v) \<in> set m"
  by (rule map_of_SomeD)

text \<open>How many entries satisfy a predicate: the loops of the source that count over a map.\<close>

definition count_map :: "('v \<Rightarrow> bool) \<Rightarrow> ('k, 'v) gomap \<Rightarrow> nat" where
  "count_map P m = length (filter P (map snd m))"

lemma count_map_Nil [simp]: "count_map P [] = 0"
  by (simp add: count_map_def)

lemma count_map_Cons [simp]:
  "count_map P (e # m) = (if P (snd e) then 1 else 0) + count_map P m"
  by (simp add: count_map_def)

lemma count_map_append [simp]: "count_map P (m @ n) = count_map P m + count_map P n"
  by (simp add: count_map_def)

lemma count_map_update_old:
  assumes "distinct (map fst m)" and "map_of m k = Some t"
  shows "count_map P (AList.update k t' m) + (if P t then 1 else 0)
       = count_map P m + (if P t' then 1 else 0)"
  using assms
proof (induction m)
  case Nil
  then show ?case by simp
next
  case (Cons e m)
  show ?case
  proof (cases "fst e = k")
    case True
    with Cons.prems show ?thesis by (cases e) auto
  next
    case False
    with Cons show ?thesis by (cases e) auto
  qed
qed

lemma count_map_update_new:
  "map_of m k = None \<Longrightarrow>
     count_map P (AList.update k t m) = count_map P m + (if P t then 1 else 0)"
  by (induction m) auto

lemma count_map_update_same:
  assumes "distinct (map fst m)" and "map_of m k = Some t" and "P t' = P t"
  shows "count_map P (AList.update k t' m) = count_map P m"
  using count_map_update_old [OF assms(1,2), of P t'] assms(3) by auto

lemma count_map_mset: "mset m = mset m' \<Longrightarrow> count_map P m = count_map P m'"
  unfolding count_map_def by (metis mset_filter mset_map size_mset)

lemma count_map_zero: "count_map P m = 0 \<longleftrightarrow> (\<forall>(k, v) \<in> set m. \<not> P v)"
  by (induction m) (auto split: if_splits)

lemma map_of_mset:
  "mset m = mset m' \<Longrightarrow> distinct (map fst m) \<Longrightarrow> map_of m = map_of m'"
  by (metis distinct_map map_of_inject_set mset_eq_imp_distinct_iff mset_eq_setD mset_map)

text \<open>Sums over a map, and reading a key that may be absent (Go's zero value).\<close>

definition sum_map :: "('v \<Rightarrow> 'a) \<Rightarrow> ('k, 'v) gomap \<Rightarrow> 'a::comm_monoid_add" where
  "sum_map f m = sum_list (map (\<lambda>e. f (snd e)) m)"

definition lookup0 :: "'v \<Rightarrow> ('k, 'v) gomap \<Rightarrow> 'k \<Rightarrow> 'v" where
  "lookup0 z m k = (case map_of m k of None \<Rightarrow> z | Some v \<Rightarrow> v)"

lemma lookup0_Nil [simp]: "lookup0 z [] k = z"
  by (simp add: lookup0_def)

lemma lookup0_update [simp]: "lookup0 z (AList.update k v m) k' = (if k' = k then v else lookup0 z m k')"
  by (simp add: lookup0_def)

lemma sum_map_simps [simp]:
  "sum_map f [] = 0" "sum_map f (e # m) = f (snd e) + sum_map f m"
  by (simp_all add: sum_map_def)

lemma sum_map_update:
  assumes "distinct (map fst m)" and "f z = 0"
  shows "sum_map f (AList.update k v m) + f (lookup0 z m k) = sum_map f m + (f v :: 'a::comm_monoid_add)"
  using assms
proof (induction m)
  case Nil
  then show ?case by simp
next
  case (Cons e m)
  obtain k' v' where e: "e = (k', v')" by fastforce
  show ?case
  proof (cases "k' = k")
    case True
    then show ?thesis by (simp add: e lookup0_def ac_simps)
  next
    case False
    then have "lookup0 z (e # m) k = lookup0 z m k" by (simp add: e lookup0_def)
    with Cons False show ?thesis by (simp add: e add.assoc)
  qed
qed

subsection \<open>Bytes and strings\<close>

type_synonym byte = "8 word"

definition bytes_of :: "string \<Rightarrow> byte list" where
  "bytes_of s = map of_char s"

lemma length_bytes_of [simp]: "length (bytes_of s) = length s"
  by (simp add: bytes_of_def)

subsection \<open>Decimal and hexadecimal formatting\<close>

definition digit_char :: "nat \<Rightarrow> char" where
  "digit_char d = (if d < 10 then char_of (48 + d) else char_of (87 + d))"

definition char_digit :: "char \<Rightarrow> nat" where
  "char_digit c = of_char c - 48"

fun dec_nat :: "nat \<Rightarrow> string" where
  "dec_nat n = (if n < 10 then [digit_char n] else dec_nat (n div 10) @ [digit_char (n mod 10)])"

declare dec_nat.simps [simp del]

fun dec_val :: "nat \<Rightarrow> string \<Rightarrow> nat" where
  "dec_val acc [] = acc"
| "dec_val acc (c # cs) = dec_val (10 * acc + char_digit c) cs"

lemma dec_val_append: "dec_val a (xs @ ys) = dec_val (dec_val a xs) ys"
  by (induction xs arbitrary: a) auto

lemma char_digit_digit_char: "n < 10 \<Longrightarrow> char_digit (digit_char n) = n"
  by (simp add: char_digit_def digit_char_def)

lemma dec_val_dec_nat: "dec_val 0 (dec_nat n) = n"
proof (induction n rule: dec_nat.induct)
  case (1 n)
  show ?case
  proof (cases "n < 10")
    case True
    then show ?thesis by (subst dec_nat.simps) (simp add: char_digit_digit_char)
  next
    case False
    with 1 show ?thesis
      by (subst dec_nat.simps) (simp add: dec_val_append char_digit_digit_char)
  qed
qed

lemma dec_nat_inject [simp]: "dec_nat m = dec_nat n \<longleftrightarrow> m = n"
  by (metis dec_val_dec_nat)

definition is_digit :: "char \<Rightarrow> bool" where
  "is_digit c \<longleftrightarrow> 48 \<le> (of_char c :: nat) \<and> (of_char c :: nat) \<le> 57"

lemma is_digit_digit_char: "n < 10 \<Longrightarrow> is_digit (digit_char n)"
  by (simp add: is_digit_def digit_char_def)

lemma is_digit_dec_nat: "\<forall>c \<in> set (dec_nat n). is_digit c"
proof (induction n rule: dec_nat.induct)
  case (1 n)
  show ?case
  proof (cases "n < 10")
    case True
    then show ?thesis by (subst dec_nat.simps) (simp add: is_digit_digit_char)
  next
    case False
    with 1 [OF False] show ?thesis by (subst dec_nat.simps) (auto simp: is_digit_digit_char)
  qed
qed

text \<open>\<^verbatim>\<open>%0Wd\<close> of a signed integer: the sign first, then zeros up to the width.\<close>

definition pad_zero :: "nat \<Rightarrow> string \<Rightarrow> string" where
  "pad_zero w s = replicate (w - length s) (CHR ''0'') @ s"

definition fmt_d :: "int \<Rightarrow> string" where
  "fmt_d i = (if i < 0 then ''-'' @ dec_nat (nat (- i)) else dec_nat (nat i))"

definition fmt_0d :: "nat \<Rightarrow> int \<Rightarrow> string" where
  "fmt_0d w i = (if i < 0 then ''-'' @ pad_zero (w - 1) (dec_nat (nat (- i)))
                 else pad_zero w (dec_nat (nat i)))"

definition fmt_02x :: "nat \<Rightarrow> string" where
  "fmt_02x n = [digit_char (n div 16), digit_char (n mod 16)]"

lemma dec_val_zeros: "dec_val 0 (replicate k (CHR ''0'') @ s) = dec_val 0 s"
  by (induction k) (auto simp: char_digit_def of_char_def)

lemma fmt_0d_inject:
  "0 \<le> a \<Longrightarrow> 0 \<le> b \<Longrightarrow> fmt_0d w a = fmt_0d w b \<longleftrightarrow> a = b"
  unfolding fmt_0d_def pad_zero_def
  by (metis dec_val_dec_nat dec_val_zeros int_nat_eq linorder_not_less)

lemma is_digit_simps [simp]:
  "is_digit (CHR ''0'')" "\<not> is_digit (CHR ''-'')" "\<not> is_digit (CHR ''/'')" "\<not> is_digit (CHR ''.'')"
  by (simp_all add: is_digit_def of_char_def)

lemma is_digit_fmt_0d: "0 \<le> a \<Longrightarrow> \<forall>c \<in> set (fmt_0d w a). is_digit c"
  unfolding fmt_0d_def pad_zero_def using is_digit_dec_nat [of "nat a"] by auto

text \<open>Text split at the first occurrence of a separator determines its two halves.\<close>

lemma split_at_first:
  assumes "xs @ c # ys = xs' @ c # ys'" and "c \<notin> set xs" and "c \<notin> set xs'"
  shows "xs = xs'" and "ys = ys'"
proof -
  have "takeWhile ((\<noteq>) c) (xs @ c # ys) = xs" "takeWhile ((\<noteq>) c) (xs' @ c # ys') = xs'"
    using assms(2,3) by (auto simp: takeWhile_append)
  with assms(1) show "xs = xs'" by simp
  with assms(1) show "ys = ys'" by simp
qed

end
