(* ===== verification/Go_Hash.thy ===== *)
theory Go_Hash
  imports Prelude
begin

section \<open>Standard-library primitives: byte orders, CRC-32 and SHA-256\<close>

text \<open>
  The functions of Go's standard library the source computes with: \<^verbatim>\<open>encoding/binary\<close>
  (big- and little-endian words), \<^verbatim>\<open>hash/crc32\<close> (the reflected, bitwise form of the
  IEEE and the Castagnoli polynomial) and \<^verbatim>\<open>crypto/sha256\<close> (FIPS 180-4). All of them
  are executable definitions on machine words.

  The proofs of the development use only what is proved here: the byte-order round trips and the
  lengths of the encodings. In particular no theorem assumes that a hash is injective.
\<close>

unbundle bit_operations_syntax

subsection \<open>Big-endian and little-endian encodings\<close>

text \<open>The \<open>n\<close> low bytes of a word, most significant first, and the inverse.\<close>

fun put_be :: "nat \<Rightarrow> 'a::len word \<Rightarrow> byte list" where
  "put_be 0 w = []"
| "put_be (Suc n) w = ucast (drop_bit (8 * n) w) # put_be n w"

fun get_be :: "byte list \<Rightarrow> nat" where
  "get_be [] = 0"
| "get_be (b # bs) = unat b * 256 ^ length bs + get_be bs"

definition put_le :: "nat \<Rightarrow> 'a::len word \<Rightarrow> byte list" where
  "put_le n w = rev (put_be n w)"

definition get_le :: "byte list \<Rightarrow> nat" where
  "get_le bs = get_be (rev bs)"

lemma length_put_be [simp]: "length (put_be n w) = n"
  by (induction n) auto

lemma length_put_le [simp]: "length (put_le n w) = n"
  by (simp add: put_le_def)

lemma unat_ucast_byte: "unat (ucast (w :: 'a::len word) :: byte) = unat w mod 256"
  by (simp add: unsigned_ucast_eq take_bit_eq_mod)

lemma get_be_put_be: "get_be (put_be n w) = unat w mod 256 ^ n"
proof (induction n)
  case 0
  then show ?case by simp
next
  case (Suc n)
  have d: "unat (drop_bit (8 * n) w) = unat w div 256 ^ n"
    unfolding unat_drop_bit_eq by (simp add: drop_bit_eq_div power_mult)
  have "unat w mod (256 ^ n * 256) = 256 ^ n * (unat w div 256 ^ n mod 256) + unat w mod 256 ^ n"
    by (rule mod_mult2_eq)
  then have "unat w mod (256 * 256 ^ n) = (unat w div 256 ^ n mod 256) * 256 ^ n + unat w mod 256 ^ n"
    by (metis mult.commute)
  then show ?case by (simp add: Suc d unat_ucast_byte)
qed

lemma get_be_put_be32 [simp]: "get_be (put_be 4 (w :: 32 word)) = unat w"
  using unsigned_less [of w, where ?'a = nat] by (simp add: get_be_put_be)

lemma get_be_put_be64 [simp]: "get_be (put_be 8 (w :: 64 word)) = unat w"
  using unsigned_less [of w, where ?'a = nat] by (simp add: get_be_put_be)

lemma get_le_put_le32 [simp]: "get_le (put_le 4 (w :: 32 word)) = unat w"
  by (simp add: get_le_def put_le_def)

lemma get_le_put_le64 [simp]: "get_le (put_le 8 (w :: 64 word)) = unat w"
  by (simp add: get_le_def put_le_def)

subsection \<open>CRC-32\<close>

definition crc_bit :: "32 word \<Rightarrow> 32 word \<Rightarrow> 32 word" where
  "crc_bit poly c = (if c AND 1 = 1 then drop_bit 1 c XOR poly else drop_bit 1 c)"

definition crc_byte :: "32 word \<Rightarrow> 32 word \<Rightarrow> byte \<Rightarrow> 32 word" where
  "crc_byte poly c b = (crc_bit poly ^^ 8) (c XOR ucast b)"

definition crc32_checksum :: "32 word \<Rightarrow> byte list \<Rightarrow> 32 word" where
  "crc32_checksum poly bs = NOT (foldl (crc_byte poly) (NOT 0) bs)"

definition poly_ieee :: "32 word" where
  "poly_ieee = 0xEDB88320"

definition poly_castagnoli :: "32 word" where
  "poly_castagnoli = 0x82F63B78"

subsection \<open>SHA-256\<close>

definition rotr32 :: "nat \<Rightarrow> 32 word \<Rightarrow> 32 word" where
  "rotr32 n w = drop_bit n w OR push_bit (32 - n) w"

text \<open>The constants of SHA-256: the first 32 bits of the fractional parts of the cube roots of the first 64
  primes, and of the square roots of the first eight. \<open>iroot k b n\<close> is the integer \<open>k\<close>-th root of \<open>n\<close>, found bit
  by bit from bit \<open>b - 1\<close> down.\<close>

fun iroot_bits :: "nat \<Rightarrow> nat \<Rightarrow> nat \<Rightarrow> nat \<Rightarrow> nat" where
  "iroot_bits k n 0 r = r"
| "iroot_bits k n (Suc b) r = iroot_bits k n b (if (r + 2 ^ b) ^ k \<le> n then r + 2 ^ b else r)"

definition root_fraction :: "nat \<Rightarrow> nat \<Rightarrow> 32 word" where
  "root_fraction k p = word_of_nat (iroot_bits k (p * 2 ^ (32 * k)) 40 0)"

definition sha_primes :: "nat list" where
  "sha_primes =
    [2, 3, 5, 7, 11, 13, 17, 19, 23, 29, 31, 37, 41, 43, 47, 53,
     59, 61, 67, 71, 73, 79, 83, 89, 97, 101, 103, 107, 109, 113, 127, 131,
     137, 139, 149, 151, 157, 163, 167, 173, 179, 181, 191, 193, 197, 199, 211, 223,
     227, 229, 233, 239, 241, 251, 257, 263, 269, 271, 277, 281, 283, 293, 307, 311]"

definition sha_k :: "32 word list" where
  "sha_k = map (root_fraction 3) sha_primes"

definition sha_h0 :: "32 word list" where
  "sha_h0 = map (root_fraction 2) (take 8 sha_primes)"

definition sha_pad :: "byte list \<Rightarrow> byte list" where
  "sha_pad m = m @ [0x80] @ replicate ((119 - length m mod 64) mod 64) 0
                 @ put_be 8 (word_of_nat (8 * length m) :: 64 word)"

fun words_be :: "byte list \<Rightarrow> 32 word list" where
  "words_be (a # b # c # d # bs) = word_of_nat (get_be [a, b, c, d]) # words_be bs"
| "words_be _ = []"

fun sha_schedule :: "nat \<Rightarrow> 32 word list \<Rightarrow> 32 word list" where
  "sha_schedule 0 ws = ws"
| "sha_schedule (Suc n) ws =
     (let i = length ws;
          w15 = ws ! (i - 15); w2 = ws ! (i - 2);
          s0 = rotr32 7 w15 XOR rotr32 18 w15 XOR drop_bit 3 w15;
          s1 = rotr32 17 w2 XOR rotr32 19 w2 XOR drop_bit 10 w2
      in sha_schedule n (ws @ [ws ! (i - 16) + s0 + ws ! (i - 7) + s1]))"

fun sha_round :: "32 word list \<Rightarrow> 32 word \<times> 32 word \<Rightarrow> 32 word list" where
  "sha_round [a, b, c, d, e, f, g, h] (k, w) =
     (let S1 = rotr32 6 e XOR rotr32 11 e XOR rotr32 25 e;
          ch = (e AND f) XOR (NOT e AND g);
          t1 = h + S1 + ch + k + w;
          S0 = rotr32 2 a XOR rotr32 13 a XOR rotr32 22 a;
          maj = (a AND b) XOR (a AND c) XOR (b AND c);
          t2 = S0 + maj
      in [t1 + t2, a, b, c, d + t1, e, f, g])"
| "sha_round st _ = st"

definition sha_block :: "32 word list \<Rightarrow> byte list \<Rightarrow> 32 word list" where
  "sha_block h blk = map2 (+) h (foldl sha_round h (zip sha_k (sha_schedule 48 (words_be blk))))"

function sha_blocks :: "32 word list \<Rightarrow> byte list \<Rightarrow> 32 word list" where
  "sha_blocks h bs = (if bs = [] then h else sha_blocks (sha_block h (take 64 bs)) (drop 64 bs))"
  by pat_completeness auto
termination
  by (relation "measure (\<lambda>(h, bs). length bs)") auto

declare sha_blocks.simps [simp del]

definition sha256_sum :: "byte list \<Rightarrow> byte list" where
  "sha256_sum m = concat (map (put_be 4) (sha_blocks sha_h0 (sha_pad m)))"

lemma length_sha_round [simp]: "length (sha_round h kw) = length h"
  by (induction h kw rule: sha_round.induct) (auto simp: Let_def)

lemma length_sha_rounds [simp]: "length (foldl sha_round h kws) = length h"
  by (induction kws arbitrary: h) auto

lemma length_sha_block [simp]: "length (sha_block h blk) = length h"
  by (simp add: sha_block_def)

lemma length_sha_blocks [simp]: "length (sha_blocks h bs) = length h"
proof (induction h bs rule: sha_blocks.induct)
  case (1 h bs)
  then show ?case by (subst sha_blocks.simps) auto
qed

text \<open>A digest is always 32 bytes, so the prefixes the source takes of it exist.\<close>

lemma length_sha256_sum [simp]: "length (sha256_sum m) = 32"
  by (simp add: sha256_sum_def length_concat comp_def sum_list_triv sha_h0_def sha_primes_def)

text \<open>\<^verbatim>\<open>hex.EncodeToString\<close>.\<close>

definition hex_encode :: "byte list \<Rightarrow> string" where
  "hex_encode bs = concat (map (\<lambda>b. fmt_02x (unat b)) bs)"

lemma length_hex_encode [simp]: "length (hex_encode bs) = 2 * length bs"
  by (simp add: hex_encode_def length_concat comp_def fmt_02x_def sum_list_triv)

end
