(* ===== verification/Keys.thy ===== *)
theory Keys
  imports Go_Hash
begin

section \<open>Shards, object keys and result keys\<close>

text \<open>
  \<^verbatim>\<open>internal/storage/shard.go\<close> (the 256 hash-prefix shards, object keys and storage
  tiers) and the key functions of \<^verbatim>\<open>internal/scheduler/commit.go\<close>: where a worker stages a
  result, where the coordinator commits it, and the idempotency key stamped on side effects.

  The result keys carry the exactly-once argument of the program: a re-execution writes the same
  key, and two different units of work write different keys. The second half needs that job ids
  and shards contain no slash (they are UUIDs and two hex digits).
\<close>

subsection \<open>Shards\<close>

definition ShardCount :: nat where
  "ShardCount = 256"

definition ShardKey :: "string \<Rightarrow> string" where
  "ShardKey filename = fmt_02x (unat (hd (sha256_sum (bytes_of filename))))"

definition ObjectKey :: "string \<Rightarrow> string \<Rightarrow> string" where
  "ObjectKey dataset filename = dataset @ ''/'' @ ShardKey filename @ ''/'' @ filename"

definition AllShards :: "string list" where
  "AllShards = map fmt_02x [0..<ShardCount]"

datatype StorageTier = TierHot | TierWarm | TierCold | TierArchive | TierOther string

fun S3StorageClass :: "StorageTier \<Rightarrow> string" where
  "S3StorageClass TierHot = ''STANDARD''"
| "S3StorageClass TierWarm = ''STANDARD_IA''"
| "S3StorageClass TierCold = ''GLACIER_IR''"
| "S3StorageClass TierArchive = ''DEEP_ARCHIVE''"
| "S3StorageClass (TierOther _) = ''STANDARD''"

lemma digit_char_inject: "a < 16 \<Longrightarrow> b < 16 \<Longrightarrow> digit_char a = digit_char b \<longleftrightarrow> a = b"
  by (simp add: digit_char_def)

lemma fmt_02x_inject: "a < 256 \<Longrightarrow> b < 256 \<Longrightarrow> fmt_02x a = fmt_02x b \<longleftrightarrow> a = b"
  by (simp add: fmt_02x_def digit_char_inject) (metis div_mult_mod_eq)

lemma ShardKey_in_AllShards: "ShardKey f \<in> set AllShards"
proof -
  have "unat (hd (sha256_sum (bytes_of f))) < 256"
    using unsigned_less [of "hd (sha256_sum (bytes_of f))", where ?'a = nat] by simp
  then show ?thesis by (auto simp: ShardKey_def AllShards_def ShardCount_def)
qed

lemma AllShards_shape: "length AllShards = 256" "distinct AllShards"
  by (auto simp: AllShards_def ShardCount_def distinct_map inj_on_def fmt_02x_inject)

lemma AllShards_nonempty [simp]: "AllShards \<noteq> []"
  using AllShards_shape(1) by auto

lemma S3StorageClass_inject:
  assumes "t \<in> {TierHot, TierWarm, TierCold, TierArchive}" "u \<in> {TierHot, TierWarm, TierCold, TierArchive}"
  shows "S3StorageClass t = S3StorageClass u \<longleftrightarrow> t = u"
  using assms by auto

subsection \<open>Result keys\<close>

record Range =
  rStart :: int
  rEnd :: int
  rSplit :: bool

definition StagingResultKey :: "string \<Rightarrow> string \<Rightarrow> string" where
  "StagingResultKey jobID taskID = ''staging/'' @ jobID @ ''/'' @ taskID @ ''.parquet''"

definition FinalResultKey :: "string \<Rightarrow> string \<Rightarrow> Range \<Rightarrow> string" where
  "FinalResultKey jobID shard rng =
     (if \<not> rSplit rng then ''results/'' @ jobID @ ''/'' @ shard @ ''.parquet''
      else ''results/'' @ jobID @ ''/'' @ shard @ ''/'' @ fmt_0d 12 (rStart rng) @ ''-''
             @ fmt_0d 12 (rEnd rng) @ ''.parquet'')"

definition SideEffectKey :: "string \<Rightarrow> string \<Rightarrow> Range \<Rightarrow> string" where
  "SideEffectKey jobID shard rng =
     ''sfx-'' @ hex_encode (take 16 (sha256_sum (bytes_of (FinalResultKey jobID shard rng))))"

text \<open>The part of a range that names its result: nothing for a whole shard, both ends for a
  piece of a split shard.\<close>

definition range_id :: "Range \<Rightarrow> (int \<times> int) option" where
  "range_id r = (if rSplit r then Some (rStart r, rEnd r) else None)"

definition slash_free :: "string \<Rightarrow> bool" where
  "slash_free s \<longleftrightarrow> CHR ''/'' \<notin> set s"

lemma slash_not_in_range:
  "0 \<le> a \<Longrightarrow> 0 \<le> b \<Longrightarrow> CHR ''/'' \<notin> set (fmt_0d 12 a @ ''-'' @ fmt_0d 12 b @ ''.parquet'')"
  using is_digit_fmt_0d [of a 12] is_digit_fmt_0d [of b 12] by (auto dest: bspec)

lemma range_text_inject:
  assumes "fmt_0d 12 a @ ''-'' @ fmt_0d 12 b @ ''.parquet'' = fmt_0d 12 c @ ''-'' @ fmt_0d 12 d @ ''.parquet''"
    and "0 \<le> a" "0 \<le> b" "0 \<le> c" "0 \<le> d"
  shows "a = c \<and> b = d"
proof -
  have nd: "CHR ''-'' \<notin> set (fmt_0d 12 x)" if "0 \<le> x" for x
    using is_digit_fmt_0d [OF that, of 12] is_digit_simps by blast
  have eq: "fmt_0d 12 a @ CHR ''-'' # fmt_0d 12 b @ ''.parquet''
          = fmt_0d 12 c @ CHR ''-'' # fmt_0d 12 d @ ''.parquet''"
    using assms(1) by simp
  have "fmt_0d 12 a = fmt_0d 12 c" "fmt_0d 12 b @ ''.parquet'' = fmt_0d 12 d @ ''.parquet''"
    using split_at_first [OF eq nd nd] assms(2,4) by blast+
  then show ?thesis using assms by (simp add: fmt_0d_inject)
qed

text \<open>The text after the job id determines the shard and the range.\<close>

lemma final_suffix_inject:
  assumes "slash_free sh" "slash_free sh'"
    and "rSplit r \<Longrightarrow> 0 \<le> rStart r \<and> 0 \<le> rEnd r"
    and "rSplit r' \<Longrightarrow> 0 \<le> rStart r' \<and> 0 \<le> rEnd r'"
    and "FinalResultKey j sh r = FinalResultKey j sh' r'"
  shows "sh = sh' \<and> range_id r = range_id r'"
proof (cases "rSplit r = rSplit r'")
  case False
  then have "CHR ''/'' \<in> set (sh @ ''.parquet'') \<or> CHR ''/'' \<in> set (sh' @ ''.parquet'')"
    using assms(5) by (auto simp: FinalResultKey_def split: if_splits dest: arg_cong [where f = set])
  then show ?thesis using assms(1,2) by (auto simp: slash_free_def)
next
  case True
  show ?thesis
  proof (cases "rSplit r")
    case False
    with True assms(5) show ?thesis by (simp add: FinalResultKey_def range_id_def)
  next
    case split: True
    let ?t = "\<lambda>r. fmt_0d 12 (rStart r) @ ''-'' @ fmt_0d 12 (rEnd r) @ ''.parquet''"
    have "sh @ CHR ''/'' # ?t r = sh' @ CHR ''/'' # ?t r'"
      using assms(5) True split by (simp add: FinalResultKey_def)
    then have "sh = sh'" "?t r = ?t r'"
      using split_at_first [of sh "CHR ''/''" "?t r" sh' "?t r'"] assms(1,2)
      by (simp_all add: slash_free_def)
    with range_text_inject [of "rStart r" "rEnd r" "rStart r'" "rEnd r'"] assms(3,4) True split
    show ?thesis by (simp add: range_id_def)
  qed
qed

lemma FinalResultKey_inject:
  assumes "slash_free j" "slash_free j'" "slash_free sh" "slash_free sh'"
    and "rSplit r \<Longrightarrow> 0 \<le> rStart r \<and> 0 \<le> rEnd r"
    and "rSplit r' \<Longrightarrow> 0 \<le> rStart r' \<and> 0 \<le> rEnd r'"
    and eq: "FinalResultKey j sh r = FinalResultKey j' sh' r'"
  shows "j = j' \<and> sh = sh' \<and> range_id r = range_id r'"
proof -
  have tail: "\<exists>ys. FinalResultKey k s q = ''results/'' @ k @ CHR ''/'' # ys" for k s q
    by (simp add: FinalResultKey_def)
  obtain ys ys' where "FinalResultKey j sh r = ''results/'' @ j @ CHR ''/'' # ys"
    and "FinalResultKey j' sh' r' = ''results/'' @ j' @ CHR ''/'' # ys'"
    using tail by blast
  with eq have "j @ CHR ''/'' # ys = j' @ CHR ''/'' # ys'" by simp
  then have "j = j'"
    using split_at_first assms(1,2) unfolding slash_free_def by metis
  with final_suffix_inject [OF assms(3-6)] eq show ?thesis by simp
qed

lemma StagingResultKey_not_final: "StagingResultKey j t \<noteq> FinalResultKey j' sh r"
  by (simp add: StagingResultKey_def FinalResultKey_def)

lemma SideEffectKey_cong:
  "FinalResultKey j sh r = FinalResultKey j' sh' r' \<Longrightarrow> SideEffectKey j sh r = SideEffectKey j' sh' r'"
  by (simp add: SideEffectKey_def)

lemma length_SideEffectKey: "length (SideEffectKey j sh r) = 36"
  by (simp add: SideEffectKey_def)

end
