(* ===== verification/Job.thy ===== *)
theory Job
  imports Keys
begin

section \<open>Jobs, tasks and the messages about them\<close>

text \<open>
  The data of \<^verbatim>\<open>internal/scheduler/job.go\<close>, \<^verbatim>\<open>commit.go\<close> and \<^verbatim>\<open>persist.go\<close>. Go
  \<^verbatim>\<open>int64\<close> offsets, generations and counters are integers kept in the 64-bit range by \<open>i64\<close>
  where the code computes with them; times are nanoseconds; a nil time pointer is \<open>None\<close>; the zero
  value of a string is the empty list. Field names carry the initial of their struct.
\<close>

datatype JobStatus = JobPending | JobRunning | JobCompleted | JobFailed | JobCancelled

datatype TaskStatus = TaskPending | TaskAssigned | TaskRunning | TaskDone | TaskFailed

record Job =
  jID :: string
  jDataset :: string
  jAlgorithm :: string
  jConfig :: "(string, string) gomap"
  jPriority :: int
  jStatus :: JobStatus
  jShards :: "string list"
  jTotalTasks :: int
  jDoneTasks :: int
  jFailedTasks :: int
  jCreatedAt :: int
  jStartedAt :: "int option"
  jFinishedAt :: "int option"
  jError :: string

record Task =
  tID :: string
  tJobID :: string
  tShard :: string
  tWorkerID :: string
  tStatus :: TaskStatus
  tPriority :: int
  tRetries :: int
  tMaxRetries :: int
  tAssignedAt :: "int option"
  tStartedAt :: "int option"
  tFinishedAt :: "int option"
  tError :: string
  tRangeStart :: int
  tRangeEnd :: int
  tFrontier :: int
  tGranted :: int
  tGeneration :: int
  tSplit :: bool

record TaskAssignment =
  aTaskID :: string
  aJobID :: string
  aShard :: string
  aDataset :: string
  aAlgorithm :: string
  aConfig :: "(string, string) gomap"
  aRangeStart :: int
  aRangeEnd :: int
  aBound :: int
  aGeneration :: int
  aSplit :: bool

record RenewLeaseRequest =
  rnWorkerID :: string
  rnGeneration :: int
  rnFrontier :: int
  rnTotal :: int

record LeaseRenewal =
  lrGeneration :: int
  lrBound :: int
  lrStolen :: bool

record SubmitJobRequest =
  sbDataset :: string
  sbAlgorithm :: string
  sbConfig :: "(string, string) gomap"
  sbShards :: "string list"
  sbPriority :: int

record ResultRequest =
  rqWorkerID :: string
  rqImagesProcessed :: int
  rqBytesRead :: int
  rqOutputKey :: string
  rqDuration :: int
  rqError :: string

record CommitDecision =
  cdTaskID :: string
  cdJobID :: string
  cdGeneration :: int
  cdFinalKey :: string

text \<open>The full state a mutation appends to the log (\<^verbatim>\<open>schedulerState\<close> in \<^verbatim>\<open>persist.go\<close>).\<close>

record schedulerState =
  stJobs :: "Job list"
  stTasks :: "Task list"
  stPending :: "string list"

text \<open>A task as Go's composite literal leaves it: every field not named is the zero value.\<close>

definition zero_task :: Task where
  "zero_task = \<lparr>tID = [], tJobID = [], tShard = [], tWorkerID = [], tStatus = TaskPending,
     tPriority = 0, tRetries = 0, tMaxRetries = 0, tAssignedAt = None, tStartedAt = None,
     tFinishedAt = None, tError = [], tRangeStart = 0, tRangeEnd = 0, tFrontier = 0, tGranted = 0,
     tGeneration = 0, tSplit = False\<rparr>"

text \<open>The range of a task, as \<^verbatim>\<open>ReportResult\<close> reads it.\<close>

definition task_range :: "Task \<Rightarrow> Range" where
  "task_range t = \<lparr>rStart = tRangeStart t, rEnd = tRangeEnd t, rSplit = tSplit t\<rparr>"

definition in_flight :: "Task \<Rightarrow> bool" where
  "in_flight t \<longleftrightarrow> tStatus t = TaskAssigned \<or> tStatus t = TaskRunning"

end
