(* ===== verification/Ring.thy ===== *)
theory Ring
  imports Go_Hash
begin

section \<open>The consistent hash ring\<close>

text \<open>
  \<^verbatim>\<open>internal/cluster/ring.go\<close>. A ring keeps a list of virtual nodes sorted by hash and the
  set of physical nodes (a Go map used as a set: a list without duplicates). A key belongs to the
  first virtual node at or after its own hash, wrapping around at the end.

  \<^verbatim>\<open>sort.Slice\<close> leaves the order of virtual nodes with equal hashes open; the model takes the
  stable order. \<^verbatim>\<open>sort.Search\<close> is modelled by the binary search it performs, and proved to
  be the linear search it stands for. The lock is not modelled: every operation runs under it.
\<close>

subsection \<open>Binary search\<close>

function go_search :: "(nat \<Rightarrow> bool) \<Rightarrow> nat \<Rightarrow> nat \<Rightarrow> nat" where
  "go_search f i j =
     (if i < j then let h = (i + j) div 2 in if \<not> f h then go_search f (h + 1) j else go_search f i h
      else i)"
  by pat_completeness auto
termination
  by (relation "measure (\<lambda>(f, i, j). j - i)") auto

declare go_search.simps [simp del]

lemma go_search_spec:
  assumes "i \<le> j" and "\<forall>a b. a \<le> b \<longrightarrow> f a \<longrightarrow> f b"
  shows "i \<le> go_search f i j \<and> go_search f i j \<le> j
       \<and> (\<forall>k. i \<le> k \<and> k < go_search f i j \<longrightarrow> \<not> f k)
       \<and> (go_search f i j < j \<longrightarrow> f (go_search f i j))"
  using assms
proof (induction f i j rule: go_search.induct)
  case (1 f i j)
  let ?h = "(i + j) div 2"
  show ?case
  proof (cases "i < j")
    case False
    with "1.prems"(1) have "i = j" by simp
    moreover have "go_search f i j = i" using False by (simp add: go_search.simps [of f i j])
    ultimately show ?thesis by auto
  next
    case True
    then have h: "i \<le> ?h" "?h < j" by auto
    show ?thesis
    proof (cases "f ?h")
      case False
      with "1.prems"(2) have low: "\<not> f k" if "k \<le> ?h" for k using that by blast
      from "1.IH"(1) [OF True refl False] "1.prems"(2) h
      have "?h + 1 \<le> go_search f (?h + 1) j \<and> go_search f (?h + 1) j \<le> j
          \<and> (\<forall>k. ?h + 1 \<le> k \<and> k < go_search f (?h + 1) j \<longrightarrow> \<not> f k)
          \<and> (go_search f (?h + 1) j < j \<longrightarrow> f (go_search f (?h + 1) j))" by auto
      with True False low h show ?thesis
        by (auto simp: go_search.simps [of f i j] Let_def) (metis not_less_eq_eq)+
    next
      case fh: True
      from "1.IH"(2) [OF True refl] "1.prems"(2) h fh
      have "i \<le> go_search f i ?h \<and> go_search f i ?h \<le> ?h
          \<and> (\<forall>k. i \<le> k \<and> k < go_search f i ?h \<longrightarrow> \<not> f k)
          \<and> (go_search f i ?h < ?h \<longrightarrow> f (go_search f i ?h))" by auto
      with True fh h show ?thesis
        by (auto simp: go_search.simps [of f i j] Let_def)
    qed
  qed
qed

subsection \<open>State and operations\<close>

definition DefaultVnodesPerNode :: int where
  "DefaultVnodesPerNode = 150"

record vnode =
  vhash :: "64 word"
  vnodeID :: string

record Ring =
  vnodes :: "vnode list"
  rnodes :: "string list"
  vnodesPer :: int

definition hashKey :: "string \<Rightarrow> 64 word" where
  "hashKey key = word_of_nat (get_be (take 8 (sha256_sum (bytes_of key))))"

definition NewRing :: "int \<Rightarrow> Ring" where
  "NewRing vnodesPerNode =
     \<lparr>vnodes = [], rnodes = [],
      vnodesPer = (if vnodesPerNode \<le> 0 then DefaultVnodesPerNode else vnodesPerNode)\<rparr>"

definition node_vnodes :: "string \<Rightarrow> int \<Rightarrow> vnode list" where
  "node_vnodes nodeID per =
     map (\<lambda>i. \<lparr>vhash = hashKey (nodeID @ ''#'' @ dec_nat i), vnodeID = nodeID\<rparr>) [0..<nat per]"

definition Add :: "Ring \<Rightarrow> string \<Rightarrow> Ring" where
  "Add r nodeID =
     (if nodeID \<in> set (rnodes r) then r
      else r\<lparr>rnodes := rnodes r @ [nodeID],
             vnodes := sort_key vhash (vnodes r @ node_vnodes nodeID (vnodesPer r))\<rparr>)"

definition Remove :: "Ring \<Rightarrow> string \<Rightarrow> Ring" where
  "Remove r nodeID =
     r\<lparr>rnodes := filter (\<lambda>n. n \<noteq> nodeID) (rnodes r),
       vnodes := filter (\<lambda>v. vnodeID v \<noteq> nodeID) (vnodes r)\<rparr>"

text \<open>The index \<^verbatim>\<open>sort.Search(len(r.vnodes), func(i) r.vnodes[i].hash >= h)\<close>; the predicate is
  only ever asked inside the slice.\<close>

definition search_ring :: "vnode list \<Rightarrow> 64 word \<Rightarrow> nat" where
  "search_ring vs h = go_search (\<lambda>i. i \<ge> length vs \<or> vhash (vs ! i) \<ge> h) 0 (length vs)"

definition Lookup :: "Ring \<Rightarrow> string \<Rightarrow> string outcome" where
  "Lookup r key =
     (if length (vnodes r) = 0 then Err ''ring is empty''
      else let idx = search_ring (vnodes r) (hashKey key);
               idx = (if idx = length (vnodes r) then 0 else idx)
           in Ok (vnodeID (vnodes r ! idx)))"

fun lookupN_loop :: "vnode list \<Rightarrow> nat \<Rightarrow> int \<Rightarrow> nat \<Rightarrow> string list \<Rightarrow> string list" where
  "lookupN_loop vs start n 0 result = result"
| "lookupN_loop vs start n (Suc left) result =
     (if int (length result) < n then
        let i = length vs - Suc left;
            id = vnodeID (vs ! ((start + i) mod length vs))
        in lookupN_loop vs start n left (if id \<in> set result then result else result @ [id])
      else result)"

definition LookupN :: "Ring \<Rightarrow> string \<Rightarrow> int \<Rightarrow> string list outcome" where
  "LookupN r key n =
     (if length (vnodes r) = 0 then Err ''ring is empty''
      else Ok (lookupN_loop (vnodes r) (search_ring (vnodes r) (hashKey key)) n (length (vnodes r)) []))"

definition NodeCount :: "Ring \<Rightarrow> nat" where
  "NodeCount r = length (rnodes r)"

definition Nodes :: "Ring \<Rightarrow> string list" where
  "Nodes r = rnodes r"

definition Distribution :: "Ring \<Rightarrow> (string, nat) gomap" where
  "Distribution r =
     foldl (\<lambda>d v. AList.update (vnodeID v) (Suc (case map_of d (vnodeID v) of None \<Rightarrow> 0 | Some c \<Rightarrow> c)) d)
       [] (vnodes r)"

lemmas ring_defs = NewRing_def Add_def Remove_def Lookup_def LookupN_def

subsection \<open>Well-formedness\<close>

definition ring_wf :: "Ring \<Rightarrow> bool" where
  "ring_wf r \<longleftrightarrow> sorted (map vhash (vnodes r)) \<and> distinct (rnodes r) \<and> 0 < vnodesPer r
     \<and> set (rnodes r) = vnodeID ` set (vnodes r)"

declare ring_wf_def [go_inv]

lemma node_vnodes_ids: "vnodeID ` set (node_vnodes n per) = (if 0 < per then {n} else {})"
  by (auto simp: node_vnodes_def image_iff) (metis zero_less_nat_eq atLeastLessThan_iff le0)

lemma ring_wf_NewRing [simp]: "ring_wf (NewRing n)"
  by (simp add: go_inv NewRing_def DefaultVnodesPerNode_def)

lemma ring_wf_Add [intro]: "ring_wf r \<Longrightarrow> ring_wf (Add r n)"
  using node_vnodes_ids [of n "vnodesPer r"] by (auto simp: go_inv Add_def image_Un)

lemma ring_wf_Remove [intro]: "ring_wf r \<Longrightarrow> ring_wf (Remove r n)"
  by (auto simp: go_inv Remove_def sorted_map sorted_wrt_filter image_iff)

lemma rnodes_Add [simp]: "set (rnodes (Add r n)) = insert n (set (rnodes r))"
  by (auto simp: Add_def)

lemma rnodes_Remove [simp]: "set (rnodes (Remove r n)) = set (rnodes r) - {n}"
  by (auto simp: Remove_def)

subsection \<open>Lookup is successor search\<close>

text \<open>The reference: the first virtual node with a hash at or above the key's, else the first.\<close>

definition successor :: "vnode list \<Rightarrow> 64 word \<Rightarrow> vnode" where
  "successor vs h = (case dropWhile (\<lambda>v. vhash v < h) vs of [] \<Rightarrow> hd vs | v # _ \<Rightarrow> v)"

lemma search_ring_takeWhile:
  assumes "sorted (map vhash vs)"
  shows "search_ring vs h = length (takeWhile (\<lambda>v. vhash v < h) vs)"
proof -
  let ?f = "\<lambda>i. i \<ge> length vs \<or> vhash (vs ! i) \<ge> h"
  let ?k = "length (takeWhile (\<lambda>v. vhash v < h) vs)"
  have mono: "?f b" if "a \<le> b" "?f a" for a b
  proof (cases "b < length vs")
    case True
    with that assms sorted_nth_mono [of "map vhash vs" a b] have "vhash (vs ! a) \<le> vhash (vs ! b)"
      by simp
    with that True show ?thesis by auto
  qed simp
  have k: "?k \<le> length vs" by (rule length_takeWhile_le)
  have below: "\<not> ?f i" if "i < ?k" for i
    using that k nth_mem [OF that] by (auto simp: takeWhile_nth not_le dest: set_takeWhileD)
  have at: "?f ?k" by (meson linorder_not_less nth_length_takeWhile)
  have "\<forall>a b. a \<le> b \<longrightarrow> ?f a \<longrightarrow> ?f b" using mono by blast
  from go_search_spec [of 0 "length vs" ?f, OF le0 this]
  have sr: "search_ring vs h \<le> length vs" "\<And>i. i < search_ring vs h \<Longrightarrow> \<not> ?f i"
    "search_ring vs h < length vs \<Longrightarrow> ?f (search_ring vs h)"
    unfolding search_ring_def by blast+
  have "\<not> ?k < search_ring vs h" using sr(2) at by blast
  moreover have "\<not> search_ring vs h < ?k" using sr(3) below k by (meson less_le_trans)
  ultimately show ?thesis by simp
qed

lemma Lookup_successor:
  assumes "ring_wf r" and "vnodes r \<noteq> []"
  shows "Lookup r key = Ok (vnodeID (successor (vnodes r) (hashKey key)))"
proof -
  let ?vs = "vnodes r" and ?P = "\<lambda>v. vhash v < hashKey key"
  have s: "search_ring ?vs (hashKey key) = length (takeWhile ?P ?vs)"
    using assms(1) by (intro search_ring_takeWhile) (simp add: go_inv)
  show ?thesis
  proof (cases "dropWhile ?P ?vs")
    case Nil
    then have "takeWhile ?P ?vs = ?vs" by (metis append_Nil2 takeWhile_dropWhile_id)
    with s have "search_ring ?vs (hashKey key) = length ?vs" by metis
    moreover have "successor ?vs (hashKey key) = hd ?vs" unfolding successor_def Nil by simp
    ultimately show ?thesis using assms(2) by (simp add: Lookup_def hd_conv_nth)
  next
    case (Cons v ws)
    have "?vs = takeWhile ?P ?vs @ v # ws" using Cons by (metis takeWhile_dropWhile_id)
    then have "length (takeWhile ?P ?vs) < length ?vs" "?vs ! length (takeWhile ?P ?vs) = v"
      by (metis length_append length_Cons less_add_Suc1 add_Suc_right, metis nth_append_length)
    moreover have "successor ?vs (hashKey key) = v" unfolding successor_def Cons by simp
    ultimately show ?thesis using s assms(2) by (simp add: Lookup_def)
  qed
qed

lemma successor_mem: "vs \<noteq> [] \<Longrightarrow> successor vs h \<in> set vs"
  by (auto simp: successor_def split: list.split)
    (metis list.set_intros(1) set_dropWhileD)

text \<open>Dropping virtual nodes other than the successor leaves the successor in place: the core of
  consistent hashing.\<close>

lemma successor_filter:
  assumes "vs \<noteq> []" and "P (successor vs h)"
  shows "successor (filter P vs) h = successor vs h"
proof (cases "dropWhile (\<lambda>v. vhash v < h) vs")
  case Nil
  then have all: "\<forall>v \<in> set vs. vhash v < h" by (simp add: dropWhile_eq_Nil_conv)
  obtain w ws where vs: "vs = w # ws" using assms(1) by (cases vs) auto
  from Nil have s: "successor vs h = w" by (simp add: successor_def vs)
  have "dropWhile (\<lambda>v. vhash v < h) (filter P vs) = []"
    using all by (auto simp: dropWhile_eq_Nil_conv)
  with s assms(2) show ?thesis by (simp add: successor_def vs)
next
  case (Cons v ws)
  let ?Q = "\<lambda>v. vhash v < h"
  have s: "successor vs h = v" by (simp add: successor_def Cons)
  have vs: "vs = takeWhile ?Q vs @ v # ws" using Cons by (metis takeWhile_dropWhile_id)
  have nv: "\<not> ?Q v" using Cons by (metis dropWhile_eq_Cons_conv)
  have "dropWhile ?Q (filter P (takeWhile ?Q vs) @ v # filter P ws) = v # filter P ws"
    using nv by (subst dropWhile_append2) (auto dest: set_takeWhileD)
  moreover have "filter P vs = filter P (takeWhile ?Q vs) @ v # filter P ws"
    using assms(2) s by (subst vs) simp
  ultimately have "successor (filter P vs) h = v" by (simp add: successor_def)
  with s show ?thesis by simp
qed

text \<open>The nodes a key can be owned by are exactly the registered ones.\<close>

lemma vnodes_nonempty: "ring_wf r \<Longrightarrow> rnodes r \<noteq> [] \<Longrightarrow> vnodes r \<noteq> []"
  by (auto simp: go_inv)

lemma Lookup_member:
  assumes "ring_wf r" and "rnodes r \<noteq> []"
  shows "\<exists>n \<in> set (rnodes r). Lookup r key = Ok n"
  using assms Lookup_successor [OF assms(1) vnodes_nonempty [OF assms]]
    successor_mem [OF vnodes_nonempty [OF assms], of "hashKey key"]
  by (auto simp: go_inv)

lemma Lookup_Remove_other:
  assumes "ring_wf r" and "Lookup r key = Ok n" and "n \<noteq> m"
  shows "Lookup (Remove r m) key = Ok n"
proof -
  let ?P = "\<lambda>v. vnodeID v \<noteq> m"
  have ne: "vnodes r \<noteq> []" using assms(2) by (auto simp: Lookup_def)
  have n: "n = vnodeID (successor (vnodes r) (hashKey key))"
    using Lookup_successor [OF assms(1) ne] assms(2) by simp
  with assms(3) have P: "?P (successor (vnodes r) (hashKey key))" by simp
  with successor_mem [OF ne] have "vnodes (Remove r m) \<noteq> []"
    by (auto simp: Remove_def filter_empty_conv)
  from Lookup_successor [OF ring_wf_Remove [OF assms(1)] this]
    successor_filter [where P = ?P, OF ne P] n
  show ?thesis by (simp add: Remove_def)
qed

lemma Remove_Add:
  assumes "ring_wf r" and "n \<notin> set (rnodes r)"
  shows "Remove (Add r n) n = r"
proof -
  have old: "filter (\<lambda>v. vnodeID v \<noteq> n) (vnodes r) = vnodes r"
    using assms by (auto simp: go_inv intro!: filter_True)
  have new: "filter (\<lambda>v. vnodeID v \<noteq> n) (node_vnodes n p) = []" for p
    by (auto simp: node_vnodes_def)
  have "sort_key vhash (vnodes r) = vnodes r"
    using assms(1) by (intro sort_key_id_if_sorted) (simp add: go_inv)
  moreover have "filter (\<lambda>m. m \<noteq> n) (rnodes r) = rnodes r"
    using assms(2) by (auto intro!: filter_True)
  ultimately show ?thesis
    using assms(2) by (simp add: Remove_def Add_def filter_sort old new)
qed

lemma Lookup_Add_other:
  assumes "ring_wf r" and "n \<notin> set (rnodes r)" and "Lookup (Add r n) key = Ok m" and "m \<noteq> n"
  shows "Lookup r key = Ok m"
  using Lookup_Remove_other [OF ring_wf_Add [OF assms(1)] assms(3,4)] Remove_Add [OF assms(1,2)]
  by simp

subsection \<open>Replica sets\<close>

text \<open>The loop of \<^verbatim>\<open>LookupN\<close> collects the distinct node ids in ring order from its start.\<close>

definition ring_order :: "vnode list \<Rightarrow> nat \<Rightarrow> nat \<Rightarrow> string list" where
  "ring_order vs start i = map (\<lambda>k. vnodeID (vs ! ((start + k) mod length vs))) [0..<i]"

lemma ring_order_0: "ring_order vs start 0 = []"
  by (simp add: ring_order_def)

lemma ring_order_Suc:
  "ring_order vs start (Suc i) = ring_order vs start i @ [vnodeID (vs ! ((start + i) mod length vs))]"
  by (simp add: ring_order_def)

lemma lookupN_loop_inv:
  assumes "distinct res" and "set res = set (ring_order vs start (length vs - left))"
    and "left \<le> length vs" and "int (length res) \<le> n"
  shows "distinct (lookupN_loop vs start n left res)
       \<and> set (lookupN_loop vs start n left res) \<subseteq> set (ring_order vs start (length vs))
       \<and> int (length (lookupN_loop vs start n left res)) \<le> n
       \<and> (int (length (lookupN_loop vs start n left res)) < n \<longrightarrow>
            set (lookupN_loop vs start n left res) = set (ring_order vs start (length vs)))"
  using assms
proof (induction left arbitrary: res)
  case 0
  then show ?case by simp
next
  case (Suc left)
  let ?i = "length vs - Suc left"
  let ?id = "vnodeID (vs ! ((start + ?i) mod length vs))"
  let ?res = "if ?id \<in> set res then res else res @ [?id]"
  show ?case
  proof (cases "int (length res) < n")
    case True
    have "length vs - left = Suc ?i" using Suc.prems(3) by simp
    then have "set ?res = set (ring_order vs start (length vs - left))"
      using Suc.prems(2) by (auto simp: ring_order_Suc)
    with Suc.IH [of ?res] Suc.prems True show ?thesis by (simp add: Let_def)
  next
    case False
    have "set (ring_order vs start ?i) \<subseteq> set (ring_order vs start (length vs))"
      by (auto simp: ring_order_def)
    with False Suc.prems show ?thesis by simp
  qed
qed

lemma ring_order_all:
  assumes "vs \<noteq> []"
  shows "set (ring_order vs start (length vs)) = vnodeID ` set vs"
proof
  show "set (ring_order vs start (length vs)) \<subseteq> vnodeID ` set vs"
    using assms by (auto simp: ring_order_def)
  show "vnodeID ` set vs \<subseteq> set (ring_order vs start (length vs))"
  proof
    fix x assume "x \<in> vnodeID ` set vs"
    then obtain j where j: "j < length vs" "x = vnodeID (vs ! j)"
      by (auto simp: in_set_conv_nth)
    define k where "k = (j + length vs - start mod length vs) mod length vs"
    have pos: "0 < length vs" using assms by simp
    have "(start + k) mod length vs = (start mod length vs + (j + length vs - start mod length vs)) mod length vs"
      unfolding k_def by (simp add: mod_add_left_eq mod_add_right_eq)
    also have "\<dots> = (j + length vs) mod length vs"
      using mod_less_divisor [OF pos, of start] by simp
    also have "\<dots> = j" using j by simp
    finally have "(start + k) mod length vs = j" .
    moreover have "k < length vs" using pos by (simp add: k_def)
    ultimately show "x \<in> set (ring_order vs start (length vs))"
      using j by (auto simp: ring_order_def)
  qed
qed

lemma LookupN_distinct_nodes:
  assumes "ring_wf r" and "rnodes r \<noteq> []" and "0 \<le> n"
  shows "\<exists>ids. LookupN r key n = Ok ids \<and> distinct ids \<and> set ids \<subseteq> set (rnodes r)
             \<and> int (length ids) = min n (int (NodeCount r))"
proof -
  have ne: "vnodes r \<noteq> []" by (rule vnodes_nonempty [OF assms(1,2)])
  let ?s = "search_ring (vnodes r) (hashKey key)"
  let ?ids = "lookupN_loop (vnodes r) ?s n (length (vnodes r)) []"
  have all: "set (ring_order (vnodes r) ?s (length (vnodes r))) = set (rnodes r)"
    using assms(1) ring_order_all [OF ne] by (simp add: go_inv)
  have inv: "distinct ?ids" "set ?ids \<subseteq> set (rnodes r)" "int (length ?ids) \<le> n"
      "int (length ?ids) < n \<longrightarrow> set ?ids = set (rnodes r)"
    using lookupN_loop_inv [of "[]" "vnodes r" ?s "length (vnodes r)" n] assms(3)
    by (simp_all add: all ring_order_0)
  have dist: "distinct (rnodes r)" using assms(1) by (simp add: go_inv)
  have "length ?ids \<le> length (rnodes r)"
    using inv(1,2) dist by (metis card_mono distinct_card finite_set)
  moreover have "length ?ids = length (rnodes r)" if "int (length ?ids) < n"
    using inv(1,4) dist that by (metis distinct_card)
  ultimately have "int (length ?ids) = min n (int (NodeCount r))"
    using inv(3) unfolding NodeCount_def by (smt (verit) of_nat_le_iff)
  with inv(1,2) ne show ?thesis by (simp add: LookupN_def)
qed

subsection \<open>Properties\<close>

text \<open>C24. Consistent hashing moves only what it must. On a non-empty ring a lookup returns a member, the
  owner of the first virtual node at or after the key's hash (wrapping round); removing a node changes no
  key's owner unless the removed node was the owner; and adding a node either leaves a key's owner or makes the new node its owner.\<close>

theorem lookup_minimal_disruption:
  assumes "ring_wf r" and "rnodes r \<noteq> []"
  shows "Lookup r key = Ok (vnodeID (successor (vnodes r) (hashKey key)))
     \<and> vnodeID (successor (vnodes r) (hashKey key)) \<in> set (rnodes r)
     \<and> (Lookup r key \<noteq> Ok m \<longrightarrow> Lookup (Remove r m) key = Lookup r key)
     \<and> (Lookup (Add r m) key = Lookup r key \<or> Lookup (Add r m) key = Ok m)"
proof -
  note ne = vnodes_nonempty [OF assms]
  obtain n where n: "n \<in> set (rnodes r)" "Lookup r key = Ok n" using Lookup_member [OF assms] by blast
  have a: "Lookup (Add r m) key = Lookup r key \<or> Lookup (Add r m) key = Ok m"
  proof (cases "m \<in> set (rnodes r)")
    case True
    then show ?thesis by (simp add: Add_def)
  next
    case False
    have "rnodes (Add r m) \<noteq> []" using False by (simp add: Add_def)
    from Lookup_member [OF ring_wf_Add [OF assms(1)] this, of key] obtain k where "Lookup (Add r m) key = Ok k" by blast
    with Lookup_Add_other [OF assms(1) False this] show ?thesis by auto
  qed
  have "Lookup (Remove r m) key = Lookup r key" if "Lookup r key \<noteq> Ok m"
    using Lookup_Remove_other [OF assms(1) n(2), of m] n(2) that by auto
  with a n Lookup_successor [OF assms(1) ne, of key] show ?thesis by auto
qed

theorem lookup_minimal_disruption_witness:
  "\<exists>r. Nodes r = [''a'', ''b''] \<and> (Lookup (Add r ''c'') ''img'' = Lookup r ''img'' \<or> Lookup (Add r ''c'') ''img'' = Ok ''c'')"
proof -
  define r where "r = Add (Add (NewRing 3) ''a'') ''b''"
  have "ring_wf r" unfolding r_def by (intro ring_wf_Add ring_wf_NewRing)
  moreover have "Nodes r = [''a'', ''b'']" "rnodes r \<noteq> []" by (simp_all add: r_def Nodes_def Add_def NewRing_def)
  ultimately show ?thesis using lookup_minimal_disruption [of r "''img''" "''c''"] by blast
qed

text \<open>Replica placement: \<^verbatim>\<open>LookupN\<close> returns distinct members, as many as were asked for or as there are.\<close>

lemma lookupN_replicas:
  assumes "ring_wf r" and "rnodes r \<noteq> []" and "0 \<le> n"
  shows "\<exists>ids. LookupN r key n = Ok ids \<and> distinct ids \<and> set ids \<subseteq> set (Nodes r) \<and> int (length ids) = min n (int (NodeCount r))"
  using LookupN_distinct_nodes [OF assms] by (simp add: Nodes_def)

theorem lookupN_replicas_witness:
  "\<exists>ids. LookupN (Add (NewRing 2) ''a'') ''k'' 3 = Ok ids \<and> distinct ids \<and> length ids = 1"
proof -
  have "ring_wf (Add (NewRing 2) ''a'')" by (intro ring_wf_Add ring_wf_NewRing)
  from lookupN_replicas [OF this, of 3 "''k''"] show ?thesis by (auto simp: NodeCount_def Add_def NewRing_def)
qed

end
