(* ===== verification/Scheduler.thy ===== *)
theory Scheduler
  imports Job Ring
begin

section \<open>The scheduler\<close>

text \<open>
  \<^verbatim>\<open>internal/scheduler/scheduler.go\<close> with the state parts of \<^verbatim>\<open>persist.go\<close> and
  \<^verbatim>\<open>commit.go\<close>. The state is the record \<open>Scheduler\<close>: jobs and tasks (Go maps of pointers: an
  update through a pointer is a write-back at its key), the pending queue, the configuration, the
  store (the sequence of states handed to \<^verbatim>\<open>Append\<close>, \<open>None\<close> when none is attached) and the
  job-done hook (the sequence of job ids it was called with, \<open>None\<close> when none is set).

  Every operation is one function on this state, run under the scheduler's lock. \<^verbatim>\<open>time.Now()\<close>
  and \<^verbatim>\<open>uuid.New()\<close> are arguments. Go's \<^verbatim>\<open>range\<close> over a map visits it in an unspecified order;
  the functions follow the order of the association list, and the step relation of
  \<open>Sched_Inv\<close> may permute it between operations, so the theorems hold for every order.
  Logging, tracing and the diagnostic assertions change no state and are left out, except that
  the assertion of \<^verbatim>\<open>checkLeaseInvariant\<close> is the predicate \<open>lease_ok\<close>.

  \<^verbatim>\<open>ReportResult\<close> releases the lock between its phases; here are its two locked phases
  (\<open>report_begin\<close>, \<open>report_finish\<close>), and theory \<open>Report\<close> composes them with the
  unlocked ones.
\<close>

subsection \<open>State\<close>

record Scheduler =
  jobs :: "(string, Job) gomap"
  tasks :: "(string, Task) gomap"
  pendingQ :: "string list"
  maxRetries :: int
  leaseChunk :: int
  store :: "schedulerState list option"
  onJobDone :: "string list option"

definition defaultLeaseChunk :: int where
  "defaultLeaseChunk = 1000"

definition minStealItems :: int where
  "minStealItems = 2"

definition New :: "int \<Rightarrow> Scheduler" where
  "New maxR = \<lparr>jobs = [], tasks = [], pendingQ = [], maxRetries = maxR,
     leaseChunk = defaultLeaseChunk, store = None, onJobDone = None\<rparr>"

definition SetJobDoneHook :: "Scheduler \<Rightarrow> Scheduler" where
  "SetJobDoneHook s = s\<lparr>onJobDone := Some []\<rparr>"

definition SetLeaseChunk :: "int \<Rightarrow> Scheduler \<Rightarrow> Scheduler" where
  "SetLeaseChunk n s = (if n \<le> 0 then s else s\<lparr>leaseChunk := n\<rparr>)"

definition AttachStore :: "Scheduler \<Rightarrow> Scheduler" where
  "AttachStore s = s\<lparr>store := Some []\<rparr>"

subsection \<open>Persistence\<close>

definition encodeStateLocked :: "Scheduler \<Rightarrow> schedulerState" where
  "encodeStateLocked s = \<lparr>stJobs = map snd (jobs s), stTasks = map snd (tasks s), stPending = pendingQ s\<rparr>"

definition Snapshot :: "Scheduler \<Rightarrow> schedulerState" where
  "Snapshot s = encodeStateLocked s"

definition persistLocked :: "Scheduler \<Rightarrow> Scheduler" where
  "persistLocked s =
     (case store s of None \<Rightarrow> s | Some l \<Rightarrow> s\<lparr>store := Some (l @ [encodeStateLocked s])\<rparr>)"

text \<open>\<^verbatim>\<open>Restore\<close>: the last record, or the snapshot when there is none, decoded by
  \<^verbatim>\<open>json.Unmarshal\<close> (the argument \<open>decode\<close>).\<close>

definition Restore ::
  "('b \<Rightarrow> schedulerState option) \<Rightarrow> 'b option \<Rightarrow> 'b list \<Rightarrow> Scheduler \<Rightarrow> Scheduler outcome" where
  "Restore decode snapshot records s =
     (case (if records \<noteq> [] then Some (last records) else snapshot) of
        None \<Rightarrow> Ok s
      | Some blob \<Rightarrow>
          (case decode blob of
             None \<Rightarrow> Err ''scheduler: decode restored state''
           | Some st \<Rightarrow>
               Ok (s\<lparr>jobs := foldl (\<lambda>m j. AList.update (jID j) j m) [] (stJobs st),
                     tasks := foldl (\<lambda>m t. AList.update (tID t) t m) [] (stTasks st),
                     pendingQ := stPending st\<rparr>)))"

subsection \<open>Leases\<close>

definition resetLeaseLocked :: "Task \<Rightarrow> Task" where
  "resetLeaseLocked t = t\<lparr>tFrontier := tRangeStart t, tGranted := tRangeStart t\<rparr>"

definition grantLocked :: "Scheduler \<Rightarrow> Task \<Rightarrow> Task" where
  "grantLocked s t =
     (let g = i64 (tFrontier t + leaseChunk s);
          g = (if tRangeEnd t \<ge> 0 \<and> g > tRangeEnd t then tRangeEnd t else g)
      in if g > tGranted t then t\<lparr>tGranted := g\<rparr> else t)"

definition lease_ok :: "Task \<Rightarrow> bool" where
  "lease_ok t \<longleftrightarrow> tRangeStart t \<le> tFrontier t \<and> tFrontier t \<le> tGranted t
     \<and> (tRangeEnd t \<ge> 0 \<longrightarrow> tGranted t \<le> tRangeEnd t)"

text \<open>\<^verbatim>\<open>assignmentFor\<close> dereferences the task's job: a missing job is a nil dereference.\<close>

definition assignmentFor :: "Scheduler \<Rightarrow> Task \<Rightarrow> TaskAssignment outcome" where
  "assignmentFor s t =
     (case map_of (jobs s) (tJobID t) of
        None \<Rightarrow> Panic
      | Some job \<Rightarrow> Ok \<lparr>aTaskID = tID t, aJobID = tJobID t, aShard = tShard t, aDataset = jDataset job,
          aAlgorithm = jAlgorithm job, aConfig = jConfig job, aRangeStart = tRangeStart t,
          aRangeEnd = tRangeEnd t, aBound = tGranted t, aGeneration = tGeneration t, aSplit = tSplit t\<rparr>)"

definition assignLocked ::
  "int \<Rightarrow> string \<Rightarrow> Task \<Rightarrow> string \<Rightarrow> Scheduler \<Rightarrow> (TaskAssignment \<times> Scheduler) outcome" where
  "assignLocked now k t workerID s =
     (let t1 = grantLocked s (t\<lparr>tStatus := TaskAssigned, tWorkerID := workerID, tAssignedAt := Some now\<rparr>);
          s1 = s\<lparr>tasks := AList.update k t1 (tasks s)\<rparr>
      in case assignmentFor s1 t1 of Ok a \<Rightarrow> Ok (a, s1) | Err e \<Rightarrow> Err e | Panic \<Rightarrow> Panic)"

subsection \<open>Submission\<close>

fun submit_tasks :: "(nat \<Rightarrow> string) \<Rightarrow> nat \<Rightarrow> Job \<Rightarrow> string list \<Rightarrow> Scheduler \<Rightarrow> Scheduler" where
  "submit_tasks uuid i job [] s = s"
| "submit_tasks uuid i job (shard # shards) s =
     (let t = zero_task\<lparr>tID := uuid i, tJobID := jID job, tShard := shard, tStatus := TaskPending,
                tPriority := jPriority job, tMaxRetries := maxRetries s, tRangeEnd := -1\<rparr>
      in submit_tasks uuid (Suc i) job shards
           (s\<lparr>tasks := AList.update (tID t) t (tasks s), pendingQ := pendingQ s @ [tID t]\<rparr>))"

text \<open>\<open>uuid 0\<close> names the job and \<open>uuid (i + 1)\<close> the task of the \<open>i\<close>-th shard.\<close>

definition Submit :: "int \<Rightarrow> (nat \<Rightarrow> string) \<Rightarrow> SubmitJobRequest \<Rightarrow> Scheduler \<Rightarrow> Job \<times> Scheduler" where
  "Submit now uuid req s =
     (let shards = (if sbShards req = [] then AllShards else sbShards req);
          job = \<lparr>jID = uuid 0, jDataset = sbDataset req, jAlgorithm = sbAlgorithm req,
                 jConfig = sbConfig req, jPriority = sbPriority req, jStatus = JobPending,
                 jShards = shards, jTotalTasks = int (length shards), jDoneTasks = 0, jFailedTasks = 0,
                 jCreatedAt = now, jStartedAt = None, jFinishedAt = None, jError = []\<rparr>;
          s1 = submit_tasks uuid 1 job shards (s\<lparr>jobs := AList.update (jID job) job (jobs s)\<rparr>);
          job1 = job\<lparr>jStatus := JobRunning, jStartedAt := Some now\<rparr>
      in (job1, persistLocked (s1\<lparr>jobs := AList.update (jID job) job1 (jobs s1)\<rparr>)))"

subsection \<open>Work stealing\<close>

fun steal_scan :: "(string, Task) gomap \<Rightarrow> (string \<times> Task) option \<Rightarrow> int \<Rightarrow> (string \<times> Task) option \<times> int" where
  "steal_scan [] victim bestTail = (victim, bestTail)"
| "steal_scan ((k, t) # ts) victim bestTail =
     (if tStatus t \<noteq> TaskAssigned \<and> tStatus t \<noteq> TaskRunning then steal_scan ts victim bestTail
      else if tRangeEnd t < 0 then steal_scan ts victim bestTail
      else let tail = i64 (tRangeEnd t - tGranted t)
           in if tail > bestTail then steal_scan ts (Some (k, t)) tail
              else steal_scan ts victim bestTail)"

text \<open>Returns the stolen task, already entered in the task map.\<close>

definition stealLocked :: "string \<Rightarrow> Scheduler \<Rightarrow> Task option \<times> Scheduler" where
  "stealLocked uuid s =
     (case steal_scan (tasks s) None 0 of
        (None, _) \<Rightarrow> (None, s)
      | (Some (k, victim), bestTail) \<Rightarrow>
          if bestTail < minStealItems then (None, s)
          else let split = i64 (tGranted victim + bestTail div 2)
               in if split \<le> tGranted victim \<or> split \<ge> tRangeEnd victim then (None, s)
                  else let stolen = zero_task\<lparr>tID := uuid, tJobID := tJobID victim, tShard := tShard victim,
                             tStatus := TaskPending, tMaxRetries := tMaxRetries victim,
                             tRangeStart := split, tRangeEnd := tRangeEnd victim,
                             tFrontier := split, tGranted := split, tSplit := True\<rparr>;
                           victim1 = victim\<lparr>tRangeEnd := split,
                             tGeneration := i64 (tGeneration victim + 1), tSplit := True\<rparr>;
                           s1 = s\<lparr>tasks := AList.update uuid stolen (AList.update k victim1 (tasks s))\<rparr>;
                           s2 = (case map_of (jobs s1) (tJobID victim) of
                                   None \<Rightarrow> s1
                                 | Some j \<Rightarrow> s1\<lparr>jobs := AList.update (tJobID victim)
                                                (j\<lparr>jTotalTasks := jTotalTasks j + 1\<rparr>) (jobs s1)\<rparr>)
                       in (Some stolen, s2))"

subsection \<open>Polling\<close>

fun poll_scan ::
  "(string \<Rightarrow> Task option) \<Rightarrow> (string \<Rightarrow> string) \<Rightarrow> string \<Rightarrow> nat \<Rightarrow> string list \<Rightarrow> nat option \<Rightarrow> int
     \<Rightarrow> nat option \<times> nat option" where
  "poll_scan ts owner workerID i [] fallback fallbackPri = (None, fallback)"
| "poll_scan ts owner workerID i (tid # q) fallback fallbackPri =
     (case ts tid of
        None \<Rightarrow> poll_scan ts owner workerID (Suc i) q fallback fallbackPri
      | Some t \<Rightarrow>
          if tStatus t \<noteq> TaskPending then poll_scan ts owner workerID (Suc i) q fallback fallbackPri
          else if owner (tShard t) = workerID then (Some i, fallback)
          else if fallback = None \<or> tPriority t > fallbackPri
               then poll_scan ts owner workerID (Suc i) q (Some i) (tPriority t)
               else poll_scan ts owner workerID (Suc i) q fallback fallbackPri)"

text \<open>\<^verbatim>\<open>owner, _ := s.ring.Lookup(t.Shard)\<close>: the empty string when the ring is empty.\<close>

definition ring_owner :: "Ring \<Rightarrow> string \<Rightarrow> string" where
  "ring_owner r shard = (case Lookup r shard of Ok n \<Rightarrow> n | _ \<Rightarrow> [])"

definition poll_index :: "Ring \<Rightarrow> string \<Rightarrow> Scheduler \<Rightarrow> nat option" where
  "poll_index r workerID s =
     (case poll_scan (map_of (tasks s)) (ring_owner r) workerID 0 (pendingQ s) None 0 of
        (Some i, _) \<Rightarrow> Some i
      | (None, fb) \<Rightarrow> fb)"

definition PollTasks ::
  "int \<Rightarrow> string \<Rightarrow> Ring \<Rightarrow> string \<Rightarrow> Scheduler \<Rightarrow> (TaskAssignment option \<times> Scheduler) outcome" where
  "PollTasks now uuid r workerID s =
     (case poll_index r workerID s of
        None \<Rightarrow>
          (case stealLocked uuid s of
             (Some t, s1) \<Rightarrow>
               (case assignLocked now (tID t) t workerID s1 of
                  Ok (a, s2) \<Rightarrow> Ok (Some a, persistLocked s2) | Err e \<Rightarrow> Err e | Panic \<Rightarrow> Panic)
           | (None, s1) \<Rightarrow> Ok (None, s1))
      | Some idx \<Rightarrow>
          let tid = pendingQ s ! idx;
              s1 = s\<lparr>pendingQ := take idx (pendingQ s) @ drop (Suc idx) (pendingQ s)\<rparr>
          in (case map_of (tasks s1) tid of
                None \<Rightarrow> Panic
              | Some t \<Rightarrow>
                  (case assignLocked now tid t workerID s1 of
                     Ok (a, s2) \<Rightarrow> Ok (Some a, persistLocked s2) | Err e \<Rightarrow> Err e | Panic \<Rightarrow> Panic)))"

subsection \<open>Task life cycle\<close>

definition StartTask :: "int \<Rightarrow> string \<Rightarrow> string \<Rightarrow> Scheduler \<Rightarrow> Scheduler outcome" where
  "StartTask now taskID workerID s =
     (case map_of (tasks s) taskID of
        None \<Rightarrow> Err (''task not found: '' @ taskID)
      | Some t \<Rightarrow> Ok (persistLocked (s\<lparr>tasks := AList.update taskID
                        (t\<lparr>tStatus := TaskRunning, tStartedAt := Some now\<rparr>) (tasks s)\<rparr>)))"

definition RenewLease :: "string \<Rightarrow> RenewLeaseRequest \<Rightarrow> Scheduler \<Rightarrow> (LeaseRenewal \<times> Scheduler) outcome" where
  "RenewLease taskID req s =
     (case map_of (tasks s) taskID of
        None \<Rightarrow> Err (''task not found: '' @ taskID)
      | Some t \<Rightarrow>
          let t1 = (if tRangeEnd t < 0 \<and> rnTotal req > 0 then t\<lparr>tRangeEnd := rnTotal req\<rparr> else t);
              t2 = (if rnFrontier req > tFrontier t1 then t1\<lparr>tFrontier := rnFrontier req\<rparr> else t1);
              t3 = (if tRangeEnd t2 \<ge> 0 \<and> tFrontier t2 > tRangeEnd t2
                    then t2\<lparr>tFrontier := tRangeEnd t2\<rparr> else t2);
              t4 = grantLocked s t3
          in Ok (\<lparr>lrGeneration = tGeneration t4, lrBound = tGranted t4,
                  lrStolen = (rnGeneration req < tGeneration t4)\<rparr>,
                 persistLocked (s\<lparr>tasks := AList.update taskID t4 (tasks s)\<rparr>)))"

definition updateJob :: "int \<Rightarrow> string \<Rightarrow> Scheduler \<Rightarrow> Scheduler" where
  "updateJob now jobID s =
     (case map_of (jobs s) jobID of
        None \<Rightarrow> s
      | Some j \<Rightarrow>
          let mine = (\<lambda>t. tJobID t = jobID);
              done = count_map (\<lambda>t. mine t \<and> tStatus t = TaskDone) (tasks s);
              failed = count_map (\<lambda>t. mine t \<and> tStatus t = TaskFailed) (tasks s);
              pending = count_map (\<lambda>t. mine t \<and> tStatus t \<noteq> TaskDone \<and> tStatus t \<noteq> TaskFailed) (tasks s);
              j1 = j\<lparr>jDoneTasks := int done, jFailedTasks := int failed\<rparr>
          in if pending > 0 then s\<lparr>jobs := AList.update jobID j1 (jobs s)\<rparr>
             else let j2 = j1\<lparr>jFinishedAt := Some now\<rparr>;
                      j3 = (if failed > 0
                            then j2\<lparr>jStatus := JobFailed, jError := dec_nat failed @ '' tasks failed''\<rparr>
                            else j2\<lparr>jStatus := JobCompleted\<rparr>)
                  in s\<lparr>jobs := AList.update jobID j3 (jobs s),
                       onJobDone := map_option (\<lambda>l. l @ [jobID]) (onJobDone s)\<rparr>)"

subsection \<open>Results: the locked phases of ReportResult\<close>

record report_ctx =
  rcJobID :: string
  rcShard :: string
  rcRange :: Range
  rcGen :: int

text \<open>Phase 1: \<open>Ok None\<close> is the early return for a task that is already done.\<close>

definition report_begin :: "string \<Rightarrow> Scheduler \<Rightarrow> report_ctx option outcome" where
  "report_begin taskID s =
     (case map_of (tasks s) taskID of
        None \<Rightarrow> Err (''task not found: '' @ taskID)
      | Some t \<Rightarrow>
          if tStatus t = TaskDone then Ok None
          else Ok (Some \<lparr>rcJobID = tJobID t, rcShard = tShard t, rcRange = task_range t, rcGen = tGeneration t\<rparr>))"

text \<open>Phase 4.\<close>

definition report_finish :: "int \<Rightarrow> string \<Rightarrow> ResultRequest \<Rightarrow> Scheduler \<Rightarrow> Scheduler outcome" where
  "report_finish now taskID req s =
     (case map_of (tasks s) taskID of
        None \<Rightarrow> Err (''task not found: '' @ taskID)
      | Some t \<Rightarrow>
          if tStatus t = TaskDone then Ok s
          else let t1 = t\<lparr>tFinishedAt := Some now, tWorkerID := rqWorkerID req\<rparr>
               in if rqError req \<noteq> [] then
                    let t2 = t1\<lparr>tError := rqError req\<rparr>
                    in if tRetries t2 < tMaxRetries t2 then
                         let t3 = resetLeaseLocked (t2\<lparr>tRetries := tRetries t2 + 1, tStatus := TaskPending,
                                    tWorkerID := []\<rparr>)
                         in Ok (persistLocked (s\<lparr>tasks := AList.update taskID t3 (tasks s),
                                                pendingQ := pendingQ s @ [tID t3]\<rparr>))
                       else Ok (persistLocked (updateJob now (tJobID t2)
                              (s\<lparr>tasks := AList.update taskID (t2\<lparr>tStatus := TaskFailed\<rparr>) (tasks s)\<rparr>)))
                  else Ok (persistLocked (updateJob now (tJobID t1)
                         (s\<lparr>tasks := AList.update taskID (t1\<lparr>tStatus := TaskDone\<rparr>) (tasks s)\<rparr>))))"

subsection \<open>Rebalancing and draining\<close>

text \<open>One iteration of \<^verbatim>\<open>RebalanceWorker\<close>'s loop; the second component counts the requeued tasks.\<close>

definition rebalance_task :: "int \<Rightarrow> string \<Rightarrow> string \<Rightarrow> Scheduler \<times> nat \<Rightarrow> Scheduler \<times> nat" where
  "rebalance_task now workerID k = (\<lambda>(s, requeued).
     (case map_of (tasks s) k of
        None \<Rightarrow> (s, requeued)
      | Some t \<Rightarrow>
          if tWorkerID t \<noteq> workerID then (s, requeued)
          else if tStatus t \<noteq> TaskAssigned \<and> tStatus t \<noteq> TaskRunning then (s, requeued)
          else if tRetries t < tMaxRetries t then
            let t1 = resetLeaseLocked (t\<lparr>tRetries := tRetries t + 1, tStatus := TaskPending, tWorkerID := []\<rparr>)
            in (s\<lparr>tasks := AList.update k t1 (tasks s), pendingQ := pendingQ s @ [tID t1]\<rparr>, Suc requeued)
          else (updateJob now (tJobID t)
                 (s\<lparr>tasks := AList.update k (t\<lparr>tStatus := TaskFailed\<rparr>) (tasks s)\<rparr>), requeued)))"

definition RebalanceWorker :: "int \<Rightarrow> string \<Rightarrow> Scheduler \<Rightarrow> Scheduler" where
  "RebalanceWorker now workerID s =
     (case fold (rebalance_task now workerID) (map fst (tasks s)) (s, 0) of
        (s1, requeued) \<Rightarrow> if requeued > 0 then persistLocked s1 else s1)"

fun drain_loop :: "int \<Rightarrow> string list \<Rightarrow> Scheduler \<Rightarrow> TaskAssignment list \<Rightarrow> (TaskAssignment list \<times> Scheduler) outcome" where
  "drain_loop now [] s acc = Ok (acc, s)"
| "drain_loop now (tid # ids) s acc =
     (case map_of (tasks s) tid of
        None \<Rightarrow> drain_loop now ids s acc
      | Some t \<Rightarrow>
          if tStatus t \<noteq> TaskPending then drain_loop now ids s acc
          else if map_of (jobs s) (tJobID t) = None then drain_loop now ids s acc
          else let t1 = grantLocked s (t\<lparr>tStatus := TaskAssigned, tAssignedAt := Some now\<rparr>);
                   s1 = s\<lparr>tasks := AList.update tid t1 (tasks s)\<rparr>
               in (case assignmentFor s1 t1 of
                     Ok a \<Rightarrow> drain_loop now ids s1 (acc @ [a]) | Err e \<Rightarrow> Err e | Panic \<Rightarrow> Panic))"

text \<open>A negative \<open>n\<close> would slice out of range.\<close>

definition DrainPending :: "int \<Rightarrow> int \<Rightarrow> Scheduler \<Rightarrow> (TaskAssignment list \<times> Scheduler) outcome" where
  "DrainPending now n s =
     (let n1 = (if n > int (length (pendingQ s)) then int (length (pendingQ s)) else n)
      in if n1 = 0 then Ok ([], s)
         else if n1 < 0 then Panic
         else let ids = take (nat n1) (pendingQ s);
                  s1 = s\<lparr>pendingQ := drop (nat n1) (pendingQ s)\<rparr>
              in (case drain_loop now ids s1 [] of
                    Ok (as, s2) \<Rightarrow> Ok (as, persistLocked s2) | Err e \<Rightarrow> Err e | Panic \<Rightarrow> Panic))"

subsection \<open>Queries\<close>

definition GetJob :: "string \<Rightarrow> Scheduler \<Rightarrow> Job outcome" where
  "GetJob jid s = (case map_of (jobs s) jid of None \<Rightarrow> Err (''job not found: '' @ jid) | Some j \<Rightarrow> Ok j)"

definition PendingCount :: "Scheduler \<Rightarrow> nat" where
  "PendingCount s = length (pendingQ s)"

definition Tasks :: "Scheduler \<Rightarrow> Task list" where
  "Tasks s = map snd (tasks s)"

definition ListJobs :: "Scheduler \<Rightarrow> Job list" where
  "ListJobs s = map snd (jobs s)"

lemmas sched_defs [go_defs] = persistLocked_def resetLeaseLocked_def updateJob_def

end
