(* ===== verification/Sched_Wf.thy ===== *)
theory Sched_Wf
  imports Scheduler
begin

section \<open>Scheduler: well-formedness of the state\<close>

text \<open>
  The structural invariant of the scheduler and its preservation by every operation, for any
  request whatsoever: task and job maps are keyed by id, every task belongs to a known job, a
  pending task is in the queue (no task is lost), the queue names known tasks, and a job's task
  count is the number of its tasks. The only assumption is that \<^verbatim>\<open>uuid.New()\<close> returns fresh ids.
\<close>

subsection \<open>Frame lemmas\<close>

lemma persistLocked_fields [simp]:
  "jobs (persistLocked s) = jobs s" "tasks (persistLocked s) = tasks s"
  "pendingQ (persistLocked s) = pendingQ s" "leaseChunk (persistLocked s) = leaseChunk s"
  "maxRetries (persistLocked s) = maxRetries s" "onJobDone (persistLocked s) = onJobDone s"
  by (simp_all add: persistLocked_def split: option.splits)

lemma updateJob_fields [simp]:
  "tasks (updateJob now j s) = tasks s" "pendingQ (updateJob now j s) = pendingQ s"
  "leaseChunk (updateJob now j s) = leaseChunk s" "maxRetries (updateJob now j s) = maxRetries s"
  "store (updateJob now j s) = store s"
  by (simp_all add: updateJob_def Let_def split: option.splits)

text \<open>What no operation but submission and stealing changes of a job.\<close>

definition job_core :: "Job \<Rightarrow> string \<times> string \<times> string list \<times> int" where
  "job_core j = (jID j, jDataset j, jShards j, jTotalTasks j)"

definition jcore :: "Scheduler \<Rightarrow> string \<Rightarrow> (string \<times> string \<times> string list \<times> int) option" where
  "jcore s k = map_option job_core (map_of (jobs s) k)"

lemma jcore_persistLocked [simp]: "jcore (persistLocked s) = jcore s"
  by (simp add: jcore_def fun_eq_iff)

lemma jcore_tasks_update [simp]:
  "jcore (s\<lparr>tasks := x\<rparr>) = jcore s" "jcore (s\<lparr>pendingQ := q\<rparr>) = jcore s"
  by (simp_all add: jcore_def fun_eq_iff)

lemma jcore_updateJob [simp]: "jcore (updateJob now jid s) = jcore s"
  by (rule ext) (auto simp: jcore_def updateJob_def job_core_def Let_def split: option.splits)

lemma jcore_None_iff: "jcore s k = None \<longleftrightarrow> map_of (jobs s) k = None"
  by (simp add: jcore_def)

lemma distinct_jobs_updateJob [simp]:
  "distinct (map fst (jobs s)) \<Longrightarrow> distinct (map fst (jobs (updateJob now jid s)))"
  by (auto simp: updateJob_def Let_def split: option.splits)

lemma grantLocked_fields [simp]:
  "tID (grantLocked s t) = tID t" "tJobID (grantLocked s t) = tJobID t"
  "tShard (grantLocked s t) = tShard t" "tStatus (grantLocked s t) = tStatus t"
  "tRangeStart (grantLocked s t) = tRangeStart t" "tRangeEnd (grantLocked s t) = tRangeEnd t"
  "tFrontier (grantLocked s t) = tFrontier t" "tGeneration (grantLocked s t) = tGeneration t"
  "tSplit (grantLocked s t) = tSplit t" "tRetries (grantLocked s t) = tRetries t"
  "tMaxRetries (grantLocked s t) = tMaxRetries t" "tWorkerID (grantLocked s t) = tWorkerID t"
  "tPriority (grantLocked s t) = tPriority t"
  by (simp_all add: grantLocked_def Let_def)

lemma resetLeaseLocked_fields [simp]:
  "tID (resetLeaseLocked t) = tID t" "tJobID (resetLeaseLocked t) = tJobID t"
  "tShard (resetLeaseLocked t) = tShard t" "tStatus (resetLeaseLocked t) = tStatus t"
  "tRangeStart (resetLeaseLocked t) = tRangeStart t" "tRangeEnd (resetLeaseLocked t) = tRangeEnd t"
  "tFrontier (resetLeaseLocked t) = tRangeStart t" "tGranted (resetLeaseLocked t) = tRangeStart t"
  "tGeneration (resetLeaseLocked t) = tGeneration t" "tSplit (resetLeaseLocked t) = tSplit t"
  "tRetries (resetLeaseLocked t) = tRetries t" "tMaxRetries (resetLeaseLocked t) = tMaxRetries t"
  "tWorkerID (resetLeaseLocked t) = tWorkerID t"
  by (simp_all add: resetLeaseLocked_def)

lemma zero_task_fields [simp]:
  "tID zero_task = []" "tJobID zero_task = []" "tShard zero_task = []" "tWorkerID zero_task = []"
  "tStatus zero_task = TaskPending" "tPriority zero_task = 0" "tRetries zero_task = 0"
  "tMaxRetries zero_task = 0" "tRangeStart zero_task = 0" "tRangeEnd zero_task = 0"
  "tFrontier zero_task = 0" "tGranted zero_task = 0" "tGeneration zero_task = 0" "tSplit zero_task = False"
  by (simp_all add: zero_task_def)

subsection \<open>The invariant\<close>

definition tasks_of :: "string \<Rightarrow> Scheduler \<Rightarrow> nat" where
  "tasks_of jid s = count_map (\<lambda>t. tJobID t = jid) (tasks s)"

definition sched_wf :: "Scheduler \<Rightarrow> bool" where
  "sched_wf s \<longleftrightarrow> distinct (map fst (jobs s)) \<and> distinct (map fst (tasks s))
     \<and> (\<forall>k t. map_of (tasks s) k = Some t \<longrightarrow> tID t = k \<and> jcore s (tJobID t) \<noteq> None)
     \<and> (\<forall>k t. map_of (tasks s) k = Some t \<and> tStatus t = TaskPending \<longrightarrow> k \<in> set (pendingQ s))
     \<and> (\<forall>k \<in> set (pendingQ s). map_of (tasks s) k \<noteq> None)
     \<and> (\<forall>k i d sh n. jcore s k = Some (i, d, sh, n) \<longrightarrow> i = k \<and> n = int (tasks_of k s))"

lemma sched_wfD:
  assumes "sched_wf s"
  shows "distinct (map fst (jobs s))" "distinct (map fst (tasks s))"
    and "map_of (tasks s) k = Some t \<Longrightarrow> tID t = k"
    and "map_of (tasks s) k = Some t \<Longrightarrow> \<exists>c. jcore s (tJobID t) = Some c"
    and "map_of (tasks s) k = Some t \<Longrightarrow> tStatus t = TaskPending \<Longrightarrow> k \<in> set (pendingQ s)"
    and "k \<in> set (pendingQ s) \<Longrightarrow> \<exists>t. map_of (tasks s) k = Some t"
    and "jcore s k = Some (i, d, sh, n) \<Longrightarrow> i = k \<and> n = int (tasks_of k s)"
  using assms unfolding sched_wf_def by blast+

lemma sched_wf_persist [simp]: "sched_wf (persistLocked s) = sched_wf s"
  by (simp add: sched_wf_def tasks_of_def)

lemma sched_wf_updateJob: "sched_wf s \<Longrightarrow> sched_wf (updateJob now jid s)"
  by (simp add: sched_wf_def tasks_of_def)

text \<open>The shape of nearly every operation: one task is replaced by a task with the same identity,
  and the queue loses only ids whose task is no longer pending.\<close>

lemma sched_wf_task_update:
  assumes wf: "sched_wf s" and t: "map_of (tasks s) k = Some t"
    and id: "tID t' = tID t" "tJobID t' = tJobID t"
    and q: "set q \<subseteq> insert k (set (pendingQ s))"
      "\<And>k'. k' \<in> set (pendingQ s) \<Longrightarrow> k' \<noteq> k \<Longrightarrow> k' \<in> set q"
      "tStatus t' = TaskPending \<Longrightarrow> k \<in> set q"
  shows "sched_wf (s\<lparr>tasks := AList.update k t' (tasks s), pendingQ := q\<rparr>)"
proof -
  have cnt: "count_map (\<lambda>t. tJobID t = j) (AList.update k t' (tasks s)) = count_map (\<lambda>t. tJobID t = j) (tasks s)" for j
    using id by (intro count_map_update_same [OF sched_wfD(2) [OF wf] t]) simp
  show ?thesis
    unfolding sched_wf_def
    using sched_wfD [OF wf] t id q
    by (simp add: tasks_of_def cnt) blast
qed

lemma sched_wf_task_update_queue_same:
  assumes "sched_wf s" and "map_of (tasks s) k = Some t" and "tID t' = tID t" "tJobID t' = tJobID t"
    and "tStatus t' = TaskPending \<Longrightarrow> tStatus t = TaskPending"
  shows "sched_wf (s\<lparr>tasks := AList.update k t' (tasks s)\<rparr>)"
proof -
  have "sched_wf (s\<lparr>tasks := AList.update k t' (tasks s), pendingQ := pendingQ s\<rparr>)"
  proof (rule sched_wf_task_update [OF assms(1-4)])
    show "tStatus t' = TaskPending \<Longrightarrow> k \<in> set (pendingQ s)"
      using sched_wfD(5) [OF assms(1,2)] assms(5) by blast
  qed auto
  moreover have "s\<lparr>tasks := AList.update k t' (tasks s), pendingQ := pendingQ s\<rparr>
      = s\<lparr>tasks := AList.update k t' (tasks s)\<rparr>" by simp
  ultimately show ?thesis by simp
qed

lemma sched_wf_remove_index:
  assumes "i < length q"
  shows "insert (q ! i) (set (take i q @ drop (Suc i) q)) = set q"
  using assms by (metis id_take_nth_drop insert_is_Un list.simps(15) set_append sup_left_commute)

subsection \<open>Assignment\<close>

lemma assignmentFor_Ok:
  "jcore s (tJobID t) \<noteq> None \<Longrightarrow> \<exists>a. assignmentFor s t = Ok a"
  by (auto simp: assignmentFor_def jcore_def)

text \<open>Assignment never panics on a well-formed state; it is a task update that leaves the task
  assigned, so the task's own queue entry may go.\<close>

lemma assignLocked_Ok:
  assumes "jcore s (tJobID t) \<noteq> None"
  obtains a where "assignLocked now k t w s = Ok (a, s\<lparr>tasks := AList.update k
     (grantLocked s (t\<lparr>tStatus := TaskAssigned, tWorkerID := w, tAssignedAt := Some now\<rparr>)) (tasks s)\<rparr>)"
    and "aTaskID a = tID t"
proof -
  let ?t1 = "grantLocked s (t\<lparr>tStatus := TaskAssigned, tWorkerID := w, tAssignedAt := Some now\<rparr>)"
  let ?s1 = "s\<lparr>tasks := AList.update k ?t1 (tasks s)\<rparr>"
  obtain a where a: "assignmentFor ?s1 ?t1 = Ok a"
    using assignmentFor_Ok [of ?s1 ?t1] assms by auto
  then have "aTaskID a = tID t" by (auto simp: assignmentFor_def split: option.splits)
  with a that show thesis by (simp add: assignLocked_def Let_def)
qed

subsection \<open>What a poll selects\<close>

text \<open>The pending task at queue position \<open>x\<close>, if there is one.\<close>

definition pending_at :: "(string \<Rightarrow> Task option) \<Rightarrow> string list \<Rightarrow> nat \<Rightarrow> Task option" where
  "pending_at ts Q x =
     (if x < length Q then
        case ts (Q ! x) of None \<Rightarrow> None | Some t \<Rightarrow> if tStatus t = TaskPending then Some t else None
      else None)"

lemma pending_at_Some:
  "pending_at ts Q x = Some t \<longleftrightarrow> x < length Q \<and> ts (Q ! x) = Some t \<and> tStatus t = TaskPending"
  by (auto simp: pending_at_def split: option.splits)

text \<open>The loop invariant of \<^verbatim>\<open>PollTasks\<close>' scan after \<open>i\<close> entries: none of them is a local pending
  task, and the fallback is one of highest priority among the pending ones.\<close>

definition scan_inv ::
  "(string \<Rightarrow> Task option) \<Rightarrow> (string \<Rightarrow> string) \<Rightarrow> string \<Rightarrow> string list \<Rightarrow> nat \<Rightarrow> nat option \<Rightarrow> int \<Rightarrow> bool" where
  "scan_inv ts owner w Q i fb fp \<longleftrightarrow>
     (\<forall>x<i. \<forall>t. pending_at ts Q x = Some t \<longrightarrow> owner (tShard t) \<noteq> w)
   \<and> (case fb of
        None \<Rightarrow> \<forall>x<i. pending_at ts Q x = None
      | Some f \<Rightarrow> f < i \<and> (\<exists>t. pending_at ts Q f = Some t \<and> tPriority t = fp)
          \<and> (\<forall>x<i. \<forall>t. pending_at ts Q x = Some t \<longrightarrow> tPriority t \<le> fp))"

lemma scan_inv_0: "scan_inv ts owner w Q 0 None 0"
  by (simp add: scan_inv_def)

lemma scan_inv_skip:
  assumes "scan_inv ts owner w Q i fb fp" and "pending_at ts Q i = None"
  shows "scan_inv ts owner w Q (Suc i) fb fp"
  using assms by (auto simp: scan_inv_def All_less_Suc split: option.splits)

lemma scan_inv_take:
  assumes "scan_inv ts owner w Q i fb fp" and "pending_at ts Q i = Some t" and "owner (tShard t) \<noteq> w"
    and "fb = None \<or> tPriority t > fp"
  shows "scan_inv ts owner w Q (Suc i) (Some i) (tPriority t)"
  using assms by (force simp: scan_inv_def All_less_Suc split: option.splits)

lemma scan_inv_keep:
  assumes "scan_inv ts owner w Q i fb fp" and "pending_at ts Q i = Some t" and "owner (tShard t) \<noteq> w"
    and "fb \<noteq> None" "tPriority t \<le> fp"
  shows "scan_inv ts owner w Q (Suc i) fb fp"
  using assms by (auto simp: scan_inv_def All_less_Suc split: option.splits)

lemma poll_scan_spec:
  assumes "poll_scan ts owner w i q fb fp = (p, f)" and "drop i Q = q" and "i \<le> length Q"
    and "scan_inv ts owner w Q i fb fp"
  shows "case p of
           Some x \<Rightarrow> (\<exists>t. pending_at ts Q x = Some t \<and> owner (tShard t) = w)
             \<and> (\<forall>y<x. \<forall>u. pending_at ts Q y = Some u \<longrightarrow> owner (tShard u) \<noteq> w)
         | None \<Rightarrow> \<exists>fp. scan_inv ts owner w Q (length Q) f fp"
  using assms
proof (induction ts owner w i q fb fp rule: poll_scan.induct)
  case (1 ts owner w i fb fp)
  then show ?case by auto
next
  case (2 ts owner w i tid q fb fp)
  have i: "i < length Q" "Q ! i = tid" "drop (Suc i) Q = q" "Suc i \<le> length Q"
  proof -
    show lt: "i < length Q" using "2.prems"(2) by (cases "i < length Q") auto
    then have "drop i Q = Q ! i # drop (Suc i) Q" by (simp add: Cons_nth_drop_Suc)
    with "2.prems"(2) show "Q ! i = tid" "drop (Suc i) Q = q" by simp_all
    from lt show "Suc i \<le> length Q" by simp
  qed
  show ?case
  proof (cases "ts tid")
    case None
    then have "scan_inv ts owner w Q (Suc i) fb fp"
      by (intro scan_inv_skip [OF "2.prems"(4)]) (simp add: pending_at_def i)
    with "2.IH"(1) [OF None _ i(3,4)] None "2.prems"(1) show ?thesis by simp
  next
    case (Some t)
    show ?thesis
    proof (cases "tStatus t = TaskPending")
      case False
      with Some have "scan_inv ts owner w Q (Suc i) fb fp"
        by (intro scan_inv_skip [OF "2.prems"(4)]) (simp add: pending_at_def i)
      with "2.IH"(2) [OF Some False _ i(3,4)] Some False "2.prems"(1) show ?thesis by simp
    next
      case True
      then have at: "pending_at ts Q i = Some t" using Some i by (simp add: pending_at_def)
      consider "owner (tShard t) = w" | "owner (tShard t) \<noteq> w" "fb = None \<or> tPriority t > fp"
        | "owner (tShard t) \<noteq> w" "fb \<noteq> None" "tPriority t \<le> fp" by fastforce
      then show ?thesis
      proof cases
        case 1
        with "2.prems"(1,4) Some True at show ?thesis by (auto simp: scan_inv_def)
      next
        case c: 2
        note inv = scan_inv_take [OF "2.prems"(4) at c]
        from "2.IH"(3) [OF Some _ c(1) c(2) _ i(3,4) inv] c True Some "2.prems"(1) show ?thesis
          by auto
      next
        case c: 3
        note inv = scan_inv_keep [OF "2.prems"(4) at c]
        from c have n: "\<not> (fb = None \<or> tPriority t > fp)" by simp
        from "2.IH"(4) [OF Some _ c(1) n _ i(3,4) inv] c n True Some "2.prems"(1) show ?thesis
          by auto
      qed
    qed
  qed
qed

text \<open>What \<^verbatim>\<open>PollTasks\<close> selects: the first pending task the ring places on the worker, else the
  pending task of highest priority, else nothing because nothing is pending.\<close>

lemma poll_index_spec:
  fixes r w s
  defines "pend \<equiv> pending_at (map_of (tasks s)) (pendingQ s)"
  shows "case poll_index r w s of
     Some x \<Rightarrow>
       (\<exists>t. pend x = Some t
         \<and> (if ring_owner r (tShard t) = w
            then \<forall>y<x. \<forall>u. pend y = Some u \<longrightarrow> ring_owner r (tShard u) \<noteq> w
            else \<forall>y u. pend y = Some u \<longrightarrow> ring_owner r (tShard u) \<noteq> w \<and> tPriority u \<le> tPriority t))
   | None \<Rightarrow> \<forall>y. pend y = None"
proof -
  let ?ts = "map_of (tasks s)" and ?Q = "pendingQ s" and ?o = "ring_owner r"
  obtain p f where pf: "poll_scan ?ts ?o w 0 ?Q None 0 = (p, f)" by fastforce
  from poll_scan_spec [OF pf _ _ scan_inv_0, of ?Q]
  have spec: "case p of
           Some x \<Rightarrow> (\<exists>t. pend x = Some t \<and> ?o (tShard t) = w)
             \<and> (\<forall>y<x. \<forall>u. pend y = Some u \<longrightarrow> ?o (tShard u) \<noteq> w)
         | None \<Rightarrow> \<exists>fp. scan_inv ?ts ?o w ?Q (length ?Q) f fp" unfolding pend_def by simp
  have lt: "y < length ?Q" if "pend y \<noteq> None" for y
    using that by (auto simp: pend_def pending_at_def split: if_splits)
  show ?thesis
  proof (cases p)
    case (Some x)
    with pf have "poll_index r w s = Some x" by (simp add: poll_index_def)
    with spec Some show ?thesis by auto
  next
    case None
    with pf have idx: "poll_index r w s = f" by (simp add: poll_index_def)
    from spec None obtain fp where inv: "scan_inv ?ts ?o w ?Q (length ?Q) f fp" by auto
    show ?thesis
    proof (cases f)
      case None
      have "pend y = None" for y
      proof (rule ccontr)
        assume n: "pend y \<noteq> None"
        with inv None lt [OF n] show False by (simp add: scan_inv_def pend_def)
      qed
      with idx None show ?thesis by simp
    next
      case (Some x)
      with inv obtain t where t: "pend x = Some t" "tPriority t = fp"
        by (auto simp: scan_inv_def pend_def)
      have "?o (tShard u) \<noteq> w \<and> tPriority u \<le> fp" if "pend y = Some u" for y u
        using inv Some lt [of y] that by (simp add: scan_inv_def pend_def)
      with t idx Some show ?thesis by auto
    qed
  qed
qed

subsection \<open>What a steal selects\<close>

text \<open>The victim of a steal is a task in flight of known range, and \<open>bestTail\<close> its ungranted tail.\<close>

definition steal_ok :: "(string, Task) gomap \<Rightarrow> (string \<times> Task) option \<times> int \<Rightarrow> bool" where
  "steal_ok ts vb = (case vb of (Some (k, t), b) \<Rightarrow>
     (k, t) \<in> set ts \<and> in_flight t \<and> 0 \<le> tRangeEnd t \<and> b = i64 (tRangeEnd t - tGranted t) | _ \<Rightarrow> True)"

lemma steal_scan_ok:
  "steal_ok (us @ ts) (v, b) \<Longrightarrow> steal_ok (us @ ts) (steal_scan ts v b)"
proof (induction ts v b arbitrary: us rule: steal_scan.induct)
  case (1 v b)
  then show ?case by simp
next
  case (2 k t ts v b)
  let ?tail = "i64 (tRangeEnd t - tGranted t)"
  have us: "us @ (k, t) # ts = (us @ [(k, t)]) @ ts" by simp
  show ?case
  proof (cases "in_flight t \<and> 0 \<le> tRangeEnd t")
    case False
    then have eq: "steal_scan ((k, t) # ts) v b = steal_scan ts v b" by (auto simp: in_flight_def)
    from False "2.IH"(1,2) [of "us @ [(k, t)]"] "2.prems" show ?thesis
      unfolding us eq
      by (cases "tStatus t = TaskAssigned \<or> tStatus t = TaskRunning") (auto simp: in_flight_def)
  next
    case True
    show ?thesis
    proof (cases "?tail > b")
      case tail: True
      have "steal_scan ((k, t) # ts) v b = steal_scan ts (Some (k, t)) ?tail"
        using True tail by (auto simp: in_flight_def Let_def)
      moreover have "steal_ok ((us @ [(k, t)]) @ ts) (Some (k, t), ?tail)"
        using True by (simp add: steal_ok_def)
      ultimately show ?thesis
        using "2.IH"(3) [of ?tail "us @ [(k, t)]"] True tail unfolding us by (auto simp: in_flight_def)
    next
      case tail: False
      have "steal_scan ((k, t) # ts) v b = steal_scan ts v b"
        using True tail by (auto simp: in_flight_def Let_def)
      then show ?thesis
        using "2.IH"(4) [of ?tail "us @ [(k, t)]"] True tail "2.prems" unfolding us by (auto simp: in_flight_def)
    qed
  qed
qed

lemma steal_scan_Some:
  assumes "steal_scan ts None 0 = (Some (k, t), b)"
  shows "(k, t) \<in> set ts" "in_flight t" "0 \<le> tRangeEnd t" "b = i64 (tRangeEnd t - tGranted t)"
  using steal_scan_ok [of "[]" ts None 0] assms by (simp_all add: steal_ok_def)

lemma grantLocked_frame [simp]:
  "grantLocked (s\<lparr>tasks := x\<rparr>) = grantLocked s" "grantLocked (s\<lparr>jobs := y\<rparr>) = grantLocked s"
  "grantLocked (s\<lparr>pendingQ := z\<rparr>) = grantLocked s"
  by (simp_all add: grantLocked_def fun_eq_iff)

text \<open>The two halves of a split range.\<close>

definition stolen_half :: "string \<Rightarrow> Task \<Rightarrow> int \<Rightarrow> Task" where
  "stolen_half u v p = zero_task\<lparr>tID := u, tJobID := tJobID v, tShard := tShard v,
     tStatus := TaskPending, tMaxRetries := tMaxRetries v, tRangeStart := p, tRangeEnd := tRangeEnd v,
     tFrontier := p, tGranted := p, tSplit := True\<rparr>"

definition kept_half :: "Task \<Rightarrow> int \<Rightarrow> Task" where
  "kept_half v p = v\<lparr>tRangeEnd := p, tGeneration := i64 (tGeneration v + 1), tSplit := True\<rparr>"

lemma halves_fields [simp]:
  "tID (stolen_half u v p) = u" "tJobID (stolen_half u v p) = tJobID v" "tShard (stolen_half u v p) = tShard v"
  "tStatus (stolen_half u v p) = TaskPending" "tRangeStart (stolen_half u v p) = p"
  "tRangeEnd (stolen_half u v p) = tRangeEnd v" "tFrontier (stolen_half u v p) = p"
  "tGranted (stolen_half u v p) = p" "tSplit (stolen_half u v p)" "tGeneration (stolen_half u v p) = 0"
  "tPriority (stolen_half u v p) = 0" "tRetries (stolen_half u v p) = 0"
  "tMaxRetries (stolen_half u v p) = tMaxRetries v"
  "tID (kept_half v p) = tID v" "tJobID (kept_half v p) = tJobID v" "tShard (kept_half v p) = tShard v"
  "tStatus (kept_half v p) = tStatus v" "tRangeStart (kept_half v p) = tRangeStart v"
  "tRangeEnd (kept_half v p) = p" "tFrontier (kept_half v p) = tFrontier v"
  "tGranted (kept_half v p) = tGranted v" "tSplit (kept_half v p)"
  "tGeneration (kept_half v p) = i64 (tGeneration v + 1)"
  "tRetries (kept_half v p) = tRetries v" "tMaxRetries (kept_half v p) = tMaxRetries v"
  by (simp_all add: stolen_half_def kept_half_def)

text \<open>A steal either finds nothing or splits a task in flight strictly inside its ungranted tail.\<close>

lemma stealLocked_cases:
  assumes wf: "sched_wf s"
  obtains (none) "stealLocked u s = (None, s)"
  | (steal) k v p j where "map_of (tasks s) k = Some v" "in_flight v" "tGranted v < p" "p < tRangeEnd v"
      "0 \<le> tRangeEnd v" "map_of (jobs s) (tJobID v) = Some j"
      "stealLocked u s = (Some (stolen_half u v p),
         s\<lparr>tasks := AList.update u (stolen_half u v p) (AList.update k (kept_half v p) (tasks s)),
           jobs := AList.update (tJobID v) (j\<lparr>jTotalTasks := jTotalTasks j + 1\<rparr>) (jobs s)\<rparr>)"
      "p = i64 (tGranted v + i64 (tRangeEnd v - tGranted v) div 2)" "minStealItems \<le> i64 (tRangeEnd v - tGranted v)"
proof -
  obtain vo b where scan: "steal_scan (tasks s) None 0 = (vo, b)" by fastforce
  show thesis
  proof (cases vo)
    case None
    with scan have "stealLocked u s = (None, s)" by (simp add: stealLocked_def)
    then show thesis by (rule none)
  next
    case (Some kv)
    obtain k v where kv: "kv = (k, v)" by fastforce
    note sc = steal_scan_Some [OF scan [unfolded Some kv]]
    let ?p = "i64 (tGranted v + b div 2)"
    from sc(1) have at: "map_of (tasks s) k = Some v"
      using sched_wfD(2) [OF wf] by (simp add: map_of_eq_Some_iff)
    from sched_wfD(4) [OF wf at] obtain j where j: "map_of (jobs s) (tJobID v) = Some j"
      by (auto simp: jcore_def)
    show thesis
    proof (cases "b < minStealItems \<or> ?p \<le> tGranted v \<or> tRangeEnd v \<le> ?p")
      case True
      then have "stealLocked u s = (None, s)" by (auto simp: stealLocked_def scan Some kv Let_def)
      then show thesis by (rule none)
    next
      case False
      then have "stealLocked u s = (Some (stolen_half u v ?p),
         s\<lparr>tasks := AList.update u (stolen_half u v ?p) (AList.update k (kept_half v ?p) (tasks s)),
           jobs := AList.update (tJobID v) (j\<lparr>jTotalTasks := jTotalTasks j + 1\<rparr>) (jobs s)\<rparr>)"
        by (auto simp: stealLocked_def scan Some kv Let_def j stolen_half_def kept_half_def)
      with False sc at j show thesis by (intro steal [of k v ?p j]) auto
    qed
  qed
qed

end
