(* ===== verification/Sched_Steps.thy ===== *)
theory Sched_Steps
  imports Sched_Wf
begin

section \<open>The life cycle of a task, and the scheduler as a machine over tasks\<close>

text \<open>
  An abstract account of what the scheduler does. \<open>task_step\<close> is the life cycle of one task;
  \<open>sched_micro\<close> is the scheduler as a machine that takes one such step of one task, splits a
  task in two, admits a job, drops a stale queue entry or visits its maps in another order. Every
  operation of the scheduler is a sequence of these micro steps (the refinement lemmas
  \<open>PollTasks_micro\<close>, \<open>RenewLease_micro\<close> and their siblings), so an invariant is proved once, on
  five rules, and holds of every operation.
\<close>

subsection \<open>One task\<close>

definition renew_task :: "Scheduler \<Rightarrow> RenewLeaseRequest \<Rightarrow> Task \<Rightarrow> Task" where
  "renew_task s req t =
     (let t1 = (if tRangeEnd t < 0 \<and> rnTotal req > 0 then t\<lparr>tRangeEnd := rnTotal req\<rparr> else t);
          t2 = (if rnFrontier req > tFrontier t1 then t1\<lparr>tFrontier := rnFrontier req\<rparr> else t1);
          t3 = (if tRangeEnd t2 \<ge> 0 \<and> tFrontier t2 > tRangeEnd t2 then t2\<lparr>tFrontier := tRangeEnd t2\<rparr> else t2)
      in grantLocked s t3)"

text \<open>\<open>ok t req\<close> restricts which renewals are considered; \<open>late\<close> says whether a start may reach a
  task that is not in flight (the code does not check).\<close>

inductive task_step ::
  "(Task \<Rightarrow> RenewLeaseRequest \<Rightarrow> bool) \<Rightarrow> bool \<Rightarrow> Scheduler \<Rightarrow> Task \<Rightarrow> Task \<Rightarrow> bool" for ok late s where
  assign: "tStatus t = TaskPending \<Longrightarrow>
     task_step ok late s t (grantLocked s (t\<lparr>tStatus := TaskAssigned, tWorkerID := w, tAssignedAt := Some now\<rparr>))"
| start: "late \<or> in_flight t \<Longrightarrow>
     task_step ok late s t (t\<lparr>tStatus := TaskRunning, tStartedAt := Some now\<rparr>)"
| renew: "ok t req \<Longrightarrow> task_step ok late s t (renew_task s req t)"
| retry: "tStatus t \<noteq> TaskDone \<Longrightarrow> tRetries t < tMaxRetries t \<Longrightarrow>
     task_step ok late s t (resetLeaseLocked (t\<lparr>tFinishedAt := fin, tError := err,
       tRetries := tRetries t + 1, tStatus := TaskPending, tWorkerID := []\<rparr>))"
| finish: "tStatus t \<noteq> TaskDone \<Longrightarrow> st = TaskDone \<or> st = TaskFailed \<and> \<not> tRetries t < tMaxRetries t \<Longrightarrow>
     task_step ok late s t (t\<lparr>tFinishedAt := fin, tWorkerID := w, tError := err, tStatus := st\<rparr>)"

inductive_cases task_stepE: "task_step ok late s t t'"

lemma renew_task_fields [simp]:
  "tID (renew_task s req t) = tID t" "tJobID (renew_task s req t) = tJobID t"
  "tShard (renew_task s req t) = tShard t" "tStatus (renew_task s req t) = tStatus t"
  "tRangeStart (renew_task s req t) = tRangeStart t" "tGeneration (renew_task s req t) = tGeneration t"
  "tSplit (renew_task s req t) = tSplit t" "tRetries (renew_task s req t) = tRetries t"
  "tMaxRetries (renew_task s req t) = tMaxRetries t"
  by (simp_all add: renew_task_def Let_def)

text \<open>What every step of a task keeps.\<close>

lemma task_step_identity:
  assumes "task_step ok late s t t'"
  shows "tID t' = tID t" "tJobID t' = tJobID t" "tShard t' = tShard t" "tRangeStart t' = tRangeStart t"
    "tGeneration t' = tGeneration t" "tSplit t' = tSplit t" "tMaxRetries t' = tMaxRetries t"
    "tRetries t \<le> tRetries t'"
  using assms by (cases; simp)+

subsection \<open>The scheduler\<close>

definition same_frame :: "Scheduler \<Rightarrow> Scheduler \<Rightarrow> bool" where
  "same_frame s s' \<longleftrightarrow> leaseChunk s' = leaseChunk s \<and> maxRetries s' = maxRetries s"

text \<open>A job entering the scheduler, as \<^verbatim>\<open>Submit\<close> builds it, and its tasks, one per shard.\<close>

definition fresh_task :: "(nat \<Rightarrow> string) \<Rightarrow> Job \<Rightarrow> int \<Rightarrow> nat \<Rightarrow> string \<Rightarrow> Task" where
  "fresh_task uuid job mr i shard = zero_task\<lparr>tID := uuid i, tJobID := jID job, tShard := shard,
     tStatus := TaskPending, tPriority := jPriority job, tMaxRetries := mr, tRangeEnd := -1\<rparr>"

definition fresh_tasks :: "(nat \<Rightarrow> string) \<Rightarrow> Job \<Rightarrow> int \<Rightarrow> nat \<Rightarrow> string list \<Rightarrow> (string, Task) gomap" where
  "fresh_tasks uuid job mr i shards = map (\<lambda>(n, sh). (uuid n, fresh_task uuid job mr n sh)) (enumerate i shards)"

text \<open>A job turns \<open>JobCompleted\<close> only when all its tasks are done.\<close>

definition completes_ok :: "Scheduler \<Rightarrow> Scheduler \<Rightarrow> bool" where
  "completes_ok s s' \<longleftrightarrow> (\<forall>k j'. map_of (jobs s') k = Some j' \<longrightarrow> jStatus j' = JobCompleted \<longrightarrow>
     (\<exists>j. map_of (jobs s) k = Some j \<and> jStatus j = JobCompleted)
     \<or> (\<forall>x t. map_of (tasks s') x = Some t \<longrightarrow> tJobID t = k \<longrightarrow> tStatus t = TaskDone))"

inductive sched_micro ::
  "(Task \<Rightarrow> RenewLeaseRequest \<Rightarrow> bool) \<Rightarrow> bool \<Rightarrow> Scheduler \<Rightarrow> Scheduler \<Rightarrow> bool" for ok late where
  one_task: "map_of (tasks s) k = Some t \<Longrightarrow> task_step ok late s t t' \<Longrightarrow>
     tasks s' = AList.update k t' (tasks s) \<Longrightarrow> jcore s' = jcore s \<Longrightarrow> distinct (map fst (jobs s')) \<Longrightarrow>
     same_frame s s' \<Longrightarrow> set (pendingQ s') \<subseteq> insert k (set (pendingQ s)) \<Longrightarrow>
     set (pendingQ s) - {k} \<subseteq> set (pendingQ s') \<Longrightarrow> (tStatus t' = TaskPending \<longrightarrow> k \<in> set (pendingQ s')) \<Longrightarrow>
     completes_ok s s' \<Longrightarrow> sched_micro ok late s s'"
| split: "map_of (tasks s) k = Some v \<Longrightarrow> in_flight v \<Longrightarrow> tGranted v < p \<Longrightarrow> p < tRangeEnd v \<Longrightarrow>
     map_of (tasks s) u = None \<Longrightarrow> map_of (jobs s) (tJobID v) = Some j \<Longrightarrow>
     p = i64 (tGranted v + i64 (tRangeEnd v - tGranted v) div 2) \<Longrightarrow>
     minStealItems \<le> i64 (tRangeEnd v - tGranted v) \<Longrightarrow>
     sched_micro ok late s (s\<lparr>
       jobs := AList.update (tJobID v) (j\<lparr>jTotalTasks := jTotalTasks j + 1\<rparr>) (jobs s),
       tasks := AList.update u
         (grantLocked s ((stolen_half u v p)\<lparr>tStatus := TaskAssigned, tWorkerID := w, tAssignedAt := Some now\<rparr>))
         (AList.update k (kept_half v p) (tasks s))\<rparr>)"
| submit: "map_of (jobs s) (jID job) = None \<Longrightarrow> jStatus job \<noteq> JobCompleted \<Longrightarrow> jTotalTasks job = int (length (jShards job)) \<Longrightarrow>
     distinct (map fst (fresh_tasks uuid job (maxRetries s) 1 (jShards job))) \<Longrightarrow>
     fst ` set (fresh_tasks uuid job (maxRetries s) 1 (jShards job)) \<inter> dom (map_of (tasks s)) = {} \<Longrightarrow>
     tasks s' = tasks s @ fresh_tasks uuid job (maxRetries s) 1 (jShards job) \<Longrightarrow>
     map_of (jobs s') = (map_of (jobs s))(jID job \<mapsto> job) \<Longrightarrow> distinct (map fst (jobs s')) \<Longrightarrow> same_frame s s' \<Longrightarrow>
     pendingQ s' = pendingQ s @ map fst (fresh_tasks uuid job (maxRetries s) 1 (jShards job)) \<Longrightarrow>
     sched_micro ok late s s'"
| unqueue: "tasks s' = tasks s \<Longrightarrow> jobs s' = jobs s \<Longrightarrow> same_frame s s' \<Longrightarrow>
     set (pendingQ s') \<subseteq> set (pendingQ s) \<Longrightarrow>
     \<forall>k \<in> set (pendingQ s) - set (pendingQ s'). \<forall>t. map_of (tasks s) k = Some t \<longrightarrow> tStatus t \<noteq> TaskPending \<Longrightarrow>
     sched_micro ok late s s'"
| reorder: "mset (tasks s') = mset (tasks s) \<Longrightarrow> mset (jobs s') = mset (jobs s) \<Longrightarrow>
     pendingQ s' = pendingQ s \<Longrightarrow> same_frame s s' \<Longrightarrow> sched_micro ok late s s'"

lemma same_frame_refl [simp]: "same_frame s s"
  by (simp add: same_frame_def)

lemma map_fst_fresh_tasks: "map fst (fresh_tasks uuid job mr i shards) = map uuid [i..<i + length shards]"
  by (induction shards arbitrary: i) (simp_all add: fresh_tasks_def upt_rec)

lemma fresh_tasks_Cons:
  "fresh_tasks uuid job mr i (sh # shards) = (uuid i, fresh_task uuid job mr i sh) # fresh_tasks uuid job mr (Suc i) shards"
  by (simp add: fresh_tasks_def)

lemma in_fresh_tasksD:
  "(k, t) \<in> set (fresh_tasks uuid job mr i shards) \<Longrightarrow> \<exists>n sh. k = uuid n \<and> t = fresh_task uuid job mr n sh \<and> sh \<in> set shards"
proof (induction shards arbitrary: i)
  case Nil
  then show ?case by (simp add: fresh_tasks_def)
next
  case (Cons sh shards)
  from Cons.prems consider "k = uuid i" "t = fresh_task uuid job mr i sh"
    | "(k, t) \<in> set (fresh_tasks uuid job mr (Suc i) shards)" by (auto simp: fresh_tasks_Cons)
  then show ?case
  proof cases
    case 1
    then show ?thesis by auto
  next
    case 2
    from Cons.IH [OF 2] show ?thesis by auto
  qed
qed

lemma fresh_task_fields [simp]:
  "tID (fresh_task uuid job mr n sh) = uuid n" "tJobID (fresh_task uuid job mr n sh) = jID job"
  "tShard (fresh_task uuid job mr n sh) = sh" "tStatus (fresh_task uuid job mr n sh) = TaskPending"
  "tRangeStart (fresh_task uuid job mr n sh) = 0" "tRangeEnd (fresh_task uuid job mr n sh) = -1"
  "tFrontier (fresh_task uuid job mr n sh) = 0" "tGranted (fresh_task uuid job mr n sh) = 0"
  "\<not> tSplit (fresh_task uuid job mr n sh)" "tGeneration (fresh_task uuid job mr n sh) = 0"
  "tRetries (fresh_task uuid job mr n sh) = 0" "tMaxRetries (fresh_task uuid job mr n sh) = mr"
  by (simp_all add: fresh_task_def)

lemma count_fresh_tasks:
  "count_map (\<lambda>t. tJobID t = k) (fresh_tasks uuid job mr i shards) = (if k = jID job then length shards else 0)"
  by (induction shards arbitrary: i) (simp_all add: fresh_tasks_def)

subsection \<open>Well-formedness is kept by every micro step\<close>

lemma sched_wf_cong:
  assumes "sched_wf s" "tasks s' = tasks s" "jcore s' = jcore s" "distinct (map fst (jobs s'))"
    and "set (pendingQ s') = set (pendingQ s)"
  shows "sched_wf s'"
  using assms unfolding sched_wf_def tasks_of_def by simp

lemma sched_wf_one_task:
  assumes wf: "sched_wf s" and t: "map_of (tasks s) k = Some t" and st: "task_step ok late s t t'"
    and s': "tasks s' = AList.update k t' (tasks s)" "jcore s' = jcore s" "distinct (map fst (jobs s'))"
      "set (pendingQ s') \<subseteq> insert k (set (pendingQ s))" "set (pendingQ s) - {k} \<subseteq> set (pendingQ s')"
      "tStatus t' = TaskPending \<longrightarrow> k \<in> set (pendingQ s')"
  shows "sched_wf s'"
proof (rule sched_wf_cong)
  show "sched_wf (s\<lparr>tasks := AList.update k t' (tasks s), pendingQ := pendingQ s'\<rparr>)"
    using s' by (intro sched_wf_task_update [OF wf t task_step_identity(1,2) [OF st]]) auto
qed (use s' in auto)

lemma sched_wf_insert:
  assumes wf: "sched_wf s" and u: "map_of (tasks s) u = None" and j: "map_of (jobs s) (tJobID t) = Some j"
    and t: "tID t = u" "tStatus t \<noteq> TaskPending"
  shows "sched_wf (s\<lparr>jobs := AList.update (tJobID t) (j\<lparr>jTotalTasks := jTotalTasks j + 1\<rparr>) (jobs s),
           tasks := AList.update u t (tasks s)\<rparr>)"
    (is "sched_wf ?s'")
proof -
  have core: "jcore ?s' k = (if k = tJobID t
      then Some (jID j, jDataset j, jShards j, jTotalTasks j + 1) else jcore s k)" for k
    by (simp add: jcore_def job_core_def)
  have jt: "jTotalTasks j = int (tasks_of (tJobID t) s)" "jID j = tJobID t"
    using sched_wfD(7) [OF wf, of "tJobID t" "jID j" "jDataset j" "jShards j" "jTotalTasks j"] j
    by (simp_all add: jcore_def job_core_def)
  have n: "tasks_of k ?s' = tasks_of k s + (if tJobID t = k then 1 else 0)" for k
    by (simp add: tasks_of_def count_map_update_new [OF u])
  have idj: "tID x = k \<and> jcore ?s' (tJobID x) \<noteq> None" if "map_of (tasks ?s') k = Some x" for k x
    using that t sched_wfD(3,4) [OF wf, of k x] unfolding core by (auto split: if_splits)
  have pend: "k \<in> set (pendingQ ?s')" if "map_of (tasks ?s') k = Some x" "tStatus x = TaskPending" for k x
    using that t sched_wfD(5) [OF wf, of k x] by (auto split: if_splits)
  have known: "map_of (tasks ?s') k \<noteq> None" if "k \<in> set (pendingQ ?s')" for k
    using that sched_wfD(6) [OF wf, of k] by auto
  have cnt: "i = k \<and> n' = int (tasks_of k ?s')" if "jcore ?s' k = Some (i, d, sh, n')" for k i d sh n'
    using that jt sched_wfD(7) [OF wf, of k i d sh n'] unfolding core n by (auto split: if_splits)
  have d: "distinct (map fst (jobs ?s'))" "distinct (map fst (tasks ?s'))"
    using sched_wfD(1,2) [OF wf] by simp_all
  show ?thesis unfolding sched_wf_def using d idj pend known cnt by blast
qed

lemma sched_wf_submit:
  fixes s s' :: Scheduler and uuid job
  defines "ft \<equiv> fresh_tasks uuid job (maxRetries s) 1 (jShards job)"
  assumes wf: "sched_wf s" and nj: "map_of (jobs s) (jID job) = None"
    and tot: "jTotalTasks job = int (length (jShards job))"
    and dist: "distinct (map fst ft)" "fst ` set ft \<inter> dom (map_of (tasks s)) = {}"
    and s': "tasks s' = tasks s @ ft" "map_of (jobs s') = (map_of (jobs s))(jID job \<mapsto> job)"
      "distinct (map fst (jobs s'))" "pendingQ s' = pendingQ s @ map fst ft"
  shows "sched_wf s'"
proof -
  have core: "jcore s' k = (if k = jID job then Some (job_core job) else jcore s k)" for k
    by (simp add: jcore_def s')
  have no: "tasks_of (jID job) s = 0"
  proof -
    have "\<forall>(k, t) \<in> set (tasks s). tJobID t \<noteq> jID job"
    proof (clarify)
      fix k t assume "(k, t) \<in> set (tasks s)" "tJobID t = jID job"
      with sched_wfD(2) [OF wf] sched_wfD(4) [OF wf, of k t] nj show False by (auto simp: jcore_def map_of_eq_Some_iff)
    qed
    then show ?thesis by (simp add: tasks_of_def count_map_zero)
  qed
  have n: "tasks_of k s' = tasks_of k s + (if k = jID job then length (jShards job) else 0)" for k
    by (simp add: tasks_of_def s' ft_def count_fresh_tasks)
  have dom: "dom (map_of (tasks s)) = fst ` set (tasks s)" by (rule dom_map_of_conv_image_fst)
  have lk: "map_of (tasks s') k = Some t \<longleftrightarrow> map_of (tasks s) k = Some t \<or> (k, t) \<in> set ft" for k t
  proof -
    have "map_of ft k = Some t \<longleftrightarrow> (k, t) \<in> set ft" using dist(1) by (simp add: map_of_eq_Some_iff)
    moreover have "(k, t) \<in> set ft \<Longrightarrow> map_of (tasks s) k = None" using dist(2) by force
    ultimately show ?thesis by (auto simp: s' map_add_Some_iff map_add_def split: option.splits)
  qed
  have ft: "tID t = k \<and> tJobID t = jID job" if "(k, t) \<in> set ft" for k t
    using in_fresh_tasksD [OF that [unfolded ft_def]] by auto
  have disj: "fst ` set (tasks s) \<inter> fst ` set ft = {}" using dist(2) dom by blast
  have dk: "distinct (map fst (tasks s'))"
    using dist(1) disj sched_wfD(2) [OF wf] by (simp add: s')
  have pend: "k \<in> set (pendingQ s')" if "map_of (tasks s') k = Some t" "tStatus t = TaskPending" for k t
    using that(1) [unfolded lk] that(2) sched_wfD(5) [OF wf, of k t] unfolding s' by force
  have known: "map_of (tasks s') k \<noteq> None" if "k \<in> set (pendingQ s')" for k
  proof -
    from that consider "k \<in> set (pendingQ s)" | "k \<in> fst ` set ft" by (auto simp: s')
    then show ?thesis
    proof cases
      case 1 with sched_wfD(6) [OF wf] lk show ?thesis by blast
    next
      case 2 with lk show ?thesis by fastforce
    qed
  qed
  have idj: "tID t = k \<and> jcore s' (tJobID t) \<noteq> None" if "map_of (tasks s') k = Some t" for k t
    using that ft [of k t] sched_wfD(3,4) [OF wf, of k t] unfolding lk core by (auto simp: job_core_def)
  have cnt: "i = k \<and> n' = int (tasks_of k s')" if "jcore s' k = Some (i, d, sh, n')" for k i d sh n'
    using that sched_wfD(7) [OF wf, of k] no tot unfolding core n
    by (auto simp: job_core_def split: if_splits)
  show ?thesis unfolding sched_wf_def using s'(3) dk idj pend known cnt by blast
qed

lemma sched_wf_reorder:
  assumes wf: "sched_wf s" and "mset (tasks s') = mset (tasks s)" "mset (jobs s') = mset (jobs s)"
    "pendingQ s' = pendingQ s"
  shows "sched_wf s'"
proof -
  have m: "map_of (tasks s') = map_of (tasks s)" "map_of (jobs s') = map_of (jobs s)"
    using map_of_mset [OF assms(2) [symmetric]] map_of_mset [OF assms(3) [symmetric]] sched_wfD(1,2) [OF wf] by auto
  have d: "distinct (map fst (tasks s'))" "distinct (map fst (jobs s'))"
    using assms(2,3) sched_wfD(1,2) [OF wf] by (metis mset_eq_imp_distinct_iff mset_map)+
  have c: "jcore s' = jcore s" "tasks_of = (\<lambda>k s. tasks_of k s)" by (simp_all add: jcore_def m fun_eq_iff)
  have n: "tasks_of k s' = tasks_of k s" for k
    unfolding tasks_of_def using count_map_mset [OF assms(2)] by simp
  show ?thesis using wf unfolding sched_wf_def m c(1) n assms(4) using d by blast
qed

lemma sched_wf_micro:
  assumes "sched_micro ok late s s'" and "sched_wf s"
  shows "sched_wf s'"
  using assms
proof cases
  case (one_task k t t')
  then show ?thesis using assms(2) by (intro sched_wf_one_task [of s k t ok late t' s']) auto
next
  case (split k v p u j now w)
  let ?s1 = "s\<lparr>tasks := AList.update k (kept_half v p) (tasks s)\<rparr>"
  let ?t = "grantLocked s ((stolen_half u v p)\<lparr>tStatus := TaskAssigned, tWorkerID := w, tAssignedAt := Some now\<rparr>)"
  have wf1: "sched_wf ?s1"
    by (rule sched_wf_task_update_queue_same [OF assms(2) split(2)]) simp_all
  have "k \<noteq> u" using split by auto
  with sched_wf_insert [OF wf1, of u ?t j] split show ?thesis by simp
next
  case (submit job uuid)
  then show ?thesis using assms(2) by (intro sched_wf_submit [of s job uuid s']) auto
next
  case unqueue
  then have "jcore s' = jcore s" by (simp add: jcore_def fun_eq_iff)
  with unqueue assms(2) show ?thesis unfolding sched_wf_def tasks_of_def by (simp) blast
next
  case reorder
  then show ?thesis using assms(2) by (intro sched_wf_reorder [of s s']) auto
qed

abbreviation micros :: "(Task \<Rightarrow> RenewLeaseRequest \<Rightarrow> bool) \<Rightarrow> bool \<Rightarrow> Scheduler \<Rightarrow> Scheduler \<Rightarrow> bool" where
  "micros ok late \<equiv> (sched_micro ok late)\<^sup>*\<^sup>*"

lemma sched_wf_micros: "micros ok late s s' \<Longrightarrow> sched_wf s \<Longrightarrow> sched_wf s'"
  by (induction rule: rtranclp_induct) (auto intro: sched_wf_micro)

subsection \<open>Every operation is a sequence of micro steps\<close>

text \<open>One task replaced, its job's counters perhaps refreshed, the state logged.\<close>

lemma completes_ok_same: "jobs s' = jobs s \<Longrightarrow> completes_ok s s'"
  by (auto simp: completes_ok_def)

lemma completes_ok_persist [simp]: "completes_ok s (persistLocked s') = completes_ok s s'"
  by (simp add: completes_ok_def)

lemma completes_ok_updateJob:
  assumes "jobs s' = jobs s" and "distinct (map fst (tasks s'))"
  shows "completes_ok s (updateJob now jid s')"
proof (cases "map_of (jobs s') jid")
  case None
  with assms show ?thesis by (simp add: updateJob_def completes_ok_same)
next
  case j: (Some j)
  let ?failed = "count_map (\<lambda>t. tJobID t = jid \<and> tStatus t = TaskFailed) (tasks s')"
  let ?pending = "count_map (\<lambda>t. tJobID t = jid \<and> tStatus t \<noteq> TaskDone \<and> tStatus t \<noteq> TaskFailed) (tasks s')"
  show ?thesis
  proof (cases "?pending = 0 \<and> ?failed = 0")
    case True
    then have "\<forall>x t. map_of (tasks s') x = Some t \<longrightarrow> tJobID t = jid \<longrightarrow> tStatus t = TaskDone"
      by (fastforce simp: count_map_zero dest!: map_of_in_set)
    with assms(1) j show ?thesis
      by (simp add: completes_ok_def updateJob_def Let_def)
  next
    case False
    with assms(1) j show ?thesis
      by (auto simp: completes_ok_def updateJob_def Let_def)
  qed
qed

lemma one_task_micro:
  assumes wf: "sched_wf s" and t: "map_of (tasks s) k = Some t" and st: "task_step ok late s t t'"
    and q: "set q \<subseteq> insert k (set (pendingQ s))" "set (pendingQ s) - {k} \<subseteq> set q"
      "tStatus t' = TaskPending \<longrightarrow> k \<in> set q"
  shows "sched_micro ok late s (s\<lparr>tasks := AList.update k t' (tasks s), pendingQ := q\<rparr>)"
    and "sched_micro ok late s (persistLocked (s\<lparr>tasks := AList.update k t' (tasks s), pendingQ := q\<rparr>))"
    and "sched_micro ok late s (updateJob now j (s\<lparr>tasks := AList.update k t' (tasks s), pendingQ := q\<rparr>))"
    and "sched_micro ok late s (persistLocked (updateJob now j (s\<lparr>tasks := AList.update k t' (tasks s), pendingQ := q\<rparr>)))"
  by (rule sched_micro.one_task [OF t st];
      use q sched_wfD(1,2) [OF wf] in \<open>simp add: same_frame_def completes_ok_same completes_ok_updateJob\<close>)+

lemma one_task_micro_same_queue:
  assumes wf: "sched_wf s" and t: "map_of (tasks s) k = Some t" and st: "task_step ok late s t t'"
    and p: "tStatus t' = TaskPending \<Longrightarrow> tStatus t = TaskPending"
  shows "sched_micro ok late s (s\<lparr>tasks := AList.update k t' (tasks s)\<rparr>)"
    and "sched_micro ok late s (persistLocked (s\<lparr>tasks := AList.update k t' (tasks s)\<rparr>))"
    and "sched_micro ok late s (updateJob now j (s\<lparr>tasks := AList.update k t' (tasks s)\<rparr>))"
    and "sched_micro ok late s (persistLocked (updateJob now j (s\<lparr>tasks := AList.update k t' (tasks s)\<rparr>)))"
proof -
  have e: "s\<lparr>tasks := AList.update k t' (tasks s), pendingQ := pendingQ s\<rparr> = s\<lparr>tasks := AList.update k t' (tasks s)\<rparr>"
    by simp
  have q: "set (pendingQ s) \<subseteq> insert k (set (pendingQ s))" "set (pendingQ s) - {k} \<subseteq> set (pendingQ s)"
    "tStatus t' = TaskPending \<longrightarrow> k \<in> set (pendingQ s)"
    using sched_wfD(5) [OF wf t] p by auto
  note m = one_task_micro [OF wf t st q, unfolded e]
  show "sched_micro ok late s (s\<lparr>tasks := AList.update k t' (tasks s)\<rparr>)"
    "sched_micro ok late s (persistLocked (s\<lparr>tasks := AList.update k t' (tasks s)\<rparr>))"
    "sched_micro ok late s (updateJob now j (s\<lparr>tasks := AList.update k t' (tasks s)\<rparr>))"
    "sched_micro ok late s (persistLocked (updateJob now j (s\<lparr>tasks := AList.update k t' (tasks s)\<rparr>)))"
    by (rule m)+
qed

lemma StartTask_micro:
  assumes wf: "sched_wf s" and ok: "StartTask now k w s = Ok s'"
    and late: "late \<or> (\<forall>t. map_of (tasks s) k = Some t \<longrightarrow> in_flight t)"
  shows "sched_micro ok late s s'"
proof -
  from ok obtain t where t: "map_of (tasks s) k = Some t"
    and s': "s' = persistLocked (s\<lparr>tasks := AList.update k (t\<lparr>tStatus := TaskRunning, tStartedAt := Some now\<rparr>) (tasks s)\<rparr>)"
    by (auto simp: StartTask_def split: option.splits)
  have "task_step ok late s t (t\<lparr>tStatus := TaskRunning, tStartedAt := Some now\<rparr>)"
    using late t by (intro task_step.start) auto
  from one_task_micro_same_queue(2) [OF wf t this] show ?thesis by (simp add: s')
qed

lemma RenewLease_renew_task:
  assumes "RenewLease k req s = Ok (lr, s')"
  obtains t where "map_of (tasks s) k = Some t"
    and "s' = persistLocked (s\<lparr>tasks := AList.update k (renew_task s req t) (tasks s)\<rparr>)"
    and "lr = \<lparr>lrGeneration = tGeneration t, lrBound = tGranted (renew_task s req t),
               lrStolen = (rnGeneration req < tGeneration t)\<rparr>"
proof -
  from assms obtain t where t: "map_of (tasks s) k = Some t" by (auto simp: RenewLease_def split: option.splits)
  have "RenewLease k req s = Ok (\<lparr>lrGeneration = tGeneration (renew_task s req t),
      lrBound = tGranted (renew_task s req t), lrStolen = (rnGeneration req < tGeneration (renew_task s req t))\<rparr>,
      persistLocked (s\<lparr>tasks := AList.update k (renew_task s req t) (tasks s)\<rparr>))"
    unfolding RenewLease_def t option.case Let_def renew_task_def by (rule refl)
  with assms that t show thesis by simp
qed

lemma RenewLease_micro:
  assumes wf: "sched_wf s" and r: "RenewLease k req s = Ok (lr, s')"
    and ok: "\<forall>t. map_of (tasks s) k = Some t \<longrightarrow> ok t req"
  shows "sched_micro ok late s s'"
proof -
  from RenewLease_renew_task [OF r] obtain t where t: "map_of (tasks s) k = Some t"
    and s': "s' = persistLocked (s\<lparr>tasks := AList.update k (renew_task s req t) (tasks s)\<rparr>)" by metis
  have "task_step ok late s t (renew_task s req t)" using ok t by (intro task_step.renew) auto
  from one_task_micro_same_queue(2) [OF wf t this] show ?thesis by (simp add: s')
qed

lemma report_finish_micro:
  assumes wf: "sched_wf s" and r: "report_finish now k req s = Ok s'"
  shows "s' = s \<or> sched_micro ok late s s'"
proof -
  from r obtain t where t: "map_of (tasks s) k = Some t" by (auto simp: report_finish_def split: option.splits)
  consider (already) "tStatus t = TaskDone" | (retry) "tStatus t \<noteq> TaskDone" "rqError req \<noteq> []" "tRetries t < tMaxRetries t"
    | (fail) "tStatus t \<noteq> TaskDone" "rqError req \<noteq> []" "\<not> tRetries t < tMaxRetries t"
    | (ok) "tStatus t \<noteq> TaskDone" "rqError req = []" by blast
  then show ?thesis
  proof cases
    case already
    with r t show ?thesis by (simp add: report_finish_def)
  next
    case retry
    let ?t = "resetLeaseLocked (t\<lparr>tFinishedAt := Some now, tError := rqError req,
       tRetries := tRetries t + 1, tStatus := TaskPending, tWorkerID := []\<rparr>)"
    note st = task_step.retry [OF retry(1,3), where fin = "Some now" and err = "rqError req"]
    from r t retry sched_wfD(3) [OF wf t]
    have s': "s' = persistLocked (s\<lparr>tasks := AList.update k ?t (tasks s), pendingQ := pendingQ s @ [k]\<rparr>)"
      by (simp add: report_finish_def Let_def)
    have "sched_micro ok late s s'" unfolding s' by (rule one_task_micro(2) [OF wf t st]) auto
    then show ?thesis ..
  next
    case fail
    then have st: "task_step ok late s t (t\<lparr>tFinishedAt := Some now, tWorkerID := rqWorkerID req,
        tError := rqError req, tStatus := TaskFailed\<rparr>)" by (intro task_step.finish) auto
    from r t fail one_task_micro_same_queue(4) [OF wf t st] show ?thesis
      by (auto simp: report_finish_def Let_def)
  next
    case ok
    then have st: "task_step ok late s t (t\<lparr>tFinishedAt := Some now, tWorkerID := rqWorkerID req,
        tError := tError t, tStatus := TaskDone\<rparr>)" by (intro task_step.finish) auto
    from r t ok one_task_micro_same_queue(4) [OF wf t st] show ?thesis
      by (auto simp: report_finish_def Let_def)
  qed
qed

lemma rebalance_task_micro:
  assumes wf: "sched_wf s"
  shows "fst (rebalance_task now w k (s, n)) = s \<or> sched_micro ok late s (fst (rebalance_task now w k (s, n)))"
proof (cases "map_of (tasks s) k")
  case None
  then show ?thesis by (simp add: rebalance_task_def)
next
  case t: (Some t)
  consider (skip) "tWorkerID t \<noteq> w \<or> \<not> in_flight t"
    | (retry) "tWorkerID t = w" "in_flight t" "tRetries t < tMaxRetries t"
    | (fail) "tWorkerID t = w" "in_flight t" "\<not> tRetries t < tMaxRetries t" by blast
  then show ?thesis
  proof cases
    case skip
    with t show ?thesis by (auto simp: rebalance_task_def in_flight_def)
  next
    case retry
    then have nd: "tStatus t \<noteq> TaskDone" by (auto simp: in_flight_def)
    note st = task_step.retry [OF nd retry(3), where fin = "tFinishedAt t" and err = "tError t"]
    let ?t = "resetLeaseLocked (t\<lparr>tRetries := tRetries t + 1, tStatus := TaskPending, tWorkerID := []\<rparr>)"
    from t retry sched_wfD(3) [OF wf t]
    have "fst (rebalance_task now w k (s, n)) = s\<lparr>tasks := AList.update k ?t (tasks s), pendingQ := pendingQ s @ [k]\<rparr>"
      by (auto simp: rebalance_task_def in_flight_def Let_def)
    with one_task_micro(1) [OF wf t st, of "pendingQ s @ [k]"] show ?thesis by auto
  next
    case fail
    then have "task_step ok late s t (t\<lparr>tFinishedAt := tFinishedAt t, tWorkerID := tWorkerID t,
        tError := tError t, tStatus := TaskFailed\<rparr>)"
      by (intro task_step.finish) (auto simp: in_flight_def)
    from t fail one_task_micro_same_queue(3) [OF wf t this] show ?thesis
      by (auto simp: rebalance_task_def in_flight_def Let_def)
  qed
qed

lemma rebalance_fold_micros:
  "sched_wf s \<Longrightarrow> micros ok late s (fst (fold (rebalance_task now w) ks (s, n)))"
proof (induction ks arbitrary: s n)
  case Nil
  then show ?case by simp
next
  case (Cons k ks)
  obtain s1 n1 where e: "rebalance_task now w k (s, n) = (s1, n1)" by fastforce
  from rebalance_task_micro [OF Cons.prems, of now w k n ok late] e
  have step: "micros ok late s s1" by auto
  with Cons.IH [OF sched_wf_micros [OF step Cons.prems], of n1] e show ?case by simp
qed

text \<open>Logging a state changes nothing the machine sees.\<close>

lemma micro_persist: "sched_micro ok late s (persistLocked s)"
  by (rule sched_micro.reorder) (simp_all add: same_frame_def)

lemma RebalanceWorker_micros:
  assumes "sched_wf s"
  shows "micros ok late s (RebalanceWorker now w s)"
proof -
  obtain s1 n where e: "fold (rebalance_task now w) (map fst (tasks s)) (s, 0) = (s1, n)" by fastforce
  from rebalance_fold_micros [OF assms, of ok late now w "map fst (tasks s)" 0] e
  have "micros ok late s s1" by simp
  then show ?thesis using micro_persist [of ok late s1]
    by (auto simp: RebalanceWorker_def e intro: rtranclp.rtrancl_into_rtrancl)
qed

lemma same_frame_simps [simp]:
  "same_frame s (persistLocked s') = same_frame s s'" "same_frame s (s'\<lparr>tasks := x\<rparr>) = same_frame s s'"
  "same_frame s (s'\<lparr>jobs := y\<rparr>) = same_frame s s'" "same_frame s (s'\<lparr>pendingQ := z\<rparr>) = same_frame s s'"
  by (simp_all add: same_frame_def)

subsubsection \<open>Polling\<close>

text \<open>The three ways a poll ends on a well-formed state: a pending task is handed out, a tail is
  stolen, or there is nothing to do.\<close>

definition assigned_to :: "Scheduler \<Rightarrow> string \<Rightarrow> int \<Rightarrow> Task \<Rightarrow> Task" where
  "assigned_to s w now t = grantLocked s (t\<lparr>tStatus := TaskAssigned, tWorkerID := w, tAssignedAt := Some now\<rparr>)"

lemma assigned_to_fields [simp]:
  "tID (assigned_to s w now t) = tID t" "tJobID (assigned_to s w now t) = tJobID t"
  "tShard (assigned_to s w now t) = tShard t" "tStatus (assigned_to s w now t) = TaskAssigned"
  "tWorkerID (assigned_to s w now t) = w"
  "tRangeStart (assigned_to s w now t) = tRangeStart t" "tRangeEnd (assigned_to s w now t) = tRangeEnd t"
  by (simp_all add: assigned_to_def)

lemma queue_tasks_commute: "s\<lparr>pendingQ := q, tasks := x\<rparr> = s\<lparr>tasks := x, pendingQ := q\<rparr>"
  by (cases s) simp

lemma PollTasks_cases:
  assumes wf: "sched_wf s" and u: "map_of (tasks s) u = None"
  obtains (idle) "PollTasks now u r w s = Ok (None, s)" "poll_index r w s = None" "stealLocked u s = (None, s)"
  | (pending) i t a where "poll_index r w s = Some i" "i < length (pendingQ s)"
      "map_of (tasks s) (pendingQ s ! i) = Some t" "tStatus t = TaskPending" "aTaskID a = tID t"
      "PollTasks now u r w s = Ok (Some a, persistLocked (s\<lparr>
         tasks := AList.update (pendingQ s ! i) (assigned_to s w now t) (tasks s),
         pendingQ := take i (pendingQ s) @ drop (Suc i) (pendingQ s)\<rparr>))"
  | (steal) k v p j a where "poll_index r w s = None" "map_of (tasks s) k = Some v" "in_flight v" "tGranted v < p" "p < tRangeEnd v"
      "map_of (jobs s) (tJobID v) = Some j" "aTaskID a = u"
      "p = i64 (tGranted v + i64 (tRangeEnd v - tGranted v) div 2)" "minStealItems \<le> i64 (tRangeEnd v - tGranted v)"
      "PollTasks now u r w s = Ok (Some a, persistLocked (s\<lparr>
         jobs := AList.update (tJobID v) (j\<lparr>jTotalTasks := jTotalTasks j + 1\<rparr>) (jobs s),
         tasks := AList.update u (assigned_to s w now (stolen_half u v p)) (AList.update k (kept_half v p) (tasks s))\<rparr>))"
proof (cases "poll_index r w s")
  case None
  from wf show thesis
  proof (cases rule: stealLocked_cases [of s u])
    case none
    with None show thesis by (intro idle) (simp_all add: PollTasks_def)
  next
    case st: (steal k v p j)
    let ?s1 = "s\<lparr>tasks := AList.update u (stolen_half u v p) (AList.update k (kept_half v p) (tasks s)),
       jobs := AList.update (tJobID v) (j\<lparr>jTotalTasks := jTotalTasks j + 1\<rparr>) (jobs s)\<rparr>"
    have "jcore ?s1 (tJobID (stolen_half u v p)) \<noteq> None" by (simp add: jcore_def)
    then obtain a where a: "assignLocked now u (stolen_half u v p) w ?s1 = Ok (a, ?s1\<lparr>tasks := AList.update u
        (grantLocked ?s1 ((stolen_half u v p)\<lparr>tStatus := TaskAssigned, tWorkerID := w, tAssignedAt := Some now\<rparr>))
        (tasks ?s1)\<rparr>)" "aTaskID a = tID (stolen_half u v p)"
      by (rule assignLocked_Ok)
    have "PollTasks now u r w s = Ok (Some a, persistLocked (s\<lparr>
         jobs := AList.update (tJobID v) (j\<lparr>jTotalTasks := jTotalTasks j + 1\<rparr>) (jobs s),
         tasks := AList.update u (assigned_to s w now (stolen_half u v p)) (AList.update k (kept_half v p) (tasks s))\<rparr>))"
      using None st(7) a(1) by (simp add: PollTasks_def assigned_to_def)
    with None st a(2) show thesis by (intro steal [of k v p j a]) simp_all
  qed
next
  case (Some i)
  with poll_index_spec [where r = r and w = w and s = s] obtain t where
    t: "i < length (pendingQ s)" "map_of (tasks s) (pendingQ s ! i) = Some t" "tStatus t = TaskPending"
    by (auto simp: pending_at_Some)
  let ?s1 = "s\<lparr>pendingQ := take i (pendingQ s) @ drop (Suc i) (pendingQ s)\<rparr>"
  have "jcore ?s1 (tJobID t) \<noteq> None" using sched_wfD(4) [OF wf t(2)] by simp
  then obtain a where a: "assignLocked now (pendingQ s ! i) t w ?s1 = Ok (a, ?s1\<lparr>tasks := AList.update (pendingQ s ! i)
      (grantLocked ?s1 (t\<lparr>tStatus := TaskAssigned, tWorkerID := w, tAssignedAt := Some now\<rparr>)) (tasks ?s1)\<rparr>)"
    "aTaskID a = tID t"
    by (rule assignLocked_Ok)
  have "PollTasks now u r w s = Ok (Some a, persistLocked (s\<lparr>
         tasks := AList.update (pendingQ s ! i) (assigned_to s w now t) (tasks s),
         pendingQ := take i (pendingQ s) @ drop (Suc i) (pendingQ s)\<rparr>))"
    using Some t(2) a(1) by (simp add: PollTasks_def Let_def assigned_to_def queue_tasks_commute)
  with Some t a(2) show thesis by (intro pending [of i t a]) simp_all
qed

lemma PollTasks_micros:
  assumes wf: "sched_wf s" and u: "map_of (tasks s) u = None" and r: "PollTasks now u r w s = Ok (ao, s')"
  shows "micros ok late s s'"
  using wf u
proof (cases rule: PollTasks_cases [where now = now and r = r and w = w])
  case idle
  with r show ?thesis by simp
next
  case (pending i t a)
  have st: "task_step ok late s t (assigned_to s w now t)"
    unfolding assigned_to_def by (rule task_step.assign [OF pending(4)])
  note q = sched_wf_remove_index [OF pending(2)]
  have "sched_micro ok late s s'"
    using one_task_micro(2) [OF wf pending(3) st, of "take i (pendingQ s) @ drop (Suc i) (pendingQ s)"] q pending(6) r
    by fastforce
  then show ?thesis by blast
next
  case (steal k v p j a)
  note m = sched_micro.split [OF steal(2-5) u steal(6,8,9), of ok late now w, folded assigned_to_def]
  with r steal(10) show ?thesis
    using micro_persist [of ok late] by (auto intro: rtranclp.rtrancl_into_rtrancl)
qed

text \<open>On a well-formed state a poll never panics and never fails.\<close>

lemma PollTasks_total:
  assumes "sched_wf s" "map_of (tasks s) u = None"
  shows "\<exists>ao s'. PollTasks now u r w s = Ok (ao, s')"
  using assms by (cases rule: PollTasks_cases [where now = now and r = r and w = w]) blast+

subsubsection \<open>Draining\<close>

text \<open>The loop runs on a state whose queue has already lost the drained ids; the machine drops
  them one at a time.\<close>

lemma drain_loop_micros:
  assumes "sched_wf s" and "pendingQ s = ids @ q"
  shows "\<exists>as s2. drain_loop now ids (s\<lparr>pendingQ := q\<rparr>) acc = Ok (as, s2) \<and> pendingQ s2 = q
           \<and> (\<forall>ok late. micros ok late s s2)"
  using assms
proof (induction ids arbitrary: s acc)
  case Nil
  then have e: "s\<lparr>pendingQ := q\<rparr> = s" by simp
  show ?case using Nil.prems(2) unfolding drain_loop.simps e by simp
next
  case (Cons k ids)
  let ?s = "s\<lparr>pendingQ := q\<rparr>" and ?s1 = "s\<lparr>pendingQ := ids @ q\<rparr>"
  have stale: ?case if skip: "drain_loop now (k # ids) ?s acc = drain_loop now ids ?s acc"
    and np: "\<forall>t. map_of (tasks s) k = Some t \<longrightarrow> tStatus t \<noteq> TaskPending"
  proof -
    have m: "sched_micro ok late s ?s1" for ok late
      by (rule sched_micro.unqueue) (use Cons.prems(2) np in auto)
    from Cons.IH [of ?s1 acc] sched_wf_micro [OF m Cons.prems(1)] obtain as s2
      where "drain_loop now ids ?s acc = Ok (as, s2)" "pendingQ s2 = q" "\<forall>ok late. micros ok late ?s1 s2" by auto
    with skip m show ?thesis by (metis converse_rtranclp_into_rtranclp)
  qed
  show ?case
  proof (cases "map_of (tasks s) k")
    case None
    then show ?thesis by (intro stale) simp_all
  next
    case t: (Some t)
    from sched_wfD(4) [OF Cons.prems(1) t] have j: "map_of (jobs s) (tJobID t) \<noteq> None" "jcore s (tJobID t) \<noteq> None"
      by (auto simp: jcore_def)
    show ?thesis
    proof (cases "tStatus t = TaskPending")
      case False
      with t show ?thesis by (intro stale) simp_all
    next
      case True
      let ?t = "grantLocked s (t\<lparr>tStatus := TaskAssigned, tAssignedAt := Some now\<rparr>)"
      let ?s2 = "s\<lparr>tasks := AList.update k ?t (tasks s), pendingQ := ids @ q\<rparr>"
      have st: "task_step ok late s t ?t" for ok late
        using task_step.assign [OF True, of ok late s now "tWorkerID t"] by simp
      have m: "sched_micro ok late s ?s2" for ok late
        by (rule one_task_micro(1) [OF Cons.prems(1) t st]) (use Cons.prems(2) in auto)
      obtain a where "assignmentFor (?s\<lparr>tasks := AList.update k ?t (tasks s)\<rparr>) ?t = Ok a"
        using assignmentFor_Ok [of "?s\<lparr>tasks := AList.update k ?t (tasks s)\<rparr>" ?t] j(2) by auto
      then have run: "drain_loop now (k # ids) ?s acc = drain_loop now ids (?s2\<lparr>pendingQ := q\<rparr>) (acc @ [a])"
        using t True j(1) by (auto simp: Let_def queue_tasks_commute)
      from Cons.IH [of ?s2 "acc @ [a]"] sched_wf_micro [OF m Cons.prems(1)] obtain as s3
        where "drain_loop now ids (?s2\<lparr>pendingQ := q\<rparr>) (acc @ [a]) = Ok (as, s3)" "pendingQ s3 = q"
          "\<forall>ok late. micros ok late ?s2 s3" by auto
      with run m show ?thesis by (metis converse_rtranclp_into_rtranclp)
    qed
  qed
qed

lemma DrainPending_micros:
  assumes wf: "sched_wf s" and r: "DrainPending now n s = Ok (as, s')"
  shows "micros ok late s s'"
proof -
  define n1 where "n1 = (if n > int (length (pendingQ s)) then int (length (pendingQ s)) else n)"
  show ?thesis
  proof (cases "n1 \<le> 0")
    case True
    with r show ?thesis by (auto simp: DrainPending_def n1_def Let_def split: if_splits)
  next
    case False
    from drain_loop_micros [OF wf append_take_drop_id [symmetric], where n1 = "nat n1" and now = now and acc = "[]"] obtain as2 s2
      where "drain_loop now (take (nat n1) (pendingQ s)) (s\<lparr>pendingQ := drop (nat n1) (pendingQ s)\<rparr>) [] = Ok (as2, s2)"
        "micros ok late s s2" by blast
    with r False show ?thesis using micro_persist [of ok late s2]
      by (auto simp: DrainPending_def n1_def [symmetric] Let_def intro: rtranclp.rtrancl_into_rtrancl)
  qed
qed

lemma DrainPending_total:
  assumes wf: "sched_wf s" and "0 \<le> n"
  shows "\<exists>as s'. DrainPending now n s = Ok (as, s')"
proof -
  define n1 where "n1 = (if n > int (length (pendingQ s)) then int (length (pendingQ s)) else n)"
  from drain_loop_micros [OF wf append_take_drop_id [symmetric], of now "nat n1" "[]"] assms(2) show ?thesis
    by (auto simp: DrainPending_def n1_def [symmetric] Let_def) (auto simp: n1_def split: if_splits)
qed

subsubsection \<open>Submission\<close>

text \<open>What \<^verbatim>\<open>uuid.New()\<close> promises: ids not seen before, all different.\<close>

definition fresh_uuids :: "(nat \<Rightarrow> string) \<Rightarrow> nat \<Rightarrow> Scheduler \<Rightarrow> bool" where
  "fresh_uuids uuid n s \<longleftrightarrow> map_of (jobs s) (uuid 0) = None \<and> distinct (map uuid [1..<Suc n])
     \<and> list_all (\<lambda>u. map_of (tasks s) u = None) (map uuid [1..<Suc n])"

definition effective_shards :: "SubmitJobRequest \<Rightarrow> string list" where
  "effective_shards req = (if sbShards req = [] then AllShards else sbShards req)"

lemma update_new: "map_of m k = None \<Longrightarrow> AList.update k v m = m @ [(k, v)]"
  by (induction m) auto

lemma submit_tasks_append:
  assumes "distinct (map uuid [i..<i + length shards])"
    and "\<forall>n \<in> {i..<i + length shards}. map_of (tasks s) (uuid n) = None"
  shows "submit_tasks uuid i job shards s = s\<lparr>tasks := tasks s @ fresh_tasks uuid job (maxRetries s) i shards,
           pendingQ := pendingQ s @ map fst (fresh_tasks uuid job (maxRetries s) i shards)\<rparr>"
  using assms
proof (induction shards arbitrary: i s)
  case Nil
  then show ?case by (simp add: fresh_tasks_def)
next
  case (Cons sh shards)
  let ?s = "s\<lparr>tasks := tasks s @ [(uuid i, fresh_task uuid job (maxRetries s) i sh)], pendingQ := pendingQ s @ [uuid i]\<rparr>"
  have "map_of (tasks s) (uuid i) = None" using Cons.prems(2) by simp
  then have one: "submit_tasks uuid i job (sh # shards) s = submit_tasks uuid (Suc i) job shards ?s"
    by (simp add: Let_def update_new fresh_task_def)
  have d: "uuid i \<notin> uuid ` {Suc i..<Suc (i + length shards)}" "distinct (map uuid [Suc i..<Suc i + length shards])"
    using Cons.prems(1) by (simp_all add: upt_rec [of i] del: upt_Suc)
  have "\<forall>n \<in> {Suc i..<Suc i + length shards}. map_of (tasks ?s) (uuid n) = None"
  proof
    fix n assume n: "n \<in> {Suc i..<Suc i + length shards}"
    then have "uuid n \<in> uuid ` {Suc i..<Suc (i + length shards)}" by auto
    with d(1) have "uuid n \<noteq> uuid i" by metis
    with Cons.prems(2) n show "map_of (tasks ?s) (uuid n) = None" by (auto simp: map_add_def)
  qed
  from Cons.IH [OF d(2) this] show ?case unfolding one by (simp add: fresh_tasks_Cons)
qed

lemma Submit_micro:
  assumes wf: "sched_wf s" and fresh: "fresh_uuids uuid (length (effective_shards req)) s"
    and r: "Submit now uuid req s = (job, s')"
  shows "sched_micro ok late s s'" and "map_of (jobs s') (jID job) = Some job" "jID job = uuid 0"
    "jShards job = effective_shards req" "jDataset job = sbDataset req"
proof -
  define sh where "sh = effective_shards req"
  have new: "map_of (tasks s) (uuid i) = None" if "1 \<le> i" "i \<le> length sh" for i
    using fresh that unfolding fresh_uuids_def sh_def list_all_iff by (auto simp del: upt_Suc)
  define j0 where "j0 = \<lparr>jID = uuid 0, jDataset = sbDataset req, jAlgorithm = sbAlgorithm req,
     jConfig = sbConfig req, jPriority = sbPriority req, jStatus = JobPending,
     jShards = sh, jTotalTasks = int (length sh), jDoneTasks = 0, jFailedTasks = 0,
     jCreatedAt = now, jStartedAt = None, jFinishedAt = None, jError = []\<rparr>"
  define s0 where "s0 = s\<lparr>jobs := AList.update (jID j0) j0 (jobs s)\<rparr>"
  define ft where "ft = fresh_tasks uuid j0 (maxRetries s) 1 sh"
  have sub: "submit_tasks uuid 1 j0 sh s0 = s0\<lparr>tasks := tasks s @ ft, pendingQ := pendingQ s @ map fst ft\<rparr>"
    using submit_tasks_append [of uuid 1 sh s0 j0] fresh new by (simp add: fresh_uuids_def sh_def s0_def ft_def)
  have job: "job = j0\<lparr>jStatus := JobRunning, jStartedAt := Some now\<rparr>"
    and s': "s' = persistLocked (s0\<lparr>tasks := tasks s @ ft, pendingQ := pendingQ s @ map fst ft,
               jobs := AList.update (jID j0) job (jobs s0)\<rparr>)"
    using r sub [unfolded One_nat_def] unfolding Submit_def Let_def effective_shards_def [symmetric] sh_def [symmetric] j0_def [symmetric] s0_def [symmetric]
    by (auto simp: s0_def)
  have ft': "fresh_tasks uuid job (maxRetries s) 1 (jShards job) = ft"
    by (simp add: ft_def fresh_tasks_def fresh_task_def job j0_def)
  have dj: "distinct (map fst (jobs s'))" using sched_wfD(1) [OF wf] by (simp add: s' s0_def)
  show "sched_micro ok late s s'"
  proof (rule sched_micro.submit [where uuid = uuid and job = job], unfold ft')
    show "map_of (jobs s) (jID job) = None" using fresh by (simp add: job j0_def fresh_uuids_def)
    show "jStatus job \<noteq> JobCompleted" by (simp add: job)
    show "distinct (map fst ft)" "fst ` set ft \<inter> dom (map_of (tasks s)) = {}"
    proof -
      have m: "map fst ft = map uuid [1..<Suc (length sh)]" by (simp add: ft_def map_fst_fresh_tasks)
      show "distinct (map fst ft)" using fresh by (simp only: m fresh_uuids_def sh_def)
      have "fst ` set ft = uuid ` {1..length sh}"
        using arg_cong [OF m, of set] by (simp add: atLeastLessThanSuc_atLeastAtMost del: upt_Suc)
      then show "fst ` set ft \<inter> dom (map_of (tasks s)) = {}"
        using new by auto
    qed
  qed (use dj in \<open>auto simp: s' s0_def job j0_def same_frame_def fun_eq_iff\<close>)
  show "map_of (jobs s') (jID job) = Some job" "jID job = uuid 0" "jShards job = effective_shards req"
    "jDataset job = sbDataset req"
    by (simp_all add: s' job j0_def sh_def)
qed

end
