(* ===== verification/Sched_Inv.thy ===== *)
theory Sched_Inv
  imports Sched_Steps
begin

section \<open>Scheduler: leases and the tiling of shards\<close>

text \<open>
  Executions of the scheduler as sequences of operations (\<open>sched_op\<close>, \<open>run_op\<close>), and what holds
  in every reachable state. \<open>sz j sh\<close> is the number of objects of shard \<open>sh\<close> in the dataset of
  job \<open>j\<close>, which the workers list and report. A renewal is honest when it reports that number
  and a position inside the shard at or past the first lease, which is what
  \<^verbatim>\<open>runAlgorithm\<close> in \<^verbatim>\<open>internal/worker/worker.go\<close> sends.
\<close>

subsection \<open>Operations and executions\<close>

datatype sched_op =
    OpSubmit int "nat \<Rightarrow> string" SubmitJobRequest
  | OpPoll int string Ring string
  | OpStart int string string
  | OpRenew string RenewLeaseRequest
  | OpReport int string ResultRequest
  | OpRebalance int string
  | OpDrain int int

text \<open>An operation that fails leaves the state as it is.\<close>

fun run_op :: "sched_op \<Rightarrow> Scheduler \<Rightarrow> Scheduler" where
  "run_op (OpSubmit now uuid req) s = snd (Submit now uuid req s)"
| "run_op (OpPoll now u r w) s = (case PollTasks now u r w s of Ok (_, s') \<Rightarrow> s' | _ \<Rightarrow> s)"
| "run_op (OpStart now k w) s = (case StartTask now k w s of Ok s' \<Rightarrow> s' | _ \<Rightarrow> s)"
| "run_op (OpRenew k req) s = (case RenewLease k req s of Ok (_, s') \<Rightarrow> s' | _ \<Rightarrow> s)"
| "run_op (OpReport now k req) s = (case report_finish now k req s of Ok s' \<Rightarrow> s' | _ \<Rightarrow> s)"
| "run_op (OpRebalance now w) s = RebalanceWorker now w s"
| "run_op (OpDrain now n) s = (case DrainPending now n s of Ok (_, s') \<Rightarrow> s' | _ \<Rightarrow> s)"

definition honest :: "(string \<Rightarrow> string \<Rightarrow> int) \<Rightarrow> int \<Rightarrow> Task \<Rightarrow> RenewLeaseRequest \<Rightarrow> bool" where
  "honest sz c t req \<longleftrightarrow> rnTotal req = sz (tJobID t) (tShard t) \<and> 0 \<le> rnFrontier req \<and> rnFrontier req < rnTotal req
     \<and> (tRangeEnd t < 0 \<longrightarrow> c \<le> rnFrontier req)"

text \<open>The assumptions on the environment of an operation. \<open>ok\<close> restricts renewals; unless \<open>late\<close>,
  a start reaches the task while it is in flight.\<close>

fun op_ok :: "(Task \<Rightarrow> RenewLeaseRequest \<Rightarrow> bool) \<Rightarrow> bool \<Rightarrow> sched_op \<Rightarrow> Scheduler \<Rightarrow> bool" where
  "op_ok ok late (OpSubmit now uuid req) s = fresh_uuids uuid (length (effective_shards req)) s"
| "op_ok ok late (OpPoll now u r w) s = (map_of (tasks s) u = None)"
| "op_ok ok late (OpStart now k w) s =
     (late \<or> (case map_of (tasks s) k of None \<Rightarrow> True | Some t \<Rightarrow> in_flight t))"
| "op_ok ok late (OpRenew k req) s = (case map_of (tasks s) k of None \<Rightarrow> True | Some t \<Rightarrow> ok t req)"
| "op_ok ok late (OpReport now k req) s = True"
| "op_ok ok late (OpRebalance now w) s = True"
| "op_ok ok late (OpDrain now n) s = True"

text \<open>A state reached from a new scheduler, its maps visited in any order.\<close>

inductive reachable :: "(Task \<Rightarrow> RenewLeaseRequest \<Rightarrow> bool) \<Rightarrow> bool \<Rightarrow> int \<Rightarrow> Scheduler \<Rightarrow> bool" for ok late c where
  init: "reachable ok late c (SetLeaseChunk c (New mr))"
| attach: "reachable ok late c s \<Longrightarrow> reachable ok late c (AttachStore s)"
| hook: "reachable ok late c s \<Longrightarrow> reachable ok late c (SetJobDoneHook s)"
| reorder: "reachable ok late c s \<Longrightarrow> mset ts = mset (tasks s) \<Longrightarrow> mset js = mset (jobs s) \<Longrightarrow>
     reachable ok late c (s\<lparr>tasks := ts, jobs := js\<rparr>)"
| step: "reachable ok late c s \<Longrightarrow> op_ok ok late x s \<Longrightarrow> reachable ok late c (run_op x s)"

text \<open>Every operation is a sequence of micro steps of the abstract machine: the refinement.\<close>

lemma run_op_micros:
  assumes wf: "sched_wf s" and ok: "op_ok ok late x s"
  shows "micros ok late s (run_op x s)"
proof (cases x)
  case (OpSubmit now uuid req)
  then show ?thesis using Submit_micro(1) [OF wf, of uuid req now _ _ ok late] ok
    by (cases "Submit now uuid req s") (auto intro: r_into_rtranclp)
next
  case (OpPoll now u r w)
  with ok show ?thesis
    by (cases "PollTasks now u r w s") (auto split: prod.splits intro: PollTasks_micros [OF wf])
next
  case (OpStart now k w)
  with ok show ?thesis
    by (cases "StartTask now k w s") (auto intro!: r_into_rtranclp StartTask_micro [OF wf] split: option.splits)
next
  case (OpRenew k req)
  with ok show ?thesis
    by (cases "RenewLease k req s") (auto intro!: r_into_rtranclp RenewLease_micro [OF wf] split: option.splits)
next
  case (OpReport now k req)
  then show ?thesis using report_finish_micro [OF wf, of now k req _ ok late]
    by (cases "report_finish now k req s") auto
next
  case (OpRebalance now w)
  then show ?thesis using RebalanceWorker_micros [OF wf] by simp
next
  case (OpDrain now n)
  then show ?thesis
    by (cases "DrainPending now n s") (auto split: prod.splits intro: DrainPending_micros [OF wf])
qed

lemma sched_wf_New: "sched_wf (SetLeaseChunk c (New mr))"
  by (simp add: sched_wf_def SetLeaseChunk_def New_def jcore_def)

lemma reachable_micros:
  assumes "reachable ok late c s"
  shows "\<exists>mr. micros ok late (SetLeaseChunk c (New mr)) s"
  using assms
proof induction
  case (init mr)
  then show ?case by blast
next
  case (attach s)
  have "sched_micro ok late s (AttachStore s)"
    by (rule sched_micro.reorder) (simp_all add: AttachStore_def same_frame_def)
  with attach.IH show ?case by (blast intro: rtranclp.rtrancl_into_rtrancl)
next
  case (hook s)
  have "sched_micro ok late s (SetJobDoneHook s)"
    by (rule sched_micro.reorder) (simp_all add: SetJobDoneHook_def same_frame_def)
  with hook.IH show ?case by (blast intro: rtranclp.rtrancl_into_rtrancl)
next
  case (reorder s ts js)
  have "sched_micro ok late s (s\<lparr>tasks := ts, jobs := js\<rparr>)"
    by (rule sched_micro.reorder) (simp_all add: reorder.hyps)
  with reorder.IH show ?case by (blast intro: rtranclp.rtrancl_into_rtrancl)
next
  case (step s x)
  from step.IH obtain mr where m: "micros ok late (SetLeaseChunk c (New mr)) s" by blast
  from run_op_micros [OF sched_wf_micros [OF m sched_wf_New] step.hyps(2)] m show ?case
    by (metis rtranclp_trans)
qed

text \<open>The one induction the invariants below rest on: well-formedness may be assumed at each step.\<close>

lemma reachable_invariant:
  assumes r: "reachable ok late c s"
    and init: "\<And>mr. I (SetLeaseChunk c (New mr))"
    and step: "\<And>s s'. sched_micro ok late s s' \<Longrightarrow> sched_wf s \<Longrightarrow> I s \<Longrightarrow> I s'"
  shows "sched_wf s \<and> I s"
proof -
  obtain mr where "micros ok late (SetLeaseChunk c (New mr)) s" using reachable_micros [OF r] by blast
  then show ?thesis
    by (induction rule: rtranclp_induct) (use init step sched_wf_New sched_wf_micro in blast)+
qed

lemma reachable_wf: "reachable ok late c s \<Longrightarrow> sched_wf s"
  using reachable_invariant [of ok late c s "\<lambda>_. True"] by blast

subsection \<open>The lease invariant\<close>

text \<open>\<open>lease_inv sz c t\<close>: the documented invariant (\<open>lease_ok\<close>) and where the task's range may lie:
  a range of unknown end is a whole shard on its first lease, a known range is not empty and
  inside its shard, and a task that was never split has the whole shard.\<close>

definition lease_inv :: "(string \<Rightarrow> string \<Rightarrow> int) \<Rightarrow> int \<Rightarrow> Task \<Rightarrow> bool" where
  "lease_inv sz c t \<longleftrightarrow> lease_ok t \<and> 0 \<le> tRangeStart t
     \<and> (tRangeEnd t < 0 \<longrightarrow> tRangeEnd t = -1 \<and> tRangeStart t = 0 \<and> tFrontier t = 0 \<and> tGranted t \<le> c)
     \<and> (tRangeEnd t \<ge> 0 \<longrightarrow> tRangeStart t < tRangeEnd t \<and> tRangeEnd t \<le> sz (tJobID t) (tShard t))
     \<and> (\<not> tSplit t \<longrightarrow> tRangeStart t = 0 \<and> (tRangeEnd t \<ge> 0 \<longrightarrow> tRangeEnd t = sz (tJobID t) (tShard t)))
     \<and> (tSplit t \<longrightarrow> tRangeEnd t \<ge> 0)"

definition sizes_ok :: "(string \<Rightarrow> string \<Rightarrow> int) \<Rightarrow> int \<Rightarrow> bool" where
  "sizes_ok sz c \<longleftrightarrow> 0 < c \<and> c < 2 ^ 62 \<and> (\<forall>j sh. sz j sh < 2 ^ 62)"

text \<open>A grant keeps the invariant: the 64-bit sum does not wrap, because offsets stay below
  \<open>2 ^ 62\<close>.\<close>

lemma lease_inv_grant:
  assumes "lease_inv sz c t" and sz: "sizes_ok sz c" and "leaseChunk s = c"
  shows "lease_inv sz c (grantLocked s t)"
proof -
  have szb: "0 < c" "c < 2 ^ 62" "sz (tJobID t) (tShard t) < 2 ^ 62" using sz by (auto simp: sizes_ok_def)
  have "0 \<le> tFrontier t" "tFrontier t < 2 ^ 62"
    using assms(1) szb(3) by (auto simp: lease_inv_def lease_ok_def)
  with szb have "i64 (tFrontier t + c) = tFrontier t + c" by (intro i64_id) simp_all
  with assms show ?thesis by (auto simp: grantLocked_def Let_def lease_inv_def lease_ok_def)
qed

lemma lease_inv_cong:
  "lease_inv sz c t \<Longrightarrow> tJobID t' = tJobID t \<Longrightarrow> tShard t' = tShard t \<Longrightarrow> tRangeStart t' = tRangeStart t \<Longrightarrow>
   tRangeEnd t' = tRangeEnd t \<Longrightarrow> tFrontier t' = tFrontier t \<Longrightarrow> tGranted t' = tGranted t \<Longrightarrow> tSplit t' = tSplit t \<Longrightarrow>
   lease_inv sz c t'"
  by (simp add: lease_inv_def lease_ok_def)

lemma grantLocked_Granted:
  "tGranted (grantLocked s t) = max (tGranted t)
     (let g = i64 (tFrontier t + leaseChunk s) in if tRangeEnd t \<ge> 0 \<and> g > tRangeEnd t then tRangeEnd t else g)"
  by (simp add: grantLocked_def Let_def)

lemma if_task_update:
  "(if b then t\<lparr>tRangeEnd := x\<rparr> else t) = t\<lparr>tRangeEnd := if b then x else tRangeEnd t\<rparr>"
  "(if b then t\<lparr>tFrontier := x\<rparr> else t) = t\<lparr>tFrontier := if b then x else tFrontier t\<rparr>"
  by simp_all

lemma renew_task_alt:
  fixes s req and t :: Task
  defines "E \<equiv> if tRangeEnd t < 0 \<and> rnTotal req > 0 then rnTotal req else tRangeEnd t"
  defines "F \<equiv> if rnFrontier req > tFrontier t then rnFrontier req else tFrontier t"
  shows "renew_task s req t = grantLocked s (t\<lparr>tRangeEnd := E, tFrontier := if E \<ge> 0 \<and> F > E then E else F\<rparr>)"
  unfolding renew_task_def Let_def if_task_update E_def F_def by simp

lemma lease_inv_renew:
  assumes inv: "lease_inv sz c t" and sz: "sizes_ok sz c" and c: "leaseChunk s = c"
    and h: "honest sz c t req"
  shows "lease_inv sz c (renew_task s req t)"
proof -
  define E where "E = (if tRangeEnd t < 0 then rnTotal req else tRangeEnd t)"
  define F where "F = min (max (tFrontier t) (rnFrontier req)) E"
  define t3 where "t3 = t\<lparr>tRangeEnd := E, tFrontier := F\<rparr>"
  have szb: "0 < c" "c < 2 ^ 62" "sz (tJobID t) (tShard t) < 2 ^ 62" using sz by (auto simp: sizes_ok_def)
  have E: "0 \<le> E" "tRangeStart t < E" "tGranted t \<le> E" "E \<le> sz (tJobID t) (tShard t)" "E < 2 ^ 62"
    "\<not> tSplit t \<longrightarrow> E = sz (tJobID t) (tShard t)"
    using inv h szb by (auto simp: E_def lease_inv_def lease_ok_def honest_def)
  have F: "tRangeStart t \<le> F" "F \<le> E" "0 \<le> F"
    using inv E by (auto simp: F_def lease_inv_def lease_ok_def)
  have eq: "renew_task s req t = grantLocked s t3"
    using h E(1) unfolding renew_task_alt t3_def F_def E_def honest_def by (auto simp: min_def max_def)
  have "i64 (F + c) = F + c" using F E(5) szb by (intro i64_id) simp_all
  then have g: "tGranted (grantLocked s t3) = max (tGranted t) (min (F + c) E)"
    using E(1) c by (simp add: grantLocked_Granted t3_def Let_def min_def)
  have start: "0 \<le> tRangeStart t" "\<not> tSplit t \<longrightarrow> tRangeStart t = 0" using inv by (simp_all add: lease_inv_def)
  show ?thesis
    using E F szb(1) start unfolding lease_inv_def lease_ok_def eq g by (simp add: t3_def)
qed

lemma lease_inv_step:
  assumes st: "task_step (honest sz c) late s t t'" and inv: "lease_inv sz c t" and sz: "sizes_ok sz c"
    and c: "leaseChunk s = c"
  shows "lease_inv sz c t'"
  using st
proof cases
  case (assign now w)
  have "lease_inv sz c (t\<lparr>tStatus := TaskAssigned, tWorkerID := w, tAssignedAt := Some now\<rparr>)"
    by (rule lease_inv_cong [OF inv]) simp_all
  from lease_inv_grant [OF this sz c] assign show ?thesis by simp
next
  case (start now)
  then show ?thesis by (auto intro: lease_inv_cong [OF inv])
next
  case (renew req)
  then show ?thesis using lease_inv_renew [OF inv sz c] by simp
next
  case (retry fin err)
  then show ?thesis using inv sz by (auto simp: lease_inv_def lease_ok_def sizes_ok_def)
next
  case (finish st fin err w)
  then show ?thesis by (auto intro: lease_inv_cong [OF inv])
qed

text \<open>A split keeps it in both halves.\<close>

lemma lease_inv_halves:
  assumes inv: "lease_inv sz c v" and p: "tGranted v < p" "p < tRangeEnd v" and sz: "sizes_ok sz c" and c: "leaseChunk s = c"
  shows "lease_inv sz c (kept_half v p)" "lease_inv sz c (assigned_to s w now (stolen_half u v p))"
proof -
  show "lease_inv sz c (kept_half v p)" using inv p by (auto simp: lease_inv_def lease_ok_def)
  have "lease_inv sz c ((stolen_half u v p)\<lparr>tStatus := TaskAssigned, tWorkerID := w, tAssignedAt := Some now\<rparr>)"
    using inv p by (auto simp: lease_inv_def lease_ok_def)
  then show "lease_inv sz c (assigned_to s w now (stolen_half u v p))"
    unfolding assigned_to_def by (rule lease_inv_grant [OF _ sz c])
qed

definition leases_ok :: "(string \<Rightarrow> string \<Rightarrow> int) \<Rightarrow> int \<Rightarrow> Scheduler \<Rightarrow> bool" where
  "leases_ok sz c s \<longleftrightarrow> leaseChunk s = c \<and> (\<forall>k t. map_of (tasks s) k = Some t \<longrightarrow> lease_inv sz c t)"

lemma leases_ok_micro:
  assumes m: "sched_micro (honest sz c) late s s'" and wf: "sched_wf s" and inv: "leases_ok sz c s" and sz: "sizes_ok sz c"
  shows "leases_ok sz c s'"
proof -
  have c: "leaseChunk s = c" and all: "\<And>k t. map_of (tasks s) k = Some t \<Longrightarrow> lease_inv sz c t"
    using inv by (auto simp: leases_ok_def)
  from m show ?thesis
  proof cases
    case (one_task k t t')
    from lease_inv_step [OF one_task(2) all [OF one_task(1)] sz c] show ?thesis
      using one_task(6) c all unfolding leases_ok_def one_task(3) same_frame_def by simp
  next
    case (split k v p u j now w)
    note h = lease_inv_halves [OF all [OF split(2)] split(4,5) sz c]
    show ?thesis unfolding leases_ok_def split(1)
      using h c all by (simp add: assigned_to_def)
  next
    case (submit job uuid)
    have "lease_inv sz c t" if "map_of (tasks s') k = Some t" for k t
    proof -
      from that consider "map_of (tasks s) k = Some t"
        | "map_of (fresh_tasks uuid job (maxRetries s) 1 (jShards job)) k = Some t"
        unfolding submit(6) by (auto simp: map_add_def split: option.splits)
      then show ?thesis
      proof cases
        case 2
        from in_fresh_tasksD [OF map_of_in_set [OF 2]] sz show ?thesis
          by (auto simp: lease_inv_def lease_ok_def sizes_ok_def)
      qed (rule all)
    qed
    with c submit show ?thesis by (simp add: leases_ok_def same_frame_def)
  next
    case unqueue
    with c all show ?thesis by (auto simp: leases_ok_def same_frame_def)
  next
    case reorder
    then have "map_of (tasks s') = map_of (tasks s)"
      using map_of_mset [OF reorder(1) [symmetric] sched_wfD(2) [OF wf]] by simp
    with reorder(4) c all show ?thesis by (simp add: leases_ok_def same_frame_def)
  qed
qed

lemma reachable_leases_ok:
  assumes "reachable (honest sz c) late c s" and sz: "sizes_ok sz c"
  shows "leases_ok sz c s"
proof -
  have "leases_ok sz c (SetLeaseChunk c (New mr))" for mr
    using sz by (simp add: leases_ok_def SetLeaseChunk_def New_def sizes_ok_def)
  with reachable_invariant [OF assms(1), of "leases_ok sz c"] leases_ok_micro [OF _ _ _ sz] show ?thesis by blast
qed

subsection \<open>Every object has exactly one owner\<close>

definition covers :: "Task \<Rightarrow> int \<Rightarrow> bool" where
  "covers t i \<longleftrightarrow> tRangeStart t \<le> i \<and> (tRangeEnd t \<ge> 0 \<longrightarrow> i < tRangeEnd t)"

text \<open>How many tasks of job \<open>jid\<close> have object \<open>i\<close> of shard \<open>sh\<close> in their range.\<close>

definition owners :: "(string, Task) gomap \<Rightarrow> string \<Rightarrow> string \<Rightarrow> int \<Rightarrow> nat" where
  "owners ts jid sh i = count_map (\<lambda>t. tJobID t = jid \<and> tShard t = sh \<and> covers t i) ts"

definition tiled :: "(string \<Rightarrow> string \<Rightarrow> int) \<Rightarrow> Scheduler \<Rightarrow> bool" where
  "tiled sz s \<longleftrightarrow> (\<forall>jid j sh i. map_of (jobs s) jid = Some j \<longrightarrow> 0 \<le> i \<longrightarrow> i < sz jid sh \<longrightarrow>
     owners (tasks s) jid sh i = count_list (jShards j) sh)"

lemma renew_RangeEnd:
  "tRangeEnd (renew_task s req t) = (if tRangeEnd t < 0 \<and> rnTotal req > 0 then rnTotal req else tRangeEnd t)"
  by (simp add: renew_task_def Let_def)

lemma covers_step:
  assumes "task_step (honest sz c) late s t t'" "0 \<le> i" "i < sz (tJobID t) (tShard t)"
  shows "covers t' i = covers t i"
  using assms(1)
proof cases
  case (renew req)
  with assms(2,3) show ?thesis by (auto simp: covers_def renew_RangeEnd honest_def)
qed (simp_all add: covers_def)

lemma owners_fresh:
  "0 \<le> i \<Longrightarrow> owners (fresh_tasks uuid job mr n shards) jid sh i = (if jid = jID job then count_list shards sh else 0)"
proof (induction shards arbitrary: n)
  case Nil
  then show ?case by (simp add: owners_def fresh_tasks_def)
next
  case (Cons a shards)
  then show ?case by (auto simp: owners_def fresh_tasks_Cons covers_def)
qed

lemma owners_no_job:
  assumes "sched_wf s" "map_of (jobs s) jid = None"
  shows "owners (tasks s) jid sh i = 0"
  unfolding owners_def count_map_zero
proof (clarify)
  fix k t assume "(k, t) \<in> set (tasks s)" "jid = tJobID t"
  with sched_wfD(2) [OF assms(1)] sched_wfD(4) [OF assms(1), of k t] assms(2) show False
    by (auto simp: jcore_def map_of_eq_Some_iff)
qed

text \<open>A split moves the objects of the tail from one owner to the other.\<close>

lemma owners_split:
  assumes wf: "sched_wf s" and v: "map_of (tasks s) k = Some v" and u: "map_of (tasks s) u = None"
    and p: "tRangeStart v \<le> p" "p < tRangeEnd v" "0 \<le> p"
    and st: "tJobID st = tJobID v" "tShard st = tShard v" "tRangeStart st = p" "tRangeEnd st = tRangeEnd v"
  shows "owners (AList.update u st (AList.update k (kept_half v p) (tasks s))) jid sh i = owners (tasks s) jid sh i"
proof -
  let ?P = "\<lambda>t. tJobID t = jid \<and> tShard t = sh \<and> covers t i"
  let ?m = "AList.update k (kept_half v p) (tasks s)"
  have "map_of ?m u = None" using u v by auto
  from count_map_update_new [OF this, of ?P st]
  have new: "owners (AList.update u st ?m) jid sh i = owners ?m jid sh i + (if ?P st then 1 else 0)"
    by (simp add: owners_def)
  have old: "owners ?m jid sh i + (if ?P v then 1 else 0) = owners (tasks s) jid sh i + (if ?P (kept_half v p) then 1 else 0)"
    using count_map_update_old [OF sched_wfD(2) [OF wf] v, of ?P "kept_half v p"] by (simp add: owners_def)
  have "(if ?P st then 1 else 0) + (if ?P (kept_half v p) then 1 else 0) = (if ?P v then 1 else (0::nat))"
    using p st by (auto simp: covers_def)
  with new old show ?thesis by linarith
qed

lemma jcore_shards:
  assumes "jcore s' = jcore s" "map_of (jobs s') k = Some j'"
  obtains j where "map_of (jobs s) k = Some j" "jShards j = jShards j'"
proof (cases "map_of (jobs s) k")
  case None
  with fun_cong [OF assms(1), of k] assms(2) show thesis by (simp add: jcore_def)
next
  case (Some j)
  with fun_cong [OF assms(1), of k] assms(2) that show thesis by (simp add: jcore_def job_core_def)
qed

lemma tiledI:
  assumes "\<And>jid j sh i. map_of (jobs s) jid = Some j \<Longrightarrow> 0 \<le> i \<Longrightarrow> i < sz jid sh \<Longrightarrow>
     owners (tasks s) jid sh i = count_list (jShards j) sh"
  shows "tiled sz s"
  using assms by (simp add: tiled_def)

lemma tiled_micro:
  assumes m: "sched_micro (honest sz c) late s s'" and wf: "sched_wf s"
    and lo: "leases_ok sz c s" and inv: "tiled sz s"
  shows "tiled sz s'"
proof -
  have T: "owners (tasks s) jid sh i = count_list (jShards j) sh"
    if "map_of (jobs s) jid = Some j" "0 \<le> i" "i < sz jid sh" for jid j sh i
    using inv that by (simp add: tiled_def)
  from m show ?thesis
  proof cases
    case (one_task k t t')
    show ?thesis
    proof (rule tiledI)
      fix jid j' sh i assume j': "map_of (jobs s') jid = Some j'" and i: "0 \<le> i" "i < sz jid sh"
      obtain j where j: "map_of (jobs s) jid = Some j" "jShards j = jShards j'"
        using jcore_shards [OF one_task(4) j'] .
      have "owners (tasks s') jid sh i = owners (tasks s) jid sh i"
        unfolding owners_def one_task(3)
        by (rule count_map_update_same [OF sched_wfD(2) [OF wf] one_task(1)])
           (use task_step_identity(2,3) [OF one_task(2)] covers_step [OF one_task(2) i(1)] i(2) in auto)
      with T [OF j(1) i] j(2) show "owners (tasks s') jid sh i = count_list (jShards j') sh" by simp
    qed
  next
    case (split k v p u j now w)
    have l: "lease_inv sz c v" using lo split(2) by (simp add: leases_ok_def)
    then have p: "tRangeStart v \<le> p" "0 \<le> p" using split(4) by (auto simp: lease_inv_def lease_ok_def)
    have "owners (tasks s') jid sh i = owners (tasks s) jid sh i" for jid sh i
      unfolding split(1) by simp (rule owners_split [OF wf split(2,6) p(1) split(5) p(2)]; simp)
    with T split(7) show ?thesis unfolding split(1) by (auto intro!: tiledI split: if_splits)
  next
    case (submit job uuid)
    show ?thesis
    proof (rule tiledI)
      fix jid j sh i assume j: "map_of (jobs s') jid = Some j" and i: "0 \<le> i" "i < sz jid sh"
      have "owners (tasks s') jid sh i = owners (tasks s) jid sh i + (if jid = jID job then count_list (jShards job) sh else 0)"
        using owners_fresh [OF i(1), of uuid job "maxRetries s" 1 "jShards job" jid sh]
        by (simp add: owners_def submit(6))
      with T [OF _ i] owners_no_job [OF wf submit(1)] j show "owners (tasks s') jid sh i = count_list (jShards j) sh"
        by (auto simp: submit(7) split: if_splits)
    qed
  next
    case unqueue
    with inv show ?thesis by (simp add: tiled_def)
  next
    case reorder
    have "map_of (jobs s') = map_of (jobs s)" using map_of_mset [OF reorder(2) [symmetric] sched_wfD(1) [OF wf]] by simp
    with T count_map_mset [OF reorder(1)] show ?thesis by (intro tiledI) (simp add: owners_def)
  qed
qed

lemma reachable_tiled:
  assumes r: "reachable (honest sz c) late c s" and sz: "sizes_ok sz c"
  shows "tiled sz s"
proof -
  have "leases_ok sz c s' \<and> tiled sz s'"
    if "sched_micro (honest sz c) late s s'" "sched_wf s" "leases_ok sz c s \<and> tiled sz s" for s s'
    using that leases_ok_micro [OF that(1,2) _ sz] tiled_micro [OF that(1,2)] by blast
  moreover have "leases_ok sz c (SetLeaseChunk c (New mr)) \<and> tiled sz (SetLeaseChunk c (New mr))" for mr
    using sz by (simp add: leases_ok_def tiled_def SetLeaseChunk_def New_def sizes_ok_def)
  ultimately show ?thesis
    using reachable_invariant [OF r, of "\<lambda>s. leases_ok sz c s \<and> tiled sz s"] by blast
qed

subsection \<open>A completed job is complete\<close>

definition completed_done :: "Scheduler \<Rightarrow> bool" where
  "completed_done s \<longleftrightarrow> (\<forall>k j x t. map_of (jobs s) k = Some j \<longrightarrow> jStatus j = JobCompleted \<longrightarrow>
     map_of (tasks s) x = Some t \<longrightarrow> tJobID t = k \<longrightarrow> tStatus t = TaskDone)"

lemma done_step: "task_step ok False s t t' \<Longrightarrow> tStatus t = TaskDone \<Longrightarrow> tStatus t' = TaskDone"
  by (erule task_step.cases) (auto simp: in_flight_def)

lemma completed_done_micro:
  assumes m: "sched_micro ok False s s'" and wf: "sched_wf s" and inv: "completed_done s"
  shows "completed_done s'"
proof -
  have D: "tStatus t = TaskDone" if "map_of (jobs s) (tJobID t) = Some j" "jStatus j = JobCompleted" "map_of (tasks s) x = Some t" for j x t
    using inv that by (simp add: completed_done_def)
  from m show ?thesis
  proof cases
    case (one_task k t t')
    show ?thesis unfolding completed_done_def
    proof (intro allI impI)
      fix jid j' x y assume j': "map_of (jobs s') jid = Some j'" "jStatus j' = JobCompleted"
        and y: "map_of (tasks s') x = Some y" "tJobID y = jid"
      from one_task(10) j' y consider "tStatus y = TaskDone"
        | j where "map_of (jobs s) jid = Some j" "jStatus j = JobCompleted"
        unfolding completes_ok_def by blast
      then show "tStatus y = TaskDone"
      proof cases
        case 2
        show ?thesis
        proof (cases "x = k")
          case True
          then have "y = t'" using y(1) one_task(3) by simp
          with D [of t j k] 2 y(2) one_task(1,2) show ?thesis
            using done_step task_step_identity(2) [OF one_task(2)] by auto
        next
          case False
          with y 2 D [of y j x] one_task(3) show ?thesis by simp
        qed
      qed
    qed
  next
    case (split k v p u j now w)
    have nv: "jStatus j \<noteq> JobCompleted" using D [OF split(7) _ split(2)] split(3) by (auto simp: in_flight_def)
    show ?thesis unfolding completed_done_def
    proof (intro allI impI)
      fix jid j' x y assume j': "map_of (jobs s') jid = Some j'" "jStatus j' = JobCompleted"
        and y: "map_of (tasks s') x = Some y" "tJobID y = jid"
      have "jid \<noteq> tJobID v" using j' nv by (auto simp: split(1))
      with j' y D [of y j' x] show "tStatus y = TaskDone" by (auto simp: split(1) split: if_splits)
    qed
  next
    case (submit job uuid)
    show ?thesis unfolding completed_done_def
    proof (intro allI impI)
      fix jid j' x y assume j': "map_of (jobs s') jid = Some j'" "jStatus j' = JobCompleted"
        and y: "map_of (tasks s') x = Some y" "tJobID y = jid"
      have jid: "jid \<noteq> jID job" using j' submit(2,7) by auto
      from y consider "map_of (tasks s) x = Some y"
        | "map_of (fresh_tasks uuid job (maxRetries s) 1 (jShards job)) x = Some y"
        unfolding submit(6) by (auto simp: map_add_def split: option.splits)
      then show "tStatus y = TaskDone"
      proof cases
        case 1
        with j' y jid D [of y j' x] submit(7) show ?thesis by simp
      next
        case 2
        from in_fresh_tasksD [OF map_of_in_set [OF 2]] y(2) jid show ?thesis by auto
      qed
    qed
  next
    case unqueue
    with inv show ?thesis by (simp add: completed_done_def)
  next
    case reorder
    have "map_of (jobs s') = map_of (jobs s)" "map_of (tasks s') = map_of (tasks s)"
      using map_of_mset [OF reorder(2) [symmetric] sched_wfD(1) [OF wf]]
        map_of_mset [OF reorder(1) [symmetric] sched_wfD(2) [OF wf]] by simp_all
    with inv show ?thesis by (simp add: completed_done_def)
  qed
qed

lemma reachable_completed_done:
  assumes "reachable ok False c s"
  shows "completed_done s"
proof -
  have "completed_done (SetLeaseChunk c (New mr))" for mr
    by (simp add: completed_done_def SetLeaseChunk_def New_def)
  with reachable_invariant [OF assms, of completed_done] completed_done_micro show ?thesis by blast
qed

end
