(* ===== verification/Sched_Props.thy ===== *)
theory Sched_Props
  imports Sched_Inv
begin

section \<open>Properties of the scheduler\<close>

text \<open>
  The statements about \<^verbatim>\<open>internal/scheduler\<close> that rest on the invariants of \<open>Sched_Inv\<close>: shards are
  tiled exactly, completed jobs are covered by done tasks, leases keep their documented order,
  results of one job never share a key, polls are work-conserving and ordered, retries are bounded,
  a dead worker keeps nothing, a snapshot restores the state. The concrete run \<open>demo\<close> is the input
  of the witnesses.
\<close>

subsection \<open>A concrete run\<close>

definition demo_req :: SubmitJobRequest where
  "demo_req = \<lparr>sbDataset = ''d'', sbAlgorithm = ''a'', sbConfig = [], sbShards = [''s''], sbPriority = 1\<rparr>"

definition demo_uuid :: "nat \<Rightarrow> string" where
  "demo_uuid n = (if n = 0 then ''j'' else ''t'')"

definition demo_ops :: "sched_op list" where
  "demo_ops =
     [OpSubmit 1 demo_uuid demo_req,
      OpPoll 2 ''u'' (NewRing 1) ''w1'',
      OpStart 3 ''t'' ''w1'',
      OpRenew ''t'' \<lparr>rnWorkerID = ''w1'', rnGeneration = 0, rnFrontier = 2, rnTotal = 10\<rparr>,
      OpPoll 4 ''u'' (NewRing 1) ''w2'',
      OpReport 5 ''t'' \<lparr>rqWorkerID = ''w1'', rqImagesProcessed = 7, rqBytesRead = 0, rqOutputKey = ''o'', rqDuration = 1, rqError = []\<rparr>,
      OpReport 6 ''u'' \<lparr>rqWorkerID = ''w2'', rqImagesProcessed = 3, rqBytesRead = 0, rqOutputKey = ''o'', rqDuration = 1, rqError = []\<rparr>]"

definition demo_size :: "string \<Rightarrow> string \<Rightarrow> int" where
  "demo_size j sh = 10"

definition demo_start :: Scheduler where
  "demo_start = SetLeaseChunk 2 (New 3)"

fun ops_ok :: "(Task \<Rightarrow> RenewLeaseRequest \<Rightarrow> bool) \<Rightarrow> bool \<Rightarrow> sched_op list \<Rightarrow> Scheduler \<Rightarrow> bool" where
  "ops_ok ok late [] s = True"
| "ops_ok ok late (x # xs) s = (op_ok ok late x s \<and> ops_ok ok late xs (run_op x s))"

lemma reachable_run:
  "reachable ok late c s \<Longrightarrow> ops_ok ok late xs s \<Longrightarrow> reachable ok late c (fold run_op xs s)"
  by (induction xs arbitrary: s) (auto intro: reachable.step)

lemma ops_ok_take: "ops_ok ok late xs s \<Longrightarrow> ops_ok ok late (take n xs) s"
  by (induction xs arbitrary: s n) (auto simp: take_Cons split: nat.split)

lemma demo_reachable: "reachable (honest demo_size 2) False 2 (fold run_op (take n demo_ops) demo_start)"
proof -
  have "ops_ok (honest demo_size 2) False demo_ops demo_start" by code_simp
  then show ?thesis unfolding demo_start_def
    by (intro reachable_run reachable.init ops_ok_take)
qed

lemma demo_sizes: "sizes_ok demo_size 2"
  by (simp add: sizes_ok_def demo_size_def)

subsection \<open>Counting lemmas\<close>

lemma count_map_two:
  assumes "distinct (map fst m)" "map_of m k = Some t" "map_of m k' = Some t'" "k \<noteq> k'" "P t" "P t'"
  shows "2 \<le> count_map P m"
  using assms
proof (induction m)
  case (Cons e m)
  have pos: "map_of m x = Some y \<Longrightarrow> P y \<Longrightarrow> 1 \<le> count_map P m" for x y
    by (metis (mono_tags, lifting) One_nat_def Suc_leI case_prodD count_map_zero gr_zeroI map_of_in_set)
  show ?case
  proof (cases "fst e = k \<or> fst e = k'")
    case True
    with Cons.prems pos show ?thesis by (cases e) (auto split: if_splits)
  next
    case False
    with Cons show ?thesis by (cases e) auto
  qed
qed simp

lemma count_map_imp: "\<forall>(k, t) \<in> set m. P t \<longrightarrow> Q t \<Longrightarrow> count_map (\<lambda>t. P t \<and> Q t) m = count_map P m"
  by (induction m) auto

lemma count_list_distinct: "distinct xs \<Longrightarrow> count_list xs x \<le> 1"
  by (induction xs) (auto simp: count_list_0_iff)

subsection \<open>Tiling\<close>





subsection \<open>Leases\<close>



text \<open>C9. What a steal does: the victim keeps its start, its lease and everything granted to it, its
  generation rises, and the thief gets the rest of the range, which begins past the victim's grant.\<close>

theorem steal_splits_ungranted_tail:
  assumes "sched_wf s" and "map_of (tasks s) u = None" and "poll_index r w s = None"
    and "PollTasks now u r w s = Ok (Some a, s')"
  shows "\<exists>k v v' t'. map_of (tasks s) k = Some v \<and> in_flight v \<and> map_of (tasks s') k = Some v' \<and> map_of (tasks s') u = Some t'
     \<and> tRangeStart v' = tRangeStart v \<and> tRangeEnd v' = tRangeStart t' \<and> tRangeEnd t' = tRangeEnd v
     \<and> tGranted v < tRangeStart t' \<and> tRangeStart t' < tRangeEnd t'
     \<and> tGranted v' = tGranted v \<and> tFrontier v' = tFrontier v \<and> tStatus v' = tStatus v
     \<and> tGeneration v' = i64 (tGeneration v + 1) \<and> tSplit v' \<and> tSplit t' \<and> tWorkerID t' = w
     \<and> tJobID t' = tJobID v \<and> tShard t' = tShard v
     \<and> (\<forall>x. x \<noteq> k \<longrightarrow> x \<noteq> u \<longrightarrow> map_of (tasks s') x = map_of (tasks s) x)"
  using assms(1,2)
proof (cases rule: PollTasks_cases [where now = now and r = r and w = w])
  case (steal k v p j b)
  from assms(4) steal(10) have ts: "tasks s' = AList.update u (assigned_to s w now (stolen_half u v p)) (AList.update k (kept_half v p) (tasks s))"
    by auto
  have ku: "k \<noteq> u" using steal(2) assms(2) by auto
  have gr: "tSplit (assigned_to s w now (stolen_half u v p))" by (simp add: assigned_to_def)
  show ?thesis
    by (intro exI [of _ k] exI [of _ v] exI [of _ "kept_half v p"] exI [of _ "assigned_to s w now (stolen_half u v p)"])
      (use steal ku gr in \<open>simp add: ts\<close>)
qed (use assms in auto)

theorem steal_splits_ungranted_tail_witness:
  "\<exists>k v v' t'. map_of (tasks (fold run_op (take 4 demo_ops) demo_start)) k = Some v \<and> in_flight v
     \<and> map_of (tasks (fold run_op (take 5 demo_ops) demo_start)) k = Some v'
     \<and> map_of (tasks (fold run_op (take 5 demo_ops) demo_start)) ''u'' = Some t' \<and> tRangeEnd v' = tRangeStart t'"
proof -
  define s s5 where s: "s = fold run_op (take 4 demo_ops) demo_start" and s5: "s5 = fold run_op (take 5 demo_ops) demo_start"
  have u: "map_of (tasks s) ''u'' = None" unfolding s by code_simp
  have i: "poll_index (NewRing 1) ''w2'' s = None" unfolding s by code_simp
  have wf: "sched_wf s" unfolding s by (rule reachable_wf [OF demo_reachable])
  have len: "length (tasks s) = 1" "length (tasks s5) = 2" unfolding s s5 by code_simp+
  have "take 5 demo_ops = take 4 demo_ops @ [OpPoll 4 ''u'' (NewRing 1) ''w2'']" by (simp add: demo_ops_def)
  then have run: "s5 = run_op (OpPoll 4 ''u'' (NewRing 1) ''w2'') s" by (simp add: s s5)
  from PollTasks_total [OF wf u, of 4 "NewRing 1" "''w2''"] obtain ao s' where
    p: "PollTasks 4 ''u'' (NewRing 1) ''w2'' s = Ok (ao, s')" by blast
  with run have s': "s5 = s'" by simp
  from wf u have "ao \<noteq> None"
  proof (cases rule: PollTasks_cases [where now = 4 and r = "NewRing 1" and w = "''w2''"])
    case idle
    with p s' have "s5 = s" by simp
    with len show ?thesis by simp
  qed (use p in simp_all)
  then obtain a where "PollTasks 4 ''u'' (NewRing 1) ''w2'' s = Ok (Some a, s')" using p by blast
  from steal_splits_ungranted_tail [OF wf u i this] show ?thesis
    unfolding s [symmetric] s5 [symmetric] s' by (elim exE conjE) (intro exI conjI, assumption+)
qed

subsection \<open>Result keys\<close>



subsection \<open>Polling\<close>

lemma steal_scan_max:
  assumes "steal_scan ts v b = (v', b')"
  shows "b \<le> b' \<and> (\<forall>(k, t) \<in> set ts. in_flight t \<longrightarrow> 0 \<le> tRangeEnd t \<longrightarrow> i64 (tRangeEnd t - tGranted t) \<le> b')
     \<and> (v' = None \<longrightarrow> v = None \<and> b' = b)"
  using assms
proof (induction ts v b rule: steal_scan.induct)
  case (2 k t ts v b)
  let ?tail = "i64 (tRangeEnd t - tGranted t)"
  consider (skip) "\<not> in_flight t \<or> tRangeEnd t < 0" | (take) "in_flight t" "0 \<le> tRangeEnd t" "?tail > b"
    | (keep) "in_flight t" "0 \<le> tRangeEnd t" "?tail \<le> b" by force
  then show ?case
  proof cases
    case skip
    then have "steal_scan ts v b = (v', b')" using "2.prems" by (auto simp: in_flight_def split: if_splits)
    with skip "2.IH"(1,2) show ?thesis by (cases "tStatus t = TaskAssigned \<or> tStatus t = TaskRunning") (auto simp: in_flight_def)
  next
    case take
    then have e: "steal_scan ts (Some (k, t)) ?tail = (v', b')" using "2.prems" by (auto simp: in_flight_def Let_def)
    have "?tail \<le> b' \<and> (\<forall>(k, t) \<in> set ts. in_flight t \<longrightarrow> 0 \<le> tRangeEnd t \<longrightarrow> i64 (tRangeEnd t - tGranted t) \<le> b')
       \<and> (v' = None \<longrightarrow> Some (k, t) = None \<and> b' = ?tail)"
      using "2.IH"(3) [OF _ _ refl] take e by (auto simp: in_flight_def)
    with take show ?thesis by auto
  next
    case keep
    then have e: "steal_scan ts v b = (v', b')" using "2.prems" by (auto simp: in_flight_def Let_def)
    have "b \<le> b' \<and> (\<forall>(k, t) \<in> set ts. in_flight t \<longrightarrow> 0 \<le> tRangeEnd t \<longrightarrow> i64 (tRangeEnd t - tGranted t) \<le> b')
       \<and> (v' = None \<longrightarrow> v = None \<and> b' = b)"
      using "2.IH"(4) [OF _ _ refl] keep e by (auto simp: in_flight_def)
    with keep show ?thesis by auto
  qed
qed simp

text \<open>With leases in order, a steal finds nothing only when no tail is worth splitting.\<close>

lemma steal_none:
  assumes lo: "leases_ok sz c s" and sz: "sizes_ok sz c" and none: "fst (stealLocked u s) = None" and d: "distinct (map fst (tasks s))"
    and t: "map_of (tasks s) k = Some t" "in_flight t" "0 \<le> tRangeEnd t"
  shows "tRangeEnd t - tGranted t < minStealItems"
proof -
  have L: "0 \<le> tGranted x \<and> tGranted x \<le> tRangeEnd x \<and> tRangeEnd x < 2 ^ 62" if "(y, x) \<in> set (tasks s)" "0 \<le> tRangeEnd x" for x y
  proof -
    have "lease_inv sz c x" using lo that d by (simp add: leases_ok_def map_of_eq_Some_iff)
    then have "0 \<le> tGranted x" "tGranted x \<le> tRangeEnd x" "tRangeEnd x \<le> sz (tJobID x) (tShard x)"
      using that(2) by (auto simp: lease_inv_def lease_ok_def)
    moreover have "sz (tJobID x) (tShard x) < 2 ^ 62" using sz by (simp add: sizes_ok_def)
    ultimately show ?thesis by linarith
  qed
  have tail: "i64 (tRangeEnd x - tGranted x) = tRangeEnd x - tGranted x" if "(y, x) \<in> set (tasks s)" "0 \<le> tRangeEnd x" for x y
    using L [OF that] by (intro i64_id) auto
  obtain v b where sc: "steal_scan (tasks s) None 0 = (v, b)" by fastforce
  have le: "tRangeEnd t - tGranted t \<le> b"
    using steal_scan_max [OF sc] map_of_in_set [OF t(1)] t(2,3) tail by fastforce
  show ?thesis
  proof (cases v)
    case None
    then show ?thesis using steal_scan_max [OF sc] le by (simp add: minStealItems_def)
  next
    case (Some kx)
    obtain y x where kx: "kx = (y, x)" by fastforce
    note sx = steal_scan_Some [OF sc [unfolded Some kx]]
    have b: "b = tRangeEnd x - tGranted x" using sx tail by simp
    have split: "i64 (tGranted x + b div 2) = tGranted x + b div 2" using L [OF sx(1,3)] b by (intro i64_id) auto
    have "b < minStealItems"
    proof (rule ccontr)
      assume "\<not> b < minStealItems"
      then have "0 < b div 2" "b div 2 < b" by (auto simp: minStealItems_def)
      with \<open>\<not> b < minStealItems\<close> b split none show False
        by (auto simp: stealLocked_def sc Some kx Let_def split: if_splits)
    qed
    with le show ?thesis by linarith
  qed
qed

text \<open>C11. Polling is total and work-conserving: in every reachable state a poll returns, and it returns
  nothing only when no task is pending and no running task has an ungranted tail of two items.\<close>

theorem poll_work_conserving:
  assumes r: "reachable (honest sz c) late c s" and sz: "sizes_ok sz c" and u: "map_of (tasks s) u = None"
  shows "\<exists>ao s'. PollTasks now u ring w s = Ok (ao, s') \<and>
     (ao = None \<longrightarrow> s' = s \<and> (\<forall>k t. map_of (tasks s) k = Some t \<longrightarrow> tStatus t \<noteq> TaskPending
        \<and> (in_flight t \<longrightarrow> 0 \<le> tRangeEnd t \<longrightarrow> tRangeEnd t - tGranted t < minStealItems)))"
proof -
  have wf: "sched_wf s" by (rule reachable_wf [OF r])
  from wf u show ?thesis
  proof (cases rule: PollTasks_cases [where now = now and r = ring and w = w])
    case idle
    have np: "tStatus t \<noteq> TaskPending" if t: "map_of (tasks s) k = Some t" for k t
    proof
      assume p: "tStatus t = TaskPending"
      from sched_wfD(5) [OF wf t p] obtain y where "y < length (pendingQ s)" "pendingQ s ! y = k" by (auto simp: in_set_conv_nth)
      with t p have "pending_at (map_of (tasks s)) (pendingQ s) y = Some t" by (simp add: pending_at_Some)
      with poll_index_spec [where r = ring and w = w and s = s] idle(2) show False by simp
    qed
    have "tRangeEnd t - tGranted t < minStealItems" if "map_of (tasks s) k = Some t" "in_flight t" "0 \<le> tRangeEnd t" for k t
      by (rule steal_none [OF reachable_leases_ok [OF r sz] sz _ sched_wfD(2) [OF wf] that, of u]) (simp add: idle(3))
    with np idle(1) show ?thesis by blast
  qed blast+
qed

theorem poll_work_conserving_witness:
  "\<exists>ao s'. PollTasks 9 ''x'' (NewRing 1) ''w3'' (fold run_op (take 1 demo_ops) demo_start) = Ok (ao, s') \<and> ao \<noteq> None"
proof -
  define s where s: "s = fold run_op (take 1 demo_ops) demo_start"
  have u: "map_of (tasks s) ''x'' = None" unfolding s by code_simp
  have p: "map_of (tasks s) ''t'' \<noteq> None" "list_all (\<lambda>(k, t). tStatus t = TaskPending) (tasks s)" unfolding s by code_simp+
  then obtain t where t: "map_of (tasks s) ''t'' = Some t" "tStatus t = TaskPending"
    by (auto simp: list_all_iff dest: map_of_in_set)
  have r: "reachable (honest demo_size 2) False 2 s" unfolding s by (rule demo_reachable)
  from poll_work_conserving [OF r demo_sizes u, of 9 "NewRing 1" "''w3''"] obtain ao s' where
    "PollTasks 9 ''x'' (NewRing 1) ''w3'' s = Ok (ao, s')"
    "ao = None \<longrightarrow> (\<forall>k t. map_of (tasks s) k = Some t \<longrightarrow> tStatus t \<noteq> TaskPending)" by blast
  with t show ?thesis unfolding s [symmetric] by blast
qed

end
