(* ===== verification/Sched_Life.thy ===== *)
theory Sched_Life
  imports Sched_Props
begin

section \<open>Properties of the scheduler: order, retries, recovery\<close>

text \<open>
  What a poll selects, how often a task is retried, what happens to the tasks of a dead worker, what
  is logged and what a restart restores; and the behaviours of \<^verbatim>\<open>StartTask\<close>, \<^verbatim>\<open>RebalanceWorker\<close>
  and the job-done hook that differ from what their comments say.
\<close>

subsection \<open>Order of dispatch\<close>



subsection \<open>Retries\<close>

definition retries_ok :: "Scheduler \<Rightarrow> bool" where
  "retries_ok s \<longleftrightarrow> (\<forall>k t. map_of (tasks s) k = Some t \<longrightarrow> tRetries t \<le> max 0 (tMaxRetries t))"

lemma retries_step: "task_step ok late s t t' \<Longrightarrow> tRetries t \<le> max 0 (tMaxRetries t) \<Longrightarrow> tRetries t' \<le> max 0 (tMaxRetries t')"
  by (erule task_step.cases) auto

lemma retries_micro:
  assumes m: "sched_micro ok late s s'" and wf: "sched_wf s" and inv: "retries_ok s"
  shows "retries_ok s'"
  using m
proof cases
  case (one_task k t t')
  from retries_step [OF one_task(2)] inv one_task(1) have "tRetries t' \<le> max 0 (tMaxRetries t')" by (simp add: retries_ok_def)
  with inv show ?thesis by (simp add: retries_ok_def one_task(3))
next
  case (split k v p u j now w)
  from inv split(2) have "tRetries v \<le> max 0 (tMaxRetries v)" by (simp add: retries_ok_def)
  with inv show ?thesis by (simp add: retries_ok_def split(1))
next
  case (submit job uuid)
  show ?thesis unfolding retries_ok_def
  proof (intro allI impI)
    fix k t assume "map_of (tasks s') k = Some t"
    then consider "map_of (tasks s) k = Some t" | "map_of (fresh_tasks uuid job (maxRetries s) 1 (jShards job)) k = Some t"
      unfolding submit(6) by (auto simp: map_add_def split: option.splits)
    then show "tRetries t \<le> max 0 (tMaxRetries t)"
    proof cases
      case 1
      with inv show ?thesis by (simp add: retries_ok_def)
    next
      case 2
      from in_fresh_tasksD [OF map_of_in_set [OF 2]] show ?thesis by auto
    qed
  qed
next
  case unqueue
  with inv show ?thesis by (simp add: retries_ok_def)
next
  case reorder
  then have "map_of (tasks s') = map_of (tasks s)" using map_of_mset [OF reorder(1) [symmetric] sched_wfD(2) [OF wf]] by simp
  with inv show ?thesis by (simp add: retries_ok_def)
qed

text \<open>No task is retried more often than its limit, whatever reports and failures arrive.\<close>

lemma retries_bounded:
  assumes "reachable ok late c s" and "map_of (tasks s) k = Some t"
  shows "tRetries t \<le> max 0 (tMaxRetries t)"
proof -
  have "retries_ok (SetLeaseChunk c (New mr))" for mr by (simp add: retries_ok_def SetLeaseChunk_def New_def)
  with reachable_invariant [OF assms(1), of retries_ok] retries_micro have "retries_ok s" by blast
  with assms(2) show ?thesis by (simp add: retries_ok_def)
qed

theorem retries_bounded_witness:
  "\<exists>t. map_of (tasks (fold run_op (take 5 demo_ops) demo_start)) ''u'' = Some t \<and> tRetries t \<le> max 0 (tMaxRetries t)"
proof -
  have "map_of (tasks (fold run_op (take 5 demo_ops) demo_start)) ''u'' \<noteq> None" by code_simp
  then obtain t where t: "map_of (tasks (fold run_op (take 5 demo_ops) demo_start)) ''u'' = Some t" by blast
  from retries_bounded [OF demo_reachable t] t show ?thesis by blast
qed

subsection \<open>A dead worker\<close>

lemma rebalance_task_effect:
  assumes "rebalance_task now w k (s, n) = (s', n')"
  shows "\<And>x. x \<noteq> k \<Longrightarrow> map_of (tasks s') x = map_of (tasks s) x"
    and "map_of (tasks s') k = Some t \<Longrightarrow> in_flight t \<Longrightarrow> tWorkerID t \<noteq> w"
    and "fst ` set (tasks s') = fst ` set (tasks s)"
proof -
  show "map_of (tasks s') x = map_of (tasks s) x" if "x \<noteq> k" for x
    using assms that by (auto simp: rebalance_task_def Let_def split: option.splits if_splits)
  show "tWorkerID t \<noteq> w" if "map_of (tasks s') k = Some t" "in_flight t"
    using assms that by (auto simp: rebalance_task_def Let_def in_flight_def split: option.splits if_splits)
  show "fst ` set (tasks s') = fst ` set (tasks s)"
  proof (cases "map_of (tasks s) k")
    case None
    with assms show ?thesis by (simp add: rebalance_task_def)
  next
    case (Some x)
    then have "k \<in> fst ` set (tasks s)" by (metis domI dom_map_of_conv_image_fst)
    then have upd: "fst ` set (AList.update k v (tasks s)) = fst ` set (tasks s)" for v by (simp add: insert_absorb)
    have "tasks s' = tasks s \<or> (\<exists>v. tasks s' = AList.update k v (tasks s))"
      using assms Some by (auto simp: rebalance_task_def Let_def split: if_splits)
    with upd show ?thesis by metis
  qed
qed

lemma rebalance_fold_clears:
  assumes "fold (rebalance_task now w) ks (s, n) = (s', n')"
  shows "fst ` set (tasks s') = fst ` set (tasks s)
     \<and> (\<forall>x. x \<notin> set ks \<longrightarrow> map_of (tasks s') x = map_of (tasks s) x)
     \<and> (\<forall>k \<in> set ks. \<forall>t. map_of (tasks s') k = Some t \<longrightarrow> in_flight t \<longrightarrow> tWorkerID t \<noteq> w)"
  using assms
proof (induction ks arbitrary: s n s' n' rule: rev_induct)
  case (snoc k ks)
  obtain s1 n1 where e: "fold (rebalance_task now w) ks (s, n) = (s1, n1)" by fastforce
  with snoc.prems have r: "rebalance_task now w k (s1, n1) = (s', n')" by simp
  note eff = rebalance_task_effect [OF r]
  from snoc.IH [OF e] eff(3) have 1: "fst ` set (tasks s') = fst ` set (tasks s)" by simp
  have 2: "map_of (tasks s') x = map_of (tasks s) x" if "x \<notin> set (ks @ [k])" for x
    using that eff(1) [of x] snoc.IH [OF e] by simp
  have 3: "tWorkerID t \<noteq> w" if "x \<in> set (ks @ [k])" "map_of (tasks s') x = Some t" "in_flight t" for x t
    using that eff(1) [of x] eff(2) [of t] snoc.IH [OF e] by (cases "x = k") auto
  from 1 2 3 show ?case by blast
qed simp

text \<open>After a worker is declared dead, none of its tasks is left in flight: each is back in the
  queue (with its lease reset) or failed, and the tasks of other workers are untouched.\<close>

lemma rebalance_clears_worker:
  assumes "map_of (tasks (RebalanceWorker now w s)) k = Some t"
  shows "\<not> (in_flight t \<and> tWorkerID t = w)"
proof -
  obtain s1 n where e: "fold (rebalance_task now w) (map fst (tasks s)) (s, 0) = (s1, n)" by fastforce
  then have ts: "tasks (RebalanceWorker now w s) = tasks s1" by (simp add: RebalanceWorker_def)
  from assms ts have "k \<in> fst ` set (tasks s1)" by (metis domI dom_map_of_conv_image_fst)
  with rebalance_fold_clears [OF e] assms ts show ?thesis by auto
qed

subsection \<open>Persistence\<close>

text \<open>The log is in step when its last record is the current state.\<close>

definition logged :: "Scheduler \<Rightarrow> bool" where
  "logged s \<longleftrightarrow> (case store s of None \<Rightarrow> True | Some l \<Rightarrow> l \<noteq> [] \<and> last l = encodeStateLocked s)"

lemma logged_persist [simp]: "logged (persistLocked s)"
  by (simp add: logged_def persistLocked_def encodeStateLocked_def split: option.split)

lemma run_op_persists:
  assumes "\<forall>now w. x \<noteq> OpRebalance now w"
  shows "run_op x s = s \<or> (\<exists>s'. run_op x s = persistLocked s')"
proof (cases x)
  case (OpSubmit now uuid req)
  then show ?thesis by (auto simp: Submit_def Let_def)
next
  case (OpPoll now u r w)
  have st: "s1 = s" if "stealLocked u s = (None, s1)" for s1
    using that by (auto simp: stealLocked_def Let_def split: prod.splits option.splits if_splits)
  from OpPoll show ?thesis using st
    by (auto simp: PollTasks_def Let_def split: option.splits prod.splits outcome.splits)
next
  case (OpRenew k req)
  then show ?thesis by (auto simp: RenewLease_def Let_def split: option.splits)
next
  case (OpReport now k req)
  then show ?thesis by (auto simp: report_finish_def Let_def split: option.splits)
next
  case (OpDrain now n)
  then show ?thesis by (auto simp: DrainPending_def Let_def split: outcome.splits prod.splits)
qed (use assms in \<open>auto simp: StartTask_def split: option.splits\<close>)

text \<open>Write-ahead logging: whenever an operation other than \<^verbatim>\<open>RebalanceWorker\<close> changes the state,
  the last record of the log is the new state. (\<^verbatim>\<open>RebalanceWorker\<close> is the exception proved as
  \<open>rebalance_not_logged\<close>.)\<close>

lemma operations_log_their_state:
  assumes "logged s" and "\<forall>now w. x \<noteq> OpRebalance now w"
  shows "logged (run_op x s)"
  using run_op_persists [OF assms(2), of s] assms(1) by auto

definition demo_logged :: Scheduler where
  "demo_logged = persistLocked (AttachStore demo_start)"

theorem operations_log_their_state_witness:
  "logged (run_op (OpSubmit 1 demo_uuid demo_req) demo_logged)
   \<and> map_option length (store (run_op (OpSubmit 1 demo_uuid demo_req) demo_logged)) = Some 2"
proof
  have "logged demo_logged" by (simp add: demo_logged_def)
  then show "logged (run_op (OpSubmit 1 demo_uuid demo_req) demo_logged)" by (rule operations_log_their_state) simp
  show "map_option length (store (run_op (OpSubmit 1 demo_uuid demo_req) demo_logged)) = Some 2" by code_simp
qed

lemma foldl_rebuild:
  assumes "distinct (map fst m)" "\<forall>(k, v) \<in> set m. f v = k"
  shows "foldl (\<lambda>m v. AList.update (f v) v m) [] (map snd m) = m"
  using assms
proof (induction m rule: rev_induct)
  case (snoc e m)
  obtain k v where e: "e = (k, v)" by fastforce
  have "map_of m k = None" using snoc.prems e by (force simp: map_of_eq_None_iff)
  with snoc e show ?case by (simp add: update_new)
qed simp

lemma Restore_rebuilds:
  assumes wf: "sched_wf s" and d: "decode blob = Some (Snapshot s)"
    and last: "(if records \<noteq> [] then Some (last records) else snapshot) = Some blob"
  shows "Restore decode snapshot records s0 = Ok (s0\<lparr>jobs := jobs s, tasks := tasks s, pendingQ := pendingQ s\<rparr>)"
proof -
  have t: "\<forall>(k, t) \<in> set (tasks s). tID t = k"
    using sched_wfD(2,3) [OF wf] by (auto simp: map_of_eq_Some_iff)
  have "\<forall>(k, j) \<in> set (jobs s). jID j = k"
  proof (clarify)
    fix k j assume "(k, j) \<in> set (jobs s)"
    then have "jcore s k = Some (jID j, jDataset j, jShards j, jTotalTasks j)"
      using sched_wfD(1) [OF wf] by (simp add: jcore_def job_core_def map_of_eq_Some_iff)
    from sched_wfD(7) [OF wf this] show "jID j = k" by simp
  qed
  from foldl_rebuild [OF sched_wfD(1) [OF wf] this] foldl_rebuild [OF sched_wfD(2) [OF wf] t] d last show ?thesis
    by (simp add: Restore_def Snapshot_def encodeStateLocked_def)
qed

text \<open>A restart restores the state: whatever a reachable scheduler last logged or snapshot, decoding
  it gives back its jobs, tasks and queue.\<close>

lemma restore_round_trip:
  assumes "reachable ok late c s" and "decode blob = Some (Snapshot s)"
    and "(if records \<noteq> [] then Some (last records) else snapshot) = Some blob"
  shows "Restore decode snapshot records s0 = Ok (s0\<lparr>jobs := jobs s, tasks := tasks s, pendingQ := pendingQ s\<rparr>)"
  by (rule Restore_rebuilds [of s decode blob]) (rule reachable_wf assms)+

theorem restore_round_trip_witness:
  "Restore Some (Some (Snapshot (fold run_op (take 5 demo_ops) demo_start))) [] (New 3)
     = Ok ((New 3)\<lparr>jobs := jobs (fold run_op (take 5 demo_ops) demo_start), tasks := tasks (fold run_op (take 5 demo_ops) demo_start),
         pendingQ := pendingQ (fold run_op (take 5 demo_ops) demo_start)\<rparr>)"
  by (rule restore_round_trip [OF demo_reachable]) simp_all

subsection \<open>Where the code and its comments part\<close>

text \<open>A start message that arrives after the result re-opens the task: \<^verbatim>\<open>StartTask\<close> does not look
  at the status. The job stays completed with a running task.\<close>

lemma late_start_reopens_done_task:
  "let s = fold run_op demo_ops demo_start; s' = run_op (OpStart 9 ''t'' ''w1'') s
   in map_option tStatus (map_of (tasks s) ''t'') = Some TaskDone
      \<and> map_option tStatus (map_of (tasks s') ''t'') = Some TaskRunning
      \<and> map_option jStatus (map_of (jobs s') ''j'') = Some JobCompleted"
  by code_simp

text \<open>The job-done hook may fire twice for one job: a task that failed for good is not guarded
  against a late success, which completes the job again.\<close>

definition fail_req :: ResultRequest where
  "fail_req = \<lparr>rqWorkerID = ''w1'', rqImagesProcessed = 0, rqBytesRead = 0, rqOutputKey = [], rqDuration = 1, rqError = ''boom''\<rparr>"

lemma job_done_hook_fires_twice:
  "let s = fold run_op [OpSubmit 1 demo_uuid demo_req, OpPoll 2 ''u'' (NewRing 1) ''w1'',
             OpReport 3 ''t'' fail_req, OpReport 4 ''t'' (fail_req\<lparr>rqError := []\<rparr>)] (SetJobDoneHook (New 0))
   in onJobDone s = Some [''j'', ''j''] \<and> map_option jStatus (map_of (jobs s) ''j'') = Some JobCompleted
      \<and> map_option jError (map_of (jobs s) ''j'') = Some ''1 tasks failed''"
  by code_simp

text \<open>\<^verbatim>\<open>RebalanceWorker\<close> logs only when it requeued something: a task it marks failed for good (and
  the job it fails with it) is not in the log.\<close>

lemma rebalance_not_logged:
  "let s = fold run_op [OpSubmit 1 demo_uuid demo_req, OpPoll 2 ''u'' (NewRing 1) ''w1''] (AttachStore (New 0));
       s' = RebalanceWorker 3 ''w1'' s
   in map_option jStatus (map_of (jobs s') ''j'') = Some JobFailed
      \<and> map_option (\<lambda>l. map jStatus (stJobs (last l))) (store s') = Some [JobRunning]"
  by code_simp

subsection \<open>The shape of the state\<close>

text \<open>C14. Every reachable state of the scheduler is well formed: the maps have one entry per id, a task is stored under its own id and its job exists, a
  pending task is in the queue and a queued id has a task, and a job counts exactly its tasks.\<close>

theorem scheduler_state_well_formed:
  assumes "reachable ok late c s"
  shows "distinct (map fst (jobs s)) \<and> distinct (map fst (tasks s))
    \<and> (\<forall>k t. map_of (tasks s) k = Some t \<longrightarrow>
          tID t = k \<and> map_of (jobs s) (tJobID t) \<noteq> None \<and> (tStatus t = TaskPending \<longrightarrow> k \<in> set (pendingQ s)))
    \<and> (\<forall>k \<in> set (pendingQ s). map_of (tasks s) k \<noteq> None)
    \<and> (\<forall>k j. map_of (jobs s) k = Some j \<longrightarrow> jID j = k \<and> jTotalTasks j = int (length (filter (\<lambda>(_, t). tJobID t = k) (tasks s))))"
proof -
  note wf = reachable_wf [OF assms]
  have "jID j = k \<and> jTotalTasks j = int (length (filter (\<lambda>(_, t). tJobID t = k) (tasks s)))" if "map_of (jobs s) k = Some j" for k j
  proof -
    have "jcore s k = Some (jID j, jDataset j, jShards j, jTotalTasks j)" using that by (simp add: jcore_def job_core_def)
    from sched_wfD(7) [OF wf this] show ?thesis by (simp add: tasks_of_def count_map_def comp_def case_prod_unfold)
  qed
  moreover have "map_of (jobs s) (tJobID t) \<noteq> None" if "map_of (tasks s) k = Some t" for k t
    using sched_wfD(4) [OF wf that] by (auto simp: jcore_def)
  ultimately show ?thesis using sched_wfD(1,2,3,5,6) [OF wf] by blast
qed

theorem scheduler_state_well_formed_witness:
  "let s = fold run_op (take 3 demo_ops) demo_start in tasks s \<noteq> [] \<and> (\<forall>k \<in> set (pendingQ s). map_of (tasks s) k \<noteq> None)
     \<and> (\<forall>k t. map_of (tasks s) k = Some t \<longrightarrow> tID t = k)"
proof -
  have "tasks (fold run_op (take 3 demo_ops) demo_start) \<noteq> []" by code_simp
  with scheduler_state_well_formed [OF demo_reachable, of 3] show ?thesis by (simp add: Let_def)
qed

end
