(* ===== verification/Consensus.thy ===== *)
theory Consensus
  imports Job
begin

section \<open>The replicated commit ledger\<close>

text \<open>
  \<^verbatim>\<open>internal/consensus/fsm.go\<close>, \<^verbatim>\<open>commit_fsm.go\<close>, the apply loop of \<^verbatim>\<open>node.go\<close>, and
  the decider of \<^verbatim>\<open>internal/coordinator/raft.go\<close>. The Raft library decides the order of the
  log; it and protobuf are not code of this repository. The library is represented by the log it
  commits (any list of entries) and by what a waiting \<^verbatim>\<open>Decide\<close> observes; protobuf by the
  functions \<open>marshal\<close> and \<open>unmarshal\<close>, arguments of the definitions.

  The locale \<open>replicated_fsm\<close> is the interface \<^verbatim>\<open>FSM\<close>: what a node shows of a log is a fold of
  \<^verbatim>\<open>Apply\<close> over it, so replicas that applied the same entries agree. Both state machines of the
  package interpret it.
\<close>

subsection \<open>The interface and the node's apply loop\<close>

datatype EntryType = EntryNormal | EntryConfChange | EntryConfChangeV2

record 'b Entry =
  enType :: EntryType
  enData :: "'b list"
  enIndex :: nat

record 's Node =
  nFsm :: 's
  nApplied :: nat

text \<open>\<^verbatim>\<open>applyCommitted\<close>: an error of the state machine is logged and the entry counts as applied;
  configuration changes concern the Raft library only.\<close>

definition applyCommitted :: "('b list \<Rightarrow> 's \<Rightarrow> 's outcome) \<Rightarrow> 'b Entry \<Rightarrow> 's Node \<Rightarrow> 's Node" where
  "applyCommitted apply_fsm ent n =
     (let n1 = (if enType ent = EntryNormal \<and> enData ent \<noteq> []
                then (case apply_fsm (enData ent) (nFsm n) of Ok f \<Rightarrow> n\<lparr>nFsm := f\<rparr> | _ \<Rightarrow> n) else n)
      in if enIndex ent > nApplied n1 then n1\<lparr>nApplied := enIndex ent\<rparr> else n1)"

definition apply_log :: "('b list \<Rightarrow> 's \<Rightarrow> 's outcome) \<Rightarrow> 'b Entry list \<Rightarrow> 's Node \<Rightarrow> 's Node" where
  "apply_log apply_fsm es n = foldl (\<lambda>n e. applyCommitted apply_fsm e n) n es"

text \<open>\<open>view\<close> is what the application reads of the machine; \<open>merge\<close> how one accepted command
  changes it; \<open>command\<close> decodes the entry.\<close>

locale replicated_fsm =
  fixes apply_fsm :: "'b list \<Rightarrow> 's \<Rightarrow> 's outcome"
    and command :: "'b list \<Rightarrow> 'c option"
    and view :: "'s \<Rightarrow> 'k \<Rightarrow> 'v option"
    and merge :: "'c \<Rightarrow> ('k \<Rightarrow> 'v option) \<Rightarrow> 'k \<Rightarrow> 'v option"
  assumes apply_command: "command d = Some c \<Longrightarrow> \<exists>f'. apply_fsm d f = Ok f' \<and> view f' = merge c (view f)"
    and apply_reject: "command d = None \<Longrightarrow> \<exists>e. apply_fsm d f = Err e"
begin

text \<open>The commands a log carries.\<close>

definition commands :: "'b Entry list \<Rightarrow> 'c list" where
  "commands es = List.map_filter (\<lambda>e. if enType e = EntryNormal \<and> enData e \<noteq> [] then command (enData e) else None) es"

lemma commands_simps:
  "commands [] = []"
  "commands (e # es) = (case (if enType e = EntryNormal \<and> enData e \<noteq> [] then command (enData e) else None) of
     None \<Rightarrow> commands es | Some c \<Rightarrow> c # commands es)"
  by (simp_all add: commands_def map_filter_simps split: option.split)

lemma applyCommitted_view:
  "view (nFsm (applyCommitted apply_fsm e n)) =
     (case (if enType e = EntryNormal \<and> enData e \<noteq> [] then command (enData e) else None) of
        None \<Rightarrow> view (nFsm n) | Some c \<Rightarrow> merge c (view (nFsm n)))"
proof (cases "enType e = EntryNormal \<and> enData e \<noteq> []")
  case False
  then show ?thesis by (auto simp: applyCommitted_def Let_def)
next
  case True
  show ?thesis
  proof (cases "command (enData e)")
    case None
    obtain x where "apply_fsm (enData e) (nFsm n) = Err x" using apply_reject [OF None] by blast
    with True None show ?thesis by (simp add: applyCommitted_def Let_def)
  next
    case (Some c)
    obtain f where "apply_fsm (enData e) (nFsm n) = Ok f" "view f = merge c (view (nFsm n))"
      using apply_command [OF Some] by blast
    with True Some show ?thesis by (simp add: applyCommitted_def Let_def)
  qed
qed

lemma apply_log_view:
  "view (nFsm (apply_log apply_fsm es n)) = foldl (\<lambda>m c. merge c m) (view (nFsm n)) (commands es)"
proof (induction es arbitrary: n)
  case Nil
  then show ?case by (simp add: apply_log_def commands_simps)
next
  case (Cons e es)
  have "apply_log apply_fsm (e # es) n = apply_log apply_fsm es (applyCommitted apply_fsm e n)"
    by (simp add: apply_log_def)
  with Cons.IH [of "applyCommitted apply_fsm e n"] show ?case
    by (simp only: applyCommitted_view commands_simps) (simp split: option.split)
qed

text \<open>Replicas that start alike and applied logs with the same commands show the same.\<close>

lemma replicas_agree:
  "view f = view g \<Longrightarrow> commands es = commands es' \<Longrightarrow>
     view (nFsm (apply_log apply_fsm es \<lparr>nFsm = f, nApplied = i\<rparr>))
       = view (nFsm (apply_log apply_fsm es' \<lparr>nFsm = g, nApplied = i'\<rparr>))"
  by (simp add: apply_log_view)

end

lemma applyCommitted_nApplied: "nApplied (applyCommitted a e n) = max (nApplied n) (enIndex e)"
proof -
  have "nApplied (if enType e = EntryNormal \<and> enData e \<noteq> []
      then (case a (enData e) (nFsm n) of Ok f \<Rightarrow> n\<lparr>nFsm := f\<rparr> | _ \<Rightarrow> n) else n) = nApplied n"
    by (auto split: outcome.splits)
  then show ?thesis by (simp add: applyCommitted_def Let_def max_def)
qed

subsection \<open>KVStore\<close>

record KVStore =
  kvData :: "(string, string) gomap"
  kvApplied :: nat

definition NewKVStore :: KVStore where
  "NewKVStore = \<lparr>kvData = [], kvApplied = 0\<rparr>"

text \<open>\<^verbatim>\<open>strings.Cut(s, "=")\<close>.\<close>

fun cut :: "char \<Rightarrow> string \<Rightarrow> (string \<times> string) option" where
  "cut c [] = None"
| "cut c (x # xs) = (if x = c then Some ([], xs) else map_option (\<lambda>(a, b). (x # a, b)) (cut c xs))"

definition KVStore_Apply :: "string \<Rightarrow> KVStore \<Rightarrow> KVStore outcome" where
  "KVStore_Apply d k =
     (case cut (CHR ''='') d of
        None \<Rightarrow> Err ''consensus: malformed command''
      | Some (key, val) \<Rightarrow> Ok (k\<lparr>kvData := AList.update key val (kvData k), kvApplied := kvApplied k + 1\<rparr>))"

definition KVStore_Get :: "KVStore \<Rightarrow> string \<Rightarrow> string option" where
  "KVStore_Get k key = map_of (kvData k) key"

definition KVStore_Len :: "KVStore \<Rightarrow> nat" where
  "KVStore_Len k = length (kvData k)"

definition Command :: "string \<Rightarrow> string \<Rightarrow> string" where
  "Command key val = key @ ''='' @ val"

lemma cut_append: "c \<notin> set a \<Longrightarrow> cut c (a @ c # b) = Some (a, b)"
  by (induction a) auto

lemma cut_Some: "cut c s = Some (a, b) \<Longrightarrow> s = a @ c # b \<and> c \<notin> set a"
  by (induction s arbitrary: a) (auto split: if_splits)

lemma cut_Command: "CHR ''='' \<notin> set key \<Longrightarrow> cut (CHR ''='') (Command key val) = Some (key, val)"
  by (simp add: Command_def cut_append)

interpretation kv: replicated_fsm KVStore_Apply "cut (CHR ''='')" KVStore_Get "\<lambda>(k, v) m. m(k \<mapsto> v)"
proof
  fix d f and c :: "string \<times> string"
  assume "cut (CHR ''='') d = Some c"
  then show "\<exists>f'. KVStore_Apply d f = Ok f' \<and> KVStore_Get f' = (case c of (k, v) \<Rightarrow> \<lambda>m. m(k \<mapsto> v)) (KVStore_Get f)"
    by (cases c) (auto simp: KVStore_Apply_def KVStore_Get_def fun_eq_iff)
next
  fix d f assume "cut (CHR ''='') d = None"
  then show "\<exists>e. KVStore_Apply d f = Err e" by (simp add: KVStore_Apply_def)
qed

subsection \<open>CommitFSM\<close>

record CommitCommand =
  ccTaskID :: string
  ccJobID :: string
  ccGeneration :: int
  ccFinalKey :: string

definition Encode :: "(CommitCommand \<Rightarrow> 'b list option) \<Rightarrow> CommitCommand \<Rightarrow> 'b list outcome" where
  "Encode marshal c = (case marshal c of None \<Rightarrow> Err ''proto: marshal'' | Some d \<Rightarrow> Ok d)"

definition DecodeCommitCommand :: "('b list \<Rightarrow> CommitCommand option) \<Rightarrow> 'b list \<Rightarrow> CommitCommand outcome" where
  "DecodeCommitCommand unmarshal d =
     (case unmarshal d of
        None \<Rightarrow> Err ''consensus: decode commit command''
      | Some c \<Rightarrow> if ccTaskID c = [] then Err ''consensus: commit command missing task_id'' else Ok c)"

record CommitFSM =
  committed :: "(string, CommitCommand) gomap"

definition NewCommitFSM :: CommitFSM where
  "NewCommitFSM = \<lparr>committed = []\<rparr>"

definition Apply :: "('b list \<Rightarrow> CommitCommand option) \<Rightarrow> 'b list \<Rightarrow> CommitFSM \<Rightarrow> CommitFSM outcome" where
  "Apply unmarshal d f =
     (case DecodeCommitCommand unmarshal d of
        Ok cmd \<Rightarrow>
          (case map_of (committed f) (ccTaskID cmd) of
             Some cur \<Rightarrow> if ccGeneration cmd \<le> ccGeneration cur then Ok f
                         else Ok (f\<lparr>committed := AList.update (ccTaskID cmd) cmd (committed f)\<rparr>)
           | None \<Rightarrow> Ok (f\<lparr>committed := AList.update (ccTaskID cmd) cmd (committed f)\<rparr>))
      | Err e \<Rightarrow> Err e | Panic \<Rightarrow> Panic)"

definition Committed :: "CommitFSM \<Rightarrow> string \<Rightarrow> CommitCommand option" where
  "Committed f tid = map_of (committed f) tid"

definition Len :: "CommitFSM \<Rightarrow> nat" where
  "Len f = length (committed f)"

text \<open>The fencing rule on the ledger's contents.\<close>

definition fence :: "CommitCommand \<Rightarrow> (string \<Rightarrow> CommitCommand option) \<Rightarrow> string \<Rightarrow> CommitCommand option" where
  "fence c m = (case m (ccTaskID c) of
     Some cur \<Rightarrow> if ccGeneration c \<le> ccGeneration cur then m else m(ccTaskID c \<mapsto> c)
   | None \<Rightarrow> m(ccTaskID c \<mapsto> c))"

definition command_of :: "('b list \<Rightarrow> CommitCommand option) \<Rightarrow> 'b list \<Rightarrow> CommitCommand option" where
  "command_of unmarshal d = (case DecodeCommitCommand unmarshal d of Ok c \<Rightarrow> Some c | _ \<Rightarrow> None)"

interpretation ledger: replicated_fsm "Apply unmarshal" "command_of unmarshal" Committed fence for unmarshal
proof
  fix d f and c :: CommitCommand
  assume "command_of unmarshal d = Some c"
  then have "DecodeCommitCommand unmarshal d = Ok c" by (simp add: command_of_def split: outcome.splits)
  then show "\<exists>f'. Apply unmarshal d f = Ok f' \<and> Committed f' = fence c (Committed f)"
    by (auto simp: Apply_def Committed_def fence_def fun_eq_iff split: option.split)
next
  fix d f assume "command_of unmarshal d = None"
  then show "\<exists>e. Apply unmarshal d f = Err e"
    by (auto simp: command_of_def Apply_def DecodeCommitCommand_def split: outcome.splits option.splits if_splits)
qed

text \<open>The ledger after any log: the record of a task is the first command of the highest
  generation proposed for it.\<close>

lemma fence_foldl_winner:
  assumes "foldl (\<lambda>m c. fence c m) Map.empty cs tid = Some c"
  shows "\<exists>pre post. cs = pre @ c # post \<and> ccTaskID c = tid
     \<and> (\<forall>d \<in> set pre. ccTaskID d = tid \<longrightarrow> ccGeneration d < ccGeneration c)
     \<and> (\<forall>d \<in> set post. ccTaskID d = tid \<longrightarrow> ccGeneration d \<le> ccGeneration c)"
  using assms
proof (induction cs arbitrary: c rule: rev_induct)
  case Nil
  then show ?case by simp
next
  case (snoc x cs)
  let ?m = "foldl (\<lambda>m c. fence c m) Map.empty cs"
  have mem: "ccGeneration d \<le> ccGeneration c'" if "?m tid = Some c'" "d \<in> set cs" "ccTaskID d = tid" for c' d
    using snoc.IH [OF that(1)] that(2,3) by fastforce
  have none: "?m tid = None \<Longrightarrow> d \<in> set cs \<Longrightarrow> ccTaskID d \<noteq> tid" for d
  proof (induction cs rule: rev_induct)
    case (snoc y ys)
    then show ?case by (auto simp: fence_def split: option.splits if_splits)
  qed simp
  have eq: "fence x ?m tid = Some c" using snoc.prems by simp
  show ?case
  proof (cases "?m tid = Some c \<and> (ccTaskID x = tid \<longrightarrow> ccGeneration x \<le> ccGeneration c)")
    case True
    then obtain pre post where "cs = pre @ c # post" "ccTaskID c = tid"
      "\<forall>d \<in> set pre. ccTaskID d = tid \<longrightarrow> ccGeneration d < ccGeneration c"
      "\<forall>d \<in> set post. ccTaskID d = tid \<longrightarrow> ccGeneration d \<le> ccGeneration c"
      using snoc.IH by blast
    with True have "cs @ [x] = pre @ c # (post @ [x])"
      "\<forall>d \<in> set (post @ [x]). ccTaskID d = tid \<longrightarrow> ccGeneration d \<le> ccGeneration c" by auto
    with \<open>ccTaskID c = tid\<close> \<open>\<forall>d \<in> set pre. ccTaskID d = tid \<longrightarrow> ccGeneration d < ccGeneration c\<close>
    show ?thesis by blast
  next
    case False
    with eq have x: "x = c" "ccTaskID x = tid" "\<forall>cur. ?m tid = Some cur \<longrightarrow> ccGeneration cur < ccGeneration x"
      by (auto simp: fence_def split: option.splits if_splits)
    have "ccGeneration d < ccGeneration c" if "d \<in> set cs" "ccTaskID d = tid" for d
    proof (cases "?m tid")
      case None
      with none that show ?thesis by blast
    next
      case (Some cur)
      with x mem [OF Some that] show ?thesis by force
    qed
    with x show ?thesis by (intro exI [of _ cs] exI [of _ "[]"]) simp
  qed
qed

lemma fence_foldl_none:
  "foldl (\<lambda>m c. fence c m) Map.empty cs tid = None \<longleftrightarrow> (\<forall>d \<in> set cs. ccTaskID d \<noteq> tid)"
  by (induction cs rule: rev_induct) (auto simp: fence_def split: option.splits if_splits)

text \<open>More log never loses a record: generations only grow, and an equal generation keeps the
  very same record.\<close>

lemma fence_foldl_mono:
  "m tid = Some c \<Longrightarrow> \<exists>c'. foldl (\<lambda>m c. fence c m) m cs tid = Some c'
     \<and> ccGeneration c \<le> ccGeneration c' \<and> (ccGeneration c = ccGeneration c' \<longrightarrow> c = c')"
proof (induction cs arbitrary: m c)
  case Nil
  then show ?case by simp
next
  case (Cons x cs)
  have "\<exists>c1. fence x m tid = Some c1 \<and> ccGeneration c \<le> ccGeneration c1 \<and> (ccGeneration c = ccGeneration c1 \<longrightarrow> c = c1)"
  proof (cases "ccTaskID x = tid")
    case True
    with Cons.prems show ?thesis by (simp add: fence_def)
  next
    case False
    then have "fence x m tid = m tid" by (simp add: fence_def split: option.split)
    with Cons.prems show ?thesis by simp
  qed
  then obtain c1 where c1: "fence x m tid = Some c1" "ccGeneration c \<le> ccGeneration c1" "ccGeneration c = ccGeneration c1 \<longrightarrow> c = c1"
    by blast
  from Cons.IH [of "fence x m" c1, OF c1(1)] obtain c' where "foldl (\<lambda>m c. fence c m) (fence x m) cs tid = Some c'"
    "ccGeneration c1 \<le> ccGeneration c'" "ccGeneration c1 = ccGeneration c' \<longrightarrow> c1 = c'" by blast
  with c1 show ?case by (intro exI [of _ c']) auto
qed

subsection \<open>The decider\<close>

text \<open>
  \<^verbatim>\<open>raftCommitDecider.Decide\<close>. While it waits, the Raft library applies entries to the local state
  machine; \<open>obs\<close> lists what each turn of the loop reads: the machine, and whether the context is
  done before the next tick. \<open>None\<close> is a call still waiting when the list ends. \<open>propose\<close> is the
  library's answer to the first proposal (an error or not); re-proposals have no effect the caller
  sees.
\<close>

definition fromRecord :: "CommitCommand \<Rightarrow> CommitDecision" where
  "fromRecord r = \<lparr>cdTaskID = ccTaskID r, cdJobID = ccJobID r, cdGeneration = ccGeneration r, cdFinalKey = ccFinalKey r\<rparr>"

definition agreed :: "CommitFSM \<Rightarrow> CommitDecision \<Rightarrow> CommitCommand option" where
  "agreed f dec = (case Committed f (cdTaskID dec) of
     Some r \<Rightarrow> if ccGeneration r \<ge> cdGeneration dec then Some r else None | None \<Rightarrow> None)"

fun decide_loop :: "CommitDecision \<Rightarrow> (CommitFSM \<times> bool) list \<Rightarrow> CommitDecision outcome option" where
  "decide_loop dec [] = None"
| "decide_loop dec ((f, done) # obs) =
     (case agreed f dec of
        Some r \<Rightarrow> Some (Ok (fromRecord r))
      | None \<Rightarrow> if done then Some (Err ''coordinator: commit not agreed before deadline'') else decide_loop dec obs)"

definition Decide ::
  "(CommitCommand \<Rightarrow> 'b list option) \<Rightarrow> CommitFSM \<Rightarrow> bool \<Rightarrow> ('b list \<Rightarrow> string option) \<Rightarrow> (CommitFSM \<times> bool) list
     \<Rightarrow> CommitDecision \<Rightarrow> CommitDecision outcome option" where
  "Decide marshal f isLeader propose obs dec =
     (case agreed f dec of
        Some r \<Rightarrow> Some (Ok (fromRecord r))
      | None \<Rightarrow>
          if \<not> isLeader then Some (Err ''coordinator: not raft leader'')
          else (case Encode marshal \<lparr>ccTaskID = cdTaskID dec, ccJobID = cdJobID dec,
                       ccGeneration = cdGeneration dec, ccFinalKey = cdFinalKey dec\<rparr> of
                  Ok d \<Rightarrow> (case propose d of Some e \<Rightarrow> Some (Err e) | None \<Rightarrow> decide_loop dec obs)
                | _ \<Rightarrow> Some (Err ''coordinator: encode commit'')))"

text \<open>The state machine of a node that has applied the log \<open>es\<close> from the start.\<close>

definition ledger_at :: "('b list \<Rightarrow> CommitCommand option) \<Rightarrow> 'b Entry list \<Rightarrow> CommitFSM" where
  "ledger_at unmarshal es = nFsm (apply_log (Apply unmarshal) es \<lparr>nFsm = NewCommitFSM, nApplied = 0\<rparr>)"

lemma Committed_ledger_at:
  "Committed (ledger_at unmarshal es) = foldl (\<lambda>m c. fence c m) Map.empty (ledger.commands unmarshal es)"
proof -
  have "Committed NewCommitFSM = Map.empty" by (simp add: Committed_def NewCommitFSM_def fun_eq_iff)
  then show ?thesis unfolding ledger_at_def ledger.apply_log_view by simp
qed

lemma commands_append: "ledger.commands u (es @ es') = ledger.commands u es @ ledger.commands u es'"
  by (simp add: ledger.commands_def List.map_filter_def)

lemma Committed_ledger_mono:
  assumes "Committed (ledger_at u es) tid = Some c"
  shows "\<exists>c'. Committed (ledger_at u (es @ es')) tid = Some c'
     \<and> ccGeneration c \<le> ccGeneration c' \<and> (ccGeneration c = ccGeneration c' \<longrightarrow> c = c')"
  using fence_foldl_mono [of "foldl (\<lambda>m c. fence c m) Map.empty (ledger.commands u es)" tid c "ledger.commands u es'"] assms
  by (simp add: Committed_ledger_at commands_append)

lemma agreed_Some: "agreed f dec = Some r \<longleftrightarrow> Committed f (cdTaskID dec) = Some r \<and> cdGeneration dec \<le> ccGeneration r"
  by (auto simp: agreed_def split: option.splits)

lemma decide_loop_Ok:
  "decide_loop dec obs = Some (Ok w) \<Longrightarrow> \<exists>f r. f \<in> fst ` set obs \<and> agreed f dec = Some r \<and> w = fromRecord r"
  by (induction dec obs rule: decide_loop.induct) (auto split: option.splits if_splits)

lemma Decide_Ok:
  assumes "Decide marshal f l p obs dec = Some (Ok w)"
  shows "\<exists>g r. g \<in> insert f (fst ` set obs) \<and> agreed g dec = Some r \<and> w = fromRecord r"
  using assms decide_loop_Ok [of dec obs w]
  by (auto simp: Decide_def split: option.splits if_splits outcome.splits)

lemma Decide_fast: "agreed f dec = Some r \<Longrightarrow> Decide marshal f l p obs dec = Some (Ok (fromRecord r))"
  by (simp add: Decide_def)

text \<open>A waiting call returns as soon as the record shows up before the deadline.\<close>

lemma decide_loop_live:
  assumes "\<forall>(f, d) \<in> set pre. \<not> d" and "agreed f dec = Some r"
  shows "\<exists>w. decide_loop dec (pre @ (f, d) # post) = Some (Ok w)"
  using assms(1)
proof (induction pre)
  case Nil
  with assms(2) show ?case by simp
next
  case (Cons x pre)
  then show ?case by (cases x) (auto split: option.splits)
qed

end
