(* ===== verification/Report.thy ===== *)
theory Report
  imports Sched_Inv Consensus
begin

section \<open>Reporting a result: commit, decision, side effect, terminal mark\<close>

text \<open>
  \<^verbatim>\<open>ReportResult\<close> of \<^verbatim>\<open>internal/scheduler/scheduler.go\<close> with the interfaces of
  \<^verbatim>\<open>commit.go\<close>, the storage committer of \<^verbatim>\<open>internal/coordinator/coordinator.go\<close>, the
  completion sink of \<^verbatim>\<open>internal/coordinator/effect.go\<close> and the ledger of
  \<^verbatim>\<open>internal/effect/effect.go\<close>.

  The call holds the scheduler's lock in its first and last phase only. It is modelled as a
  process with one step per phase (\<open>report_step\<close>), so that any number of concurrent reports,
  other scheduler operations and the committing of Raft entries interleave between its phases
  (\<open>sys_step\<close>). The three collaborators are functions on their own part of the world: the object
  store, the decider's state, the side effect's state.
\<close>

subsection \<open>The environment of a report\<close>

record ('o, 'd, 'e) Env =
  committer :: "(string \<Rightarrow> string \<Rightarrow> 'o \<Rightarrow> 'o \<times> string option) option"
  commitDecider :: "(CommitDecision \<Rightarrow> 'd \<Rightarrow> 'd \<times> CommitDecision outcome) option"
  sideEffect :: "(string \<Rightarrow> CommitDecision \<Rightarrow> 'e \<Rightarrow> 'e \<times> string option) option"

definition no_env :: "('o, 'd, 'e) Env" where
  "no_env = \<lparr>committer = None, commitDecider = None, sideEffect = None\<rparr>"

definition AttachCommitter :: "(string \<Rightarrow> string \<Rightarrow> 'o \<Rightarrow> 'o \<times> string option) \<Rightarrow> ('o, 'd, 'e) Env \<Rightarrow> ('o, 'd, 'e) Env" where
  "AttachCommitter c env = env\<lparr>committer := Some c\<rparr>"

definition AttachCommitDecider ::
  "(CommitDecision \<Rightarrow> 'd \<Rightarrow> 'd \<times> CommitDecision outcome) \<Rightarrow> ('o, 'd, 'e) Env \<Rightarrow> ('o, 'd, 'e) Env" where
  "AttachCommitDecider d env = env\<lparr>commitDecider := Some d\<rparr>"

definition AttachSideEffect ::
  "(string \<Rightarrow> CommitDecision \<Rightarrow> 'e \<Rightarrow> 'e \<times> string option) \<Rightarrow> ('o, 'd, 'e) Env \<Rightarrow> ('o, 'd, 'e) Env" where
  "AttachSideEffect e env = env\<lparr>sideEffect := Some e\<rparr>"

record ('o, 'd, 'e) World =
  wStore :: 'o
  wDecider :: 'd
  wEffect :: 'e

datatype report_pc =
    RValidate
  | RCommit report_ctx
  | RDecide report_ctx
  | REffect report_ctx CommitDecision
  | RMark
  | RReturn "unit outcome"

definition final_key :: "report_ctx \<Rightarrow> string" where
  "final_key c = FinalResultKey (rcJobID c) (rcShard c) (rcRange c)"

definition first_decision :: "string \<Rightarrow> report_ctx \<Rightarrow> CommitDecision" where
  "first_decision tid c = \<lparr>cdTaskID = tid, cdJobID = rcJobID c, cdGeneration = rcGen c, cdFinalKey = final_key c\<rparr>"

text \<open>One phase of \<^verbatim>\<open>ReportResult\<close>.\<close>

fun report_step ::
  "('o, 'd, 'e) Env \<Rightarrow> int \<Rightarrow> string \<Rightarrow> ResultRequest \<Rightarrow> report_pc \<Rightarrow> ('o, 'd, 'e) World \<times> Scheduler
     \<Rightarrow> report_pc \<times> ('o, 'd, 'e) World \<times> Scheduler" where
  "report_step env now tid req RValidate (w, s) =
     (case report_begin tid s of
        Ok None \<Rightarrow> (RReturn (Ok ()), w, s)
      | Ok (Some c) \<Rightarrow> (RCommit c, w, s)
      | Err e \<Rightarrow> (RReturn (Err e), w, s)
      | Panic \<Rightarrow> (RReturn Panic, w, s))"
| "report_step env now tid req (RCommit c) (w, s) =
     (case committer env of
        Some commit \<Rightarrow>
          if rqError req = [] \<and> rqOutputKey req \<noteq> [] then
            (case commit (rqOutputKey req) (final_key c) (wStore w) of
               (o', Some e) \<Rightarrow> (RReturn (Err e), w\<lparr>wStore := o'\<rparr>, s)
             | (o', None) \<Rightarrow> (RDecide c, w\<lparr>wStore := o'\<rparr>, s))
          else (RDecide c, w, s)
      | None \<Rightarrow> (RDecide c, w, s))"
| "report_step env now tid req (RDecide c) (w, s) =
     (case commitDecider env of
        Some decide \<Rightarrow>
          if rqError req = [] then
            (case decide (first_decision tid c) (wDecider w) of
               (d', Ok winner) \<Rightarrow> (REffect c winner, w\<lparr>wDecider := d'\<rparr>, s)
             | (d', Err e) \<Rightarrow> (RReturn (Err e), w\<lparr>wDecider := d'\<rparr>, s)
             | (d', Panic) \<Rightarrow> (RReturn Panic, w\<lparr>wDecider := d'\<rparr>, s))
          else (REffect c (first_decision tid c), w, s)
      | None \<Rightarrow> (REffect c (first_decision tid c), w, s))"
| "report_step env now tid req (REffect c d) (w, s) =
     (case sideEffect env of
        Some fire \<Rightarrow>
          if rqError req = [] then
            (case fire (SideEffectKey (rcJobID c) (rcShard c) (rcRange c)) d (wEffect w) of
               (e', Some e) \<Rightarrow> (RReturn (Err e), w\<lparr>wEffect := e'\<rparr>, s)
             | (e', None) \<Rightarrow> (RMark, w\<lparr>wEffect := e'\<rparr>, s))
          else (RMark, w, s)
      | None \<Rightarrow> (RMark, w, s))"
| "report_step env now tid req RMark (w, s) =
     (case report_finish now tid req s of
        Ok s' \<Rightarrow> (RReturn (Ok ()), w, s')
      | Err e \<Rightarrow> (RReturn (Err e), w, s)
      | Panic \<Rightarrow> (RReturn Panic, w, s))"
| "report_step env now tid req (RReturn r) (w, s) = (RReturn r, w, s)"

text \<open>The call by itself, nothing in between.\<close>

definition ReportResult ::
  "('o, 'd, 'e) Env \<Rightarrow> int \<Rightarrow> string \<Rightarrow> ResultRequest \<Rightarrow> ('o, 'd, 'e) World \<times> Scheduler
     \<Rightarrow> report_pc \<times> ('o, 'd, 'e) World \<times> Scheduler" where
  "ReportResult env now tid req ws =
     ((\<lambda>(pc, ws). report_step env now tid req pc ws) ^^ 5) (RValidate, ws)"

fun phases_left :: "report_pc \<Rightarrow> nat" where
  "phases_left RValidate = 5"
| "phases_left (RCommit c) = 4"
| "phases_left (RDecide c) = 3"
| "phases_left (REffect c d) = 2"
| "phases_left RMark = 1"
| "phases_left (RReturn r) = 0"

lemma phases_left_step:
  "report_step env now tid req pc (w, s) = (pc', w', s') \<Longrightarrow> phases_left pc \<noteq> 0 \<Longrightarrow> phases_left pc' < phases_left pc"
  by (cases pc) (auto split: outcome.splits option.splits if_splits prod.splits)

subsection \<open>Side effects behind a ledger\<close>

record CompletionEvent =
  evKey :: string
  evTaskID :: string
  evJobID :: string
  evFinalKey :: string

text \<open>The sink keeps its ledger and, for the statements below, the calls of the emitter so far;
  the emitter's error, if any, may depend on those.\<close>

record 'l completionSink =
  skLedger :: 'l
  skCalls :: "CompletionEvent list"

definition sink_Apply ::
  "(string \<Rightarrow> 'l \<Rightarrow> bool \<times> 'l) \<Rightarrow> (CompletionEvent list \<Rightarrow> CompletionEvent \<Rightarrow> string option)
     \<Rightarrow> string \<Rightarrow> CommitDecision \<Rightarrow> 'l completionSink \<Rightarrow> 'l completionSink \<times> string option" where
  "sink_Apply claim emit key d sk =
     (case claim key (skLedger sk) of
        (False, l) \<Rightarrow> (sk\<lparr>skLedger := l\<rparr>, None)
      | (True, l) \<Rightarrow>
          let ev = \<lparr>evKey = key, evTaskID = cdTaskID d, evJobID = cdJobID d, evFinalKey = cdFinalKey d\<rparr>
          in (sk\<lparr>skLedger := l, skCalls := skCalls sk @ [ev]\<rparr>, emit (skCalls sk) ev))"

record MemLedger =
  mlSeen :: "string list"

definition NewMemLedger :: MemLedger where
  "NewMemLedger = \<lparr>mlSeen = []\<rparr>"

definition Claim :: "string \<Rightarrow> MemLedger \<Rightarrow> bool \<times> MemLedger" where
  "Claim key m = (if key \<in> set (mlSeen m) then (False, m) else (True, m\<lparr>mlSeen := mlSeen m @ [key]\<rparr>))"

definition MemLedger_Len :: "MemLedger \<Rightarrow> nat" where
  "MemLedger_Len m = length (mlSeen m)"

text \<open>The contract of \<^verbatim>\<open>effect.Ledger\<close>: a claim succeeds for the first caller of a key and for no
  other. Whatever ledger keeps it, the sink calls its emitter at most once per key.\<close>

locale effect_ledger =
  fixes claim :: "string \<Rightarrow> 'l \<Rightarrow> bool \<times> 'l"
    and seen :: "'l \<Rightarrow> string set"
  assumes claim_fst: "fst (claim key l) \<longleftrightarrow> key \<notin> seen l"
    and claim_seen: "seen (snd (claim key l)) = insert key (seen l)"
begin

definition once :: "'l completionSink \<Rightarrow> bool" where
  "once sk \<longleftrightarrow> distinct (map evKey (skCalls sk)) \<and> evKey ` set (skCalls sk) \<subseteq> seen (skLedger sk)"

lemma once_Apply: "once sk \<Longrightarrow> once (fst (sink_Apply claim emit key d sk))"
  using claim_fst [of key "skLedger sk"] claim_seen [of key "skLedger sk"]
  by (cases "claim key (skLedger sk)") (auto simp: once_def sink_Apply_def Let_def split: bool.splits)

text \<open>A second delivery of a key is a no-op that succeeds.\<close>

lemma redelivery:
  assumes "sink_Apply claim emit key d sk = (sk1, r)"
  shows "\<exists>l. sink_Apply claim emit key d' sk1 = (sk1\<lparr>skLedger := l\<rparr>, None)"
proof -
  have "skLedger sk1 = snd (claim key (skLedger sk))"
    using assms by (auto simp: sink_Apply_def Let_def split: prod.splits bool.splits)
  then have "\<not> fst (claim key (skLedger sk1))" by (simp add: claim_fst claim_seen)
  then show ?thesis by (cases "claim key (skLedger sk1)") (auto simp: sink_Apply_def)
qed

end

interpretation mem: effect_ledger Claim "\<lambda>m. set (mlSeen m)"
  by unfold_locales (auto simp: Claim_def)

subsection \<open>The storage committer\<close>

text \<open>\<^verbatim>\<open>storeCommitter.Commit\<close> over the object store's copy and delete (an S3 client, not code of
  this repository, hence arguments). A failed delete is logged and ignored.\<close>

definition storeCommitter_Commit ::
  "(string \<Rightarrow> string \<Rightarrow> 'o \<Rightarrow> 'o \<times> string option) \<Rightarrow> (string \<Rightarrow> 'o \<Rightarrow> 'o \<times> string option)
     \<Rightarrow> string \<Rightarrow> string \<Rightarrow> 'o \<Rightarrow> 'o \<times> string option" where
  "storeCommitter_Commit copy del stagingKey finalKey st =
     (case copy stagingKey finalKey st of
        (st1, Some e) \<Rightarrow> (st1, Some e)
      | (st1, None) \<Rightarrow> (fst (del stagingKey st1), None))"

text \<open>What the committer relies on of the store: a copy that succeeds makes the destination equal to
  the source, which then exists; a copy that fails changes nothing; a delete removes its key when
  it succeeds and nothing else in any case.\<close>

definition store_laws ::
  "('o \<Rightarrow> string \<Rightarrow> 'v option) \<Rightarrow> (string \<Rightarrow> string \<Rightarrow> 'o \<Rightarrow> 'o \<times> string option) \<Rightarrow> (string \<Rightarrow> 'o \<Rightarrow> 'o \<times> string option) \<Rightarrow> bool" where
  "store_laws get copy del \<longleftrightarrow>
     (\<forall>a b st st'. copy a b st = (st', None) \<longrightarrow> (\<exists>v. get st a = Some v \<and> get st' = (get st)(b \<mapsto> v)))
   \<and> (\<forall>a b st st' e. copy a b st = (st', Some e) \<longrightarrow> get st' = get st)
   \<and> (\<forall>a st st'. del a st = (st', None) \<longrightarrow> get st' = (get st)(a := None))
   \<and> (\<forall>a st st' e. del a st = (st', Some e) \<longrightarrow> get st' = get st)"

lemma storeCommitter_ok:
  assumes laws: "store_laws get copy del" and ab: "a \<noteq> b"
    and r: "storeCommitter_Commit copy del a b st = (st', None)"
  shows "\<exists>v. get st a = Some v \<and> get st' b = Some v \<and> (\<forall>k. k \<noteq> a \<longrightarrow> k \<noteq> b \<longrightarrow> get st' k = get st k)"
proof -
  from r obtain st1 where "copy a b st = (st1, None)" "st' = fst (del a st1)"
    by (auto simp: storeCommitter_Commit_def split: prod.splits option.splits)
  then obtain r1 where c: "copy a b st = (st1, None)" "del a st1 = (st', r1)" by (metis prod.collapse)
  then obtain v where "get st a = Some v" "get st1 = (get st)(b \<mapsto> v)" using laws unfolding store_laws_def by blast
  moreover have "get st' = get st1 \<or> get st' = (get st1)(a := None)"
    using c(2) laws unfolding store_laws_def by (cases r1) blast+
  ultimately show ?thesis using ab by auto
qed

lemma storeCommitter_missing:
  assumes laws: "store_laws get copy del" and "get st a = None"
  shows "\<exists>st' e. storeCommitter_Commit copy del a b st = (st', Some e) \<and> get st' = get st"
proof (cases "copy a b st")
  case (Pair st1 r)
  with laws assms(2) obtain e where "r = Some e" unfolding store_laws_def
    by (cases r) fastforce+
  with Pair have "copy a b st = (st1, Some e)" by simp
  moreover from this laws have "get st1 = get st" unfolding store_laws_def by blast
  ultimately show ?thesis by (simp add: storeCommitter_Commit_def)
qed

subsection \<open>Concurrent reports\<close>

text \<open>The deciders' contract as far as a report relies on it: what is recorded stays recorded, at the
  same or a newer generation, and a decision that returns is recorded.\<close>

locale commit_decider =
  fixes decide :: "CommitDecision \<Rightarrow> 'd \<Rightarrow> 'd \<times> CommitDecision outcome"
    and recorded :: "'d \<Rightarrow> string \<Rightarrow> int option"
  assumes decide_records: "decide dec d = (d', Ok w) \<Longrightarrow>
      \<exists>g. recorded d' (cdTaskID dec) = Some g \<and> cdGeneration dec \<le> g"
    and decide_keeps: "decide dec d = (d', r) \<Longrightarrow> recorded d tid = Some g \<Longrightarrow>
      \<exists>g'. recorded d' tid = Some g' \<and> g \<le> g'"

text \<open>A report in progress, and the system: the world, the scheduler and the reports.\<close>

record report_proc =
  rpTask :: string
  rpReq :: ResultRequest
  rpPc :: report_pc

record ('o, 'd, 'e) sys =
  syWorld :: "('o, 'd, 'e) World"
  sySched :: Scheduler
  syProcs :: "report_proc list"

inductive sys_step ::
  "('o, 'd, 'e) Env \<Rightarrow> ('o, 'd, 'e) sys \<Rightarrow> ('o, 'd, 'e) sys \<Rightarrow> bool" for env where
  arrive: "sys_step env y (y\<lparr>syProcs := syProcs y @ [\<lparr>rpTask = tid, rpReq = req, rpPc = RValidate\<rparr>]\<rparr>)"
| phase: "i < length (syProcs y) \<Longrightarrow> p = syProcs y ! i \<Longrightarrow>
     report_step env now (rpTask p) (rpReq p) (rpPc p) (syWorld y, sySched y) = (pc', w', s') \<Longrightarrow>
     sys_step env y \<lparr>syWorld = w', sySched = s', syProcs = (syProcs y)[i := p\<lparr>rpPc := pc'\<rparr>]\<rparr>"
| other: "op_ok (\<lambda>_ _. True) True x (sySched y) \<Longrightarrow> (\<forall>now k req. x \<noteq> OpReport now k req) \<Longrightarrow>
     sys_step env y (y\<lparr>sySched := run_op x (sySched y)\<rparr>)"

inductive sys_reach :: "('o, 'd, 'e) Env \<Rightarrow> ('o, 'd, 'e) World \<Rightarrow> ('o, 'd, 'e) sys \<Rightarrow> bool" for env w0 where
  init: "sys_reach env w0 \<lparr>syWorld = w0, sySched = SetLeaseChunk c (New mr), syProcs = []\<rparr>"
| step: "sys_reach env w0 y \<Longrightarrow> sys_step env y y' \<Longrightarrow> sys_reach env w0 y'"

text \<open>What a phase does to the effect's state: nothing, or one delivery.\<close>

lemma report_step_effect:
  assumes "report_step env now tid req pc (w, s) = (pc', w', s')"
  shows "wEffect w' = wEffect w \<or>
     (\<exists>fire key d. sideEffect env = Some fire \<and> wEffect w' = fst (fire key d (wEffect w)))"
  using assms
proof (cases pc)
  case (REffect c d)
  let ?key = "SideEffectKey (rcJobID c) (rcShard c) (rcRange c)"
  show ?thesis
  proof (cases "sideEffect env")
    case None
    with REffect assms show ?thesis by simp
  next
    case (Some fire)
    obtain e' r where f: "fire ?key d (wEffect w) = (e', r)" by fastforce
    then have "wEffect w' = wEffect w \<or> wEffect w' = e'"
      using REffect assms Some by (auto split: if_splits option.splits)
    with Some f show ?thesis by (metis fst_conv)
  qed
qed (auto split: option.splits if_splits prod.splits outcome.splits)

lemma report_step_sched:
  assumes "report_step env now tid req pc (w, s) = (pc', w', s')"
  shows "s' = s \<or> (pc = RMark \<and> report_finish now tid req s = Ok s')"
  using assms by (cases pc) (auto split: option.splits if_splits prod.splits outcome.splits)

text \<open>An invariant of the side effect that every delivery keeps holds throughout.\<close>

lemma sys_effect_invariant:
  assumes "sys_reach env w0 y" and "I (wEffect w0)"
    and "\<And>fire key d e. sideEffect env = Some fire \<Longrightarrow> I e \<Longrightarrow> I (fst (fire key d e))"
  shows "I (wEffect (syWorld y))"
  using assms(1)
proof induction
  case (init c mr)
  then show ?case using assms(2) by simp
next
  case (step y y')
  from step.hyps(2) show ?case
  proof cases
    case (phase i p now pc' w' s')
    from report_step_effect [OF phase(4)] step.IH assms(3) show ?thesis by (auto simp: phase(1))
  qed (use step.IH in auto)
qed

subsection \<open>A task is done only after its commit was agreed\<close>

text \<open>No operation but a report makes a task done.\<close>

definition no_new_done :: "Scheduler \<Rightarrow> Scheduler \<Rightarrow> bool" where
  "no_new_done s s' \<longleftrightarrow> (\<forall>k t'. map_of (tasks s') k = Some t' \<longrightarrow> tStatus t' = TaskDone \<longrightarrow>
     (\<exists>t. map_of (tasks s) k = Some t \<and> tStatus t = TaskDone))"

lemma no_new_done_refl [simp]: "no_new_done s s"
  by (auto simp: no_new_done_def)

lemma no_new_done_trans: "no_new_done s s1 \<Longrightarrow> no_new_done s1 s2 \<Longrightarrow> no_new_done s s2"
  unfolding no_new_done_def by blast

lemma no_new_done_persist [simp]:
  "no_new_done s (persistLocked s') = no_new_done s s'" "no_new_done s (updateJob now j s') = no_new_done s s'"
  by (simp_all add: no_new_done_def)

lemma no_new_done_update:
  assumes "tasks s' = AList.update k t' (tasks s)"
    and "tStatus t' = TaskDone \<Longrightarrow> \<exists>t. map_of (tasks s) k = Some t \<and> tStatus t = TaskDone"
  shows "no_new_done s s'"
  using assms by (auto simp: no_new_done_def)

lemma no_new_done_submit: "no_new_done s (submit_tasks uuid i job shards s)"
proof (induction uuid i job shards s rule: submit_tasks.induct)
  case (2 uuid i job shard shards s)
  then show ?case
    by (simp add: Let_def) (rule no_new_done_trans, rule no_new_done_update, auto)
qed simp

lemma no_new_done_rebalance: "no_new_done s (fst (rebalance_task now w k (s, n)))"
  by (auto simp: rebalance_task_def Let_def split: option.split intro: no_new_done_update)

lemma no_new_done_rebalance_fold: "no_new_done s (fst (fold (rebalance_task now w) ks (s, n)))"
proof (induction ks arbitrary: s n)
  case (Cons k ks)
  obtain s1 n1 where e: "rebalance_task now w k (s, n) = (s1, n1)" by fastforce
  with no_new_done_rebalance [of s now w k n] Cons.IH [of s1 n1] show ?case by (auto intro: no_new_done_trans)
qed simp

lemma no_new_done_drain: "drain_loop now ids s acc = Ok (as, s') \<Longrightarrow> no_new_done s s'"
proof (induction now ids s acc rule: drain_loop.induct)
  case (2 now tid ids s acc)
  show ?case
  proof (cases "map_of (tasks s) tid")
    case None
    with 2 show ?thesis by simp
  next
    case (Some t)
    let ?t = "grantLocked s (t\<lparr>tStatus := TaskAssigned, tAssignedAt := Some now\<rparr>)"
    let ?s = "s\<lparr>tasks := AList.update tid ?t (tasks s)\<rparr>"
    consider "drain_loop now (tid # ids) s acc = drain_loop now ids s acc" "tStatus t \<noteq> TaskPending \<or> map_of (jobs s) (tJobID t) = None"
      | a where "tStatus t = TaskPending" "map_of (jobs s) (tJobID t) \<noteq> None" "assignmentFor ?s ?t = Ok a"
          "drain_loop now (tid # ids) s acc = drain_loop now ids ?s (acc @ [a])"
      using Some "2.prems" by (auto simp: Let_def split: if_splits outcome.splits)
    then show ?thesis
    proof cases
      case 1
      with 2 Some show ?thesis by (auto split: if_splits)
    next
      case c: 2
      have "no_new_done s ?s" by (rule no_new_done_update) auto
      moreover have "no_new_done ?s s'" using "2.IH"(4) [OF Some _ c(2) refl refl c(3)] c "2.prems" by simp
      ultimately show ?thesis by (rule no_new_done_trans)
    qed
  qed
qed simp

lemma no_new_done_poll:
  assumes wf: "sched_wf s" "map_of (tasks s) u = None" and r: "PollTasks now u r w s = Ok (ao, s')"
  shows "no_new_done s s'"
  using wf
proof (cases rule: PollTasks_cases [where now = now and r = r and w = w])
  case idle
  with r show ?thesis by simp
next
  case (pending i t a)
  with r have "s' = persistLocked (s\<lparr>tasks := AList.update (pendingQ s ! i) (assigned_to s w now t) (tasks s),
    pendingQ := take i (pendingQ s) @ drop (Suc i) (pendingQ s)\<rparr>)" by simp
  then show ?thesis by (auto simp: no_new_done_def)
next
  case (steal k v p j a)
  let ?u = "assigned_to s w now (stolen_half u v p)"
  from steal(10) r have ts: "tasks s' = AList.update u ?u (AList.update k (kept_half v p) (tasks s))" by auto
  have "tStatus (kept_half v p) \<noteq> TaskDone" using steal(3) by (auto simp: in_flight_def)
  with ts show ?thesis by (auto simp: no_new_done_def split: if_splits)
qed

lemma no_new_done_run_op:
  assumes wf: "sched_wf s" and ok: "op_ok ok late x s" and n: "\<forall>now k req. x \<noteq> OpReport now k req"
  shows "no_new_done s (run_op x s)"
proof (cases x)
  case (OpSubmit now uuid req)
  have "no_new_done s (s\<lparr>jobs := js\<rparr>)" "no_new_done s2 (s2\<lparr>jobs := js\<rparr>)" for js s2 by (auto simp: no_new_done_def)
  with OpSubmit show ?thesis
    by (simp add: Submit_def Let_def) (blast intro: no_new_done_trans no_new_done_submit)
next
  case (OpPoll now u r w)
  with ok no_new_done_poll [OF wf, of u now r w] show ?thesis
    by (cases "PollTasks now u r w s") (auto split: prod.splits)
next
  case (OpStart now k w)
  then show ?thesis by (auto simp: StartTask_def split: option.splits intro: no_new_done_update)
next
  case (OpRenew k req)
  show ?thesis
  proof (cases "RenewLease k req s")
    case (Ok p)
    then obtain lr s' where p: "RenewLease k req s = Ok (lr, s')" by (cases p) auto
    from RenewLease_renew_task [OF p] obtain t where "map_of (tasks s) k = Some t"
      "s' = persistLocked (s\<lparr>tasks := AList.update k (renew_task s req t) (tasks s)\<rparr>)" by metis
    with OpRenew p show ?thesis by (auto intro!: no_new_done_update)
  qed (use OpRenew in auto)
next
  case (OpReport now k req)
  with n show ?thesis by blast
next
  case (OpRebalance now w)
  with no_new_done_rebalance_fold [of s now w "map fst (tasks s)" 0] show ?thesis
    by (auto simp: RebalanceWorker_def split: prod.splits)
next
  case (OpDrain now m)
  have "no_new_done s s'" if "drain_loop now ids (s\<lparr>pendingQ := q\<rparr>) [] = Ok (as, s')" for ids q as s'
    using no_new_done_drain [OF that] by (auto simp: no_new_done_def)
  with OpDrain show ?thesis
    by (auto simp: DrainPending_def Let_def split: outcome.splits prod.splits)
qed

lemma report_finish_done:
  assumes "report_finish now tid req s = Ok s'" "map_of (tasks s') k = Some t'" "tStatus t' = TaskDone"
  shows "(\<exists>t. map_of (tasks s) k = Some t \<and> tStatus t = TaskDone) \<or> (k = tid \<and> rqError req = [])"
  using assms by (auto simp: report_finish_def Let_def split: option.splits if_splits)

lemma sys_wf: "sys_reach env w0 y \<Longrightarrow> sched_wf (sySched y)"
proof (induction rule: sys_reach.induct)
  case (init c mr)
  then show ?case by (simp add: sched_wf_New)
next
  case (step y y')
  from step.hyps(2) show ?case
  proof cases
    case (phase i p now pc' w' s')
    from report_step_sched [OF phase(4)] report_finish_micro [OF step.IH, of now "rpTask p" "rpReq p" s' "\<lambda>_ _. True" True]
      sched_wf_micro [OF _ step.IH] step.IH
    show ?thesis by (auto simp: phase(1))
  next
    case (other x)
    with sched_wf_micros [OF run_op_micros [OF step.IH other(2)] step.IH] show ?thesis by simp
  qed (use step.IH in auto)
qed

text \<open>Inside the locale: in every interleaving of reports with each other and with the rest of the
  scheduler, a task marked done has its commit on record.\<close>

context commit_decider
begin

definition past_decision :: "report_pc \<Rightarrow> bool" where
  "past_decision pc \<longleftrightarrow> (case pc of REffect _ _ \<Rightarrow> True | RMark \<Rightarrow> True | _ \<Rightarrow> False)"

definition agreed_inv :: "('o, 'd, 'e) sys \<Rightarrow> bool" where
  "agreed_inv y \<longleftrightarrow>
     (\<forall>p \<in> set (syProcs y). rqError (rpReq p) = [] \<longrightarrow> past_decision (rpPc p) \<longrightarrow>
        recorded (wDecider (syWorld y)) (rpTask p) \<noteq> None)
   \<and> (\<forall>k t. map_of (tasks (sySched y)) k = Some t \<longrightarrow> tStatus t = TaskDone \<longrightarrow>
        recorded (wDecider (syWorld y)) k \<noteq> None)"

lemma report_step_recorded:
  assumes "report_step env now tid req pc (w, s) = (pc', w', s')" and "commitDecider env = Some decide"
  shows "recorded (wDecider w) k \<noteq> None \<Longrightarrow> recorded (wDecider w') k \<noteq> None"
    and "rqError req = [] \<Longrightarrow> past_decision pc' \<Longrightarrow> past_decision pc \<or> recorded (wDecider w') tid \<noteq> None"
proof -
  obtain d' r where d: "decide (first_decision tid c) (wDecider w) = (d', r)" if "pc = RDecide c" for c
    by (cases pc) (auto, metis surj_pair)
  show "recorded (wDecider w') k \<noteq> None" if "recorded (wDecider w) k \<noteq> None"
  proof (cases pc)
    case (RDecide c)
    from that obtain g where g: "recorded (wDecider w) k = Some g" by blast
    from decide_keeps [OF d [OF RDecide] g] have "recorded d' k \<noteq> None" by auto
    with assms RDecide d [OF RDecide] that show ?thesis by (auto split: if_splits outcome.splits)
  qed (use assms that in \<open>auto split: outcome.splits option.splits if_splits prod.splits\<close>)
  show "past_decision pc \<or> recorded (wDecider w') tid \<noteq> None" if "rqError req = []" "past_decision pc'"
  proof (cases pc)
    case (RDecide c)
    note d = d [OF RDecide]
    from assms RDecide d that obtain win where "r = Ok win" "w' = w\<lparr>wDecider := d'\<rparr>"
      by (auto simp: past_decision_def split: outcome.splits)
    with decide_records [of "first_decision tid c" "wDecider w" d' win] d show ?thesis
      by (auto simp: first_decision_def)
  qed (use assms that in \<open>auto simp: past_decision_def split: outcome.splits option.splits if_splits prod.splits\<close>)
qed

lemma agreed_inv_reach:
  assumes "sys_reach env w0 y" and dec: "commitDecider env = Some decide"
  shows "agreed_inv y"
  using assms(1)
proof induction
  case (init c mr)
  then show ?case by (simp add: agreed_inv_def SetLeaseChunk_def New_def)
next
  case (step y y')
  from step.hyps(2) show ?case
  proof cases
    case (arrive tid req)
    with step.IH show ?thesis by (auto simp: agreed_inv_def past_decision_def)
  next
    case (phase i p now pc' w' s')
    note rec = report_step_recorded [OF phase(4) dec]
    have p: "p \<in> set (syProcs y)" using phase(2,3) by simp
    have procs: "recorded (wDecider w') (rpTask q) \<noteq> None"
      if "q \<in> set ((syProcs y)[i := p\<lparr>rpPc := pc'\<rparr>])" "rqError (rpReq q) = []" "past_decision (rpPc q)" for q
    proof -
      from that(1) consider "q \<in> set (syProcs y)" | "q = p\<lparr>rpPc := pc'\<rparr>"
        using set_update_subset_insert [of "syProcs y" i "p\<lparr>rpPc := pc'\<rparr>"] by auto
      then show ?thesis
      proof cases
        case 1
        with step.IH that rec(1) show ?thesis unfolding agreed_inv_def by blast
      next
        case 2
        with rec(2) that have "past_decision (rpPc p) \<or> recorded (wDecider w') (rpTask p) \<noteq> None" by simp
        with step.IH p 2 that(2) rec(1) show ?thesis unfolding agreed_inv_def by auto
      qed
    qed
    have dn: "recorded (wDecider w') k \<noteq> None" if "map_of (tasks s') k = Some t" "tStatus t = TaskDone" for k t
    proof -
      from report_step_sched [OF phase(4)] report_finish_done that
      consider t0 where "map_of (tasks (sySched y)) k = Some t0" "tStatus t0 = TaskDone"
        | "rpPc p = RMark" "k = rpTask p" "rqError (rpReq p) = []" by blast
      then show ?thesis
      proof cases
        case 1
        with step.IH rec(1) show ?thesis unfolding agreed_inv_def by blast
      next
        case 2
        with step.IH p rec(1) show ?thesis unfolding agreed_inv_def past_decision_def by fastforce
      qed
    qed
    show ?thesis unfolding agreed_inv_def using procs dn by (simp add: phase(1))
  next
    case (other x)
    with no_new_done_run_op [OF sys_wf [OF step.hyps(1)] other(2,3)] step.IH show ?thesis
      by (simp add: agreed_inv_def no_new_done_def) blast
  qed
qed

end

subsection \<open>The Raft decider keeps the contract\<close>

text \<open>The decider as a function of the log committed so far. \<open>net es dec\<close> is what the Raft library
  does during the call: whether this node leads, how it answers the proposal, and, for each turn of
  the waiting loop, the entries committed before it and whether the deadline has passed. A call
  that outlives this account counts as not having succeeded.\<close>

fun log_views :: "'b Entry list \<Rightarrow> ('b Entry list \<times> bool) list \<Rightarrow> ('b Entry list \<times> bool) list" where
  "log_views es [] = []"
| "log_views es ((x, d) # segs) = (es @ x, d) # log_views (es @ x) segs"

definition raft_decide ::
  "('b list \<Rightarrow> CommitCommand option) \<Rightarrow> (CommitCommand \<Rightarrow> 'b list option)
     \<Rightarrow> ('b Entry list \<Rightarrow> CommitDecision \<Rightarrow> bool \<times> ('b list \<Rightarrow> string option) \<times> ('b Entry list \<times> bool) list)
     \<Rightarrow> CommitDecision \<Rightarrow> 'b Entry list \<Rightarrow> 'b Entry list \<times> CommitDecision outcome" where
  "raft_decide unmarshal marshal net dec es =
     (case net es dec of (leader, propose, segs) \<Rightarrow>
        (es @ concat (map fst segs),
         case Decide marshal (ledger_at unmarshal es) leader propose
                (map (\<lambda>(l, d). (ledger_at unmarshal l, d)) (log_views es segs)) dec of
           Some r \<Rightarrow> r | None \<Rightarrow> Err ''coordinator: commit not agreed before deadline''))"

definition ledger_gen :: "('b list \<Rightarrow> CommitCommand option) \<Rightarrow> 'b Entry list \<Rightarrow> string \<Rightarrow> int option" where
  "ledger_gen unmarshal es tid = map_option ccGeneration (Committed (ledger_at unmarshal es) tid)"

lemma log_views_prefix: "(l, d) \<in> set (log_views es segs) \<Longrightarrow> \<exists>post. es @ concat (map fst segs) = l @ post"
  by (induction es segs rule: log_views.induct) auto

lemma ledger_gen_mono:
  "ledger_gen u es tid = Some g \<Longrightarrow> \<exists>g'. ledger_gen u (es @ post) tid = Some g' \<and> g \<le> g'"
  using Committed_ledger_mono [of u es tid _ post] by (auto simp: ledger_gen_def)

interpretation raft: commit_decider "raft_decide u m net" "ledger_gen u" for u m net
proof
  fix dec and d d' :: "'a Entry list" and w
  assume r: "raft_decide u m net dec d = (d', Ok w)"
  obtain l p segs where n: "net d dec = (l, p, segs)" by (cases "net d dec") auto
  let ?obs = "map (\<lambda>(l, d). (ledger_at u l, d)) (log_views d segs)"
  have d': "d' = d @ concat (map fst segs)" and D: "Decide m (ledger_at u d) l p ?obs dec = Some (Ok w)"
    using r n by (auto simp: raft_decide_def split: option.splits)
  from Decide_Ok [OF D] obtain g rec where g: "g \<in> insert (ledger_at u d) (fst ` set ?obs)" "agreed g dec = Some rec" by blast
  have "\<exists>es post. d' = es @ post \<and> g = ledger_at u es"
  proof (cases "g = ledger_at u d")
    case True
    with d' show ?thesis by blast
  next
    case False
    with g(1) obtain x y where "(x, y) \<in> set (log_views d segs)" "g = ledger_at u x" by auto
    with log_views_prefix [of x y d segs] d' show ?thesis by blast
  qed
  then obtain es post where "d' = es @ post" "agreed (ledger_at u es) dec = Some rec" using g(2) by blast
  then show "\<exists>g. ledger_gen u d' (cdTaskID dec) = Some g \<and> cdGeneration dec \<le> g"
    using ledger_gen_mono [of u es "cdTaskID dec" "ccGeneration rec" post]
    by (auto simp: agreed_Some ledger_gen_def)
next
  fix dec and d d' :: "'a Entry list" and r tid g
  assume "raft_decide u m net dec d = (d', r)" "ledger_gen u d tid = Some g"
  then show "\<exists>g'. ledger_gen u d' tid = Some g' \<and> g \<le> g'"
    using ledger_gen_mono by (auto simp: raft_decide_def split: prod.splits)
qed

end
