(* ===== verification/Membership.thy ===== *)
theory Membership
  imports Ring
begin

section \<open>Cluster membership and the two-stage failure detector\<close>

text \<open>
  \<^verbatim>\<open>internal/cluster/node.go\<close> and \<^verbatim>\<open>internal/cluster/membership.go\<close>. A membership keeps a
  record per known node, the hash ring it maintains, the two time-outs and the buffered channel of
  failure events (capacity 128, a send on a full channel is dropped). Times are nanoseconds and
  \<^verbatim>\<open>time.Now()\<close> is an argument; the floating-point load figures of a heartbeat are carried as
  reals and never computed with. The nodes are a Go map: the order of the association list is the
  order in which \<^verbatim>\<open>Tick\<close> visits it.
\<close>

subsection \<open>Data\<close>

datatype NodeState = NodeActive | NodeSuspect | NodeDead

record NodeMetrics =
  mActiveTasks :: int
  mCPUPct :: real
  mMemUsedGB :: real
  mCachedShards :: "string list"

record NodeInfo =
  nID :: string
  nAddress :: string
  nState :: NodeState
  nLastSeen :: int
  nJoinedAt :: int
  nMetrics :: NodeMetrics
  nNodeName :: string

record Heartbeat =
  hbNodeID :: string
  hbMetrics :: NodeMetrics

record FailureEvent =
  feNodeID :: string
  feOldState :: NodeState
  feNewState :: NodeState
  feAt :: int

record RegisterRequest =
  rrID :: string
  rrAddress :: string
  rrNodeName :: string

record Membership =
  mnodes :: "(string, NodeInfo) gomap"
  mring :: Ring
  suspectTimeout :: int
  deadTimeout :: int
  events :: "FailureEvent list"

definition zero_metrics :: NodeMetrics where
  "zero_metrics = \<lparr>mActiveTasks = 0, mCPUPct = 0, mMemUsedGB = 0, mCachedShards = []\<rparr>"

definition event_cap :: nat where
  "event_cap = 128"

subsection \<open>Operations\<close>

definition NewMembership :: "Ring \<Rightarrow> int \<Rightarrow> int \<Rightarrow> Membership" where
  "NewMembership ring sus dead =
     \<lparr>mnodes = [], mring = ring, suspectTimeout = sus, deadTimeout = dead, events = []\<rparr>"

definition emit :: "FailureEvent \<Rightarrow> Membership \<Rightarrow> Membership" where
  "emit e m = (if length (events m) < event_cap then m\<lparr>events := events m @ [e]\<rparr> else m)"

definition Register :: "int \<Rightarrow> RegisterRequest \<Rightarrow> Membership \<Rightarrow> Membership" where
  "Register now req m =
     (case map_of (mnodes m) (rrID req) of
        Some n \<Rightarrow> m\<lparr>mnodes := AList.update (rrID req) (n\<lparr>nState := NodeActive, nLastSeen := now\<rparr>) (mnodes m)\<rparr>
      | None \<Rightarrow>
          m\<lparr>mnodes := AList.update (rrID req)
               \<lparr>nID = rrID req, nAddress = rrAddress req, nState = NodeActive, nLastSeen = now,
                nJoinedAt = now, nMetrics = zero_metrics, nNodeName = []\<rparr> (mnodes m),
            mring := Add (mring m) (rrID req)\<rparr>)"

definition HeartbeatOp :: "int \<Rightarrow> Heartbeat \<Rightarrow> Membership \<Rightarrow> Membership outcome" where
  "HeartbeatOp now hb m =
     (case map_of (mnodes m) (hbNodeID hb) of
        None \<Rightarrow> Err (''unknown node: '' @ hbNodeID hb)
      | Some n \<Rightarrow>
          let n1 = n\<lparr>nLastSeen := now, nMetrics := hbMetrics hb\<rparr>
          in if nState n \<noteq> NodeActive
             then Ok (emit \<lparr>feNodeID = nID n, feOldState = nState n, feNewState = NodeActive, feAt = now\<rparr>
                       (m\<lparr>mnodes := AList.update (hbNodeID hb) (n1\<lparr>nState := NodeActive\<rparr>) (mnodes m),
                          mring := Add (mring m) (nID n)\<rparr>))
             else Ok (m\<lparr>mnodes := AList.update (hbNodeID hb) n1 (mnodes m)\<rparr>))"

text \<open>One iteration of \<^verbatim>\<open>Tick\<close>'s loop, on the entry with key \<open>k\<close>.\<close>

definition tick_node :: "int \<Rightarrow> string \<Rightarrow> Membership \<Rightarrow> Membership" where
  "tick_node now k m =
     (case map_of (mnodes m) k of
        None \<Rightarrow> m
      | Some n \<Rightarrow>
          let age = now - nLastSeen n
          in case nState n of
               NodeActive \<Rightarrow>
                 if age > suspectTimeout m
                 then emit \<lparr>feNodeID = nID n, feOldState = NodeActive, feNewState = NodeSuspect, feAt = now\<rparr>
                        (m\<lparr>mnodes := AList.update k (n\<lparr>nState := NodeSuspect\<rparr>) (mnodes m)\<rparr>)
                 else m
             | NodeSuspect \<Rightarrow>
                 if age > deadTimeout m
                 then emit \<lparr>feNodeID = nID n, feOldState = NodeSuspect, feNewState = NodeDead, feAt = now\<rparr>
                        (m\<lparr>mnodes := AList.update k (n\<lparr>nState := NodeDead\<rparr>) (mnodes m),
                           mring := Remove (mring m) (nID n)\<rparr>)
                 else m
             | NodeDead \<Rightarrow> m)"

definition Tick :: "int \<Rightarrow> Membership \<Rightarrow> Membership" where
  "Tick now m = fold (tick_node now) (map fst (mnodes m)) m"

text \<open>A receive from \<^verbatim>\<open>Events()\<close>.\<close>

fun recv_event :: "Membership \<Rightarrow> (FailureEvent \<times> Membership) option" where
  "recv_event m = (case events m of [] \<Rightarrow> None | e # es \<Rightarrow> Some (e, m\<lparr>events := es\<rparr>))"

definition ActiveNodes :: "Membership \<Rightarrow> NodeInfo list" where
  "ActiveNodes m = filter (\<lambda>n. nState n = NodeActive) (map snd (mnodes m))"

definition AllNodes :: "Membership \<Rightarrow> NodeInfo list" where
  "AllNodes m = map snd (mnodes m)"

definition NodeAddress :: "string \<Rightarrow> Membership \<Rightarrow> string outcome" where
  "NodeAddress nid m =
     (case map_of (mnodes m) nid of None \<Rightarrow> Err (''node not found: '' @ nid) | Some n \<Rightarrow> Ok (nAddress n))"

lemmas member_defs [go_defs] = Register_def HeartbeatOp_def tick_node_def emit_def

subsection \<open>The invariant: the ring holds exactly the nodes that are not dead\<close>

definition member_inv :: "Membership \<Rightarrow> bool" where
  "member_inv m \<longleftrightarrow> distinct (map fst (mnodes m)) \<and> ring_wf (mring m)
     \<and> (\<forall>k n. map_of (mnodes m) k = Some n \<longrightarrow> nID n = k)
     \<and> set (rnodes (mring m)) = {k. \<exists>n. map_of (mnodes m) k = Some n \<and> nState n \<noteq> NodeDead}"

lemma member_invI:
  assumes "distinct (map fst (mnodes m))" "ring_wf (mring m)"
    and "\<And>k n. map_of (mnodes m) k = Some n \<Longrightarrow> nID n = k"
    and "set (rnodes (mring m)) = {k. \<exists>n. map_of (mnodes m) k = Some n \<and> nState n \<noteq> NodeDead}"
  shows "member_inv m"
  using assms by (simp add: member_inv_def)

lemma member_invD:
  assumes "member_inv m"
  shows "distinct (map fst (mnodes m))" "ring_wf (mring m)"
    and "map_of (mnodes m) k = Some n \<Longrightarrow> nID n = k"
    and "k \<in> set (rnodes (mring m)) \<longleftrightarrow> (\<exists>n. map_of (mnodes m) k = Some n \<and> nState n \<noteq> NodeDead)"
  using assms by (auto simp: member_inv_def)

lemma emit_fields [simp]:
  "mnodes (emit e m) = mnodes m" "mring (emit e m) = mring m"
  "suspectTimeout (emit e m) = suspectTimeout m" "deadTimeout (emit e m) = deadTimeout m"
  by (simp_all add: emit_def)

lemma member_inv_emit [simp]: "member_inv (emit e m) = member_inv m"
  by (simp add: member_inv_def)

lemma member_inv_New: "member_inv (NewMembership (NewRing v) sus dead)"
  by (simp add: member_inv_def NewMembership_def NewRing_def ring_wf_def DefaultVnodesPerNode_def)

lemma member_inv_Register:
  assumes "member_inv m" and "\<And>n. map_of (mnodes m) (rrID req) = Some n \<Longrightarrow> nState n \<noteq> NodeDead"
  shows "member_inv (Register now req m)"
proof (cases "map_of (mnodes m) (rrID req)")
  case None
  with assms(1) show ?thesis
    by (intro member_invI) (auto simp: Register_def member_inv_def split: if_splits)
next
  case (Some n)
  with assms show ?thesis
    by (intro member_invI) (auto simp: Register_def member_inv_def split: if_splits)
qed

lemma member_inv_HeartbeatOp:
  assumes "member_inv m" and "HeartbeatOp now hb m = Ok m'"
  shows "member_inv m'"
proof -
  obtain n where n: "map_of (mnodes m) (hbNodeID hb) = Some n"
    using assms(2) by (auto simp: HeartbeatOp_def split: option.splits)
  with member_invD(3) [OF assms(1) n] assms show ?thesis
    by (cases "nState n")
      (auto simp: HeartbeatOp_def Let_def intro!: member_invI dest: member_invD
        simp: member_inv_def split: if_splits)
qed

lemma member_inv_tick_node: "member_inv m \<Longrightarrow> member_inv (tick_node now k m)"
proof (cases "map_of (mnodes m) k")
  case None
  then show "member_inv m \<Longrightarrow> ?thesis" by (simp add: tick_node_def)
next
  case (Some n)
  assume inv: "member_inv m"
  have id: "nID n = k" by (rule member_invD(3) [OF inv Some])
  show ?thesis
    using inv Some id
    by (cases "nState n")
      (auto simp: tick_node_def Let_def member_inv_def split: if_splits)
qed

lemma member_inv_fold: "member_inv m \<Longrightarrow> member_inv (fold (tick_node now) ks m)"
  by (induction ks arbitrary: m) (auto simp: member_inv_tick_node)

lemma member_inv_Tick: "member_inv m \<Longrightarrow> member_inv (Tick now m)"
  by (simp add: Tick_def member_inv_fold)

subsection \<open>Transitions\<close>

text \<open>What one pass of the detector does to one node, as a pure function of its age.\<close>

definition tick_state :: "int \<Rightarrow> int \<Rightarrow> int \<Rightarrow> NodeInfo \<Rightarrow> NodeInfo" where
  "tick_state now sus dead n =
     (case nState n of
        NodeActive \<Rightarrow> if now - nLastSeen n > sus then n\<lparr>nState := NodeSuspect\<rparr> else n
      | NodeSuspect \<Rightarrow> if now - nLastSeen n > dead then n\<lparr>nState := NodeDead\<rparr> else n
      | NodeDead \<Rightarrow> n)"

lemma tick_node_lookup:
  "map_of (mnodes (tick_node now k m)) x =
     (if x = k then map_option (tick_state now (suspectTimeout m) (deadTimeout m)) (map_of (mnodes m) k)
      else map_of (mnodes m) x)"
  by (auto simp: tick_node_def tick_state_def Let_def split: option.splits NodeState.splits)

lemma tick_node_timeouts [simp]:
  "suspectTimeout (tick_node now k m) = suspectTimeout m"
  "deadTimeout (tick_node now k m) = deadTimeout m"
  by (auto simp: tick_node_def Let_def split: option.splits NodeState.splits)

lemma fold_tick_timeouts:
  "suspectTimeout (fold (tick_node now) ks m) = suspectTimeout m \<and> deadTimeout (fold (tick_node now) ks m) = deadTimeout m"
  by (induction ks arbitrary: m) auto

lemma Tick_timeouts: "suspectTimeout (Tick now m) = suspectTimeout m" "deadTimeout (Tick now m) = deadTimeout m"
  by (simp_all add: Tick_def fold_tick_timeouts)

lemma fold_tick_lookup:
  "distinct ks \<Longrightarrow> map_of (mnodes (fold (tick_node now) ks m)) x =
     (if x \<in> set ks then map_option (tick_state now (suspectTimeout m) (deadTimeout m)) (map_of (mnodes m) x)
      else map_of (mnodes m) x)"
proof (induction ks arbitrary: m)
  case Nil
  then show ?case by simp
next
  case (Cons k ks)
  then show ?case by (auto simp: tick_node_lookup)
qed

text \<open>Whatever the order of the loop, every node takes exactly one step of the detector.\<close>

lemma Tick_lookup:
  assumes "distinct (map fst (mnodes m))"
  shows "map_of (mnodes (Tick now m)) x =
     map_option (tick_state now (suspectTimeout m) (deadTimeout m)) (map_of (mnodes m) x)"
proof (cases "x \<in> set (map fst (mnodes m))")
  case True
  then show ?thesis unfolding Tick_def fold_tick_lookup [OF assms] by simp
next
  case False
  then have "map_of (mnodes m) x = None" by (simp add: map_of_eq_None_iff)
  with False show ?thesis unfolding Tick_def fold_tick_lookup [OF assms] by simp
qed

lemma tick_node_events_length:
  "length (events (tick_node now k m)) \<le> event_cap \<or> length (events m) > event_cap"
  if "length (events m) \<le> event_cap"
  using that by (auto simp: tick_node_def emit_def Let_def split: option.splits NodeState.splits)

text \<open>The detector reports every change it makes while the channel has room.\<close>

lemma tick_node_reports:
  assumes "map_of (mnodes m) k = Some n" and "tick_state now (suspectTimeout m) (deadTimeout m) n \<noteq> n"
    and "length (events m) < event_cap"
  shows "events (tick_node now k m) = events m @
     [\<lparr>feNodeID = nID n, feOldState = nState n,
       feNewState = nState (tick_state now (suspectTimeout m) (deadTimeout m) n), feAt = now\<rparr>]"
  using assms
  by (auto simp: tick_node_def tick_state_def emit_def Let_def split: NodeState.splits if_splits)

subsection \<open>Histories\<close>

text \<open>The calls the coordinator makes, in any order. A node that was declared dead comes back through a
  heartbeat; a repeated registration of a dead node is the exception shown below.\<close>

inductive member_step :: "Membership \<Rightarrow> Membership \<Rightarrow> bool" where
  register: "(\<And>n. map_of (mnodes m) (rrID req) = Some n \<Longrightarrow> nState n \<noteq> NodeDead) \<Longrightarrow> member_step m (Register now req m)"
| heartbeat: "HeartbeatOp now hb m = Ok m' \<Longrightarrow> member_step m m'"
| tick: "member_step m (Tick now m)"
| receive: "recv_event m = Some (e, m') \<Longrightarrow> member_step m m'"

inductive_cases member_stepE: "member_step m m'"

lemma member_inv_step:
  assumes "member_step m m'" and "member_inv m"
  shows "member_inv m'"
  using assms(1)
proof cases
  case (register req now)
  with member_inv_Register [OF assms(2)] show ?thesis by blast
next
  case (heartbeat now hb)
  with member_inv_HeartbeatOp [OF assms(2)] show ?thesis by blast
next
  case (tick now)
  with member_inv_Tick [OF assms(2)] show ?thesis by simp
next
  case (receive e)
  with assms(2) show ?thesis by (auto simp: member_inv_def split: list.splits)
qed

lemma member_inv_reach: "member_step\<^sup>*\<^sup>* m m' \<Longrightarrow> member_inv m \<Longrightarrow> member_inv m'"
  by (induction rule: rtranclp_induct) (auto intro: member_inv_step)

subsection \<open>Properties\<close>


definition demo_register :: RegisterRequest where
  "demo_register = \<lparr>rrID = ''n1'', rrAddress = ''10.0.0.1:7000'', rrNodeName = ''k1''\<rparr>"

definition demo_member :: Membership where
  "demo_member = Register 0 demo_register (NewMembership (NewRing 1) 5 10)"

lemma demo_member_reach: "member_step\<^sup>*\<^sup>* (NewMembership (NewRing 1) 5 10) demo_member"
  unfolding demo_member_def by (intro r_into_rtranclp member_step.register) (simp add: NewMembership_def)


text \<open>Two-stage detection: one pass of the detector takes every node exactly one step, active to suspect after the
  suspect time-out and suspect to dead after the dead time-out, whatever the iteration order of the map;
  in particular no node goes from active to dead in one pass, and a node heard from within the suspect time-out is left alone.\<close>

lemma tick_advances_each_node_once:
  assumes "member_step\<^sup>*\<^sup>* (NewMembership (NewRing v) sus dead) m"
  shows "map_of (mnodes (Tick now m)) k = (case map_of (mnodes m) k of
       None \<Rightarrow> None
     | Some n \<Rightarrow> Some (n\<lparr>nState :=
         (if nState n = NodeActive \<and> suspectTimeout m < now - nLastSeen n then NodeSuspect
          else if nState n = NodeSuspect \<and> deadTimeout m < now - nLastSeen n then NodeDead else nState n)\<rparr>))"
proof -
  have "distinct (map fst (mnodes m))" by (rule member_invD(1) [OF member_inv_reach [OF assms member_inv_New]])
  then show ?thesis
    by (cases "map_of (mnodes m) k") (auto simp: Tick_lookup tick_state_def split: NodeState.split)
qed

theorem tick_advances_each_node_once_witness:
  "map_option nState (map_of (mnodes (Tick 20 demo_member)) ''n1'') = Some NodeSuspect"
  unfolding tick_advances_each_node_once [OF demo_member_reach]
  by (simp add: demo_member_def Register_def NewMembership_def demo_register_def)

text \<open>A second registration of a node that was declared dead marks it active without putting it back on the ring:
  it counts as active and yet no key is ever routed to it, and its heartbeats do not repair that.\<close>

lemma register_dead_stays_off_ring:
  assumes "member_inv m" and "map_of (mnodes m) (rrID req) = Some n" and "nState n = NodeDead"
    and "HeartbeatOp later \<lparr>hbNodeID = rrID req, hbMetrics = x\<rparr> (Register now req m) = Ok m'"
  shows "map_option nState (map_of (mnodes m') (rrID req)) = Some NodeActive \<and> rrID req \<notin> set (Nodes (mring m'))"
  using assms member_invD(4) [OF assms(1), of "rrID req"]
  by (auto simp: Register_def HeartbeatOp_def Nodes_def Let_def)

end
