(* ===== verification/Wal.thy ===== *)
theory Wal
  imports Go_Hash
begin

section \<open>The write-ahead log\<close>

text \<open>
  \<^verbatim>\<open>internal/pipeline/checkpoint.go\<close>, byte for byte: frames with a big-endian length, a CRC-32
  and a sequence number; recovery with torn-tail truncation; appends; checkpoints. The file system
  is the record \<open>disk\<close> (the log, the snapshot, the temporary snapshot). Every system call that can
  fail has a fault value; the disk a fault leaves is also the disk a crash at that point leaves, so
  the crash theorems quantify over the faults.
\<close>

subsection \<open>Frames\<close>

definition frameHeaderLen :: nat where
  "frameHeaderLen = 8"

definition frame :: "64 word \<Rightarrow> byte list \<Rightarrow> byte list" where
  "frame sq payload =
     (let body = put_be 8 sq @ payload
      in put_be 4 (word_of_nat (length body) :: 32 word) @ put_be 4 (crc32_checksum poly_ieee body) @ body)"

definition readFrame :: "byte list \<Rightarrow> (64 word \<times> byte list \<times> nat) outcome" where
  "readFrame data =
     (if length data < frameHeaderLen then Err ''unexpected EOF''
      else let bodyLen = get_be (take 4 data);
               want = get_be (take 4 (drop 4 data));
               end = frameHeaderLen + bodyLen
           in if bodyLen < 8 \<or> end > length data then Err ''unexpected EOF''
              else let body = take bodyLen (drop frameHeaderLen data)
                   in if unat (crc32_checksum poly_ieee body) \<noteq> want then Err ''crc mismatch''
                      else Ok (word_of_nat (get_be (take 8 body)), drop 8 body, end))"

text \<open>The length field has 32 bits; a payload that fits is at most this long.\<close>

definition fits :: "byte list \<Rightarrow> bool" where
  "fits payload \<longleftrightarrow> 8 + length payload < 2 ^ 32"

lemma length_frame [simp]: "length (frame sq p) = 16 + length p"
  by (simp add: frame_def Let_def)

lemma frame_not_Nil [simp]: "frame sq p \<noteq> []"
  using length_frame [of sq p] by (metis list.size(3) add_is_0 zero_neq_numeral)

lemma frame_parts:
  assumes "fits p"
  shows "get_be (take 4 (frame sq p)) = 8 + length p"
    and "get_be (take 4 (drop 4 (frame sq p))) = unat (crc32_checksum poly_ieee (put_be 8 sq @ p))"
    and "drop 8 (frame sq p) = put_be 8 sq @ p"
proof -
  have "unat (word_of_nat (8 + length p) :: 32 word) = 8 + length p"
    using assms unfolding unsigned_of_nat fits_def by (simp add: take_bit_nat_eq_self)
  then show "get_be (take 4 (frame sq p)) = 8 + length p"
    by (simp add: frame_def Let_def)
  show "get_be (take 4 (drop 4 (frame sq p))) = unat (crc32_checksum poly_ieee (put_be 8 sq @ p))"
    by (simp add: frame_def Let_def)
  show "drop 8 (frame sq p) = put_be 8 sq @ p"
    by (simp add: frame_def Let_def)
qed

lemma readFrame_frame:
  assumes "fits p"
  shows "readFrame (frame sq p @ rest) = Ok (sq, p, length (frame sq p))"
proof -
  let ?d = "frame sq p @ rest"
  have t: "take 4 ?d = take 4 (frame sq p)" "take 4 (drop 4 ?d) = take 4 (drop 4 (frame sq p))"
    "drop 8 ?d = (put_be 8 sq @ p) @ rest" using frame_parts(3) [OF assms, of sq] by simp_all
  show ?thesis
    unfolding readFrame_def frameHeaderLen_def Let_def t frame_parts(1,2) [OF assms] by simp
qed

text \<open>A frame cut short anywhere is rejected.\<close>

lemma readFrame_torn:
  assumes "fits p" "n < length (frame sq p)"
  shows "\<exists>e. readFrame (take n (frame sq p)) = Err e"
proof (cases "n < 8")
  case True
  then show ?thesis by (simp add: readFrame_def frameHeaderLen_def)
next
  case False
  then have "take 4 (take n (frame sq p)) = take 4 (frame sq p)" by (simp add: min_def)
  with False assms frame_parts(1) [OF assms(1), of sq] show ?thesis
    by (simp add: readFrame_def frameHeaderLen_def Let_def)
qed

lemma readFrame_advances: "readFrame data = Ok (sq, p, n) \<Longrightarrow> 16 \<le> n \<and> n \<le> length data"
  by (auto simp: readFrame_def frameHeaderLen_def Let_def split: if_splits)

subsection \<open>Recovery\<close>

record disk =
  dLog :: "byte list option"
  dSnap :: "byte list option"
  dTmp :: "byte list option"

record WAL =
  walSeq :: "64 word"
  walOpen :: bool

record Recovery =
  recSnapshot :: "byte list option"
  recRecords :: "byte list list"

text \<open>The scanning loop over \<^verbatim>\<open>data[off:]\<close>.\<close>

function recover_loop ::
  "64 word \<Rightarrow> byte list \<Rightarrow> nat \<Rightarrow> byte list list \<Rightarrow> 64 word \<Rightarrow> byte list list \<times> 64 word \<times> nat \<times> bool" where
  "recover_loop snapSeq data off records maxSeq =
     (if data = [] then (records, maxSeq, off, False)
      else case readFrame data of
             Ok (sq, payload, n) \<Rightarrow>
               recover_loop snapSeq (drop n data) (off + n)
                 (if sq > snapSeq then records @ [payload] else records) (if sq > maxSeq then sq else maxSeq)
           | _ \<Rightarrow> (records, maxSeq, off, True))"
  by pat_completeness auto
termination
  by (relation "measure (\<lambda>(_, data, _). length data)") (auto dest: readFrame_advances)

declare recover_loop.simps [simp del]

text \<open>The faults of opening: each system call that may fail.\<close>

datatype open_fault = OpenOk | OpenMkdir | OpenReadSnap | OpenReadLog | OpenTruncate | OpenAppend

definition readSnapshot :: "open_fault \<Rightarrow> disk \<Rightarrow> (byte list option \<times> 64 word) outcome" where
  "readSnapshot flt d =
     (case dSnap d of
        None \<Rightarrow> Ok (None, 0)
      | Some data \<Rightarrow>
          if flt = OpenReadSnap then Err ''wal: read snapshot''
          else (case readFrame data of
                  Ok (sq, payload, _) \<Rightarrow> Ok (Some payload, sq)
                | _ \<Rightarrow> Err ''wal: corrupt snapshot''))"

definition recoverLog :: "open_fault \<Rightarrow> 64 word \<Rightarrow> disk \<Rightarrow> (byte list list \<times> 64 word \<times> disk) outcome" where
  "recoverLog flt snapSeq d =
     (case dLog d of
        None \<Rightarrow> Ok ([], 0, d)
      | Some data \<Rightarrow>
          if flt = OpenReadLog then Err ''wal: read log''
          else (case recover_loop snapSeq data 0 [] 0 of (records, maxSeq, off, torn) \<Rightarrow>
                  if torn then if flt = OpenTruncate then Err ''wal: truncate torn tail''
                               else Ok (records, maxSeq, d\<lparr>dLog := Some (take off data)\<rparr>)
                  else Ok (records, maxSeq, d)))"

definition OpenWAL :: "open_fault \<Rightarrow> disk \<Rightarrow> (WAL \<times> Recovery \<times> disk) outcome" where
  "OpenWAL flt d =
     (if flt = OpenMkdir then Err ''wal: create dir''
      else case readSnapshot flt d of
             Ok (snapshot, snapSeq) \<Rightarrow>
               (case recoverLog flt snapSeq d of
                  Ok (records, maxSeq, d1) \<Rightarrow>
                    if flt = OpenAppend then Err ''wal: open log for append''
                    else Ok (\<lparr>walSeq = max snapSeq maxSeq, walOpen = True\<rparr>,
                             \<lparr>recSnapshot = snapshot, recRecords = records\<rparr>,
                             d1\<lparr>dLog := Some (case dLog d1 of None \<Rightarrow> [] | Some l \<Rightarrow> l)\<rparr>)
                | Err e \<Rightarrow> Err e | Panic \<Rightarrow> Panic)
           | Err e \<Rightarrow> Err e | Panic \<Rightarrow> Panic)"

subsection \<open>Appending and checkpointing\<close>

text \<open>\<open>AppendWrite n\<close>: only \<open>n\<close> bytes reach the file. \<open>CkTmp n\<close>: likewise for the temporary file.\<close>

datatype append_fault = AppendOk | AppendWrite nat | AppendSync

definition Append :: "append_fault \<Rightarrow> byte list \<Rightarrow> disk \<times> WAL \<Rightarrow> (disk \<times> WAL) \<times> string option" where
  "Append flt payload = (\<lambda>(d, w).
     let sq = walSeq w + 1;
         w1 = w\<lparr>walSeq := sq\<rparr>;
         old = (case dLog d of None \<Rightarrow> [] | Some l \<Rightarrow> l)
     in (case flt of
           AppendWrite n \<Rightarrow> ((d\<lparr>dLog := Some (old @ take n (frame sq payload))\<rparr>, w1), Some ''wal: append'')
         | AppendSync \<Rightarrow> ((d\<lparr>dLog := Some (old @ frame sq payload)\<rparr>, w1), Some ''wal: fsync append'')
         | AppendOk \<Rightarrow> ((d\<lparr>dLog := Some (old @ frame sq payload)\<rparr>, w1), None)))"

datatype ckpt_fault = CkOk | CkTmp nat | CkTmpSync | CkRename | CkDirSync | CkTruncate | CkSeek | CkLogSync

definition Checkpoint :: "ckpt_fault \<Rightarrow> byte list \<Rightarrow> disk \<times> WAL \<Rightarrow> (disk \<times> WAL) \<times> string option" where
  "Checkpoint flt snapshot = (\<lambda>(d, w).
     let hw = walSeq w;
         fr = frame hw snapshot;
         d1 = d\<lparr>dTmp := Some fr\<rparr>;
         d2 = d\<lparr>dTmp := None, dSnap := Some fr\<rparr>;
         d3 = d2\<lparr>dLog := Some []\<rparr>
     in (case flt of
           CkTmp n \<Rightarrow> ((d\<lparr>dTmp := Some (take n fr)\<rparr>, w), Some ''wal: write snapshot temp'')
         | CkTmpSync \<Rightarrow> ((d1, w), Some ''wal: fsync snapshot temp'')
         | CkRename \<Rightarrow> ((d1, w), Some ''wal: commit snapshot'')
         | CkDirSync \<Rightarrow> ((d2, w), Some ''wal: fsync dir after snapshot'')
         | CkTruncate \<Rightarrow> ((d2, w), Some ''wal: truncate log'')
         | CkSeek \<Rightarrow> ((d3, w), Some ''wal: rewind log'')
         | CkLogSync \<Rightarrow> ((d3, w), Some ''wal: fsync truncated log'')
         | CkOk \<Rightarrow> ((d3, w), None)))"

definition Close :: "WAL \<Rightarrow> WAL" where
  "Close w = w\<lparr>walOpen := False\<rparr>"

subsection \<open>Logs as sequences of entries\<close>

type_synonym entry = "64 word \<times> byte list"

definition frames :: "entry list \<Rightarrow> byte list" where
  "frames es = concat (map (\<lambda>(sq, p). frame sq p) es)"

lemma frames_simps [simp]:
  "frames [] = []" "frames ((sq, p) # es) = frame sq p @ frames es" "frames (es @ es') = frames es @ frames es'"
  by (simp_all add: frames_def)

lemma frames_eq_Nil [simp]: "frames es = [] \<longleftrightarrow> es = []"
  by (cases es) auto

definition max_seq :: "64 word \<Rightarrow> entry list \<Rightarrow> 64 word" where
  "max_seq m es = foldl (\<lambda>m (sq, _). if sq > m then sq else m) m es"

definition newer :: "64 word \<Rightarrow> entry list \<Rightarrow> byte list list" where
  "newer snapSeq es = map snd (filter (\<lambda>(sq, _). sq > snapSeq) es)"

text \<open>The loop reads exactly the entries and stops at what is not a frame.\<close>

lemma recover_loop_frames:
  assumes "\<forall>(sq, p) \<in> set es. fits p" and "tail = [] \<or> (\<exists>e. readFrame tail = Err e)"
  shows "recover_loop snapSeq (frames es @ tail) off records maxSeq
     = (records @ newer snapSeq es, max_seq maxSeq es, off + length (frames es), tail \<noteq> [])"
  using assms(1)
proof (induction es arbitrary: off records maxSeq)
  case Nil
  with assms(2) show ?case by (auto simp: recover_loop.simps newer_def max_seq_def)
next
  case (Cons e es)
  obtain sq p where e: "e = (sq, p)" by fastforce
  have f: "fits p" using Cons.prems e by simp
  have "recover_loop snapSeq (frames (e # es) @ tail) off records maxSeq
      = recover_loop snapSeq (frames es @ tail) (off + length (frame sq p))
          (if sq > snapSeq then records @ [p] else records) (if sq > maxSeq then sq else maxSeq)"
    using readFrame_frame [OF f, of sq "frames es @ tail"] f
    by (subst recover_loop.simps) (simp add: e)
  also have "\<dots> = (records @ newer snapSeq (e # es), max_seq maxSeq (e # es), off + length (frames (e # es)), tail \<noteq> [])"
    using Cons.prems by (subst Cons.IH) (auto simp: e newer_def max_seq_def)
  finally show ?case .
qed

text \<open>The state of a log directory: a snapshot (with the sequence number it covers), the entries
  in the log, and possibly a torn frame at its end.\<close>

definition holds_log :: "disk \<Rightarrow> entry option \<Rightarrow> entry list \<Rightarrow> byte list \<Rightarrow> bool" where
  "holds_log d snap es tail \<longleftrightarrow> dSnap d = map_option (\<lambda>(sq, p). frame sq p) snap
     \<and> dLog d = Some (frames es @ tail) \<and> (\<forall>(sq, p) \<in> set es \<union> set_option snap. fits p)
     \<and> (tail = [] \<or> (\<exists>e. readFrame tail = Err e))"

definition snap_seq :: "entry option \<Rightarrow> 64 word" where
  "snap_seq snap = (case snap of None \<Rightarrow> 0 | Some (sq, _) \<Rightarrow> sq)"

lemma OpenWAL_recovers:
  assumes "holds_log d snap es tail"
  shows "OpenWAL OpenOk d = Ok (\<lparr>walSeq = max (snap_seq snap) (max_seq 0 es), walOpen = True\<rparr>,
     \<lparr>recSnapshot = map_option snd snap, recRecords = newer (snap_seq snap) es\<rparr>, d\<lparr>dLog := Some (frames es)\<rparr>)"
proof -
  have r: "readSnapshot OpenOk d = Ok (map_option snd snap, snap_seq snap)"
  proof (cases snap)
    case None
    with assms show ?thesis by (simp add: readSnapshot_def holds_log_def snap_seq_def)
  next
    case (Some a)
    obtain sq p where a: "a = (sq, p)" by fastforce
    then have "fits p" using assms Some by (auto simp: holds_log_def)
    from readFrame_frame [OF this, of sq "[]"] assms Some a show ?thesis
      by (simp add: readSnapshot_def holds_log_def snap_seq_def)
  qed
  have l: "dLog d = Some (frames es @ tail)" "recover_loop (snap_seq snap) (frames es @ tail) 0 [] 0
      = (newer (snap_seq snap) es, max_seq 0 es, length (frames es), tail \<noteq> [])"
    using assms recover_loop_frames [of es tail "snap_seq snap" 0 "[]" 0] by (auto simp: holds_log_def)
  show ?thesis
    by (cases "tail = []") (use l in \<open>simp_all add: OpenWAL_def r recoverLog_def\<close>)
qed

subsection \<open>The specification: a snapshot and the records after it\<close>

text \<open>What the log promises its user: the last checkpoint and every record appended since.\<close>

datatype wal_op = WAppend "byte list" | WCheckpoint "byte list"

fun spec_op :: "wal_op \<Rightarrow> Recovery \<Rightarrow> Recovery" where
  "spec_op (WAppend p) r = r\<lparr>recRecords := recRecords r @ [p]\<rparr>"
| "spec_op (WCheckpoint s) r = \<lparr>recSnapshot = Some s, recRecords = []\<rparr>"

fun wal_run_op :: "append_fault \<Rightarrow> ckpt_fault \<Rightarrow> wal_op \<Rightarrow> disk \<times> WAL \<Rightarrow> disk \<times> WAL" where
  "wal_run_op fa fc (WAppend p) dw = fst (Append fa p dw)"
| "wal_run_op fa fc (WCheckpoint s) dw = fst (Checkpoint fc s dw)"

definition wal_run :: "wal_op list \<Rightarrow> disk \<times> WAL \<Rightarrow> disk \<times> WAL" where
  "wal_run ops dw = fold (wal_run_op AppendOk CkOk) ops dw"

definition spec_run :: "wal_op list \<Rightarrow> Recovery \<Rightarrow> Recovery" where
  "spec_run ops r = fold spec_op ops r"

fun op_payload :: "wal_op \<Rightarrow> byte list" where
  "op_payload (WAppend p) = p"
| "op_payload (WCheckpoint s) = s"

definition recovered :: "disk \<Rightarrow> Recovery option" where
  "recovered d = (case OpenWAL OpenOk d of Ok (w, r, d') \<Rightarrow> Some r | _ \<Rightarrow> None)"

text \<open>The invariant that ties disk and open log to the specification, and the abstraction.\<close>

definition wal_inv :: "disk \<times> WAL \<Rightarrow> entry option \<Rightarrow> entry list \<Rightarrow> bool" where
  "wal_inv dw snap es \<longleftrightarrow> holds_log (fst dw) snap es [] \<and> (\<forall>(sq, p) \<in> set es. sq \<le> walSeq (snd dw))
     \<and> snap_seq snap \<le> walSeq (snd dw)"

definition wal_abs :: "entry option \<Rightarrow> entry list \<Rightarrow> Recovery" where
  "wal_abs snap es = \<lparr>recSnapshot = map_option snd snap, recRecords = newer (snap_seq snap) es\<rparr>"

lemma recovered_holds_log: "holds_log d snap es tail \<Longrightarrow> recovered d = Some (wal_abs snap es)"
  by (simp add: recovered_def OpenWAL_recovers wal_abs_def)

lemma newer_old: "\<forall>(sq, p) \<in> set es. sq \<le> s \<Longrightarrow> newer s es = []"
  by (auto simp: newer_def filter_empty_conv)

lemma seq_less_Suc: "unat (s :: 64 word) + 1 < 2 ^ 64 \<Longrightarrow> s < s + 1 \<and> unat (s + 1) = unat s + 1"
  by (simp add: word_less_nat_alt unat_word_ariths(1))

text \<open>A successful operation is the specification's.\<close>

lemma wal_op_ok:
  assumes inv: "wal_inv (d, w) snap es" and f: "fits (op_payload x)" and s: "unat (walSeq w) + 1 < 2 ^ 64"
  shows "\<exists>snap' es'. wal_inv (wal_run_op AppendOk CkOk x (d, w)) snap' es'
     \<and> wal_abs snap' es' = spec_op x (wal_abs snap es)
     \<and> unat (walSeq (snd (wal_run_op AppendOk CkOk x (d, w)))) \<le> unat (walSeq w) + 1"
proof (cases x)
  case (WAppend p)
  let ?sq = "walSeq w + 1"
  have lt: "walSeq w < ?sq" "unat ?sq = unat (walSeq w) + 1" using seq_less_Suc [OF s] by auto
  have "wal_inv (wal_run_op AppendOk CkOk x (d, w)) snap (es @ [(?sq, p)])"
    using inv f lt WAppend unfolding wal_inv_def holds_log_def by (auto simp: Append_def Let_def)
  moreover have "newer (snap_seq snap) (es @ [(?sq, p)]) = newer (snap_seq snap) es @ [p]"
    using inv lt by (auto simp: newer_def wal_inv_def)
  ultimately show ?thesis using lt WAppend
    by (intro exI [of _ snap] exI [of _ "es @ [(?sq, p)]"]) (simp add: wal_abs_def Append_def Let_def)
next
  case (WCheckpoint p)
  have "wal_inv (wal_run_op AppendOk CkOk x (d, w)) (Some (walSeq w, p)) []"
    using inv f WCheckpoint unfolding wal_inv_def holds_log_def by (simp add: Checkpoint_def Let_def snap_seq_def)
  then show ?thesis using WCheckpoint
    by (intro exI [of _ "Some (walSeq w, p)"] exI [of _ "[]"]) (simp add: wal_abs_def newer_def Checkpoint_def Let_def)
qed

text \<open>An operation cut off anywhere is, after recovery, either not there or complete.\<close>

lemma wal_op_crash:
  assumes inv: "wal_inv (d, w) snap es" and f: "fits (op_payload x)" and s: "unat (walSeq w) + 1 < 2 ^ 64"
  shows "\<exists>snap' es' tail. holds_log (fst (wal_run_op fa fc x (d, w))) snap' es' tail
     \<and> wal_abs snap' es' \<in> {wal_abs snap es, spec_op x (wal_abs snap es)}"
proof (cases x)
  case (WAppend p)
  let ?fr = "frame (walSeq w + 1) p"
  let ?n = "case fa of AppendWrite n \<Rightarrow> n | _ \<Rightarrow> length ?fr"
  have d': "fst (wal_run_op fa fc x (d, w)) = d\<lparr>dLog := Some (frames es @ take ?n ?fr)\<rparr>"
    using inv WAppend by (cases fa) (auto simp: Append_def Let_def wal_inv_def holds_log_def)
  show ?thesis
  proof (cases "?n < length ?fr")
    case True
    have "fits p" using f WAppend by simp
    from readFrame_torn [OF this True] have "holds_log (fst (wal_run_op fa fc x (d, w))) snap es (take ?n ?fr)"
      using inv by (auto simp: d' wal_inv_def holds_log_def)
    then show ?thesis by blast
  next
    case False
    then have eq: "fst (wal_run_op fa fc x (d, w)) = fst (wal_run_op AppendOk CkOk x (d, w))"
      unfolding d' using inv WAppend by (simp add: Append_def Let_def wal_inv_def holds_log_def)
    from wal_op_ok [OF inv f s] show ?thesis unfolding eq by (auto simp: wal_inv_def)
  qed
next
  case (WCheckpoint p)
  let ?d' = "fst (wal_run_op fa fc x (d, w))"
  consider "dSnap ?d' = dSnap d" "dLog ?d' = dLog d"
    | "dSnap ?d' = Some (frame (walSeq w) p)" "dLog ?d' = dLog d"
    | "dSnap ?d' = Some (frame (walSeq w) p)" "dLog ?d' = Some []"
    using WCheckpoint by (cases fc) (auto simp: Checkpoint_def Let_def)
  then show ?thesis
  proof cases
    case 1
    with inv have "holds_log ?d' snap es []" by (simp add: wal_inv_def holds_log_def)
    then show ?thesis by blast
  next
    case 2
    with inv f WCheckpoint have "holds_log ?d' (Some (walSeq w, p)) es []" by (auto simp: wal_inv_def holds_log_def)
    moreover have "newer (walSeq w) es = []" using inv by (intro newer_old) (simp add: wal_inv_def)
    ultimately show ?thesis using WCheckpoint
      by (intro exI [of _ "Some (walSeq w, p)"] exI [of _ es] exI [of _ "[]"]) (simp add: wal_abs_def snap_seq_def)
  next
    case 3
    with f WCheckpoint have "holds_log ?d' (Some (walSeq w, p)) [] []" by (simp add: holds_log_def)
    then show ?thesis using WCheckpoint
      by (intro exI [of _ "Some (walSeq w, p)"] exI [of _ "[]"]) (auto simp: wal_abs_def snap_seq_def newer_def)
  qed
qed

lemma wal_run_inv:
  assumes "wal_inv (d, w) snap es" and "\<forall>x \<in> set ops. fits (op_payload x)" and "unat (walSeq w) + length ops < 2 ^ 64"
  shows "\<exists>d' w' snap' es'. wal_run ops (d, w) = (d', w') \<and> wal_inv (d', w') snap' es'
     \<and> wal_abs snap' es' = spec_run ops (wal_abs snap es) \<and> unat (walSeq w') \<le> unat (walSeq w) + length ops"
  using assms
proof (induction ops arbitrary: d w snap es)
  case Nil
  then show ?case by (auto simp: wal_run_def spec_run_def)
next
  case (Cons x ops)
  obtain d1 w1 where e: "wal_run_op AppendOk CkOk x (d, w) = (d1, w1)" by fastforce
  from wal_op_ok [OF Cons.prems(1), of x] Cons.prems e obtain snap1 es1 where
    1: "wal_inv (d1, w1) snap1 es1" "wal_abs snap1 es1 = spec_op x (wal_abs snap es)" "unat (walSeq w1) \<le> unat (walSeq w) + 1"
    by auto
  from Cons.IH [OF 1(1)] Cons.prems 1(3) obtain d2 w2 snap2 es2 where
    2: "wal_run ops (d1, w1) = (d2, w2)" "wal_inv (d2, w2) snap2 es2"
      "wal_abs snap2 es2 = spec_run ops (wal_abs snap1 es1)" "unat (walSeq w2) \<le> unat (walSeq w1) + length ops" by auto
  have "wal_run (x # ops) (d, w) = (d2, w2)" using e 2(1) by (simp add: wal_run_def)
  moreover have "wal_abs snap2 es2 = spec_run (x # ops) (wal_abs snap es)" using 1(2) 2(3) by (simp add: spec_run_def)
  ultimately show ?case using 1(3) 2(2,4)
    by (intro exI [of _ d2] exI [of _ w2] exI [of _ snap2] exI [of _ es2]) simp
qed

text \<open>A fresh directory.\<close>

definition empty_disk :: disk where
  "empty_disk = \<lparr>dLog = None, dSnap = None, dTmp = None\<rparr>"

definition fresh_wal :: "disk \<times> WAL" where
  "fresh_wal = (empty_disk\<lparr>dLog := Some []\<rparr>, \<lparr>walSeq = 0, walOpen = True\<rparr>)"

lemma OpenWAL_empty: "OpenWAL OpenOk empty_disk = Ok (snd fresh_wal, \<lparr>recSnapshot = None, recRecords = []\<rparr>, fst fresh_wal)"
  by (simp add: OpenWAL_def readSnapshot_def recoverLog_def empty_disk_def fresh_wal_def)

lemma wal_inv_fresh: "wal_inv fresh_wal None []"
  by (simp add: wal_inv_def fresh_wal_def empty_disk_def holds_log_def snap_seq_def)

subsection \<open>Sessions separated by crashes\<close>

text \<open>A life of the log directory: any number of sessions, each opened on what the last one left,
  each running some operations and stopping in the middle of one more.\<close>

inductive wal_life :: "disk \<Rightarrow> bool" where
  fresh: "wal_life empty_disk"
| session: "\<lbrakk>wal_life d; OpenWAL OpenOk d = Ok (w, r, d1); \<forall>y \<in> set (ops @ [x]). fits (op_payload y);
     unat (walSeq w) + length ops + 1 < 2 ^ 64\<rbrakk> \<Longrightarrow> wal_life (fst (wal_run_op fa fc x (wal_run ops (d1, w))))"

lemma max_seq_ge: "m \<le> max_seq m es \<and> (\<forall>(sq, p) \<in> set es. sq \<le> max_seq m es)"
proof (induction es arbitrary: m)
  case (Cons e es)
  obtain sq p where e: "e = (sq, p)" by fastforce
  have s: "max_seq m (e # es) = max_seq (if sq > m then sq else m) es" by (simp add: max_seq_def e)
  from Cons [of "if sq > m then sq else m"] show ?case unfolding s by (auto simp: e split: if_splits)
qed (simp add: max_seq_def)

lemma reopened_inv:
  assumes "holds_log d snap es tail" and "OpenWAL OpenOk d = Ok (w, r, d1)"
  shows "wal_inv (d1, w) snap es \<and> r = wal_abs snap es"
proof -
  have eq: "w = \<lparr>walSeq = max (snap_seq snap) (max_seq 0 es), walOpen = True\<rparr>" "d1 = d\<lparr>dLog := Some (frames es)\<rparr>"
    "r = wal_abs snap es" using OpenWAL_recovers [OF assms(1)] assms(2) by (simp_all add: wal_abs_def)
  show ?thesis using assms(1) max_seq_ge [where m = 0 and es = es]
    by (fastforce simp: eq wal_inv_def holds_log_def intro: order_trans [OF _ max.cobounded2])
qed

text \<open>One session: what is recovered after it is what was recovered before it, plus its operations,
  with or without the last.\<close>

lemma session_step:
  assumes "wal_inv (d, w) snap es" and f: "\<forall>y \<in> set (ops @ [x]). fits (op_payload y)"
    and "unat (walSeq w) + length ops + 1 < 2 ^ 64"
  shows "\<exists>snap' es' tail. holds_log (fst (wal_run_op fa fc x (wal_run ops (d, w)))) snap' es' tail
     \<and> wal_abs snap' es' \<in> {spec_run ops (wal_abs snap es), spec_run (ops @ [x]) (wal_abs snap es)}"
proof -
  from wal_run_inv [OF assms(1), of ops] assms(2,3) obtain d2 w2 snap2 es2 where
    2: "wal_run ops (d, w) = (d2, w2)" "wal_inv (d2, w2) snap2 es2" "wal_abs snap2 es2 = spec_run ops (wal_abs snap es)"
      "unat (walSeq w2) \<le> unat (walSeq w) + length ops" by auto
  have "fits (op_payload x)" "unat (walSeq w2) + 1 < 2 ^ 64" using f assms(3) 2(4) by simp_all
  from wal_op_crash [OF 2(2) this, of fa fc] 2(3) show ?thesis unfolding 2(1) by (simp add: spec_run_def)
qed

lemma wal_life_opens:
  assumes "wal_life d"
  shows "\<exists>w r d1 snap es. OpenWAL OpenOk d = Ok (w, r, d1) \<and> wal_inv (d1, w) snap es \<and> r = wal_abs snap es"
  using assms
proof induction
  case fresh
  show ?case
    by (intro exI [of _ "snd fresh_wal"] exI [of _ "\<lparr>recSnapshot = None, recRecords = []\<rparr>"] exI [of _ "fst fresh_wal"]
        exI [of _ None] exI [of _ "[]"]) (simp add: OpenWAL_empty wal_inv_fresh wal_abs_def newer_def)
next
  case (session d w r d1 ops x fa fc)
  then obtain snap es where "wal_inv (d1, w) snap es" by auto
  from session_step [OF this session.hyps(3,4), of fa fc] obtain snap' es' tail where
    h: "holds_log (fst (wal_run_op fa fc x (wal_run ops (d1, w)))) snap' es' tail" by blast
  from OpenWAL_recovers [OF h] reopened_inv [OF h] show ?case by metis
qed

subsection \<open>Properties\<close>

text \<open>C8. Crash safety of the write-ahead log over any number of sessions: a log directory left by any life
  of crashes can be opened; and if the session that follows runs some operations and is cut off anywhere inside one
  more append or checkpoint (a torn write, a failed sync, a rename that did or did not happen),
  the next recovery returns what this session recovered followed by its operations, with or
  without the one that was cut off, and nothing else. Payloads fit the 32-bit length field and the sequence
  number does not wrap.\<close>

theorem wal_crash_recovery:
  assumes "wal_life d"
  shows "\<exists>w r d1. OpenWAL OpenOk d = Ok (w, r, d1)
     \<and> (\<forall>ops x fa fc. (\<forall>y \<in> set (ops @ [x]). fits (op_payload y)) \<longrightarrow> unat (walSeq w) + length ops + 1 < 2 ^ 64 \<longrightarrow>
          recovered (fst (wal_run_op fa fc x (wal_run ops (d1, w)))) \<in> {Some (spec_run ops r), Some (spec_run (ops @ [x]) r)})"
proof -
  from wal_life_opens [OF assms] obtain w r d1 snap es where
    1: "OpenWAL OpenOk d = Ok (w, r, d1)" "wal_inv (d1, w) snap es" "r = wal_abs snap es" by blast
  have "recovered (fst (wal_run_op fa fc x (wal_run ops (d1, w)))) \<in> {Some (spec_run ops r), Some (spec_run (ops @ [x]) r)}"
    if "\<forall>y \<in> set (ops @ [x]). fits (op_payload y)" "unat (walSeq w) + length ops + 1 < 2 ^ 64" for ops x fa fc
  proof -
    from session_step [OF 1(2) that, of fa fc] obtain snap' es' tail where
      2: "holds_log (fst (wal_run_op fa fc x (wal_run ops (d1, w)))) snap' es' tail"
        "wal_abs snap' es' \<in> {spec_run ops (wal_abs snap es), spec_run (ops @ [x]) (wal_abs snap es)}" by auto
    from recovered_holds_log [OF 2(1)] 2(2) 1(3) show ?thesis by simp
  qed
  with 1(1) show ?thesis by blast
qed

text \<open>Two appends, then a checkpoint whose log truncation fails.\<close>

theorem wal_crash_recovery_witness:
  "\<exists>w r d1. OpenWAL OpenOk empty_disk = Ok (w, r, d1)
     \<and> recovered (fst (wal_run_op AppendOk CkTruncate (WCheckpoint [7]) (wal_run [WAppend [1], WAppend [2]] (d1, w))))
         \<in> {Some (spec_run [WAppend [1], WAppend [2]] r), Some (spec_run ([WAppend [1], WAppend [2]] @ [WCheckpoint [7]]) r)}"
proof -
  from wal_crash_recovery [OF wal_life.fresh] obtain w r d1 where 1: "OpenWAL OpenOk empty_disk = Ok (w, r, d1)"
    "\<forall>ops x fa fc. (\<forall>y \<in> set (ops @ [x]). fits (op_payload y)) \<longrightarrow> unat (walSeq w) + length ops + 1 < 2 ^ 64 \<longrightarrow>
       recovered (fst (wal_run_op fa fc x (wal_run ops (d1, w)))) \<in> {Some (spec_run ops r), Some (spec_run (ops @ [x]) r)}" by blast
  have "walSeq w = 0" using 1(1) by (auto simp: OpenWAL_empty fresh_wal_def)
  then have "unat (walSeq w) + length [WAppend [1], WAppend [2]] + 1 < 2 ^ 64" by simp
  moreover have "\<forall>y \<in> set ([WAppend [1], WAppend [2]] @ [WCheckpoint [7]]). fits (op_payload y)" by (simp add: fits_def)
  ultimately show ?thesis using 1 by blast
qed

text \<open>Framing: a frame that is followed by anything is read back as its sequence number, its payload and
  its length; and no proper prefix of a frame is ever accepted.\<close>

lemma frame_round_trip:
  assumes "fits p"
  shows "readFrame (frame sq p @ rest) = Ok (sq, p, length (frame sq p))
     \<and> (\<forall>n < length (frame sq p). \<exists>e. readFrame (take n (frame sq p)) = Err e)"
  using readFrame_frame [OF assms] readFrame_torn [OF assms] by blast

theorem frame_round_trip_witness:
  "readFrame (frame 5 [1, 2] @ [9]) = Ok (5, [1, 2], 18) \<and> (\<exists>e. readFrame (take 17 (frame 5 [1, 2])) = Err e)"
proof -
  have f: "fits [1, 2]" by (simp add: fits_def)
  have "(17::nat) < length (frame 5 [1, 2])" by simp
  with frame_round_trip [OF f, of 5 "[9]"] show ?thesis by auto
qed

text \<open>A partial write that the process survives poisons the log: \<^verbatim>\<open>Append\<close> returns an error but leaves the torn
  frame in place and the file offset after it. When the bytes that frame is missing are more than the next
  record's frame, that next append reports success and yet is not there after recovery.\<close>

lemma append_after_torn_append_is_lost:
  assumes "wal_inv (d, w) snap es" and "fits p" and "4 \<le> n" and "n + length (frame sq q) < length (frame (walSeq w + 1) p)"
    and "Append (AppendWrite n) p (d, w) = ((d1, w1), err)" and "Append AppendOk q (d1, w1) = ((d2, w2), None)"
  shows "err \<noteq> None \<and> recovered d2 = Some (wal_abs snap es)"
proof -
  define t where "t = take n (frame (walSeq w + 1) p) @ frame (walSeq w + 2) q"
  have w1: "walSeq w1 = walSeq w + 1" using assms(5) by (auto simp: Append_def Let_def)
  have s: "walSeq w + 1 + 1 = walSeq w + 2" by simp
  have d2: "d2 = d\<lparr>dLog := Some (frames es @ t)\<rparr>" "err \<noteq> None"
    using assms(1,5,6) w1 s by (auto simp: t_def Append_def Let_def wal_inv_def holds_log_def)
  have "take 4 t = take 4 (frame (walSeq w + 1) p)" using assms(3,4) by (simp add: t_def min_def)
  then have "get_be (take 4 t) = 8 + length p" using frame_parts(1) [OF assms(2)] by metis
  moreover have "length t < 16 + length p" using assms(4) by (simp add: t_def)
  ultimately have "\<exists>e. readFrame t = Err e" by (simp add: readFrame_def frameHeaderLen_def Let_def)
  then have "holds_log d2 snap es t" using assms(1) by (auto simp: d2 wal_inv_def holds_log_def)
  then show ?thesis using d2(2) recovered_holds_log by blast
qed

theorem append_after_torn_append_is_lost_witness:
  "\<exists>d1 w1 d2 w2. Append (AppendWrite 10) (replicate 30 1) fresh_wal = ((d1, w1), Some ''wal: append'')
     \<and> Append AppendOk [2] (d1, w1) = ((d2, w2), None) \<and> recovered d2 = Some \<lparr>recSnapshot = None, recRecords = []\<rparr>"
proof -
  obtain d w where dw: "fresh_wal = (d, w)" by fastforce
  obtain d1 w1 e where 1: "Append (AppendWrite 10) (replicate 30 1) (d, w) = ((d1, w1), e)" by (metis prod.collapse)
  obtain d2 w2 where 2: "Append AppendOk [2] (d1, w1) = ((d2, w2), None)" by (simp add: Append_def Let_def)
  have e: "e = Some ''wal: append''" using 1 by (simp add: Append_def Let_def)
  have f: "fits (replicate 30 1)" by (simp add: fits_def)
  have "recovered d2 = Some (wal_abs None [])"
    using append_after_torn_append_is_lost [OF wal_inv_fresh [unfolded dw] f _ _ 1 2, of 0] by simp
  with 1 2 e dw show ?thesis by (simp add: wal_abs_def newer_def)
qed

end
