(* ===== verification/Admission.thy ===== *)
theory Admission
  imports Prelude
begin

section \<open>Admission control\<close>

text \<open>
  \<^verbatim>\<open>internal/admission/controller.go\<close>. A ticket is a heap object with a \<^verbatim>\<open>sync.Once\<close>; the
  tickets handed out are a list, a ticket is its position there, and its flag says whether its
  slot was given back.
\<close>

record Controller =
  maxInFlight :: int
  classes :: "(string, int) gomap"
  totalWeight :: int
  inflight :: "(string, int) gomap"
  total :: int
  admitted :: int
  rejected :: int

record Ticket =
  tkTenant :: string
  tkDone :: bool

definition New :: "int \<Rightarrow> Controller" where
  "New maxIn = \<lparr>maxInFlight = (if maxIn < 1 then 1 else maxIn), classes = [], totalWeight = 0, inflight = [],
     total = 0, admitted = 0, rejected = 0\<rparr>"

definition SetClass :: "string \<Rightarrow> int \<Rightarrow> Controller \<Rightarrow> Controller" where
  "SetClass tenant w c =
     (let w1 = (if w < 1 then 1 else w);
          tw = (case map_of (classes c) tenant of None \<Rightarrow> totalWeight c | Some old \<Rightarrow> totalWeight c - old)
      in c\<lparr>classes := AList.update tenant w1 (classes c), totalWeight := tw + w1\<rparr>)"

definition shareLocked :: "Controller \<Rightarrow> int \<Rightarrow> int" where
  "shareLocked c w =
     (if totalWeight c = 0 then maxInFlight c
      else let s = go_div (i64 (maxInFlight c * w)) (totalWeight c) in if s < 1 then 1 else s)"

text \<open>\<^verbatim>\<open>Admit\<close> returns the tenant of the ticket it issues.\<close>

definition Admit :: "string \<Rightarrow> Controller \<Rightarrow> string outcome \<times> Controller" where
  "Admit tenant c =
     (case map_of (classes c) tenant of
        None \<Rightarrow> (Err ''no admission class: admission rejected'', c\<lparr>rejected := rejected c + 1\<rparr>)
      | Some w \<Rightarrow>
          if lookup0 0 (inflight c) tenant + 1 > shareLocked c w
          then (Err ''at concurrency share: admission rejected'', c\<lparr>rejected := rejected c + 1\<rparr>)
          else if total c + 1 > maxInFlight c
          then (Err ''global in-flight cap reached: admission rejected'', c\<lparr>rejected := rejected c + 1\<rparr>)
          else (Ok tenant, c\<lparr>inflight := AList.update tenant (lookup0 0 (inflight c) tenant + 1) (inflight c),
                             total := total c + 1, admitted := admitted c + 1\<rparr>))"

text \<open>The body of \<^verbatim>\<open>once.Do\<close> in \<^verbatim>\<open>Release\<close>.\<close>

definition release_slot :: "string \<Rightarrow> Controller \<Rightarrow> Controller" where
  "release_slot tenant c =
     (if lookup0 0 (inflight c) tenant > 0
      then c\<lparr>inflight := AList.update tenant (lookup0 0 (inflight c) tenant - 1) (inflight c), total := total c - 1\<rparr>
      else c)"

definition Release :: "nat \<Rightarrow> Ticket list \<times> Controller \<Rightarrow> Ticket list \<times> Controller" where
  "Release i = (\<lambda>(ts, c).
     if i < length ts \<and> \<not> tkDone (ts ! i)
     then (ts[i := (ts ! i)\<lparr>tkDone := True\<rparr>], release_slot (tkTenant (ts ! i)) c)
     else (ts, c))"

record Stats =
  stMaxInFlight :: int
  stInFlight :: int
  stAdmitted :: int
  stRejected :: int
  stPerTenant :: "(string, int) gomap"

definition Stats_of :: "Controller \<Rightarrow> Stats" where
  "Stats_of c = \<lparr>stMaxInFlight = maxInFlight c, stInFlight = total c, stAdmitted = admitted c,
     stRejected = rejected c, stPerTenant = filter (\<lambda>(_, n). n > 0) (inflight c)\<rparr>"

subsection \<open>Operations on a controller and its tickets\<close>

datatype adm_op = ASetClass string int | AAdmit string | ARelease nat

fun adm_run :: "adm_op \<Rightarrow> Ticket list \<times> Controller \<Rightarrow> Ticket list \<times> Controller" where
  "adm_run (ASetClass t w) (ts, c) = (ts, SetClass t w c)"
| "adm_run (AAdmit t) (ts, c) =
     (case Admit t c of (Ok t', c') \<Rightarrow> (ts @ [\<lparr>tkTenant = t', tkDone = False\<rparr>], c') | (_, c') \<Rightarrow> (ts, c'))"
| "adm_run (ARelease i) tc = Release i tc"

definition held :: "Ticket list \<Rightarrow> string \<Rightarrow> nat" where
  "held ts t = length (filter (\<lambda>x. tkTenant x = t \<and> \<not> tkDone x) ts)"

text \<open>The invariant: every unreleased ticket is one slot of its tenant, slots add up to the total,
  the total is within the cap, and the weights add up.\<close>

definition adm_inv :: "Ticket list \<times> Controller \<Rightarrow> bool" where
  "adm_inv = (\<lambda>(ts, c). distinct (map fst (inflight c)) \<and> distinct (map fst (classes c))
     \<and> (\<forall>t. lookup0 0 (inflight c) t = int (held ts t))
     \<and> total c = sum_map (\<lambda>n. n) (inflight c) \<and> total c \<le> maxInFlight c \<and> 1 \<le> maxInFlight c
     \<and> totalWeight c = sum_map (\<lambda>w. w) (classes c) \<and> (\<forall>t w. map_of (classes c) t = Some w \<longrightarrow> 1 \<le> w))"

lemma adm_inv_New: "adm_inv ([], New n)"
  by (simp add: adm_inv_def New_def held_def)

lemma held_snoc: "held (ts @ [\<lparr>tkTenant = t, tkDone = False\<rparr>]) t' = held ts t' + (if t' = t then 1 else 0)"
  by (simp add: held_def)

lemma held_release:
  assumes "i < length ts" "\<not> tkDone (ts ! i)"
  shows "held ts t = held (ts[i := (ts ! i)\<lparr>tkDone := True\<rparr>]) t + (if t = tkTenant (ts ! i) then 1 else 0)"
proof -
  have ts: "ts = take i ts @ ts ! i # drop (Suc i) ts" using assms(1) by (simp add: id_take_nth_drop)
  have up: "ts[i := x] = take i ts @ x # drop (Suc i) ts" for x using assms(1) by (simp add: upd_conv_take_nth_drop)
  show ?thesis unfolding held_def up using assms(2) by (subst ts) auto
qed

lemma adm_inv_Admit:
  assumes "adm_inv (ts, c)"
  shows "adm_inv (adm_run (AAdmit t) (ts, c))"
proof (cases "Admit t c")
  case (Pair r c')
  show ?thesis
  proof (cases r)
    case (Ok t')
    with Pair have c': "t' = t" "c' = c\<lparr>inflight := AList.update t (lookup0 0 (inflight c) t + 1) (inflight c),
        total := total c + 1, admitted := admitted c + 1\<rparr>" "total c + 1 \<le> maxInFlight c"
      by (auto simp: Admit_def split: option.splits if_splits)
    have "sum_map (\<lambda>n. n) (AList.update t (lookup0 0 (inflight c) t + 1) (inflight c)) = total c + 1"
      using sum_map_update [of "inflight c" "\<lambda>n. n" 0 t "lookup0 0 (inflight c) t + 1"] assms
      by (simp add: adm_inv_def)
    with assms c' Pair Ok show ?thesis by (auto simp: adm_inv_def held_snoc)
  qed (use Pair assms in \<open>auto simp: Admit_def adm_inv_def split: option.splits if_splits\<close>)
qed

lemma adm_inv_Release:
  assumes inv: "adm_inv (ts, c)"
  shows "adm_inv (Release i (ts, c))"
proof (cases "i < length ts \<and> \<not> tkDone (ts ! i)")
  case False
  with inv show ?thesis by (auto simp: Release_def)
next
  case True
  let ?t = "tkTenant (ts ! i)"
  let ?n = "lookup0 0 (inflight c) ?t"
  have h: "held ts x = held (ts[i := (ts ! i)\<lparr>tkDone := True\<rparr>]) x + (if x = ?t then 1 else 0)" for x
    using held_release True by blast
  have n: "?n > 0" using inv h [of ?t] by (simp add: adm_inv_def)
  have "sum_map (\<lambda>n. n) (AList.update ?t (?n - 1) (inflight c)) = total c - 1"
    using sum_map_update [of "inflight c" "\<lambda>n. n" 0 ?t "?n - 1"] inv by (simp add: adm_inv_def)
  then show ?thesis using True n inv h by (auto simp: Release_def release_slot_def adm_inv_def)
qed

lemma adm_inv_SetClass:
  assumes inv: "adm_inv (ts, c)"
  shows "adm_inv (ts, SetClass t w c)"
proof -
  let ?w = "if w < 1 then 1 else w"
  have "sum_map (\<lambda>w. w) (AList.update t ?w (classes c)) + lookup0 0 (classes c) t = sum_map (\<lambda>w. w) (classes c) + ?w"
    using inv by (intro sum_map_update) (simp_all add: adm_inv_def)
  then have "sum_map (\<lambda>w. w) (AList.update t ?w (classes c)) = totalWeight (SetClass t w c)"
    using inv by (auto simp: adm_inv_def SetClass_def Let_def lookup0_def split: option.splits)
  then show ?thesis using inv by (auto simp: adm_inv_def SetClass_def Let_def)
qed

lemma adm_inv_run: "adm_inv tc \<Longrightarrow> adm_inv (adm_run x tc)"
  by (cases tc; cases x) (auto simp: adm_inv_SetClass adm_inv_Admit [simplified] adm_inv_Release)

lemma adm_inv_fold: "adm_inv tc \<Longrightarrow> adm_inv (fold adm_run xs tc)"
  by (induction xs arbitrary: tc) (auto simp: adm_inv_run)

subsection \<open>Isolation of tenants\<close>

text \<open>Every tenant within its share, and no share rounded up to one slot: then a tenant below its
  share is never turned away because of the others.\<close>

definition share_of :: "Controller \<Rightarrow> string \<Rightarrow> int" where
  "share_of c t = (case map_of (classes c) t of None \<Rightarrow> 0 | Some w \<Rightarrow> shareLocked c w)"

definition within_shares :: "Controller \<Rightarrow> bool" where
  "within_shares c \<longleftrightarrow> (\<forall>t. lookup0 0 (inflight c) t \<le> share_of c t)"

definition proportional :: "Controller \<Rightarrow> bool" where
  "proportional c \<longleftrightarrow> (\<forall>t w. map_of (classes c) t = Some w \<longrightarrow>
     totalWeight c \<le> maxInFlight c * w \<and> maxInFlight c * w < 2 ^ 63)"

lemma sum_div_le: "0 < W \<Longrightarrow> \<forall>x \<in> set ws. 0 \<le> x \<Longrightarrow> sum_list (map (\<lambda>w. (M * w) div W) ws) \<le> (M * sum_list ws) div (W::int)"
proof (induction ws)
  case (Cons w ws)
  have "(M * w) div W + (M * sum_list ws) div W \<le> (M * w + M * sum_list ws) div W"
    using Cons.prems(1) by (simp add: div_add1_eq [of "M * w"] pos_imp_zdiv_nonneg_iff)
  with Cons show ?case by (simp add: distrib_left)
qed simp

lemma share_proportional:
  assumes "adm_inv (ts, c)" "proportional c" "map_of (classes c) t = Some w"
  shows "shareLocked c w = (maxInFlight c * w) div totalWeight c" "0 < totalWeight c"
proof -
  have mem: "(t, w) \<in> set (classes c)" using assms(3) by (rule map_of_in_set)
  have pos: "\<forall>e \<in> set (classes c). 1 \<le> snd e"
    using assms(1) by (auto simp: adm_inv_def map_of_eq_Some_iff)
  have "\<forall>e \<in> set es. 1 \<le> snd e \<Longrightarrow> e \<in> set es \<Longrightarrow> 0 < sum_map (\<lambda>w. w) es" for e and es :: "(string \<times> int) list"
  proof (induction es)
    case (Cons a es)
    have "0 \<le> sum_map (\<lambda>w. w) es" using Cons.prems(1) by (fastforce simp: sum_map_def intro!: sum_list_nonneg)
    with Cons show ?case by auto
  qed simp
  with mem pos assms(1) show W: "0 < totalWeight c" by (simp add: adm_inv_def)
  have "1 \<le> w" "1 \<le> maxInFlight c" using assms(1,3) by (auto simp: adm_inv_def)
  then have m: "0 \<le> maxInFlight c * w" by simp
  have "maxInFlight c * w < 2 ^ 63" "totalWeight c \<le> maxInFlight c * w" using assms(2,3) by (auto simp: proportional_def)
  with m W zdiv_mono1 [of "totalWeight c" "maxInFlight c * w" "totalWeight c"]
  have "1 \<le> (maxInFlight c * w) div totalWeight c" "i64 (maxInFlight c * w) = maxInFlight c * w" by simp_all
  with m W show "shareLocked c w = (maxInFlight c * w) div totalWeight c"
    by (simp add: shareLocked_def go_div_nonneg)
qed

lemma sum_map_set:
  "distinct (map fst m) \<Longrightarrow> sum_map f m = (\<Sum>k \<in> fst ` set m. f (lookup0 z m k))"
proof (induction m)
  case (Cons e m)
  obtain k v where e: "e = (k, v)" by fastforce
  have k: "k \<notin> fst ` set m" using Cons.prems e by simp
  then have "(\<Sum>x \<in> fst ` set m. f (lookup0 z (e # m) x)) = (\<Sum>x \<in> fst ` set m. f (lookup0 z m x))"
    by (intro sum.cong) (auto simp: e lookup0_def)
  with Cons k show ?case by (simp add: e lookup0_def)
qed simp

lemma sum_shares:
  assumes inv: "adm_inv (ts, c)" and p: "proportional c"
  shows "(\<Sum>t \<in> fst ` set (classes c). share_of c t) \<le> maxInFlight c"
proof (cases "classes c = []")
  case True
  with inv show ?thesis by (simp add: adm_inv_def)
next
  case False
  then obtain t0 w0 where "map_of (classes c) t0 = Some w0"
    by (metis fst_conv list.set_intros(1) list.exhaust map_of_eq_None_iff not_None_eq image_eqI prod.exhaust)
  then have W: "0 < totalWeight c" using share_proportional [OF inv p] by blast
  have d: "distinct (map fst (classes c))" and tw: "totalWeight c = sum_map (\<lambda>w. w) (classes c)"
    using inv by (simp_all add: adm_inv_def)
  let ?g = "\<lambda>w. (maxInFlight c * w) div totalWeight c"
  have "(\<Sum>t \<in> fst ` set (classes c). share_of c t) = (\<Sum>t \<in> fst ` set (classes c). ?g (lookup0 0 (classes c) t))"
  proof (rule sum.cong [OF refl])
    fix t assume "t \<in> fst ` set (classes c)"
    then obtain w where w: "map_of (classes c) t = Some w" by (metis map_of_eq_None_iff not_None_eq)
    with share_proportional(1) [OF inv p w] show "share_of c t = ?g (lookup0 0 (classes c) t)"
      by (simp add: share_of_def lookup0_def)
  qed
  also have "\<dots> = sum_map ?g (classes c)" by (rule sum_map_set [OF d, symmetric])
  also have "\<dots> = sum_list (map ?g (map snd (classes c)))" by (simp add: sum_map_def comp_def)
  also have "\<dots> \<le> (maxInFlight c * sum_list (map snd (classes c))) div totalWeight c"
    using inv by (intro sum_div_le [OF W]) (fastforce simp: adm_inv_def map_of_eq_Some_iff)
  also have "\<dots> = maxInFlight c" using W tw by (simp add: sum_map_def)
  finally show ?thesis .
qed

text \<open>A tenant below its share is admitted, whatever the others do.\<close>

lemma Admit_below_share:
  assumes inv: "adm_inv (ts, c)" and w: "within_shares c" and p: "proportional c"
    and below: "lookup0 0 (inflight c) t < share_of c t"
  shows "fst (Admit t c) = Ok t"
proof -
  obtain wt where wt: "map_of (classes c) t = Some wt"
    using below inv by (cases "map_of (classes c) t") (auto simp: share_of_def adm_inv_def)
  let ?K = "fst ` set (inflight c)" and ?C = "fst ` set (classes c)"
  have t: "t \<in> ?C" using wt by (metis domI dom_map_of_conv_image_fst)
  have zero: "lookup0 0 (inflight c) k = 0" if "k \<notin> ?K" for k
    using that by (metis lookup0_def map_of_eq_None_iff option.case(1))
  have le: "lookup0 0 (inflight c) k \<le> share_of c k" for k using w by (simp add: within_shares_def)
  have none: "share_of c k = 0" if "k \<notin> ?C" for k
    using that by (metis share_of_def map_of_eq_None_iff option.case(1))
  have "total c = (\<Sum>k \<in> ?K. lookup0 0 (inflight c) k)"
    using inv sum_map_set [of "inflight c" "\<lambda>n. n" 0] by (simp add: adm_inv_def)
  also have "\<dots> = (\<Sum>k \<in> ?K \<union> ?C. lookup0 0 (inflight c) k)"
    by (rule sum.mono_neutral_left) (auto simp: zero)
  also have "\<dots> < (\<Sum>k \<in> ?K \<union> ?C. share_of c k)"
    by (rule sum_strict_mono_ex1) (use le below t in auto)
  also have "\<dots> = (\<Sum>k \<in> ?C. share_of c k)"
    by (rule sum.mono_neutral_right) (auto simp: none)
  also have "\<dots> \<le> maxInFlight c" by (rule sum_shares [OF inv p])
  finally have "total c + 1 \<le> maxInFlight c" by simp
  with below wt show ?thesis by (simp add: Admit_def share_of_def)
qed

lemma shareLocked_frame [simp]:
  "shareLocked (c\<lparr>inflight := x\<rparr>) = shareLocked c" "shareLocked (c\<lparr>total := n\<rparr>) = shareLocked c"
  "shareLocked (c\<lparr>admitted := n\<rparr>) = shareLocked c" "shareLocked (c\<lparr>rejected := n\<rparr>) = shareLocked c"
  by (simp_all add: shareLocked_def fun_eq_iff)

text \<open>As long as the classes stay, no tenant ever leaves its share.\<close>

lemma share_of_frame [simp]:
  "share_of (c\<lparr>inflight := x\<rparr>) = share_of c" "share_of (c\<lparr>total := n\<rparr>) = share_of c"
  "share_of (c\<lparr>admitted := n\<rparr>) = share_of c" "share_of (c\<lparr>rejected := n\<rparr>) = share_of c"
  by (simp_all add: share_of_def fun_eq_iff split: option.split)

lemma within_shares_Admit:
  assumes "within_shares c"
  shows "within_shares (snd (Admit t c))"
proof (cases "map_of (classes c) t")
  case None
  with assms show ?thesis by (simp add: Admit_def within_shares_def)
next
  case (Some w)
  then have "share_of c t = shareLocked c w" by (simp add: share_of_def)
  with Some assms show ?thesis by (simp add: Admit_def within_shares_def)
qed

lemma within_shares_Release:
  assumes "within_shares c"
  shows "within_shares (snd (Release i (ts, c)))"
proof -
  have le: "lookup0 0 (inflight c) x \<le> share_of c x" for x using assms by (simp add: within_shares_def)
  then have "lookup0 0 (inflight c) x - 1 \<le> share_of c x" for x using le [of x] by linarith
  with le show ?thesis by (simp add: within_shares_def Release_def release_slot_def)
qed

text \<open>Counting the tickets instead of the slots.\<close>

definition outstanding :: "Ticket list \<Rightarrow> nat" where
  "outstanding ts = length (filter (\<lambda>x. \<not> tkDone x) ts)"

lemma unreleased_release:
  assumes "i < length ts" "\<not> tkDone (ts ! i)"
  shows "outstanding ts = Suc (outstanding (ts[i := (ts ! i)\<lparr>tkDone := True\<rparr>]))"
proof -
  have up: "ts[i := x] = take i ts @ x # drop (Suc i) ts" for x using assms(1) by (simp add: upd_conv_take_nth_drop)
  show ?thesis unfolding outstanding_def up using assms by (subst id_take_nth_drop [OF assms(1)]) simp
qed

lemma total_outstanding_step:
  assumes "adm_inv (ts, c)" "total c = int (outstanding ts)" "adm_run x (ts, c) = (ts', c')"
  shows "total c' = int (outstanding ts')"
proof (cases x)
  case (ASetClass t w)
  with assms show ?thesis by (auto simp: SetClass_def Let_def)
next
  case (AAdmit t)
  with assms(2,3) show ?thesis
    by (auto simp: Admit_def outstanding_def split: option.splits if_splits)
next
  case (ARelease i)
  show ?thesis
  proof (cases "i < length ts \<and> \<not> tkDone (ts ! i)")
    case True
    have "held ts (tkTenant (ts ! i)) > 0" using held_release [of i ts "tkTenant (ts ! i)"] True by simp
    with assms(1) have "0 < lookup0 0 (inflight c) (tkTenant (ts ! i))" by (simp add: adm_inv_def)
    with True assms(2,3) ARelease unreleased_release [of i ts] show ?thesis by (auto simp: Release_def release_slot_def)
  qed (use assms(2,3) ARelease in \<open>auto simp: Release_def\<close>)
qed

lemma total_outstanding:
  "adm_inv (ts, c) \<Longrightarrow> total c = int (outstanding ts) \<Longrightarrow> fold adm_run xs (ts, c) = (ts', c') \<Longrightarrow> total c' = int (outstanding ts')"
proof (induction xs arbitrary: ts c)
  case (Cons x xs)
  obtain ts1 c1 where 1: "adm_run x (ts, c) = (ts1, c1)" by fastforce
  show ?case
    by (rule Cons.IH [of ts1 c1]) (use 1 Cons.prems adm_inv_run [of "(ts, c)" x] total_outstanding_step [OF _ _ 1] in auto)
qed simp

text \<open>Admissions and releases leave classes and cap alone.\<close>

fun traffic :: "adm_op \<Rightarrow> bool" where
  "traffic (ASetClass t w) = False"
| "traffic _ = True"

lemma traffic_frame:
  assumes "traffic x" "adm_run x (ts, c) = (ts', c')" "within_shares c"
  shows "classes c' = classes c" "maxInFlight c' = maxInFlight c" "totalWeight c' = totalWeight c" "within_shares c'"
proof -
  show "classes c' = classes c" "maxInFlight c' = maxInFlight c" "totalWeight c' = totalWeight c"
    using assms(1,2) by (cases x; auto simp: Admit_def Release_def release_slot_def split: option.splits if_splits)+
  show "within_shares c'"
  proof (cases x)
    case (AAdmit t)
    with assms(2) have "c' = snd (Admit t c)" by (auto split: prod.splits outcome.splits)
    with within_shares_Admit [OF assms(3)] show ?thesis by simp
  next
    case (ARelease i)
    with within_shares_Release [OF assms(3), of i ts] assms(2) show ?thesis by simp
  qed (use assms(1) in simp)
qed

lemma traffic_run:
  "\<forall>x \<in> set xs. traffic x \<Longrightarrow> within_shares c \<Longrightarrow> fold adm_run xs (ts, c) = (ts', c') \<Longrightarrow>
     classes c' = classes c \<and> maxInFlight c' = maxInFlight c \<and> totalWeight c' = totalWeight c \<and> within_shares c'"
proof (induction xs arbitrary: ts c)
  case (Cons x xs)
  obtain ts1 c1 where 1: "adm_run x (ts, c) = (ts1, c1)" by fastforce
  with Cons traffic_frame [of x ts c ts1 c1] show ?case by auto
qed simp

definition with_classes :: "(string \<times> int) list \<Rightarrow> Controller \<Rightarrow> Controller" where
  "with_classes cls c = fold (\<lambda>(t, w). SetClass t w) cls c"

lemma with_classes_inv: "adm_inv (ts, c) \<Longrightarrow> adm_inv (ts, with_classes cls c) \<and> inflight (with_classes cls c) = inflight c"
  unfolding with_classes_def
proof (induction cls arbitrary: c)
  case (Cons e cls)
  obtain t w where e: "e = (t, w)" by fastforce
  from Cons.IH [OF adm_inv_SetClass [OF Cons.prems, of t w]] show ?case by (simp add: e SetClass_def Let_def)
qed simp

lemma share_nonneg: "1 \<le> maxInFlight c \<Longrightarrow> 0 \<le> share_of c t"
  by (simp add: share_of_def shareLocked_def Let_def split: option.split)

subsection \<open>Properties\<close>

text \<open>C26. Accounting: after any sequence of class changes, admissions and releases (tickets released any number of times, in
  any order), each tenant's in-flight count is the number of its unreleased tickets, the total is the
  number of all unreleased tickets, and it never exceeds the cap.\<close>

theorem admission_accounting:
  "case fold adm_run xs ([], New n) of (ts, c) \<Rightarrow>
     lookup0 0 (inflight c) t = int (held ts t) \<and> total c = int (outstanding ts) \<and> outstanding ts \<le> nat (maxInFlight c)"
proof -
  obtain ts c where r: "fold adm_run xs ([], New n) = (ts, c)" by fastforce
  have i: "adm_inv (ts, c)" using adm_inv_fold [OF adm_inv_New, of xs n] r by simp
  have "total c = int (outstanding ts)"
    by (rule total_outstanding [OF adm_inv_New _ r]) (simp add: New_def outstanding_def)
  with i r show ?thesis by (auto simp: adm_inv_def)
qed



end
