(* ===== verification/Metrics.thy ===== *)
theory Metrics
  imports Scheduler
begin

section \<open>Scheduler metrics\<close>

text \<open>
  \<^verbatim>\<open>internal/scheduler/metrics.go\<close>: the task counts and the latency percentiles of
  \<^verbatim>\<open>/v1/metrics/tasks\<close>. \<^verbatim>\<open>float64\<close> is \<open>real\<close>; \<^verbatim>\<open>int(x)\<close> of a non-negative \<open>x\<close> is its floor.
\<close>

record Metrics =
  mTasksTotal :: nat
  mPending :: nat
  mAssigned :: nat
  mRunning :: nat
  mDone :: nat
  mFailed :: nat
  mRebalances :: int
  mP50 :: real
  mP95 :: real
  mP99 :: real
  mMax :: real
  mMean :: real

text \<open>The slice must not be empty: the index would be out of range.\<close>

definition percentile :: "real list \<Rightarrow> real \<Rightarrow> real outcome" where
  "percentile xs p =
     (if length xs = 1 then Ok (xs ! 0)
      else let r0 = \<lfloor>p * (of_nat (length xs) - 1)\<rfloor>;
               r1 = (if r0 < 0 then 0 else r0);
               r2 = (if r1 \<ge> int (length xs) then int (length xs) - 1 else r1)
           in if 0 \<le> r2 \<and> r2 < int (length xs) then Ok (xs ! nat r2) else Panic)"

definition latency :: "Task \<Rightarrow> real option" where
  "latency t =
     (if tStatus t = TaskDone
      then (case (tStartedAt t, tFinishedAt t) of
              (Some a, Some b) \<Rightarrow> Some (of_int (b - a) / 10 ^ 6)
            | _ \<Rightarrow> None)
      else None)"

definition Metrics_of :: "Scheduler \<Rightarrow> Metrics outcome" where
  "Metrics_of s =
     (let ts = tasks s;
          lat = List.map_filter latency (map snd ts);
          srt = sort lat;
          m = \<lparr>mTasksTotal = length ts,
               mPending = count_map (\<lambda>t. tStatus t = TaskPending) ts,
               mAssigned = count_map (\<lambda>t. tStatus t = TaskAssigned) ts,
               mRunning = count_map (\<lambda>t. tStatus t = TaskRunning) ts,
               mDone = count_map (\<lambda>t. tStatus t = TaskDone) ts,
               mFailed = count_map (\<lambda>t. tStatus t = TaskFailed) ts,
               mRebalances = sum_map tRetries ts,
               mP50 = 0, mP95 = 0, mP99 = 0, mMax = 0, mMean = 0\<rparr>
      in if lat = [] then Ok m
         else case (percentile srt 0.5, percentile srt 0.95, percentile srt 0.99) of
                (Ok a, Ok b, Ok c) \<Rightarrow>
                  Ok (m\<lparr>mP50 := a, mP95 := b, mP99 := c, mMax := last srt, mMean := sum_list lat / of_nat (length lat)\<rparr>)
              | _ \<Rightarrow> Panic)"

lemma percentile_rank:
  assumes "xs \<noteq> []" "0 \<le> p" "p \<le> 1"
  shows "\<exists>i < length xs. percentile xs p = Ok (xs ! i) \<and> i = nat \<lfloor>p * (of_nat (length xs) - 1)\<rfloor>"
proof -
  let ?n = "length xs"
  let ?r = "\<lfloor>p * (of_nat ?n - 1)\<rfloor>"
  have n: "1 \<le> ?n" using assms(1) by (cases xs) auto
  have nn: "0 \<le> p * (real ?n - 1)" using assms n by simp
  have "p * (real ?n - 1) \<le> 1 * (real ?n - 1)" using assms n by (intro mult_right_mono) auto
  then have "?r \<le> \<lfloor>real_of_int (int ?n - 1)\<rfloor>" using n by (intro floor_mono) simp
  then have ub: "?r \<le> int ?n - 1" by simp
  have lb: "0 \<le> ?r" using nn by simp
  show ?thesis
  proof (cases "?n = 1")
    case True
    then show ?thesis by (intro exI [of _ 0]) (simp add: percentile_def)
  next
    case False
    with lb ub n show ?thesis
      by (intro exI [of _ "nat ?r"]) (auto simp: percentile_def Let_def nat_less_iff)
  qed
qed

text \<open>Percentiles of a sorted slice grow with the rank.\<close>

lemma percentile_mono:
  assumes "sorted xs" "xs \<noteq> []" "0 \<le> p" "p \<le> q" "q \<le> 1"
  shows "\<exists>a b. percentile xs p = Ok a \<and> percentile xs q = Ok b \<and> a \<le> b \<and> b \<le> last xs"
proof -
  obtain i where i: "i < length xs" "percentile xs p = Ok (xs ! i)" "i = nat \<lfloor>p * (of_nat (length xs) - 1)\<rfloor>"
    using percentile_rank [of xs p] assms by auto
  obtain j where j: "j < length xs" "percentile xs q = Ok (xs ! j)" "j = nat \<lfloor>q * (of_nat (length xs) - 1)\<rfloor>"
    using percentile_rank [of xs q] assms by auto
  have "1 \<le> length xs" using assms(2) by (cases xs) auto
  then have "p * (real (length xs) - 1) \<le> q * (real (length xs) - 1)" using assms(4) by (intro mult_right_mono) auto
  then have "i \<le> j" unfolding i(3) j(3) by (intro nat_mono floor_mono)
  then have "xs ! i \<le> xs ! j" using assms(1) j(1) by (simp add: sorted_nth_mono)
  moreover have "xs ! j \<le> last xs" using assms(1,2) j(1) by (simp add: last_conv_nth sorted_nth_mono)
  ultimately show ?thesis using i(2) j(2) by blast
qed

lemma count_by_status:
  "count_map (\<lambda>t. tStatus t = TaskPending) m + count_map (\<lambda>t. tStatus t = TaskAssigned) m
     + count_map (\<lambda>t. tStatus t = TaskRunning) m + count_map (\<lambda>t. tStatus t = TaskDone) m
     + count_map (\<lambda>t. tStatus t = TaskFailed) m = length m"
proof (induction m)
  case (Cons e m)
  then show ?case by (cases "tStatus (snd e)") auto
qed simp

text \<open>The report never fails, its counts add up, and its percentiles are in order.\<close>

lemma Metrics_of_ok:
  "\<exists>m. Metrics_of s = Ok m \<and> mPending m + mAssigned m + mRunning m + mDone m + mFailed m = mTasksTotal m
     \<and> mP50 m \<le> mP95 m \<and> mP95 m \<le> mP99 m \<and> mP99 m \<le> mMax m"
proof (cases "List.map_filter latency (map snd (tasks s)) = []")
  case True
  then show ?thesis by (simp add: Metrics_of_def Let_def count_by_status)
next
  case False
  let ?xs = "sort (List.map_filter latency (map snd (tasks s)))"
  have ne: "?xs \<noteq> []" using False by (metis length_0_conv length_sort)
  obtain a b where ab: "percentile ?xs 0.5 = Ok a" "percentile ?xs 0.95 = Ok b" "a \<le> b"
    using percentile_mono [of ?xs "0.5" "0.95"] ne by auto
  obtain c where c: "percentile ?xs 0.99 = Ok c" "b \<le> c" "c \<le> last ?xs"
    using percentile_mono [of ?xs "0.95" "0.99"] ne ab(2) by auto
  show ?thesis using False ab c by (simp add: Metrics_of_def Let_def count_by_status)
qed

end
