(* ===== verification/Coordinator.thy ===== *)
theory Coordinator
  imports Report Membership Wal Admission Metrics
begin

section \<open>The coordinator\<close>

text \<open>
  \<^verbatim>\<open>internal/coordinator/coordinator.go\<close> and the HTTP handlers of \<^verbatim>\<open>api.go\<close>: the component that
  owns membership and ring, scheduler, write-ahead log, admission controller and the tickets of
  the admitted jobs, and connects them.

  The scheduler's model records the states it hands to its store and the job ids it hands to its
  job-done hook; \<open>sched_update\<close> carries these on to the log (\<^verbatim>\<open>WAL.Append\<close>) and to
  \<open>releaseTicket\<close>, as the code does inside the scheduler's lock. \<^verbatim>\<open>json\<close> is a parameter: the
  record \<open>codec\<close> holds the encoder of the scheduler state and the decoders of the requests.
  The tickets the controller issued are the list \<open>coIssued\<close>, a ticket is its position there.
\<close>

subsection \<open>State\<close>

record ('o, 'd, 'e) Coordinator =
  coMembership :: Membership
  coSched :: Scheduler
  coWal :: "(disk \<times> WAL) option"
  coInterval :: int
  coAdmission :: "Controller option"
  coIssued :: "Ticket list"
  coTickets :: "(string, nat) gomap"
  coEnv :: "('o, 'd, 'e) Env"
  coWorld :: "('o, 'd, 'e) World"

record Config =
  cfVnodesPerNode :: int
  cfSuspectTimeout :: int
  cfDeadTimeout :: int
  cfTaskMaxRetries :: int
  cfLeaseChunk :: int

definition New :: "Config \<Rightarrow> ('o, 'd, 'e) World \<Rightarrow> ('o, 'd, 'e) Coordinator" where
  "New cfg w =
     \<lparr>coMembership = NewMembership (NewRing (cfVnodesPerNode cfg)) (cfSuspectTimeout cfg) (cfDeadTimeout cfg),
      coSched = (let s = Scheduler.New (cfTaskMaxRetries cfg)
                 in if cfLeaseChunk cfg > 0 then SetLeaseChunk (cfLeaseChunk cfg) s else s),
      coWal = None, coInterval = 0, coAdmission = None, coIssued = [], coTickets = [], coEnv = no_env, coWorld = w\<rparr>"

text \<open>What the coordinator uses of \<^verbatim>\<open>encoding/json\<close>. A request body of type \<open>'b\<close> may be absent.\<close>

record 'b codec =
  encState :: "schedulerState \<Rightarrow> byte list"
  decState :: "byte list \<Rightarrow> schedulerState option"
  decRegister :: "'b \<Rightarrow> RegisterRequest option"
  decHeartbeat :: "'b \<Rightarrow> Heartbeat option"
  decSubmit :: "'b \<Rightarrow> SubmitJobRequest option"
  decStart :: "'b \<Rightarrow> string option"
  decRenew :: "'b \<Rightarrow> RenewLeaseRequest option"
  decResult :: "'b \<Rightarrow> ResultRequest option"

subsection \<open>Persistence\<close>

definition EnablePersistence ::
  "'b codec \<Rightarrow> open_fault \<Rightarrow> disk \<Rightarrow> int \<Rightarrow> ('o, 'd, 'e) Coordinator \<Rightarrow> ('o, 'd, 'e) Coordinator outcome" where
  "EnablePersistence cdc flt d interval c =
     (case OpenWAL flt d of
        Ok (w, rec, d1) \<Rightarrow>
          (case Restore (decState cdc) (recSnapshot rec) (recRecords rec) (coSched c) of
             Ok s \<Rightarrow> Ok (c\<lparr>coSched := AttachStore s, coWal := Some (d1, w),
                          coInterval := (if interval \<le> 0 then 30 * 10 ^ 9 else interval)\<rparr>)
           | Err e \<Rightarrow> Err (''coordinator: restore scheduler: '' @ e)
           | Panic \<Rightarrow> Panic)
      | Err e \<Rightarrow> Err (''coordinator: open wal: '' @ e)
      | Panic \<Rightarrow> Panic)"

text \<open>One record on its way to the log. A failed append is only logged.\<close>

definition wal_append :: "'b codec \<Rightarrow> append_fault \<Rightarrow> schedulerState \<Rightarrow> ('o, 'd, 'e) Coordinator \<Rightarrow> ('o, 'd, 'e) Coordinator" where
  "wal_append cdc fa st c =
     (case coWal c of None \<Rightarrow> c | Some dw \<Rightarrow> c\<lparr>coWal := Some (fst (Append fa (encState cdc st) dw))\<rparr>)"

definition checkpoint :: "'b codec \<Rightarrow> ckpt_fault \<Rightarrow> ('o, 'd, 'e) Coordinator \<Rightarrow> ('o, 'd, 'e) Coordinator" where
  "checkpoint cdc fc c =
     (case coWal c of
        None \<Rightarrow> c
      | Some dw \<Rightarrow> c\<lparr>coWal := Some (fst (Checkpoint fc (encState cdc (Snapshot (coSched c))) dw))\<rparr>)"

definition Stop :: "'b codec \<Rightarrow> ckpt_fault \<Rightarrow> ('o, 'd, 'e) Coordinator \<Rightarrow> ('o, 'd, 'e) Coordinator" where
  "Stop cdc fc c =
     (let c1 = checkpoint cdc fc c in c1\<lparr>coWal := map_option (\<lambda>(d, w). (d, Close w)) (coWal c1)\<rparr>)"

subsection \<open>Admission tickets\<close>

definition EnableAdmission :: "Controller \<Rightarrow> ('o, 'd, 'e) Coordinator \<Rightarrow> ('o, 'd, 'e) Coordinator" where
  "EnableAdmission ctrl c = c\<lparr>coAdmission := Some ctrl, coTickets := [], coSched := SetJobDoneHook (coSched c)\<rparr>"

definition trackTicket :: "string \<Rightarrow> nat \<Rightarrow> ('o, 'd, 'e) Coordinator \<Rightarrow> ('o, 'd, 'e) Coordinator" where
  "trackTicket jobID t c = c\<lparr>coTickets := AList.update jobID t (coTickets c)\<rparr>"

text \<open>\<^verbatim>\<open>Ticket.Release\<close> on the ticket at position \<open>t\<close>.\<close>

definition ticket_release :: "nat \<Rightarrow> ('o, 'd, 'e) Coordinator \<Rightarrow> ('o, 'd, 'e) Coordinator" where
  "ticket_release t c =
     (case coAdmission c of
        None \<Rightarrow> c
      | Some ctrl \<Rightarrow>
          (case Admission.Release t (coIssued c, ctrl) of
             (ts, ctrl') \<Rightarrow> c\<lparr>coIssued := ts, coAdmission := Some ctrl'\<rparr>))"

definition releaseTicket :: "string \<Rightarrow> ('o, 'd, 'e) Coordinator \<Rightarrow> ('o, 'd, 'e) Coordinator" where
  "releaseTicket jobID c =
     (let c1 = c\<lparr>coTickets := AList.delete jobID (coTickets c)\<rparr>
      in (case map_of (coTickets c) jobID of None \<Rightarrow> c1 | Some t \<Rightarrow> ticket_release t c1))"

subsection \<open>Optional collaborators\<close>

definition EnableResultCommit ::
  "(string \<Rightarrow> string \<Rightarrow> 'o \<Rightarrow> 'o \<times> string option) \<Rightarrow> (string \<Rightarrow> 'o \<Rightarrow> 'o \<times> string option)
     \<Rightarrow> ('o, 'd, 'e) Coordinator \<Rightarrow> ('o, 'd, 'e) Coordinator" where
  "EnableResultCommit copy del c = c\<lparr>coEnv := AttachCommitter (storeCommitter_Commit copy del) (coEnv c)\<rparr>"

text \<open>The default emitter only logs the event.\<close>

definition logCompletion :: "CompletionEvent list \<Rightarrow> CompletionEvent \<Rightarrow> string option" where
  "logCompletion calls ev = None"

definition EnableSideEffects ::
  "(CompletionEvent list \<Rightarrow> CompletionEvent \<Rightarrow> string option) option \<Rightarrow> MemLedger option
     \<Rightarrow> ('o, 'd, MemLedger completionSink) Coordinator \<Rightarrow> ('o, 'd, MemLedger completionSink) Coordinator" where
  "EnableSideEffects emitter ledger c =
     (let em = (case emitter of None \<Rightarrow> logCompletion | Some em \<Rightarrow> em);
          l = (case ledger of None \<Rightarrow> NewMemLedger | Some l \<Rightarrow> l)
      in c\<lparr>coEnv := AttachSideEffect (sink_Apply Claim em) (coEnv c),
           coWorld := (coWorld c)\<lparr>wEffect := \<lparr>skLedger = l, skCalls = []\<rparr>\<rparr>\<rparr>)"

definition EnableRaftCommit ::
  "(CommitDecision \<Rightarrow> 'd \<Rightarrow> 'd \<times> CommitDecision outcome) \<Rightarrow> ('o, 'd, 'e) Coordinator \<Rightarrow> ('o, 'd, 'e) Coordinator" where
  "EnableRaftCommit decide c = c\<lparr>coEnv := AttachCommitDecider decide (coEnv c)\<rparr>"

subsection \<open>Scheduler calls\<close>

definition new_calls :: "Scheduler \<Rightarrow> Scheduler \<Rightarrow> string list" where
  "new_calls s s' = (case (onJobDone s, onJobDone s') of (Some a, Some b) \<Rightarrow> drop (length a) b | _ \<Rightarrow> [])"

definition new_records :: "Scheduler \<Rightarrow> Scheduler \<Rightarrow> schedulerState list" where
  "new_records s s' = (case (store s, store s') of (Some a, Some b) \<Rightarrow> drop (length a) b | _ \<Rightarrow> [])"

text \<open>The scheduler moves to \<open>s'\<close>; its hook calls and its log records take effect.\<close>

definition sched_update ::
  "'b codec \<Rightarrow> append_fault \<Rightarrow> Scheduler \<Rightarrow> ('o, 'd, 'e) Coordinator \<Rightarrow> ('o, 'd, 'e) Coordinator" where
  "sched_update cdc fa s' c =
     fold (wal_append cdc fa) (new_records (coSched c) s')
       (fold releaseTicket (new_calls (coSched c) s') (c\<lparr>coSched := s'\<rparr>))"

subsection \<open>Background loops\<close>

text \<open>One turn of \<^verbatim>\<open>tickLoop\<close> and of \<^verbatim>\<open>failureEventLoop\<close>.\<close>

definition tick :: "int \<Rightarrow> ('o, 'd, 'e) Coordinator \<Rightarrow> ('o, 'd, 'e) Coordinator" where
  "tick now c = c\<lparr>coMembership := Tick now (coMembership c)\<rparr>"

definition failure_event :: "'b codec \<Rightarrow> append_fault \<Rightarrow> int \<Rightarrow> ('o, 'd, 'e) Coordinator \<Rightarrow> ('o, 'd, 'e) Coordinator" where
  "failure_event cdc fa now c =
     (case recv_event (coMembership c) of
        None \<Rightarrow> c
      | Some (ev, m) \<Rightarrow>
          let c1 = c\<lparr>coMembership := m\<rparr>
          in if feNewState ev = NodeDead then sched_update cdc fa (RebalanceWorker now (feNodeID ev) (coSched c1)) c1
             else c1)"

subsection \<open>HTTP\<close>

datatype json =
    JError string
  | JStatus string
  | JPending nat nat real
  | JTasks Metrics nat
  | JAdmission "Admission.Stats option"
  | JAssignments "TaskAssignment list"
  | JNodes "NodeInfo list"
  | JRing nat "(string, nat) gomap"
  | JSubmitted string int
  | JJobs "Job list"
  | JJob Job
  | JPoll "TaskAssignment option" bool
  | JRenewal LeaseRenewal
  | JDebug string

record response =
  rsStatus :: int
  rsRetryAfter :: bool
  rsBody :: json

record 'b request =
  hqMethod :: string
  hqPath :: string
  hqQuery :: "(string, string) gomap"
  hqTenant :: string
  hqBody :: "'b option"

text \<open>The values an operation reads from outside: the clock, fresh ids, the fault of the log write.\<close>

record input =
  inNow :: int
  inUuid :: "nat \<Rightarrow> string"
  inFault :: append_fault

definition writeJSON :: "int \<Rightarrow> json \<Rightarrow> response outcome" where
  "writeJSON status v = Ok \<lparr>rsStatus = status, rsRetryAfter = False, rsBody = v\<rparr>"

definition writeError :: "int \<Rightarrow> string \<Rightarrow> response outcome" where
  "writeError status msg = writeJSON status (JError msg)"

text \<open>\<^verbatim>\<open>decode\<close>, with the decoder as a parameter.\<close>

definition decode :: "('b \<Rightarrow> 'v option) \<Rightarrow> 'b option \<Rightarrow> 'v outcome" where
  "decode dec body =
     (case body of
        None \<Rightarrow> Err ''empty body''
      | Some b \<Rightarrow> (case dec b of None \<Rightarrow> Err ''invalid body'' | Some v \<Rightarrow> Ok v))"

text \<open>\<^verbatim>\<open>strconv.Atoi\<close>: an optional sign, decimal digits, within 64 bits.\<close>

definition atoi :: "string \<Rightarrow> int option" where
  "atoi s =
     (let (sgn, ds) = (case s of [] \<Rightarrow> (1, []) | c # cs \<Rightarrow>
                         if c = CHR ''-'' then (-1, cs) else if c = CHR ''+'' then (1, cs) else (1, s));
          v = sgn * int (dec_val 0 ds)
      in if ds \<noteq> [] \<and> list_all is_digit ds \<and> - (2 ^ 63) \<le> v \<and> v < 2 ^ 63 then Some v else None)"

text \<open>The result of a handler: the answer (or a panic, which the server turns into a closed
  connection) and the coordinator.\<close>

type_synonym ('o, 'd, 'e) handled = "response outcome \<times> ('o, 'd, 'e) Coordinator"

definition handleHealth :: "('o, 'd, 'e) Coordinator \<Rightarrow> ('o, 'd, 'e) handled" where
  "handleHealth c = (writeJSON 200 (JStatus ''ok''), c)"

definition handlePendingMetric :: "('o, 'd, 'e) Coordinator \<Rightarrow> ('o, 'd, 'e) handled" where
  "handlePendingMetric c =
     (let pending = PendingCount (coSched c);
          active = length (ActiveNodes (coMembership c));
          ratio = (if active > 0 then of_nat pending / of_nat active else 0)
      in (writeJSON 200 (JPending pending active ratio), c))"

definition handleTaskMetric :: "('o, 'd, 'e) Coordinator \<Rightarrow> ('o, 'd, 'e) handled" where
  "handleTaskMetric c =
     ((case Metrics_of (coSched c) of
         Ok m \<Rightarrow> writeJSON 200 (JTasks m (length (ActiveNodes (coMembership c))))
       | Err e \<Rightarrow> Err e
       | Panic \<Rightarrow> Panic), c)"

definition handleAdmissionMetric :: "('o, 'd, 'e) Coordinator \<Rightarrow> ('o, 'd, 'e) handled" where
  "handleAdmissionMetric c = (writeJSON 200 (JAdmission (map_option Admission.Stats_of (coAdmission c))), c)"

definition handleOperatorDrain :: "'b codec \<Rightarrow> input \<Rightarrow> 'b request \<Rightarrow> ('o, 'd, 'e) Coordinator \<Rightarrow> ('o, 'd, 'e) handled" where
  "handleOperatorDrain cdc i r c =
     (if hqMethod r \<noteq> ''POST'' then (writeError 405 ''method not allowed'', c)
      else let q = lookup0 [] (hqQuery r) ''n'';
               n = (if q \<noteq> [] then (case atoi q of Some v \<Rightarrow> if v > 0 then v else 10 | None \<Rightarrow> 10) else 10)
           in (case DrainPending (inNow i) n (coSched c) of
                 Ok (as, s') \<Rightarrow> (writeJSON 200 (JAssignments as), sched_update cdc (inFault i) s' c)
               | Err e \<Rightarrow> (Err e, c)
               | Panic \<Rightarrow> (Panic, c)))"

definition handleRegister :: "'b codec \<Rightarrow> input \<Rightarrow> 'b request \<Rightarrow> ('o, 'd, 'e) Coordinator \<Rightarrow> ('o, 'd, 'e) handled" where
  "handleRegister cdc i r c =
     (if hqMethod r \<noteq> ''POST'' then (writeError 405 ''method not allowed'', c)
      else case decode (decRegister cdc) (hqBody r) of
             Ok req \<Rightarrow> (writeJSON 200 (JStatus ''registered''), c\<lparr>coMembership := Register (inNow i) req (coMembership c)\<rparr>)
           | Err e \<Rightarrow> (writeError 400 e, c)
           | Panic \<Rightarrow> (Panic, c))"

definition handleHeartbeat :: "'b codec \<Rightarrow> input \<Rightarrow> 'b request \<Rightarrow> ('o, 'd, 'e) Coordinator \<Rightarrow> ('o, 'd, 'e) handled" where
  "handleHeartbeat cdc i r c =
     (if hqMethod r \<noteq> ''POST'' then (writeError 405 ''method not allowed'', c)
      else case decode (decHeartbeat cdc) (hqBody r) of
             Ok hb \<Rightarrow>
               (case HeartbeatOp (inNow i) hb (coMembership c) of
                  Ok m \<Rightarrow> (writeJSON 200 (JStatus ''ok''), c\<lparr>coMembership := m\<rparr>)
                | Err e \<Rightarrow> (writeError 404 e, c)
                | Panic \<Rightarrow> (Panic, c))
           | Err e \<Rightarrow> (writeError 400 e, c)
           | Panic \<Rightarrow> (Panic, c))"

definition handleNodes :: "('o, 'd, 'e) Coordinator \<Rightarrow> ('o, 'd, 'e) handled" where
  "handleNodes c = (writeJSON 200 (JNodes (AllNodes (coMembership c))), c)"

definition handleRing :: "('o, 'd, 'e) Coordinator \<Rightarrow> ('o, 'd, 'e) handled" where
  "handleRing c = (let ring = mring (coMembership c) in (writeJSON 200 (JRing (NodeCount ring) (Distribution ring)), c))"

text \<open>\<^verbatim>\<open>handleJobs\<close> for a \<^verbatim>\<open>POST\<close>, in the two parts between which other requests may run: admission
  and submission, then the tracking of the ticket. The first part returns the job and its ticket.\<close>

datatype submitted = Shed "response outcome" | Submitted Job "nat option"

definition submit_job :: "'b codec \<Rightarrow> input \<Rightarrow> 'b request \<Rightarrow> ('o, 'd, 'e) Coordinator \<Rightarrow> submitted \<times> ('o, 'd, 'e) Coordinator" where
  "submit_job cdc i r c =
     (case decode (decSubmit cdc) (hqBody r) of
        Err e \<Rightarrow> (Shed (writeError 400 e), c)
      | Panic \<Rightarrow> (Shed Panic, c)
      | Ok req \<Rightarrow>
          (case coAdmission c of
             None \<Rightarrow>
               (case Submit (inNow i) (inUuid i) req (coSched c) of
                  (job, s') \<Rightarrow> (Submitted job None, sched_update cdc (inFault i) s' c))
           | Some ctrl \<Rightarrow>
               let tenant = (if hqTenant r = [] then ''default'' else hqTenant r)
               in (case Admit tenant ctrl of
                     (Ok t, ctrl') \<Rightarrow>
                       let c1 = c\<lparr>coAdmission := Some ctrl', coIssued := coIssued c @ [\<lparr>tkTenant = t, tkDone = False\<rparr>]\<rparr>
                       in (case Submit (inNow i) (inUuid i) req (coSched c1) of
                             (job, s') \<Rightarrow> (Submitted job (Some (length (coIssued c))), sched_update cdc (inFault i) s' c1))
                   | (Err e, ctrl') \<Rightarrow>
                       (Shed (Ok \<lparr>rsStatus = 429, rsRetryAfter = True, rsBody = JError e\<rparr>), c\<lparr>coAdmission := Some ctrl'\<rparr>)
                   | (Panic, ctrl') \<Rightarrow> (Shed Panic, c\<lparr>coAdmission := Some ctrl'\<rparr>))))"

definition track_job :: "Job \<Rightarrow> nat option \<Rightarrow> ('o, 'd, 'e) Coordinator \<Rightarrow> ('o, 'd, 'e) handled" where
  "track_job job ticket c =
     (writeJSON 201 (JSubmitted (jID job) (jTotalTasks job)),
      case ticket of None \<Rightarrow> c | Some t \<Rightarrow> trackTicket (jID job) t c)"

definition handleJobs :: "'b codec \<Rightarrow> input \<Rightarrow> 'b request \<Rightarrow> ('o, 'd, 'e) Coordinator \<Rightarrow> ('o, 'd, 'e) handled" where
  "handleJobs cdc i r c =
     (if hqMethod r = ''POST'' then
        (case submit_job cdc i r c of
           (Shed res, c1) \<Rightarrow> (res, c1)
         | (Submitted job ticket, c1) \<Rightarrow> track_job job ticket c1)
      else if hqMethod r = ''GET'' then (writeJSON 200 (JJobs (ListJobs (coSched c))), c)
      else (writeError 405 ''method not allowed'', c))"

text \<open>\<^verbatim>\<open>strings.TrimPrefix\<close>.\<close>

definition trim_prefix :: "string \<Rightarrow> string \<Rightarrow> string" where
  "trim_prefix p s = (if take (length p) s = p then drop (length p) s else s)"

definition handleJob :: "'b request \<Rightarrow> ('o, 'd, 'e) Coordinator \<Rightarrow> ('o, 'd, 'e) handled" where
  "handleJob r c =
     (let jid = trim_prefix ''/v1/jobs/'' (hqPath r)
      in if hqMethod r \<noteq> ''GET'' then (writeError 405 ''method not allowed'', c)
         else case GetJob jid (coSched c) of
                Ok job \<Rightarrow> (writeJSON 200 (JJob job), c)
              | Err e \<Rightarrow> (writeError 404 e, c)
              | Panic \<Rightarrow> (Panic, c))"

definition handlePoll :: "'b codec \<Rightarrow> input \<Rightarrow> 'b request \<Rightarrow> ('o, 'd, 'e) Coordinator \<Rightarrow> ('o, 'd, 'e) handled" where
  "handlePoll cdc i r c =
     (if hqMethod r \<noteq> ''GET'' then (writeError 405 ''method not allowed'', c)
      else let workerID = lookup0 [] (hqQuery r) ''worker''
           in if workerID = [] then (writeError 400 ''worker query param required'', c)
              else case PollTasks (inNow i) (inUuid i 0) (mring (coMembership c)) workerID (coSched c) of
                     Ok (a, s') \<Rightarrow> (writeJSON 200 (JPoll a (a \<noteq> None)), sched_update cdc (inFault i) s' c)
                   | Err e \<Rightarrow> (writeError 500 e, c)
                   | Panic \<Rightarrow> (Panic, c))"

text \<open>The three task actions.\<close>

definition task_start :: "'b codec \<Rightarrow> input \<Rightarrow> 'b request \<Rightarrow> string \<Rightarrow> ('o, 'd, 'e) Coordinator \<Rightarrow> ('o, 'd, 'e) handled" where
  "task_start cdc i r taskID c =
     (case decode (decStart cdc) (hqBody r) of
        Ok workerID \<Rightarrow>
          (case StartTask (inNow i) taskID workerID (coSched c) of
             Ok s' \<Rightarrow> (writeJSON 200 (JStatus ''started''), sched_update cdc (inFault i) s' c)
           | Err e \<Rightarrow> (writeError 404 e, c)
           | Panic \<Rightarrow> (Panic, c))
      | Err e \<Rightarrow> (writeError 400 e, c)
      | Panic \<Rightarrow> (Panic, c))"

definition task_renew :: "'b codec \<Rightarrow> input \<Rightarrow> 'b request \<Rightarrow> string \<Rightarrow> ('o, 'd, 'e) Coordinator \<Rightarrow> ('o, 'd, 'e) handled" where
  "task_renew cdc i r taskID c =
     (case decode (decRenew cdc) (hqBody r) of
        Ok req \<Rightarrow>
          (case RenewLease taskID req (coSched c) of
             Ok (lr, s') \<Rightarrow> (writeJSON 200 (JRenewal lr), sched_update cdc (inFault i) s' c)
           | Err e \<Rightarrow> (writeError 404 e, c)
           | Panic \<Rightarrow> (Panic, c))
      | Err e \<Rightarrow> (writeError 400 e, c)
      | Panic \<Rightarrow> (Panic, c))"

definition task_result :: "'b codec \<Rightarrow> input \<Rightarrow> 'b request \<Rightarrow> string \<Rightarrow> ('o, 'd, 'e) Coordinator \<Rightarrow> ('o, 'd, 'e) handled" where
  "task_result cdc i r taskID c =
     (case decode (decResult cdc) (hqBody r) of
        Ok req \<Rightarrow>
          (case ReportResult (coEnv c) (inNow i) taskID req (coWorld c, coSched c) of
             (pc, w', s') \<Rightarrow>
               let c1 = sched_update cdc (inFault i) s' (c\<lparr>coWorld := w'\<rparr>)
               in (case pc of
                     RReturn (Ok _) \<Rightarrow> (writeJSON 200 (JStatus ''recorded''), c1)
                   | RReturn (Err e) \<Rightarrow> (writeError 404 e, c1)
                   | _ \<Rightarrow> (Panic, c1)))
      | Err e \<Rightarrow> (writeError 400 e, c)
      | Panic \<Rightarrow> (Panic, c))"

definition handleTask :: "'b codec \<Rightarrow> input \<Rightarrow> 'b request \<Rightarrow> ('o, 'd, 'e) Coordinator \<Rightarrow> ('o, 'd, 'e) handled" where
  "handleTask cdc i r c =
     (case cut (CHR ''/'') (trim_prefix ''/v1/tasks/'' (hqPath r)) of
        None \<Rightarrow> (writeError 400 ''invalid task path'', c)
      | Some (taskID, action) \<Rightarrow>
          if action = ''start'' then task_start cdc i r taskID c
          else if action = ''renew'' then task_renew cdc i r taskID c
          else if action = ''result'' then task_result cdc i r taskID c
          else (writeError 404 (''unknown action: '' @ action), c))"

subsection \<open>Routing\<close>

text \<open>\<^verbatim>\<open>API.Register\<close> and \<^verbatim>\<open>http.ServeMux\<close>: a pattern that ends in a slash matches every path below it, any
  other pattern only itself; the longest match wins.\<close>

datatype route = HHealth | HPendingMetric | HAdmissionMetric | HTaskMetric | HDrain | HRegister | HHeartbeat | HNodes
  | HRing | HJobs | HJob | HPoll | HTask | HDiag | HTrace

definition routes :: "(string \<times> route) list" where
  "routes = [(''/healthz'', HHealth), (''/v1/metrics/pending'', HPendingMetric), (''/v1/metrics/admission'', HAdmissionMetric),
     (''/v1/metrics/tasks'', HTaskMetric), (''/v1/operator/drain'', HDrain), (''/v1/cluster/register'', HRegister),
     (''/v1/cluster/heartbeat'', HHeartbeat), (''/v1/cluster/nodes'', HNodes), (''/v1/cluster/ring'', HRing),
     (''/v1/jobs'', HJobs), (''/v1/jobs/'', HJob), (''/v1/tasks/poll'', HPoll), (''/v1/tasks/'', HTask),
     (''/debug/diag'', HDiag), (''/debug/trace'', HTrace)]"

definition pattern_matches :: "string \<Rightarrow> string \<Rightarrow> bool" where
  "pattern_matches pat path \<longleftrightarrow> pat = path \<or> (pat \<noteq> [] \<and> last pat = CHR ''/'' \<and> take (length pat) path = pat)"

definition mux_route :: "string \<Rightarrow> route option" where
  "mux_route path =
     (case sort_key (\<lambda>(pat, _). - int (length pat)) (filter (\<lambda>(pat, _). pattern_matches pat path) routes) of
        [] \<Rightarrow> None
      | (_, h) # _ \<Rightarrow> Some h)"

definition serve :: "'b codec \<Rightarrow> input \<Rightarrow> 'b request \<Rightarrow> ('o, 'd, 'e) Coordinator \<Rightarrow> ('o, 'd, 'e) handled" where
  "serve cdc i r c =
     (case mux_route (hqPath r) of
        None \<Rightarrow> (writeError 404 ''404 page not found'', c)
      | Some h \<Rightarrow>
          (case h of
             HHealth \<Rightarrow> handleHealth c
           | HPendingMetric \<Rightarrow> handlePendingMetric c
           | HAdmissionMetric \<Rightarrow> handleAdmissionMetric c
           | HTaskMetric \<Rightarrow> handleTaskMetric c
           | HDrain \<Rightarrow> handleOperatorDrain cdc i r c
           | HRegister \<Rightarrow> handleRegister cdc i r c
           | HHeartbeat \<Rightarrow> handleHeartbeat cdc i r c
           | HNodes \<Rightarrow> handleNodes c
           | HRing \<Rightarrow> handleRing c
           | HJobs \<Rightarrow> handleJobs cdc i r c
           | HJob \<Rightarrow> handleJob r c
           | HPoll \<Rightarrow> handlePoll cdc i r c
           | HTask \<Rightarrow> handleTask cdc i r c
           | HDiag \<Rightarrow> (writeJSON 200 (JDebug ''diag''), c)
           | HTrace \<Rightarrow> (writeJSON 200 (JDebug ''trace''), c)))"

end
