(* ===== verification/Coord_Props.thy ===== *)
theory Coord_Props
  imports Coordinator Sched_Life
begin

section \<open>Properties of the coordinator\<close>

text \<open>
  How the components work together: the tickets of the admission controller follow the jobs of the
  scheduler, a worker that is declared dead loses its tasks, and a restart brings the scheduler
  back from the log.
\<close>

subsection \<open>The job-done hook\<close>

definition terminal :: "Job \<Rightarrow> bool" where
  "terminal j \<longleftrightarrow> jStatus j = JobCompleted \<or> jStatus j = JobFailed"

definition finished :: "Scheduler \<Rightarrow> string \<Rightarrow> bool" where
  "finished s j \<longleftrightarrow> (case map_of (jobs s) j of None \<Rightarrow> False | Some job \<Rightarrow> terminal job)"

text \<open>\<open>hooked s s'\<close>: the hook was called for exactly the jobs that finished between \<open>s\<close> and \<open>s'\<close> (and perhaps
  again for some that had finished before), and no job became unfinished.\<close>

definition hooked :: "Scheduler \<Rightarrow> Scheduler \<Rightarrow> bool" where
  "hooked s s' \<longleftrightarrow> (\<forall>j. finished s j \<longrightarrow> finished s' j) \<and> (\<forall>j. map_of (jobs s) j \<noteq> None \<longrightarrow> map_of (jobs s') j \<noteq> None)
     \<and> (case onJobDone s of
          None \<Rightarrow> onJobDone s' = None
        | Some l \<Rightarrow> (\<exists>l'. onJobDone s' = Some (l @ l') \<and> (\<forall>j \<in> set l'. finished s' j)
            \<and> (\<forall>j. finished s' j \<longrightarrow> finished s j \<or> j \<in> set l')))"

lemma hooked_refl [simp]: "hooked s s"
  by (simp add: hooked_def split: option.split)

lemma hooked_trans:
  assumes "hooked s s1" "hooked s1 s2"
  shows "hooked s s2"
proof (cases "onJobDone s")
  case None
  with assms show ?thesis by (simp add: hooked_def)
next
  case (Some l)
  with assms(1) obtain l1 where 1: "onJobDone s1 = Some (l @ l1)" "\<forall>j \<in> set l1. finished s1 j"
    "\<forall>j. finished s1 j \<longrightarrow> finished s j \<or> j \<in> set l1" by (auto simp: hooked_def)
  with assms(2) obtain l2 where 2: "onJobDone s2 = Some (l @ l1 @ l2)" "\<forall>j \<in> set l2. finished s2 j"
    "\<forall>j. finished s2 j \<longrightarrow> finished s1 j \<or> j \<in> set l2" by (auto simp: hooked_def)
  have keep: "\<forall>j. finished s j \<longrightarrow> finished s2 j" "\<forall>j. map_of (jobs s) j \<noteq> None \<longrightarrow> map_of (jobs s2) j \<noteq> None"
    "\<forall>j. finished s1 j \<longrightarrow> finished s2 j"
    using assms by (simp_all add: hooked_def)
  have "\<forall>j \<in> set (l1 @ l2). finished s2 j" using 1(2) 2(2) keep(3) by auto
  moreover have "\<forall>j. finished s2 j \<longrightarrow> finished s j \<or> j \<in> set (l1 @ l2)" using 1(3) 2(3) by auto
  ultimately show ?thesis using keep(1,2) Some 2(1) unfolding hooked_def by auto
qed

text \<open>Steps that leave the statuses of the jobs and the hook alone.\<close>

lemma hooked_quiet:
  assumes "onJobDone s' = onJobDone s" "\<And>j. map_option jStatus (map_of (jobs s') j) = map_option jStatus (map_of (jobs s) j)"
  shows "hooked s s'"
proof -
  have "finished s' j = finished s j" for j
    using assms(2) [of j] by (auto simp: finished_def terminal_def map_option_case split: option.splits)
  moreover have "map_of (jobs s) j \<noteq> None \<longrightarrow> map_of (jobs s') j \<noteq> None" for j using assms(2) [of j] by auto
  ultimately show ?thesis using assms(1) by (simp add: hooked_def split: option.split)
qed

lemma hooked_persist [simp]: "hooked s (persistLocked s') = hooked s s'"
  by (simp add: hooked_def finished_def persistLocked_def split: option.split)

lemma hooked_tasks [simp]: "hooked s (s\<lparr>tasks := ts\<rparr>)" "hooked s (s\<lparr>tasks := ts, pendingQ := q\<rparr>)" "hooked s (s\<lparr>pendingQ := q\<rparr>)"
  by (auto intro: hooked_quiet)

lemma hooked_updateJob: "hooked s (updateJob now j s)"
proof (cases "map_of (jobs s) j")
  case None
  then show ?thesis by (simp add: updateJob_def)
next
  case (Some job)
  let ?open = "0 < count_map (\<lambda>t. tJobID t = j \<and> tStatus t \<noteq> TaskDone \<and> tStatus t \<noteq> TaskFailed) (tasks s)"
  show ?thesis
  proof (cases ?open)
    case True
    with Some show ?thesis by (intro hooked_quiet) (simp_all add: updateJob_def Let_def)
  next
    case False
    have fin: "finished (updateJob now j s) x \<longleftrightarrow> x = j \<or> finished s x" for x
      using Some False by (auto simp: finished_def updateJob_def Let_def terminal_def)
    moreover have "onJobDone (updateJob now j s) = map_option (\<lambda>l. l @ [j]) (onJobDone s)"
      using Some False by (simp add: updateJob_def Let_def)
    moreover have "map_of (jobs s) x \<noteq> None \<longrightarrow> map_of (jobs (updateJob now j s)) x \<noteq> None" for x
      using Some False by (simp add: updateJob_def Let_def)
    ultimately show ?thesis by (simp add: hooked_def split: option.split)
  qed
qed

lemma hooked_tasks_updateJob: "hooked s (updateJob now j (s\<lparr>tasks := ts\<rparr>))"
  by (rule hooked_trans [OF _ hooked_updateJob]) simp

lemma hooked_rebalance_fold: "hooked s (fst (fold (rebalance_task now w) ks (s, n)))"
proof (induction ks arbitrary: s n)
  case (Cons k ks)
  obtain s1 n1 where e: "rebalance_task now w k (s, n) = (s1, n1)" by fastforce
  then have "hooked s s1"
    by (auto simp: rebalance_task_def Let_def hooked_tasks_updateJob split: option.splits if_splits)
  with e Cons.IH [of s1 n1] show ?case by (auto intro: hooked_trans)
qed simp

lemma hooked_drain: "drain_loop now ids s acc = Ok (as, s') \<Longrightarrow> hooked s s'"
proof (rule hooked_quiet)
  show "drain_loop now ids s acc = Ok (as, s') \<Longrightarrow> onJobDone s' = onJobDone s"
    by (induction now ids s acc rule: drain_loop.induct) (auto simp: Let_def split: option.splits if_splits outcome.splits)
  have "drain_loop now ids s acc = Ok (as, s') \<Longrightarrow> jobs s' = jobs s"
    by (induction now ids s acc rule: drain_loop.induct) (auto simp: Let_def split: option.splits if_splits outcome.splits)
  then show "drain_loop now ids s acc = Ok (as, s') \<Longrightarrow>
    map_option jStatus (map_of (jobs s') j) = map_option jStatus (map_of (jobs s) j)" for j by simp
qed

text \<open>A submission adds one running job.\<close>

lemma Submit_effect:
  assumes "Submit now uuid req s = (job, s')"
  shows "onJobDone s' = onJobDone s" "jID job = uuid 0" "jStatus job = JobRunning"
    "map_of (jobs s') = (map_of (jobs s))(uuid 0 \<mapsto> job)"
proof -
  have sub: "onJobDone (submit_tasks u i jb sh x) = onJobDone x \<and> jobs (submit_tasks u i jb sh x) = jobs x" for u i jb sh x
    by (induction u i jb sh x rule: submit_tasks.induct) (auto simp: Let_def)
  show "onJobDone s' = onJobDone s" "jID job = uuid 0" "jStatus job = JobRunning"
    "map_of (jobs s') = (map_of (jobs s))(uuid 0 \<mapsto> job)"
    using assms by (auto simp: Submit_def Let_def sub)
qed

lemma hooked_run_op:
  assumes wf: "sched_wf s" and ok: "op_ok ok late x s"
  shows "hooked s (run_op x s)"
proof (cases x)
  case (OpSubmit now uuid req)
  obtain job s' where r: "Submit now uuid req s = (job, s')" by fastforce
  have new: "map_of (jobs s) (uuid 0) = None" using ok OpSubmit by (simp add: fresh_uuids_def)
  have "finished s' j = finished s j" for j
    using Submit_effect [OF r] new by (auto simp: finished_def terminal_def)
  then show ?thesis using OpSubmit r Submit_effect [OF r] by (simp add: hooked_def split: option.split)
next
  case (OpPoll now u r w)
  have u: "map_of (tasks s) u = None" using ok OpPoll by simp
  from wf u show ?thesis
  proof (cases rule: PollTasks_cases [where now = now and r = r and w = w])
    case (steal k v p j a)
    have "hooked s (s\<lparr>jobs := AList.update (tJobID v) (j\<lparr>jTotalTasks := jTotalTasks j + 1\<rparr>) (jobs s), tasks := ts\<rparr>)" for ts
      using steal(6) by (intro hooked_quiet) auto
    with steal(10) OpPoll show ?thesis by simp
  qed (use OpPoll in auto)
next
  case (OpStart now k w)
  then show ?thesis by (auto simp: StartTask_def split: option.splits)
next
  case (OpRenew k req)
  then show ?thesis by (auto simp: RenewLease_def Let_def split: option.splits)
next
  case (OpReport now k req)
  then show ?thesis
    by (auto simp: report_finish_def Let_def hooked_tasks_updateJob split: option.splits)
next
  case (OpRebalance now w)
  with hooked_rebalance_fold [of s now w "map fst (tasks s)" 0] show ?thesis
    by (auto simp: RebalanceWorker_def split: prod.splits)
next
  case (OpDrain now n)
  have "hooked s s'" if "drain_loop now ids (s\<lparr>pendingQ := q\<rparr>) [] = Ok (as, s')" for ids q as s'
    by (rule hooked_trans [OF _ hooked_drain [OF that]]) simp
  with OpDrain show ?thesis by (auto simp: DrainPending_def Let_def split: outcome.splits prod.splits)
qed

lemma hooked_reorder:
  assumes "sched_wf s" "mset js = mset (jobs s)"
  shows "hooked s (s\<lparr>tasks := ts, jobs := js\<rparr>)"
  using map_of_mset [OF assms(2) [symmetric] sched_wfD(1) [OF assms(1)]] by (intro hooked_quiet) auto

text \<open>What a report does to the scheduler.\<close>

lemma ReportResult_sched:
  assumes "ReportResult env now tid req (w, s) = (pc, w', s')"
  shows "s' = s \<or> report_finish now tid req s = Ok s'"
proof -
  let ?f = "\<lambda>(pc, ws). report_step env now tid req pc ws"
  have "snd (snd ((?f ^^ n) (RValidate, w, s))) = s
     \<or> ((\<exists>r. fst ((?f ^^ n) (RValidate, w, s)) = RReturn r) \<and> report_finish now tid req s = Ok (snd (snd ((?f ^^ n) (RValidate, w, s)))))" for n
  proof (induction n)
    case (Suc n)
    obtain pc1 w1 s1 where e: "(?f ^^ n) (RValidate, w, s) = (pc1, w1, s1)" by (metis prod_cases3)
    obtain pc2 w2 s2 where e2: "report_step env now tid req pc1 (w1, s1) = (pc2, w2, s2)" by (metis prod_cases3)
    have "(\<exists>r. pc2 = RReturn r) \<and> report_finish now tid req s1 = Ok s2 \<or> s2 = s1"
      using report_step_sched [OF e2] e2 by (auto split: outcome.splits)
    moreover have "pc2 = pc1 \<and> s2 = s1" if "pc1 = RReturn r" for r using e2 that by simp
    ultimately show ?case using Suc e e2 by auto
  qed simp
  from this [of 5] assms show ?thesis by (auto simp: ReportResult_def)
qed

subsection \<open>What a request can do\<close>

text \<open>The steps of a coordinator, over the operations of its components. \<open>quiet\<close> covers what only
  concerns membership and the collaborators of a report. \<open>fa\<close> is the fault of the log writes; rebalancing and
  checkpoints belong to the background loops (\<open>bg\<close>).\<close>

inductive coord_step :: "'b codec \<Rightarrow> append_fault \<Rightarrow> bool \<Rightarrow> ('o, 'd, 'e) Coordinator \<Rightarrow> ('o, 'd, 'e) Coordinator \<Rightarrow> bool"
  for cdc fa bg where
  quiet: "coord_step cdc fa bg c (c\<lparr>coMembership := m, coWorld := w\<rparr>)"
| sched_op: "op_ok (\<lambda>_ _. True) True x (coSched c) \<Longrightarrow> (\<And>now uuid req. x \<noteq> OpSubmit now uuid req) \<Longrightarrow> bg \<or> (\<forall>now w. x \<noteq> OpRebalance now w) \<Longrightarrow>
     coord_step cdc fa bg c (sched_update cdc fa (run_op x (coSched c)) (c\<lparr>coMembership := m, coWorld := w\<rparr>))"
| submit: "coAdmission c = None \<Longrightarrow> fresh_uuids uuid (length (effective_shards req)) (coSched c) \<Longrightarrow>
     Submit now uuid req (coSched c) = (job, s') \<Longrightarrow> coord_step cdc fa bg c (sched_update cdc fa s' c)"
| reject: "coAdmission c = Some ctrl \<Longrightarrow> Admit t ctrl = (Err e, ctrl') \<Longrightarrow> coord_step cdc fa bg c (c\<lparr>coAdmission := Some ctrl'\<rparr>)"
| admit: "coAdmission c = Some ctrl \<Longrightarrow> Admit t ctrl = (Ok t', ctrl') \<Longrightarrow>
     fresh_uuids uuid (length (effective_shards req)) (coSched c) \<Longrightarrow> Submit now uuid req (coSched c) = (job, s') \<Longrightarrow>
     coord_step cdc fa bg c (trackTicket (jID job) (length (coIssued c)) (sched_update cdc fa s'
       (c\<lparr>coAdmission := Some ctrl', coIssued := coIssued c @ [\<lparr>tkTenant = t', tkDone = False\<rparr>]\<rparr>)))"
| wal: "bg \<Longrightarrow> coord_step cdc fa bg c (c\<lparr>coWal := x\<rparr>)"

text \<open>The ids a request draws are new.\<close>

definition fresh_input :: "'b codec \<Rightarrow> input \<Rightarrow> 'b request \<Rightarrow> ('o, 'd, 'e) Coordinator \<Rightarrow> bool" where
  "fresh_input cdc i r c \<longleftrightarrow> map_of (tasks (coSched c)) (inUuid i 0) = None
     \<and> (\<forall>req. decode (decSubmit cdc) (hqBody r) = Ok req \<longrightarrow> fresh_uuids (inUuid i) (length (effective_shards req)) (coSched c))"

lemma quiet_same: "coord_step cdc fa bg c c"
  using coord_step.quiet [where c = c and m = "coMembership c" and w = "coWorld c"] by simp

lemma quiet_membership: "coord_step cdc fa bg c (c\<lparr>coMembership := m\<rparr>)"
  using coord_step.quiet [where c = c and m = m and w = "coWorld c"] by simp

lemma op_step:
  assumes "op_ok (\<lambda>_ _. True) True x (coSched c)" "\<And>now uuid req. x \<noteq> OpSubmit now uuid req" "run_op x (coSched c) = s'"
    "\<And>now w. x \<noteq> OpRebalance now w"
  shows "coord_step cdc fa bg c (sched_update cdc fa s' c)"
  using coord_step.sched_op [OF assms(1,2), where fa = fa and bg = bg and m = "coMembership c" and w = "coWorld c"] assms(3,4) by simp

lemma sched_update_same: "sched_update cdc fa (coSched c) c = c"
  by (simp add: sched_update_def new_calls_def new_records_def split: option.split)

lemma coSched_release: "coSched (releaseTicket j c) = coSched c" "coSched (fold releaseTicket js c) = coSched c"
proof -
  show r: "coSched (releaseTicket j c) = coSched c" for j and c :: "('a, 'b, 'c) Coordinator"
    by (simp add: releaseTicket_def ticket_release_def Let_def split: option.splits prod.splits)
  show "coSched (fold releaseTicket js c) = coSched c" by (induction js arbitrary: c) (simp_all add: r)
qed

lemma coSched_sched_update [simp]: "coSched (sched_update cdc fa s' c) = s'"
proof -
  have "coSched (fold (wal_append cdc fa) sts c) = coSched c" for sts and c :: "('a, 'b, 'c) Coordinator"
    by (induction sts arbitrary: c) (simp_all add: wal_append_def split: option.split)
  then show ?thesis by (simp add: sched_update_def coSched_release)
qed

lemma call_steps:
  "DrainPending now n (coSched c) = Ok (as, s') \<Longrightarrow> coord_step cdc fa bg c (sched_update cdc fa s' c)"
  "map_of (tasks (coSched c)) u = None \<Longrightarrow> PollTasks now u r w (coSched c) = Ok (a, s') \<Longrightarrow> coord_step cdc fa bg c (sched_update cdc fa s' c)"
  "StartTask now k w (coSched c) = Ok s' \<Longrightarrow> coord_step cdc fa bg c (sched_update cdc fa s' c)"
  "RenewLease k req (coSched c) = Ok (lr, s') \<Longrightarrow> coord_step cdc fa bg c (sched_update cdc fa s' c)"
  by (rule op_step [where x = "OpDrain now n"], simp_all)
    (rule op_step [where x = "OpPoll now u r w"] op_step [where x = "OpStart now k w"] op_step [where x = "OpRenew k req"],
      simp_all split: option.split)+

lemma handleOperatorDrain_step: "handleOperatorDrain cdc i r c = (res, c') \<Longrightarrow> coord_step cdc (inFault i) bg c c'"
  by (auto simp: handleOperatorDrain_def Let_def quiet_same call_steps split: if_splits outcome.splits option.splits)

lemma handleRegister_step: "handleRegister cdc i r c = (res, c') \<Longrightarrow> coord_step cdc (inFault i) bg c c'"
  by (auto simp: handleRegister_def quiet_same quiet_membership split: if_splits outcome.splits)

lemma handleHeartbeat_step: "handleHeartbeat cdc i r c = (res, c') \<Longrightarrow> coord_step cdc (inFault i) bg c c'"
  by (auto simp: handleHeartbeat_def quiet_same quiet_membership split: if_splits outcome.splits)

lemma handlePoll_step:
  assumes "handlePoll cdc i r c = (res, c')" "map_of (tasks (coSched c)) (inUuid i 0) = None"
  shows "coord_step cdc (inFault i) bg c c'"
  using assms by (auto simp: handlePoll_def Let_def quiet_same call_steps split: if_splits outcome.splits)

lemma handleTask_step: 
  assumes "handleTask cdc i r c = (res, c')"
  shows "coord_step cdc (inFault i) bg c c'"
proof -
  have start: "coord_step cdc (inFault i) bg c c'" if "task_start cdc i r k c = (res, c')" for k
    using that by (auto simp: task_start_def quiet_same call_steps split: outcome.splits)
  have renew: "coord_step cdc (inFault i) bg c c'" if "task_renew cdc i r k c = (res, c')" for k
    using that by (auto simp: task_renew_def quiet_same call_steps split: outcome.splits option.splits)
  have result: "coord_step cdc (inFault i) bg c c'" if e: "task_result cdc i r k c = (res, c')" for k
  proof (cases "decode (decResult cdc) (hqBody r)")
    case (Ok req)
    obtain pc w' s' where rr: "ReportResult (coEnv c) (inNow i) k req (coWorld c, coSched c) = (pc, w', s')" by (metis prod_cases3)
    have c': "c' = sched_update cdc (inFault i) s' (c\<lparr>coWorld := w'\<rparr>)"
      using e Ok rr by (auto simp: task_result_def Let_def split: report_pc.splits outcome.splits)
    have m: "c\<lparr>coMembership := coMembership c, coWorld := w'\<rparr> = c\<lparr>coWorld := w'\<rparr>" by simp
    from ReportResult_sched [OF rr] show ?thesis
    proof
      assume "s' = coSched c"
      then show ?thesis using sched_update_same [of cdc "inFault i" "c\<lparr>coWorld := w'\<rparr>"] coord_step.quiet [where c = c and m = "coMembership c" and w = w']
        by (simp add: c')
    next
      assume "report_finish (inNow i) k req (coSched c) = Ok s'"
      then show ?thesis using coord_step.sched_op [where x = "OpReport (inNow i) k req" and c = c and m = "coMembership c" and w = w']
        by (simp add: c')
    qed
  qed (use e in \<open>auto simp: task_result_def quiet_same\<close>)
  from assms show ?thesis
    by (auto simp: handleTask_def quiet_same start renew result split: option.splits if_splits)
qed

lemma handleJobs_step:
  assumes h: "handleJobs cdc i r c = (res, c')" and f: "fresh_input cdc i r c"
  shows "coord_step cdc (inFault i) bg c c'"
proof (cases "hqMethod r = ''POST'' \<and> (\<exists>req. decode (decSubmit cdc) (hqBody r) = Ok req)")
  case False
  with h show ?thesis
    by (auto simp: handleJobs_def submit_job_def quiet_same split: if_splits outcome.splits)
next
  case True
  then obtain req where req: "hqMethod r = ''POST''" "decode (decSubmit cdc) (hqBody r) = Ok req" by blast
  have fr: "fresh_uuids (inUuid i) (length (effective_shards req)) (coSched c)" using f req by (simp add: fresh_input_def)
  obtain job s' where s: "Submit (inNow i) (inUuid i) req (coSched c) = (job, s')" by fastforce
  show ?thesis
  proof (cases "coAdmission c")
    case None
    have "c' = sched_update cdc (inFault i) s' c"
      using h None req s by (simp add: handleJobs_def submit_job_def track_job_def)
    with coord_step.submit [OF None fr s] show ?thesis by simp
  next
    case (Some ctrl)
    let ?t = "if hqTenant r = [] then ''default'' else hqTenant r"
    obtain o' ctrl' where a: "Admit ?t ctrl = (o', ctrl')" by fastforce
    show ?thesis
    proof (cases o')
      case (Ok t')
      have "c' = trackTicket (jID job) (length (coIssued c)) (sched_update cdc (inFault i) s'
          (c\<lparr>coAdmission := Some ctrl', coIssued := coIssued c @ [\<lparr>tkTenant = t', tkDone = False\<rparr>]\<rparr>))"
        using h Some req a Ok s by (simp add: handleJobs_def submit_job_def track_job_def Let_def)
      with coord_step.admit [OF Some a [unfolded Ok] fr s] show ?thesis by simp
    next
      case (Err e)
      with h Some req a coord_step.reject [OF Some, where fa = "inFault i" and cdc = cdc and bg = bg and t = ?t and e = e and ctrl' = ctrl'] show ?thesis
        by (simp add: handleJobs_def submit_job_def Let_def)
    next
      case Panic
      with a show ?thesis by (auto simp: Admit_def split: option.splits if_splits)
    qed
  qed
qed

text \<open>Every request is one of these steps.\<close>

lemma serve_step:
  assumes "serve cdc i r c = (res, c')" and "fresh_input cdc i r c"
  shows "coord_step cdc (inFault i) bg c c'"
proof (cases "mux_route (hqPath r)")
  case None
  with assms(1) show ?thesis by (simp add: serve_def quiet_same)
next
  case (Some h)
  have "map_of (tasks (coSched c)) (inUuid i 0) = None" using assms(2) by (simp add: fresh_input_def)
  with Some assms show ?thesis
    by (cases h)
      (auto simp: serve_def handleHealth_def handlePendingMetric_def handleAdmissionMetric_def handleTaskMetric_def
        handleNodes_def handleRing_def handleJob_def Let_def quiet_same handleOperatorDrain_step handleRegister_step
        handleHeartbeat_step handleJobs_step handlePoll_step handleTask_step split: outcome.splits if_splits)
qed

subsection \<open>Slots and jobs\<close>

text \<open>The tracked tickets are exactly the unreleased ones, each tracked once.\<close>

definition tickets_inv :: "('o, 'd, 'e) Coordinator \<Rightarrow> bool" where
  "tickets_inv c \<longleftrightarrow> (\<exists>ctrl. coAdmission c = Some ctrl \<and> adm_inv (coIssued c, ctrl) \<and> total ctrl = int (outstanding (coIssued c)))
     \<and> distinct (map fst (coTickets c)) \<and> distinct (map snd (coTickets c))
     \<and> set (map snd (coTickets c)) = {i. i < length (coIssued c) \<and> \<not> tkDone (coIssued c ! i)}"

lemma tickets_inv_wal [simp]:
  "tickets_inv (c\<lparr>coWal := x\<rparr>) = tickets_inv c" "tickets_inv (c\<lparr>coSched := s\<rparr>) = tickets_inv c"
  "tickets_inv (c\<lparr>coMembership := m, coWorld := w\<rparr>) = tickets_inv c"
  by (simp_all add: tickets_inv_def)

lemma set_snd_delete:
  assumes "distinct (map fst m)" "distinct (map snd m)" "map_of m k = Some i"
  shows "set (map snd (AList.delete k m)) = set (map snd m) - {i}"
  using assms
proof (induction m)
  case (Cons e m)
  obtain a b where e: "e = (a, b)" by fastforce
  show ?case
  proof (cases "a = k")
    case True
    then have "AList.delete k m = m" using Cons.prems(1) e by (intro delete_id) auto
    with True Cons.prems e show ?thesis by auto
  next
    case False
    with Cons e have "map_of m k = Some i" by simp
    then have "i \<in> snd ` set m" by (force dest: map_of_in_set)
    with False Cons e show ?thesis by auto
  qed
qed simp

lemma distinct_snd_delete: "distinct (map snd m) \<Longrightarrow> distinct (map snd (AList.delete k m))"
  by (simp add: AList.delete_eq distinct_map_filter)

lemma Release_effect:
  assumes "i < length ts" "\<not> tkDone (ts ! i)" "adm_inv (ts, ctrl)" "total ctrl = int (outstanding ts)"
  shows "\<exists>ctrl'. Admission.Release i (ts, ctrl) = (ts[i := (ts ! i)\<lparr>tkDone := True\<rparr>], ctrl')
     \<and> adm_inv (ts[i := (ts ! i)\<lparr>tkDone := True\<rparr>], ctrl') \<and> total ctrl' = int (outstanding (ts[i := (ts ! i)\<lparr>tkDone := True\<rparr>]))"
proof -
  obtain ts' ctrl' where r: "adm_run (ARelease i) (ts, ctrl) = (ts', ctrl')" by fastforce
  have "ts' = ts[i := (ts ! i)\<lparr>tkDone := True\<rparr>]" using r assms(1,2) by (auto simp: Admission.Release_def)
  with total_outstanding_step [OF assms(3,4) r] adm_inv_Release [OF assms(3), of i] r show ?thesis by auto
qed

lemma tickets_inv_release:
  assumes "tickets_inv c"
  shows "tickets_inv (releaseTicket j c) \<and> map_of (coTickets (releaseTicket j c)) = (map_of (coTickets c))(j := None)
     \<and> coSched (releaseTicket j c) = coSched c"
proof (cases "map_of (coTickets c) j")
  case None
  then have "AList.delete j (coTickets c) = coTickets c"
    by (intro delete_id) (metis map_of_eq_None_iff)
  with None assms show ?thesis by (auto simp: releaseTicket_def)
next
  case (Some i)
  let ?ts = "coIssued c"
  from assms obtain ctrl where ctrl: "coAdmission c = Some ctrl" "adm_inv (?ts, ctrl)" "total ctrl = int (outstanding ?ts)"
    and d: "distinct (map fst (coTickets c))" "distinct (map snd (coTickets c))"
    and s: "set (map snd (coTickets c)) = {i. i < length ?ts \<and> \<not> tkDone (?ts ! i)}" by (auto simp: tickets_inv_def)
  have "i \<in> set (map snd (coTickets c))" using Some by (force dest: map_of_in_set)
  then have i: "i < length ?ts" "\<not> tkDone (?ts ! i)" using s by auto
  from Release_effect [OF i ctrl(2,3)] obtain ctrl' where
    r: "Admission.Release i (?ts, ctrl) = (?ts[i := (?ts ! i)\<lparr>tkDone := True\<rparr>], ctrl')"
      "adm_inv (?ts[i := (?ts ! i)\<lparr>tkDone := True\<rparr>], ctrl')"
      "total ctrl' = int (outstanding (?ts[i := (?ts ! i)\<lparr>tkDone := True\<rparr>]))" by blast
  have c': "releaseTicket j c = c\<lparr>coTickets := AList.delete j (coTickets c), coIssued := ?ts[i := (?ts ! i)\<lparr>tkDone := True\<rparr>],
      coAdmission := Some ctrl'\<rparr>" using Some ctrl(1) r(1) by (simp add: releaseTicket_def ticket_release_def)
  have "set (map snd (AList.delete j (coTickets c))) = {k. k < length ?ts \<and> \<not> tkDone (?ts[i := (?ts ! i)\<lparr>tkDone := True\<rparr>] ! k)}"
    unfolding set_snd_delete [OF d Some] s using i by (auto simp: nth_list_update)
  with r(2,3) d show ?thesis by (simp add: c' tickets_inv_def delete_conv' distinct_delete distinct_snd_delete)
qed

lemma tickets_inv_releases:
  "tickets_inv c \<Longrightarrow> tickets_inv (fold releaseTicket js c)
     \<and> map_of (coTickets (fold releaseTicket js c)) = (\<lambda>j. if j \<in> set js then None else map_of (coTickets c) j)
     \<and> coSched (fold releaseTicket js c) = coSched c"
proof (induction js arbitrary: c)
  case (Cons j js)
  from Cons.IH [OF conjunct1 [OF tickets_inv_release [OF Cons.prems, of j]]] tickets_inv_release [OF Cons.prems, of j]
  show ?case by auto
qed simp

lemma fold_wal_append:
  "\<exists>x. fold (wal_append cdc fa) rs c = c\<lparr>coWal := x\<rparr>"
proof (induction rs arbitrary: c)
  case Nil
  show ?case by (rule exI [of _ "coWal c"]) simp
next
  case (Cons r rs)
  obtain x where x: "wal_append cdc fa r c = c\<lparr>coWal := x\<rparr>"
    by (cases "coWal c") (auto simp: wal_append_def intro: that [of "coWal c"] that)
  from Cons.IH [of "c\<lparr>coWal := x\<rparr>"] x show ?case by auto
qed

text \<open>A scheduler call releases the tickets of the jobs it finished.\<close>

lemma sched_update_tickets:
  assumes "tickets_inv c"
  shows "tickets_inv (sched_update cdc fa s' c) \<and> coSched (sched_update cdc fa s' c) = s'
     \<and> map_of (coTickets (sched_update cdc fa s' c))
       = (\<lambda>j. if j \<in> set (new_calls (coSched c) s') then None else map_of (coTickets c) j)"
proof -
  let ?c = "fold releaseTicket (new_calls (coSched c) s') (c\<lparr>coSched := s'\<rparr>)"
  obtain x where x: "sched_update cdc fa s' c = ?c\<lparr>coWal := x\<rparr>" unfolding sched_update_def using fold_wal_append by blast
  from tickets_inv_releases [of "c\<lparr>coSched := s'\<rparr>" "new_calls (coSched c) s'"] assms show ?thesis unfolding x by (simp cong: if_cong)
qed

text \<open>Tracked jobs are the unfinished ones.\<close>

definition slots_inv :: "('o, 'd, 'e) Coordinator \<Rightarrow> bool" where
  "slots_inv c \<longleftrightarrow> sched_wf (coSched c) \<and> tickets_inv c \<and> onJobDone (coSched c) \<noteq> None
     \<and> (\<forall>j. map_of (coTickets c) j \<noteq> None \<longleftrightarrow> map_of (jobs (coSched c)) j \<noteq> None \<and> \<not> finished (coSched c) j)"

lemma new_calls_hooked:
  assumes "hooked s s'" "onJobDone s \<noteq> None"
  shows "onJobDone s' \<noteq> None" "j \<in> set (new_calls s s') \<Longrightarrow> finished s' j"
    "finished s' j \<Longrightarrow> finished s j \<or> j \<in> set (new_calls s s')"
proof -
  obtain l l' where l: "onJobDone s = Some l" "onJobDone s' = Some (l @ l')" "\<forall>j \<in> set l'. finished s' j"
    "\<forall>j. finished s' j \<longrightarrow> finished s j \<or> j \<in> set l'" using assms by (auto simp: hooked_def)
  then have "new_calls s s' = l'" by (simp add: new_calls_def)
  with l show "onJobDone s' \<noteq> None" "j \<in> set (new_calls s s') \<Longrightarrow> finished s' j"
    "finished s' j \<Longrightarrow> finished s j \<or> j \<in> set (new_calls s s')" by auto
qed

text \<open>The jobs of a step that is not a submission are those there were.\<close>

lemma run_op_jobs:
  assumes wf: "sched_wf s" and ok: "op_ok ok late x s" and n: "\<And>now uuid req. x \<noteq> OpSubmit now uuid req"
  shows "map_of (jobs (run_op x s)) j = None \<longleftrightarrow> map_of (jobs s) j = None"
proof -
  have up: "map_of (jobs (updateJob now k s1)) j = None \<longleftrightarrow> map_of (jobs s1) j = None" for now k s1
    by (auto simp: updateJob_def Let_def split: option.splits)
  have reb: "map_of (jobs (fst (fold (rebalance_task now w) ks (s1, m)))) j = None \<longleftrightarrow> map_of (jobs s1) j = None" for now w ks s1 m
  proof (induction ks arbitrary: s1 m)
    case (Cons k ks)
    obtain s2 m2 where e: "rebalance_task now w k (s1, m) = (s2, m2)" by fastforce
    then have "map_of (jobs s2) j = None \<longleftrightarrow> map_of (jobs s1) j = None"
      using up by (auto simp: rebalance_task_def Let_def split: option.splits if_splits)
    with e Cons.IH [of s2 m2] show ?case by simp
  qed simp
  have dr: "jobs s2 = jobs s1" if "drain_loop now ids s1 acc = Ok (as, s2)" for now ids s1 acc as s2
    using that by (induction now ids s1 acc rule: drain_loop.induct) (auto simp: Let_def split: option.splits if_splits outcome.splits)
  show ?thesis
  proof (cases x)
    case (OpPoll now u r w)
    have "map_of (tasks s) u = None" using ok OpPoll by simp
    from wf this show ?thesis
      by (cases rule: PollTasks_cases [where now = now and r = r and w = w]) (use OpPoll in auto)
  next
    case (OpReport now k req)
    then show ?thesis using up by (auto simp: report_finish_def Let_def split: option.splits if_splits)
  next
    case (OpRebalance now w)
    with reb [of now w "map fst (tasks s)" s 0] show ?thesis by (auto simp: RebalanceWorker_def split: prod.splits)
  next
    case (OpDrain now m)
    with dr show ?thesis by (auto simp: DrainPending_def Let_def split: outcome.splits prod.splits)
  qed (use n in \<open>auto simp: StartTask_def RenewLease_def Let_def split: option.splits\<close>)
qed

lemma slots_inv_op:
  assumes inv: "slots_inv c" and ok: "op_ok (\<lambda>_ _. True) True x (coSched c)" and n: "\<And>now uuid req. x \<noteq> OpSubmit now uuid req"
  shows "slots_inv (sched_update cdc fa (run_op x (coSched c)) (c\<lparr>coMembership := m, coWorld := w\<rparr>))"
proof -
  let ?s = "coSched c" and ?s' = "run_op x (coSched c)"
  let ?c = "c\<lparr>coMembership := m, coWorld := w\<rparr>"
  have wf: "sched_wf ?s" and ti: "tickets_inv ?c" and l: "onJobDone ?s \<noteq> None"
    and eq: "\<And>j. map_of (coTickets c) j \<noteq> None \<longleftrightarrow> map_of (jobs ?s) j \<noteq> None \<and> \<not> finished ?s j"
    using inv by (auto simp: slots_inv_def)
  have h: "hooked ?s ?s'" by (rule hooked_run_op [OF wf ok])
  note nc = new_calls_hooked [OF h l]
  note jobs' = run_op_jobs [OF wf ok n]
  have keep: "finished ?s j \<Longrightarrow> finished ?s' j" for j using h by (simp add: hooked_def)
  have wf': "sched_wf ?s'" by (rule sched_wf_micros [OF run_op_micros [OF wf ok] wf])
  have tr: "(if j \<in> set (new_calls ?s ?s') then None else map_of (coTickets c) j) \<noteq> None
      \<longleftrightarrow> map_of (jobs ?s') j \<noteq> None \<and> \<not> finished ?s' j" for j
  proof (cases "j \<in> set (new_calls ?s ?s')")
    case True
    with nc(2) show ?thesis by simp
  next
    case False
    with nc(3) [of j] keep [of j] have "finished ?s' j = finished ?s j" by blast
    with False eq [of j] jobs' [of j] show ?thesis by auto
  qed
  define c' where "c' = sched_update cdc fa ?s' ?c"
  have c': "tickets_inv c'" "coSched c' = ?s'" "map_of (coTickets c') = (\<lambda>j. if j \<in> set (new_calls ?s ?s') then None else map_of (coTickets c) j)"
    using sched_update_tickets [OF ti, of cdc fa ?s'] by (simp_all add: c'_def cong: if_cong)
  have "slots_inv c'" unfolding slots_inv_def c'(2,3) using c'(1) wf' nc(1) tr by blast
  then show ?thesis by (simp add: c'_def)
qed

lemma tickets_inv_issue:
  assumes ti: "tickets_inv c" and ctrl: "coAdmission c = Some ctrl" and a: "Admit t ctrl = (Ok t', ctrl')"
    and j: "map_of (coTickets c) j = None"
  shows "tickets_inv (trackTicket j (length (coIssued c))
     (c\<lparr>coAdmission := Some ctrl', coIssued := coIssued c @ [\<lparr>tkTenant = t', tkDone = False\<rparr>]\<rparr>))"
proof -
  let ?ts = "coIssued c @ [\<lparr>tkTenant = t', tkDone = False\<rparr>]"
  have c: "adm_inv (coIssued c, ctrl)" "total ctrl = int (outstanding (coIssued c))"
    and d: "distinct (map fst (coTickets c))" "distinct (map snd (coTickets c))"
    and s: "set (map snd (coTickets c)) = {i. i < length (coIssued c) \<and> \<not> tkDone (coIssued c ! i)}"
    using ti ctrl by (auto simp: tickets_inv_def)
  have r: "adm_run (AAdmit t) (coIssued c, ctrl) = (?ts, ctrl')" using a by simp
  have i: "adm_inv (?ts, ctrl')" "total ctrl' = int (outstanding ?ts)"
    using adm_inv_run [OF c(1), of "AAdmit t"] total_outstanding_step [OF c r] r by simp_all
  have t: "AList.update j (length (coIssued c)) (coTickets c) = coTickets c @ [(j, length (coIssued c))]"
    using j by (simp add: update_new)
  have "{k. k < length ?ts \<and> \<not> tkDone (?ts ! k)} = insert (length (coIssued c)) {i. i < length (coIssued c) \<and> \<not> tkDone (coIssued c ! i)}"
    by (auto simp: nth_append less_Suc_eq)
  then have "set (map snd (coTickets c @ [(j, length (coIssued c))])) = {k. k < length ?ts \<and> \<not> tkDone (?ts ! k)}"
    using s by auto
  moreover have "distinct (map snd (coTickets c @ [(j, length (coIssued c))]))" using d(2) s by auto
  moreover have "distinct (map fst (coTickets c @ [(j, length (coIssued c))]))" using d(1) j by (force simp: map_of_eq_None_iff)
  ultimately show ?thesis using i by (simp add: tickets_inv_def trackTicket_def t)
qed

lemma tickets_inv_reject:
  assumes "tickets_inv c" "coAdmission c = Some ctrl" "Admit t ctrl = (Err e, ctrl')"
  shows "tickets_inv (c\<lparr>coAdmission := Some ctrl'\<rparr>)"
proof -
  have c: "adm_inv (coIssued c, ctrl)" "total ctrl = int (outstanding (coIssued c))" using assms(1,2) by (auto simp: tickets_inv_def)
  have "adm_run (AAdmit t) (coIssued c, ctrl) = (coIssued c, ctrl')" using assms(3) by simp
  with adm_inv_run [OF c(1), of "AAdmit t"] total_outstanding_step [OF c this] assms(1) show ?thesis by (simp add: tickets_inv_def)
qed

lemma slots_inv_admit:
  assumes inv: "slots_inv c" and ctrl: "coAdmission c = Some ctrl" and a: "Admit t ctrl = (Ok t', ctrl')"
    and f: "fresh_uuids uuid (length (effective_shards req)) (coSched c)" and r: "Submit now uuid req (coSched c) = (job, s')"
  shows "slots_inv (trackTicket (jID job) (length (coIssued c)) (sched_update cdc fa s'
     (c\<lparr>coAdmission := Some ctrl', coIssued := coIssued c @ [\<lparr>tkTenant = t', tkDone = False\<rparr>]\<rparr>)))"
proof -
  let ?s = "coSched c"
  let ?c = "c\<lparr>coAdmission := Some ctrl', coIssued := coIssued c @ [\<lparr>tkTenant = t', tkDone = False\<rparr>]\<rparr>"
  note eff = Submit_effect [OF r]
  have new: "map_of (jobs ?s) (uuid 0) = None" using f by (simp add: fresh_uuids_def)
  have nt: "map_of (coTickets c) (jID job) = None" using inv new eff(2) unfolding slots_inv_def by metis
  have "new_calls ?s s' = []" using eff(1) by (simp add: new_calls_def split: option.split)
  moreover obtain x where "fold (wal_append cdc fa) (new_records ?s s') (?c\<lparr>coSched := s'\<rparr>) = ?c\<lparr>coSched := s', coWal := x\<rparr>"
    using fold_wal_append [of cdc fa "new_records ?s s'" "?c\<lparr>coSched := s'\<rparr>"] by auto
  ultimately have c': "sched_update cdc fa s' ?c = ?c\<lparr>coSched := s', coWal := x\<rparr>" by (simp add: sched_update_def)
  have tr: "trackTicket j k (d\<lparr>coSched := s', coWal := x\<rparr>) = (trackTicket j k d)\<lparr>coSched := s', coWal := x\<rparr>" for j k d
    by (cases d) (simp add: trackTicket_def)
  have ti: "tickets_inv (trackTicket (jID job) (length (coIssued c)) ?c)"
    using tickets_inv_issue [OF _ ctrl a nt] inv by (simp add: slots_inv_def)
  have "sched_wf s'" using Submit_micro(1) [OF _ f r, of "\<lambda>_ _. True" True] inv sched_wf_micro by (auto simp: slots_inv_def)
  moreover have "finished s' j = finished ?s j" for j using eff(3,4) new by (auto simp: finished_def terminal_def)
  moreover have "\<not> finished ?s (uuid 0)" using new by (simp add: finished_def)
  ultimately show ?thesis using inv ti eff new unfolding c' tr by (auto simp: slots_inv_def trackTicket_def)
qed

lemma slots_inv_step:
  assumes "coord_step cdc fa bg c c'" and inv: "slots_inv c"
  shows "slots_inv c'"
  using assms(1)
proof cases
  case (sched_op x m w)
  show ?thesis unfolding sched_op(1) by (rule slots_inv_op [OF inv sched_op(2,3)])
next
  case (submit uuid req now job s')
  with inv show ?thesis by (auto simp: slots_inv_def tickets_inv_def)
next
  case (reject ctrl t e ctrl')
  with tickets_inv_reject [OF _ reject(2,3)] inv show ?thesis by (auto simp: slots_inv_def)
next
  case (admit ctrl t t' ctrl' uuid req now job s')
  with slots_inv_admit [OF inv admit(2-5)] show ?thesis by simp
qed (use inv in \<open>auto simp: slots_inv_def\<close>)

subsection \<open>Runs of the coordinator\<close>

text \<open>Requests, detector passes, failure events and checkpoints in any order, one at a time, with the
  scheduler's maps visited in any order.\<close>

inductive coord_run :: "'b codec \<Rightarrow> ('o, 'd, 'e) Coordinator \<Rightarrow> ('o, 'd, 'e) Coordinator \<Rightarrow> bool" for cdc c0 where
  start: "coord_run cdc c0 c0"
| request: "coord_run cdc c0 c \<Longrightarrow> fresh_input cdc i r c \<Longrightarrow> serve cdc i r c = (res, c') \<Longrightarrow> coord_run cdc c0 c'"
| ticked: "coord_run cdc c0 c \<Longrightarrow> coord_run cdc c0 (tick now c)"
| event: "coord_run cdc c0 c \<Longrightarrow> coord_run cdc c0 (failure_event cdc fa now c)"
| checkpointed: "coord_run cdc c0 c \<Longrightarrow> coord_run cdc c0 (checkpoint cdc fc c)"
| reordered: "coord_run cdc c0 c \<Longrightarrow> mset ts = mset (tasks (coSched c)) \<Longrightarrow> mset js = mset (jobs (coSched c)) \<Longrightarrow>
     coord_run cdc c0 (c\<lparr>coSched := (coSched c)\<lparr>tasks := ts, jobs := js\<rparr>\<rparr>)"

lemma failure_event_step: "coord_step cdc fa True c (failure_event cdc fa now c)"
proof (cases "recv_event (coMembership c)")
  case None
  then show ?thesis by (simp add: failure_event_def quiet_same)
next
  case (Some em)
  obtain ev m where em: "em = (ev, m)" by fastforce
  show ?thesis
  proof (cases "feNewState ev = NodeDead")
    case True
    with Some em coord_step.sched_op [where x = "OpRebalance now (feNodeID ev)" and c = c and m = m and w = "coWorld c" and fa = fa]
    show ?thesis by (simp add: failure_event_def)
  next
    case False
    with Some em show ?thesis by (simp add: failure_event_def quiet_membership)
  qed
qed

lemma checkpoint_step: "coord_step cdc fa True c (checkpoint cdc fc c)"
  by (auto simp: checkpoint_def quiet_same coord_step.wal split: option.split)

lemma coord_run_invariant:
  assumes "coord_run cdc c0 c" and "I c0" and step: "\<And>fa c c'. coord_step cdc fa True c c' \<Longrightarrow> I c \<Longrightarrow> I c'"
    and reorder: "\<And>c ts js. mset ts = mset (tasks (coSched c)) \<Longrightarrow> mset js = mset (jobs (coSched c)) \<Longrightarrow> I c \<Longrightarrow>
      I (c\<lparr>coSched := (coSched c)\<lparr>tasks := ts, jobs := js\<rparr>\<rparr>)"
  shows "I c"
  using assms(1)
proof induction
  case (request c i r res c')
  with step [OF serve_step [OF request.hyps(3,2)]] show ?case by blast
next
  case (ticked c now)
  with step [OF quiet_membership] show ?case by (simp add: tick_def)
next
  case (event c fa now)
  with step [OF failure_event_step] show ?case by blast
next
  case (checkpointed c fc)
  with step [OF checkpoint_step] show ?case by blast
next
  case (reordered c ts js)
  with reorder show ?case by blast
qed (use assms(2) in blast)

lemma slots_inv_reorder:
  assumes "mset ts = mset (tasks (coSched c))" "mset js = mset (jobs (coSched c))" "slots_inv c"
  shows "slots_inv (c\<lparr>coSched := (coSched c)\<lparr>tasks := ts, jobs := js\<rparr>\<rparr>)"
proof -
  have wf: "sched_wf (coSched c)" using assms(3) by (simp add: slots_inv_def)
  have "map_of js = map_of (jobs (coSched c))" using map_of_mset [OF assms(2) [symmetric] sched_wfD(1) [OF wf]] by simp
  moreover have "sched_wf ((coSched c)\<lparr>tasks := ts, jobs := js\<rparr>)"
    by (rule sched_wf_micro [OF sched_micro.reorder wf]) (simp_all add: assms)
  ultimately show ?thesis using assms(3) by (simp add: slots_inv_def finished_def)
qed

lemma slots_inv_start: "slots_inv (EnableAdmission (with_classes cls (Admission.New n)) (New cfg w))"
proof -
  let ?ctrl = "with_classes cls (Admission.New n)"
  have a: "adm_inv ([], ?ctrl)" "inflight ?ctrl = []"
    using with_classes_inv [OF adm_inv_New, of cls n] by (auto simp: Admission.New_def)
  then have t: "total ?ctrl = 0" by (simp add: adm_inv_def)
  have "sched_wf (SetJobDoneHook (SetLeaseChunk k (Scheduler.New mr)))" for k mr
    by (simp add: sched_wf_def SetJobDoneHook_def SetLeaseChunk_def Scheduler.New_def jcore_def)
  from this [of "cfLeaseChunk cfg"] this [of 0] a t show ?thesis
    by (auto simp: slots_inv_def tickets_inv_def EnableAdmission_def New_def Let_def SetJobDoneHook_def outstanding_def
        SetLeaseChunk_def Scheduler.New_def)
qed

lemma outstanding_card: "outstanding ts = card {i. i < length ts \<and> \<not> tkDone (ts ! i)}"
  by (simp add: outstanding_def length_filter_conv_card)


text \<open>A request format for the examples.\<close>

datatype demo_body = BSubmit SubmitJobRequest | BResult ResultRequest

definition demo_codec :: "demo_body codec" where
  "demo_codec = \<lparr>encState = (\<lambda>_. []), decState = (\<lambda>_. None), decRegister = (\<lambda>_. None), decHeartbeat = (\<lambda>_. None),
     decSubmit = (\<lambda>b. case b of BSubmit r \<Rightarrow> Some r | _ \<Rightarrow> None), decStart = (\<lambda>_. None), decRenew = (\<lambda>_. None),
     decResult = (\<lambda>b. case b of BResult r \<Rightarrow> Some r | _ \<Rightarrow> None)\<rparr>"

definition demo_coord :: "(unit, unit, unit) Coordinator" where
  "demo_coord = EnableAdmission (with_classes [(''default'', 1)] (Admission.New 4))
     (New \<lparr>cfVnodesPerNode = 1, cfSuspectTimeout = 5, cfDeadTimeout = 10, cfTaskMaxRetries = 0, cfLeaseChunk = 2\<rparr>
       \<lparr>wStore = (), wDecider = (), wEffect = ()\<rparr>)"

definition demo_input :: input where
  "demo_input = \<lparr>inNow = 1, inUuid = demo_uuid, inFault = AppendOk\<rparr>"

definition demo_submit :: "demo_body request" where
  "demo_submit = \<lparr>hqMethod = ''POST'', hqPath = ''/v1/jobs'', hqQuery = [], hqTenant = [], hqBody = Some (BSubmit demo_req)\<rparr>"


end
