(* ===== verification/Sched_Live.thy ===== *)
theory Sched_Live
  imports Coord_Props
begin

section \<open>Every job settles\<close>

text \<open>
  Progress of the scheduler. The work that is left is a number: what the retries of a task and the splits of its range can still
  cost. No operation but a submission raises it, and every operation that hands a task out or ends an attempt lowers it, so that only
  a bounded number of them can happen. As long as a job is not settled one of them is possible: a task of it is in flight, whose report is
  one, or a task is pending, and then the poll of any worker is one.
\<close>

subsection \<open>The work that is left\<close>

definition stage :: "Task \<Rightarrow> nat" where
  "stage t = (if tStatus t = TaskPending then 2 else if in_flight t then 1 else 0)"

definition ended :: "Task \<Rightarrow> bool" where
  "ended t \<longleftrightarrow> tStatus t = TaskDone \<or> tStatus t = TaskFailed"

lemma ended_stage: "ended t \<longleftrightarrow> stage t = 0"
  by (cases "tStatus t") (auto simp: ended_def stage_def in_flight_def)

text \<open>The objects of a task; for a task whose end is not known yet, those of its shard.\<close>

definition span :: "(string \<Rightarrow> string \<Rightarrow> int) \<Rightarrow> Task \<Rightarrow> nat" where
  "span sz t = nat ((if tRangeEnd t < 0 then sz (tJobID t) (tShard t) else tRangeEnd t) - tRangeStart t)"

definition task_work :: "(string \<Rightarrow> string \<Rightarrow> int) \<Rightarrow> Task \<Rightarrow> nat" where
  "task_work sz t = (3 * nat (tMaxRetries t) + 2) * (span sz t - 1) + 3 * nat (tMaxRetries t - tRetries t) + stage t"

definition work_left :: "(string \<Rightarrow> string \<Rightarrow> int) \<Rightarrow> Scheduler \<Rightarrow> nat" where
  "work_left sz s = sum_map (task_work sz) (tasks s)"

text \<open>What the work does not tell apart.\<close>

definition same_stages :: "Scheduler \<Rightarrow> Scheduler \<Rightarrow> bool" where
  "same_stages s s' \<longleftrightarrow> (\<forall>k. map_option (\<lambda>t. (stage t, tRetries t)) (map_of (tasks s') k) = map_option (\<lambda>t. (stage t, tRetries t)) (map_of (tasks s) k))"

lemma task_work_step:
  assumes "task_step (honest sz c) False s t t'"
  shows "task_work sz t' \<le> task_work sz t \<and> (task_work sz t' = task_work sz t \<longrightarrow> stage t' = stage t \<and> tRetries t' = tRetries t)"
  using assms
proof cases
  case (assign w now)
  then show ?thesis by (simp add: task_work_def span_def stage_def in_flight_def)
next
  case (start now)
  then show ?thesis by (auto simp: task_work_def span_def stage_def in_flight_def)
next
  case (renew req)
  have "span sz t' = span sz t" using renew by (simp add: span_def renew_RangeEnd honest_def)
  with renew show ?thesis by (simp add: task_work_def stage_def in_flight_def)
next
  case (retry fin err)
  have "nat (tMaxRetries t - tRetries t) = Suc (nat (tMaxRetries t - (tRetries t + 1)))" using retry by simp
  with retry show ?thesis by (simp add: task_work_def span_def stage_def resetLeaseLocked_def)
next
  case (finish st fin w err)
  then show ?thesis by (auto simp: task_work_def span_def stage_def in_flight_def)
qed

lemma task_work_split:
  assumes "in_flight v" "tRangeStart v \<le> tGranted v" "tGranted v < p" "p < tRangeEnd v" "0 \<le> tRangeStart v"
    and "t = grantLocked s ((stolen_half u v p)\<lparr>tStatus := TaskAssigned, tWorkerID := w, tAssignedAt := Some now\<rparr>)"
  shows "task_work sz (kept_half v p) + task_work sz t < task_work sz v"
proof -
  let ?K = "3 * nat (tMaxRetries v) + 2"
  have v: "span sz v - 1 = (span sz (kept_half v p) - 1) + (span sz t - 1) + 1"
    using assms(2-6) by (simp add: span_def)
  have "task_work sz t = ?K * (span sz t - 1) + 3 * nat (tMaxRetries v) + 1"
    using assms(6) by (simp add: task_work_def stage_def in_flight_def)
  moreover have "task_work sz (kept_half v p) = ?K * (span sz (kept_half v p) - 1) + 3 * nat (tMaxRetries v - tRetries v) + stage v"
    by (simp add: task_work_def stage_def in_flight_def kept_half_def)
  moreover have "task_work sz v = ?K * (span sz (kept_half v p) - 1) + ?K * (span sz t - 1) + ?K + 3 * nat (tMaxRetries v - tRetries v) + stage v"
    unfolding task_work_def v by (simp add: distrib_left)
  ultimately show ?thesis by simp
qed

lemma work_left_update:
  assumes "distinct (map fst m)" "map_of m k = Some t"
  shows "sum_map (task_work sz) (AList.update k t' m) + task_work sz t = sum_map (task_work sz) m + task_work sz t'"
  using assms
proof (induction m)
  case (Cons e m)
  then show ?case by (cases e) (auto simp: update_conv')
qed simp

lemma work_left_insert: "map_of m u = None \<Longrightarrow> sum_map (task_work sz) (AList.update u t m) = sum_map (task_work sz) m + task_work sz t"
  by (simp add: update_new sum_map_def)

lemma work_micro:
  assumes m: "sched_micro (honest sz c) False s s'" and wf: "sched_wf s" and l: "leases_ok sz c s"
    and nosub: "dom (map_of (jobs s')) = dom (map_of (jobs s))"
  shows "work_left sz s' \<le> work_left sz s \<and> (work_left sz s' = work_left sz s \<longrightarrow> same_stages s s')"
  using m
proof cases
  case (one_task k t t')
  note w = task_work_step [OF one_task(2)] work_left_update [OF sched_wfD(2) [OF wf] one_task(1), of sz t']
  then show ?thesis using one_task(1,3) by (auto simp: work_left_def same_stages_def)
next
  case (split k v p u j now w)
  let ?t = "grantLocked s ((stolen_half u v p)\<lparr>tStatus := TaskAssigned, tWorkerID := w, tAssignedAt := Some now\<rparr>)"
  have "lease_inv sz c v" using l split(2) by (simp add: leases_ok_def)
  then have v: "tRangeStart v \<le> tGranted v" "0 \<le> tRangeStart v" by (auto simp: lease_inv_def lease_ok_def)
  have less: "task_work sz (kept_half v p) + task_work sz ?t < task_work sz v"
    by (rule task_work_split [OF split(3) v(1) split(4,5) v(2) refl])
  have "k \<noteq> u" using split by auto
  then have "work_left sz s' + task_work sz v = work_left sz s + task_work sz (kept_half v p) + task_work sz ?t"
    using work_left_update [OF sched_wfD(2) [OF wf] split(2), of sz "kept_half v p"] split(1,6)
    by (simp add: work_left_def work_left_insert)
  with less show ?thesis by simp
next
  case (submit job uuid)
  then have "jID job \<in> dom (map_of (jobs s'))" "jID job \<notin> dom (map_of (jobs s))" by auto
  with nosub show ?thesis by simp
next
  case unqueue
  then show ?thesis by (simp add: work_left_def same_stages_def)
next
  case reorder
  have "map_of (tasks s') = map_of (tasks s)" using map_of_mset [OF reorder(1) [symmetric] sched_wfD(2) [OF wf]] by simp
  moreover have "sum_map (task_work sz) (tasks s') = sum_map (task_work sz) (tasks s)"
    unfolding sum_map_def sum_mset_sum_list [symmetric] mset_map reorder(1) ..
  ultimately show ?thesis by (simp add: work_left_def same_stages_def)
qed

text \<open>Jobs are never dropped, so a run that ends with the jobs it started with admitted none.\<close>

lemma micro_jobs: "sched_micro ok late s s' \<Longrightarrow> sched_wf s \<Longrightarrow> dom (map_of (jobs s)) \<subseteq> dom (map_of (jobs s'))"
proof (induction rule: sched_micro.induct)
  case (one_task s k t t' s')
  have "dom (jcore s') = dom (jcore s)" using one_task by simp
  then show ?case by (auto simp: jcore_def dom_def)
next
  case (reorder s' s)
  then show ?case using map_of_mset [OF reorder(2) [symmetric] sched_wfD(1)] by (metis order_refl)
qed auto

lemma work_micros:
  assumes "micros (honest sz c) False s s'" "sched_wf s" "leases_ok sz c s" "sizes_ok sz c" "dom (map_of (jobs s')) = dom (map_of (jobs s))"
  shows "work_left sz s' \<le> work_left sz s \<and> (work_left sz s' = work_left sz s \<longrightarrow> same_stages s s')"
  using assms
proof (induction rule: converse_rtranclp_induct)
  case base
  then show ?case by (simp add: same_stages_def)
next
  case (step s s1)
  have wf1: "sched_wf s1" by (rule sched_wf_micro [OF step(1,4)])
  have l1: "leases_ok sz c s1" by (rule leases_ok_micro [OF step(1,4,5,6)])
  have "dom (map_of (jobs s1)) \<subseteq> dom (map_of (jobs s'))" using step(2) wf1
    by (induction rule: converse_rtranclp_induct) (use micro_jobs sched_wf_micro in \<open>blast+\<close>)
  with micro_jobs [OF step(1,4)] step.prems(4) have d: "dom (map_of (jobs s1)) = dom (map_of (jobs s))" "dom (map_of (jobs s')) = dom (map_of (jobs s1))"
    by auto
  from work_micro [OF step(1,4,5) d(1)] step.IH [OF wf1 l1 step.prems(3) d(2)] show ?case by (auto simp: same_stages_def)
qed

subsection \<open>Operations that make progress\<close>

fun productive :: "sched_op \<Rightarrow> Scheduler \<Rightarrow> bool" where
  "productive (OpPoll now u r w) s = (case PollTasks now u r w s of Ok (Some a, _) \<Rightarrow> True | _ \<Rightarrow> False)"
| "productive (OpReport now k req) s = (case map_of (tasks s) k of Some t \<Rightarrow> \<not> ended t | None \<Rightarrow> False)"
| "productive (OpRebalance now w) s = list_ex (\<lambda>(k, t). in_flight t \<and> tWorkerID t = w) (tasks s)"
| "productive (OpDrain now n) s = (case DrainPending now n s of Ok (as, _) \<Rightarrow> as \<noteq> [] | _ \<Rightarrow> False)"
| "productive _ s = False"

lemma not_same_stages:
  assumes "map_of (tasks s) k = Some t" "map_of (tasks s') k = Some t'" "(stage t', tRetries t') \<noteq> (stage t, tRetries t)"
  shows "\<not> same_stages s s'"
proof
  assume "same_stages s s'"
  then have "map_option (\<lambda>t. (stage t, tRetries t)) (map_of (tasks s') k) = map_option (\<lambda>t. (stage t, tRetries t)) (map_of (tasks s) k)"
    unfolding same_stages_def by blast
  with assms show False by simp
qed

lemma drain_moves:
  assumes "drain_loop now ids s acc = Ok (as, s')"
  shows "(\<forall>k t. map_of (tasks s) k = Some t \<longrightarrow> tStatus t \<noteq> TaskPending \<longrightarrow> map_of (tasks s') k = Some t)
    \<and> (\<forall>k t. map_of (tasks s) k = Some t \<longrightarrow> (\<exists>t'. map_of (tasks s') k = Some t' \<and> tJobID t' = tJobID t \<and> (ended t' \<longrightarrow> ended t)))
    \<and> (as \<noteq> acc \<longrightarrow> (\<exists>k t t'. map_of (tasks s) k = Some t \<and> tStatus t = TaskPending \<and> map_of (tasks s') k = Some t' \<and> in_flight t'))"
  using assms
proof (induction now ids s acc rule: drain_loop.induct)
  case (1 now s acc)
  then show ?case by auto
next
  case (2 now tid ids s acc)
  show ?case
  proof (cases "\<exists>t. map_of (tasks s) tid = Some t \<and> tStatus t = TaskPending \<and> map_of (jobs s) (tJobID t) \<noteq> None")
    case False
    then have "drain_loop now ids s acc = Ok (as, s')" using 2(5) by (auto split: option.splits if_splits)
    note run = this
    show ?thesis
    proof (cases "map_of (tasks s) tid")
      case None
      from 2(1) [OF None run] show ?thesis .
    next
      case (Some t)
      show ?thesis
      proof (cases "tStatus t = TaskPending")
        case True
        with Some False have "map_of (jobs s) (tJobID t) = None" by blast
        from 2(3) [OF Some _ this run] True show ?thesis by simp
      next
        case np: False
        from 2(2) [OF Some np run] show ?thesis .
      qed
    qed
  next
    case True
    then obtain t where t: "map_of (tasks s) tid = Some t" "tStatus t = TaskPending" "map_of (jobs s) (tJobID t) \<noteq> None" by blast
    define t1 where "t1 = grantLocked s (t\<lparr>tStatus := TaskAssigned, tAssignedAt := Some now\<rparr>)"
    define s1 where "s1 = s\<lparr>tasks := AList.update tid t1 (tasks s)\<rparr>"
    obtain a where a: "assignmentFor s1 t1 = Ok a" using t by (auto simp: assignmentFor_def s1_def t1_def)
    have run: "drain_loop now ids s1 (acc @ [a]) = Ok (as, s')"
      using 2(5) t a by (simp add: t1_def [symmetric] s1_def [symmetric] Let_def)
    have t1: "tStatus t1 = TaskAssigned" "tJobID t1 = tJobID t" by (simp_all add: t1_def)
    have ih: "(\<forall>k t. map_of (tasks s1) k = Some t \<longrightarrow> tStatus t \<noteq> TaskPending \<longrightarrow> map_of (tasks s') k = Some t)
      \<and> (\<forall>k t. map_of (tasks s1) k = Some t \<longrightarrow> (\<exists>t'. map_of (tasks s') k = Some t' \<and> tJobID t' = tJobID t \<and> (ended t' \<longrightarrow> ended t)))"
      using 2(4) [OF t(1) _ _ t1_def s1_def a run] t by auto
    have k: "map_of (tasks s') tid = Some t1" using ih t1 by (simp add: s1_def)
    have other: "map_of (tasks s1) x = map_of (tasks s) x" if "x \<noteq> tid" for x using that by (simp add: s1_def)
    have c1: "map_of (tasks s') x = Some y" if "map_of (tasks s) x = Some y" "tStatus y \<noteq> TaskPending" for x y
      using that t ih other [of x] by (cases "x = tid") auto
    have c2: "\<exists>t'. map_of (tasks s') x = Some t' \<and> tJobID t' = tJobID y \<and> (ended t' \<longrightarrow> ended y)" if "map_of (tasks s) x = Some y" for x y
    proof (cases "x = tid")
      case True
      with that t k t1 show ?thesis by (simp add: ended_def)
    next
      case False
      with that ih other [of x] show ?thesis by simp
    qed
    have "in_flight t1" using t1 by (simp add: in_flight_def)
    with c1 c2 k t show ?thesis by blast
  qed
qed

lemma rebalance_moves:
  assumes "distinct ks" "k \<in> set ks" "map_of (tasks s) k = Some t" "in_flight t" "tWorkerID t = w"
  shows "\<exists>t'. map_of (tasks (fst (fold (rebalance_task now w) ks (s, n)))) k = Some t' \<and> (stage t', tRetries t') \<noteq> (stage t, tRetries t)"
  using assms
proof (induction ks arbitrary: s n)
  case (Cons x ks)
  obtain s1 n1 where e: "rebalance_task now w x (s, n) = (s1, n1)" by fastforce
  show ?case
  proof (cases "x = k")
    case True
    obtain s2 n2 where f: "fold (rebalance_task now w) ks (s1, n1) = (s2, n2)" by fastforce
    have "map_of (tasks s2) k = map_of (tasks s1) k" using rebalance_fold_clears [OF f] Cons.prems(1) True by auto
    moreover have "\<exists>t'. map_of (tasks s1) k = Some t' \<and> (stage t', tRetries t') \<noteq> (stage t, tRetries t)"
      using e Cons.prems(3-5) True
      by (auto simp: rebalance_task_def Let_def stage_def in_flight_def split: if_splits)
    ultimately show ?thesis using e f by simp
  next
    case False
    have "map_of (tasks s1) k = Some t" using rebalance_task_effect(1) [OF e, of k] False Cons.prems(3) by simp
    with Cons.IH [of s1 n1] Cons.prems False e show ?thesis by auto
  qed
qed simp

lemma productive_moves:
  assumes wf: "sched_wf s" and ok: "op_ok ok late x s" and p: "productive x s"
  shows "\<not> same_stages s (run_op x s)"
proof (cases x)
  case (OpPoll now u r w)
  have u: "map_of (tasks s) u = None" using ok OpPoll by simp
  from wf u show ?thesis
  proof (cases rule: PollTasks_cases [where now = now and r = r and w = w])
    case idle
    then show ?thesis using p OpPoll by simp
  next
    case (pending i t a)
    let ?k = "pendingQ s ! i"
    have "map_of (tasks (run_op x s)) ?k = Some (assigned_to s w now t)" using OpPoll pending by simp
    moreover have "stage (assigned_to s w now t) \<noteq> stage t" using pending by (simp add: stage_def in_flight_def)
    ultimately show ?thesis using pending(3) by (intro not_same_stages) auto
  next
    case (steal k v q j a)
    have "map_of (tasks (run_op x s)) u \<noteq> None" using OpPoll steal by simp
    with u show ?thesis unfolding same_stages_def by (intro notI) (drule spec [of _ u], simp)
  qed
next
  case (OpReport now k req)
  obtain t where t: "map_of (tasks s) k = Some t" "\<not> ended t" using p OpReport by (auto split: option.splits)
  obtain t' where "map_of (tasks (run_op x s)) k = Some t'" "(stage t', tRetries t') \<noteq> (stage t, tRetries t)"
  proof (cases "rqError req \<noteq> [] \<and> tRetries t < tMaxRetries t")
    case True
    with t OpReport show thesis by (intro that) (auto simp: report_finish_def ended_def resetLeaseLocked_def Let_def)
  next
    case False
    with t OpReport have "\<exists>t'. map_of (tasks (run_op x s)) k = Some t' \<and> ended t'" by (auto simp: report_finish_def ended_def Let_def)
    with t(2) that show thesis unfolding ended_stage by auto
  qed
  with t show ?thesis by (intro not_same_stages) auto
next
  case (OpRebalance now w)
  obtain k t where t: "(k, t) \<in> set (tasks s)" "in_flight t" "tWorkerID t = w" using p OpRebalance by (auto simp: list_ex_iff)
  then have k: "map_of (tasks s) k = Some t" "k \<in> set (map fst (tasks s))" using sched_wfD(2) [OF wf] by (simp, force)
  obtain t' where "map_of (tasks (run_op x s)) k = Some t'" "(stage t', tRetries t') \<noteq> (stage t, tRetries t)"
  proof -
    have "tasks (run_op x s) = tasks (fst (fold (rebalance_task now w) (map fst (tasks s)) (s, 0)))"
      using OpRebalance by (simp add: RebalanceWorker_def split: prod.split)
    then show thesis using rebalance_moves [OF sched_wfD(2) [OF wf] k(2,1) t(2,3), of now 0] that by metis
  qed
  with k show ?thesis by (intro not_same_stages) auto
next
  case (OpDrain now n)
  then obtain as s1 q where d: "DrainPending now n s = Ok (as, s1)" "as \<noteq> []" using p by (auto split: outcome.splits prod.splits)
  then obtain ids q s2 where l: "drain_loop now ids (s\<lparr>pendingQ := q\<rparr>) [] = Ok (as, s2)" "tasks s1 = tasks s2"
    by (auto simp: DrainPending_def Let_def split: outcome.splits prod.splits if_splits)
  from drain_moves [OF l(1)] d(2) obtain k t t' where "map_of (tasks s) k = Some t" "tStatus t = TaskPending" "map_of (tasks s2) k = Some t'" "in_flight t'"
    by auto
  then show ?thesis using OpDrain d(1) l(2) by (intro not_same_stages [of s k t]) (auto simp: stage_def in_flight_def)
qed (use p in auto)

text \<open>An operation other than a submission never raises the work that is left, and one that makes progress lowers it.\<close>

lemma work_run_op:
  assumes wf: "sched_wf s" and l: "leases_ok sz c s" "sizes_ok sz c" and ok: "op_ok (honest sz c) False x s"
    and n: "\<And>now uuid req. x \<noteq> OpSubmit now uuid req"
  shows "work_left sz (run_op x s) + (if productive x s then 1 else 0) \<le> work_left sz s"
proof -
  have "dom (map_of (jobs (run_op x s))) = dom (map_of (jobs s))" using run_op_jobs [OF wf ok n] by (auto simp: dom_def)
  from work_micros [OF run_op_micros [OF wf ok] wf l this] productive_moves [OF wf ok]
  show ?thesis by (cases "work_left sz (run_op x s) = work_left sz s") auto
qed

fun progress :: "sched_op list \<Rightarrow> Scheduler \<Rightarrow> nat" where
  "progress [] s = 0"
| "progress (x # xs) s = (if productive x s then 1 else 0) + progress xs (run_op x s)"

definition no_submission :: "sched_op \<Rightarrow> bool" where
  "no_submission x = (case x of OpSubmit _ _ _ \<Rightarrow> False | _ \<Rightarrow> True)"

lemma progress_bounded:
  assumes "reachable (honest sz c) False c s" "sizes_ok sz c" "ops_ok (honest sz c) False xs s" "list_all no_submission xs"
  shows "work_left sz (fold run_op xs s) + progress xs s \<le> work_left sz s"
  using assms
proof (induction xs arbitrary: s)
  case (Cons x xs)
  have n: "x \<noteq> OpSubmit now uuid req" for now uuid req using Cons.prems(4) by (auto simp: no_submission_def)
  have ok: "op_ok (honest sz c) False x s" using Cons.prems(3) by simp
  from Cons.IH [OF reachable.step [OF Cons.prems(1) ok] Cons.prems(2)] Cons.prems(3,4)
    work_run_op [OF reachable_wf [OF Cons.prems(1)] reachable_leases_ok [OF Cons.prems(1,2)] Cons.prems(2) ok n]
  show ?case by simp
qed simp

subsection \<open>A job without open tasks is settled\<close>

definition all_ended :: "Scheduler \<Rightarrow> string \<Rightarrow> bool" where
  "all_ended s j \<longleftrightarrow> (\<forall>k t. map_of (tasks s) k = Some t \<longrightarrow> tJobID t = j \<longrightarrow> ended t)"

definition settled_ok :: "Scheduler \<Rightarrow> bool" where
  "settled_ok s \<longleftrightarrow> (\<forall>j. map_of (jobs s) j \<noteq> None \<longrightarrow> all_ended s j \<longrightarrow> finished s j)"

text \<open>Open tasks stay open: then nothing settles, and nothing has to.\<close>

definition keeps_open :: "Scheduler \<Rightarrow> Scheduler \<Rightarrow> bool" where
  "keeps_open s s' \<longleftrightarrow> (\<forall>k t. map_of (tasks s) k = Some t \<longrightarrow> \<not> ended t \<longrightarrow> (\<exists>t'. map_of (tasks s') k = Some t' \<and> tJobID t' = tJobID t \<and> \<not> ended t'))"

lemma settled_keeps_open:
  assumes "settled_ok s" "hooked s s'" "keeps_open s s'" "\<And>j. map_of (jobs s') j \<noteq> None \<Longrightarrow> map_of (jobs s) j \<noteq> None"
  shows "settled_ok s'"
  unfolding settled_ok_def
proof (intro allI impI)
  fix j assume "map_of (jobs s') j \<noteq> None" "all_ended s' j"
  then have "map_of (jobs s) j \<noteq> None" "all_ended s j" using assms(3,4) by (auto simp: keeps_open_def all_ended_def) blast
  with assms(1,2) show "finished s' j" by (auto simp: settled_ok_def hooked_def)
qed

lemma updateJob_finishes:
  assumes "distinct (map fst (tasks s))" "all_ended s j" "map_of (jobs s) j \<noteq> None"
  shows "finished (updateJob now j s) j"
proof -
  have "count_map (\<lambda>t. tJobID t = j \<and> tStatus t \<noteq> TaskDone \<and> tStatus t \<noteq> TaskFailed) (tasks s) = 0"
    using assms(1,2) map_of_eq_Some_iff [OF assms(1)] by (auto simp: count_map_zero all_ended_def ended_def)
  with assms(3) show ?thesis by (auto simp: finished_def updateJob_def terminal_def Let_def)
qed

text \<open>One task ended and its job brought up to date.\<close>

lemma settled_end_task:
  assumes inv: "settled_ok s" and d: "distinct (map fst (tasks s))" and t: "map_of (tasks s) k = Some t" "tJobID t' = tJobID t"
    and s': "s' = updateJob now (tJobID t) (s\<lparr>tasks := AList.update k t' (tasks s)\<rparr>)"
  shows "settled_ok s'"
  unfolding settled_ok_def
proof (intro allI impI)
  fix j assume j: "map_of (jobs s') j \<noteq> None" "all_ended s' j"
  let ?s1 = "s\<lparr>tasks := AList.update k t' (tasks s)\<rparr>"
  have dom: "map_of (jobs s') j \<noteq> None \<longleftrightarrow> map_of (jobs s) j \<noteq> None" by (auto simp: s' updateJob_def Let_def split: option.splits)
  show "finished s' j"
  proof (cases "j = tJobID t")
    case True
    have "all_ended ?s1 j" using j(2) by (simp add: all_ended_def s')
    with updateJob_finishes [of ?s1 j now] d j(1) dom True show ?thesis by (simp add: s')
  next
    case False
    have "all_ended s j" unfolding all_ended_def
    proof (intro allI impI)
      fix x y assume y: "map_of (tasks s) x = Some y" "tJobID y = j"
      with t False have "x \<noteq> k" by auto
      with y have "map_of (tasks s') x = Some y" by (simp add: s')
      with y(2) j(2) show "ended y" by (simp add: all_ended_def)
    qed
    with inv j(1) dom have "finished s j" by (simp add: settled_ok_def)
    moreover have "hooked s s'" unfolding s' by (rule hooked_tasks_updateJob)
    ultimately show ?thesis by (simp add: hooked_def)
  qed
qed

lemma settled_persist [simp]: "settled_ok (persistLocked s) = settled_ok s"
  by (simp add: settled_ok_def all_ended_def finished_def)

lemma settled_rebalance:
  assumes "sched_wf s" "settled_ok s"
  shows "sched_wf (fst (fold (rebalance_task now w) ks (s, n))) \<and> settled_ok (fst (fold (rebalance_task now w) ks (s, n)))"
  using assms
proof (induction ks arbitrary: s n)
  case (Cons k ks)
  obtain s1 n1 where e: "rebalance_task now w k (s, n) = (s1, n1)" by fastforce
  have wf1: "sched_wf s1" using rebalance_task_micro [OF Cons.prems(1), of now w k n] e Cons.prems(1) by (auto intro: sched_wf_micro)
  have "settled_ok s1"
  proof (cases "map_of (tasks s) k")
    case None
    with e Cons.prems show ?thesis by (simp add: rebalance_task_def)
  next
    case (Some t)
    consider (same) "tWorkerID t \<noteq> w \<or> \<not> in_flight t" | (retry) "tWorkerID t = w" "in_flight t" "tRetries t < tMaxRetries t"
      | (fail) "tWorkerID t = w" "in_flight t" "\<not> tRetries t < tMaxRetries t" by blast
    then show ?thesis
    proof cases
      case same
      with e Some Cons.prems show ?thesis by (auto simp: rebalance_task_def in_flight_def split: if_splits)
    next
      case retry
      define t1 where "t1 = resetLeaseLocked (t\<lparr>tRetries := tRetries t + 1, tStatus := TaskPending, tWorkerID := []\<rparr>)"
      have s1: "s1 = s\<lparr>tasks := AList.update k t1 (tasks s), pendingQ := pendingQ s @ [tID t1]\<rparr>"
        using e Some retry by (auto simp: rebalance_task_def Let_def in_flight_def t1_def)
      moreover have "tJobID t1 = tJobID t" "\<not> ended t1" by (simp_all add: t1_def resetLeaseLocked_def ended_def)
      ultimately have "keeps_open s s1" using Some by (auto simp: keeps_open_def)
      with s1 show ?thesis by (intro settled_keeps_open [OF Cons.prems(2)]) auto
    next
      case fail
      then have "s1 = updateJob now (tJobID t) (s\<lparr>tasks := AList.update k (t\<lparr>tStatus := TaskFailed\<rparr>) (tasks s)\<rparr>)"
        using e Some by (auto simp: rebalance_task_def in_flight_def)
      with Some show ?thesis by (intro settled_end_task [OF Cons.prems(2) sched_wfD(2) [OF Cons.prems(1)]]) auto
    qed
  qed
  with wf1 Cons.IH [of s1 n1] e show ?case by simp
qed simp

text \<open>A submission adds open tasks, and no other.\<close>

lemma settled_submit:
  assumes inv: "settled_ok s" and fresh: "fresh_uuids uuid (length (effective_shards req)) s" and r: "Submit now uuid req s = (job, s')"
  shows "settled_ok s'"
proof -
  define sh where "sh = effective_shards req"
  obtain shard shards where sh: "sh = shard # shards"
    using AllShards_nonempty by (cases sh) (auto simp: sh_def effective_shards_def split: if_splits)
  have new: "map_of (tasks s) (uuid i) = None" if "1 \<le> i" "i \<le> length sh" for i
    using fresh that unfolding fresh_uuids_def sh_def list_all_iff by (auto simp del: upt_Suc)
  then have u1: "map_of (tasks s) (uuid 1) = None" by (simp add: sh)
  have sub: "tasks (submit_tasks uuid 1 jb sh x) = tasks s @ fresh_tasks uuid jb (maxRetries s) 1 sh" if "tasks x = tasks s" "maxRetries x = maxRetries s" for jb x
    using submit_tasks_append [of uuid 1 sh x jb] that fresh new by (simp add: fresh_uuids_def sh_def)
  have "\<exists>j0. jID j0 = uuid 0 \<and> tasks s' = tasks s @ fresh_tasks uuid j0 (maxRetries s) 1 sh"
    using r unfolding Submit_def Let_def effective_shards_def [symmetric] sh_def [symmetric]
    by (intro exI conjI) (auto simp: sub [unfolded One_nat_def])
  then obtain j0 where j0: "jID j0 = uuid 0" "tasks s' = tasks s @ fresh_tasks uuid j0 (maxRetries s) 1 sh" by blast
  show ?thesis unfolding settled_ok_def
  proof (intro allI impI)
    fix j assume j: "map_of (jobs s') j \<noteq> None" "all_ended s' j"
    have "map_of (tasks s') (uuid 1) = Some (fresh_task uuid j0 (maxRetries s) 1 shard)"
      using u1 by (simp add: j0(2) sh fresh_tasks_Cons map_add_def)
    from j(2) [unfolded all_ended_def, rule_format, OF this] j0(1) have "j \<noteq> uuid 0" by (auto simp: ended_def)
    moreover have "map_of (tasks s') x = Some y" if "map_of (tasks s) x = Some y" for x y using that by (simp add: j0(2))
    then have "all_ended s j" using j(2) unfolding all_ended_def by blast
    ultimately have "finished s j" using inv j(1) Submit_effect(4) [OF r] by (simp add: settled_ok_def)
    with \<open>j \<noteq> uuid 0\<close> show "finished s' j" using Submit_effect(4) [OF r] by (simp add: finished_def)
  qed
qed

lemma settled_run_op:
  assumes wf: "sched_wf s" and inv: "settled_ok s" and ok: "op_ok ok False x s"
  shows "settled_ok (run_op x s)"
proof -
  have h: "hooked s (run_op x s)" by (rule hooked_run_op [OF wf ok])
  have quiet: "settled_ok (run_op x s)" if "keeps_open s (run_op x s)" "\<And>now uuid req. x \<noteq> OpSubmit now uuid req"
    by (rule settled_keeps_open [OF inv h that(1)]) (simp add: run_op_jobs [OF wf ok that(2)])
  show ?thesis
  proof (cases x)
    case (OpSubmit now uuid req)
    obtain job s' where r: "Submit now uuid req s = (job, s')" by fastforce
    have fresh: "fresh_uuids uuid (length (effective_shards req)) s" using ok OpSubmit by simp
    from settled_submit [OF inv fresh r] OpSubmit r show ?thesis by simp
  next
    case (OpPoll now u r w)
    have u: "map_of (tasks s) u = None" using ok OpPoll by simp
    from wf u have "keeps_open s (run_op x s)"
    proof (cases rule: PollTasks_cases [where now = now and r = r and w = w])
      case (steal k v p j a)
      then show ?thesis using OpPoll u by (auto simp: keeps_open_def ended_def in_flight_def)
    qed (use OpPoll in \<open>auto simp: keeps_open_def ended_def\<close>)
    with quiet OpPoll show ?thesis by blast
  next
    case (OpStart now k w)
    then have "keeps_open s (run_op x s)" by (auto simp: keeps_open_def StartTask_def ended_def split: option.splits)
    with quiet OpStart show ?thesis by blast
  next
    case (OpRenew k req)
    then have "keeps_open s (run_op x s)" by (auto simp: keeps_open_def RenewLease_def ended_def Let_def split: option.splits)
    with quiet OpRenew show ?thesis by blast
  next
    case (OpReport now k req)
    show ?thesis
    proof (cases "map_of (tasks s) k")
      case None
      with OpReport inv show ?thesis by (simp add: report_finish_def)
    next
      case (Some t)
      show ?thesis
      proof (cases "rqError req \<noteq> [] \<and> tRetries t < tMaxRetries t")
        case True
        with OpReport Some have "keeps_open s (run_op x s)"
          by (auto simp: keeps_open_def report_finish_def resetLeaseLocked_def ended_def Let_def)
        with quiet OpReport show ?thesis by blast
      next
        case False
        define t1 where "t1 = (if rqError req \<noteq> [] then t\<lparr>tFinishedAt := Some now, tWorkerID := rqWorkerID req, tError := rqError req, tStatus := TaskFailed\<rparr>
          else t\<lparr>tFinishedAt := Some now, tWorkerID := rqWorkerID req, tStatus := TaskDone\<rparr>)"
        have j: "tJobID t1 = tJobID t" by (simp add: t1_def)
        show ?thesis
        proof (cases "tStatus t = TaskDone")
          case True
          with OpReport Some inv show ?thesis by (simp add: report_finish_def)
        next
          case open_task: False
          have "run_op x s = persistLocked (updateJob now (tJobID t) (s\<lparr>tasks := AList.update k t1 (tasks s)\<rparr>))"
            using OpReport Some False open_task by (auto simp: report_finish_def Let_def t1_def)
          with settled_end_task [OF inv sched_wfD(2) [OF wf] Some j refl] show ?thesis by simp
        qed
      qed
    qed
  next
    case (OpRebalance now w)
    with settled_rebalance [OF wf inv, of now w "map fst (tasks s)" 0] show ?thesis by (auto simp: RebalanceWorker_def split: prod.splits)
  next
    case (OpDrain now n)
    have "keeps_open s s'" if "drain_loop now ids (s\<lparr>pendingQ := q\<rparr>) [] = Ok (as, s')" for ids q as s'
      unfolding keeps_open_def using drain_moves [OF that, THEN conjunct2, THEN conjunct1] by simp blast
    then have "keeps_open s (run_op x s)" using OpDrain
      by (auto simp: DrainPending_def Let_def keeps_open_def split: outcome.splits prod.splits)
    with quiet OpDrain show ?thesis by blast
  qed
qed

lemma reachable_settled:
  assumes "reachable ok False c s"
  shows "settled_ok s"
  using assms
proof induction
  case (init mr)
  then show ?case by (simp add: settled_ok_def Scheduler.New_def SetLeaseChunk_def)
next
  case (attach s)
  then show ?case by (simp add: settled_ok_def all_ended_def finished_def AttachStore_def)
next
  case (hook s)
  then show ?case by (simp add: settled_ok_def all_ended_def finished_def SetJobDoneHook_def)
next
  case (reorder s ts js)
  have wf: "sched_wf s" by (rule reachable_wf [OF reorder(1)])
  have "map_of ts = map_of (tasks s)" "map_of js = map_of (jobs s)"
    using map_of_mset [OF reorder(2) [symmetric] sched_wfD(2) [OF wf]] map_of_mset [OF reorder(3) [symmetric] sched_wfD(1) [OF wf]] by simp_all
  with reorder.IH show ?case by (simp add: settled_ok_def all_ended_def finished_def)
next
  case (step s x)
  then show ?case using settled_run_op reachable_wf by blast
qed

lemma pending_poll_productive:
  assumes wf: "sched_wf s" and t: "map_of (tasks s) k = Some t" "tStatus t = TaskPending" and u: "map_of (tasks s) u = None"
  shows "productive (OpPoll now u r w) s"
  using wf u
proof (cases rule: PollTasks_cases [where now = now and r = r and w = w])
  case idle
  from sched_wfD(5) [OF wf t] obtain y where "y < length (pendingQ s)" "pendingQ s ! y = k" by (auto simp: in_set_conv_nth)
  with t have "pending_at (map_of (tasks s)) (pendingQ s) y = Some t" by (simp add: pending_at_Some)
  with poll_index_spec [where r = r and w = w and s = s] idle(2) show ?thesis by simp
qed simp_all



text \<open>The work of a new task: its share for every object that can be split off, and its attempts.\<close>

lemma fresh_work:
  assumes "0 \<le> mr"
  shows "task_work sz (fresh_task uuid job mr n sh) = (3 * nat mr + 2) * (nat (sz (jID job) sh) - 1) + 3 * nat mr + 2"
  using assms by (simp add: task_work_def span_def stage_def)

end
