(* ===== verification/Report_Props.thy ===== *)
theory Report_Props
  imports Report Sched_Props
begin

section \<open>Properties of the commit protocol\<close>

text \<open>
  What holds of \<^verbatim>\<open>ReportResult\<close> and the components behind it in every interleaving: a done task has
  an agreed commit, side effects are emitted at most once per key, deciders agree. The executable
  runs \<open>sys_do\<close> provide the witnesses.
\<close>

subsection \<open>Executable runs\<close>

datatype sys_act = Arrive string ResultRequest | Phase nat int | Other sched_op

fun sys_do :: "('o, 'd, 'e) Env \<Rightarrow> sys_act \<Rightarrow> ('o, 'd, 'e) sys \<Rightarrow> ('o, 'd, 'e) sys" where
  "sys_do env (Arrive tid req) y = y\<lparr>syProcs := syProcs y @ [\<lparr>rpTask = tid, rpReq = req, rpPc = RValidate\<rparr>]\<rparr>"
| "sys_do env (Phase i now) y =
     (let p = syProcs y ! i
      in case report_step env now (rpTask p) (rpReq p) (rpPc p) (syWorld y, sySched y) of
           (pc', w', s') \<Rightarrow> \<lparr>syWorld = w', sySched = s', syProcs = (syProcs y)[i := p\<lparr>rpPc := pc'\<rparr>]\<rparr>)"
| "sys_do env (Other x) y = y\<lparr>sySched := run_op x (sySched y)\<rparr>"

fun act_ok :: "sys_act \<Rightarrow> ('o, 'd, 'e) sys \<Rightarrow> bool" where
  "act_ok (Arrive tid req) y = True"
| "act_ok (Phase i now) y = (i < length (syProcs y))"
| "act_ok (Other x) y = (op_ok (\<lambda>_ _. True) True x (sySched y) \<and> (case x of OpReport _ _ _ \<Rightarrow> False | _ \<Rightarrow> True))"

fun acts_ok :: "('o, 'd, 'e) Env \<Rightarrow> sys_act list \<Rightarrow> ('o, 'd, 'e) sys \<Rightarrow> bool" where
  "acts_ok env [] y = True"
| "acts_ok env (a # as) y = (act_ok a y \<and> acts_ok env as (sys_do env a y))"

lemma sys_do_step:
  assumes "act_ok a y"
  shows "sys_step env y (sys_do env a y)"
proof (cases a)
  case (Arrive tid req)
  then show ?thesis by (simp add: sys_step.arrive)
next
  case (Phase i now)
  let ?p = "syProcs y ! i"
  obtain pc' w' s' where r: "report_step env now (rpTask ?p) (rpReq ?p) (rpPc ?p) (syWorld y, sySched y) = (pc', w', s')"
    by (metis prod_cases3)
  have "i < length (syProcs y)" using assms Phase by simp
  from sys_step.phase [OF this refl r] r Phase show ?thesis by simp
next
  case (Other x)
  with assms have "op_ok (\<lambda>_ _. True) True x (sySched y)" "\<forall>now k req. x \<noteq> OpReport now k req"
    by (auto split: sched_op.splits)
  from sys_step.other [OF this] Other show ?thesis by simp
qed

lemma sys_reach_run: "sys_reach env w0 y \<Longrightarrow> acts_ok env as y \<Longrightarrow> sys_reach env w0 (fold (sys_do env) as y)"
  by (induction as arbitrary: y) (auto intro: sys_reach.step sys_do_step)

definition demo_unmarshal :: "CommitCommand list \<Rightarrow> CommitCommand option" where
  "demo_unmarshal d = (case d of [c] \<Rightarrow> Some c | _ \<Rightarrow> None)"

text \<open>A cluster that commits what is proposed at once.\<close>

definition demo_net ::
  "CommitCommand Entry list \<Rightarrow> CommitDecision \<Rightarrow> bool \<times> (CommitCommand list \<Rightarrow> string option) \<times> (CommitCommand Entry list \<times> bool) list" where
  "demo_net es dec = (True, (\<lambda>_. None), [([\<lparr>enType = EntryNormal, enData = [\<lparr>ccTaskID = cdTaskID dec, ccJobID = cdJobID dec,
     ccGeneration = cdGeneration dec, ccFinalKey = cdFinalKey dec\<rparr>], enIndex = length es + 1\<rparr>], False)])"

definition demo_env :: "(unit, CommitCommand Entry list, MemLedger completionSink) Env" where
  "demo_env = \<lparr>committer = None, commitDecider = Some (raft_decide demo_unmarshal (\<lambda>c. Some [c]) demo_net),
     sideEffect = None\<rparr>"

definition demo_effect_env :: "(unit, CommitCommand Entry list, MemLedger completionSink) Env" where
  "demo_effect_env = \<lparr>committer = None, commitDecider = None, sideEffect = Some (sink_Apply Claim (\<lambda>_ _. None))\<rparr>"

definition demo_world :: "(unit, CommitCommand Entry list, MemLedger completionSink) World" where
  "demo_world = \<lparr>wStore = (), wDecider = [], wEffect = \<lparr>skLedger = NewMemLedger, skCalls = []\<rparr>\<rparr>"

definition demo_result :: ResultRequest where
  "demo_result = \<lparr>rqWorkerID = ''w1'', rqImagesProcessed = 7, rqBytesRead = 0, rqOutputKey = ''o'', rqDuration = 1, rqError = []\<rparr>"

text \<open>Two reports of one task, their phases interleaved.\<close>

definition demo_acts :: "sys_act list" where
  "demo_acts = map Other (take 3 demo_ops) @ [Arrive ''t'' demo_result, Arrive ''t'' demo_result,
     Phase 0 5, Phase 1 5, Phase 0 5, Phase 1 5, Phase 0 5, Phase 1 5, Phase 0 5, Phase 1 5, Phase 0 5, Phase 1 5]"

definition demo_init :: "(unit, CommitCommand Entry list, MemLedger completionSink) sys" where
  "demo_init = \<lparr>syWorld = demo_world, sySched = SetLeaseChunk 2 (New 3), syProcs = []\<rparr>"

lemma demo_init_reach: "sys_reach env demo_world demo_init"
  unfolding demo_init_def by (rule sys_reach.init)

subsection \<open>Agreement\<close>

text \<open>C6. With the Raft decider attached, in every interleaving of any number of concurrent (also
  duplicate and late) reports with each other and with all other scheduler operations, a task that
  is marked done has its commit recorded in the replicated ledger.\<close>

theorem done_only_after_agreement:
  assumes "sys_reach env w0 y" and "commitDecider env = Some (raft_decide u m net)"
    and "map_of (tasks (sySched y)) k = Some t" and "tStatus t = TaskDone"
  shows "\<exists>rec. Committed (ledger_at u (wDecider (syWorld y))) k = Some rec"
  using raft.agreed_inv_reach [OF assms(1,2)] assms(3,4)
  by (auto simp: raft.agreed_inv_def ledger_gen_def)

theorem done_only_after_agreement_witness:
  "\<exists>rec. Committed (ledger_at demo_unmarshal (wDecider (syWorld (fold (sys_do demo_env) demo_acts demo_init)))) ''t'' = Some rec"
proof -
  have r: "sys_reach demo_env demo_world (fold (sys_do demo_env) demo_acts demo_init)"
    by (rule sys_reach_run [OF demo_init_reach]) code_simp
  have "map_option tStatus (map_of (tasks (sySched (fold (sys_do demo_env) demo_acts demo_init))) ''t'') = Some TaskDone"
    by code_simp
  then obtain t where t: "map_of (tasks (sySched (fold (sys_do demo_env) demo_acts demo_init))) ''t'' = Some t" "tStatus t = TaskDone"
    by (auto simp: map_option_case split: option.splits)
  show ?thesis by (rule done_only_after_agreement [OF r _ t]) (simp add: demo_env_def)
qed

text \<open>C17. The ledger after any committed log: the record of a task is the first command with the highest
  generation among the commands for that task, and a task has no record only if no command names
  it. Replicas that applied the same log therefore hold the same records.\<close>

theorem ledger_holds_first_of_highest_generation:
  "case Committed (ledger_at u es) tid of
     None \<Rightarrow> \<forall>d \<in> set (ledger.commands u es). ccTaskID d \<noteq> tid
   | Some c \<Rightarrow> \<exists>pre post. ledger.commands u es = pre @ c # post \<and> ccTaskID c = tid
       \<and> (\<forall>d \<in> set pre. ccTaskID d = tid \<longrightarrow> ccGeneration d < ccGeneration c)
       \<and> (\<forall>d \<in> set post. ccTaskID d = tid \<longrightarrow> ccGeneration d \<le> ccGeneration c)"
proof (cases "Committed (ledger_at u es) tid")
  case None
  then have "\<forall>d \<in> set (ledger.commands u es). ccTaskID d \<noteq> tid" by (simp add: Committed_ledger_at fence_foldl_none)
  with None show ?thesis by simp
next
  case (Some c)
  with fence_foldl_winner [of "ledger.commands u es" tid c]
  have "\<exists>pre post. ledger.commands u es = pre @ c # post \<and> ccTaskID c = tid
       \<and> (\<forall>d \<in> set pre. ccTaskID d = tid \<longrightarrow> ccGeneration d < ccGeneration c)
       \<and> (\<forall>d \<in> set post. ccTaskID d = tid \<longrightarrow> ccGeneration d \<le> ccGeneration c)" by (simp add: Committed_ledger_at)
  with Some show ?thesis by simp
qed

definition demo_cmd :: "int \<Rightarrow> CommitCommand" where
  "demo_cmd g = \<lparr>ccTaskID = ''t'', ccJobID = ''j'', ccGeneration = g, ccFinalKey = ''k''\<rparr>"

definition demo_log :: "CommitCommand Entry list" where
  "demo_log = [\<lparr>enType = EntryNormal, enData = [demo_cmd 1], enIndex = 1\<rparr>, \<lparr>enType = EntryNormal, enData = [demo_cmd 0], enIndex = 2\<rparr>]"

theorem ledger_holds_first_of_highest_generation_witness:
  "Committed (ledger_at demo_unmarshal demo_log) ''t'' = Some (demo_cmd 1)
   \<and> (\<exists>pre post. ledger.commands demo_unmarshal demo_log = pre @ demo_cmd 1 # post)"
proof -
  have c: "Committed (ledger_at demo_unmarshal demo_log) ''t'' = Some (demo_cmd 1)" by code_simp
  with ledger_holds_first_of_highest_generation [of demo_unmarshal demo_log "''t''"] show ?thesis by auto
qed


definition demo_decision :: CommitDecision where
  "demo_decision = \<lparr>cdTaskID = ''t'', cdJobID = ''j'', cdGeneration = 0, cdFinalKey = ''k''\<rparr>"


subsection \<open>Side effects\<close>

text \<open>C19. With the completion sink and its in-memory ledger attached, in every interleaving of reports the
  emitter is called at most once per idempotency key, whatever the emitter returns.\<close>

theorem effects_at_most_once:
  assumes "sys_reach env w0 y" and "sideEffect env = Some (sink_Apply Claim emit)"
    and "wEffect w0 = \<lparr>skLedger = NewMemLedger, skCalls = []\<rparr>"
  shows "distinct (map evKey (skCalls (wEffect (syWorld y))))"
proof -
  have "mem.once (wEffect (syWorld y))"
  proof (rule sys_effect_invariant [OF assms(1)])
    show "mem.once (wEffect w0)" by (simp add: assms(3) mem.once_def)
    show "mem.once (fst (fire key d e))" if "sideEffect env = Some fire" "mem.once e" for fire key d e
      using that assms(2) mem.once_Apply by auto
  qed
  then show ?thesis by (simp add: mem.once_def)
qed

text \<open>Two reports reach the effect phase with the same key; the second finds it claimed.\<close>

lemma demo_effect_state:
  fixes y defines "y \<equiv> fold (sys_do demo_effect_env) (take 11 demo_acts) demo_init"
  shows "wEffect (syWorld y) = \<lparr>skLedger = NewMemLedger, skCalls = []\<rparr> \<and> length (syProcs y) = 2
     \<and> list_all (\<lambda>p. rpReq p = demo_result \<and> rpPc p = REffect \<lparr>rcJobID = ''j'', rcShard = ''s'',
         rcRange = \<lparr>rStart = 0, rEnd = -1, rSplit = False\<rparr>, rcGen = 0\<rparr>
         \<lparr>cdTaskID = ''t'', cdJobID = ''j'', cdGeneration = 0, cdFinalKey = ''results/j/s.parquet''\<rparr>) (syProcs y)"
  unfolding y_def by code_simp

theorem effects_at_most_once_witness:
  "\<exists>y. sys_reach demo_effect_env demo_world y \<and> length (skCalls (wEffect (syWorld y))) = 1
     \<and> distinct (map evKey (skCalls (wEffect (syWorld y))))"
proof -
  define y where "y = fold (sys_do demo_effect_env) (take 11 demo_acts) demo_init"
  note st = demo_effect_state [folded y_def]
  obtain p q where pq: "syProcs y = [p, q]" using st by (auto simp: numeral_2_eq_2 length_Suc_conv)
  have y: "sys_reach demo_effect_env demo_world y"
    unfolding y_def by (rule sys_reach_run [OF demo_init_reach]) code_simp
  define y2 where "y2 = fold (sys_do demo_effect_env) [Phase 0 5, Phase 1 5] y"
  have r: "sys_reach demo_effect_env demo_world y2"
    unfolding y2_def by (rule sys_reach_run [OF y]) (simp add: pq Let_def split: prod.split)
  have "length (skCalls (wEffect (syWorld y2))) = 1"
    using st by (simp add: y2_def pq Let_def demo_effect_env_def demo_result_def sink_Apply_def Claim_def NewMemLedger_def)
  moreover have "distinct (map evKey (skCalls (wEffect (syWorld y2))))"
    by (rule effects_at_most_once [OF r]) (simp_all add: demo_effect_env_def demo_world_def)
  ultimately show ?thesis using r by blast
qed

subsection \<open>The call as a whole\<close>



text \<open>A lost event: when the emitter fails, the key stays claimed, so the retried delivery reports
  success and the event is never emitted. (The comment at \<^verbatim>\<open>completionSink.Apply\<close> says that a failed
  emit is retried by the next delivery.)\<close>

lemma failed_emit_is_not_retried:
  "let emit = (\<lambda>calls _. if calls = [] then Some ''broker down'' else None);
       (sk1, r1) = sink_Apply Claim emit ''key'' demo_decision \<lparr>skLedger = NewMemLedger, skCalls = []\<rparr>;
       (sk2, r2) = sink_Apply Claim emit ''key'' demo_decision sk1
   in r1 = Some ''broker down'' \<and> r2 = None \<and> length (skCalls sk2) = 1"
  by code_simp

text \<open>The committer of \<^verbatim>\<open>EnableResultCommit\<close> is not idempotent, which the interface demands: it
  deletes the staged object after the copy, so after one success (with the delete effective) the same
  commit fails, and a report repeated after a failed decision cannot succeed any more.\<close>

lemma store_commit_not_idempotent:
  assumes "store_laws get copy del" and "a \<noteq> b"
    and "storeCommitter_Commit copy del a b st = (st1, None)" and "get st1 a = None"
  shows "get st1 b \<noteq> None \<and> (\<exists>st2 e. storeCommitter_Commit copy del a b st1 = (st2, Some e) \<and> get st2 = get st1)"
  using storeCommitter_ok [OF assms(1,2,3)] storeCommitter_missing [OF assms(1,4), of b] by auto

definition map_copy :: "string \<Rightarrow> string \<Rightarrow> (string, nat) gomap \<Rightarrow> (string, nat) gomap \<times> string option" where
  "map_copy a b m = (case map_of m a of None \<Rightarrow> (m, Some ''NoSuchKey'') | Some v \<Rightarrow> (AList.update b v m, None))"

definition map_del :: "string \<Rightarrow> (string, nat) gomap \<Rightarrow> (string, nat) gomap \<times> string option" where
  "map_del a m = (AList.delete a m, None)"

lemma map_store_laws: "store_laws map_of map_copy map_del"
  by (auto simp: store_laws_def map_copy_def map_del_def delete_conv' split: option.splits)

theorem store_commit_not_idempotent_witness:
  "\<exists>st2 e. storeCommitter_Commit map_copy map_del ''staging'' ''final'' [(''final'', 7)] = (st2, Some e) \<and> map_of st2 = map_of [(''final'', 7)]"
proof -
  have c: "storeCommitter_Commit map_copy map_del ''staging'' ''final'' [(''staging'', 7)] = ([(''final'', 7)], None)" by code_simp
  from store_commit_not_idempotent [OF map_store_laws _ c] show ?thesis by simp
qed

end
