(* ===== verification/Quota.thy ===== *)
theory Quota
  imports Prelude
begin

section \<open>Quotas, billing and rate limits\<close>

text \<open>
  \<^verbatim>\<open>internal/quota/enforcer.go\<close>, \<^verbatim>\<open>internal/quota/ledger.go\<close> and
  \<^verbatim>\<open>internal/ratelimit/tokenbucket.go\<close>. \<^verbatim>\<open>float64\<close> quantities are real numbers: rounding is
  not modelled. A reservation is a heap object with a \<^verbatim>\<open>sync.Once\<close>; the reservations handed out
  are a list and the flag says whether one was released.
\<close>

subsection \<open>Enforcer\<close>

record Request =
  rCPU :: real
  rMem :: int
  rGPU :: int

record TenantQuota =
  qCPU :: real
  qMem :: int
  qGPU :: int
  qJobs :: int

record Usage =
  uCPU :: real
  uMem :: int
  uGPU :: int
  uJobs :: int

record Enforcer =
  quota :: "(string, TenantQuota) gomap"
  usage :: "(string, Usage) gomap"

record Reservation =
  rvTenant :: string
  rvReq :: Request
  rvDone :: bool

definition zero_usage :: Usage where
  "zero_usage = \<lparr>uCPU = 0, uMem = 0, uGPU = 0, uJobs = 0\<rparr>"

definition NewEnforcer :: Enforcer where
  "NewEnforcer = \<lparr>quota = [], usage = []\<rparr>"

definition SetQuota :: "string \<Rightarrow> TenantQuota \<Rightarrow> Enforcer \<Rightarrow> Enforcer" where
  "SetQuota tenant q e = e\<lparr>quota := AList.update tenant q (quota e)\<rparr>"

definition Usage_of :: "Enforcer \<Rightarrow> string \<Rightarrow> Usage" where
  "Usage_of e tenant = lookup0 zero_usage (usage e) tenant"

definition Reserve :: "string \<Rightarrow> Request \<Rightarrow> Enforcer \<Rightarrow> Reservation outcome \<times> Enforcer" where
  "Reserve tenant req e =
     (case map_of (quota e) tenant of
        None \<Rightarrow> (Err ''quota: tenant has no configured quota'', e)
      | Some q \<Rightarrow>
          let u = Usage_of e tenant
          in if uJobs u + 1 > qJobs q then (Err ''quota: tenant at active-job limit'', e)
             else if uCPU u + rCPU req > qCPU q then (Err ''quota: tenant cpu exceeds'', e)
             else if uMem u + rMem req > qMem q then (Err ''quota: tenant memory exceeds'', e)
             else if uGPU u + rGPU req > qGPU q then (Err ''quota: tenant gpu exceeds'', e)
             else (Ok \<lparr>rvTenant = tenant, rvReq = req, rvDone = False\<rparr>,
                   e\<lparr>usage := AList.update tenant \<lparr>uCPU = uCPU u + rCPU req, uMem = uMem u + rMem req,
                        uGPU = uGPU u + rGPU req, uJobs = uJobs u + 1\<rparr> (usage e)\<rparr>))"

definition give_back :: "Reservation \<Rightarrow> Enforcer \<Rightarrow> Enforcer" where
  "give_back r e =
     (let u = Usage_of e (rvTenant r)
      in e\<lparr>usage := AList.update (rvTenant r) \<lparr>uCPU = max (uCPU u - rCPU (rvReq r)) 0,
             uMem = max (uMem u - rMem (rvReq r)) 0, uGPU = max (uGPU u - rGPU (rvReq r)) 0,
             uJobs = max (uJobs u - 1) 0\<rparr> (usage e)\<rparr>)"

definition Release :: "nat \<Rightarrow> Reservation list \<times> Enforcer \<Rightarrow> Reservation list \<times> Enforcer" where
  "Release i = (\<lambda>(rs, e).
     if i < length rs \<and> \<not> rvDone (rs ! i) then (rs[i := (rs ! i)\<lparr>rvDone := True\<rparr>], give_back (rs ! i) e)
     else (rs, e))"

text \<open>What the outstanding reservations of a tenant hold.\<close>

definition outstanding :: "Reservation list \<Rightarrow> string \<Rightarrow> Request list" where
  "outstanding rs t = map rvReq (filter (\<lambda>r. rvTenant r = t \<and> \<not> rvDone r) rs)"

definition holding :: "Request list \<Rightarrow> Usage" where
  "holding qs = \<lparr>uCPU = sum_list (map rCPU qs), uMem = sum_list (map rMem qs), uGPU = sum_list (map rGPU qs),
     uJobs = int (length qs)\<rparr>"

definition nonneg :: "Request \<Rightarrow> bool" where
  "nonneg q \<longleftrightarrow> 0 \<le> rCPU q \<and> 0 \<le> rMem q \<and> 0 \<le> rGPU q"

definition fits_quota :: "Usage \<Rightarrow> TenantQuota \<Rightarrow> bool" where
  "fits_quota u q \<longleftrightarrow> uCPU u \<le> qCPU q \<and> uMem u \<le> qMem q \<and> uGPU u \<le> qGPU q \<and> uJobs u \<le> qJobs q"

definition quota_inv :: "Reservation list \<times> Enforcer \<Rightarrow> bool" where
  "quota_inv = (\<lambda>(rs, e). \<forall>t. Usage_of e t = holding (outstanding rs t) \<and> (\<forall>q \<in> set (outstanding rs t). nonneg q))"

lemma quota_inv_New: "quota_inv ([], NewEnforcer)"
  by (simp add: quota_inv_def NewEnforcer_def Usage_of_def outstanding_def holding_def zero_usage_def)

lemma outstanding_snoc:
  "outstanding (rs @ [\<lparr>rvTenant = t, rvReq = q, rvDone = False\<rparr>]) t' = outstanding rs t' @ (if t' = t then [q] else [])"
  by (simp add: outstanding_def)

lemma outstanding_release:
  assumes "i < length rs" "\<not> rvDone (rs ! i)"
  obtains a b where "\<And>t. t \<noteq> rvTenant (rs ! i) \<Longrightarrow> outstanding (rs[i := (rs ! i)\<lparr>rvDone := True\<rparr>]) t = outstanding rs t"
    and "outstanding rs (rvTenant (rs ! i)) = a @ rvReq (rs ! i) # b"
    and "outstanding (rs[i := (rs ! i)\<lparr>rvDone := True\<rparr>]) (rvTenant (rs ! i)) = a @ b"
proof -
  have rs: "outstanding rs t = outstanding (take i rs) t
      @ (if rvTenant (rs ! i) = t then [rvReq (rs ! i)] else []) @ outstanding (drop (Suc i) rs) t" for t
    using assms by (subst id_take_nth_drop [OF assms(1)]) (simp add: outstanding_def)
  have up: "outstanding (rs[i := (rs ! i)\<lparr>rvDone := True\<rparr>]) t = outstanding (take i rs) t @ outstanding (drop (Suc i) rs) t" for t
    using assms(1) by (simp add: upd_conv_take_nth_drop outstanding_def)
  show thesis
    by (rule that [of "outstanding (take i rs) (rvTenant (rs ! i))" "outstanding (drop (Suc i) rs) (rvTenant (rs ! i))"])
      (simp_all add: rs up)
qed

lemma sum_nonneg_split:
  fixes f :: "'a \<Rightarrow> 'b::ordered_comm_monoid_add"
  assumes "\<forall>x \<in> set a. 0 \<le> f x" "\<forall>x \<in> set b. 0 \<le> f x"
  shows "0 \<le> sum_list (map f a) + sum_list (map f b)"
  using assms by (intro add_nonneg_nonneg sum_list_nonneg) auto

lemma quota_inv_Reserve:
  assumes inv: "quota_inv (rs, e)" and q: "nonneg req" and r: "Reserve t req e = (Ok rv, e')"
  shows "quota_inv (rs @ [rv], e')"
proof -
  from r have rv: "rv = \<lparr>rvTenant = t, rvReq = req, rvDone = False\<rparr>"
    and e': "e' = e\<lparr>usage := AList.update t \<lparr>uCPU = uCPU (Usage_of e t) + rCPU req, uMem = uMem (Usage_of e t) + rMem req,
       uGPU = uGPU (Usage_of e t) + rGPU req, uJobs = uJobs (Usage_of e t) + 1\<rparr> (usage e)\<rparr>"
    by (auto simp: Reserve_def Let_def split: option.splits if_splits)
  have u: "Usage_of e' x = (if x = t then holding (outstanding rs t @ [req]) else Usage_of e x)" for x
    using inv by (simp add: e' Usage_of_def quota_inv_def holding_def)
  show ?thesis using inv q by (auto simp: quota_inv_def rv outstanding_snoc u)
qed

lemma quota_inv_Release:
  assumes inv: "quota_inv (rs, e)"
  shows "quota_inv (Release i (rs, e))"
proof (cases "i < length rs \<and> \<not> rvDone (rs ! i)")
  case False
  with inv show ?thesis by (auto simp: Release_def)
next
  case True
  let ?t = "rvTenant (rs ! i)" and ?rs = "rs[i := (rs ! i)\<lparr>rvDone := True\<rparr>]"
  obtain a b where other: "\<And>t. t \<noteq> ?t \<Longrightarrow> outstanding ?rs t = outstanding rs t"
    and old: "outstanding rs ?t = a @ rvReq (rs ! i) # b" and new: "outstanding ?rs ?t = a @ b"
    using outstanding_release [of i rs] True by metis
  have nn: "\<forall>q \<in> set a. nonneg q" "\<forall>q \<in> set b. nonneg q"
    and u: "Usage_of e ?t = holding (a @ rvReq (rs ! i) # b)"
    using inv old by (auto simp: quota_inv_def dest: spec [of _ ?t])
  have pos: "0 \<le> sum_list (map rCPU a) + sum_list (map rCPU b)" "0 \<le> sum_list (map rMem a) + sum_list (map rMem b)"
    "0 \<le> sum_list (map rGPU a) + sum_list (map rGPU b)"
    using nn by (auto intro!: sum_nonneg_split simp: nonneg_def)
  have "Usage_of (give_back (rs ! i) e) x = (if x = ?t then holding (a @ b) else Usage_of e x)" for x
    using pos u by (simp add: give_back_def Usage_of_def Let_def holding_def)
  then have "Usage_of (give_back (rs ! i) e) x = holding (outstanding ?rs x) \<and> (\<forall>q \<in> set (outstanding ?rs x). nonneg q)" for x
    using inv other [of x] new nn by (cases "x = ?t") (auto simp: quota_inv_def)
  with True show ?thesis by (simp add: Release_def quota_inv_def)
qed

subsection \<open>Billing ledger\<close>

record Statement =
  sCPUSeconds :: real
  sGPUSeconds :: real
  sBytesRead :: int
  sBytesWritten :: int
  sJobsCompleted :: int

definition zero_statement :: Statement where
  "zero_statement = \<lparr>sCPUSeconds = 0, sGPUSeconds = 0, sBytesRead = 0, sBytesWritten = 0, sJobsCompleted = 0\<rparr>"

type_synonym Ledger = "(string, Statement) gomap"

definition Statement_of :: "Ledger \<Rightarrow> string \<Rightarrow> Statement" where
  "Statement_of l tenant = lookup0 zero_statement l tenant"

text \<open>\<^verbatim>\<open>dur.Seconds()\<close> of a duration in nanoseconds.\<close>

definition seconds :: "int \<Rightarrow> real" where
  "seconds ns = of_int ns / 10 ^ 9"

definition RecordCompute :: "string \<Rightarrow> Request \<Rightarrow> int \<Rightarrow> Ledger \<Rightarrow> Ledger" where
  "RecordCompute tenant req dur l =
     (let s = Statement_of l tenant
      in AList.update tenant (s\<lparr>sCPUSeconds := sCPUSeconds s + rCPU req * seconds dur,
           sGPUSeconds := sGPUSeconds s + of_int (rGPU req) * seconds dur,
           sJobsCompleted := sJobsCompleted s + 1\<rparr>) l)"

definition RecordIO :: "string \<Rightarrow> int \<Rightarrow> int \<Rightarrow> Ledger \<Rightarrow> Ledger" where
  "RecordIO tenant bytesRead bytesWritten l =
     (let s = Statement_of l tenant;
          s1 = (if bytesRead > 0 then s\<lparr>sBytesRead := sBytesRead s + bytesRead\<rparr> else s);
          s2 = (if bytesWritten > 0 then s1\<lparr>sBytesWritten := sBytesWritten s1 + bytesWritten\<rparr> else s1)
      in AList.update tenant s2 l)"

text \<open>Counters only grow.\<close>

definition stmt_le :: "Statement \<Rightarrow> Statement \<Rightarrow> bool" where
  "stmt_le a b \<longleftrightarrow> sCPUSeconds a \<le> sCPUSeconds b \<and> sGPUSeconds a \<le> sGPUSeconds b \<and> sBytesRead a \<le> sBytesRead b
     \<and> sBytesWritten a \<le> sBytesWritten b \<and> sJobsCompleted a \<le> sJobsCompleted b"

lemma RecordIO_mono: "stmt_le (Statement_of l x) (Statement_of (RecordIO t r w l) x)"
  by (simp add: RecordIO_def Let_def Statement_of_def stmt_le_def)

lemma RecordCompute_mono:
  "nonneg req \<Longrightarrow> 0 \<le> dur \<Longrightarrow> stmt_le (Statement_of l x) (Statement_of (RecordCompute t req dur l) x)"
  by (simp add: RecordCompute_def Let_def Statement_of_def stmt_le_def nonneg_def seconds_def)

subsection \<open>Token bucket\<close>

record bucket =
  tokens :: real
  last_at :: int

record Limiter =
  rate :: real
  burst :: real
  buckets :: "(string, bucket) gomap"

definition New :: "real \<Rightarrow> int \<Rightarrow> Limiter" where
  "New r b = \<lparr>rate = (if r \<le> 0 then 1 else r), burst = (if of_int b \<le> (0::real) then 1 else of_int b), buckets = []\<rparr>"

text \<open>The lazy refill, shared by \<^verbatim>\<open>AllowN\<close> and \<^verbatim>\<open>Tokens\<close>.\<close>

definition refill :: "Limiter \<Rightarrow> int \<Rightarrow> bucket \<Rightarrow> bucket" where
  "refill l now b =
     (let elapsed = seconds (now - last_at b)
      in if elapsed > 0 then \<lparr>tokens = min (burst l) (tokens b + elapsed * rate l), last_at = now\<rparr> else b)"

definition AllowN :: "int \<Rightarrow> string \<Rightarrow> int \<Rightarrow> Limiter \<Rightarrow> bool \<times> Limiter" where
  "AllowN now key n l =
     (if n \<le> 0 then (True, l)
      else let b0 = lookup0 \<lparr>tokens = burst l, last_at = now\<rparr> (buckets l) key;
               b = refill l now b0
           in if tokens b \<ge> of_int n
              then (True, l\<lparr>buckets := AList.update key (b\<lparr>tokens := tokens b - of_int n\<rparr>) (buckets l)\<rparr>)
              else (False, l\<lparr>buckets := AList.update key b (buckets l)\<rparr>))"

definition Allow :: "int \<Rightarrow> string \<Rightarrow> Limiter \<Rightarrow> bool \<times> Limiter" where
  "Allow now key l = AllowN now key 1 l"

definition Tokens :: "int \<Rightarrow> string \<Rightarrow> Limiter \<Rightarrow> real \<times> Limiter" where
  "Tokens now key l =
     (case map_of (buckets l) key of
        None \<Rightarrow> (burst l, l)
      | Some b0 \<Rightarrow> let b = refill l now b0 in (tokens b, l\<lparr>buckets := AList.update key b (buckets l)\<rparr>))"

text \<open>A run of requests \<open>(time, key, n)\<close>, and the tokens it granted to a key.\<close>

fun grants :: "(int \<times> string \<times> int) list \<Rightarrow> string \<Rightarrow> Limiter \<Rightarrow> int" where
  "grants [] key l = 0"
| "grants ((now, k, n) # rs) key l =
     (let (ok, l1) = AllowN now k n l in (if ok \<and> k = key \<and> 0 < n then n else 0) + grants rs key l1)"

definition bucket_inv :: "Limiter \<Rightarrow> bool" where
  "bucket_inv l \<longleftrightarrow> 0 < rate l \<and> 0 < burst l
     \<and> (\<forall>k b. map_of (buckets l) k = Some b \<longrightarrow> 0 \<le> tokens b \<and> tokens b \<le> burst l)"

lemma bucket_inv_New: "bucket_inv (New r b)"
  by (simp add: bucket_inv_def New_def)

text \<open>What a key can draw at time \<open>t\<close>.\<close>

definition avail :: "Limiter \<Rightarrow> string \<Rightarrow> int \<Rightarrow> real" where
  "avail l key t = (case map_of (buckets l) key of None \<Rightarrow> burst l | Some b \<Rightarrow> tokens (refill l t b))"

definition not_after :: "Limiter \<Rightarrow> int \<Rightarrow> bool" where
  "not_after l t \<longleftrightarrow> (\<forall>k b. map_of (buckets l) k = Some b \<longrightarrow> last_at b \<le> t)"

lemma seconds_nonneg [simp]: "0 \<le> seconds d \<longleftrightarrow> 0 \<le> d" "0 < seconds d \<longleftrightarrow> 0 < d"
  by (simp_all add: seconds_def zero_le_divide_iff zero_less_divide_iff)

lemma seconds_split: "seconds (a - c) = seconds (a - b) + seconds (b - c)"
  by (simp add: seconds_def diff_divide_distrib)

lemma refill_tokens:
  "last_at b \<le> t \<Longrightarrow> tokens b \<le> burst l \<Longrightarrow> tokens (refill l t b) = min (burst l) (tokens b + seconds (t - last_at b) * rate l)"
  by (auto simp: refill_def Let_def seconds_def)

lemma refill_last: "last_at b \<le> t \<Longrightarrow> last_at (refill l t b) = t"
  by (simp add: refill_def Let_def)

lemma min_rate: "0 \<le> y \<Longrightarrow> min B (x + y) \<le> min B x + (y::real)"
  by (simp add: min_def)

text \<open>Waiting adds at most \<open>rate\<close> per second.\<close>

lemma avail_wait:
  assumes inv: "bucket_inv l" and na: "not_after l t" and le: "t \<le> now"
  shows "avail l key now \<le> avail l key t + rate l * seconds (now - t)"
proof (cases "map_of (buckets l) key")
  case None
  with inv le show ?thesis by (simp add: avail_def bucket_inv_def)
next
  case (Some b)
  have b: "last_at b \<le> t" "tokens b \<le> burst l" "0 < rate l" using Some inv na by (auto simp: bucket_inv_def not_after_def)
  have y: "0 \<le> rate l * seconds (now - t)" using b(3) le by simp
  from min_rate [OF y, of "burst l" "tokens b + seconds (t - last_at b) * rate l"] b le
  show ?thesis
    by (simp add: avail_def Some refill_tokens seconds_split [of now "last_at b" t] algebra_simps)
qed

text \<open>A draw takes what it grants.\<close>

lemma AllowN_step:
  assumes inv: "bucket_inv l" and na: "not_after l now" and r: "AllowN now k n l = (ok, l1)"
  shows "bucket_inv l1" "not_after l1 now" "rate l1 = rate l" "burst l1 = burst l"
    "avail l1 key now + (if ok \<and> k = key \<and> 0 < n then of_int n else 0) = avail l key now"
proof -
  define b0 where "b0 = lookup0 \<lparr>tokens = burst l, last_at = now\<rparr> (buckets l) k"
  define b where "b = refill l now b0"
  have b0: "last_at b0 \<le> now" "0 \<le> tokens b0" "tokens b0 \<le> burst l" "0 < rate l" "0 < burst l"
    using inv na by (auto simp: b0_def lookup0_def bucket_inv_def not_after_def split: option.split)
  have y: "0 \<le> seconds (now - last_at b0) * rate l" using b0 by simp
  have b: "0 \<le> tokens b" "tokens b \<le> burst l" "last_at b = now"
    using b0 y by (simp_all add: b_def refill_tokens refill_last)
  have again: "refill l' now (b\<lparr>tokens := x\<rparr>) = b\<lparr>tokens := x\<rparr>" "refill l' now b = b" for x l'
    using b(3) by (simp_all add: refill_def seconds_def)
  have av: "avail l k now = tokens b"
    using b0 y by (cases "map_of (buckets l) k")
      (simp_all add: avail_def b_def b0_def lookup0_def refill_def Let_def seconds_def)
  show "bucket_inv l1" "not_after l1 now" "rate l1 = rate l" "burst l1 = burst l"
    using r inv na b b0 unfolding AllowN_def Let_def b0_def [symmetric] b_def [symmetric]
    by (auto simp: bucket_inv_def not_after_def split: if_splits)
  have frame: "refill (l\<lparr>buckets := m\<rparr>) now c = refill l now c" for m c by (simp add: refill_def)
  show "avail l1 key now + (if ok \<and> k = key \<and> 0 < n then of_int n else 0) = avail l key now"
    using r av again unfolding AllowN_def Let_def b0_def [symmetric] b_def [symmetric]
    by (cases "key = k") (auto simp: avail_def frame split: if_splits option.splits)
qed

lemma not_after_mono: "not_after l t \<Longrightarrow> t \<le> t' \<Longrightarrow> not_after l t'"
  by (fastforce simp: not_after_def)

lemma avail_bounds: "bucket_inv l \<Longrightarrow> not_after l t \<Longrightarrow> 0 \<le> avail l key t \<and> avail l key t \<le> burst l"
  by (auto simp: avail_def bucket_inv_def not_after_def refill_tokens split: option.split)

lemma grants_bound:
  assumes "bucket_inv l" "not_after l t" "sorted (map fst rs)" "\<forall>r \<in> set rs. t \<le> fst r \<and> fst r \<le> T" "t \<le> T"
  shows "of_int (grants rs key l) \<le> avail l key t + rate l * seconds (T - t)"
  using assms
proof (induction rs arbitrary: l t)
  case Nil
  have "0 \<le> rate l * seconds (T - t)" using Nil by (simp add: bucket_inv_def)
  with avail_bounds [OF Nil(1,2)] show ?case by simp
next
  case (Cons r rs)
  obtain now k n where r: "r = (now, k, n)" by (cases r) auto
  obtain ok l1 where a: "AllowN now k n l = (ok, l1)" by fastforce
  have now: "t \<le> now" "now \<le> T" using Cons.prems r by auto
  note na = not_after_mono [OF Cons.prems(2) now(1)]
  note st = AllowN_step [OF Cons.prems(1) na a]
  have "of_int (grants rs key l1) \<le> avail l1 key now + rate l * seconds (T - now)"
    using Cons.prems r now unfolding st(3) [symmetric] by (intro Cons.IH [OF st(1,2)]) auto
  moreover have "real_of_int (grants (r # rs) key l) = (if ok \<and> k = key \<and> 0 < n then of_int n else 0) + of_int (grants rs key l1)"
    by (simp add: r a)
  moreover have "avail l key now \<le> avail l key t + rate l * seconds (now - t)"
    by (rule avail_wait [OF Cons.prems(1,2) now(1)])
  moreover have "rate l * seconds (T - t) = rate l * seconds (T - now) + rate l * seconds (now - t)"
    by (simp add: seconds_split [of T t now] distrib_left)
  ultimately show ?case using st(5) [of key] by linarith
qed

subsection \<open>Histories of reservations\<close>

datatype quota_op = QSet string TenantQuota | QReserve string Request | QRelease nat

fun quota_run :: "quota_op \<Rightarrow> Reservation list \<times> Enforcer \<Rightarrow> Reservation list \<times> Enforcer" where
  "quota_run (QSet t q) (rs, e) = (rs, SetQuota t q e)"
| "quota_run (QReserve t req) (rs, e) = (case Reserve t req e of (Ok r, e') \<Rightarrow> (rs @ [r], e') | (_, e') \<Rightarrow> (rs, e'))"
| "quota_run (QRelease i) re = Release i re"

fun quota_op_ok :: "quota_op \<Rightarrow> bool" where
  "quota_op_ok (QReserve t req) = nonneg req"
| "quota_op_ok _ = True"

lemma quota_inv_run:
  assumes "quota_inv (rs, e)" "quota_op_ok x"
  shows "quota_inv (quota_run x (rs, e))"
proof (cases x)
  case (QSet t q)
  with assms(1) show ?thesis by (simp add: quota_inv_def SetQuota_def Usage_of_def)
next
  case (QReserve t req)
  obtain r e' where r: "Reserve t req e = (r, e')" by fastforce
  show ?thesis
  proof (cases r)
    case (Ok rv)
    with QReserve r quota_inv_Reserve [OF assms(1), of req t rv e'] assms(2) show ?thesis by simp
  next
    case (Err m)
    then have "e' = e" using r by (auto simp: Reserve_def Let_def split: option.splits if_splits)
    with QReserve r Err assms(1) show ?thesis by simp
  next
    case Panic
    with r show ?thesis by (auto simp: Reserve_def Let_def split: option.splits if_splits)
  qed
next
  case (QRelease i)
  with quota_inv_Release [OF assms(1), of i] show ?thesis by simp
qed

lemma quota_inv_fold: "quota_inv re \<Longrightarrow> \<forall>x \<in> set xs. quota_op_ok x \<Longrightarrow> quota_inv (fold quota_run xs re)"
proof (induction xs arbitrary: re)
  case (Cons x xs)
  obtain rs e where re: "re = (rs, e)" by fastforce
  with Cons quota_inv_run [of rs e x] show ?case by simp
qed simp

text \<open>A reservation that is granted fits the quota it was checked against.\<close>

lemma Reserve_fits:
  "Reserve t req e = (Ok r, e') \<Longrightarrow> \<exists>q. map_of (quota e) t = Some q \<and> fits_quota (Usage_of e' t) q"
  by (auto simp: Reserve_def Let_def fits_quota_def Usage_of_def split: option.splits if_splits)

subsection \<open>Properties\<close>


definition demo_quota :: TenantQuota where
  "demo_quota = \<lparr>qCPU = 4, qMem = 100, qGPU = 1, qJobs = 2\<rparr>"

definition demo_req :: Request where
  "demo_req = \<lparr>rCPU = 2, rMem = 10, rGPU = 1\<rparr>"




end
