(* ===== verification/Eviction.thy ===== *)
theory Eviction
  imports Prelude
begin

section \<open>Eviction policies\<close>

text \<open>
  \<^verbatim>\<open>internal/cache/policy.go\<close> (LRU), \<^verbatim>\<open>clock.go\<close> (CLOCK) and \<^verbatim>\<open>s3fifo.go\<close> (S3-FIFO).
  The locale \<open>eviction_policy\<close> is the interface \<^verbatim>\<open>EvictionPolicy\<close> with what the cache relies on;
  each of the three policies interprets it. A doubly linked list with an element map is a list of
  distinct ids (the map is membership); CLOCK's hand is the id it points at.
\<close>

subsection \<open>The interface\<close>

text \<open>\<open>victim\<close> names the next id to evict and may change the bookkeeping. S3-FIFO already drops the
  victim there, so the contract speaks of \<open>victim\<close> followed by \<open>remove\<close>, which is how the cache
  uses them.\<close>

locale eviction_policy =
  fixes add :: "string \<Rightarrow> 'p \<Rightarrow> 'p"
    and access :: "string \<Rightarrow> 'p \<Rightarrow> 'p"
    and victim :: "'p \<Rightarrow> string option \<times> 'p"
    and remove :: "string \<Rightarrow> 'p \<Rightarrow> 'p"
    and len :: "'p \<Rightarrow> nat"
    and resident :: "'p \<Rightarrow> string set"
    and pinv :: "'p \<Rightarrow> bool"
  assumes add_inv: "pinv p \<Longrightarrow> pinv (add x p) \<and> resident (add x p) = insert x (resident p)"
    and access_inv: "pinv p \<Longrightarrow> pinv (access x p) \<and> resident (access x p) = resident p"
    and victim_some: "pinv p \<Longrightarrow> resident p \<noteq> {} \<Longrightarrow>
      \<exists>x p'. victim p = (Some x, p') \<and> x \<in> resident p \<and> pinv (remove x p') \<and> resident (remove x p') = resident p - {x}"
    and len_card: "pinv p \<Longrightarrow> finite (resident p) \<and> len p = card (resident p)"

subsection \<open>LRU\<close>

type_synonym lruPolicy = "string list"

definition NewLRU :: lruPolicy where
  "NewLRU = []"

definition lru_Add :: "string \<Rightarrow> lruPolicy \<Rightarrow> lruPolicy" where
  "lru_Add x ll = (if x \<in> set ll then x # remove1 x ll else x # ll)"

definition lru_Access :: "string \<Rightarrow> lruPolicy \<Rightarrow> lruPolicy" where
  "lru_Access x ll = (if x \<in> set ll then x # remove1 x ll else ll)"

definition lru_Victim :: "lruPolicy \<Rightarrow> string option \<times> lruPolicy" where
  "lru_Victim ll = (if ll = [] then (None, ll) else (Some (last ll), ll))"

definition lru_Remove :: "string \<Rightarrow> lruPolicy \<Rightarrow> lruPolicy" where
  "lru_Remove x ll = remove1 x ll"

definition lru_Len :: "lruPolicy \<Rightarrow> nat" where
  "lru_Len ll = length ll"

interpretation lru: eviction_policy lru_Add lru_Access lru_Victim lru_Remove lru_Len set distinct
proof
  show "distinct p \<Longrightarrow> distinct (lru_Add x p) \<and> set (lru_Add x p) = insert x (set p)" for p :: lruPolicy and x
    by (auto simp: lru_Add_def)
  show "distinct p \<Longrightarrow> distinct (lru_Access x p) \<and> set (lru_Access x p) = set p" for p :: lruPolicy and x
    by (auto simp: lru_Access_def)
  show "\<exists>x p'. lru_Victim p = (Some x, p') \<and> x \<in> set p \<and> distinct (lru_Remove x p') \<and> set (lru_Remove x p') = set p - {x}"
    if "distinct p" "set p \<noteq> {}" for p :: lruPolicy
    using that by (auto simp: lru_Victim_def lru_Remove_def)
  show "distinct p \<Longrightarrow> finite (set p) \<and> lru_Len p = card (set p)" for p :: lruPolicy
    by (simp add: lru_Len_def distinct_card)
qed

text \<open>The victim is never the most recently used id while another is left.\<close>

lemma lru_victim_not_front:
  "distinct (x # ll) \<Longrightarrow> ll \<noteq> [] \<Longrightarrow>
     \<exists>v. lru_Victim (x # ll) = (Some v, x # ll) \<and> v \<noteq> x \<and> lru_Remove v (x # ll) = x # remove1 v ll"
  using last_in_set [of ll] by (auto simp: lru_Victim_def lru_Remove_def)

subsection \<open>CLOCK\<close>

text \<open>The ring in sweep order, each id with its reference bit, and the hand.\<close>

record clockPolicy =
  ring :: "(string, bool) gomap"
  hand :: "string option"

definition NewClock :: clockPolicy where
  "NewClock = \<lparr>ring = [], hand = None\<rparr>"

definition clock_Add :: "string \<Rightarrow> clockPolicy \<Rightarrow> clockPolicy" where
  "clock_Add x p = p\<lparr>ring := AList.update x True (ring p)\<rparr>"

definition clock_Access :: "string \<Rightarrow> clockPolicy \<Rightarrow> clockPolicy" where
  "clock_Access x p = (case map_of (ring p) x of None \<Rightarrow> p | Some _ \<Rightarrow> p\<lparr>ring := AList.update x True (ring p)\<rparr>)"

text \<open>\<^verbatim>\<open>advance\<close>: the id after \<open>x\<close>, wrapping to the front.\<close>

fun next_id :: "string \<Rightarrow> string list \<Rightarrow> string option" where
  "next_id x (a # b # xs) = (if a = x then Some b else next_id x (b # xs))"
| "next_id x _ = None"

definition advance :: "string \<Rightarrow> string list \<Rightarrow> string option" where
  "advance x ids = (case next_id x ids of Some y \<Rightarrow> Some y | None \<Rightarrow> (case ids of [] \<Rightarrow> None | y # _ \<Rightarrow> Some y))"

lemma count_set_bits: "map_of m x = Some True \<Longrightarrow> count_map (\<lambda>b. b) (AList.update x False m) < count_map (\<lambda>b. b) m"
  by (induction m) (auto split: if_splits)

text \<open>The sweep: the number of set bits falls with every turn. A hand that is nowhere on the ring
  would be a dangling pointer; the invariant excludes it.\<close>

function clock_sweep :: "clockPolicy \<Rightarrow> string option \<times> clockPolicy" where
  "clock_sweep p =
     (case hand p of
        None \<Rightarrow> (None, p)
      | Some h \<Rightarrow>
          (case map_of (ring p) h of
             None \<Rightarrow> (None, p)
           | Some False \<Rightarrow> (Some h, p)
           | Some True \<Rightarrow> clock_sweep (p\<lparr>ring := AList.update h False (ring p), hand := advance h (map fst (ring p))\<rparr>)))"
  by pat_completeness auto
termination
  by (relation "measure (\<lambda>p. count_map (\<lambda>b. b) (ring p))") (auto simp: count_set_bits)

declare clock_sweep.simps [simp del]

definition clock_Victim :: "clockPolicy \<Rightarrow> string option \<times> clockPolicy" where
  "clock_Victim p =
     (if ring p = [] then (None, p)
      else clock_sweep (if hand p = None then p\<lparr>hand := Some (fst (hd (ring p)))\<rparr> else p))"

definition clock_Remove :: "string \<Rightarrow> clockPolicy \<Rightarrow> clockPolicy" where
  "clock_Remove x p =
     (case map_of (ring p) x of
        None \<Rightarrow> p
      | Some _ \<Rightarrow>
          p\<lparr>hand := (if hand p = Some x
                     then (let nx = advance x (map fst (ring p)) in if nx = Some x then None else nx)
                     else hand p),
            ring := AList.delete x (ring p)\<rparr>)"

definition clock_Len :: "clockPolicy \<Rightarrow> nat" where
  "clock_Len p = length (ring p)"

definition clock_inv :: "clockPolicy \<Rightarrow> bool" where
  "clock_inv p \<longleftrightarrow> distinct (map fst (ring p)) \<and> (case hand p of None \<Rightarrow> True | Some h \<Rightarrow> h \<in> fst ` set (ring p))"

abbreviation clock_resident :: "clockPolicy \<Rightarrow> string set" where
  "clock_resident p \<equiv> fst ` set (ring p)"

lemma next_id_Some: "next_id x ids = Some y \<Longrightarrow> distinct ids \<Longrightarrow> y \<in> set ids \<and> y \<noteq> x"
proof (induction x ids rule: next_id.induct)
  case (1 x a b xs)
  then show ?case by (cases "a = x") auto
qed auto

lemma advance_mem: "x \<in> set ids \<Longrightarrow> distinct ids \<Longrightarrow> \<exists>y. advance x ids = Some y \<and> y \<in> set ids"
  by (cases ids) (auto simp: advance_def split: option.split dest: next_id_Some)

lemma clock_sweep_spec:
  assumes "clock_inv p" "hand p \<noteq> None"
  shows "\<exists>x p'. clock_sweep p = (Some x, p') \<and> x \<in> clock_resident p \<and> clock_inv p' \<and> clock_resident p' = clock_resident p"
  using assms
proof (induction p rule: clock_sweep.induct)
  case (1 p)
  obtain h where h: "hand p = Some h" using 1 by auto
  then have mem: "h \<in> clock_resident p" using 1 by (simp add: clock_inv_def)
  then obtain b where b: "map_of (ring p) h = Some b" by (metis map_of_eq_None_iff not_None_eq)
  show ?case
  proof (cases b)
    case False
    with h b mem 1 show ?thesis by (subst clock_sweep.simps) auto
  next
    case True
    let ?p = "p\<lparr>ring := AList.update h False (ring p), hand := advance h (map fst (ring p))\<rparr>"
    have res: "clock_resident ?p = clock_resident p" using mem by auto
    obtain y where y: "advance h (map fst (ring p)) = Some y" "y \<in> clock_resident p"
      using advance_mem [of h "map fst (ring p)"] mem 1 by (auto simp: clock_inv_def)
    have inv: "clock_inv ?p" using 1 y res unfolding clock_inv_def by simp
    have "clock_sweep p = clock_sweep ?p" using h b True by (subst clock_sweep.simps) simp
    moreover have "\<exists>x p'. clock_sweep ?p = (Some x, p') \<and> x \<in> clock_resident ?p \<and> clock_inv p' \<and> clock_resident p' = clock_resident ?p"
      using 1(1) [OF h b] True inv y by simp
    ultimately show ?thesis unfolding res by simp
  qed
qed

lemma clock_Remove_inv:
  assumes "clock_inv p" "x \<in> clock_resident p"
  shows "clock_inv (clock_Remove x p)" "clock_resident (clock_Remove x p) = clock_resident p - {x}"
proof -
  obtain b where b: "map_of (ring p) x = Some b" using assms(2) by (metis map_of_eq_None_iff not_None_eq)
  have res: "fst ` set (AList.delete x (ring p)) = clock_resident p - {x}" 
    using arg_cong [OF delete_keys [of x "ring p"], of set] by simp
  show "clock_resident (clock_Remove x p) = clock_resident p - {x}" by (simp add: clock_Remove_def b res)
  obtain y where y: "advance x (map fst (ring p)) = Some y" "y \<in> clock_resident p"
    using advance_mem [of x "map fst (ring p)"] assms by (auto simp: clock_inv_def)
  show "clock_inv (clock_Remove x p)"
    using assms(1) y unfolding clock_inv_def clock_Remove_def b
    by (auto simp: res Let_def distinct_delete split: option.splits)
qed

interpretation clock: eviction_policy clock_Add clock_Access clock_Victim clock_Remove clock_Len clock_resident clock_inv
proof
  show "clock_inv (clock_Add x p) \<and> clock_resident (clock_Add x p) = insert x (clock_resident p)" if "clock_inv p" for x p
    using that by (auto simp: clock_inv_def clock_Add_def split: option.splits)
  show "clock_inv (clock_Access x p) \<and> clock_resident (clock_Access x p) = clock_resident p" if "clock_inv p" for x p
  proof (cases "map_of (ring p) x")
    case None
    with that show ?thesis by (simp add: clock_Access_def)
  next
    case (Some b)
    then have "x \<in> clock_resident p" by (metis domI dom_map_of_conv_image_fst)
    with that Some show ?thesis by (auto simp: clock_inv_def clock_Access_def split: option.splits)
  qed
  show "\<exists>x p'. clock_Victim p = (Some x, p') \<and> x \<in> clock_resident p \<and> clock_inv (clock_Remove x p')
      \<and> clock_resident (clock_Remove x p') = clock_resident p - {x}"
    if "clock_inv p" "clock_resident p \<noteq> {}" for p
  proof -
    let ?p = "if hand p = None then p\<lparr>hand := Some (fst (hd (ring p)))\<rparr> else p"
    have ne: "ring p \<noteq> []" using that by auto
    have "clock_inv ?p" "hand ?p \<noteq> None" using that ne by (auto simp: clock_inv_def)
    from clock_sweep_spec [OF this] obtain x p' where s: "clock_sweep ?p = (Some x, p')" "x \<in> clock_resident ?p"
      "clock_inv p'" "clock_resident p' = clock_resident ?p" by blast
    have res: "clock_resident ?p = clock_resident p" by simp
    have v: "clock_Victim p = (Some x, p')" using s(1) ne by (simp only: clock_Victim_def if_False)
    from clock_Remove_inv [OF s(3), of x] s(2,4) res v show ?thesis by (intro exI [of _ x] exI [of _ p']) simp
  qed
  show "finite (clock_resident p) \<and> clock_Len p = card (clock_resident p)" if "clock_inv p" for p
    using that distinct_card [of "map fst (ring p)"] by (simp add: clock_inv_def clock_Len_def)
qed

subsection \<open>S3-FIFO\<close>

text \<open>The queues front first; each resident id with its reference count (0 to 3). \<^verbatim>\<open>nodes\<close> is the
  union of the two queues, \<^verbatim>\<open>ghostSet\<close> membership in the ghost queue.\<close>

record s3fifo =
  small :: "(string \<times> nat) list"
  main :: "(string \<times> nat) list"
  ghost :: "string list"
  ghostCap :: nat

definition NewS3FIFO :: s3fifo where
  "NewS3FIFO = \<lparr>small = [], main = [], ghost = [], ghostCap = 0\<rparr>"

definition s3_nodes :: "s3fifo \<Rightarrow> string list" where
  "s3_nodes p = map fst (small p) @ map fst (main p)"

definition bump :: "string \<Rightarrow> (string \<times> nat) list \<Rightarrow> (string \<times> nat) list" where
  "bump x q = map (\<lambda>(y, f). (y, if y = x \<and> f < 3 then f + 1 else f)) q"

definition s3_Access :: "string \<Rightarrow> s3fifo \<Rightarrow> s3fifo" where
  "s3_Access x p = (if x \<in> set (s3_nodes p) then p\<lparr>small := bump x (small p), main := bump x (main p)\<rparr> else p)"

definition s3_Add :: "string \<Rightarrow> s3fifo \<Rightarrow> s3fifo" where
  "s3_Add x p =
     (if x \<in> set (s3_nodes p) then p\<lparr>small := bump x (small p), main := bump x (main p)\<rparr>
      else let p1 = (if x \<in> set (ghost p) then p\<lparr>ghost := remove1 x (ghost p), main := main p @ [(x, 0)]\<rparr>
                     else p\<lparr>small := small p @ [(x, 0)]\<rparr>)
           in p1\<lparr>ghostCap := max (ghostCap p1) (length (s3_nodes p1))\<rparr>)"

fun trim_front :: "nat \<Rightarrow> string list \<Rightarrow> string list" where
  "trim_front cap [] = []"
| "trim_front cap (x # xs) = (if length (x # xs) > cap then trim_front cap xs else x # xs)"

definition pushGhost :: "string \<Rightarrow> s3fifo \<Rightarrow> s3fifo" where
  "pushGhost x p = (if x \<in> set (ghost p) then p else p\<lparr>ghost := trim_front (ghostCap p) (ghost p @ [x])\<rparr>)"

definition evictSmall :: "s3fifo \<Rightarrow> string option \<times> s3fifo" where
  "evictSmall p =
     (case small p of
        [] \<Rightarrow> (None, p)
      | (x, f) # q \<Rightarrow>
          if f > 0 then (None, p\<lparr>small := q, main := main p @ [(x, f)]\<rparr>)
          else (Some x, pushGhost x (p\<lparr>small := q\<rparr>)))"

definition evictMain :: "s3fifo \<Rightarrow> string option \<times> s3fifo" where
  "evictMain p =
     (case main p of
        [] \<Rightarrow> (None, p)
      | (x, f) # q \<Rightarrow>
          if f > 0 then (None, p\<lparr>main := q @ [(x, f - 1)]\<rparr>)
          else (Some x, p\<lparr>main := q\<rparr>))"

definition s3_work :: "s3fifo \<Rightarrow> nat" where
  "s3_work p = sum_list (map snd (small p)) + sum_list (map snd (main p)) + length (small p)"

lemma s3_work_small: "small p \<noteq> [] \<Longrightarrow> evictSmall p = (None, p') \<Longrightarrow> s3_work p' < s3_work p"
  by (auto simp: evictSmall_def s3_work_def split: list.splits if_splits)

lemma s3_work_main: "main p \<noteq> [] \<Longrightarrow> evictMain p = (None, p') \<Longrightarrow> s3_work p' < s3_work p"
  by (auto simp: evictMain_def s3_work_def split: list.splits if_splits)

text \<open>The loop of \<^verbatim>\<open>Victim\<close>: a promotion shortens the small queue, a decay lowers a count.\<close>

function s3_loop :: "s3fifo \<Rightarrow> string option \<times> s3fifo" where
  "s3_loop p =
     (let target = max 1 ((length (small p) + length (main p)) div 10)
      in if length (small p) \<ge> target then
           (case evictSmall p of (Some x, p') \<Rightarrow> (Some x, p') | (None, p') \<Rightarrow> s3_loop p')
         else if main p \<noteq> [] then
           (case evictMain p of (Some x, p') \<Rightarrow> (Some x, p') | (None, p') \<Rightarrow> s3_loop p')
         else if small p \<noteq> [] then
           (case evictSmall p of (Some x, p') \<Rightarrow> (Some x, p') | (None, p') \<Rightarrow> s3_loop p')
         else (None, p))"
  by pat_completeness auto
termination
proof (relation "measure s3_work", goal_cases)
  case (2 p target v p')
  then have "small p \<noteq> []" by auto
  with 2 show ?case by (auto intro: s3_work_small)
qed (auto intro: s3_work_main s3_work_small)

declare s3_loop.simps [simp del]

definition s3_Victim :: "s3fifo \<Rightarrow> string option \<times> s3fifo" where
  "s3_Victim p = (if s3_nodes p = [] then (None, p) else s3_loop p)"

definition s3_Remove :: "string \<Rightarrow> s3fifo \<Rightarrow> s3fifo" where
  "s3_Remove x p =
     (if x \<notin> set (s3_nodes p) then p
      else if x \<in> set (map fst (main p)) then p\<lparr>main := filter (\<lambda>(y, _). y \<noteq> x) (main p)\<rparr>
      else p\<lparr>small := filter (\<lambda>(y, _). y \<noteq> x) (small p)\<rparr>)"

definition s3_Len :: "s3fifo \<Rightarrow> nat" where
  "s3_Len p = length (s3_nodes p)"

definition s3_inv :: "s3fifo \<Rightarrow> bool" where
  "s3_inv p \<longleftrightarrow> distinct (s3_nodes p) \<and> (\<forall>e \<in> set (small p @ main p). snd e \<le> 3)"

abbreviation s3_resident :: "s3fifo \<Rightarrow> string set" where
  "s3_resident p \<equiv> set (s3_nodes p)"

lemma bump_fst [simp]: "map fst (bump x q) = map fst q"
  by (induction q) (auto simp: bump_def)

lemma bump_le: "\<forall>e \<in> set q. snd e \<le> 3 \<Longrightarrow> \<forall>e \<in> set (bump x q). snd e \<le> 3"
  by (auto simp: bump_def)

lemma s3_bump:
  fixes x p
  defines "p' \<equiv> p\<lparr>small := bump x (small p), main := bump x (main p)\<rparr>"
  shows "s3_nodes p' = s3_nodes p" "s3_inv p \<Longrightarrow> s3_inv p'"
proof -
  show n: "s3_nodes p' = s3_nodes p" by (simp add: p'_def s3_nodes_def)
  show "s3_inv p'" if "s3_inv p"
  proof -
    have a: "\<forall>e \<in> set (small p). snd e \<le> 3" "\<forall>e \<in> set (main p). snd e \<le> 3" and d: "distinct (s3_nodes p)"
      using that by (simp_all add: s3_inv_def)
    have "\<forall>e \<in> set (small p' @ main p'). snd e \<le> 3"
      using bump_le [OF a(1), of x] bump_le [OF a(2), of x] by (simp add: p'_def ball_Un)
    with d show ?thesis by (simp only: s3_inv_def n)
  qed
qed

lemma pushGhost_queues [simp]: "small (pushGhost x p) = small p" "main (pushGhost x p) = main p"
  by (simp_all add: pushGhost_def)

lemma s3_nodes_pushGhost [simp]: "s3_nodes (pushGhost x p) = s3_nodes p" "s3_inv (pushGhost x p) = s3_inv p"
  by (simp_all add: s3_nodes_def s3_inv_def)

text \<open>One turn keeps the residents, or drops exactly the id it returns.\<close>

definition s3_turn_ok :: "s3fifo \<Rightarrow> string option \<times> s3fifo \<Rightarrow> bool" where
  "s3_turn_ok p r = (s3_inv (snd r) \<and> (case fst r of
     None \<Rightarrow> s3_resident (snd r) = s3_resident p
   | Some x \<Rightarrow> x \<in> s3_resident p \<and> s3_resident (snd r) = s3_resident p - {x}))"

lemma s3_turn_okI:
  assumes "s3_inv p" "\<forall>e \<in> set (small p' @ main p'). snd e \<le> 3"
    and "s3_nodes p = xs @ x # ys" "s3_nodes p' = xs @ ys \<and> v = Some x \<or> mset (s3_nodes p') = mset (s3_nodes p) \<and> v = None"
  shows "s3_turn_ok p (v, p')"
proof -
  have d: "distinct (xs @ x # ys)" using assms(1,3) by (simp add: s3_inv_def)
  from assms(4) show ?thesis
  proof (elim disjE conjE)
    assume "s3_nodes p' = xs @ ys" "v = Some x"
    with d assms(2,3) show ?thesis by (auto simp: s3_turn_ok_def s3_inv_def)
  next
    assume m: "mset (s3_nodes p') = mset (s3_nodes p)" "v = None"
    then have "set (s3_nodes p') = set (s3_nodes p)" "distinct (s3_nodes p')"
      using assms(1) mset_eq_setD mset_eq_imp_distinct_iff by (blast, metis s3_inv_def)
    with assms(2) m(2) show ?thesis by (simp add: s3_turn_ok_def s3_inv_def)
  qed
qed

lemma evictSmall_ok:
  assumes "s3_inv p"
  shows "s3_turn_ok p (evictSmall p)"
proof (cases "small p")
  case Nil
  with assms show ?thesis by (simp add: evictSmall_def s3_turn_ok_def)
next
  case (Cons e q)
  obtain x f where e: "e = (x, f)" by fastforce
  have le: "\<forall>e \<in> set q. snd e \<le> 3" "f \<le> 3" "\<forall>e \<in> set (main p). snd e \<le> 3" using assms Cons e by (auto simp: s3_inv_def)
  show ?thesis
  proof (cases "f > 0")
    case True
    then show ?thesis using le
      by (simp add: evictSmall_def Cons e) (rule s3_turn_okI [OF assms, of _ "[]" x "map fst q @ map fst (main p)"],
        auto simp: s3_nodes_def Cons e)
  next
    case False
    then show ?thesis using le
      by (simp add: evictSmall_def Cons e) (rule s3_turn_okI [OF assms, of _ "[]" x "map fst q @ map fst (main p)"],
        auto simp: s3_nodes_def Cons e)
  qed
qed

lemma evictMain_ok:
  assumes "s3_inv p"
  shows "s3_turn_ok p (evictMain p)"
proof (cases "main p")
  case Nil
  with assms show ?thesis by (simp add: evictMain_def s3_turn_ok_def)
next
  case (Cons e q)
  obtain x f where e: "e = (x, f)" by fastforce
  have le: "\<forall>e \<in> set q. snd e \<le> 3" "f \<le> 3" "\<forall>e \<in> set (small p). snd e \<le> 3" using assms Cons e by (auto simp: s3_inv_def)
  show ?thesis
  proof (cases "f > 0")
    case True
    then show ?thesis using le
      by (simp add: evictMain_def Cons e) (rule s3_turn_okI [OF assms, of _ "map fst (small p)" x "map fst q"],
        auto simp: s3_nodes_def Cons e)
  next
    case False
    then show ?thesis using le
      by (simp add: evictMain_def Cons e) (rule s3_turn_okI [OF assms, of _ "map fst (small p)" x "map fst q"],
        auto simp: s3_nodes_def Cons e)
  qed
qed

lemma s3_turn_trans: "s3_turn_ok p (None, p') \<Longrightarrow> s3_turn_ok p' r \<Longrightarrow> s3_turn_ok p r"
  by (simp add: s3_turn_ok_def split: option.splits)

lemma s3_loop_spec:
  assumes "s3_inv p" "s3_nodes p \<noteq> []"
  shows "fst (s3_loop p) \<noteq> None \<and> s3_turn_ok p (s3_loop p)"
  using assms
proof (induction p rule: s3_loop.induct)
  case (1 p)
  let ?target = "max 1 ((length (small p) + length (main p)) div 10)"
  have turn: ?case if step: "s3_loop p = (case ev of (Some x, p') \<Rightarrow> (Some x, p') | (None, p') \<Rightarrow> s3_loop p')"
    and ok: "s3_turn_ok p ev"
    and IH: "\<And>p'. ev = (None, p') \<Longrightarrow> s3_inv p' \<Longrightarrow> s3_nodes p' \<noteq> [] \<Longrightarrow> fst (s3_loop p') \<noteq> None \<and> s3_turn_ok p' (s3_loop p')" for ev
  proof (cases ev)
    case (Pair v p')
    show ?thesis
    proof (cases v)
      case None
      with ok Pair have ok': "s3_turn_ok p (None, p')" by simp
      then have "s3_inv p'" "s3_nodes p' \<noteq> []" using "1.prems"(2) by (auto simp: s3_turn_ok_def)
      with IH Pair None step ok' show ?thesis by (auto intro: s3_turn_trans)
    next
      case (Some x)
      with step ok Pair show ?thesis by simp
    qed
  qed
  consider (a) "length (small p) \<ge> ?target" | (b) "\<not> length (small p) \<ge> ?target" "main p \<noteq> []"
    | (c) "\<not> length (small p) \<ge> ?target" "main p = []" "small p \<noteq> []"
    using "1.prems"(2) unfolding s3_nodes_def by blast
  then show ?case
  proof cases
    case a
    show ?thesis
    proof (rule turn [of "evictSmall p"])
      show "s3_loop p = (case evictSmall p of (Some x, p') \<Rightarrow> (Some x, p') | (None, p') \<Rightarrow> s3_loop p')"
        using a by (subst s3_loop.simps) (simp only: Let_def if_True)
    qed (use evictSmall_ok [OF "1.prems"(1)] "1.IH"(1) [OF refl a] in auto)
  next
    case b
    show ?thesis
    proof (rule turn [of "evictMain p"])
      show "s3_loop p = (case evictMain p of (Some x, p') \<Rightarrow> (Some x, p') | (None, p') \<Rightarrow> s3_loop p')"
        using b by (subst s3_loop.simps) (simp only: Let_def if_True if_False simp_thms)
    qed (use evictMain_ok [OF "1.prems"(1)] "1.IH"(2) [OF refl b] in auto)
  next
    case c
    show ?thesis
    proof (rule turn [of "evictSmall p"])
      show "s3_loop p = (case evictSmall p of (Some x, p') \<Rightarrow> (Some x, p') | (None, p') \<Rightarrow> s3_loop p')"
        using c by (subst s3_loop.simps) (simp only: Let_def if_True if_False simp_thms)
    qed (use evictSmall_ok [OF "1.prems"(1)] "1.IH"(3) [OF refl c(1)] c in auto)
  qed
qed

interpretation s3: eviction_policy s3_Add s3_Access s3_Victim s3_Remove s3_Len s3_resident s3_inv
proof
  show "s3_inv (s3_Add x p) \<and> s3_resident (s3_Add x p) = insert x (s3_resident p)" if "s3_inv p" for x p
  proof (cases "x \<in> s3_resident p")
    case True
    with that s3_bump [where p = p and x = x] show ?thesis by (auto simp: s3_Add_def)
  next
    case False
    then have "x \<notin> set (map fst (small p))" "x \<notin> set (map fst (main p))" by (simp_all add: s3_nodes_def)
    with that False show ?thesis
      by (simp add: s3_Add_def Let_def) (simp add: s3_inv_def s3_nodes_def; blast)
  qed
  show "s3_inv (s3_Access x p) \<and> s3_resident (s3_Access x p) = s3_resident p" if "s3_inv p" for x p
    using that s3_bump [where p = p and x = x] by (simp add: s3_Access_def)
  show "\<exists>x p'. s3_Victim p = (Some x, p') \<and> x \<in> s3_resident p \<and> s3_inv (s3_Remove x p')
      \<and> s3_resident (s3_Remove x p') = s3_resident p - {x}"
    if "s3_inv p" "s3_resident p \<noteq> {}" for p
  proof -
    have "s3_nodes p \<noteq> []" using that by auto
    with s3_loop_spec [OF that(1) this] obtain x p' where v: "s3_Victim p = (Some x, p')" and ok: "s3_turn_ok p (Some x, p')"
      by (cases "s3_loop p") (auto simp: s3_Victim_def)
    then have "x \<notin> s3_resident p'" by (simp add: s3_turn_ok_def)
    then have "s3_Remove x p' = p'" by (simp add: s3_Remove_def)
    with v ok show ?thesis by (simp add: s3_turn_ok_def)
  qed
  show "finite (s3_resident p) \<and> s3_Len p = card (s3_resident p)" if "s3_inv p" for p
    using that by (simp add: s3_inv_def s3_Len_def distinct_card)
qed

end
