(* ===== verification/Cache.thy ===== *)
theory Cache
  imports Eviction Go_Hash
begin

section \<open>The object cache\<close>

text \<open>
  \<^verbatim>\<open>internal/cache/local_cache.go\<close> and \<^verbatim>\<open>eviction.go\<close>. The eviction policy is a record of
  operations; what the cache needs of it is the locale \<open>eviction_policy\<close>, and the lemmas about the
  cache are proved once in that locale. The cache directory is the map \<open>files\<close> (path to size). Byte
  counts are sums of file sizes and stay far below \<open>2 ^ 63\<close>; they are plain integers.
\<close>

record 'p policy_ops =
  poAdd :: "string \<Rightarrow> 'p \<Rightarrow> 'p"
  poAccess :: "string \<Rightarrow> 'p \<Rightarrow> 'p"
  poVictim :: "'p \<Rightarrow> string option \<times> 'p"
  poRemove :: "string \<Rightarrow> 'p \<Rightarrow> 'p"
  poLen :: "'p \<Rightarrow> nat"

record entry =
  ePath :: string
  eSize :: int

record 'p Cache =
  root :: string
  maxBytes :: int
  curBytes :: int
  policy :: 'p
  objects :: "(string, entry) gomap"
  inflight :: "string list"
  hits :: nat
  misses :: nat
  files :: "(string, int) gomap"

definition idFor :: "string \<Rightarrow> string" where
  "idFor key = hex_encode (sha256_sum (bytes_of key))"

definition join :: "string \<Rightarrow> string \<Rightarrow> string" where
  "join dir name = dir @ ''/'' @ name"

subsection \<open>Eviction\<close>

text \<open>The loop of \<^verbatim>\<open>evictLocked\<close>. \<open>rm path\<close> says whether removing the file fails (which is only
  logged). \<open>None\<close> would be a loop that never ends, \<open>Panic\<close> the dereference of an object the policy
  names but the cache does not hold.\<close>

partial_function (option) evictLocked ::
  "'p policy_ops \<Rightarrow> (string \<Rightarrow> bool) \<Rightarrow> 'p Cache \<Rightarrow> 'p Cache outcome option" where
  "evictLocked ops rm c =
     (if curBytes c > maxBytes c \<and> poLen ops (policy c) > 1 then
        (case poVictim ops (policy c) of
           (None, p) \<Rightarrow> Some (Ok (c\<lparr>policy := p\<rparr>))
         | (Some x, p) \<Rightarrow>
             (case map_of (objects c) x of
                None \<Rightarrow> Some Panic
              | Some e \<Rightarrow>
                  evictLocked ops rm (c\<lparr>policy := poRemove ops x p, objects := AList.delete x (objects c),
                    curBytes := curBytes c - eSize e,
                    files := (if rm (ePath e) then files c else AList.delete (ePath e) (files c))\<rparr>)))
      else Some (Ok c))"

declare evictLocked.simps [code]

definition admit ::
  "'p policy_ops \<Rightarrow> (string \<Rightarrow> bool) \<Rightarrow> string \<Rightarrow> string \<Rightarrow> int \<Rightarrow> 'p Cache \<Rightarrow> 'p Cache outcome option" where
  "admit ops rm x path sz c =
     (case map_of (objects c) x of
        Some e \<Rightarrow> evictLocked ops rm (c\<lparr>curBytes := curBytes c + (sz - eSize e),
                    objects := AList.update x \<lparr>ePath = path, eSize = sz\<rparr> (objects c),
                    policy := poAccess ops x (policy c)\<rparr>)
      | None \<Rightarrow> evictLocked ops rm (c\<lparr>objects := AList.update x \<lparr>ePath = path, eSize = sz\<rparr> (objects c),
                    policy := poAdd ops x (policy c), curBytes := curBytes c + sz\<rparr>))"

text \<open>\<^verbatim>\<open>adopt\<close>: \<open>found\<close> is the directory (name, size, modification time); temporary files are
  removed, the rest is entered oldest first.\<close>

definition adopt ::
  "'p policy_ops \<Rightarrow> (string \<Rightarrow> bool) \<Rightarrow> (string \<times> int \<times> int) list \<Rightarrow> 'p Cache \<Rightarrow> 'p Cache outcome option" where
  "adopt ops rm found c =
     (let objs = sort_key (\<lambda>(_, _, mtime). mtime) (filter (\<lambda>(name, _). take 5 name \<noteq> ''.tmp-'') found);
          c1 = foldl (\<lambda>c (name, sz, _). c\<lparr>objects := AList.update name \<lparr>ePath = join (root c) name, eSize = sz\<rparr> (objects c),
                 policy := poAdd ops name (policy c), curBytes := curBytes c + sz,
                 files := AList.update (join (root c) name) sz (files c)\<rparr>) c objs
      in evictLocked ops rm c1)"

definition New ::
  "'p policy_ops \<Rightarrow> 'p \<Rightarrow> (string \<Rightarrow> bool) \<Rightarrow> string \<Rightarrow> int \<Rightarrow> (string \<times> int \<times> int) list \<Rightarrow> 'p Cache outcome option" where
  "New ops p0 rm dir maxB found =
     (if maxB \<le> 0 then Some (Err ''cache: maxBytes must be positive'')
      else adopt ops rm found \<lparr>root = dir, maxBytes = maxB, curBytes = 0, policy = p0, objects = [], inflight = [],
             hits = 0, misses = 0, files = []\<rparr>)"

subsection \<open>Get\<close>

text \<open>The locked first part: a hit, a wait for a fetch in progress, or a miss that starts one.\<close>

datatype lookup = Hit string | Shared | Miss

definition get_lookup :: "'p policy_ops \<Rightarrow> string \<Rightarrow> 'p Cache \<Rightarrow> lookup \<times> 'p Cache" where
  "get_lookup ops x c =
     (case map_of (objects c) x of
        Some e \<Rightarrow> (Hit (ePath e), c\<lparr>policy := poAccess ops x (policy c), hits := hits c + 1\<rparr>)
      | None \<Rightarrow>
          if x \<in> set (inflight c) then (Shared, c)
          else (Miss, c\<lparr>inflight := inflight c @ [x], misses := misses c + 1\<rparr>))"

text \<open>\<^verbatim>\<open>store\<close>: fetch, write to a temporary file, rename. \<open>fetched\<close> is the number of bytes the fetch
  and the copy delivered, or the error of any of the steps; only the rename makes a file visible.\<close>

definition store :: "string \<Rightarrow> int outcome \<Rightarrow> 'p Cache \<Rightarrow> (string \<times> int) outcome \<times> 'p Cache" where
  "store x fetched c =
     (case fetched of
        Ok n \<Rightarrow> (Ok (join (root c) x, n), c\<lparr>files := AList.update (join (root c) x) n (files c)\<rparr>)
      | Err e \<Rightarrow> (Err e, c)
      | Panic \<Rightarrow> (Panic, c))"

text \<open>The locked last part of a miss.\<close>

definition get_complete ::
  "'p policy_ops \<Rightarrow> (string \<Rightarrow> bool) \<Rightarrow> string \<Rightarrow> (string \<times> int) outcome \<Rightarrow> 'p Cache \<Rightarrow> 'p Cache outcome option" where
  "get_complete ops rm x stored c =
     (let c1 = c\<lparr>inflight := remove1 x (inflight c)\<rparr>
      in (case stored of Ok (path, n) \<Rightarrow> admit ops rm x path n c1 | _ \<Rightarrow> Some (Ok c1)))"

definition os_open :: "string \<Rightarrow> 'p Cache \<Rightarrow> string outcome" where
  "os_open path c = (if path \<in> fst ` set (files c) then Ok path else Err ''cache: open: no such file'')"

text \<open>The call by itself: its result is the path it could open. (A shared wait is left to the
  interleaved account below.)\<close>

definition Get ::
  "'p policy_ops \<Rightarrow> (string \<Rightarrow> bool) \<Rightarrow> string \<Rightarrow> int outcome \<Rightarrow> 'p Cache \<Rightarrow> (string outcome \<times> 'p Cache) option" where
  "Get ops rm key fetched c =
     (let x = idFor key
      in (case get_lookup ops x c of
            (Hit path, c1) \<Rightarrow> Some (os_open path c1, c1)
          | (Shared, c1) \<Rightarrow> Some (os_open (join (root c1) x) c1, c1)
          | (Miss, c1) \<Rightarrow>
              (case store x fetched c1 of (stored, c2) \<Rightarrow>
                 (case get_complete ops rm x stored c2 of
                    Some (Ok c3) \<Rightarrow>
                      (case stored of Ok (path, _) \<Rightarrow> Some (os_open path c3, c3) | Err e \<Rightarrow> Some (Err e, c3) | Panic \<Rightarrow> Some (Panic, c3))
                  | Some _ \<Rightarrow> Some (Panic, c2)
                  | None \<Rightarrow> None))))"

record Stats =
  sObjects :: nat
  sBytes :: int
  sMaxBytes :: int
  sHits :: nat
  sMisses :: nat

definition Stats_of :: "'p Cache \<Rightarrow> Stats" where
  "Stats_of c = \<lparr>sObjects = length (objects c), sBytes = curBytes c, sMaxBytes = maxBytes c, sHits = hits c, sMisses = misses c\<rparr>"

subsection \<open>What every policy gives the cache\<close>

context eviction_policy
begin

definition ops :: "'p policy_ops" where
  "ops = \<lparr>poAdd = add, poAccess = access, poVictim = victim, poRemove = remove, poLen = len\<rparr>"

text \<open>Index and policy agree, the byte count is the sum of the sizes, every indexed object has its
  file.\<close>

definition cache_inv :: "'p Cache \<Rightarrow> bool" where
  "cache_inv c \<longleftrightarrow> pinv (policy c) \<and> resident (policy c) = fst ` set (objects c) \<and> distinct (map fst (objects c))
     \<and> curBytes c = sum_map eSize (objects c)
     \<and> (\<forall>x e. map_of (objects c) x = Some e \<longrightarrow> ePath e = join (root c) x)
     \<and> join (root c) ` fst ` set (objects c) \<subseteq> fst ` set (files c)"

definition within_budget :: "'p Cache \<Rightarrow> bool" where
  "within_budget c \<longleftrightarrow> curBytes c \<le> maxBytes c \<or> length (objects c) \<le> 1"

lemma sum_map_delete:
  "distinct (map fst m) \<Longrightarrow> map_of m x = Some e \<Longrightarrow> sum_map f (AList.delete x m) = sum_map f m - (f e :: int)"
proof (induction m)
  case (Cons a m)
  then show ?case by (cases a) (auto split: if_splits)
qed simp

lemma keys_delete: "fst ` set (AList.delete x m) = fst ` set m - {x}"
  using arg_cong [OF delete_keys [of x m], of set] by simp

lemma cache_len: "cache_inv c \<Longrightarrow> len (policy c) = length (objects c)"
  using len_card [of "policy c"] distinct_card [of "map fst (objects c)"] by (simp add: cache_inv_def)

text \<open>One eviction.\<close>

definition evicted :: "string \<Rightarrow> 'p \<Rightarrow> (string \<Rightarrow> bool) \<Rightarrow> entry \<Rightarrow> 'p Cache \<Rightarrow> 'p Cache" where
  "evicted x p rm e c = c\<lparr>policy := remove x p, objects := AList.delete x (objects c), curBytes := curBytes c - eSize e,
     files := (if rm (ePath e) then files c else AList.delete (ePath e) (files c))\<rparr>"

lemma evict_one:
  assumes inv: "cache_inv c" and over: "curBytes c > maxBytes c" "len (policy c) > 1"
  obtains x p e where "victim (policy c) = (Some x, p)" "map_of (objects c) x = Some e"
    "cache_inv (evicted x p rm e c)" "length (objects (evicted x p rm e c)) < length (objects c)"
    "evictLocked ops rm c = evictLocked ops rm (evicted x p rm e c)"
proof -
  have "resident (policy c) \<noteq> {}" using over(2) len_card [of "policy c"] inv by (auto simp: cache_inv_def)
  then obtain x p where v: "victim (policy c) = (Some x, p)" "x \<in> resident (policy c)" "pinv (remove x p)"
    "resident (remove x p) = resident (policy c) - {x}" using victim_some [of "policy c"] inv by (auto simp: cache_inv_def)
  then obtain e where e: "map_of (objects c) x = Some e" using inv
    by (metis cache_inv_def map_of_eq_None_iff not_None_eq)
  have d: "distinct (map fst (objects c))" using inv by (simp add: cache_inv_def)
  have ep: "ePath e = join (root c) x" using inv e by (simp add: cache_inv_def)
  have inj: "join (root c) ` (fst ` set (objects c) - {x}) \<subseteq> join (root c) ` fst ` set (objects c) - {join (root c) x}"
    by (auto simp: join_def)
  let ?fs = "if rm (ePath e) then files c else AList.delete (ePath e) (files c)"
  have old: "join (root c) ` fst ` set (objects c) \<subseteq> fst ` set (files c)" using inv by (simp add: cache_inv_def)
  have "fst ` set (files c) - {join (root c) x} \<subseteq> fst ` set ?fs" by (auto simp: keys_delete ep)
  with old inj have fs: "join (root c) ` (fst ` set (objects c) - {x}) \<subseteq> fst ` set ?fs" by blast
  have ps: "\<forall>y f. map_of (AList.delete x (objects c)) y = Some f \<longrightarrow> ePath f = join (root c) y"
    using inv by (simp add: cache_inv_def delete_conv')
  have "cache_inv (evicted x p rm e c)"
    unfolding cache_inv_def evicted_def using inv v(3,4) d sum_map_delete [OF d e, of eSize] fs ps
    by (simp add: cache_inv_def keys_delete distinct_delete)
  moreover have "length (objects (evicted x p rm e c)) < length (objects c)"
    using length_removeAll_less [of x "map fst (objects c)"] arg_cong [OF delete_keys [of x "objects c"], of length]
      v(2) inv by (simp add: evicted_def cache_inv_def)
  moreover have "evictLocked ops rm c = evictLocked ops rm (evicted x p rm e c)"
    by (subst evictLocked.simps) (use over v(1) e in \<open>simp add: ops_def evicted_def\<close>)
  ultimately show thesis using that v(1) e by blast
qed

text \<open>The loop ends, keeps the invariant and leaves the cache within its budget, having dropped
  objects and nothing else.\<close>

lemma evictLocked_ok:
  assumes "cache_inv c"
  shows "\<exists>c'. evictLocked ops rm c = Some (Ok c') \<and> cache_inv c' \<and> within_budget c' \<and> maxBytes c' = maxBytes c
     \<and> root c' = root c \<and> map_of (objects c') \<subseteq>\<^sub>m map_of (objects c)"
  using assms
proof (induction "length (objects c)" arbitrary: c rule: less_induct)
  case less
  show ?case
  proof (cases "curBytes c > maxBytes c \<and> len (policy c) > 1")
    case False
    then have "evictLocked ops rm c = Some (Ok c)" by (subst evictLocked.simps) (auto simp: ops_def)
    with False less.prems cache_len [OF less.prems] show ?thesis by (auto simp: within_budget_def)
  next
    case True
    obtain x p e where 1: "cache_inv (evicted x p rm e c)" "length (objects (evicted x p rm e c)) < length (objects c)"
      "evictLocked ops rm c = evictLocked ops rm (evicted x p rm e c)"
      using evict_one [OF less.prems, of rm] True by metis
    have sub: "map_of (objects (evicted x p rm e c)) \<subseteq>\<^sub>m map_of (objects c)"
      by (auto simp: evicted_def delete_conv' map_le_def)
    from less.hyps [OF 1(2,1)] obtain c' where "evictLocked ops rm (evicted x p rm e c) = Some (Ok c')" "cache_inv c'"
      "within_budget c'" "maxBytes c' = maxBytes (evicted x p rm e c)" "root c' = root (evicted x p rm e c)"
      "map_of (objects c') \<subseteq>\<^sub>m map_of (objects (evicted x p rm e c))" by blast
    with 1(3) sub show ?thesis by (auto simp: evicted_def intro: map_le_trans)
  qed
qed

text \<open>Admission of a stored object.\<close>

definition admitted :: "string \<Rightarrow> int \<Rightarrow> 'p Cache \<Rightarrow> 'p Cache" where
  "admitted x n c =
     (case map_of (objects c) x of
        Some e \<Rightarrow> c\<lparr>curBytes := curBytes c + (n - eSize e),
                    objects := AList.update x \<lparr>ePath = join (root c) x, eSize = n\<rparr> (objects c), policy := access x (policy c)\<rparr>
      | None \<Rightarrow> c\<lparr>objects := AList.update x \<lparr>ePath = join (root c) x, eSize = n\<rparr> (objects c),
                    policy := add x (policy c), curBytes := curBytes c + n\<rparr>)"

lemma admit_admitted: "admit ops rm x (join (root c) x) n c = evictLocked ops rm (admitted x n c)"
  by (simp add: admit_def admitted_def ops_def split: option.split)

lemma admitted_inv:
  assumes inv: "cache_inv c" and f: "join (root c) x \<in> fst ` set (files c)"
  shows "cache_inv (admitted x n c)"
proof -
  let ?e = "\<lparr>ePath = join (root c) x, eSize = n\<rparr>"
  have d: "distinct (map fst (objects c))" and p: "pinv (policy c)" and r: "resident (policy c) = fst ` set (objects c)"
    using inv by (simp_all add: cache_inv_def)
  have paths: "\<forall>y e. map_of (AList.update x ?e (objects c)) y = Some e \<longrightarrow> ePath e = join (root c) y"
    "join (root c) ` fst ` set (AList.update x ?e (objects c)) \<subseteq> fst ` set (files c)"
    using inv f by (simp_all add: cache_inv_def)
  have sum: "sum_map eSize (AList.update x ?e (objects c)) = curBytes c + n - eSize (lookup0 \<lparr>ePath = [], eSize = 0\<rparr> (objects c) x)"
    using sum_map_update [OF d, of eSize "\<lparr>ePath = [], eSize = 0\<rparr>" x ?e] inv by (simp add: cache_inv_def)
  show ?thesis
  proof (cases "map_of (objects c) x")
    case None
    with add_inv [OF p, of x] d r sum paths show ?thesis
      by (simp add: cache_inv_def admitted_def lookup0_def)
  next
    case (Some e)
    then have "x \<in> fst ` set (objects c)" by (metis domI dom_map_of_conv_image_fst)
    with Some access_inv [OF p, of x] d r sum paths show ?thesis
      by (simp add: cache_inv_def admitted_def lookup0_def insert_absorb)
  qed
qed

lemma admit_ok:
  assumes "cache_inv c" "join (root c) x \<in> fst ` set (files c)"
  shows "\<exists>c'. admit ops rm x (join (root c) x) n c = Some (Ok c') \<and> cache_inv c' \<and> within_budget c' \<and> maxBytes c' = maxBytes c"
  using evictLocked_ok [OF admitted_inv [OF assms, of n], of rm]
  by (auto simp: admit_admitted admitted_def split: option.splits)

lemma get_lookup_inv: "cache_inv c \<Longrightarrow> cache_inv (snd (get_lookup ops x c))"
  using access_inv [of "policy c" x] by (simp add: get_lookup_def cache_inv_def ops_def split: option.split)

text \<open>A \<^verbatim>\<open>Get\<close> always returns, and keeps invariant and budget.\<close>

lemma Get_ok:
  assumes inv: "cache_inv c" and wb: "within_budget c"
  shows "\<exists>r c'. Get ops rm key fetched c = Some (r, c') \<and> cache_inv c' \<and> within_budget c'"
proof -
  obtain l c1 where l: "get_lookup ops (idFor key) c = (l, c1)" by fastforce
  have i1: "cache_inv c1" using get_lookup_inv [OF inv, of "idFor key"] l by simp
  have b1: "within_budget c1" using l wb
    by (auto simp: get_lookup_def within_budget_def split: option.splits if_splits)
  show ?thesis
  proof (cases l)
    case (Hit path)
    with l i1 b1 show ?thesis by (simp add: Get_def)
  next
    case Shared
    with l i1 b1 show ?thesis by (simp add: Get_def)
  next
    case Miss
    show ?thesis
    proof (cases fetched)
      case (Ok n)
      let ?c = "c1\<lparr>files := AList.update (join (root c1) (idFor key)) n (files c1),
        inflight := remove1 (idFor key) (inflight c1)\<rparr>"
      have "cache_inv ?c" using i1 by (simp add: cache_inv_def subset_insertI2)
      from admit_ok [OF this, of "idFor key" rm n] obtain c' where
        "admit ops rm (idFor key) (join (root c1) (idFor key)) n ?c = Some (Ok c')" "cache_inv c'" "within_budget c'" by auto
      with Miss Ok l show ?thesis by (simp add: Get_def store_def get_complete_def Let_def)
    qed (use Miss l i1 b1 in \<open>auto simp: Get_def store_def get_complete_def Let_def cache_inv_def within_budget_def\<close>)
  qed
qed

end

subsection \<open>Policies that keep what they just admitted\<close>

locale recency_policy = eviction_policy add access victim remove len resident pinv
  for add :: "string \<Rightarrow> 'p \<Rightarrow> 'p" and access victim remove len resident pinv +
  fixes front :: "'p \<Rightarrow> string option"
  assumes add_front: "pinv p \<Longrightarrow> front (add x p) = Some x"
    and access_front: "pinv p \<Longrightarrow> x \<in> resident p \<Longrightarrow> front (access x p) = Some x"
    and victim_front: "pinv p \<Longrightarrow> front p = Some x \<Longrightarrow> 1 < card (resident p) \<Longrightarrow> victim p = (Some v, p') \<Longrightarrow>
      v \<noteq> x \<and> front (remove v p') = Some x"
begin

lemma evictLocked_keeps_front:
  assumes "cache_inv c" "front (policy c) = Some x" "map_of (objects c) x = Some e" "evictLocked ops rm c = Some (Ok c')"
  shows "map_of (objects c') x = Some e"
  using assms
proof (induction "length (objects c)" arbitrary: c rule: less_induct)
  case less
  show ?case
  proof (cases "curBytes c > maxBytes c \<and> len (policy c) > 1")
    case False
    then have "evictLocked ops rm c = Some (Ok c)" by (subst evictLocked.simps) (auto simp: ops_def)
    with less.prems show ?thesis by simp
  next
    case True
    obtain y p f where 1: "victim (policy c) = (Some y, p)" "cache_inv (evicted y p rm f c)"
      "length (objects (evicted y p rm f c)) < length (objects c)"
      "evictLocked ops rm c = evictLocked ops rm (evicted y p rm f c)"
      using evict_one [OF less.prems(1), of rm] True by metis
    have pi: "pinv (policy c)" using less.prems(1) by (simp add: cache_inv_def)
    have v: "y \<noteq> x" "front (remove y p) = Some x"
      using victim_front [OF pi less.prems(2) _ 1(1)] True len_card [OF pi] by auto
    show ?thesis
      by (rule less.hyps [OF 1(3,2)]) (use v less.prems 1(4) in \<open>auto simp: evicted_def delete_conv'\<close>)
  qed
qed

text \<open>On a miss whose fetch succeeds, the object can be opened and stays cached.\<close>

lemma Get_miss_opens:
  assumes inv: "cache_inv c" and miss: "map_of (objects c) (idFor key) = None" "idFor key \<notin> set (inflight c)"
  shows "\<exists>c'. Get ops rm key (Ok n) c = Some (Ok (join (root c) (idFor key)), c') \<and> map_of (objects c') (idFor key) \<noteq> None"
proof -
  let ?x = "idFor key" and ?path = "join (root c) (idFor key)"
  let ?c = "c\<lparr>misses := misses c + 1, files := AList.update ?path n (files c), inflight := remove1 ?x (inflight c @ [?x])\<rparr>"
  have ic: "cache_inv ?c" using inv by (simp add: cache_inv_def subset_insertI2)
  have i2: "cache_inv (admitted ?x n ?c)" using admitted_inv [OF ic, of ?x n] by simp
  obtain c' where e: "evictLocked ops rm (admitted ?x n ?c) = Some (Ok c')" "cache_inv c'" "root c' = root (admitted ?x n ?c)"
    using evictLocked_ok [OF i2, of rm] by auto
  have "front (policy (admitted ?x n ?c)) = Some ?x" "map_of (objects (admitted ?x n ?c)) ?x = Some \<lparr>ePath = ?path, eSize = n\<rparr>"
    using miss(1) add_front [of "policy c" ?x] inv by (simp_all add: admitted_def cache_inv_def)
  from evictLocked_keeps_front [OF i2 this e(1)] have o': "map_of (objects c') ?x = Some \<lparr>ePath = ?path, eSize = n\<rparr>" .
  then have "?x \<in> fst ` set (objects c')" by (metis domI dom_map_of_conv_image_fst)
  moreover have "root c' = root c" using e(3) miss(1) by (simp add: admitted_def)
  ultimately have "?path \<in> fst ` set (files c')" using e(2) unfolding cache_inv_def by (metis image_eqI subsetD)
  moreover have "get_lookup ops ?x c = (Miss, c\<lparr>inflight := inflight c @ [?x], misses := misses c + 1\<rparr>)"
    using miss by (simp add: get_lookup_def)
  moreover have "admit ops rm ?x ?path n ?c = Some (Ok c')" using e(1) admit_admitted [of rm ?x ?c n] by simp
  ultimately show ?thesis using o'
    by (simp add: Get_def store_def get_complete_def os_open_def Let_def)
qed

end

interpretation lru_recency: recency_policy lru_Add lru_Access lru_Victim lru_Remove lru_Len set distinct
  "\<lambda>ll. case ll of [] \<Rightarrow> None | x # _ \<Rightarrow> Some x"
proof
  fix p :: lruPolicy and x v :: string and p' :: lruPolicy
  show "(case lru_Add x p of [] \<Rightarrow> None | y # _ \<Rightarrow> Some y) = Some x" by (simp add: lru_Add_def)
  show "x \<in> set p \<Longrightarrow> (case lru_Access x p of [] \<Rightarrow> None | y # _ \<Rightarrow> Some y) = Some x" by (simp add: lru_Access_def)
  assume a: "distinct p" "(case p of [] \<Rightarrow> None | y # _ \<Rightarrow> Some y) = Some x" "1 < card (set p)" "lru_Victim p = (Some v, p')"
  then obtain ll where p: "p = x # ll" "ll \<noteq> []" by (cases p; cases "tl p") auto
  from lru_victim_not_front [of x ll] a p show "v \<noteq> x \<and> (case lru_Remove v p' of [] \<Rightarrow> None | y # _ \<Rightarrow> Some y) = Some x"
    by auto
qed

subsection \<open>One fetch per object at a time\<close>

text \<open>Steps of concurrent readers: a lookup, or the completion of a fetch that a lookup started.\<close>

datatype cache_step = CLookup string | CComplete string "(string \<times> int) outcome"

definition cache_run :: "'p policy_ops \<Rightarrow> (string \<Rightarrow> bool) \<Rightarrow> cache_step \<Rightarrow> 'p Cache \<Rightarrow> 'p Cache" where
  "cache_run ops rm st c =
     (case st of
        CLookup x \<Rightarrow> snd (get_lookup ops x c)
      | CComplete x r \<Rightarrow> (case get_complete ops rm x r c of Some (Ok c') \<Rightarrow> c' | _ \<Rightarrow> c))"

lemma evictLocked_inflight:
  assumes "evictLocked ops rm c = Some r"
  shows "\<forall>c'. r = Ok c' \<longrightarrow> inflight c' = inflight c"
proof (rule evictLocked.raw_induct [where P = "\<lambda>ops rm c r. \<forall>c'. r = Ok c' \<longrightarrow> inflight c' = inflight c", OF _ assms])
  fix f :: "'a policy_ops \<Rightarrow> (string \<Rightarrow> bool) \<Rightarrow> 'a Cache \<Rightarrow> 'a Cache outcome option"
  fix ops :: "'a policy_ops" and rm :: "string \<Rightarrow> bool" and c :: "'a Cache" and r
  assume IH: "\<And>ops rm c r. f ops rm c = Some r \<Longrightarrow> \<forall>c'. r = Ok c' \<longrightarrow> inflight c' = inflight c"
    and eq: "(if curBytes c > maxBytes c \<and> poLen ops (policy c) > 1 then
        (case poVictim ops (policy c) of
           (None, p) \<Rightarrow> Some (Ok (c\<lparr>policy := p\<rparr>))
         | (Some x, p) \<Rightarrow>
             (case map_of (objects c) x of
                None \<Rightarrow> Some Panic
              | Some e \<Rightarrow>
                  f ops rm (c\<lparr>policy := poRemove ops x p, objects := AList.delete x (objects c),
                    curBytes := curBytes c - eSize e,
                    files := (if rm (ePath e) then files c else AList.delete (ePath e) (files c))\<rparr>)))
      else Some (Ok c)) = Some r"
  show "\<forall>c'. r = Ok c' \<longrightarrow> inflight c' = inflight c"
  proof (cases "curBytes c > maxBytes c \<and> poLen ops (policy c) > 1")
    case False
    with eq show ?thesis by auto
  next
    case True
    obtain v p where v: "poVictim ops (policy c) = (v, p)" by fastforce
    show ?thesis
    proof (cases v)
      case None
      with eq True v show ?thesis by auto
    next
      case (Some x)
      show ?thesis
      proof (cases "map_of (objects c) x")
        case None
        with eq True v Some show ?thesis by auto
      next
        case e: (Some e)
        let ?c = "c\<lparr>policy := poRemove ops x p, objects := AList.delete x (objects c), curBytes := curBytes c - eSize e,
          files := (if rm (ePath e) then files c else AList.delete (ePath e) (files c))\<rparr>"
        have "f ops rm ?c = Some r" using eq True v Some e by simp
        from IH [OF this] show ?thesis by simp
      qed
    qed
  qed
qed

lemma cache_run_inflight:
  assumes "x \<in> set (inflight c)" and "\<forall>r. st \<noteq> CComplete x r"
  shows "x \<in> set (inflight (cache_run ops rm st c))"
proof (cases st)
  case (CLookup y)
  with assms show ?thesis by (auto simp: cache_run_def get_lookup_def split: option.splits)
next
  case (CComplete y r)
  then have y: "y \<noteq> x" using assms(2) by auto
  show ?thesis
  proof (cases "get_complete ops rm y r c")
    case None
    with CComplete assms show ?thesis by (simp add: cache_run_def)
  next
    case (Some o')
    have "\<forall>c'. o' = Ok c' \<longrightarrow> inflight c' = remove1 y (inflight c)"
    proof (cases r)
      case (Ok pn)
      with Some show ?thesis using evictLocked_inflight
        by (cases pn) (fastforce simp: get_complete_def admit_def Let_def split: option.splits)
    qed (use Some in \<open>auto simp: get_complete_def Let_def\<close>)
    with CComplete Some assms y show ?thesis by (cases o') (simp_all add: cache_run_def)
  qed
qed

text \<open>While a fetch of an object is in progress, no other reader starts one: single-flight.\<close>

lemma no_second_fetch:
  assumes "fst (get_lookup ops x c) = Miss" and "\<forall>st \<in> set sts. \<forall>r. st \<noteq> CComplete x r"
  shows "fst (get_lookup ops x (fold (cache_run ops rm) sts (snd (get_lookup ops x c)))) \<noteq> Miss"
proof -
  have "x \<in> set (inflight (fold (cache_run ops rm) sts c'))" if "x \<in> set (inflight c')" for c'
    using assms(2) that by (induction sts arbitrary: c') (auto intro: cache_run_inflight)
  moreover have "x \<in> set (inflight (snd (get_lookup ops x c)))"
    using assms(1) by (auto simp: get_lookup_def split: option.splits if_splits)
  ultimately show ?thesis by (auto simp: get_lookup_def split: option.splits)
qed

end
