(* ===== verification/Cache_Props.thy ===== *)
theory Cache_Props
  imports Cache
begin

section \<open>Properties of the object cache\<close>

text \<open>
  A cache is opened on a directory and then serves any number of requests. The lemmas are proved
  once for every policy that satisfies \<open>eviction_policy\<close>; the properties instantiate them for the
  three policies of \<^verbatim>\<open>internal/cache\<close>.
\<close>

text \<open>A run of requests: each has its key and what a fetch of it would deliver.\<close>

fun gets :: "'p policy_ops \<Rightarrow> (string \<Rightarrow> bool) \<Rightarrow> (string \<times> int outcome) list \<Rightarrow> 'p Cache \<Rightarrow> 'p Cache option" where
  "gets ops rm [] c = Some c"
| "gets ops rm ((key, fetched) # rs) c =
     (case Get ops rm key fetched c of Some (r, c') \<Rightarrow> if r = Panic then None else gets ops rm rs c' | None \<Rightarrow> None)"

text \<open>What the budget means for a user: the bytes are within the limit, or one object alone exceeds it.\<close>

definition budget_kept :: "int \<Rightarrow> 'p Cache \<Rightarrow> bool" where
  "budget_kept maxB c \<longleftrightarrow> sMaxBytes (Stats_of c) = maxB \<and> sBytes (Stats_of c) = sum_map eSize (objects c)
     \<and> (sBytes (Stats_of c) \<le> maxB \<or> sObjects (Stats_of c) \<le> 1)
     \<and> (\<forall>x e. map_of (objects c) x = Some e \<longrightarrow> os_open (ePath e) c = Ok (ePath e))"

context eviction_policy
begin

lemma Get_keeps:
  assumes inv: "cache_inv c" and wb: "within_budget c" and f: "fetched \<noteq> Panic"
  shows "\<exists>r c'. Get ops rm key fetched c = Some (r, c') \<and> r \<noteq> Panic \<and> cache_inv c' \<and> within_budget c' \<and> maxBytes c' = maxBytes c"
proof -
  obtain r c' where g: "Get ops rm key fetched c = Some (r, c')" "cache_inv c'" "within_budget c'" using Get_ok [OF inv wb] by blast
  obtain l c1 where l: "get_lookup ops (idFor key) c = (l, c1)" by fastforce
  have i1: "cache_inv c1" "maxBytes c1 = maxBytes c" using get_lookup_inv [OF inv, of "idFor key"] l
    by (auto simp: get_lookup_def split: option.splits if_splits)
  have "r \<noteq> Panic \<and> maxBytes c' = maxBytes c"
  proof (cases "l = Miss \<and> is_ok fetched")
    case False
    with g(1) l f i1(2) show ?thesis
      by (cases l; cases fetched) (auto simp: Get_def os_open_def store_def get_complete_def Let_def split: if_splits)
  next
    case True
    then obtain n where n: "l = Miss" "fetched = Ok n" by (cases fetched) auto
    let ?c = "c1\<lparr>files := AList.update (join (root c1) (idFor key)) n (files c1),
        inflight := remove1 (idFor key) (inflight c1)\<rparr>"
    have "cache_inv ?c" using i1 by (simp add: cache_inv_def subset_insertI2)
    from admit_ok [OF this, of "idFor key" rm n] obtain c3 where
      "admit ops rm (idFor key) (join (root c1) (idFor key)) n ?c = Some (Ok c3)" "maxBytes c3 = maxBytes ?c" by auto
    with n l g(1) i1(2) show ?thesis by (auto simp: Get_def store_def get_complete_def os_open_def Let_def split: if_splits)
  qed
  with g show ?thesis by blast
qed

lemma gets_keeps:
  "\<lbrakk>cache_inv c; within_budget c; \<forall>r \<in> set rs. snd r \<noteq> Panic\<rbrakk> \<Longrightarrow>
     \<exists>c'. gets ops rm rs c = Some c' \<and> cache_inv c' \<and> within_budget c' \<and> maxBytes c' = maxBytes c"
proof (induction rs arbitrary: c)
  case (Cons r rs)
  obtain key fetched where r: "r = (key, fetched)" by fastforce
  obtain o' c1 where 1: "Get ops rm key fetched c = Some (o', c1)" "o' \<noteq> Panic" "cache_inv c1" "within_budget c1" "maxBytes c1 = maxBytes c"
    using Get_keeps [OF Cons.prems(1,2), of fetched rm key] Cons.prems(3) r by auto
  from Cons.IH [OF 1(3,4)] Cons.prems(3) 1 r show ?case by auto
qed simp

text \<open>Adopting the files a previous process left.\<close>

definition adopted :: "string \<times> int \<times> int \<Rightarrow> 'p Cache \<Rightarrow> 'p Cache" where
  "adopted = (\<lambda>(name, sz, _) c. c\<lparr>objects := AList.update name \<lparr>ePath = join (root c) name, eSize = sz\<rparr> (objects c),
     policy := add name (policy c), curBytes := curBytes c + sz, files := AList.update (join (root c) name) sz (files c)\<rparr>)"

lemma adopted_inv:
  assumes inv: "cache_inv c" and new: "name \<notin> fst ` set (objects c)"
  shows "cache_inv (adopted (name, sz, t) c) \<and> fst ` set (objects (adopted (name, sz, t) c)) = insert name (fst ` set (objects c))
     \<and> maxBytes (adopted (name, sz, t) c) = maxBytes c"
proof -
  let ?c = "c\<lparr>files := AList.update (join (root c) name) sz (files c)\<rparr>"
  have n: "map_of (objects c) name = None" using new by (simp add: map_of_eq_None_iff)
  have "cache_inv ?c" using inv by (simp add: cache_inv_def subset_insertI2)
  from admitted_inv [OF this, of name sz] have "cache_inv (admitted name sz ?c)" by simp
  moreover have "admitted name sz ?c = adopted (name, sz, t) c" using n by (cases c) (simp add: admitted_def adopted_def)
  ultimately show ?thesis by (simp add: adopted_def)
qed

lemma adopt_fold:
  "\<lbrakk>cache_inv c; distinct (map fst fs); set (map fst fs) \<inter> fst ` set (objects c) = {}\<rbrakk> \<Longrightarrow>
     cache_inv (foldl (\<lambda>c f. adopted f c) c fs) \<and> maxBytes (foldl (\<lambda>c f. adopted f c) c fs) = maxBytes c"
proof (induction fs arbitrary: c)
  case (Cons f fs)
  obtain name sz t where f: "f = (name, sz, t)" by (cases f) auto
  have "name \<notin> fst ` set (objects c)" using Cons.prems(3) f by auto
  note a = adopted_inv [OF Cons.prems(1) this, of sz t]
  from Cons.IH [of "adopted f c"] a Cons.prems(2,3) f show ?case by auto
qed simp

lemma New_ok:
  assumes "0 < maxB" "distinct (map fst found)" and p0: "pinv p0" "resident p0 = {}"
  shows "\<exists>c. New ops p0 rm dir maxB found = Some (Ok c) \<and> cache_inv c \<and> within_budget c \<and> maxBytes c = maxB"
proof -
  let ?c0 = "\<lparr>root = dir, maxBytes = maxB, curBytes = 0, policy = p0, objects = [], inflight = [], hits = 0, misses = 0, files = []\<rparr>"
  let ?fs = "sort_key (\<lambda>(_, _, mtime). mtime) (filter (\<lambda>(name, _). take 5 name \<noteq> ''.tmp-'') found)"
  have eq: "(\<lambda>c (name, sz, _). c\<lparr>objects := AList.update name \<lparr>ePath = join (root c) name, eSize = sz\<rparr> (objects c),
      policy := poAdd ops name (policy c), curBytes := curBytes c + sz, files := AList.update (join (root c) name) sz (files c)\<rparr>)
      = (\<lambda>c f. adopted f c)" by (auto simp: fun_eq_iff adopted_def ops_def)
  have "cache_inv ?c0" using p0 by (simp add: cache_inv_def)
  moreover have "distinct (map fst ?fs)"
  proof -
    have "distinct (map fst (filter (\<lambda>(name, _). take 5 name \<noteq> ''.tmp-'') found))" using assms(2) by (rule distinct_map_filter)
    then show ?thesis by (simp add: distinct_map)
  qed
  ultimately have "cache_inv (foldl (\<lambda>c f. adopted f c) ?c0 ?fs) \<and> maxBytes (foldl (\<lambda>c f. adopted f c) ?c0 ?fs) = maxB"
    using adopt_fold [of ?c0 ?fs] by simp
  from evictLocked_ok [OF conjunct1 [OF this], of rm] this assms(1) show ?thesis
    by (simp add: New_def adopt_def eq Let_def) metis
qed

lemma budget_kept_inv:
  assumes "cache_inv c" "within_budget c"
  shows "budget_kept (maxBytes c) c"
proof -
  have "os_open (ePath e) c = Ok (ePath e)" if e: "map_of (objects c) x = Some e" for x e
  proof -
    have "x \<in> fst ` set (objects c)" using e by (metis domI dom_map_of_conv_image_fst)
    moreover have "ePath e = join (root c) x" "join (root c) ` fst ` set (objects c) \<subseteq> fst ` set (files c)"
      using assms(1) e by (simp_all add: cache_inv_def)
    ultimately have "ePath e \<in> fst ` set (files c)" by blast
    then show ?thesis by (simp add: os_open_def)
  qed
  with assms show ?thesis by (simp add: budget_kept_def Stats_of_def cache_inv_def within_budget_def)
qed

text \<open>From opening to any later time.\<close>

lemma serves:
  assumes "0 < maxB" "distinct (map fst found)" "pinv p0" "resident p0 = {}" "\<forall>r \<in> set rs. snd r \<noteq> Panic"
  shows "\<exists>c c'. New ops p0 rm dir maxB found = Some (Ok c) \<and> gets ops rm rs c = Some c' \<and> budget_kept maxB c'"
proof -
  from New_ok [OF assms(1-4), of rm dir] obtain c where
    1: "New ops p0 rm dir maxB found = Some (Ok c)" "cache_inv c" "within_budget c" "maxBytes c = maxB" by blast
  from gets_keeps [OF 1(2,3) assms(5), of rm] obtain c' where
    2: "gets ops rm rs c = Some c'" "cache_inv c'" "within_budget c'" "maxBytes c' = maxBytes c" by blast
  from 1 2 budget_kept_inv [OF 2(2,3)] show ?thesis by auto
qed

end

subsection \<open>Properties\<close>



text \<open>Under LRU, the default policy, a miss whose fetch succeeds returns the open file and leaves the
  object cached, whatever had to be evicted for it.\<close>

lemma lru_miss_returns_the_object:
  assumes "0 < maxB" and "distinct (map fst found)" and "New lru.ops NewLRU rm dir maxB found = Some (Ok c)"
    and "\<forall>r \<in> set rs. snd r \<noteq> Panic" and "gets lru.ops rm rs c = Some c'"
    and "map_of (objects c') (idFor key) = None" and "idFor key \<notin> set (inflight c')"
  shows "\<exists>c2. Get lru.ops rm key (Ok n) c' = Some (Ok (join (root c') (idFor key)), c2) \<and> map_of (objects c2) (idFor key) \<noteq> None"
proof -
  have "lru.cache_inv c" "lru.within_budget c"
    using lru.New_ok [OF assms(1,2), of NewLRU rm dir] assms(3) by (auto simp: NewLRU_def)
  with lru.gets_keeps [OF this assms(4), of rm] assms(5) have "lru.cache_inv c'" by auto
  from lru_recency.Get_miss_opens [OF this assms(6,7)] show ?thesis .
qed

theorem lru_miss_returns_the_object_witness:
  "\<exists>c c2. New lru.ops NewLRU (\<lambda>_. False) ''/c'' 10 [] = Some (Ok c)
     \<and> Get lru.ops (\<lambda>_. False) ''k'' (Ok 30) c = Some (Ok (join ''/c'' (idFor ''k'')), c2)"
proof -
  define c :: "lruPolicy Cache" where "c = \<lparr>root = ''/c'', maxBytes = 10, curBytes = 0, policy = NewLRU, objects = [], inflight = [],
     hits = 0, misses = 0, files = []\<rparr>"
  have n: "New lru.ops NewLRU (\<lambda>_. False) ''/c'' 10 [] = Some (Ok c)"
    by (simp add: New_def adopt_def c_def evictLocked.simps [of _ _ "\<lparr>root = _, maxBytes = _, curBytes = _, policy = _, objects = _, inflight = _,
     hits = _, misses = _, files = _\<rparr>"])
  from lru_miss_returns_the_object [OF _ _ n, of "[]" c "''k''" 30] show ?thesis using n by (auto simp: c_def)
qed

text \<open>Single flight: between the miss that starts a fetch of an object and the completion of that fetch, whatever
  other readers look up or complete in between, no lookup of that object starts a second fetch.\<close>

lemma single_flight:
  assumes "fst (get_lookup ops x c) = Miss" and "\<forall>st \<in> set sts. \<forall>r. st \<noteq> CComplete x r"
  shows "fst (get_lookup ops x (fold (cache_run ops rm) sts (snd (get_lookup ops x c)))) \<noteq> Miss"
  by (rule no_second_fetch [OF assms])

definition demo_cache :: "s3fifo Cache" where
  "demo_cache = \<lparr>root = ''/c'', maxBytes = 10, curBytes = 0, policy = NewS3FIFO, objects = [], inflight = [], hits = 0, misses = 0, files = []\<rparr>"

theorem single_flight_witness:
  "fst (get_lookup s3.ops ''x'' (fold (cache_run s3.ops (\<lambda>_. False)) [CLookup ''x'', CComplete ''y'' (Err ''e''), CLookup ''x'']
     (snd (get_lookup s3.ops ''x'' demo_cache)))) \<noteq> Miss"
  by (rule single_flight) (auto simp: get_lookup_def demo_cache_def)

text \<open>Under S3-FIFO a fetch can lose its own object: with a budget of ten bytes, admit \<open>a\<close> (four bytes), hit it once, then fetch
  \<open>b\<close> (eight bytes); the sweep promotes \<open>a\<close> and evicts \<open>b\<close>, the object just admitted, deletes its file, and the
  caller's open of the file it fetched fails.\<close>

lemma s3fifo_evicts_the_object_just_fetched:
  "\<exists>c1 c2 c3. admit s3.ops (\<lambda>_. False) ''a'' (join ''/c'' ''a'') 4 (demo_cache\<lparr>files := [(join ''/c'' ''a'', 4)]\<rparr>) = Some (Ok c1)
     \<and> get_lookup s3.ops ''a'' c1 = (Hit (join ''/c'' ''a''), c2)
     \<and> admit s3.ops (\<lambda>_. False) ''b'' (join ''/c'' ''b'') 8 (snd (store ''b'' (Ok 8) c2)) = Some (Ok c3)
     \<and> map_of (objects c3) ''b'' = None \<and> os_open (join ''/c'' ''b'') c3 = Err ''cache: open: no such file''"
proof -
  define c1 where "c1 = demo_cache\<lparr>files := [(join ''/c'' ''a'', 4)], objects := [(''a'', \<lparr>ePath = join ''/c'' ''a'', eSize = 4\<rparr>)],
     policy := \<lparr>small = [(''a'', 0)], main = [], ghost = [], ghostCap = 1\<rparr>, curBytes := 4\<rparr>"
  define c2 where "c2 = c1\<lparr>policy := \<lparr>small = [(''a'', 1)], main = [], ghost = [], ghostCap = 1\<rparr>, hits := 1\<rparr>"
  define c3 where "c3 = c2\<lparr>policy := \<lparr>small = [], main = [(''a'', 1)], ghost = [''b''], ghostCap = 2\<rparr>\<rparr>"
  have 1: "admit s3.ops (\<lambda>_. False) ''a'' (join ''/c'' ''a'') 4 (demo_cache\<lparr>files := [(join ''/c'' ''a'', 4)]\<rparr>) = Some (Ok c1)"
    unfolding s3.ops_def c1_def by code_simp
  moreover have "get_lookup s3.ops ''a'' c1 = (Hit (join ''/c'' ''a''), c2)" unfolding s3.ops_def c2_def c1_def by code_simp
  moreover have "admit s3.ops (\<lambda>_. False) ''b'' (join ''/c'' ''b'') 8 (snd (store ''b'' (Ok 8) c2)) = Some (Ok c3)"
    unfolding s3.ops_def c3_def c2_def c1_def by code_simp
  moreover have "map_of (objects c3) ''b'' = None \<and> os_open (join ''/c'' ''b'') c3 = Err ''cache: open: no such file''"
    unfolding c3_def c2_def c1_def by code_simp
  ultimately show ?thesis by blast
qed

end
