(* ===== verification/Worker.thy ===== *)
theory Worker
  imports Coordinator
begin

section \<open>The worker\<close>

text \<open>
  \<^verbatim>\<open>internal/worker/worker.go\<close> and \<^verbatim>\<open>api.go\<close>: registration, heartbeats, polling, the execution of
  an assignment with its lease renewals, the staging of the result and the report.

  What a worker calls, the HTTP client and the object store (the interface \<^verbatim>\<open>objectStore\<close>), the JSON
  decoder, the Parquet writer and the clock, is the record \<open>outside\<close> over a world of type \<open>'w\<close>.
  Requests go to the handlers of \<open>Coordinator\<close>, so the bodies of replies are of type \<open>json\<close>.
  Marshalling never fails for the request types. \<^verbatim>\<open>Err\<close> stands for an error of the transport or the store.
\<close>

subsection \<open>Data\<close>

datatype message = MRegister RegisterRequest | MHeartbeat Heartbeat | MStart string | MRenew RenewLeaseRequest | MResult ResultRequest

record ResultRow =
  rwTaskID :: string
  rwShard :: string
  rwOutputKey :: string
  rwImagesProcessed :: int
  rwBytesRead :: int

record 'w outside =
  http :: "string \<Rightarrow> string \<Rightarrow> message option \<Rightarrow> 'w \<Rightarrow> 'w \<times> response outcome"
  decPoll :: "json \<Rightarrow> (TaskAssignment option \<times> bool) outcome"
  decRenewal :: "json \<Rightarrow> LeaseRenewal outcome"
  decErrorText :: "json \<Rightarrow> string"
  ListPrefix :: "string \<Rightarrow> 'w \<Rightarrow> 'w \<times> string list outcome"
  GetObject :: "string \<Rightarrow> 'w \<Rightarrow> 'w \<times> int outcome"
  PutObject :: "string \<Rightarrow> byte list \<Rightarrow> string \<Rightarrow> 'w \<Rightarrow> 'w \<times> unit outcome"
  WriteResultsParquet :: "ResultRow list \<Rightarrow> byte list outcome"
  clock :: "'w \<Rightarrow> int"

record WorkerConfig =
  wcID :: string
  wcCoordinatorURL :: string
  wcHost :: string
  wcPort :: int
  wcConcurrency :: int

text \<open>\<open>wkSem\<close> is the number of tokens in the channel \<^verbatim>\<open>sem\<close>, whose capacity is the concurrency.\<close>

record Worker =
  wkID :: string
  wkCoordinator :: string
  wkHost :: string
  wkPort :: int
  wkConcurrency :: int
  wkSem :: nat
  wkActive :: "(string, Task) gomap"

text \<open>A channel of negative capacity is a panic.\<close>

definition New :: "WorkerConfig \<Rightarrow> string \<Rightarrow> Worker outcome" where
  "New cfg uuid =
     (if wcConcurrency cfg < 0 then Panic
      else Ok \<lparr>wkID = (if wcID cfg = [] then uuid else wcID cfg), wkCoordinator = wcCoordinatorURL cfg,
               wkHost = wcHost cfg, wkPort = wcPort cfg, wkConcurrency = wcConcurrency cfg, wkSem = 0, wkActive = []\<rparr>)"

definition Address :: "Worker \<Rightarrow> string" where
  "Address wk = wkHost wk @ '':'' @ fmt_d (wkPort wk)"

definition ActiveTaskCount :: "Worker \<Rightarrow> nat" where
  "ActiveTaskCount wk = length (wkActive wk)"

subsection \<open>Requests\<close>

definition postJSON :: "'w outside \<Rightarrow> string \<Rightarrow> message \<Rightarrow> 'w \<Rightarrow> 'w \<times> unit outcome" where
  "postJSON out url v w =
     (case http out ''POST'' url (Some v) w of
        (w1, Ok resp) \<Rightarrow>
          (w1, if rsStatus resp \<ge> 400
               then Err (''server '' @ fmt_d (rsStatus resp) @ '': '' @ decErrorText out (rsBody resp)) else Ok ())
      | (w1, Err e) \<Rightarrow> (w1, Err (''post '' @ url @ '': '' @ e))
      | (w1, Panic) \<Rightarrow> (w1, Panic))"

definition postJSONResp :: "'w outside \<Rightarrow> string \<Rightarrow> message \<Rightarrow> (json \<Rightarrow> 'v outcome) \<Rightarrow> 'w \<Rightarrow> 'w \<times> 'v outcome" where
  "postJSONResp out url req dec w =
     (case http out ''POST'' url (Some req) w of
        (w1, Ok resp) \<Rightarrow>
          (w1, if rsStatus resp \<ge> 400
               then Err (''server '' @ fmt_d (rsStatus resp) @ '': '' @ decErrorText out (rsBody resp)) else dec (rsBody resp))
      | (w1, Err e) \<Rightarrow> (w1, Err (''post '' @ url @ '': '' @ e))
      | (w1, Panic) \<Rightarrow> (w1, Panic))"

definition register :: "'w outside \<Rightarrow> Worker \<Rightarrow> 'w \<Rightarrow> 'w \<times> unit outcome" where
  "register out wk = postJSON out (wkCoordinator wk @ ''/v1/cluster/register'')
     (MRegister \<lparr>rrID = wkID wk, rrAddress = Address wk, rrNodeName = []\<rparr>)"

definition sendHeartbeat :: "'w outside \<Rightarrow> Worker \<Rightarrow> 'w \<Rightarrow> 'w" where
  "sendHeartbeat out wk w = fst (postJSON out (wkCoordinator wk @ ''/v1/cluster/heartbeat'')
     (MHeartbeat \<lparr>hbNodeID = wkID wk, hbMetrics = zero_metrics\<lparr>mActiveTasks := int (ActiveTaskCount wk)\<rparr>\<rparr>) w)"

text \<open>An assignment, when there is one; the caller starts a goroutine for it.\<close>

definition poll :: "'w outside \<Rightarrow> Worker \<Rightarrow> 'w \<Rightarrow> 'w \<times> TaskAssignment option" where
  "poll out wk w =
     (case http out ''GET'' (wkCoordinator wk @ ''/v1/tasks/poll?worker='' @ wkID wk) None w of
        (w1, Ok resp) \<Rightarrow>
          (case decPoll out (rsBody resp) of
             Ok (a, has) \<Rightarrow> (w1, if \<not> has then None else a)
           | _ \<Rightarrow> (w1, None))
      | (w1, _) \<Rightarrow> (w1, None))"

definition renew :: "'w outside \<Rightarrow> Worker \<Rightarrow> string \<Rightarrow> RenewLeaseRequest \<Rightarrow> 'w \<Rightarrow> 'w \<times> LeaseRenewal outcome" where
  "renew out wk taskID req = postJSONResp out (wkCoordinator wk @ ''/v1/tasks/'' @ taskID @ ''/renew'') (MRenew req) (decRenewal out)"

subsection \<open>Executing an assignment\<close>

text \<open>The head of a turn of the loop: at the leased bound the lease is renewed. \<open>Leave\<close> is the
  \<^verbatim>\<open>break\<close>: the renewal failed or did not move the bound.\<close>

datatype turn = Proceed int int | Leave | Crash

definition renew_turn ::
  "'w outside \<Rightarrow> Worker \<Rightarrow> string \<Rightarrow> int \<Rightarrow> int \<Rightarrow> int \<Rightarrow> int \<Rightarrow> 'w \<Rightarrow> 'w \<times> turn" where
  "renew_turn out wk taskID nkeys i bound gen w =
     (if i \<ge> bound then
        (case renew out wk taskID \<lparr>rnWorkerID = wkID wk, rnGeneration = gen, rnFrontier = i, rnTotal = nkeys\<rparr> w of
           (w1, Ok lr) \<Rightarrow> (w1, if lrBound lr \<le> i then Leave else Proceed (lrBound lr) (lrGeneration lr))
         | (w1, Err _) \<Rightarrow> (w1, Leave)
         | (w1, Panic) \<Rightarrow> (w1, Crash))
      else (w, Proceed bound gen))"

text \<open>The body: an object that cannot be read is skipped.\<close>

definition get_turn :: "'w outside \<Rightarrow> string list \<Rightarrow> int \<Rightarrow> int \<Rightarrow> 'w \<Rightarrow> 'w \<times> int outcome" where
  "get_turn out keys i totalBytes w =
     (if 0 \<le> i \<and> i < int (length keys) then
        (case GetObject out (keys ! nat i) w of
           (w1, Ok sz) \<Rightarrow> (w1, Ok (i64 (totalBytes + sz)))
         | (w1, Err _) \<Rightarrow> (w1, Ok totalBytes)
         | (w1, Panic) \<Rightarrow> (w1, Panic))
      else (w, Panic))"

function alg_loop ::
  "'w outside \<Rightarrow> Worker \<Rightarrow> string \<Rightarrow> string list \<Rightarrow> int \<Rightarrow> int \<Rightarrow> int \<Rightarrow> int \<Rightarrow> int \<Rightarrow> 'w \<Rightarrow> 'w \<times> (int \<times> int) outcome" where
  "alg_loop out wk taskID keys stop i bound gen totalBytes w =
     (if i < stop then
        (case renew_turn out wk taskID (int (length keys)) i bound gen w of
           (w1, Leave) \<Rightarrow> (w1, Ok (i, totalBytes))
         | (w1, Crash) \<Rightarrow> (w1, Panic)
         | (w1, Proceed bound' gen') \<Rightarrow>
             (case get_turn out keys i totalBytes w1 of
                (w2, Ok totalBytes') \<Rightarrow> alg_loop out wk taskID keys stop (i + 1) bound' gen' totalBytes' w2
              | (w2, Err e) \<Rightarrow> (w2, Err e)
              | (w2, Panic) \<Rightarrow> (w2, Panic)))
      else (w, Ok (i, totalBytes)))"
  by pat_completeness auto

termination
  by (relation "measure (\<lambda>(_, _, _, _, stop, i, _). nat (stop - i))") auto

declare alg_loop.simps [simp del, code]

text \<open>The part of the listing the assignment may touch at all.\<close>

definition alg_end :: "TaskAssignment \<Rightarrow> string list \<Rightarrow> int" where
  "alg_end a keys = (if aRangeEnd a \<ge> 0 \<and> aRangeEnd a < int (length keys) then aRangeEnd a else int (length keys))"

text \<open>The row that becomes the staged object.\<close>

definition result_row :: "TaskAssignment \<Rightarrow> int \<Rightarrow> int \<Rightarrow> ResultRow" where
  "result_row a processed totalBytes =
     \<lparr>rwTaskID = aTaskID a, rwShard = aShard a,
      rwOutputKey = FinalResultKey (aJobID a) (aShard a) \<lparr>rStart = aRangeStart a, rEnd = aRangeEnd a, rSplit = aSplit a\<rparr>,
      rwImagesProcessed = processed, rwBytesRead = totalBytes\<rparr>"

definition stage_result :: "'w outside \<Rightarrow> TaskAssignment \<Rightarrow> int \<Rightarrow> int \<Rightarrow> 'w \<Rightarrow> 'w \<times> (int \<times> int \<times> string) outcome" where
  "stage_result out a processed totalBytes w =
     (let stagingKey = StagingResultKey (aJobID a) (aTaskID a)
      in (case WriteResultsParquet out [result_row a processed totalBytes] of
            Err e \<Rightarrow> (w, Err (''encode result parquet: '' @ e))
          | Panic \<Rightarrow> (w, Panic)
          | Ok body \<Rightarrow>
              (case PutObject out stagingKey body ''application/vnd.apache.parquet'' w of
                 (w1, Ok _) \<Rightarrow> (w1, Ok (processed, totalBytes, stagingKey))
               | (w1, Err e) \<Rightarrow> (w1, Err (''stage result '' @ stagingKey @ '': '' @ e))
               | (w1, Panic) \<Rightarrow> (w1, Panic))))"

definition runAlgorithm :: "'w outside \<Rightarrow> Worker \<Rightarrow> TaskAssignment \<Rightarrow> 'w \<Rightarrow> 'w \<times> (int \<times> int \<times> string) outcome" where
  "runAlgorithm out wk a w =
     (case ListPrefix out (aDataset a @ ''/'' @ aShard a @ ''/'') w of
        (w1, Err e) \<Rightarrow> (w1, Err (''list shard '' @ aShard a @ '': '' @ e))
      | (w1, Panic) \<Rightarrow> (w1, Panic)
      | (w1, Ok keys) \<Rightarrow>
          (case alg_loop out wk (aTaskID a) keys (alg_end a keys) (aRangeStart a) (aBound a) (aGeneration a) 0 w1 of
             (w2, Ok (i, totalBytes)) \<Rightarrow> stage_result out a (i64 (i - aRangeStart a)) totalBytes w2
           | (w2, Err e) \<Rightarrow> (w2, Err e)
           | (w2, Panic) \<Rightarrow> (w2, Panic)))"

definition result_request :: "Worker \<Rightarrow> int \<Rightarrow> (int \<times> int \<times> string) outcome \<Rightarrow> ResultRequest" where
  "result_request wk dur res =
     (case res of
        Ok (processed, bytesRead, outputKey) \<Rightarrow>
          \<lparr>rqWorkerID = wkID wk, rqImagesProcessed = processed, rqBytesRead = bytesRead, rqOutputKey = outputKey,
           rqDuration = dur, rqError = []\<rparr>
      | Err e \<Rightarrow>
          \<lparr>rqWorkerID = wkID wk, rqImagesProcessed = 0, rqBytesRead = 0, rqOutputKey = [], rqDuration = dur, rqError = e\<rparr>
      | Panic \<Rightarrow>
          \<lparr>rqWorkerID = wkID wk, rqImagesProcessed = 0, rqBytesRead = 0, rqOutputKey = [], rqDuration = dur, rqError = []\<rparr>)"

text \<open>\<^verbatim>\<open>RunTask\<close>; \<^verbatim>\<open>executeTask\<close> does the same between taking and giving back a token. The error of the
  start message is ignored.\<close>

definition RunTask :: "'w outside \<Rightarrow> Worker \<Rightarrow> TaskAssignment \<Rightarrow> 'w \<Rightarrow> 'w \<times> unit outcome" where
  "RunTask out wk a w =
     (case postJSON out (wkCoordinator wk @ ''/v1/tasks/'' @ aTaskID a @ ''/start'') (MStart (wkID wk)) w of
        (w1, Panic) \<Rightarrow> (w1, Panic)
      | (w1, _) \<Rightarrow>
          (case runAlgorithm out wk a w1 of
             (w2, Panic) \<Rightarrow> (w2, Panic)
           | (w2, res) \<Rightarrow>
               postJSON out (wkCoordinator wk @ ''/v1/tasks/'' @ aTaskID a @ ''/result'')
                 (MResult (result_request wk (clock out w2 - clock out w1) res)) w2))"

subsection \<open>Loops and goroutines\<close>

text \<open>A worker process: the goroutines of \<^verbatim>\<open>executeTask\<close> that wait for a token, and those that hold one.\<close>

record 'w process =
  prWorker :: Worker
  prWorld :: 'w
  prWaiting :: "TaskAssignment list"
  prRunning :: "TaskAssignment list"

definition Start :: "'w outside \<Rightarrow> Worker \<Rightarrow> 'w \<Rightarrow> 'w process outcome" where
  "Start out wk w =
     (case register out wk w of
        (w1, Ok _) \<Rightarrow> Ok \<lparr>prWorker = wk, prWorld = w1, prWaiting = [], prRunning = []\<rparr>
      | (w1, Err e) \<Rightarrow> Err (''register: '' @ e)
      | (w1, Panic) \<Rightarrow> Panic)"

text \<open>One turn of each loop.\<close>

definition pollLoop_turn :: "'w outside \<Rightarrow> 'w process \<Rightarrow> 'w process" where
  "pollLoop_turn out p =
     (if int (ActiveTaskCount (prWorker p)) < wkConcurrency (prWorker p) then
        (case poll out (prWorker p) (prWorld p) of
           (w1, None) \<Rightarrow> p\<lparr>prWorld := w1\<rparr>
         | (w1, Some a) \<Rightarrow> p\<lparr>prWorld := w1, prWaiting := prWaiting p @ [a]\<rparr>)
      else p)"

definition heartbeatLoop_turn :: "'w outside \<Rightarrow> 'w process \<Rightarrow> 'w process" where
  "heartbeatLoop_turn out p = p\<lparr>prWorld := sendHeartbeat out (prWorker p) (prWorld p)\<rparr>"

text \<open>\<^verbatim>\<open>executeTask\<close>: the send on \<^verbatim>\<open>sem\<close>, the task, the receive.\<close>

definition execute_enter :: "TaskAssignment \<Rightarrow> 'w process \<Rightarrow> 'w process" where
  "execute_enter a p =
     p\<lparr>prWorker := (prWorker p)\<lparr>wkSem := wkSem (prWorker p) + 1\<rparr>, prWaiting := remove1 a (prWaiting p), prRunning := prRunning p @ [a]\<rparr>"

definition executeTask :: "'w outside \<Rightarrow> TaskAssignment \<Rightarrow> 'w process \<Rightarrow> 'w process" where
  "executeTask out a p =
     p\<lparr>prWorld := fst (RunTask out (prWorker p) a (prWorld p)),
       prWorker := (prWorker p)\<lparr>wkSem := wkSem (prWorker p) - 1\<rparr>, prRunning := remove1 a (prRunning p)\<rparr>"

text \<open>The process; the rest of the world moves as well. A send on \<^verbatim>\<open>sem\<close> waits while the channel is full.\<close>

inductive process_step :: "'w outside \<Rightarrow> 'w process \<Rightarrow> 'w process \<Rightarrow> bool" for out where
  poll_turn: "process_step out p (pollLoop_turn out p)"
| heartbeat_turn: "process_step out p (heartbeatLoop_turn out p)"
| enter: "a \<in> set (prWaiting p) \<Longrightarrow> int (wkSem (prWorker p)) < wkConcurrency (prWorker p) \<Longrightarrow> process_step out p (execute_enter a p)"
| leave: "a \<in> set (prRunning p) \<Longrightarrow> process_step out p (executeTask out a p)"
| others: "process_step out p (p\<lparr>prWorld := w\<rparr>)"

inductive_cases process_stepE: "process_step out p p'"

end
