(* ===== verification/Worker_Props.thy ===== *)
theory Worker_Props
  imports Worker Coord_Props
begin

section \<open>Properties of the worker\<close>

text \<open>
  The worker's half of the lease protocol. The locale \<open>lease_service\<close> says what the loop of
  \<^verbatim>\<open>runAlgorithm\<close> relies on, and proves that the loop then reads exactly the objects of its range,
  however the range is cut while it runs. The interpretation on \<open>site\<close>, a world in which the worker
  talks over HTTP to the handlers of the coordinator while other clients use the scheduler between
  its requests, shows that the scheduler provides it.
\<close>

lemma alg_loop_cases:
  assumes "alg_loop out wk task keys stop i bound gen tb w = (w', res)"
  obtains (over) "\<not> i < stop" "w' = w" "res = Ok (i, tb)"
  | (leave) "i < stop" "renew_turn out wk task (int (length keys)) i bound gen w = (w', Leave)" "res = Ok (i, tb)"
  | (crash) "i < stop" "renew_turn out wk task (int (length keys)) i bound gen w = (w', Crash)"
  | (fail) w1 b g q where "i < stop" "renew_turn out wk task (int (length keys)) i bound gen w = (w1, Proceed b g)"
      "get_turn out keys i tb w1 = (w', q)" "\<not> is_ok q"
  | (proceed) w1 b g w2 tb' where "i < stop" "renew_turn out wk task (int (length keys)) i bound gen w = (w1, Proceed b g)"
      "get_turn out keys i tb w1 = (w2, Ok tb')" "alg_loop out wk task keys stop (i + 1) b g tb' w2 = (w', res)"
proof (cases "i < stop")
  case False
  with assms show thesis by (intro over) (simp_all add: alg_loop.simps [of _ _ _ _ _ i])
next
  case True
  obtain w1 t where t: "renew_turn out wk task (int (length keys)) i bound gen w = (w1, t)" by fastforce
  show thesis
  proof (cases t)
    case (Proceed b g)
    obtain w2 q where q: "get_turn out keys i tb w1 = (w2, q)" by fastforce
    show thesis
      by (cases q) (use assms True t Proceed q fail [of w1 b g q] proceed [of w1 b g w2] in
        \<open>simp_all add: alg_loop.simps [of _ _ _ _ _ i]\<close>)
  qed (use assms True t leave crash in \<open>simp_all add: alg_loop.simps [of _ _ _ _ _ i]\<close>)
qed

subsection \<open>The lease interface\<close>

text \<open>\<open>granted\<close> and \<open>limit\<close> are the provider's view of the task: what the worker may read, and the
  end of the range. \<open>fair w\<close> says that up to the world \<open>w\<close> the other clients kept their side and left the
  worker its task; \<open>wf\<close> is the provider's invariant.\<close>

locale lease_service =
  fixes out :: "'w outside" and wk :: Worker and task :: string and keys :: "string list" and first :: int
    and fair :: "'w \<Rightarrow> bool" and wf :: "'w \<Rightarrow> bool" and granted :: "'w \<Rightarrow> int" and limit :: "'w \<Rightarrow> int"
    and reads :: "'w \<Rightarrow> string list"
  assumes get_reads: "GetObject out k w = (w', sz) \<Longrightarrow>
      reads w' = reads w @ [k] \<and> sz \<noteq> Panic \<and> granted w' = granted w \<and> limit w' = limit w \<and> fair w' = fair w \<and> wf w' = wf w"
    and renew_fair: "renew out wk task req w = (w', res) \<Longrightarrow> fair w' \<Longrightarrow> fair w"
    and renew_extends: "renew out wk task \<lparr>rnWorkerID = wkID wk, rnGeneration = g, rnFrontier = i, rnTotal = int (length keys)\<rparr> w = (w', res) \<Longrightarrow>
      fair w' \<Longrightarrow> wf w \<Longrightarrow> first \<le> i \<Longrightarrow> 0 \<le> i \<Longrightarrow> i < int (length keys) \<Longrightarrow>
      \<exists>lr. res = Ok lr \<and> lrBound lr = granted w' \<and> wf w' \<and> granted w \<le> granted w' \<and> limit w' \<le> limit w \<and> reads w' = reads w
        \<and> (granted w' \<le> i \<longrightarrow> limit w' \<le> i)"
    and grant_within: "wf w \<Longrightarrow> min (granted w) (int (length keys)) \<le> limit w"
begin

lemma renew_turn_fair: "renew_turn out wk task n i bound gen w = (w1, t) \<Longrightarrow> fair w1 \<Longrightarrow> fair w"
  using renew_fair by (fastforce simp: renew_turn_def split: if_splits prod.splits outcome.splits)

lemma get_turn_frame:
  "get_turn out keys i tb w = (w1, res) \<Longrightarrow> granted w1 = granted w \<and> limit w1 = limit w \<and> fair w1 = fair w \<and> wf w1 = wf w"
  using get_reads by (fastforce simp: get_turn_def split: if_splits prod.splits outcome.splits)

lemma get_turn_reads:
  assumes "get_turn out keys i tb w = (w1, res)" "0 \<le> i" "i < int (length keys)"
  shows "reads w1 = reads w @ [keys ! nat i] \<and> (\<exists>tb'. res = Ok tb')"
  using assms get_reads by (fastforce simp: get_turn_def split: prod.splits outcome.splits)

lemma loop_fair: "alg_loop out wk task keys stop i bound gen tb w = (w', res) \<Longrightarrow> fair w' \<Longrightarrow> fair w"
proof (induction "nat (stop - i)" arbitrary: i bound gen tb w rule: less_induct)
  case less
  from less.prems(1) show ?case
  proof (cases rule: alg_loop_cases)
    case (proceed w1 b g w2 tb')
    from less.hyps [OF _ proceed(4) less.prems(2)] proceed(1) get_turn_frame [OF proceed(3)] renew_turn_fair [OF proceed(2)]
    show ?thesis by simp
  qed (use less.prems(2) renew_turn_fair get_turn_frame in blast)+
qed

lemma renew_turn_extends:
  assumes "renew_turn out wk task (int (length keys)) i bound gen w = (w1, t)" and "fair w1" "wf w"
    and "first \<le> bound" "0 \<le> i" "i < int (length keys)" "bound \<le> granted w"
  shows "wf w1 \<and> granted w \<le> granted w1 \<and> limit w1 \<le> limit w \<and> reads w1 = reads w
    \<and> (t = Leave \<and> limit w1 \<le> i \<or> (\<exists>b g. t = Proceed b g \<and> first \<le> b \<and> i < b \<and> b \<le> granted w1))"
proof (cases "i \<ge> bound")
  case True
  obtain r where r: "renew out wk task \<lparr>rnWorkerID = wkID wk, rnGeneration = gen, rnFrontier = i, rnTotal = int (length keys)\<rparr> w = (w1, r)"
    using assms(1) True by (auto simp: renew_turn_def split: prod.splits outcome.splits)
  from renew_extends [OF r assms(2,3) _ assms(5,6)] True assms(4) obtain lr where
    lr: "r = Ok lr" "lrBound lr = granted w1" "wf w1" "granted w \<le> granted w1" "limit w1 \<le> limit w" "reads w1 = reads w"
      "granted w1 \<le> i \<longrightarrow> limit w1 \<le> i" by auto
  with assms(1,4,7) r True show ?thesis by (auto simp: renew_turn_def split: if_splits)
next
  case False
  with assms show ?thesis by (auto simp: renew_turn_def)
qed

text \<open>The loop ends, and it has read exactly what is left of the range at its end.\<close>

lemma loop_reads_range:
  "alg_loop out wk task keys stop i bound gen tb w = (w', res) \<Longrightarrow> fair w' \<Longrightarrow> wf w \<Longrightarrow> first \<le> bound \<Longrightarrow> bound \<le> granted w \<Longrightarrow>
   0 \<le> i \<Longrightarrow> i \<le> int (length keys) \<Longrightarrow> i \<le> granted w \<Longrightarrow> stop \<le> int (length keys) \<Longrightarrow> limit w \<le> stop \<Longrightarrow>
   (\<exists>tb'. res = Ok (limit w', tb')) \<and> wf w' \<and> i \<le> limit w' \<and> reads w' = reads w @ map (\<lambda>j. keys ! nat j) [i..limit w' - 1]"
proof (induction "nat (stop - i)" arbitrary: i bound gen tb w rule: less_induct)
  case less
  from less.prems(1) show ?case
  proof (cases rule: alg_loop_cases)
    case over
    with less.prems grant_within [OF less.prems(3)] show ?thesis by auto
  next
    case leave
    with less.prems renew_turn_extends [OF leave(2) less.prems(2-4,6) _ less.prems(5)]
    have x: "wf w'" "granted w \<le> granted w'" "reads w' = reads w" "limit w' \<le> i" by auto
    with leave less.prems grant_within [OF x(1)] show ?thesis by auto
  next
    case crash
    with less.prems renew_turn_extends [OF crash(2) less.prems(2-4,6) _ less.prems(5)] show ?thesis by auto
  next
    case (fail w1 b g q)
    with less.prems get_turn_reads [OF fail(3)] show ?thesis by auto
  next
    case (proceed w1 b g w2 tb')
    have i: "i < int (length keys)" using proceed(1) less.prems(9) by simp
    have f: "fair w1" using loop_fair [OF proceed(4) less.prems(2)] get_turn_frame [OF proceed(3)] by simp
    have x: "wf w1" "granted w \<le> granted w1" "limit w1 \<le> limit w" "reads w1 = reads w" "first \<le> b" "i < b" "b \<le> granted w1"
      using renew_turn_extends [OF proceed(2) f less.prems(3,4,6) i less.prems(5)] by auto
    have fr: "granted w2 = granted w1" "limit w2 = limit w1" "wf w2 = wf w1" using get_turn_frame [OF proceed(3)] by auto
    have r: "reads w2 = reads w @ [keys ! nat i]" using get_turn_reads [OF proceed(3) less.prems(6) i] x(4) by simp
    have "(\<exists>tb'. res = Ok (limit w', tb')) \<and> wf w' \<and> i + 1 \<le> limit w' \<and> reads w' = reads w2 @ map (\<lambda>j. keys ! nat j) [i + 1..limit w' - 1]"
      by (rule less.hyps [OF _ proceed(4) less.prems(2)]) (use proceed(1) less.prems i x fr in auto)
    then show ?thesis using r upto_rec1 [of i "limit w' - 1"] by auto
  qed
qed

end

subsection \<open>What the scheduler keeps of a lease\<close>

text \<open>As long as a task is not handed back to the queue, which counts a retry, its grant only grows
  and its range is only cut behind the grant.\<close>

definition lease_kept :: "Task \<Rightarrow> Task \<Rightarrow> bool" where
  "lease_kept t t' \<longleftrightarrow> tJobID t' = tJobID t \<and> tShard t' = tShard t \<and> tRangeStart t' = tRangeStart t \<and> tGranted t \<le> tGranted t'
     \<and> (tRangeEnd t \<ge> 0 \<longrightarrow> tRangeEnd t' \<ge> 0 \<and> tRangeEnd t' \<le> tRangeEnd t)"

lemma lease_kept_refl [simp]: "lease_kept t t"
  by (simp add: lease_kept_def)

lemma lease_kept_trans: "lease_kept t u \<Longrightarrow> lease_kept u v \<Longrightarrow> lease_kept t v"
  by (auto simp: lease_kept_def)

lemma grantLocked_mono: "tGranted t \<le> tGranted (grantLocked s t)" "tRangeEnd (grantLocked s t) = tRangeEnd t"
  by (simp_all add: grantLocked_Granted)

lemma renew_Granted: "tGranted t \<le> tGranted (renew_task s req t)"
  unfolding renew_task_alt by (rule order_trans [OF _ grantLocked_mono(1)]) simp

lemma lease_kept_step:
  assumes "task_step ok late s t t'"
  shows "tRetries t < tRetries t' \<or> tRetries t' = tRetries t \<and> lease_kept t t'"
  using assms
proof cases
  case (renew req)
  then show ?thesis by (simp add: lease_kept_def renew_RangeEnd renew_Granted)
qed (auto simp: lease_kept_def grantLocked_Granted)

definition lease_stands :: "Task \<Rightarrow> Task \<Rightarrow> bool" where
  "lease_stands t t' \<longleftrightarrow> tRetries t \<le> tRetries t' \<and> (tRetries t' = tRetries t \<longrightarrow> lease_kept t t')"

lemma lease_stands_trans: "lease_stands t u \<Longrightarrow> lease_stands u v \<Longrightarrow> lease_stands t v"
  by (auto simp: lease_stands_def dest: lease_kept_trans)

lemma lease_stands_micro:
  assumes m: "sched_micro ok late s s'" and wf: "sched_wf s" and t: "map_of (tasks s) k = Some t" and inv: "lease_ok t" "0 \<le> tRangeStart t"
  shows "\<exists>t'. map_of (tasks s') k = Some t' \<and> lease_stands t t'"
  using m
proof cases
  case (one_task k' u u')
  then show ?thesis using t lease_kept_step [OF one_task(2)] by (auto simp: lease_stands_def)
next
  case (split k' v p u j now w)
  have "k \<noteq> u" using split(6) t by auto
  moreover have "lease_stands v (kept_half v p)" if "lease_ok v" "0 \<le> tRangeStart v"
    using that split(4,5) by (auto simp: lease_stands_def lease_kept_def lease_ok_def)
  moreover have "lease_stands t t" by (simp add: lease_stands_def)
  moreover have "v = t" if "k' = k" using that split(2) t by simp
  ultimately show ?thesis using t inv unfolding split(1) by (cases "k' = k") simp_all
next
  case (submit job uuid)
  then show ?thesis using t by (auto simp: lease_stands_def map_add_Some_iff)
next
  case unqueue
  then show ?thesis using t by (simp add: lease_stands_def)
next
  case reorder
  then have "map_of (tasks s') = map_of (tasks s)" using map_of_mset [OF reorder(1) [symmetric] sched_wfD(2) [OF wf]] by simp
  with t show ?thesis by (simp add: lease_stands_def)
qed

lemma lease_stands_op:
  assumes r: "reachable (honest sz c) late c s" and sz: "sizes_ok sz c" and ok: "op_ok (honest sz c) late x s"
    and t: "map_of (tasks s) k = Some t"
  shows "\<exists>t'. map_of (tasks (run_op x s)) k = Some t' \<and> lease_stands t t'"
proof -
  have "micros (honest sz c) late s (run_op x s)" by (rule run_op_micros [OF reachable_wf [OF r] ok])
  then have "sched_wf (run_op x s) \<and> leases_ok sz c (run_op x s) \<and> (\<exists>t'. map_of (tasks (run_op x s)) k = Some t' \<and> lease_stands t t')"
  proof (induction rule: rtranclp_induct)
    case base
    show ?case using reachable_wf [OF r] reachable_leases_ok [OF r sz] t by (auto simp: lease_stands_def)
  next
    case (step s1 s2)
    then obtain t1 where t1: "map_of (tasks s1) k = Some t1" "lease_stands t t1" by blast
    with step.IH have "lease_ok t1" "0 \<le> tRangeStart t1" by (simp_all add: leases_ok_def lease_inv_def)
    from lease_stands_micro [OF step.hyps(2) _ t1(1) this(1,2)] step t1(2) sched_wf_micro [OF step.hyps(2)] leases_ok_micro [OF step.hyps(2) _ _ sz]
    show ?case by (blast intro: lease_stands_trans)
  qed
  then show ?thesis by blast
qed

subsection \<open>A worker, a coordinator and other clients\<close>

text \<open>The messages of the worker as request bodies.\<close>

definition msg_codec :: "(schedulerState \<Rightarrow> byte list) \<Rightarrow> (byte list \<Rightarrow> schedulerState option) \<Rightarrow> message codec" where
  "msg_codec enc dec = \<lparr>encState = enc, decState = dec,
     decRegister = (\<lambda>m. case m of MRegister r \<Rightarrow> Some r | _ \<Rightarrow> None),
     decHeartbeat = (\<lambda>m. case m of MHeartbeat h \<Rightarrow> Some h | _ \<Rightarrow> None),
     decSubmit = (\<lambda>_. None),
     decStart = (\<lambda>m. case m of MStart w \<Rightarrow> Some w | _ \<Rightarrow> None),
     decRenew = (\<lambda>m. case m of MRenew r \<Rightarrow> Some r | _ \<Rightarrow> None),
     decResult = (\<lambda>m. case m of MResult r \<Rightarrow> Some r | _ \<Rightarrow> None)\<rparr>"

text \<open>What the server makes of a URL: the path below the base and at most one query parameter.\<close>

definition request_of :: "string \<Rightarrow> string \<Rightarrow> string \<Rightarrow> message option \<Rightarrow> message request" where
  "request_of base meth url body =
     (let rest = drop (length base) url
      in (case cut (CHR ''?'') rest of
            None \<Rightarrow> \<lparr>hqMethod = meth, hqPath = rest, hqQuery = [], hqTenant = [], hqBody = body\<rparr>
          | Some (path, q) \<Rightarrow>
              \<lparr>hqMethod = meth, hqPath = path, hqQuery = (case cut (CHR ''='') q of None \<Rightarrow> [] | Some kv \<Rightarrow> [kv]),
               hqTenant = [], hqBody = body\<rparr>))"

text \<open>The world: before each request of the worker an entry of \<open>siSchedule\<close> takes effect, the
  scheduler operations of other clients and the input of the handler. \<open>siFair\<close> records that these operations
  satisfied \<open>op_ok\<close> and left the task \<open>siTask\<close> on its attempt.\<close>

record ('o, 'd, 'e) site =
  siCoord :: "('o, 'd, 'e) Coordinator"
  siSchedule :: "(sched_op list \<times> input) list"
  siFair :: bool
  siTask :: string
  siAttempt :: int
  siSize :: "string \<Rightarrow> string \<Rightarrow> int"
  siChunk :: int
  siListing :: "string \<Rightarrow> string list"
  siObjects :: "string \<Rightarrow> int option"
  siReads :: "string list"
  siStaged :: "(string, byte list) gomap"

definition idle_input :: input where
  "idle_input = \<lparr>inNow = 0, inUuid = (\<lambda>_. []), inFault = AppendOk\<rparr>"

definition env_op :: "'b codec \<Rightarrow> sched_op \<Rightarrow> ('o, 'd, 'e) Coordinator \<Rightarrow> ('o, 'd, 'e) Coordinator" where
  "env_op cdc x c = sched_update cdc AppendOk (run_op x (coSched c)) c"

definition on_attempt :: "string \<Rightarrow> int \<Rightarrow> Scheduler \<Rightarrow> bool" where
  "on_attempt k n s \<longleftrightarrow> (case map_of (tasks s) k of None \<Rightarrow> False | Some t \<Rightarrow> tRetries t = n)"

fun others_ok :: "(Task \<Rightarrow> RenewLeaseRequest \<Rightarrow> bool) \<Rightarrow> string \<Rightarrow> int \<Rightarrow> sched_op list \<Rightarrow> Scheduler \<Rightarrow> bool" where
  "others_ok ok k n [] s = True"
| "others_ok ok k n (x # xs) s = (op_ok ok True x s \<and> on_attempt k n (run_op x s) \<and> others_ok ok k n xs (run_op x s))"

definition site_http ::
  "message codec \<Rightarrow> string \<Rightarrow> string \<Rightarrow> string \<Rightarrow> message option \<Rightarrow> ('o, 'd, 'e) site \<Rightarrow> ('o, 'd, 'e) site \<times> response outcome" where
  "site_http cdc base meth url body w =
     (let (xs, i) = (case siSchedule w of [] \<Rightarrow> ([], idle_input) | p # _ \<Rightarrow> p);
          c1 = fold (env_op cdc) xs (siCoord w);
          (resp, c2) = serve cdc i (request_of base meth url body) c1
      in (w\<lparr>siCoord := c2, siSchedule := tl (siSchedule w),
            siFair := (siFair w \<and> others_ok (honest (siSize w) (siChunk w)) (siTask w) (siAttempt w) xs (coSched (siCoord w)))\<rparr>,
          case resp of Ok r \<Rightarrow> Ok r | _ \<Rightarrow> Err ''EOF''))"

definition site_outside :: "message codec \<Rightarrow> string \<Rightarrow> (ResultRow list \<Rightarrow> byte list) \<Rightarrow> ('o, 'd, 'e) site outside" where
  "site_outside cdc base parquet =
     \<lparr>http = site_http cdc base,
      decPoll = (\<lambda>v. case v of JPoll a h \<Rightarrow> Ok (a, h) | _ \<Rightarrow> Err ''json''),
      decRenewal = (\<lambda>v. case v of JRenewal lr \<Rightarrow> Ok lr | _ \<Rightarrow> Err ''json''),
      decErrorText = (\<lambda>v. case v of JError e \<Rightarrow> e | _ \<Rightarrow> []),
      ListPrefix = (\<lambda>p w. (w, Ok (siListing w p))),
      GetObject = (\<lambda>k w. (w\<lparr>siReads := siReads w @ [k]\<rparr>, case siObjects w k of None \<Rightarrow> Err ''no such key'' | Some n \<Rightarrow> Ok n)),
      PutObject = (\<lambda>k b ct w. (w\<lparr>siStaged := AList.update k b (siStaged w)\<rparr>, Ok ())),
      WriteResultsParquet = (\<lambda>rows. Ok (parquet rows)),
      clock = (\<lambda>w. 0)\<rparr>"

lemma coSched_env_ops: "coSched (fold (env_op cdc) xs c) = fold run_op xs (coSched c)"
  by (induction xs arbitrary: c) (simp_all add: env_op_def)

text \<open>A task action reaches its handler.\<close>

lemma mux_task: "mux_route (''/v1/tasks/'' @ k @ CHR ''/'' # action) = Some HTask"
proof -
  have "''poll'' \<noteq> k @ CHR ''/'' # action"
  proof
    assume "''poll'' = k @ CHR ''/'' # action"
    then have "CHR ''/'' \<in> set ''poll''" by (metis in_set_conv_decomp)
    then show False by simp
  qed
  then have "filter (\<lambda>(pat, _). pattern_matches pat (''/v1/tasks/'' @ k @ CHR ''/'' # action)) routes = [(''/v1/tasks/'', HTask)]"
    by (simp add: routes_def pattern_matches_def)
  then show ?thesis by (simp add: mux_route_def)
qed

lemma cut_absent: "c \<notin> set s \<Longrightarrow> cut c s = None"
  by (induction s) auto

definition plain_id :: "string \<Rightarrow> bool" where
  "plain_id k \<longleftrightarrow> CHR ''/'' \<notin> set k \<and> CHR ''?'' \<notin> set k"

lemma request_of_task:
  assumes "plain_id k" "CHR ''?'' \<notin> set action"
  shows "request_of base meth (base @ ''/v1/tasks/'' @ k @ CHR ''/'' # action) body =
     \<lparr>hqMethod = meth, hqPath = ''/v1/tasks/'' @ k @ CHR ''/'' # action, hqQuery = [], hqTenant = [], hqBody = body\<rparr>"
proof -
  have "cut (CHR ''?'') (''/v1/tasks/'' @ k @ CHR ''/'' # action) = None"
    by (rule cut_absent) (use assms in \<open>simp add: plain_id_def\<close>)
  then show ?thesis by (simp add: request_of_def)
qed

lemma serve_renew:
  assumes "plain_id k"
  shows "serve (msg_codec enc dec) i (request_of base ''POST'' (base @ ''/v1/tasks/'' @ k @ ''/renew'') (Some (MRenew req))) c
     = task_renew (msg_codec enc dec) i \<lparr>hqMethod = ''POST'', hqPath = ''/v1/tasks/'' @ k @ ''/renew'', hqQuery = [], hqTenant = [],
         hqBody = Some (MRenew req)\<rparr> k c"
proof -
  have "cut (CHR ''/'') (trim_prefix ''/v1/tasks/'' (''/v1/tasks/'' @ k @ CHR ''/'' # ''renew'')) = Some (k, ''renew'')"
    using assms cut_append [of "CHR ''/''" k "''renew''"] by (simp add: trim_prefix_def plain_id_def)
  with mux_task [of k "''renew''"] request_of_task [OF assms, of "''renew''" base "''POST''" "Some (MRenew req)"] show ?thesis
    by (simp add: serve_def handleTask_def)
qed

lemma msg_codec_fields: "decRenew (msg_codec enc dec) (MRenew r) = Some r"
  by (simp add: msg_codec_def)

lemma site_outside_fields [simp]:
  "http (site_outside cdc base parquet) = site_http cdc base"
  "decRenewal (site_outside cdc base parquet) (JRenewal lr) = Ok lr"
  "GetObject (site_outside cdc base parquet) k w =
     (w\<lparr>siReads := siReads w @ [k]\<rparr>, case siObjects w k of None \<Rightarrow> Err ''no such key'' | Some n \<Rightarrow> Ok n)"
  by (simp_all add: site_outside_def)

lemma fst_postJSONResp: "fst (postJSONResp out url m dec w) = fst (http out ''POST'' url (Some m) w)"
  by (simp add: postJSONResp_def split: prod.split outcome.split)

text \<open>A renewal, as the worker sees it.\<close>

lemma site_renew:
  assumes "wkCoordinator wk = base" "plain_id k"
    and "renew (site_outside (msg_codec enc dec) base parquet) wk k req w = (w', res)"
  obtains xs where "siFair w' \<longleftrightarrow> siFair w \<and> others_ok (honest (siSize w) (siChunk w)) (siTask w) (siAttempt w) xs (coSched (siCoord w))"
    and "siReads w' = siReads w" "siSize w' = siSize w" "siChunk w' = siChunk w" "siTask w' = siTask w" "siAttempt w' = siAttempt w"
    and "\<And>lr s'. RenewLease k req (fold run_op xs (coSched (siCoord w))) = Ok (lr, s') \<Longrightarrow> res = Ok lr \<and> coSched (siCoord w') = s'"
proof -
  obtain xs i where xi: "(case siSchedule w of [] \<Rightarrow> ([], idle_input) | p # _ \<Rightarrow> p) = (xs, i)" by fastforce
  let ?c1 = "fold (env_op (msg_codec enc dec)) xs (siCoord w)"
  obtain resp c2 where tr: "task_renew (msg_codec enc dec) i \<lparr>hqMethod = ''POST'', hqPath = ''/v1/tasks/'' @ k @ ''/renew'', hqQuery = [], hqTenant = [],
         hqBody = Some (MRenew req)\<rparr> k ?c1 = (resp, c2)" by fastforce
  have h: "site_http (msg_codec enc dec) base ''POST'' (base @ ''/v1/tasks/'' @ k @ ''/renew'') (Some (MRenew req)) w =
     (w\<lparr>siCoord := c2, siSchedule := tl (siSchedule w),
        siFair := (siFair w \<and> others_ok (honest (siSize w) (siChunk w)) (siTask w) (siAttempt w) xs (coSched (siCoord w)))\<rparr>,
      case resp of Ok r \<Rightarrow> Ok r | _ \<Rightarrow> Err ''EOF'')"
    unfolding site_http_def xi Let_def prod.case serve_renew [OF assms(2)] tr ..
  have "fst (renew (site_outside (msg_codec enc dec) base parquet) wk k req w) = w\<lparr>siCoord := c2, siSchedule := tl (siSchedule w),
        siFair := (siFair w \<and> others_ok (honest (siSize w) (siChunk w)) (siTask w) (siAttempt w) xs (coSched (siCoord w)))\<rparr>"
    unfolding renew_def fst_postJSONResp assms(1) site_outside_fields(1) h by simp
  note w' = this [unfolded assms(3) fst_conv]
  show thesis
  proof (rule that [of xs])
    fix lr s'
    assume ok: "RenewLease k req (fold run_op xs (coSched (siCoord w))) = Ok (lr, s')"
    with tr have "resp = writeJSON 200 (JRenewal lr) \<and> coSched c2 = s'"
      by (auto simp: task_renew_def decode_def msg_codec_fields coSched_env_ops)
    moreover from this have "res = Ok lr" using assms(3) unfolding renew_def assms(1) postJSONResp_def site_outside_fields(1) h
      by (simp add: writeJSON_def)
    ultimately show "res = Ok lr \<and> coSched (siCoord w') = s'" by (simp add: w')
  qed (simp_all add: w')
qed

definition site_task :: "('o, 'd, 'e) site \<Rightarrow> Task" where
  "site_task w = the (map_of (tasks (coSched (siCoord w))) (siTask w))"

definition site_granted :: "('o, 'd, 'e) site \<Rightarrow> int" where
  "site_granted w = tGranted (site_task w)"

definition site_limit :: "int \<Rightarrow> ('o, 'd, 'e) site \<Rightarrow> int" where
  "site_limit n w = (if tRangeEnd (site_task w) < 0 then n else tRangeEnd (site_task w))"

definition lease_state :: "(string \<Rightarrow> string \<Rightarrow> int) \<Rightarrow> int \<Rightarrow> string \<Rightarrow> int \<Rightarrow> int \<Rightarrow> Task \<Rightarrow> Scheduler \<Rightarrow> bool" where
  "lease_state sz c k n first t s \<longleftrightarrow> reachable (honest sz c) True c s \<and> sizes_ok sz c \<and> map_of (tasks s) k = Some t \<and> tRetries t = n
     \<and> (tRangeEnd t < 0 \<longrightarrow> c \<le> first)"

lemma lease_state_others:
  "lease_state sz c k n first t s \<Longrightarrow> others_ok (honest sz c) k n xs s \<Longrightarrow>
   \<exists>t'. lease_state sz c k n first t' (fold run_op xs s) \<and> lease_kept t t'"
proof (induction xs arbitrary: s t)
  case (Cons x xs)
  then have r: "reachable (honest sz c) True c s" "sizes_ok sz c" "map_of (tasks s) k = Some t" "op_ok (honest sz c) True x s"
    "tRetries t = n" "on_attempt k n (run_op x s)" by (simp_all add: lease_state_def)
  from lease_stands_op [OF r(1,2,4,3)] r(5,6) obtain t1 where t1: "map_of (tasks (run_op x s)) k = Some t1" "lease_kept t t1" "tRetries t1 = n"
    by (auto simp: on_attempt_def lease_stands_def)
  with Cons.prems(1) r reachable.step [OF r(1,4)] have "lease_state sz c k n first t1 (run_op x s)"
    by (auto simp: lease_state_def lease_kept_def)
  from Cons.IH [OF this] Cons.prems(2) obtain t' where "lease_state sz c k n first t' (fold run_op xs (run_op x s))" "lease_kept t1 t'" by auto
  with lease_kept_trans [OF t1(2)] show ?case by auto
qed auto

lemma renew_moves_bound:
  assumes inv: "lease_inv sz c t" and sz: "sizes_ok sz c" and c: "leaseChunk s = c" and h: "honest sz c t req"
    and g: "tGranted (renew_task s req t) \<le> rnFrontier req"
  shows "tRangeEnd (renew_task s req t) \<le> rnFrontier req"
proof -
  define E where "E = (if tRangeEnd t < 0 \<and> rnTotal req > 0 then rnTotal req else tRangeEnd t)"
  define F0 where "F0 = (if rnFrontier req > tFrontier t then rnFrontier req else tFrontier t)"
  define F where "F = (if E \<ge> 0 \<and> F0 > E then E else F0)"
  have b: "0 < c" "c < 2 ^ 62" "sz (tJobID t) (tShard t) < 2 ^ 62" using sz by (auto simp: sizes_ok_def)
  have E: "0 \<le> E" "E < 2 ^ 62" using inv h b by (auto simp: E_def lease_inv_def honest_def)
  have F: "0 \<le> F" "F \<le> E" "rnFrontier req \<le> F0" "F = F0 \<or> F = E" using h E by (auto simp: F_def F0_def honest_def)
  have "i64 (F + c) = F + c" using F E b by (intro i64_id) simp_all
  then have "tGranted (renew_task s req t) = max (tGranted t) (if F + c > E then E else F + c)"
    using E c unfolding renew_task_alt E_def [symmetric] F0_def [symmetric] F_def [symmetric] by (simp add: grantLocked_Granted Let_def)
  moreover have "tRangeEnd (renew_task s req t) = E" by (simp add: renew_RangeEnd E_def)
  ultimately show ?thesis using g F b by (auto split: if_splits)
qed

text \<open>A renewal at position \<open>i\<close>, at or past the first bound, is honest, and it moves the bound past \<open>i\<close> unless
  the range ends there.\<close>

lemma lease_state_renew:
  assumes st: "lease_state sz c k n first t s" and i: "first \<le> i" "0 \<le> i" "i < sz (tJobID t) (tShard t)"
    and req: "rnFrontier req = i" "rnTotal req = sz (tJobID t) (tShard t)"
  shows "\<exists>lr s'. RenewLease k req s = Ok (lr, s') \<and> lease_state sz c k n first (renew_task s req t) s'
     \<and> lrBound lr = tGranted (renew_task s req t) \<and> lease_kept t (renew_task s req t)
     \<and> (tGranted (renew_task s req t) \<le> i \<longrightarrow> 0 \<le> tRangeEnd (renew_task s req t) \<and> tRangeEnd (renew_task s req t) \<le> i)"
proof -
  have r: "reachable (honest sz c) True c s" and sz: "sizes_ok sz c" and t: "map_of (tasks s) k = Some t" and n: "tRetries t = n"
    using st by (simp_all add: lease_state_def)
  have h: "honest sz c t req" using st i req by (auto simp: honest_def lease_state_def)
  obtain lr s' where ren: "RenewLease k req s = Ok (lr, s')" using t by (simp add: RenewLease_def Let_def)
  then have s': "s' = persistLocked (s\<lparr>tasks := AList.update k (renew_task s req t) (tasks s)\<rparr>)" and lr: "lrBound lr = tGranted (renew_task s req t)"
    using t by (auto elim!: RenewLease_renew_task)
  have "reachable (honest sz c) True c (run_op (OpRenew k req) s)" by (rule reachable.step [OF r]) (simp add: t h)
  then have r': "reachable (honest sz c) True c s'" by (simp add: ren)
  have E: "0 \<le> tRangeEnd (renew_task s req t)" using i req by (auto simp: renew_RangeEnd)
  have "leaseChunk s = c" and inv: "lease_inv sz c t" using reachable_leases_ok [OF r sz] t by (auto simp: leases_ok_def)
  then have "tRangeEnd (renew_task s req t) \<le> i" if "tGranted (renew_task s req t) \<le> i"
    using renew_moves_bound [OF inv sz _ h] that req by simp
  moreover have "lease_kept t (renew_task s req t)" by (simp add: lease_kept_def renew_RangeEnd renew_Granted)
  ultimately show ?thesis using ren lr r' sz E n s' by (auto simp: lease_state_def)
qed

definition site_wf :: "string \<Rightarrow> string list \<Rightarrow> int \<Rightarrow> int \<Rightarrow> ('o, 'd, 'e) site \<Rightarrow> bool" where
  "site_wf task keys first start w \<longleftrightarrow> plain_id task \<and> siTask w = task \<and> tRangeStart (site_task w) = start
     \<and> lease_state (siSize w) (siChunk w) task (siAttempt w) first (site_task w) (coSched (siCoord w))
     \<and> siSize w (tJobID (site_task w)) (tShard (site_task w)) = int (length keys)"

lemma site_renew_fair: "renew (site_outside cdc base parquet) wk k req w = (w', res) \<Longrightarrow> siFair w' \<Longrightarrow> siFair w"
proof -
  assume a: "renew (site_outside cdc base parquet) wk k req w = (w', res)" and f: "siFair w'"
  have "w' = fst (site_http cdc base ''POST'' (wkCoordinator wk @ ''/v1/tasks/'' @ k @ ''/renew'') (Some (MRenew req)) w)"
    using arg_cong [OF a, of fst] unfolding renew_def fst_postJSONResp site_outside_fields(1) by simp
  with f show ?thesis unfolding site_http_def by (simp add: Let_def split: prod.splits)
qed

lemma site_renew_extends:
  fixes w :: "('o, 'd, 'e) site"
  assumes ren: "renew (site_outside (msg_codec enc dec) (wkCoordinator wk) parquet) wk task
      \<lparr>rnWorkerID = wkID wk, rnGeneration = g, rnFrontier = i, rnTotal = int (length keys)\<rparr> w = (w', res)"
    and f: "siFair w'" and wf: "site_wf task keys first start w" and i: "first \<le> i" "0 \<le> i" "i < int (length keys)"
  shows "\<exists>lr. res = Ok lr \<and> lrBound lr = site_granted w' \<and> site_wf task keys first start w' \<and> site_granted w \<le> site_granted w'
     \<and> site_limit (int (length keys)) w' \<le> site_limit (int (length keys)) w \<and> siReads w' = siReads w
     \<and> (site_granted w' \<le> i \<longrightarrow> site_limit (int (length keys)) w' \<le> i)"
proof -
  let ?req = "\<lparr>rnWorkerID = wkID wk, rnGeneration = g, rnFrontier = i, rnTotal = int (length keys)\<rparr>"
  let ?s = "coSched (siCoord w)"
  have k: "plain_id task" "siTask w = task" and n: "siSize w (tJobID (site_task w)) (tShard (site_task w)) = int (length keys)"
    and st: "lease_state (siSize w) (siChunk w) task (siAttempt w) first (site_task w) ?s" using wf by (simp_all add: site_wf_def)
  obtain xs where x: "siFair w' \<longleftrightarrow> siFair w \<and> others_ok (honest (siSize w) (siChunk w)) (siTask w) (siAttempt w) xs ?s"
    "siReads w' = siReads w" "siSize w' = siSize w" "siChunk w' = siChunk w" "siTask w' = siTask w" "siAttempt w' = siAttempt w"
    "\<And>lr s'. RenewLease task ?req (fold run_op xs ?s) = Ok (lr, s') \<Longrightarrow> res = Ok lr \<and> coSched (siCoord w') = s'"
    using site_renew [OF refl k(1) ren] by blast
  obtain t1 where t1: "lease_state (siSize w) (siChunk w) task (siAttempt w) first t1 (fold run_op xs ?s)" "lease_kept (site_task w) t1"
    using lease_state_others [OF st] x(1) f k(2) by blast
  define t2 where "t2 = renew_task (fold run_op xs ?s) ?req t1"
  have "siSize w (tJobID t1) (tShard t1) = int (length keys)" using t1(2) n by (simp add: lease_kept_def)
  with lease_state_renew [OF t1(1), of i ?req] i obtain lr s' where
    r: "RenewLease task ?req (fold run_op xs ?s) = Ok (lr, s')" "lease_state (siSize w) (siChunk w) task (siAttempt w) first t2 s'"
      "lrBound lr = tGranted t2" "lease_kept t1 t2" "tGranted t2 \<le> i \<longrightarrow> 0 \<le> tRangeEnd t2 \<and> tRangeEnd t2 \<le> i"
    unfolding t2_def by fastforce
  have res: "res = Ok lr" "coSched (siCoord w') = s'" using x(7) [OF r(1)] by simp_all
  have t2: "site_task w' = t2" using r(2) res(2) x(5) k(2) by (simp add: site_task_def lease_state_def)
  have kept: "lease_kept (site_task w) t2" using t1(2) r(4) by (rule lease_kept_trans)
  have "lease_inv (siSize w) (siChunk w) t2" using reachable_leases_ok [of "siSize w" "siChunk w"] r(2) by (auto simp: lease_state_def leases_ok_def)
  with kept n have lim: "tRangeEnd t2 \<le> int (length keys)" if "tRangeEnd t2 \<ge> 0" using that by (simp add: lease_inv_def lease_kept_def)
  have "tRangeStart (site_task w) = start" using wf by (simp add: site_wf_def)
  with kept n r(2) have wf': "site_wf task keys first start w'"
    unfolding site_wf_def t2 res(2) x(3-6) k(2) by (simp add: k(1) lease_kept_def)
  have g: "site_granted w' = tGranted t2" "site_granted w \<le> tGranted t2" using kept by (simp_all add: site_granted_def t2 lease_kept_def)
  have l: "site_limit (int (length keys)) w' \<le> site_limit (int (length keys)) w" using kept lim by (auto simp: site_limit_def t2 lease_kept_def)
  have "site_limit (int (length keys)) w' \<le> i" if "tGranted t2 \<le> i" using r(5) that by (simp add: site_limit_def t2)
  with res(1) r(3) wf' g l x(2) show ?thesis by simp
qed

interpretation site: lease_service "site_outside (msg_codec enc dec) (wkCoordinator wk) parquet" wk task keys first
    siFair "site_wf task keys first start" site_granted "site_limit (int (length keys))" siReads
  for enc dec wk parquet task keys first start
proof
  fix k and w w' :: "('a, 'b, 'c) site" and sz
  assume "GetObject (site_outside (msg_codec enc dec) (wkCoordinator wk) parquet) k w = (w', sz)"
  then show "siReads w' = siReads w @ [k] \<and> sz \<noteq> Panic \<and> site_granted w' = site_granted w
      \<and> site_limit (int (length keys)) w' = site_limit (int (length keys)) w \<and> siFair w' = siFair w \<and> site_wf task keys first start w' = site_wf task keys first start w"
    by (auto simp: site_granted_def site_limit_def site_task_def site_wf_def split: option.splits)
next
  fix w :: "('a, 'b, 'c) site"
  assume wf: "site_wf task keys first start w"
  then have "lease_inv (siSize w) (siChunk w) (site_task w)" using reachable_leases_ok [of "siSize w" "siChunk w"]
    by (auto simp: site_wf_def lease_state_def leases_ok_def)
  then show "min (site_granted w) (int (length keys)) \<le> site_limit (int (length keys)) w"
    by (auto simp: site_granted_def site_limit_def lease_inv_def lease_ok_def)
qed (blast intro: site_renew_fair, (rule site_renew_extends, assumption+))

subsection \<open>The assignment of a poll\<close>

definition describes :: "TaskAssignment \<Rightarrow> Task \<Rightarrow> bool" where
  "describes a t \<longleftrightarrow> aTaskID a = tID t \<and> aJobID a = tJobID t \<and> aShard a = tShard t \<and> aRangeStart a = tRangeStart t \<and> aRangeEnd a = tRangeEnd t
     \<and> aBound a = tGranted t \<and> aGeneration a = tGeneration t \<and> aSplit a = tSplit t"

lemma assignLocked_describes:
  assumes "assignLocked now k t w s = Ok (a, s1)"
  shows "map_of (tasks s1) k = Some (assigned_to s w now t) \<and> describes a (assigned_to s w now t)"
  using assms by (auto simp: assignLocked_def assignmentFor_def describes_def assigned_to_def Let_def split: option.splits)

lemma PollTasks_assignment:
  assumes wf: "sched_wf s" and u: "map_of (tasks s) u = None" and p: "PollTasks now u r w s = Ok (Some a, s')"
  shows "\<exists>s0 t. map_of (tasks s') (aTaskID a) = Some (assigned_to s0 w now t) \<and> describes a (assigned_to s0 w now t) \<and> leaseChunk s0 = leaseChunk s"
proof (cases "poll_index r w s")
  case None
  obtain k v q j where st: "stealLocked u s = (Some (stolen_half u v q), snd (stealLocked u s))" "leaseChunk (snd (stealLocked u s)) = leaseChunk s"
    by (cases rule: stealLocked_cases [OF wf, of u]) (use None p in \<open>auto simp: PollTasks_def\<close>)
  obtain s2 where a: "assignLocked now u (stolen_half u v q) w (snd (stealLocked u s)) = Ok (a, s2)" "s' = persistLocked s2"
    using p None st by (auto simp: PollTasks_def split: prod.splits outcome.splits)
  from assignLocked_describes [OF a(1)] have "aTaskID a = u" by (simp add: describes_def)
  with assignLocked_describes [OF a(1)] a(2) st(2) show ?thesis
    by (intro exI [of _ "snd (stealLocked u s)"] exI [of _ "stolen_half u v q"]) simp
next
  case (Some i)
  let ?s1 = "s\<lparr>pendingQ := take i (pendingQ s) @ drop (Suc i) (pendingQ s)\<rparr>"
  from Some p obtain t s2 where t: "map_of (tasks s) (pendingQ s ! i) = Some t"
    "assignLocked now (pendingQ s ! i) t w ?s1 = Ok (a, s2)" "s' = persistLocked s2"
    by (auto simp: PollTasks_def Let_def split: option.splits outcome.splits prod.splits)
  have "tID t = pendingQ s ! i" using wf t(1) by (simp add: sched_wf_def)
  with assignLocked_describes [OF t(2)] have "aTaskID a = pendingQ s ! i" by (simp add: describes_def)
  with assignLocked_describes [OF t(2)] t(3) show ?thesis by (intro exI [of _ ?s1] exI [of _ t]) simp
qed

text \<open>A first lease on a shard of unknown size is a full chunk.\<close>

lemma first_lease:
  assumes "lease_inv sz c (assigned_to s w now t)" "sizes_ok sz c" "leaseChunk s = c" "tRangeEnd (assigned_to s w now t) < 0"
  shows "c \<le> tGranted (assigned_to s w now t)"
proof -
  have "tFrontier t = 0" "tRangeEnd t < 0" using assms(1,4) by (auto simp: lease_inv_def assigned_to_def)
  moreover have "i64 c = c" using assms(2) by (intro i64_id) (auto simp: sizes_ok_def)
  ultimately show ?thesis using assms(3) by (simp add: assigned_to_def grantLocked_Granted Let_def)
qed


subsection \<open>The worker does its range\<close>

lemma map_nth_range:
  assumes "0 \<le> a" "a \<le> b" "b \<le> int (length keys)"
  shows "map (\<lambda>j. keys ! nat j) [a..b - 1] = map ((!) keys) (filter (\<lambda>x. a \<le> int x \<and> int x < b) [0..<length keys])"
proof -
  have "filter (\<lambda>x. a \<le> int x \<and> int x < b) [0..<length keys] = [nat a..<nat b]"
  proof (rule sorted_distinct_set_unique)
    show "set (filter (\<lambda>x. a \<le> int x \<and> int x < b) [0..<length keys]) = set [nat a..<nat b]" using assms by auto
  qed (simp_all add: sorted_wrt_filter)
  moreover have "[a..b - 1] = map int [nat a..<nat b]"
    by (rule nth_equalityI) (use assms in \<open>auto simp: nat_diff_distrib\<close>)
  ultimately show ?thesis by (simp add: o_def)
qed


text \<open>A run in which a second worker steals the tail after two renewals.\<close>

definition demo_worker :: Worker where
  "demo_worker = \<lparr>wkID = ''w1'', wkCoordinator = ''http://c'', wkHost = ''h'', wkPort = 1, wkConcurrency = 1, wkSem = 0, wkActive = []\<rparr>"

definition demo_assigned :: "(TaskAssignment option \<times> Scheduler) outcome" where
  "demo_assigned = PollTasks 2 ''u'' (NewRing 1) ''w1'' (fold run_op (take 1 demo_ops) demo_start)"

definition demo_assignment :: TaskAssignment where
  "demo_assignment = \<lparr>aTaskID = ''t'', aJobID = ''j'', aShard = ''s'', aDataset = ''d'', aAlgorithm = ''a'', aConfig = [],
     aRangeStart = 0, aRangeEnd = -1, aBound = 2, aGeneration = 0, aSplit = False\<rparr>"

definition demo_keys :: "string list" where
  "demo_keys = map (\<lambda>c. [c]) ''0123456789''"

definition demo_site :: "(unit, unit, unit) site" where
  "demo_site = \<lparr>siCoord = demo_coord\<lparr>coSched := (case demo_assigned of Ok (_, s) \<Rightarrow> s | _ \<Rightarrow> demo_start)\<rparr>,
     siSchedule = [([], idle_input), ([OpPoll 4 ''u'' (NewRing 1) ''w2''], idle_input)], siFair = True,
     siTask = ''t'', siAttempt = 0, siSize = demo_size, siChunk = 2,
     siListing = (\<lambda>_. demo_keys), siObjects = (\<lambda>_. Some 1), siReads = [], siStaged = []\<rparr>"

definition demo_outside :: "(unit, unit, unit) site outside" where
  "demo_outside = site_outside (msg_codec (\<lambda>_. []) (\<lambda>_. None)) ''http://c'' (\<lambda>_. [])"

lemma demo_run:
  "snd (runAlgorithm demo_outside demo_worker demo_assignment demo_site) = Ok (7, 7, ''staging/j/t.parquet'')"
  "siFair (fst (runAlgorithm demo_outside demo_worker demo_assignment demo_site))"
  by code_simp+


subsection \<open>Concurrency\<close>

definition process_inv :: "int \<Rightarrow> 'w process \<Rightarrow> bool" where
  "process_inv c p \<longleftrightarrow> wkConcurrency (prWorker p) = c \<and> wkActive (prWorker p) = [] \<and> length (prRunning p) = wkSem (prWorker p) \<and> int (wkSem (prWorker p)) \<le> c"

lemma process_inv_step: "process_step out p p' \<Longrightarrow> process_inv c p \<Longrightarrow> process_inv c p'"
proof (erule process_stepE)
  fix a
  assume "p' = executeTask out a p" "a \<in> set (prRunning p)" "process_inv c p"
  then show "process_inv c p'" by (auto simp: process_inv_def executeTask_def length_remove1)
qed (auto simp: process_inv_def pollLoop_turn_def heartbeatLoop_turn_def execute_enter_def split: prod.splits option.splits)

text \<open>A worker runs at most as many tasks at once as it is configured for. Its table of active tasks, however, is never
  filled: the count in its heartbeats is always 0, and whenever the concurrency is positive every turn of the poll
  loop polls, no matter how many assignments are running or waiting.\<close>

lemma worker_concurrency:
  assumes "Worker.New cfg uuid = Ok wk" and "Start out wk w = Ok p0" and "(process_step out)\<^sup>*\<^sup>* p0 p"
  shows "int (length (prRunning p)) \<le> wcConcurrency cfg \<and> ActiveTaskCount (prWorker p) = 0
     \<and> (0 < wcConcurrency cfg \<and> poll out (prWorker p) (prWorld p) = (w', Some a) \<longrightarrow>
          prWaiting (pollLoop_turn out p) = prWaiting p @ [a])"
proof -
  have "process_inv (wcConcurrency cfg) p0"
    using assms(1,2) by (auto simp: process_inv_def Worker.New_def Start_def split: if_splits prod.splits outcome.splits)
  with assms(3) have "process_inv (wcConcurrency cfg) p"
    by (induction rule: rtranclp_induct) (use process_inv_step in blast)+
  then show ?thesis by (auto simp: process_inv_def ActiveTaskCount_def pollLoop_turn_def)
qed

text \<open>A coordinator that always has work: two polls of a worker with one slot.\<close>

definition generous :: "unit outside" where
  "generous = \<lparr>http = (\<lambda>m url b w. (w, writeJSON 200 (JPoll (Some demo_assignment) True))),
     decPoll = (\<lambda>v. case v of JPoll a h \<Rightarrow> Ok (a, h) | _ \<Rightarrow> Err []), decRenewal = (\<lambda>_. Err []), decErrorText = (\<lambda>_. []),
     ListPrefix = (\<lambda>_ w. (w, Ok demo_keys)), GetObject = (\<lambda>_ w. (w, Ok 1)), PutObject = (\<lambda>_ _ _ w. (w, Ok ())),
     WriteResultsParquet = (\<lambda>_. Ok []), clock = (\<lambda>_. 0)\<rparr>"

definition demo_cfg :: WorkerConfig where
  "demo_cfg = \<lparr>wcID = ''w1'', wcCoordinatorURL = ''http://c'', wcHost = ''h'', wcPort = 1, wcConcurrency = 1\<rparr>"

definition demo_process :: "unit process" where
  "demo_process = \<lparr>prWorker = demo_worker, prWorld = (), prWaiting = [], prRunning = []\<rparr>"

theorem worker_concurrency_witness:
  "length (prWaiting (pollLoop_turn generous (pollLoop_turn generous demo_process))) = 2
   \<and> ActiveTaskCount (prWorker (pollLoop_turn generous demo_process)) = 0"
proof -
  have n: "Worker.New demo_cfg [] = Ok demo_worker" by (simp add: Worker.New_def demo_cfg_def demo_worker_def)
  have s: "Start generous demo_worker () = Ok demo_process"
    by (simp add: Start_def register_def postJSON_def generous_def demo_process_def writeJSON_def)
  have p: "poll generous wk x = ((), Some demo_assignment)" for wk x
    by (simp add: poll_def generous_def writeJSON_def)
  have c: "0 < wcConcurrency demo_cfg" by (simp add: demo_cfg_def)
  note w = worker_concurrency [OF n s, where w' = "()" and a = demo_assignment]
  have "(process_step generous)\<^sup>*\<^sup>* demo_process (pollLoop_turn generous demo_process)" by (blast intro: process_step.poll_turn)
  from w [OF this] w [OF rtranclp.rtrancl_refl] show ?thesis by (simp add: p c) (simp add: demo_process_def)
qed

text \<open>A renewal that fails in transport ends the loop without an error: the run returns success with eight of ten
  objects unread, and the report carries no error.\<close>

lemma failed_renewal_is_reported_as_success:
  "snd (runAlgorithm generous demo_worker demo_assignment ()) = Ok (2, 2, ''staging/j/t.parquet'') \<and> length demo_keys = 10
   \<and> rqError (result_request demo_worker 0 (snd (runAlgorithm generous demo_worker demo_assignment ()))) = []"
  by code_simp

text \<open>After a steal the row that the worker stages names another object than the one the coordinator will promote it to.\<close>

lemma staged_row_names_stale_key:
  "rwOutputKey (result_row demo_assignment 7 7) = ''results/j/s.parquet''
   \<and> FinalResultKey ''j'' ''s'' (task_range (site_task (fst (runAlgorithm demo_outside demo_worker demo_assignment demo_site))))
       = ''results/j/s/000000000000-000000000007.parquet''"
  by code_simp

end
