(* ===== verification/Coord_Durable.thy ===== *)
theory Coord_Durable
  imports Coord_Props
begin

section \<open>Durability of the coordinator\<close>

text \<open>
  Scheduler, write-ahead log and restart together: every request that changes the scheduler appends its new state to
  the log inside the request, \<open>EnablePersistence\<close> rebuilds the scheduler from what recovery returns. The invariant
  \<open>in_step\<close> says that what the log would be recovered to is the state of the scheduler.
\<close>

subsection \<open>One record per request\<close>

lemma store_submit_tasks: "store (submit_tasks u i jb sh x) = store x"
  by (induction u i jb sh x rule: submit_tasks.induct) (auto simp: Let_def)

lemma store_updateJob [simp]: "store (updateJob now j s) = store s"
  by (simp add: updateJob_def Let_def split: option.split)

lemma store_assignLocked: "assignLocked now k t w s = Ok (a, s') \<Longrightarrow> store s' = store s"
  by (auto simp: assignLocked_def Let_def split: outcome.splits)

lemma store_stealLocked: "stealLocked u s = (r, s') \<Longrightarrow> store s' = store s"
  by (auto simp: stealLocked_def Let_def split: prod.splits option.splits if_splits)

lemma store_drain_loop: "drain_loop now ids s as = Ok (as', s') \<Longrightarrow> store s' = store s"
  by (induction now ids s as rule: drain_loop.induct) (auto simp: Let_def split: option.splits if_splits outcome.splits)

lemma run_op_record:
  assumes "\<forall>now w. x \<noteq> OpRebalance now w"
  shows "run_op x s = s \<or> (\<exists>s1. run_op x s = persistLocked s1 \<and> store s1 = store s)"
proof (cases x)
  case (OpSubmit now uuid req)
  then show ?thesis by (auto simp: Submit_def Let_def store_submit_tasks)
next
  case (OpPoll now u r w)
  have st: "s1 = s" if "stealLocked u s = (None, s1)" for s1
    using that by (auto simp: stealLocked_def Let_def split: prod.splits option.splits if_splits)
  from OpPoll show ?thesis using st
    by (auto simp: PollTasks_def Let_def split: option.splits prod.splits outcome.splits dest!: store_assignLocked store_stealLocked)
next
  case (OpRenew k req)
  then show ?thesis by (auto simp: RenewLease_def Let_def split: option.splits)
next
  case (OpReport now k req)
  then show ?thesis by (auto simp: report_finish_def Let_def split: option.splits)
next
  case (OpDrain now n)
  then show ?thesis by (auto simp: DrainPending_def Let_def split: outcome.splits prod.splits dest!: store_drain_loop)
qed (use assms in \<open>auto simp: StartTask_def split: option.splits\<close>)

lemma new_records_run_op:
  assumes "\<forall>now w. x \<noteq> OpRebalance now w" and "store s = Some l"
  shows "run_op x s = s \<and> new_records s (run_op x s) = []
     \<or> new_records s (run_op x s) = [encodeStateLocked (run_op x s)] \<and> store (run_op x s) \<noteq> None"
  using run_op_record [OF assms(1), of s] assms(2)
  by (auto simp: new_records_def persistLocked_def encodeStateLocked_def)

text \<open>What a request does to scheduler and log: nothing, or one operation whose records are appended.\<close>

definition appends :: "'b codec \<Rightarrow> append_fault \<Rightarrow> schedulerState list \<Rightarrow> (disk \<times> WAL) option \<Rightarrow> (disk \<times> WAL) option" where
  "appends cdc fa sts = fold (\<lambda>st. map_option (\<lambda>dw. fst (Append fa (encState cdc st) dw))) sts"

lemma coWal_sched_update: "coWal (sched_update cdc fa s' c) = appends cdc fa (new_records (coSched c) s') (coWal c)"
proof -
  have rel: "coWal (releaseTicket j c) = coWal c" for j and c :: "('a, 'b, 'c) Coordinator"
    by (simp add: releaseTicket_def ticket_release_def Let_def split: option.splits prod.splits)
  have rels: "coWal (fold releaseTicket js c) = coWal c" for js and c :: "('a, 'b, 'c) Coordinator"
    by (induction js arbitrary: c) (simp_all add: rel)
  have one: "coWal (wal_append cdc fa st c) = map_option (\<lambda>dw. fst (Append fa (encState cdc st) dw)) (coWal c)"
    for st and c :: "('a, 'b, 'c) Coordinator"
    by (simp add: wal_append_def split: option.split)
  have "coWal (fold (wal_append cdc fa) sts c) = appends cdc fa sts (coWal c)" for sts and c :: "('a, 'b, 'c) Coordinator"
    by (induction sts arbitrary: c) (simp_all add: appends_def one)
  then show ?thesis unfolding sched_update_def by (simp add: rels)
qed

lemma coord_step_log:
  assumes "coord_step cdc fa False c c'"
  shows "coSched c' = coSched c \<and> coWal c' = coWal c
     \<or> (\<exists>x. (\<forall>now w. x \<noteq> OpRebalance now w) \<and> op_ok (\<lambda>_ _. True) True x (coSched c) \<and> coSched c' = run_op x (coSched c)
          \<and> coWal c' = appends cdc fa (new_records (coSched c) (coSched c')) (coWal c))"
  using assms
proof cases
  case (sched_op x m w)
  then show ?thesis by (intro disjI2 exI [of _ x]) (simp add: coWal_sched_update)
next
  case (submit uuid req now job s')
  then show ?thesis by (intro disjI2 exI [of _ "OpSubmit now uuid req"]) (simp add: coWal_sched_update)
next
  case (admit ctrl t t' ctrl' uuid req now job s')
  then show ?thesis by (intro disjI2 exI [of _ "OpSubmit now uuid req"]) (simp add: coWal_sched_update trackTicket_def)
qed simp_all

subsection \<open>The log and the scheduler in step\<close>

definition empty_state :: schedulerState where
  "empty_state = \<lparr>stJobs = [], stTasks = [], stPending = []\<rparr>"

text \<open>The state a restart would find.\<close>

definition log_state :: "'b codec \<Rightarrow> Recovery \<Rightarrow> schedulerState option" where
  "log_state cdc r = (case (if recRecords r \<noteq> [] then Some (last (recRecords r)) else recSnapshot r) of
      None \<Rightarrow> Some empty_state | Some b \<Rightarrow> decState cdc b)"

definition in_step :: "'b codec \<Rightarrow> ('o, 'd, 'e) Coordinator \<Rightarrow> bool" where
  "in_step cdc c \<longleftrightarrow> sched_wf (coSched c) \<and> store (coSched c) \<noteq> None
     \<and> (\<exists>dw snap es. coWal c = Some dw \<and> wal_inv dw snap es \<and> log_state cdc (wal_abs snap es) = Some (encodeStateLocked (coSched c)))"

definition same_state :: "Scheduler \<Rightarrow> Scheduler \<Rightarrow> bool" where
  "same_state s s' \<longleftrightarrow> jobs s = jobs s' \<and> tasks s = tasks s' \<and> pendingQ s = pendingQ s'"

definition seq_room :: "('o, 'd, 'e) Coordinator \<Rightarrow> bool" where
  "seq_room c \<longleftrightarrow> (case coWal c of None \<Rightarrow> True | Some dw \<Rightarrow> unat (walSeq (snd dw)) + 1 < 2 ^ 64)"

text \<open>The codec handles the state \<open>s\<close>: it fits a frame and is decoded again.\<close>

definition codes :: "'b codec \<Rightarrow> Scheduler \<Rightarrow> bool" where
  "codes cdc s \<longleftrightarrow> fits (encState cdc (encodeStateLocked s)) \<and> decState cdc (encState cdc (encodeStateLocked s)) = Some (encodeStateLocked s)"

lemma log_state_append: "log_state cdc (spec_op (WAppend p) r) = decState cdc p"
  by (simp add: log_state_def)

lemma append_in_step:
  assumes "wal_inv dw snap es" and "codes cdc s" and "unat (walSeq (snd dw)) + 1 < 2 ^ 64"
  shows "(\<exists>snap' es' tail. holds_log (fst (fst (Append fa (encState cdc (encodeStateLocked s)) dw))) snap' es' tail
        \<and> log_state cdc (wal_abs snap' es') \<in> {log_state cdc (wal_abs snap es), Some (encodeStateLocked s)})
     \<and> (\<exists>snap' es'. wal_inv (fst (Append AppendOk (encState cdc (encodeStateLocked s)) dw)) snap' es'
        \<and> log_state cdc (wal_abs snap' es') = Some (encodeStateLocked s))"
proof -
  let ?p = "encState cdc (encodeStateLocked s)"
  obtain d w where dw: "dw = (d, w)" by fastforce
  have f: "fits (op_payload (WAppend ?p))" and dec: "decState cdc ?p = Some (encodeStateLocked s)" using assms(2) by (simp_all add: codes_def)
  have s: "unat (walSeq w) + 1 < 2 ^ 64" using assms(3) dw by simp
  from wal_op_ok [OF assms(1) [unfolded dw] f s] obtain snap' es' where
    ok: "wal_inv (wal_run_op AppendOk CkOk (WAppend ?p) (d, w)) snap' es'" "wal_abs snap' es' = spec_op (WAppend ?p) (wal_abs snap es)" by blast
  from wal_op_crash [OF assms(1) [unfolded dw] f s, of fa CkOk] obtain snap2 es2 tail where
    cr: "holds_log (fst (wal_run_op fa CkOk (WAppend ?p) (d, w))) snap2 es2 tail"
      "wal_abs snap2 es2 \<in> {wal_abs snap es, spec_op (WAppend ?p) (wal_abs snap es)}" by blast
  show ?thesis using ok cr log_state_append [of cdc ?p] dec dw by (auto intro!: exI)
qed

lemma request_durable:
  assumes inv: "in_step cdc c" and st: "coord_step cdc fa False c c'" and cod: "codes cdc (coSched c')" and room: "seq_room c"
  shows "sched_wf (coSched c') \<and> (fa = AppendOk \<longrightarrow> in_step cdc c')
     \<and> (\<exists>dw snap es tail. coWal c' = Some dw \<and> holds_log (fst dw) snap es tail
          \<and> log_state cdc (wal_abs snap es) \<in> {Some (encodeStateLocked (coSched c)), Some (encodeStateLocked (coSched c'))})"
proof -
  obtain dw snap es l where w: "coWal c = Some dw" "wal_inv dw snap es" "log_state cdc (wal_abs snap es) = Some (encodeStateLocked (coSched c))"
    and wf: "sched_wf (coSched c)" and l: "store (coSched c) = Some l" using inv by (auto simp: in_step_def)
  have same: ?thesis if "coSched c' = coSched c" "coWal c' = coWal c"
    using that inv w wf by (auto simp: in_step_def wal_inv_def)
  from coord_step_log [OF st] show ?thesis
  proof (elim disjE exE conjE)
    fix x
    assume x: "\<forall>now w. x \<noteq> OpRebalance now w" "op_ok (\<lambda>_ _. True) True x (coSched c)" "coSched c' = run_op x (coSched c)"
      and lg: "coWal c' = appends cdc fa (new_records (coSched c) (coSched c')) (coWal c)"
    have wf': "sched_wf (coSched c')" unfolding x(3) by (rule sched_wf_micros [OF run_op_micros [OF wf x(2)] wf])
    from new_records_run_op [OF x(1) l] x(3) consider (none) "coSched c' = coSched c" "new_records (coSched c) (coSched c') = []"
      | (one) "new_records (coSched c) (coSched c') = [encodeStateLocked (coSched c')]" "store (coSched c') \<noteq> None" by auto
    then show ?thesis
    proof cases
      case none
      then show ?thesis using same lg by (simp add: appends_def)
    next
      case one
      let ?dw = "fst (Append fa (encState cdc (encodeStateLocked (coSched c'))) dw)"
      have c': "coWal c' = Some ?dw" using lg one(1) w(1) by (simp add: appends_def)
      have "unat (walSeq (snd dw)) + 1 < 2 ^ 64" using room w(1) by (simp add: seq_room_def)
      from append_in_step [OF w(2) cod this, of fa] w(3) one(2) c' wf' show ?thesis
        by (cases "fa = AppendOk") (auto simp: in_step_def)
    qed
  qed (rule same)
qed

lemma restart_rebuilds:
  fixes world :: "('o, 'd, 'e) World"
  assumes h: "holds_log d snap es tail" and ls: "log_state cdc (wal_abs snap es) = Some (encodeStateLocked s)" and wf: "sched_wf s"
  shows "\<exists>c''. EnablePersistence cdc OpenOk d interval (New cfg world) = Ok c'' \<and> same_state (coSched c'') s \<and> in_step cdc c''"
proof -
  obtain w r d1 where o: "OpenWAL OpenOk d = Ok (w, r, d1)" using OpenWAL_recovers [OF h] by blast
  have inv: "wal_inv (d1, w) snap es" and r: "r = wal_abs snap es" using reopened_inv [OF h o] by auto
  let ?s0 = "coSched (New cfg world)"
  have z: "jobs ?s0 = []" "tasks ?s0 = []" "pendingQ ?s0 = []" by (simp_all add: New_def Scheduler.New_def SetLeaseChunk_def Let_def)
  have "Restore (decState cdc) (recSnapshot r) (recRecords r) ?s0 = Ok (?s0\<lparr>jobs := jobs s, tasks := tasks s, pendingQ := pendingQ s\<rparr>)"
  proof (cases "if recRecords r \<noteq> [] then Some (last (recRecords r)) else recSnapshot r")
    case None
    with ls [folded r] have "jobs s = []" "tasks s = []" "pendingQ s = []" by (auto simp: log_state_def empty_state_def encodeStateLocked_def)
    with None z show ?thesis by (simp add: Restore_def)
  next
    case (Some b)
    with ls [folded r] have "decState cdc b = Some (Snapshot s)" by (simp add: log_state_def Snapshot_def del: not_None_eq)
    from Restore_rebuilds [OF wf, where decode = "decState cdc", OF this Some] show ?thesis .
  qed
  then obtain c'' where c'': "EnablePersistence cdc OpenOk d interval (New cfg world) = Ok c''"
    "coSched c'' = AttachStore (?s0\<lparr>jobs := jobs s, tasks := tasks s, pendingQ := pendingQ s\<rparr>)" "coWal c'' = Some (d1, w)"
    using o by (simp add: EnablePersistence_def)
  have "sched_wf (coSched c'')"
    by (rule sched_wf_cong [OF wf]) (use sched_wfD(1) [OF wf] in \<open>simp_all add: c''(2) AttachStore_def jcore_def fun_eq_iff\<close>)
  moreover have "encodeStateLocked (coSched c'') = encodeStateLocked s" by (simp add: c''(2) AttachStore_def encodeStateLocked_def)
  ultimately have "in_step cdc c''" using inv ls c''(3) by (auto simp: in_step_def c''(2) AttachStore_def)
  with c'' show ?thesis by (auto simp: same_state_def AttachStore_def)
qed

lemma checkpoint_in_step:
  assumes "in_step cdc c" and "codes cdc (coSched c)" and "seq_room c"
  shows "in_step cdc (checkpoint cdc CkOk c)"
proof -
  obtain d w snap es where w: "coWal c = Some (d, w)" "wal_inv (d, w) snap es" using assms(1) by (auto simp: in_step_def)
  let ?p = "encState cdc (encodeStateLocked (coSched c))"
  have "fits (op_payload (WCheckpoint ?p))" "unat (walSeq w) + 1 < 2 ^ 64" using assms(2,3) w(1) by (simp_all add: codes_def seq_room_def)
  from wal_op_ok [OF w(2) this] obtain snap' es' where
    "wal_inv (fst (Checkpoint CkOk ?p (d, w))) snap' es'" "wal_abs snap' es' = spec_op (WCheckpoint ?p) (wal_abs snap es)" by auto
  moreover from this(2) have "log_state cdc (wal_abs snap' es') = Some (encodeStateLocked (coSched c))"
    using assms(2) by (simp add: log_state_def codes_def)
  moreover have "coWal (checkpoint cdc CkOk c) = Some (fst (Checkpoint CkOk ?p (d, w)))" "coSched (checkpoint cdc CkOk c) = coSched c"
    using w(1) by (simp_all add: checkpoint_def Snapshot_def)
  moreover have "sched_wf (coSched c)" "store (coSched c) \<noteq> None" using assms(1) by (auto simp: in_step_def)
  ultimately show ?thesis unfolding in_step_def by metis
qed

subsection \<open>Restart\<close>


text \<open>A codec for the state of an example, and a coordinator started on an empty directory.\<close>

definition crash_input :: input where
  "crash_input = \<lparr>inNow = 1, inUuid = demo_uuid, inFault = AppendWrite 5\<rparr>"

definition crash_request :: "SubmitJobRequest request" where
  "crash_request = \<lparr>hqMethod = ''POST'', hqPath = ''/v1/jobs'', hqQuery = [], hqTenant = [], hqBody = Some demo_req\<rparr>"

definition crash_config :: Config where
  "crash_config = \<lparr>cfVnodesPerNode = 1, cfSuspectTimeout = 5, cfDeadTimeout = 10, cfTaskMaxRetries = 0, cfLeaseChunk = 2\<rparr>"

definition unit_world :: "(unit, unit, unit) World" where
  "unit_world = \<lparr>wStore = (), wDecider = (), wEffect = ()\<rparr>"

definition crash_state :: schedulerState where
  "crash_state = encodeStateLocked (snd (Submit 1 demo_uuid demo_req (SetLeaseChunk 2 (Scheduler.New 0))))"

definition crash_codec :: "SubmitJobRequest codec" where
  "crash_codec = \<lparr>encState = (\<lambda>x. if x = crash_state then [1] else [0]), decState = (\<lambda>b. if b = [1] then Some crash_state else None),
     decRegister = (\<lambda>_. None), decHeartbeat = (\<lambda>_. None), decSubmit = Some, decStart = (\<lambda>_. None), decRenew = (\<lambda>_. None), decResult = (\<lambda>_. None)\<rparr>"

definition crash_coord :: "(unit, unit, unit) Coordinator" where
  "crash_coord = (case EnablePersistence crash_codec OpenOk empty_disk 0 (New crash_config unit_world) of Ok c \<Rightarrow> c | _ \<Rightarrow> New crash_config unit_world)"

lemma crash_coord_fields:
  "coSched crash_coord = AttachStore (SetLeaseChunk 2 (Scheduler.New 0))" "coWal crash_coord = Some fresh_wal" "coAdmission crash_coord = None"
  by (simp_all add: crash_coord_def EnablePersistence_def OpenWAL_empty Restore_def New_def crash_config_def)

lemma crash_coord_in_step: "in_step crash_codec crash_coord"
proof -
  have "log_state crash_codec (wal_abs None []) = Some (encodeStateLocked (coSched crash_coord))"
    by (simp add: log_state_def wal_abs_def newer_def empty_state_def encodeStateLocked_def SetLeaseChunk_def Scheduler.New_def
        crash_coord_fields AttachStore_def)
  moreover have "sched_wf (coSched crash_coord)"
    unfolding crash_coord_fields by (simp add: sched_wf_def SetLeaseChunk_def Scheduler.New_def jcore_def AttachStore_def)
  ultimately show ?thesis unfolding in_step_def crash_coord_fields using wal_inv_fresh by (auto simp: AttachStore_def)
qed


subsection \<open>Two races\<close>

text \<open>\<open>checkpoint\<close> reads the scheduler and writes the log without a common lock. When a request is acknowledged in between,
  the log is reset to the older snapshot, and a restart forgets the request.\<close>

lemma stale_checkpoint_loses_request:
  fixes world :: "('p, 'q, 'r) World"
  assumes "in_step cdc c" and "codes cdc (coSched c)" and "fresh_input cdc i r c" and "serve cdc i r c = (res, c')"
    and "inFault i = AppendOk" and "codes cdc (coSched c')" and "seq_room c" and "seq_room c'"
  shows "\<exists>dw c''. coWal c' = Some dw
     \<and> EnablePersistence cdc OpenOk (fst (fst (Checkpoint CkOk (encState cdc (Snapshot (coSched c))) dw))) interval (New cfg world) = Ok c''
     \<and> same_state (coSched c'') (coSched c)"
proof -
  let ?p = "encState cdc (Snapshot (coSched c))"
  have "in_step cdc c'" using request_durable [OF assms(1) serve_step [OF assms(4,3)] assms(6,7)] assms(5) by blast
  then obtain d w snap es where w: "coWal c' = Some (d, w)" "wal_inv (d, w) snap es" by (auto simp: in_step_def)
  have "fits (op_payload (WCheckpoint ?p))" "unat (walSeq w) + 1 < 2 ^ 64" using assms(2,8) w(1) by (simp_all add: codes_def seq_room_def Snapshot_def)
  from wal_op_ok [OF w(2) this] obtain snap' es' where
    h: "wal_inv (fst (Checkpoint CkOk ?p (d, w))) snap' es'" and a: "wal_abs snap' es' = spec_op (WCheckpoint ?p) (wal_abs snap es)" by auto
  from h have "holds_log (fst (fst (Checkpoint CkOk ?p (d, w)))) snap' es' []" by (simp add: wal_inv_def)
  moreover have "log_state cdc (wal_abs snap' es') = Some (encodeStateLocked (coSched c))"
    unfolding a using assms(2) by (simp add: log_state_def codes_def Snapshot_def)
  moreover have "sched_wf (coSched c)" using assms(1) by (simp add: in_step_def)
  ultimately show ?thesis using restart_rebuilds w(1) by blast
qed

text \<open>\<open>trackTicket\<close> runs after \<^verbatim>\<open>Submit\<close> has released the scheduler: a worker that polls and reports in between finishes the job
  before its ticket is tracked, and the slot is never freed.\<close>

definition race_poll :: "demo_body request" where
  "race_poll = \<lparr>hqMethod = ''GET'', hqPath = ''/v1/tasks/poll'', hqQuery = [(''worker'', ''w1'')], hqTenant = [], hqBody = None\<rparr>"

definition race_result :: "demo_body request" where
  "race_result = \<lparr>hqMethod = ''POST'', hqPath = ''/v1/tasks/t/result'', hqQuery = [], hqTenant = [],
     hqBody = Some (BResult \<lparr>rqWorkerID = ''w1'', rqImagesProcessed = 1, rqBytesRead = 1, rqOutputKey = ''o'', rqDuration = 1, rqError = []\<rparr>)\<rparr>"

lemma ticket_race_leaks_slot:
  "(case submit_job demo_codec demo_input demo_submit demo_coord of
      (Submitted job tk, c1) \<Rightarrow>
        (let c2 = snd (serve demo_codec demo_input race_poll c1);
             c3 = snd (serve demo_codec demo_input race_result c2);
             c4 = snd (track_job job tk c3)
         in map_option jStatus (map_of (jobs (coSched c4)) ''j'') = Some JobCompleted \<and> map_option total (coAdmission c4) = Some 1)
    | _ \<Rightarrow> False)"
  by code_simp

end
