(* ===== verification/Coord_Failover.thy ===== *)
theory Coord_Failover
  imports Coord_Props
begin

section \<open>Failover: from a silent node to requeued tasks\<close>

text \<open>
  The path of a failure through the coordinator: the detector (\<open>tick\<close>) declares a node dead and sends an event on the bounded channel,
  the event loop (\<open>failure_event\<close>) takes it and rebalances the worker's tasks.
\<close>

subsection \<open>The detector's event\<close>

lemma tick_node_appends: "\<exists>es. events (tick_node now k m) = events m @ es \<and> length es \<le> 1"
  by (auto simp: tick_node_def emit_def Let_def split: option.splits NodeState.splits)

lemma fold_tick_appends: "\<exists>es. events (fold (tick_node now) ks m) = events m @ es \<and> length es \<le> length ks"
proof (induction ks arbitrary: m)
  case (Cons k ks)
  from tick_node_appends [of now k m] obtain a where a: "events (tick_node now k m) = events m @ a" "length a \<le> 1" by blast
  from Cons.IH [of "tick_node now k m"] obtain b where b: "events (fold (tick_node now) ks (tick_node now k m)) = events (tick_node now k m) @ b"
    "length b \<le> length ks" by blast
  show ?case using a b by (intro exI [of _ "a @ b"]) simp
qed simp

lemma tick_reports_dead:
  assumes inv: "member_inv m" and n: "map_of (mnodes m) k = Some n" "nState n = NodeSuspect" "now - nLastSeen n > deadTimeout m"
    and room: "length (events m) + length (mnodes m) \<le> event_cap"
  shows "\<exists>e \<in> set (events (Tick now m)). feNodeID e = k \<and> feNewState e = NodeDead"
proof -
  have "k \<in> set (map fst (mnodes m))" using map_of_in_set [OF n(1)] by force
  then obtain ks1 ks2 where ks: "map fst (mnodes m) = ks1 @ k # ks2" by (meson split_list)
  have d: "distinct ks1" "k \<notin> set ks1" using member_invD(1) [OF inv] ks by auto
  let ?m1 = "fold (tick_node now) ks1 m"
  have len: "length ks1 < length (mnodes m)" using arg_cong [OF ks, of length] by simp
  obtain es where es: "events ?m1 = events m @ es" "length es \<le> length ks1" using fold_tick_appends by blast
  have n1: "map_of (mnodes ?m1) k = Some n" using fold_tick_lookup [OF d(1)] d(2) n(1) by simp
  have t: "suspectTimeout ?m1 = suspectTimeout m" "deadTimeout ?m1 = deadTimeout m" using fold_tick_timeouts [where now = now and ks = ks1] by auto
  have dead: "tick_state now (suspectTimeout m) (deadTimeout m) n = n\<lparr>nState := NodeDead\<rparr>" using n(2,3) by (simp add: tick_state_def)
  moreover have "n\<lparr>nState := NodeDead\<rparr> \<noteq> n" using n(2) by (metis NodeState.distinct(5) NodeInfo.select_convs(3) NodeInfo.surjective NodeInfo.update_convs(3))
  ultimately have "events (tick_node now k ?m1) = events ?m1 @ [\<lparr>feNodeID = nID n, feOldState = nState n, feNewState = NodeDead, feAt = now\<rparr>]"
    using tick_node_reports [OF n1, of now] es room len t by simp
  moreover have "nID n = k" using member_invD(3) [OF inv n(1)] .
  moreover obtain es2 where "events (Tick now m) = events (tick_node now k ?m1) @ es2"
    using fold_tick_appends [of now ks2 "tick_node now k ?m1"] ks by (auto simp: Tick_def)
  ultimately show ?thesis by (intro bexI [of _ "\<lparr>feNodeID = nID n, feOldState = nState n, feNewState = NodeDead, feAt = now\<rparr>"]) simp_all
qed

subsection \<open>The event loop\<close>

definition holds_nothing :: "string \<Rightarrow> Scheduler \<Rightarrow> bool" where
  "holds_nothing w s \<longleftrightarrow> (\<forall>k t. map_of (tasks s) k = Some t \<longrightarrow> \<not> (in_flight t \<and> tWorkerID t = w))"

text \<open>Rebalancing never puts a task in flight.\<close>

lemma rebalance_task_in_flight:
  assumes "rebalance_task now v k (s, n) = (s', n')" "map_of (tasks s') x = Some t" "in_flight t"
  shows "map_of (tasks s) x = Some t"
proof (cases "x = k")
  case True
  with assms show ?thesis by (auto simp: rebalance_task_def Let_def in_flight_def split: option.splits if_splits)
next
  case False
  with assms rebalance_task_effect(1) [OF assms(1)] show ?thesis by simp
qed

lemma rebalance_fold_in_flight:
  assumes "fold (rebalance_task now v) ks (s, n) = (s', n')" "map_of (tasks s') x = Some t" "in_flight t"
  shows "map_of (tasks s) x = Some t"
  using assms
proof (induction ks arbitrary: s n)
  case (Cons k ks)
  obtain s1 n1 where e: "rebalance_task now v k (s, n) = (s1, n1)" by fastforce
  with Cons rebalance_task_in_flight [OF e] show ?case by simp
qed simp

lemma holds_nothing_rebalance: "holds_nothing w (RebalanceWorker now w s)"
  using rebalance_clears_worker by (auto simp: holds_nothing_def)

lemma holds_nothing_keeps: "holds_nothing w s \<Longrightarrow> holds_nothing w (RebalanceWorker now v s)"
proof -
  assume h: "holds_nothing w s"
  obtain s1 n where e: "fold (rebalance_task now v) (map fst (tasks s)) (s, 0) = (s1, n)" by fastforce
  then have "tasks (RebalanceWorker now v s) = tasks s1" by (simp add: RebalanceWorker_def)
  with h rebalance_fold_in_flight [OF e] show ?thesis by (auto simp: holds_nothing_def)
qed

lemma coMembership_sched_update [simp]: "coMembership (sched_update cdc fa s' c) = coMembership c"
proof -
  have rel: "coMembership (releaseTicket j c) = coMembership c" for j and c :: "('a, 'b, 'c) Coordinator"
    by (simp add: releaseTicket_def ticket_release_def Let_def split: option.splits prod.splits)
  have rels: "coMembership (fold releaseTicket js c) = coMembership c" for js and c :: "('a, 'b, 'c) Coordinator"
    by (induction js arbitrary: c) (simp_all add: rel)
  have "coMembership (fold (wal_append cdc fa) sts c) = coMembership c" for sts and c :: "('a, 'b, 'c) Coordinator"
    by (induction sts arbitrary: c) (simp_all add: wal_append_def split: option.split)
  then show ?thesis by (simp add: sched_update_def rels)
qed

lemma failure_event_cons:
  assumes "events (coMembership c) = e # es"
  shows "events (coMembership (failure_event cdc fa now c)) = es"
    and "feNewState e = NodeDead \<Longrightarrow> holds_nothing (feNodeID e) (coSched (failure_event cdc fa now c))"
    and "holds_nothing w (coSched c) \<Longrightarrow> holds_nothing w (coSched (failure_event cdc fa now c))"
  using assms holds_nothing_rebalance holds_nothing_keeps by (auto simp: failure_event_def Let_def)

lemma events_drained:
  "events (coMembership c) = evs \<Longrightarrow> holds_nothing w (coSched c) \<or> (\<exists>e \<in> set evs. feNodeID e = w \<and> feNewState e = NodeDead) \<Longrightarrow>
   holds_nothing w (coSched ((failure_event cdc fa now ^^ length evs) c))"
proof (induction evs arbitrary: c)
  case (Cons e es)
  note step = failure_event_cons [OF Cons.prems(1), where cdc = cdc and fa = fa and now = now]
  have "holds_nothing w (coSched (failure_event cdc fa now c)) \<or> (\<exists>e \<in> set es. feNodeID e = w \<and> feNewState e = NodeDead)"
    using Cons.prems(2) step(2,3) by auto
  from Cons.IH [OF step(1) this] show ?case by (simp only: list.size(4) funpow_Suc_right o_apply add_Suc_right add_0_right)
qed simp

text \<open>C12. Failover. A node that has been suspect for longer than the dead time-out is declared dead by the next pass of the detector;
  once the event loop has taken the events that are then on the channel, the node is off the ring and none of its tasks is in
  flight any more, as long as the channel had room for the pass.\<close>

theorem dead_node_loses_ring_and_tasks:
  assumes "member_step\<^sup>*\<^sup>* (NewMembership (NewRing v) sus dead) (coMembership c)"
    and "map_of (mnodes (coMembership c)) k = Some n" "nState n = NodeSuspect" "now - nLastSeen n > deadTimeout (coMembership c)"
    and "length (events (coMembership c)) + length (mnodes (coMembership c)) \<le> event_cap"
    and "c' = (failure_event cdc fa t ^^ length (events (coMembership (tick now c)))) (tick now c)"
  shows "k \<notin> set (Nodes (mring (coMembership (tick now c))))
     \<and> (\<forall>x tk. map_of (tasks (coSched c')) x = Some tk \<longrightarrow> \<not> (in_flight tk \<and> tWorkerID tk = k))"
proof -
  have inv: "member_inv (coMembership c)" by (rule member_inv_reach [OF assms(1) member_inv_New])
  have inv': "member_inv (Tick now (coMembership c))" by (rule member_inv_Tick [OF inv])
  have "map_of (mnodes (Tick now (coMembership c))) k = Some (n\<lparr>nState := NodeDead\<rparr>)"
    using Tick_lookup [of "coMembership c" now k] member_invD(1) [OF inv] assms(2-4) by (simp add: tick_state_def)
  then have "k \<notin> set (rnodes (mring (Tick now (coMembership c))))" using member_invD(4) [OF inv', of k] by simp
  moreover have "\<exists>e \<in> set (events (coMembership (tick now c))). feNodeID e = k \<and> feNewState e = NodeDead"
    using tick_reports_dead [OF inv assms(2-5)] by (simp add: tick_def)
  then have "holds_nothing k (coSched c')" unfolding assms(6) by (intro events_drained) auto
  ultimately show ?thesis by (simp add: Nodes_def holds_nothing_def tick_def)
qed

text \<open>A node with a task in flight that is silent for two passes of the detector.\<close>

definition silent_coord :: "(unit, unit, unit) Coordinator" where
  "silent_coord = demo_coord\<lparr>coMembership := Tick 20 demo_member,
     coSched := run_op (OpPoll 2 ''u'' (NewRing 1) ''n1'') (fold run_op (take 1 demo_ops) demo_start)\<rparr>"

theorem dead_node_loses_ring_and_tasks_witness:
  "\<not> holds_nothing ''n1'' (coSched silent_coord)
   \<and> holds_nothing ''n1'' (coSched ((failure_event demo_codec AppendOk 21 ^^ length (events (coMembership (tick 20 silent_coord)))) (tick 20 silent_coord)))"
proof
  let ?m = "map_of (tasks (run_op (OpPoll 2 ''u'' (NewRing 1) ''n1'') (fold run_op (take 1 demo_ops) demo_start))) ''t''"
  have "map_option tWorkerID ?m = Some ''n1'' \<and> map_option in_flight ?m = Some True" by code_simp
  then obtain z where "?m = Some z" "in_flight z" "tWorkerID z = ''n1''" by (cases ?m) simp_all
  moreover have "coSched silent_coord = run_op (OpPoll 2 ''u'' (NewRing 1) ''n1'') (fold run_op (take 1 demo_ops) demo_start)"
    by (simp add: silent_coord_def)
  ultimately show "\<not> holds_nothing ''n1'' (coSched silent_coord)" unfolding holds_nothing_def by metis
  have m: "coMembership silent_coord = Tick 20 demo_member" by (simp add: silent_coord_def)
  have inv: "member_inv demo_member" by (rule member_inv_reach [OF demo_member_reach member_inv_New])
  have reach: "member_step\<^sup>*\<^sup>* (NewMembership (NewRing 1) 5 10) (coMembership silent_coord)"
    unfolding m by (meson demo_member_reach member_step.tick rtranclp.rtrancl_into_rtrancl)
  have one: "mnodes demo_member = [(''n1'', \<lparr>nID = ''n1'', nAddress = ''10.0.0.1:7000'', nState = NodeActive, nLastSeen = 0, nJoinedAt = 0,
      nMetrics = zero_metrics, nNodeName = []\<rparr>)]" "events demo_member = []" "suspectTimeout demo_member = 5" "deadTimeout demo_member = 10"
    by (simp_all add: demo_member_def Register_def NewMembership_def demo_register_def)
  then have t: "Tick 20 demo_member = tick_node 20 ''n1'' demo_member" by (simp add: Tick_def)
  have n: "map_of (mnodes (coMembership silent_coord)) ''n1'' = Some \<lparr>nID = ''n1'', nAddress = ''10.0.0.1:7000'', nState = NodeSuspect, nLastSeen = 0, nJoinedAt = 0,
      nMetrics = zero_metrics, nNodeName = []\<rparr>" "deadTimeout (coMembership silent_coord) = 10"
      "length (events (coMembership silent_coord)) + length (mnodes (coMembership silent_coord)) \<le> event_cap"
    unfolding m t by (simp_all add: tick_node_def one emit_def event_cap_def)
  show "holds_nothing ''n1'' (coSched ((failure_event demo_codec AppendOk 21 ^^ length (events (coMembership (tick 20 silent_coord)))) (tick 20 silent_coord)))"
    using dead_node_loses_ring_and_tasks [OF reach n(1) _ _ n(3) refl, where now = 20 and cdc = demo_codec and fa = AppendOk and t = 21] n(2) by (simp add: holds_nothing_def)
qed

end
