(* ===== verification/Lock_Order.thy ===== *)
theory Lock_Order
  imports Prelude "HOL-Library.List_Lexorder" "HOL-Library.Char_ord"
begin

section \<open>Lock diagnostics\<close>

text \<open>
  \<^verbatim>\<open>internal/diag/lock.go\<close>: instrumented mutexes, their statistics, and the lock-order graph that predicts
  deadlocks. The package's global variables are the fields of \<open>Diag\<close>; \<^verbatim>\<open>goid()\<close>, the clock and the time a caller
  waited are arguments. A \<^verbatim>\<open>Lock\<close> is the two sections before and after the real \<^verbatim>\<open>sync\<close> mutex blocks. An edge set
  \<^verbatim>\<open>map[string]bool\<close> is the list of its keys in iteration order.
\<close>

subsection \<open>State\<close>

record lockStat =
  lsName :: string
  lsAcquisitions :: int
  lsWaitTotal :: int
  lsHoldTotal :: int
  lsMaxWait :: int
  lsMaxHold :: int
  lsContended :: int
  lsLongHolds :: int

record Diag =
  dgOn :: bool
  dgWaitWarn :: int
  dgHoldWarn :: int
  dgHeld :: "(int, string list) gomap"
  dgEdges :: "(string, string list) gomap"
  dgReported :: "string list"
  dgCycles :: int
  dgRegistry :: "(string, lockStat) gomap"

record Mutex =
  muName :: string
  muHolder :: int
  muAcqAt :: int

record RWMutex =
  rwName :: string
  rwWHolder :: int
  rwWAcqAt :: int
  rwRHoldAt :: "(int, int) gomap"

subsection \<open>The lock-order graph\<close>

definition addEdgeLocked :: "string \<Rightarrow> string \<Rightarrow> Diag \<Rightarrow> Diag" where
  "addEdgeLocked from to d =
     (let out = lookup0 [] (dgEdges d) from
      in d\<lparr>dgEdges := AList.update from (if to \<in> set out then out else out @ [to]) (dgEdges d)\<rparr>)"

text \<open>The inner loop of the search: \<open>None\<close> when the target is met. The top of the stack is the head.\<close>

fun visit :: "string \<Rightarrow> string list \<Rightarrow> string list \<Rightarrow> string list \<Rightarrow> (string list \<times> string list) option" where
  "visit to [] seen stack = Some (seen, stack)"
| "visit to (nxt # rest) seen stack =
     (if nxt = to then None
      else if nxt \<notin> set seen then visit to rest (nxt # seen) (nxt # stack)
      else visit to rest seen stack)"

definition edge_targets :: "(string, string list) gomap \<Rightarrow> string set" where
  "edge_targets es = (\<Union>p \<in> set es. set (snd p))"

lemma visit_seen:
  assumes "visit to xs seen stack = Some (seen', stack')"
  shows "\<exists>new. seen' = new @ seen \<and> stack' = new @ stack \<and> set new \<subseteq> set xs \<and> distinct new \<and> set new \<inter> set seen = {}
     \<and> to \<notin> set xs \<and> set xs \<subseteq> set seen'"
  using assms
proof (induction xs arbitrary: seen stack)
  case (Cons x xs)
  then have x: "x \<noteq> to" by (simp split: if_splits)
  show ?case
  proof (cases "x \<in> set seen")
    case True
    with Cons.prems x have "visit to xs seen stack = Some (seen', stack')" by simp
    from Cons.IH [OF this] True x show ?thesis by auto
  next
    case False
    with Cons.prems x have "visit to xs (x # seen) (x # stack) = Some (seen', stack')" by simp
    from Cons.IH [OF this] obtain new where n: "seen' = new @ x # seen" "stack' = new @ x # stack" "set new \<subseteq> set xs" "distinct new"
      "set new \<inter> set (x # seen) = {}" "to \<notin> set xs" "set xs \<subseteq> set seen'" by blast
    with False x show ?thesis by (intro exI [of _ "new @ [x]"]) auto
  qed
qed simp

lemma targets_lookup: "set (lookup0 [] es n) \<subseteq> edge_targets es"
  by (cases "map_of es n") (force simp: lookup0_def edge_targets_def dest: map_of_in_set)+

lemma finite_edge_targets [simp]: "finite (edge_targets es)"
  by (simp add: edge_targets_def)

function dfs :: "(string, string list) gomap \<Rightarrow> string \<Rightarrow> string list \<Rightarrow> string list \<Rightarrow> bool" where
  "dfs es to seen [] = False"
| "dfs es to seen (n # stack) =
     (case visit to (lookup0 [] es n) seen stack of
        None \<Rightarrow> True
      | Some (seen', stack') \<Rightarrow> dfs es to seen' stack')"
  by pat_completeness auto

termination
proof (relation "measures [\<lambda>(es, _, seen, _). card (edge_targets es - set seen), \<lambda>(_, _, _, stack). length stack]")
  fix es :: "(string, string list) gomap" and to seen n stack x seen' stack'
  assume "visit to (lookup0 [] es n) seen stack = Some x" "(seen', stack') = x"
  then obtain new where n: "seen' = new @ seen" "stack' = new @ stack" "set new \<subseteq> set (lookup0 [] es n)" "set new \<inter> set seen = {}"
    using visit_seen by metis
  have "card (edge_targets es - set seen') < card (edge_targets es - set seen)" if "new \<noteq> []"
  proof (rule psubset_card_mono)
    from that obtain y where y: "y \<in> set new" by (cases new) auto
    then have "y \<in> edge_targets es - set seen" using n(3,4) targets_lookup [of es n] by auto
    moreover have "y \<notin> edge_targets es - set seen'" using y n(1) by simp
    ultimately show "edge_targets es - set seen' \<subset> edge_targets es - set seen" using n(1) by auto
  qed simp
  then show "((es, to, seen', stack'), es, to, seen, n # stack)
      \<in> measures [\<lambda>(es, _, seen, _). card (edge_targets es - set seen), \<lambda>(_, _, _, stack). length stack]"
    using n(1,2) by (cases "new = []") auto
qed simp

definition reachableLocked :: "string \<Rightarrow> string \<Rightarrow> Diag \<Rightarrow> bool" where
  "reachableLocked from to d \<longleftrightarrow> from = to \<or> dfs (dgEdges d) to [from] [from]"

definition warnCycleLocked :: "string \<Rightarrow> string \<Rightarrow> Diag \<Rightarrow> Diag" where
  "warnCycleLocked a b d =
     (let key = a @ ''|'' @ b; rev = b @ ''|'' @ a
      in if key \<in> set (dgReported d) \<or> rev \<in> set (dgReported d) then d
         else d\<lparr>dgReported := dgReported d @ [key], dgCycles := dgCycles d + 1\<rparr>)"

definition acquire_edge :: "string \<Rightarrow> string \<Rightarrow> Diag \<Rightarrow> Diag" where
  "acquire_edge name held d =
     (if held = name then d
      else let d1 = addEdgeLocked held name d
           in if reachableLocked name held d1 then warnCycleLocked held name d1 else d1)"

definition enterAcquire :: "int \<Rightarrow> string \<Rightarrow> Diag \<Rightarrow> Diag" where
  "enterAcquire g name d = fold (acquire_edge name) (lookup0 [] (dgHeld d) g) d"

definition markHeld :: "int \<Rightarrow> string \<Rightarrow> Diag \<Rightarrow> Diag" where
  "markHeld g name d = d\<lparr>dgHeld := AList.update g (lookup0 [] (dgHeld d) g @ [name]) (dgHeld d)\<rparr>"

text \<open>The most recent occurrence goes.\<close>

definition remove_last :: "'a \<Rightarrow> 'a list \<Rightarrow> 'a list" where
  "remove_last x xs = rev (remove1 x (rev xs))"

definition markReleased :: "int \<Rightarrow> string \<Rightarrow> Diag \<Rightarrow> Diag" where
  "markReleased g name d =
     (let s = remove_last name (lookup0 [] (dgHeld d) g)
      in d\<lparr>dgHeld := (if s = [] then AList.delete g (dgHeld d) else AList.update g s (dgHeld d))\<rparr>)"

subsection \<open>Locks and their statistics\<close>

text \<open>\<^verbatim>\<open>storeMax\<close> repeats a compare-and-swap until the value is in place.\<close>

definition storeMax :: "int \<Rightarrow> int \<Rightarrow> int" where
  "storeMax cur v = (if v \<le> cur then cur else v)"

definition statFor :: "string \<Rightarrow> Diag \<Rightarrow> lockStat \<times> Diag" where
  "statFor name d =
     (let n = (if name = [] then ''?'' else name)
      in (case map_of (dgRegistry d) n of
            Some st \<Rightarrow> (st, d)
          | None \<Rightarrow>
              let st = \<lparr>lsName = n, lsAcquisitions = 0, lsWaitTotal = 0, lsHoldTotal = 0, lsMaxWait = 0, lsMaxHold = 0, lsContended = 0, lsLongHolds = 0\<rparr>
              in (st, d\<lparr>dgRegistry := AList.update n st (dgRegistry d)\<rparr>)))"

definition recordWait :: "string \<Rightarrow> int \<Rightarrow> Diag \<Rightarrow> Diag" where
  "recordWait n w d =
     (case map_of (dgRegistry d) n of
        None \<Rightarrow> d
      | Some s \<Rightarrow>
          d\<lparr>dgRegistry := AList.update n (s\<lparr>lsAcquisitions := i64 (lsAcquisitions s + 1), lsWaitTotal := i64 (lsWaitTotal s + w),
              lsMaxWait := storeMax (lsMaxWait s) w,
              lsContended := (if w \<ge> dgWaitWarn d then i64 (lsContended s + 1) else lsContended s)\<rparr>) (dgRegistry d)\<rparr>)"

definition recordHold :: "string \<Rightarrow> int \<Rightarrow> Diag \<Rightarrow> Diag" where
  "recordHold n h0 d =
     (let h = (if h0 < 0 then 0 else h0)
      in (case map_of (dgRegistry d) n of
            None \<Rightarrow> d
          | Some s \<Rightarrow>
              d\<lparr>dgRegistry := AList.update n (s\<lparr>lsHoldTotal := i64 (lsHoldTotal s + h), lsMaxHold := storeMax (lsMaxHold s) h,
                  lsLongHolds := (if h \<ge> dgHoldWarn d then i64 (lsLongHolds s + 1) else lsLongHolds s)\<rparr>) (dgRegistry d)\<rparr>))"

text \<open>\<^verbatim>\<open>Lock\<close> up to the real mutex, and from there on.\<close>

definition lock_enter :: "int \<Rightarrow> string \<Rightarrow> Diag \<Rightarrow> Diag" where
  "lock_enter g name d =
     (if \<not> dgOn d then d else case statFor name d of (st, d1) \<Rightarrow> enterAcquire g (lsName st) d1)"

definition Mutex_Lock :: "int \<Rightarrow> int \<Rightarrow> int \<Rightarrow> Mutex \<times> Diag \<Rightarrow> Mutex \<times> Diag" where
  "Mutex_Lock g waited now = (\<lambda>(m, d).
     if \<not> dgOn d then (m, d)
     else case statFor (muName m) d of
            (st, d1) \<Rightarrow> (m\<lparr>muHolder := g, muAcqAt := now\<rparr>, recordWait (lsName st) waited (markHeld g (lsName st) d1)))"

definition Mutex_Unlock :: "int \<Rightarrow> Mutex \<times> Diag \<Rightarrow> Mutex \<times> Diag" where
  "Mutex_Unlock now = (\<lambda>(m, d).
     if \<not> dgOn d then (m, d)
     else case statFor (muName m) d of
            (st, d1) \<Rightarrow> (m\<lparr>muHolder := 0\<rparr>, recordHold (lsName st) (i64 (now - muAcqAt m)) (markReleased (muHolder m) (lsName st) d1)))"

definition RWMutex_Lock :: "int \<Rightarrow> int \<Rightarrow> int \<Rightarrow> RWMutex \<times> Diag \<Rightarrow> RWMutex \<times> Diag" where
  "RWMutex_Lock g waited now = (\<lambda>(m, d).
     if \<not> dgOn d then (m, d)
     else case statFor (rwName m) d of
            (st, d1) \<Rightarrow> (m\<lparr>rwWHolder := g, rwWAcqAt := now\<rparr>, recordWait (lsName st) waited (markHeld g (lsName st) d1)))"

definition RWMutex_Unlock :: "int \<Rightarrow> RWMutex \<times> Diag \<Rightarrow> RWMutex \<times> Diag" where
  "RWMutex_Unlock now = (\<lambda>(m, d).
     if \<not> dgOn d then (m, d)
     else case statFor (rwName m) d of
            (st, d1) \<Rightarrow> (m\<lparr>rwWHolder := 0\<rparr>, recordHold (lsName st) (i64 (now - rwWAcqAt m)) (markReleased (rwWHolder m) (lsName st) d1)))"

definition RWMutex_RLock :: "int \<Rightarrow> int \<Rightarrow> int \<Rightarrow> RWMutex \<times> Diag \<Rightarrow> RWMutex \<times> Diag" where
  "RWMutex_RLock g waited now = (\<lambda>(m, d).
     if \<not> dgOn d then (m, d)
     else case statFor (rwName m) d of
            (st, d1) \<Rightarrow> (m\<lparr>rwRHoldAt := AList.update g now (rwRHoldAt m)\<rparr>, recordWait (lsName st) waited (markHeld g (lsName st) d1)))"

definition RWMutex_RUnlock :: "int \<Rightarrow> int \<Rightarrow> RWMutex \<times> Diag \<Rightarrow> RWMutex \<times> Diag" where
  "RWMutex_RUnlock g now = (\<lambda>(m, d).
     if \<not> dgOn d then (m, d)
     else case statFor (rwName m) d of
            (st, d1) \<Rightarrow>
              let held = (case map_of (rwRHoldAt m) g of None \<Rightarrow> 0 | Some v \<Rightarrow> i64 (now - v))
              in (m\<lparr>rwRHoldAt := AList.delete g (rwRHoldAt m)\<rparr>, recordHold (lsName st) held (markReleased g (lsName st) d1)))"

subsection \<open>Reports\<close>

record LockStat =
  xsName :: string
  xsAcquisitions :: int
  xsWaitAvg :: int
  xsWaitMax :: int
  xsHoldAvg :: int
  xsHoldMax :: int
  xsContended :: int
  xsLongHolds :: int

definition LockStats :: "Diag \<Rightarrow> LockStat list" where
  "LockStats d =
     map (\<lambda>(n, s).
       let acq = lsAcquisitions s
       in \<lparr>xsName = n, xsAcquisitions = acq, xsWaitAvg = (if acq > 0 then go_div (lsWaitTotal s) acq else 0), xsWaitMax = lsMaxWait s,
           xsHoldAvg = (if acq > 0 then go_div (lsHoldTotal s) acq else 0), xsHoldMax = lsMaxHold s, xsContended = lsContended s,
           xsLongHolds = lsLongHolds s\<rparr>)
       (sort_key fst (dgRegistry d))"

fun indexByte :: "string \<Rightarrow> char \<Rightarrow> int" where
  "indexByte [] b = -1"
| "indexByte (c # s) b = (if c = b then 0 else let i = indexByte s b in if i < 0 then -1 else i + 1)"

definition LockOrderWarnings :: "Diag \<Rightarrow> (string \<times> string) list" where
  "LockOrderWarnings d =
     sort_key fst (sort_key snd (map (\<lambda>k. (take (nat (indexByte k (CHR ''|''))) k, drop (Suc (nat (indexByte k (CHR ''|'')))) k))
       (filter (\<lambda>k. indexByte k (CHR ''|'') \<ge> 0) (dgReported d))))"

definition CycleCount :: "Diag \<Rightarrow> int" where
  "CycleCount d = dgCycles d"

subsection \<open>The search is reachability\<close>

definition edge_rel :: "Diag \<Rightarrow> (string \<times> string) set" where
  "edge_rel d = {(a, b). b \<in> set (lookup0 [] (dgEdges d) a)}"

lemma dfs_sound:
  "dfs es to seen stack \<Longrightarrow> \<forall>n \<in> set stack. (r, n) \<in> {(a, b). b \<in> set (lookup0 [] es a)}\<^sup>* \<Longrightarrow> (r, to) \<in> {(a, b). b \<in> set (lookup0 [] es a)}\<^sup>*"
proof (induction es to seen stack rule: dfs.induct)
  case (2 es to seen n stack)
  let ?E = "{(a, b). b \<in> set (lookup0 [] es a)}"
  have n: "(r, n) \<in> ?E\<^sup>*" using 2(3) by simp
  have step: "(r, y) \<in> ?E\<^sup>*" if "y \<in> set (lookup0 [] es n)" for y using n that by (auto intro: rtrancl_into_rtrancl)
  show ?case
  proof (cases "visit to (lookup0 [] es n) seen stack")
    case None
    have "to \<in> set xs" if "visit to xs s t = None" for xs s t
      using that by (induction to xs s t rule: visit.induct) (auto split: if_splits)
    with None step show ?thesis by blast
  next
    case (Some p)
    obtain seen' stack' where p: "p = (seen', stack')" by fastforce
    from visit_seen [OF Some [unfolded p]] obtain new where new: "stack' = new @ stack" "set new \<subseteq> set (lookup0 [] es n)" by blast
    have "\<forall>y \<in> set stack'. (r, y) \<in> ?E\<^sup>*" using new step 2(3) by auto
    with 2(1) [OF Some p [symmetric]] 2(2) Some p show ?thesis by simp
  qed
qed simp

text \<open>A search that ends without meeting the target leaves a set closed under edges.\<close>

lemma dfs_complete:
  "\<not> dfs es to seen stack \<Longrightarrow> to \<notin> set seen \<Longrightarrow> set stack \<subseteq> set seen \<Longrightarrow>
   \<forall>n \<in> set seen - set stack. set (lookup0 [] es n) \<subseteq> set seen \<Longrightarrow>
   \<exists>S. set seen \<subseteq> S \<and> to \<notin> S \<and> (\<forall>n \<in> S. set (lookup0 [] es n) \<subseteq> S)"
proof (induction es to seen stack rule: dfs.induct)
  case (1 es to seen)
  then show ?case by (intro exI [of _ "set seen"]) simp
next
  case (2 es to seen n stack)
  from 2(2) obtain seen' stack' where v: "visit to (lookup0 [] es n) seen stack = Some (seen', stack')"
    and d: "\<not> dfs es to seen' stack'" by (auto split: option.splits)
  from visit_seen [OF v] obtain new where new: "seen' = new @ seen" "stack' = new @ stack" "set new \<subseteq> set (lookup0 [] es n)"
    "to \<notin> set (lookup0 [] es n)" "set (lookup0 [] es n) \<subseteq> set seen'" by blast
  have "to \<notin> set seen'" using new 2(3) by auto
  moreover have "set stack' \<subseteq> set seen'" using new 2(4) by auto
  moreover have "\<forall>m \<in> set seen' - set stack'. set (lookup0 [] es m) \<subseteq> set seen'" using new 2(5) by auto
  ultimately have "\<exists>S. set seen' \<subseteq> S \<and> to \<notin> S \<and> (\<forall>n \<in> S. set (lookup0 [] es n) \<subseteq> S)" using 2(1) [OF v refl] d by blast
  then show ?case using new(1) by auto
qed

lemma reachable_iff: "reachableLocked from to d \<longleftrightarrow> (from, to) \<in> (edge_rel d)\<^sup>*"
proof (cases "from = to")
  case False
  show ?thesis
  proof
    assume "reachableLocked from to d"
    with False dfs_sound [of "dgEdges d" to "[from]" "[from]" "from"] show "(from, to) \<in> (edge_rel d)\<^sup>*"
      by (simp add: reachableLocked_def edge_rel_def)
  next
    assume r: "(from, to) \<in> (edge_rel d)\<^sup>*"
    show "reachableLocked from to d"
    proof (rule ccontr)
      assume "\<not> reachableLocked from to d"
      with False dfs_complete [of "dgEdges d" to "[from]" "[from]"] obtain S where
        S: "from \<in> S" "to \<notin> S" "\<forall>n \<in> S. set (lookup0 [] (dgEdges d) n) \<subseteq> S" by (auto simp: reachableLocked_def)
      from r have "to \<in> S" by (induction rule: rtrancl_induct) (use S in \<open>auto simp: edge_rel_def\<close>)
      with S(2) show False by blast
    qed
  qed
qed (simp add: reachableLocked_def)

subsection \<open>Warnings and cycles\<close>

lemma edge_rel_add: "edge_rel (addEdgeLocked a b d) = insert (a, b) (edge_rel d)"
  by (auto simp: edge_rel_def addEdgeLocked_def Let_def split: if_splits)

lemma edge_rel_frame [simp]:
  "edge_rel (d\<lparr>dgReported := x\<rparr>) = edge_rel d" "edge_rel (d\<lparr>dgCycles := y\<rparr>) = edge_rel d" "edge_rel (d\<lparr>dgHeld := h\<rparr>) = edge_rel d"
  "edge_rel (d\<lparr>dgRegistry := z\<rparr>) = edge_rel d" "edge_rel (warnCycleLocked a b d) = edge_rel d"
  by (simp_all add: edge_rel_def warnCycleLocked_def Let_def)

definition on_cycle :: "Diag \<Rightarrow> string \<Rightarrow> bool" where
  "on_cycle d key \<longleftrightarrow> (\<exists>a b. key = a @ ''|'' @ b \<and> (a, b) \<in> edge_rel d \<and> (b, a) \<in> (edge_rel d)\<^sup>*)"

text \<open>There is a warning exactly when the graph has a cycle, and every warning names an edge on one.\<close>

definition graph_inv :: "Diag \<Rightarrow> bool" where
  "graph_inv d \<longleftrightarrow> finite (edge_rel d) \<and> (dgReported d = [] \<longrightarrow> acyclic (edge_rel d)) \<and> (\<forall>key \<in> set (dgReported d). on_cycle d key)
     \<and> dgCycles d = int (length (dgReported d))"

lemma on_cycle_mono: "edge_rel d \<subseteq> edge_rel d' \<Longrightarrow> on_cycle d key \<Longrightarrow> on_cycle d' key"
  using rtrancl_mono unfolding on_cycle_def by blast

lemma graph_inv_acquire_edge:
  assumes "graph_inv d"
  shows "graph_inv (acquire_edge name held d) \<and> edge_rel (acquire_edge name held d) = edge_rel d \<union> ({(held, name)} - Id)
     \<and> dgHeld (acquire_edge name held d) = dgHeld d"
proof (cases "held = name")
  case False
  let ?d1 = "addEdgeLocked held name d"
  have f: "dgReported ?d1 = dgReported d" "dgCycles ?d1 = dgCycles d" "dgHeld ?d1 = dgHeld d" by (simp_all add: addEdgeLocked_def Let_def)
  have r: "edge_rel ?d1 = insert (held, name) (edge_rel d)" by (rule edge_rel_add)
  have c: "\<forall>key \<in> set (dgReported d). on_cycle ?d1 key" using assms on_cycle_mono [of d ?d1] r by (auto simp: graph_inv_def)
  show ?thesis
  proof (cases "reachableLocked name held ?d1")
    case True
    then have "on_cycle ?d1 (held @ ''|'' @ name)" unfolding reachable_iff on_cycle_def r by blast
    with True False assms f c r show ?thesis
      by (auto simp: acquire_edge_def graph_inv_def warnCycleLocked_def Let_def on_cycle_def)
  next
    case no: False
    have "acyclic (edge_rel ?d1)" if "acyclic (edge_rel d)"
      using that no unfolding reachable_iff r acyclic_insert using rtrancl_mono [OF subset_insertI] by blast
    with no False assms f c r show ?thesis by (auto simp: acquire_edge_def graph_inv_def)
  qed
qed (use assms in \<open>simp add: acquire_edge_def\<close>)

lemma enterAcquire_edges:
  assumes "graph_inv d"
  shows "graph_inv (enterAcquire g name d) \<and> edge_rel d \<subseteq> edge_rel (enterAcquire g name d) \<and> dgHeld (enterAcquire g name d) = dgHeld d
     \<and> (\<forall>h \<in> set (lookup0 [] (dgHeld d) g). h \<noteq> name \<longrightarrow> (h, name) \<in> edge_rel (enterAcquire g name d))"
proof -
  have "graph_inv d \<Longrightarrow> graph_inv (fold (acquire_edge name) hs d) \<and> edge_rel d \<subseteq> edge_rel (fold (acquire_edge name) hs d)
     \<and> dgHeld (fold (acquire_edge name) hs d) = dgHeld d \<and> (\<forall>h \<in> set hs. h \<noteq> name \<longrightarrow> (h, name) \<in> edge_rel (fold (acquire_edge name) hs d))" for hs
  proof (induction hs arbitrary: d)
    case (Cons h hs)
    from graph_inv_acquire_edge [OF Cons.prems, of name h] Cons.IH [of "acquire_edge name h d"] show ?case by auto
  qed simp
  with assms show ?thesis by (simp add: enterAcquire_def)
qed

subsection \<open>Goroutines that lock\<close>

text \<open>A program: the diagnostics and, for every goroutine that has announced an acquisition and not got it yet, the lock's name.
  Which lock object a goroutine uses, and when the real mutex lets it through, is left open.\<close>

record lock_system =
  syDiag :: Diag
  syWaiting :: "int \<Rightarrow> string option"

definition shown :: "string \<Rightarrow> string" where
  "shown name = (if name = [] then ''?'' else name)"

inductive lock_step :: "lock_system \<Rightarrow> lock_system \<Rightarrow> bool" where
  enter: "syWaiting y g = None \<Longrightarrow>
     lock_step y (y\<lparr>syDiag := lock_enter g name (syDiag y), syWaiting := (syWaiting y)(g \<mapsto> shown name)\<rparr>)"
| lock: "syWaiting y g = Some (shown (muName m)) \<Longrightarrow> Mutex_Lock g w now (m, syDiag y) = (m', d') \<Longrightarrow>
     lock_step y (y\<lparr>syDiag := d', syWaiting := (syWaiting y)(g := None)\<rparr>)"
| rw_lock: "syWaiting y g = Some (shown (rwName rw)) \<Longrightarrow> RWMutex_Lock g w now (rw, syDiag y) = (rw', d') \<Longrightarrow>
     lock_step y (y\<lparr>syDiag := d', syWaiting := (syWaiting y)(g := None)\<rparr>)"
| r_lock: "syWaiting y g = Some (shown (rwName rw)) \<Longrightarrow> RWMutex_RLock g w now (rw, syDiag y) = (rw', d') \<Longrightarrow>
     lock_step y (y\<lparr>syDiag := d', syWaiting := (syWaiting y)(g := None)\<rparr>)"
| unlock: "Mutex_Unlock now (m, syDiag y) = (m', d') \<Longrightarrow> lock_step y (y\<lparr>syDiag := d'\<rparr>)"
| rw_unlock: "RWMutex_Unlock now (rw, syDiag y) = (rw', d') \<Longrightarrow> lock_step y (y\<lparr>syDiag := d'\<rparr>)"
| r_unlock: "RWMutex_RUnlock g now (rw, syDiag y) = (rw', d') \<Longrightarrow> lock_step y (y\<lparr>syDiag := d'\<rparr>)"

definition diag_start :: "int \<Rightarrow> int \<Rightarrow> Diag" where
  "diag_start ww hw = \<lparr>dgOn = True, dgWaitWarn = ww, dgHoldWarn = hw, dgHeld = [], dgEdges = [], dgReported = [], dgCycles = 0, dgRegistry = []\<rparr>"

definition lock_start :: "int \<Rightarrow> int \<Rightarrow> lock_system" where
  "lock_start ww hw = \<lparr>syDiag = diag_start ww hw, syWaiting = (\<lambda>_. None)\<rparr>"

definition held_by :: "Diag \<Rightarrow> int \<Rightarrow> string list" where
  "held_by d g = lookup0 [] (dgHeld d) g"

text \<open>A set of goroutines each of which waits for a lock that another of them holds.\<close>

definition circular_wait :: "lock_system \<Rightarrow> int set \<Rightarrow> bool" where
  "circular_wait y G \<longleftrightarrow> G \<noteq> {} \<and> (\<forall>g \<in> G. \<exists>n g'. syWaiting y g = Some n \<and> n \<notin> set (held_by (syDiag y) g) \<and> g' \<in> G \<and> n \<in> set (held_by (syDiag y) g'))"

text \<open>What concerns the graph, and the consistency of the registry.\<close>

definition graph_part :: "Diag \<Rightarrow> bool \<times> (int, string list) gomap \<times> (string, string list) gomap \<times> string list \<times> int" where
  "graph_part d = (dgOn d, dgHeld d, dgEdges d, dgReported d, dgCycles d)"

definition names_ok :: "Diag \<Rightarrow> bool" where
  "names_ok d \<longleftrightarrow> (\<forall>n s. map_of (dgRegistry d) n = Some s \<longrightarrow> lsName s = n)"

lemma graph_part_cong:
  assumes "graph_part d = graph_part d'"
  shows "dgOn d = dgOn d'" "dgHeld d = dgHeld d'" "edge_rel d = edge_rel d'" "dgReported d = dgReported d'" "graph_inv d = graph_inv d'" "held_by d = held_by d'"
  using assms by (auto simp: graph_part_def edge_rel_def graph_inv_def on_cycle_def held_by_def fun_eq_iff)

lemma graph_part_mark:
  "graph_part d = graph_part d' \<Longrightarrow> graph_part (markHeld g n d) = graph_part (markHeld g n d')"
  "graph_part d = graph_part d' \<Longrightarrow> graph_part (markReleased g n d) = graph_part (markReleased g n d')"
  by (simp_all add: graph_part_def markHeld_def markReleased_def Let_def)

lemma statFor_frame:
  assumes "statFor name d = (st, d1)" and "names_ok d"
  shows "lsName st = shown name" "graph_part d1 = graph_part d" "names_ok d1"
  using assms by (auto simp: statFor_def shown_def names_ok_def graph_part_def Let_def split: if_splits option.splits)

lemma record_frame:
  "graph_part (recordWait n w d) = graph_part d" "graph_part (recordHold n w d) = graph_part d"
  "names_ok d \<Longrightarrow> names_ok (recordWait n w d)" "names_ok d \<Longrightarrow> names_ok (recordHold n w d)"
  "names_ok (markHeld g n d) = names_ok d" "names_ok (markReleased g n d) = names_ok d"
  by (auto simp: recordWait_def recordHold_def names_ok_def graph_part_def markHeld_def markReleased_def Let_def split: option.splits)

lemma lock_effects:
  assumes "dgOn d" "names_ok d"
  shows "Mutex_Lock g w now (m, d) = (m', d') \<Longrightarrow> graph_part d' = graph_part (markHeld g (shown (muName m)) d) \<and> names_ok d'"
    and "RWMutex_Lock g w now (rw, d) = (rw', d') \<Longrightarrow> graph_part d' = graph_part (markHeld g (shown (rwName rw)) d) \<and> names_ok d'"
    and "RWMutex_RLock g w now (rw, d) = (rw', d') \<Longrightarrow> graph_part d' = graph_part (markHeld g (shown (rwName rw)) d) \<and> names_ok d'"
    and "Mutex_Unlock now (m, d) = (m', d') \<Longrightarrow> graph_part d' = graph_part (markReleased (muHolder m) (shown (muName m)) d) \<and> names_ok d'"
    and "RWMutex_Unlock now (rw, d) = (rw', d') \<Longrightarrow> graph_part d' = graph_part (markReleased (rwWHolder rw) (shown (rwName rw)) d) \<and> names_ok d'"
    and "RWMutex_RUnlock g now (rw, d) = (rw', d') \<Longrightarrow> graph_part d' = graph_part (markReleased g (shown (rwName rw)) d) \<and> names_ok d'"
  using assms statFor_frame [OF _ assms(2)]
  by (auto simp: Mutex_Lock_def RWMutex_Lock_def RWMutex_RLock_def Mutex_Unlock_def RWMutex_Unlock_def RWMutex_RUnlock_def record_frame Let_def
      intro!: graph_part_mark split: prod.splits)

definition system_inv :: "lock_system \<Rightarrow> bool" where
  "system_inv y \<longleftrightarrow> dgOn (syDiag y) \<and> names_ok (syDiag y) \<and> graph_inv (syDiag y)
     \<and> (\<forall>g n h. syWaiting y g = Some n \<longrightarrow> h \<in> set (held_by (syDiag y) g) \<longrightarrow> h \<noteq> n \<longrightarrow> (h, n) \<in> edge_rel (syDiag y))"

lemma system_inv_markHeld:
  assumes "system_inv y" and "graph_part d' = graph_part (markHeld g n (syDiag y)) \<and> names_ok d'"
  shows "system_inv (y\<lparr>syDiag := d', syWaiting := (syWaiting y)(g := None)\<rparr>)"
proof -
  note c = graph_part_cong [OF conjunct1 [OF assms(2)]]
  have "held_by (markHeld g n (syDiag y)) g' = held_by (syDiag y) g'" if "g' \<noteq> g" for g' using that by (simp add: held_by_def markHeld_def)
  moreover have "graph_inv (markHeld g n (syDiag y)) = graph_inv (syDiag y)" "edge_rel (markHeld g n (syDiag y)) = edge_rel (syDiag y)"
    "dgOn (markHeld g n (syDiag y)) = dgOn (syDiag y)" by (simp_all add: markHeld_def graph_inv_def on_cycle_def)
  ultimately show ?thesis using assms c by (auto simp: system_inv_def)
qed

lemma system_inv_markReleased:
  assumes "system_inv y" and "graph_part d' = graph_part (markReleased g n (syDiag y)) \<and> names_ok d'"
  shows "system_inv (y\<lparr>syDiag := d'\<rparr>)"
proof -
  note c = graph_part_cong [OF conjunct1 [OF assms(2)]]
  have "set (remove_last n xs) \<subseteq> set xs" for xs :: "string list" using set_remove1_subset [of n "rev xs"] by (simp add: remove_last_def)
  then have sub: "set (held_by (markReleased g n (syDiag y)) g') \<subseteq> set (held_by (syDiag y) g')" for g'
    by (auto simp: held_by_def markReleased_def Let_def lookup0_def delete_conv remove_last_def split: option.splits)
  have fr: "graph_inv (markReleased g n (syDiag y)) = graph_inv (syDiag y)" "edge_rel (markReleased g n (syDiag y)) = edge_rel (syDiag y)"
    "dgOn (markReleased g n (syDiag y)) = dgOn (syDiag y)" by (simp_all add: markReleased_def graph_inv_def on_cycle_def Let_def)
  show ?thesis using assms c fr unfolding system_inv_def by (auto dest!: subsetD [OF sub])
qed

lemma system_inv_enter:
  assumes "system_inv y" and "syWaiting y g = None"
  shows "system_inv (y\<lparr>syDiag := lock_enter g name (syDiag y), syWaiting := (syWaiting y)(g \<mapsto> shown name)\<rparr>)"
proof -
  obtain st d1 where s: "statFor name (syDiag y) = (st, d1)" by fastforce
  have on: "dgOn (syDiag y)" "names_ok (syDiag y)" "graph_inv (syDiag y)" using assms(1) by (simp_all add: system_inv_def)
  note f = statFor_frame [OF s on(2)]
  note c = graph_part_cong [OF f(2)]
  have e: "lock_enter g name (syDiag y) = enterAcquire g (shown name) d1" using on(1) s f(1) by (simp add: lock_enter_def)
  have reg: "dgOn (acquire_edge a b d) = dgOn d \<and> dgRegistry (acquire_edge a b d) = dgRegistry d" for a b d
    by (simp add: acquire_edge_def addEdgeLocked_def warnCycleLocked_def Let_def)
  have "dgOn (fold (acquire_edge a) hs d) = dgOn d \<and> dgRegistry (fold (acquire_edge a) hs d) = dgRegistry d" for a hs d
    by (induction hs arbitrary: d) (simp_all add: reg)
  then have r: "dgOn (enterAcquire g (shown name) d1) = dgOn d1" "names_ok (enterAcquire g (shown name) d1)"
    using f(3) by (simp_all add: enterAcquire_def names_ok_def)
  have g1: "graph_inv d1" using c(5) on(3) by simp
  from enterAcquire_edges [OF g1, of g "shown name"] show ?thesis
    using assms r c on unfolding system_inv_def e by (auto simp: held_by_def)
qed

lemma system_inv_step: "lock_step y y' \<Longrightarrow> system_inv y \<Longrightarrow> system_inv y'"
proof (induction rule: lock_step.induct)
  case (enter y g name)
  then show ?case by (simp add: system_inv_enter)
next
  case (lock y g m w now m' d')
  show ?case by (rule system_inv_markHeld [OF lock(3) lock_effects(1) [OF _ _ lock(2)]]) (use lock(3) in \<open>simp_all add: system_inv_def\<close>)
next
  case (rw_lock y g rw w now rw' d')
  show ?case by (rule system_inv_markHeld [OF rw_lock(3) lock_effects(2) [OF _ _ rw_lock(2)]]) (use rw_lock(3) in \<open>simp_all add: system_inv_def\<close>)
next
  case (r_lock y g rw w now rw' d')
  show ?case by (rule system_inv_markHeld [OF r_lock(3) lock_effects(3) [OF _ _ r_lock(2)]]) (use r_lock(3) in \<open>simp_all add: system_inv_def\<close>)
next
  case (unlock now m y m' d')
  show ?case by (rule system_inv_markReleased [OF unlock(2) lock_effects(4) [OF _ _ unlock(1)]]) (use unlock(2) in \<open>simp_all add: system_inv_def\<close>)
next
  case (rw_unlock now rw y rw' d')
  show ?case by (rule system_inv_markReleased [OF rw_unlock(2) lock_effects(5) [OF _ _ rw_unlock(1)]]) (use rw_unlock(2) in \<open>simp_all add: system_inv_def\<close>)
next
  case (r_unlock g now rw y rw' d')
  show ?case by (rule system_inv_markReleased [OF r_unlock(2) lock_effects(6) [OF _ _ r_unlock(1)]]) (use r_unlock(2) in \<open>simp_all add: system_inv_def\<close>)
qed

lemma system_inv_start: "system_inv (lock_start ww hw)"
  by (simp add: system_inv_def lock_start_def diag_start_def graph_inv_def names_ok_def edge_rel_def held_by_def acyclic_def)

lemma no_circular_wait:
  assumes "system_inv y" and "acyclic (edge_rel (syDiag y))"
  shows "\<not> circular_wait y G"
proof
  assume c: "circular_wait y G"
  let ?E = "edge_rel (syDiag y)"
  let ?N = "{n. \<exists>g \<in> G. syWaiting y g = Some n}"
  have "wf (?E\<inverse>)" using assms by (intro finite_acyclic_wf_converse) (auto simp: system_inv_def graph_inv_def)
  have waits: "\<exists>n g'. syWaiting y g = Some n \<and> n \<notin> set (held_by (syDiag y) g) \<and> g' \<in> G \<and> n \<in> set (held_by (syDiag y) g')" if "g \<in> G" for g
    using c that by (simp add: circular_wait_def)
  obtain g0 where "g0 \<in> G" using c by (auto simp: circular_wait_def)
  with waits obtain n0 where "n0 \<in> ?N" by blast
  with \<open>wf (?E\<inverse>)\<close> obtain z where z: "z \<in> ?N" "\<And>x. (x, z) \<in> ?E\<inverse> \<Longrightarrow> x \<notin> ?N" by (rule wfE_min) blast
  then obtain g where "g \<in> G" "syWaiting y g = Some z" by blast
  with waits [of g] obtain g' where g: "g' \<in> G" "z \<in> set (held_by (syDiag y) g')" by auto
  with waits [of g'] obtain n where n: "syWaiting y g' = Some n" "n \<notin> set (held_by (syDiag y) g')" by blast
  then have "(z, n) \<in> ?E" using g(2) assms(1) unfolding system_inv_def by metis
  with z(2) n(1) g(1) show False by blast
qed

text \<open>C21. Deadlock prediction. In every run of a program that locks through the instrumented mutexes, a warning has been
  recorded exactly when the recorded orders contain a cycle; every warning names a pair on a cycle; and as long as there is no
  warning, no set of goroutines waits in a circle for one another's locks. The search terminates and is exact.\<close>

theorem warnings_predict_deadlocks:
  assumes "lock_step\<^sup>*\<^sup>* (lock_start ww hw) y"
  shows "(dgReported (syDiag y) = [] \<longleftrightarrow> acyclic (edge_rel (syDiag y)))
     \<and> (\<forall>key \<in> set (dgReported (syDiag y)). on_cycle (syDiag y) key)
     \<and> (dgReported (syDiag y) = [] \<longrightarrow> \<not> circular_wait y G)
     \<and> (reachableLocked a b (syDiag y) \<longleftrightarrow> (a, b) \<in> (edge_rel (syDiag y))\<^sup>*)"
proof -
  from assms have inv: "system_inv y" by (induction rule: rtranclp_induct) (use system_inv_start system_inv_step in blast)+
  have "\<not> acyclic (edge_rel (syDiag y))" if "on_cycle (syDiag y) key" for key
    using that by (auto simp: on_cycle_def acyclic_def dest: rtrancl_into_trancl2)
  with inv no_circular_wait [OF inv] reachable_iff show ?thesis unfolding system_inv_def graph_inv_def
    by (metis list.set_intros(1) neq_Nil_conv)
qed

text \<open>Two goroutines that take two locks in opposite orders.\<close>

definition sy_enter :: "int \<Rightarrow> string \<Rightarrow> lock_system \<Rightarrow> lock_system" where
  "sy_enter g n y = y\<lparr>syDiag := lock_enter g n (syDiag y), syWaiting := (syWaiting y)(g \<mapsto> shown n)\<rparr>"

definition sy_lock :: "int \<Rightarrow> string \<Rightarrow> lock_system \<Rightarrow> lock_system" where
  "sy_lock g n y = y\<lparr>syDiag := snd (Mutex_Lock g 0 0 (\<lparr>muName = n, muHolder = 0, muAcqAt = 0\<rparr>, syDiag y)), syWaiting := (syWaiting y)(g := None)\<rparr>"

lemma sy_steps:
  "lock_step\<^sup>*\<^sup>* y0 y \<Longrightarrow> syWaiting y g = None \<Longrightarrow> lock_step\<^sup>*\<^sup>* y0 (sy_enter g n y)"
  "lock_step\<^sup>*\<^sup>* y0 y \<Longrightarrow> syWaiting y g = Some (shown n) \<Longrightarrow> lock_step\<^sup>*\<^sup>* y0 (sy_lock g n y)"
  unfolding sy_enter_def sy_lock_def
  by (blast intro: rtranclp.rtrancl_into_rtrancl lock_step.enter)
    (rule rtranclp.rtrancl_into_rtrancl, assumption, rule lock_step.lock [where m = "\<lparr>muName = n, muHolder = 0, muAcqAt = 0\<rparr>" and w = 0 and now = 0], simp, rule prod.collapse [symmetric])

definition two_locks :: lock_system where
  "two_locks = sy_enter 1 ''B'' (sy_lock 2 ''B'' (sy_enter 2 ''B'' (sy_lock 1 ''A'' (sy_enter 1 ''A'' (lock_start 5 5)))))"

theorem warnings_predict_deadlocks_witness:
  "dgReported (syDiag two_locks) = [] \<and> \<not> circular_wait two_locks {1, 2}
   \<and> dgReported (syDiag (sy_enter 2 ''A'' two_locks)) = [''B|A''] \<and> \<not> acyclic (edge_rel (syDiag (sy_enter 2 ''A'' two_locks)))"
proof -
  have w: "syWaiting (sy_enter g n y) = (syWaiting y)(g \<mapsto> shown n)" "syWaiting (sy_lock g n y) = (syWaiting y)(g := None)" for g n y
    by (simp_all add: sy_enter_def sy_lock_def)
  have s: "syWaiting (lock_start 5 5) = (\<lambda>_. None)" by (simp add: lock_start_def)
  have r: "lock_step\<^sup>*\<^sup>* (lock_start 5 5) two_locks" unfolding two_locks_def
    by (intro sy_steps rtranclp.rtrancl_refl) (simp_all add: w s)
  have r2: "lock_step\<^sup>*\<^sup>* (lock_start 5 5) (sy_enter 2 ''A'' two_locks)"
    by (rule sy_steps(1) [OF r]) (simp add: two_locks_def w s)
  have e: "dgReported (syDiag two_locks) = []" "dgReported (syDiag (sy_enter 2 ''A'' two_locks)) = [''B|A'']" by code_simp+
  from warnings_predict_deadlocks [OF r, of "{1, 2}"] warnings_predict_deadlocks [OF r2] e show ?thesis by auto
qed

end
