(* ===== verification/Auth.thy ===== *)
theory Auth
  imports Go_Hash
begin

section \<open>Authentication and authorization\<close>

text \<open>
  \<^verbatim>\<open>internal/auth\<close>: the role policy (\<^verbatim>\<open>rbac.go\<close>) and the HS256 tokens (\<^verbatim>\<open>jwt.go\<close>), with base64url and HMAC as the
  standard library defines them. The JSON of headers and claims is a parameter, the record \<open>jwt_codec\<close>.
  Times are seconds; the leeway of a verifier is the whole seconds of its duration. Quoted strings in error texts are not escaped.
\<close>

subsection \<open>Roles\<close>

type_synonym Permission = string

definition PermJobSubmit :: Permission where "PermJobSubmit = ''job:submit''"
definition PermJobRead :: Permission where "PermJobRead = ''job:read''"
definition PermJobCancel :: Permission where "PermJobCancel = ''job:cancel''"
definition PermAlgoRegister :: Permission where "PermAlgoRegister = ''algorithm:register''"
definition PermQuotaAdmin :: Permission where "PermQuotaAdmin = ''quota:admin''"
definition PermTaskLease :: Permission where "PermTaskLease = ''task:lease''"
definition PermTaskReport :: Permission where "PermTaskReport = ''task:report''"

lemmas perm_defs = PermJobSubmit_def PermJobRead_def PermJobCancel_def PermAlgoRegister_def PermQuotaAdmin_def PermTaskLease_def PermTaskReport_def

definition wildcard :: Permission where
  "wildcard = ''*''"

text \<open>The permission set of a role is the list of its members.\<close>

record Policy =
  grants :: "(string, Permission list) gomap"

definition NewPolicy :: Policy where
  "NewPolicy = \<lparr>grants = []\<rparr>"

definition Grant :: "string \<Rightarrow> Permission list \<Rightarrow> Policy \<Rightarrow> Policy" where
  "Grant role perms p = p\<lparr>grants := AList.update role (lookup0 [] (grants p) role @ perms) (grants p)\<rparr>"

fun Allow :: "Policy \<Rightarrow> string list \<Rightarrow> Permission \<Rightarrow> bool" where
  "Allow p [] perm = False"
| "Allow p (role # roles) perm =
     (case map_of (grants p) role of
        None \<Rightarrow> Allow p roles perm
      | Some granted \<Rightarrow> if wildcard \<in> set granted \<or> perm \<in> set granted then True else Allow p roles perm)"

subsection \<open>Claims\<close>

record Claims =
  clSubject :: string
  clIssuer :: string
  clTenant :: string
  clRoles :: "string list"
  clIssuedAt :: int
  clNotBefore :: int
  clExpiresAt :: int

record jwt_header =
  hdAlg :: string
  hdTyp :: string

definition Authorize :: "Policy \<Rightarrow> Claims option \<Rightarrow> Permission \<Rightarrow> bool" where
  "Authorize p c perm = (case c of None \<Rightarrow> False | Some cl \<Rightarrow> Allow p (clRoles cl) perm)"

definition DefaultPolicy :: Policy where
  "DefaultPolicy =
     Grant ''worker'' [PermTaskLease, PermTaskReport, PermJobRead]
       (Grant ''viewer'' [PermJobRead]
         (Grant ''operator'' [PermJobSubmit, PermJobRead, PermJobCancel, PermAlgoRegister]
           (Grant ''admin'' [wildcard] NewPolicy)))"

subsection \<open>base64url without padding\<close>

definition b64_alphabet :: string where
  "b64_alphabet = ''ABCDEFGHIJKLMNOPQRSTUVWXYZabcdefghijklmnopqrstuvwxyz0123456789-_''"

definition b64_char :: "nat \<Rightarrow> char" where
  "b64_char n = b64_alphabet ! (n mod 64)"

fun index_of :: "'a \<Rightarrow> 'a list \<Rightarrow> nat option" where
  "index_of x [] = None"
| "index_of x (y # ys) = (if x = y then Some 0 else map_option Suc (index_of x ys))"

definition b64_val :: "char \<Rightarrow> nat option" where
  "b64_val c = index_of c b64_alphabet"

fun b64_encode :: "byte list \<Rightarrow> string" where
  "b64_encode [] = []"
| "b64_encode [a] = (let n = unat a * 16 in [b64_char (n div 64), b64_char n])"
| "b64_encode [a, b] = (let n = (unat a * 256 + unat b) * 4 in [b64_char (n div 4096), b64_char (n div 64), b64_char n])"
| "b64_encode (a # b # c # rest) =
     (let n = unat a * 65536 + unat b * 256 + unat c
      in [b64_char (n div 262144), b64_char (n div 4096), b64_char (n div 64), b64_char n] @ b64_encode rest)"

text \<open>Decoding skips line breaks and does not look at the unused bits of the last character.\<close>

fun b64_values :: "string \<Rightarrow> nat list option" where
  "b64_values [] = Some []"
| "b64_values (c # cs) =
     (if c = CHR 0x0A \<or> c = CHR 0x0D then b64_values cs
      else case b64_val c of
             None \<Rightarrow> None
           | Some v \<Rightarrow> map_option (\<lambda>vs. v # vs) (b64_values cs))"

fun b64_bytes :: "nat list \<Rightarrow> byte list option" where
  "b64_bytes [] = Some []"
| "b64_bytes [u] = None"
| "b64_bytes [u, v] = Some [of_nat ((u * 64 + v) div 16)]"
| "b64_bytes [u, v, w] = (let n = (u * 4096 + v * 64 + w) div 4 in Some [of_nat (n div 256), of_nat n])"
| "b64_bytes (u # v # w # x # rest) =
     (let n = u * 262144 + v * 4096 + w * 64 + x
      in map_option (\<lambda>bs. [of_nat (n div 65536), of_nat (n div 256), of_nat n] @ bs) (b64_bytes rest))"

definition b64_decode :: "string \<Rightarrow> byte list option" where
  "b64_decode s = Option.bind (b64_values s) b64_bytes"

subsection \<open>HMAC-SHA256\<close>

definition hmac_key :: "byte list \<Rightarrow> byte list" where
  "hmac_key k = (let k1 = (if length k > 64 then sha256_sum k else k) in k1 @ replicate (64 - length k1) 0)"

definition hmac_sha256 :: "byte list \<Rightarrow> byte list \<Rightarrow> byte list" where
  "hmac_sha256 k m =
     (let kk = hmac_key k
      in sha256_sum (map (\<lambda>b. xor b 0x5c) kk @ sha256_sum (map (\<lambda>b. xor b 0x36) kk @ m)))"

subsection \<open>Tokens\<close>

record jwt_codec =
  encHeader :: "jwt_header \<Rightarrow> byte list"
  encClaims :: "Claims \<Rightarrow> byte list"
  decHeader :: "byte list \<Rightarrow> jwt_header option"
  decClaims :: "byte list \<Rightarrow> Claims option"

record Verifier =
  vfSecret :: "byte list"
  vfLeeway :: int

definition NewVerifier :: "byte list \<Rightarrow> int \<Rightarrow> Verifier" where
  "NewVerifier secret leeway = \<lparr>vfSecret = secret, vfLeeway = leeway\<rparr>"

definition mac :: "Verifier \<Rightarrow> string \<Rightarrow> byte list" where
  "mac v input = hmac_sha256 (vfSecret v) (bytes_of input)"

text \<open>\<^verbatim>\<open>strings.Split\<close> with a separator of one character.\<close>

fun split_on :: "char \<Rightarrow> string \<Rightarrow> string list" where
  "split_on c [] = [[]]"
| "split_on c (x # xs) =
     (if x = c then [] # split_on c xs
      else case split_on c xs of [] \<Rightarrow> [[x]] | p # ps \<Rightarrow> (x # p) # ps)"

definition quote :: "string \<Rightarrow> string" where
  "quote s = CHR 0x22 # s @ [CHR 0x22]"

definition Sign :: "jwt_codec \<Rightarrow> Verifier \<Rightarrow> Claims \<Rightarrow> string" where
  "Sign cdc v c =
     (let signingInput = b64_encode (encHeader cdc \<lparr>hdAlg = ''HS256'', hdTyp = ''JWT''\<rparr>) @ ''.'' @ b64_encode (encClaims cdc c)
      in signingInput @ ''.'' @ b64_encode (mac v signingInput))"

definition check_times :: "Verifier \<Rightarrow> int \<Rightarrow> Claims \<Rightarrow> Claims outcome" where
  "check_times v now c =
     (let skew = go_div (vfLeeway v) (10 ^ 9)
      in if clExpiresAt c \<noteq> 0 \<and> now > i64 (clExpiresAt c + skew)
         then Err (''auth: token expired at '' @ fmt_d (clExpiresAt c) @ '' (now '' @ fmt_d now @ '')'')
         else if clNotBefore c \<noteq> 0 \<and> now < i64 (clNotBefore c - skew)
         then Err (''auth: token not valid before '' @ fmt_d (clNotBefore c) @ '' (now '' @ fmt_d now @ '')'')
         else Ok c)"

definition Parse :: "jwt_codec \<Rightarrow> Verifier \<Rightarrow> int \<Rightarrow> string \<Rightarrow> Claims outcome" where
  "Parse cdc v now token =
     (case split_on (CHR ''.'') token of
        [p0, p1, p2] \<Rightarrow>
          (case b64_decode p0 of
             None \<Rightarrow> Err ''auth: decode header''
           | Some hb \<Rightarrow>
               (case decHeader cdc hb of
                  None \<Rightarrow> Err ''auth: parse header''
                | Some h \<Rightarrow>
                    if hdAlg h \<noteq> ''HS256'' then Err (''auth: unsupported alg '' @ quote (hdAlg h) @ '', only HS256 accepted'')
                    else (case b64_decode p2 of
                            None \<Rightarrow> Err ''auth: decode signature''
                          | Some got \<Rightarrow>
                              if mac v (p0 @ ''.'' @ p1) \<noteq> got then Err ''auth: signature mismatch''
                              else (case b64_decode p1 of
                                      None \<Rightarrow> Err ''auth: decode claims''
                                    | Some pb \<Rightarrow>
                                        (case decClaims cdc pb of
                                           None \<Rightarrow> Err ''auth: parse claims''
                                         | Some c \<Rightarrow> check_times v now c)))))
      | parts \<Rightarrow> Err (''auth: token has '' @ dec_nat (length parts) @ '' segments, want 3''))"

subsection \<open>Policies\<close>

lemma Allow_iff: "Allow p roles perm \<longleftrightarrow> (\<exists>role \<in> set roles. \<exists>g. map_of (grants p) role = Some g \<and> (wildcard \<in> set g \<or> perm \<in> set g))"
  by (induction roles) (auto split: option.splits if_splits)

text \<open>More roles never take a permission away, and a role the policy does not know gives none.\<close>

lemma Allow_mono: "set roles \<subseteq> set roles' \<Longrightarrow> Allow p roles perm \<Longrightarrow> Allow p roles' perm"
  by (auto simp: Allow_iff)

lemma Allow_Grant:
  assumes "Allow p roles perm"
  shows "Allow (Grant role perms p) roles perm"
proof -
  from assms obtain r g where r: "r \<in> set roles" "map_of (grants p) r = Some g" "wildcard \<in> set g \<or> perm \<in> set g" by (auto simp: Allow_iff)
  have "\<exists>g'. map_of (grants (Grant role perms p)) r = Some g' \<and> set g \<subseteq> set g'"
    using r(2) by (cases "r = role") (simp_all add: Grant_def lookup0_def)
  with r show ?thesis unfolding Allow_iff by blast
qed

lemma DefaultPolicy_roles:
  "map_of (grants DefaultPolicy) role =
     (if role = ''worker'' then Some [PermTaskLease, PermTaskReport, PermJobRead]
      else if role = ''viewer'' then Some [PermJobRead]
      else if role = ''operator'' then Some [PermJobSubmit, PermJobRead, PermJobCancel, PermAlgoRegister]
      else if role = ''admin'' then Some [wildcard] else None)"
  by (simp add: DefaultPolicy_def Grant_def NewPolicy_def lookup0_def)

subsection \<open>base64url round trip\<close>

lemma b64_val_char: "b64_val (b64_char n) = Some (n mod 64)"
proof -
  have "\<forall>k \<in> set [0..<64]. b64_val (b64_char k) = Some k" by code_simp
  moreover have "b64_char n = b64_char (n mod 64)" by (simp add: b64_char_def)
  ultimately show ?thesis by simp
qed

lemma b64_char_plain: "b64_char n \<noteq> CHR 0x0A" "b64_char n \<noteq> CHR 0x0D" "b64_char n \<noteq> CHR ''.''"
  using b64_val_char [of n] by (auto simp: b64_val_def b64_alphabet_def)

lemma b64_values_char [simp]: "b64_values (b64_char n # cs) = map_option (\<lambda>vs. n mod 64 # vs) (b64_values cs)"
  by (simp add: b64_char_plain b64_val_char)

declare b64_values.simps(2) [simp del]

lemma dot_free_encode: "CHR ''.'' \<notin> set (b64_encode bs)"
  by (induction bs rule: b64_encode.induct) (auto simp: Let_def b64_char_plain [symmetric])

lemma digits_64:
  fixes n :: nat
  shows "n < 64 ^ 4 \<Longrightarrow> (n div 262144 mod 64) * 262144 + (n div 4096 mod 64) * 4096 + (n div 64 mod 64) * 64 + n mod 64 = n"
proof -
  assume "n < 64 ^ 4"
  then have "n div 262144 < 64" by (simp add: div_less_iff_less_mult)
  then have a: "n div 262144 mod 64 = n div 262144" by simp
  have "n div 4096 = (n div 262144) * 64 + n div 4096 mod 64" using div_mult_mod_eq [of "n div 4096" 64] by (simp add: div_mult2_eq [symmetric])
  moreover have "n div 64 = (n div 4096) * 64 + n div 64 mod 64" using div_mult_mod_eq [of "n div 64" 64] by (simp add: div_mult2_eq [symmetric])
  moreover have "n = (n div 64) * 64 + n mod 64" by simp
  ultimately show ?thesis unfolding a by linarith
qed

lemma unat_byte_less [simp]: "unat (b :: byte) < 256"
  using unsigned_less [of b] by simp

lemma byte_of_nat_shift: "of_nat (k * 256 + unat b) = (b :: byte)" "of_nat (256 * k + unat b) = (b :: byte)"
proof -
  have "(256 :: byte) = 0" by simp
  moreover have "of_nat (unat b) = b" by simp
  ultimately show "of_nat (k * 256 + unat b) = (b :: byte)" "of_nat (256 * k + unat b) = (b :: byte)"
    by (simp_all only: of_nat_add of_nat_mult of_nat_numeral mult_zero_right mult_zero_left add_0)
qed

lemma b64_round_trip: "b64_decode (b64_encode bs) = Some bs"
proof (induction bs rule: b64_encode.induct)
  case (2 a)
  let ?n = "unat a * 16"
  have "?n < 4096" using unat_byte_less [of a] by simp
  then have "?n div 64 < 64" by (simp only: div_less_iff_less_mult)
  then have eq: "(?n div 64 mod 64) * 64 + ?n mod 64 = ?n" by (metis div_mult_mod_eq mod_less)
  have "b64_bytes [?n div 64 mod 64, ?n mod 64] = Some [a]" unfolding b64_bytes.simps eq by simp
  then show ?case by (simp add: b64_decode_def Let_def del: b64_bytes.simps)
next
  case (3 a b)
  let ?n = "(unat a * 256 + unat b) * 4"
  have n: "?n < 262144" using unat_byte_less [of a] unat_byte_less [of b] unfolding distrib_right mult.assoc by linarith
  then have eq: "(?n div 4096 mod 64) * 4096 + (?n div 64 mod 64) * 64 + ?n mod 64 = ?n" using digits_64 [of ?n] by simp
  have "b64_bytes [?n div 4096 mod 64, ?n div 64 mod 64, ?n mod 64] = Some [a, b]"
    unfolding b64_bytes.simps eq Let_def using byte_of_nat_shift [of "unat a" b] by (simp del: of_nat_add of_nat_mult)
  then show ?case by (simp add: b64_decode_def Let_def del: b64_bytes.simps)
next
  case (4 a b c rest)
  let ?n = "unat a * 65536 + unat b * 256 + unat c"
  have "?n < 64 ^ 4" using unat_byte_less [of a] unat_byte_less [of b] unat_byte_less [of c] by (simp del: unat_byte_less)
  note d = digits_64 [OF this]
  have bc: "unat b * 256 + unat c < 65536" using unat_byte_less [of b] unat_byte_less [of c] by linarith
  then have "?n div 65536 = unat a" by (intro div_nat_eqI) simp_all
  moreover have "?n div 256 = unat a * 256 + unat b" using unat_byte_less [of c] by (intro div_nat_eqI) simp_all
  moreover have "(of_nat ?n :: byte) = c" using byte_of_nat_shift [of "unat a * 256 + unat b" c] by (simp add: algebra_simps del: of_nat_add of_nat_mult)
  ultimately have "b64_bytes (?n div 262144 mod 64 # ?n div 4096 mod 64 # ?n div 64 mod 64 # ?n mod 64 # vs)
      = map_option (\<lambda>bs. a # b # c # bs) (b64_bytes vs)" for vs
    unfolding b64_bytes.simps d Let_def using byte_of_nat_shift [of "unat a" b]
    by (cases "b64_bytes vs") (simp_all del: of_nat_add of_nat_mult)
  with 4 show ?case by (auto simp: b64_decode_def Let_def bind_eq_Some_conv simp del: b64_bytes.simps)
qed (simp add: b64_decode_def)

subsection \<open>What a token proves\<close>

lemma split_on_dot_free: "c \<notin> set s \<Longrightarrow> split_on c s = [s]"
  by (induction s) auto

lemma split_on_append: "c \<notin> set s \<Longrightarrow> split_on c (s @ c # rest) = s # split_on c rest"
  by (induction s) auto

lemma split_on_not_Nil: "split_on c s \<noteq> []"
  by (induction s) (auto split: list.split)

lemma split_on_join: "split_on c s = p # ps \<Longrightarrow> s = p @ concat (map (\<lambda>q. c # q) ps)"
proof (induction s arbitrary: p ps)
  case (Cons x s)
  obtain q qs where q: "split_on c s = q # qs" using split_on_not_Nil by (cases "split_on c s") auto
  note s = Cons.IH [OF q]
  show ?case
  proof (cases "x = c")
    case True
    with Cons.prems q have "p = []" "ps = q # qs" by simp_all
    with True show ?thesis by (simp add: s [symmetric])
  next
    case False
    with Cons.prems q have "p = x # q" "ps = qs" by simp_all
    then show ?thesis by (simp add: s [symmetric])
  qed
qed simp

lemma Parse_Ok:
  assumes "Parse cdc v now token = Ok c"
  shows "\<exists>p0 p1 p2 hb h pb. token = p0 @ ''.'' @ p1 @ ''.'' @ p2 \<and> b64_decode p0 = Some hb \<and> decHeader cdc hb = Some h \<and> hdAlg h = ''HS256''
     \<and> b64_decode p2 = Some (mac v (p0 @ ''.'' @ p1)) \<and> b64_decode p1 = Some pb \<and> decClaims cdc pb = Some c \<and> check_times v now c = Ok c"
proof -
  from assms obtain p0 p1 p2 where p: "split_on (CHR ''.'') token = [p0, p1, p2]"
    by (auto simp: Parse_def split: list.splits)
  have "token = p0 @ ''.'' @ p1 @ ''.'' @ p2" using split_on_join [OF p] by simp
  moreover have "c' = c" if "check_times v now c' = Ok c" for c' using that by (auto simp: check_times_def Let_def split: if_splits)
  ultimately show ?thesis using assms p
    by (intro exI [of _ p0] exI [of _ p1] exI [of _ p2]) (auto simp: Parse_def split: option.splits if_splits)
qed

lemma Parse_Sign:
  assumes "decHeader cdc (encHeader cdc \<lparr>hdAlg = ''HS256'', hdTyp = ''JWT''\<rparr>) = Some \<lparr>hdAlg = ''HS256'', hdTyp = ''JWT''\<rparr>"
    and "decClaims cdc (encClaims cdc c) = Some c"
  shows "Parse cdc v now (Sign cdc v c) = check_times v now c"
proof -
  let ?h = "b64_encode (encHeader cdc \<lparr>hdAlg = ''HS256'', hdTyp = ''JWT''\<rparr>)" and ?p = "b64_encode (encClaims cdc c)"
  let ?m = "mac v (?h @ ''.'' @ ?p)"
  have "Sign cdc v c = ?h @ CHR ''.'' # ?p @ CHR ''.'' # b64_encode ?m" by (simp add: Sign_def Let_def)
  then have "split_on (CHR ''.'') (Sign cdc v c) = [?h, ?p, b64_encode ?m]"
    by (simp add: split_on_append split_on_dot_free dot_free_encode)
  with assms show ?thesis by (simp add: Parse_def b64_round_trip)
qed

lemma check_times_Ok:
  "check_times v now c = Ok c' \<longleftrightarrow> c' = c \<and> (clExpiresAt c = 0 \<or> now \<le> i64 (clExpiresAt c + go_div (vfLeeway v) (10 ^ 9)))
     \<and> (clNotBefore c = 0 \<or> i64 (clNotBefore c - go_div (vfLeeway v) (10 ^ 9)) \<le> now)"
  by (auto simp: check_times_def Let_def)

text \<open>C22. Tokens. A token that was signed with the secret is accepted exactly within its time window (with the leeway), and gives back its
  claims; and whatever is accepted has three segments, a header that says HS256 and, as its signature, the MAC of its own header and claims
  under the secret, so that a token with another algorithm or without a valid signature is refused.\<close>

theorem tokens_are_authentic:
  assumes "decHeader cdc (encHeader cdc \<lparr>hdAlg = ''HS256'', hdTyp = ''JWT''\<rparr>) = Some \<lparr>hdAlg = ''HS256'', hdTyp = ''JWT''\<rparr>"
    and "decClaims cdc (encClaims cdc c) = Some c"
  shows "(Parse cdc v now (Sign cdc v c) = Ok c \<longleftrightarrow>
       (clExpiresAt c = 0 \<or> now \<le> i64 (clExpiresAt c + go_div (vfLeeway v) (10 ^ 9)))
       \<and> (clNotBefore c = 0 \<or> i64 (clNotBefore c - go_div (vfLeeway v) (10 ^ 9)) \<le> now))
     \<and> (\<forall>token c'. Parse cdc v now token = Ok c' \<longrightarrow>
          (\<exists>p0 p1 p2 hb h. token = p0 @ ''.'' @ p1 @ ''.'' @ p2 \<and> b64_decode p0 = Some hb \<and> decHeader cdc hb = Some h \<and> hdAlg h = ''HS256''
             \<and> b64_decode p2 = Some (hmac_sha256 (vfSecret v) (bytes_of (p0 @ ''.'' @ p1)))))"
  using Parse_Sign [OF assms] Parse_Ok unfolding mac_def by (auto simp: check_times_Ok) blast

text \<open>A codec that knows one header and one claim set.\<close>

definition demo_claims :: Claims where
  "demo_claims = \<lparr>clSubject = ''s'', clIssuer = ''i'', clTenant = ''acme'', clRoles = [''worker''], clIssuedAt = 0, clNotBefore = 5, clExpiresAt = 10\<rparr>"

definition one_codec :: jwt_codec where
  "one_codec = \<lparr>encHeader = (\<lambda>_. [1]), encClaims = (\<lambda>_. [2, 3]),
     decHeader = (\<lambda>b. if b = [1] then Some \<lparr>hdAlg = ''HS256'', hdTyp = ''JWT''\<rparr> else None),
     decClaims = (\<lambda>b. if b = [2, 3] then Some demo_claims else None)\<rparr>"

theorem tokens_are_authentic_witness:
  "Parse one_codec (NewVerifier [7] (2 * 10 ^ 9)) 11 (Sign one_codec (NewVerifier [7] (2 * 10 ^ 9)) demo_claims) = Ok demo_claims
   \<and> Parse one_codec (NewVerifier [7] (2 * 10 ^ 9)) 13 (Sign one_codec (NewVerifier [7] (2 * 10 ^ 9)) demo_claims) \<noteq> Ok demo_claims"
proof -
  have "decHeader one_codec (encHeader one_codec \<lparr>hdAlg = ''HS256'', hdTyp = ''JWT''\<rparr>) = Some \<lparr>hdAlg = ''HS256'', hdTyp = ''JWT''\<rparr>"
    "decClaims one_codec (encClaims one_codec demo_claims) = Some demo_claims" by (simp_all add: one_codec_def)
  note t = tokens_are_authentic [OF this, THEN conjunct1]
  have "go_div (vfLeeway (NewVerifier [7] (2 * 10 ^ 9))) (10 ^ 9) = 2" by (simp add: NewVerifier_def go_div_def)
  then show ?thesis unfolding t by (simp add: demo_claims_def)
qed

end
