(* ===== verification/Rpc.thy ===== *)
theory Rpc
  imports Coordinator Auth Quota
begin

section \<open>The gRPC control plane\<close>

text \<open>
  \<^verbatim>\<open>internal/rpc\<close>: the interceptor that authenticates, authorizes and rate-limits every call, and the service that translates between
  the protobuf messages and the scheduler. \<^verbatim>\<open>startGRPC\<close> in \<^verbatim>\<open>cmd/coordinator/main.go\<close> puts the service on the coordinator's
  scheduler, so a call acts on the coordinator of theory \<open>Coordinator\<close>. The protobuf messages are records with the fields that
  \<^verbatim>\<open>server.go\<close> sets; \<^verbatim>\<open>int32\<close> conversions wrap.
\<close>

subsection \<open>Status codes\<close>

datatype code = Unauthenticated | PermissionDenied | ResourceExhausted | InvalidArgument | NotFound | Internal | Canceled

datatype 'a rpc = RpcOk 'a | RpcErr code string

subsection \<open>The interceptor\<close>

record AuthInterceptor =
  icVerifier :: Verifier
  icPolicy :: Policy
  icLimiter :: "Limiter option"
  icPerms :: "(string, Permission) gomap"

definition svc :: string where
  "svc = ''/coordinator.v1.Coordinator/''"

definition NewAuthInterceptor :: "Verifier \<Rightarrow> Policy \<Rightarrow> Limiter option \<Rightarrow> AuthInterceptor" where
  "NewAuthInterceptor v p l = \<lparr>icVerifier = v, icPolicy = p, icLimiter = l,
     icPerms = [(svc @ ''SubmitJob'', PermJobSubmit), (svc @ ''GetJob'', PermJobRead), (svc @ ''ListJobs'', PermJobRead),
       (svc @ ''WatchJob'', PermJobRead), (svc @ ''PollTasks'', PermTaskLease), (svc @ ''StartTask'', PermTaskLease),
       (svc @ ''ReportResult'', PermTaskReport)]\<rparr>"

text \<open>\<^verbatim>\<open>strings.CutPrefix\<close>.\<close>

definition cut_prefix :: "string \<Rightarrow> string \<Rightarrow> string option" where
  "cut_prefix p s = (if take (length p) s = p then Some (drop (length p) s) else None)"

text \<open>\<open>md\<close> holds the values of the \<^verbatim>\<open>authorization\<close> header, when the context carries metadata.\<close>

definition authenticate :: "jwt_codec \<Rightarrow> int \<Rightarrow> string list option \<Rightarrow> AuthInterceptor \<Rightarrow> Claims rpc" where
  "authenticate jc now md ic =
     (case md of
        None \<Rightarrow> RpcErr Unauthenticated ''missing metadata''
      | Some [] \<Rightarrow> RpcErr Unauthenticated ''missing authorization''
      | Some (val # _) \<Rightarrow>
          (case cut_prefix ''Bearer '' val of
             None \<Rightarrow> RpcErr Unauthenticated ''authorization must be a Bearer token''
           | Some token \<Rightarrow>
               (case Parse jc (icVerifier ic) now token of
                  Ok claims \<Rightarrow> RpcOk claims
                | Err e \<Rightarrow> RpcErr Unauthenticated (''invalid token: '' @ e)
                | Panic \<Rightarrow> RpcErr Internal [])))"

definition gate :: "jwt_codec \<Rightarrow> int \<Rightarrow> int \<Rightarrow> string list option \<Rightarrow> string \<Rightarrow> AuthInterceptor \<Rightarrow> Claims rpc \<times> AuthInterceptor" where
  "gate jc unix now md fullMethod ic =
     (case authenticate jc unix md ic of
        RpcErr c e \<Rightarrow> (RpcErr c e, ic)
      | RpcOk claims \<Rightarrow>
          (case map_of (icPerms ic) fullMethod of
             None \<Rightarrow> (RpcErr PermissionDenied (''no policy for method '' @ fullMethod), ic)
           | Some perm \<Rightarrow>
               if \<not> Authorize (icPolicy ic) (Some claims) perm
               then (RpcErr PermissionDenied (''tenant '' @ quote (clTenant claims) @ '' not permitted: '' @ perm), ic)
               else (case icLimiter ic of
                       None \<Rightarrow> (RpcOk claims, ic)
                     | Some l \<Rightarrow>
                         (case Quota.Allow now (clTenant claims) l of
                            (ok, l') \<Rightarrow>
                              (if ok then RpcOk claims
                               else RpcErr ResourceExhausted (''rate limit exceeded for tenant '' @ quote (clTenant claims)),
                               ic\<lparr>icLimiter := Some l'\<rparr>)))))"

subsection \<open>Messages\<close>

record pbSubmit =
  psDataset :: string
  psAlgorithm :: string
  psConfig :: "(string, string) gomap"
  psShards :: "string list"

record pbJob =
  pjId :: string
  pjDataset :: string
  pjAlgorithm :: string
  pjConfig :: "(string, string) gomap"
  pjStatus :: string
  pjShards :: "string list"
  pjTotalTasks :: int
  pjDoneTasks :: int
  pjFailedTasks :: int
  pjCreatedAt :: int
  pjStartedAt :: int
  pjFinishedAt :: int
  pjError :: string

record pbAssignment =
  paTaskId :: string
  paJobId :: string
  paShard :: string
  paDataset :: string
  paAlgorithm :: string
  paConfig :: "(string, string) gomap"

fun status_string :: "JobStatus \<Rightarrow> string" where
  "status_string JobPending = ''pending''"
| "status_string JobRunning = ''running''"
| "status_string JobCompleted = ''completed''"
| "status_string JobFailed = ''failed''"
| "status_string JobCancelled = ''cancelled''"

definition unixNano :: "int option \<Rightarrow> int" where
  "unixNano t = (case t of None \<Rightarrow> 0 | Some ns \<Rightarrow> ns)"

definition jobToProto :: "Job \<Rightarrow> pbJob" where
  "jobToProto j = \<lparr>pjId = jID j, pjDataset = jDataset j, pjAlgorithm = jAlgorithm j, pjConfig = jConfig j, pjStatus = status_string (jStatus j),
     pjShards = jShards j, pjTotalTasks = i32 (jTotalTasks j), pjDoneTasks = i32 (jDoneTasks j), pjFailedTasks = i32 (jFailedTasks j),
     pjCreatedAt = unixNano (Some (jCreatedAt j)), pjStartedAt = unixNano (jStartedAt j), pjFinishedAt = unixNano (jFinishedAt j),
     pjError = jError j\<rparr>"

definition assignmentToProto :: "TaskAssignment option \<Rightarrow> pbAssignment option" where
  "assignmentToProto a = map_option (\<lambda>a. \<lparr>paTaskId = aTaskID a, paJobId = aJobID a, paShard = aShard a, paDataset = aDataset a,
     paAlgorithm = aAlgorithm a, paConfig = aConfig a\<rparr>) a"

fun isTerminal :: "JobStatus \<Rightarrow> bool" where
  "isTerminal JobCompleted = True"
| "isTerminal JobFailed = True"
| "isTerminal JobCancelled = True"
| "isTerminal _ = False"

fun statusOrd :: "JobStatus \<Rightarrow> int" where
  "statusOrd JobPending = 0"
| "statusOrd JobRunning = 1"
| "statusOrd JobCompleted = 2"
| "statusOrd JobFailed = 3"
| "statusOrd JobCancelled = 4"

definition jobSignature :: "Job \<Rightarrow> int \<times> int \<times> int \<times> int" where
  "jobSignature j = (statusOrd (jStatus j), jDoneTasks j, jFailedTasks j, jTotalTasks j)"

datatype pb_request = QSubmit pbSubmit | QGetJob string | QListJobs | QPoll string | QStart string string | QReport string ResultRequest

datatype pb_response = PSubmitted string int | PJob pbJob | PJobs "pbJob list" | PPoll "pbAssignment option" bool | PStarted | PReported

subsection \<open>The service\<close>

definition rpc_SubmitJob :: "'b codec \<Rightarrow> input \<Rightarrow> pbSubmit \<Rightarrow> ('o, 'd, 'e) Coordinator \<Rightarrow> pb_response rpc \<times> ('o, 'd, 'e) Coordinator" where
  "rpc_SubmitJob cdc i req c =
     (case Submit (inNow i) (inUuid i) \<lparr>sbDataset = psDataset req, sbAlgorithm = psAlgorithm req, sbConfig = psConfig req,
         sbShards = psShards req, sbPriority = 0\<rparr> (coSched c) of
        (job, s') \<Rightarrow> (RpcOk (PSubmitted (jID job) (i32 (jTotalTasks job))), sched_update cdc (inFault i) s' c))"

definition rpc_GetJob :: "string \<Rightarrow> ('o, 'd, 'e) Coordinator \<Rightarrow> pb_response rpc \<times> ('o, 'd, 'e) Coordinator" where
  "rpc_GetJob k c =
     ((case GetJob k (coSched c) of Ok j \<Rightarrow> RpcOk (PJob (jobToProto j)) | Err e \<Rightarrow> RpcErr NotFound e | Panic \<Rightarrow> RpcErr Internal []), c)"

definition rpc_ListJobs :: "('o, 'd, 'e) Coordinator \<Rightarrow> pb_response rpc \<times> ('o, 'd, 'e) Coordinator" where
  "rpc_ListJobs c = (RpcOk (PJobs (map jobToProto (ListJobs (coSched c)))), c)"

definition rpc_PollTasks :: "'b codec \<Rightarrow> input \<Rightarrow> string \<Rightarrow> ('o, 'd, 'e) Coordinator \<Rightarrow> pb_response rpc \<times> ('o, 'd, 'e) Coordinator" where
  "rpc_PollTasks cdc i w c =
     (if w = [] then (RpcErr InvalidArgument ''worker_id required'', c)
      else case PollTasks (inNow i) (inUuid i 0) (mring (coMembership c)) w (coSched c) of
             Ok (a, s') \<Rightarrow> (RpcOk (PPoll (assignmentToProto a) (a \<noteq> None)), sched_update cdc (inFault i) s' c)
           | Err e \<Rightarrow> (RpcErr Internal e, c)
           | Panic \<Rightarrow> (RpcErr Internal [], c))"

definition rpc_StartTask :: "'b codec \<Rightarrow> input \<Rightarrow> string \<Rightarrow> string \<Rightarrow> ('o, 'd, 'e) Coordinator \<Rightarrow> pb_response rpc \<times> ('o, 'd, 'e) Coordinator" where
  "rpc_StartTask cdc i t w c =
     (case StartTask (inNow i) t w (coSched c) of
        Ok s' \<Rightarrow> (RpcOk PStarted, sched_update cdc (inFault i) s' c)
      | Err e \<Rightarrow> (RpcErr NotFound e, c)
      | Panic \<Rightarrow> (RpcErr Internal [], c))"

definition rpc_ReportResult :: "'b codec \<Rightarrow> input \<Rightarrow> string \<Rightarrow> ResultRequest \<Rightarrow> ('o, 'd, 'e) Coordinator \<Rightarrow> pb_response rpc \<times> ('o, 'd, 'e) Coordinator" where
  "rpc_ReportResult cdc i t req c =
     (case ReportResult (coEnv c) (inNow i) t req (coWorld c, coSched c) of
        (pc, w', s') \<Rightarrow>
          let c1 = sched_update cdc (inFault i) s' (c\<lparr>coWorld := w'\<rparr>)
          in (case pc of
                RReturn (Ok _) \<Rightarrow> (RpcOk PReported, c1)
              | RReturn (Err e) \<Rightarrow> (RpcErr NotFound e, c1)
              | _ \<Rightarrow> (RpcErr Internal [], c1)))"

fun method_name :: "pb_request \<Rightarrow> string" where
  "method_name (QSubmit _) = svc @ ''SubmitJob''"
| "method_name (QGetJob _) = svc @ ''GetJob''"
| "method_name QListJobs = svc @ ''ListJobs''"
| "method_name (QPoll _) = svc @ ''PollTasks''"
| "method_name (QStart _ _) = svc @ ''StartTask''"
| "method_name (QReport _ _) = svc @ ''ReportResult''"

fun handler :: "'b codec \<Rightarrow> input \<Rightarrow> pb_request \<Rightarrow> ('o, 'd, 'e) Coordinator \<Rightarrow> pb_response rpc \<times> ('o, 'd, 'e) Coordinator" where
  "handler cdc i (QSubmit r) c = rpc_SubmitJob cdc i r c"
| "handler cdc i (QGetJob k) c = rpc_GetJob k c"
| "handler cdc i QListJobs c = rpc_ListJobs c"
| "handler cdc i (QPoll w) c = rpc_PollTasks cdc i w c"
| "handler cdc i (QStart t w) c = rpc_StartTask cdc i t w c"
| "handler cdc i (QReport t r) c = rpc_ReportResult cdc i t r c"

text \<open>A unary call: the interceptor, then the handler of the method. The clock of the limiter is the coordinator's.\<close>

definition Unary ::
  "jwt_codec \<Rightarrow> 'b codec \<Rightarrow> input \<Rightarrow> int \<Rightarrow> string list option \<Rightarrow> pb_request \<Rightarrow> AuthInterceptor \<times> ('o, 'd, 'e) Coordinator
     \<Rightarrow> pb_response rpc \<times> AuthInterceptor \<times> ('o, 'd, 'e) Coordinator" where
  "Unary jc cdc i unix md req = (\<lambda>(ic, c).
     (case gate jc unix (inNow i) md (method_name req) ic of
        (RpcErr code e, ic') \<Rightarrow> (RpcErr code e, ic', c)
      | (RpcOk claims, ic') \<Rightarrow> (case handler cdc i req c of (res, c') \<Rightarrow> (res, ic', c'))))"

subsection \<open>Watching a job\<close>

text \<open>\<^verbatim>\<open>WatchJob\<close> after its first frame: \<open>obs\<close> are the ticks until the client goes away, each with the answer of
  \<^verbatim>\<open>GetJob\<close> and the error of sending on the stream, if it fails. The result is the frames the client gets and how the call ended.\<close>

fun watch_loop :: "int \<times> int \<times> int \<times> int \<Rightarrow> (Job outcome \<times> (code \<times> string) option) list \<Rightarrow> pbJob list \<times> unit rpc" where
  "watch_loop prev [] = ([], RpcErr Canceled [])"
| "watch_loop prev ((Ok job, send) # obs) =
     (let sig = jobSignature job
      in if sig = prev then watch_loop prev obs
         else case send of
                Some (code, e) \<Rightarrow> ([], RpcErr code e)
              | None \<Rightarrow>
                  if isTerminal (jStatus job) then ([jobToProto job], RpcOk ())
                  else case watch_loop sig obs of (fs, r) \<Rightarrow> (jobToProto job # fs, r))"
| "watch_loop prev ((Err e, send) # obs) = ([], RpcErr NotFound e)"
| "watch_loop prev ((Panic, send) # obs) = ([], RpcErr Internal [])"

definition WatchJob :: "Job outcome \<times> (code \<times> string) option \<Rightarrow> (Job outcome \<times> (code \<times> string) option) list \<Rightarrow> pbJob list \<times> unit rpc" where
  "WatchJob first rest =
     (case first of
        (Ok job, Some (code, e)) \<Rightarrow> ([], RpcErr code e)
      | (Ok job, None) \<Rightarrow>
          if isTerminal (jStatus job) then ([jobToProto job], RpcOk ())
          else (case watch_loop (jobSignature job) rest of (fs, r) \<Rightarrow> (jobToProto job # fs, r))
      | (Err e, _) \<Rightarrow> ([], RpcErr NotFound e)
      | (Panic, _) \<Rightarrow> ([], RpcErr Internal []))"

text \<open>The streaming interceptor: the same gate, then the handler.\<close>

definition Stream ::
  "jwt_codec \<Rightarrow> int \<Rightarrow> int \<Rightarrow> string list option \<Rightarrow> Job outcome \<times> (code \<times> string) option \<Rightarrow> (Job outcome \<times> (code \<times> string) option) list
     \<Rightarrow> AuthInterceptor \<Rightarrow> (pbJob list \<times> unit rpc) \<times> AuthInterceptor" where
  "Stream jc unix now md first rest ic =
     (case gate jc unix now md (svc @ ''WatchJob'') ic of
        (RpcErr code e, ic') \<Rightarrow> (([], RpcErr code e), ic')
      | (RpcOk claims, ic') \<Rightarrow> (WatchJob first rest, ic'))"

subsection \<open>Who may call what\<close>

lemma cut_prefix_Some: "cut_prefix p s = Some t \<longleftrightarrow> s = p @ t"
  by (auto simp: cut_prefix_def) (metis append_take_drop_id)

lemma cut_prefix_None: "cut_prefix p s = None \<longleftrightarrow> (\<forall>t. s \<noteq> p @ t)"
  using cut_prefix_Some by (metis option.distinct(1) option.exhaust)

lemma Parse_total: "Parse cdc v now token \<noteq> Panic"
  by (auto simp: Parse_def check_times_def Let_def split: list.splits option.splits if_splits)

text \<open>The roles that the default policy lets through, per method.\<close>

fun allowed_roles :: "pb_request \<Rightarrow> string set" where
  "allowed_roles (QSubmit _) = {''operator'', ''admin''}"
| "allowed_roles (QGetJob _) = {''worker'', ''viewer'', ''operator'', ''admin''}"
| "allowed_roles QListJobs = {''worker'', ''viewer'', ''operator'', ''admin''}"
| "allowed_roles (QPoll _) = {''worker'', ''admin''}"
| "allowed_roles (QStart _ _) = {''worker'', ''admin''}"
| "allowed_roles (QReport _ _) = {''worker'', ''admin''}"

lemma default_permission:
  assumes "map_of (icPerms (NewAuthInterceptor v DefaultPolicy l)) (method_name req) = Some perm"
  shows "Authorize DefaultPolicy (Some claims) perm \<longleftrightarrow> set (clRoles claims) \<inter> allowed_roles req \<noteq> {}"
proof -
  have "(\<exists>g. map_of (Policy.grants DefaultPolicy) role = Some g \<and> (wildcard \<in> set g \<or> perm \<in> set g)) \<longleftrightarrow> role \<in> allowed_roles req" for role
    using assms by (cases req) (auto simp: NewAuthInterceptor_def svc_def DefaultPolicy_roles perm_defs wildcard_def)
  then show ?thesis by (auto simp: Authorize_def Allow_iff)
qed

lemma every_method_has_a_permission: "\<exists>perm. map_of (icPerms (NewAuthInterceptor v p l)) (method_name req) = Some perm"
  by (cases req) (simp_all add: NewAuthInterceptor_def svc_def)

text \<open>What the gate asks of a caller.\<close>

definition cleared :: "jwt_codec \<Rightarrow> Verifier \<Rightarrow> int \<Rightarrow> int \<Rightarrow> string list option \<Rightarrow> pb_request \<Rightarrow> Limiter option \<Rightarrow> bool" where
  "cleared jc v unix now md req l \<longleftrightarrow>
     (\<exists>token rest claims. md = Some ((''Bearer '' @ token) # rest) \<and> Parse jc v unix token = Ok claims
        \<and> set (clRoles claims) \<inter> allowed_roles req \<noteq> {}
        \<and> (case l of None \<Rightarrow> True | Some bucket \<Rightarrow> fst (Quota.Allow now (clTenant claims) bucket)))"

lemma gate_outcome:
  "case gate jc unix now md (method_name req) (NewAuthInterceptor v DefaultPolicy l) of
     (RpcOk claims, _) \<Rightarrow> cleared jc v unix now md req l
   | (RpcErr code e, _) \<Rightarrow> \<not> cleared jc v unix now md req l \<and> code \<in> {Unauthenticated, PermissionDenied, ResourceExhausted}"
proof -
  let ?ic = "NewAuthInterceptor v DefaultPolicy l"
  obtain perm where perm: "map_of (icPerms ?ic) (method_name req) = Some perm" using every_method_has_a_permission by blast
  note roles = default_permission [OF perm]
  have [simp]: "icVerifier ?ic = v" "icPolicy ?ic = DefaultPolicy" "icLimiter ?ic = l" by (simp_all add: NewAuthInterceptor_def)
  show ?thesis
  proof (cases "authenticate jc unix md ?ic")
    case (RpcErr code e)
    then have "code = Unauthenticated" "\<not> cleared jc v unix now md req l"
      by (auto simp: authenticate_def cleared_def cut_prefix_None cut_prefix_Some Parse_total split: option.splits list.splits outcome.splits)
    with RpcErr show ?thesis by (simp add: gate_def)
  next
    case (RpcOk claims)
    then obtain token rest where tok: "md = Some ((''Bearer '' @ token) # rest)" "Parse jc v unix token = Ok claims"
      by (auto simp: authenticate_def cut_prefix_Some split: option.splits list.splits outcome.splits)
    then have "cleared jc v unix now md req l \<longleftrightarrow> set (clRoles claims) \<inter> allowed_roles req \<noteq> {}
        \<and> (case l of None \<Rightarrow> True | Some bucket \<Rightarrow> fst (Quota.Allow now (clTenant claims) bucket))"
      by (auto simp: cleared_def)
    with RpcOk show ?thesis
      by (auto simp: gate_def perm roles split: option.splits prod.splits)
  qed
qed

text \<open>C23. Access to the control plane. Behind the interceptor of \<^verbatim>\<open>startGRPC\<close>, a unary call runs its handler exactly when the
  first authorization header is a bearer token that the verifier accepts, one of the roles it names is one the default policy lets through for
  the method, and the tenant's bucket has a token; every other call is refused with one of the three gate codes and changes nothing in the
  coordinator.\<close>

theorem rpc_needs_permission:
  "case Unary jc cdc i unix md req (NewAuthInterceptor v DefaultPolicy l, c) of
     (res, ic', c') \<Rightarrow>
       if cleared jc v unix (inNow i) md req l then (res, c') = handler cdc i req c
       else c' = c \<and> (\<exists>code e. res = RpcErr code e \<and> code \<in> {Unauthenticated, PermissionDenied, ResourceExhausted})"
  using gate_outcome [where jc = jc and unix = unix and now = "inNow i" and md = md and req = req and v = v and l = l]
  by (auto simp: Unary_def split: prod.splits rpc.splits)

subsection \<open>A watched job\<close>

text \<open>Consecutive frames differ in the fields the client watches, and the stream ends cleanly only on a terminal frame.\<close>

lemma watch_loop_ends:
  "watch_loop prev obs = (fs, RpcOk ()) \<Longrightarrow>
     \<exists>job. fs \<noteq> [] \<and> List.last fs = jobToProto job \<and> isTerminal (jStatus job) \<and> (\<exists>send. (Ok job, send) \<in> set obs)"
proof (induction obs arbitrary: prev fs)
  case (Cons o1 obs)
  show ?case
  proof (cases o1)
    case (Pair res send)
    show ?thesis
    proof (cases res)
      case (Ok job)
      consider "jobSignature job = prev" | "jobSignature job \<noteq> prev" "isTerminal (jStatus job)" | "jobSignature job \<noteq> prev" "\<not> isTerminal (jStatus job)"
        by blast
      then show ?thesis
      proof cases
        case 1
        then show ?thesis using Cons.IH [of prev fs] Cons.prems Pair Ok by auto
      next
        case 2
        then show ?thesis using Cons.prems Pair Ok by (auto simp: Let_def split: option.splits)
      next
        case 3
        with Cons.prems Pair Ok obtain fs' where "watch_loop (jobSignature job) obs = (fs', RpcOk ())" "fs = jobToProto job # fs'"
          by (auto simp: Let_def split: option.splits prod.splits)
        with Cons.IH [of "jobSignature job" fs'] Pair Ok show ?thesis by auto
      qed
    qed (use Cons.prems Pair in auto)
  qed
qed simp

subsection \<open>What the gRPC surface loses\<close>

text \<open>The assignment a gRPC worker gets has neither the range of its lease nor its generation: two leases of the same task that cover
  different parts of the shard look alike.\<close>

lemma assignment_range_is_dropped:
  "assignmentToProto (Some (a\<lparr>aRangeStart := x, aRangeEnd := y\<rparr>)) = assignmentToProto (Some a)"
  by (simp add: assignmentToProto_def)

text \<open>A job submitted over gRPC is not asked of the admission controller.\<close>

lemma grpc_submit_is_not_admitted:
  "fst (rpc_SubmitJob cdc i req c) = RpcOk (PSubmitted (jID job) (i32 (jTotalTasks job)))"
  if "Submit (inNow i) (inUuid i) \<lparr>sbDataset = psDataset req, sbAlgorithm = psAlgorithm req, sbConfig = psConfig req,
         sbShards = psShards req, sbPriority = 0\<rparr> (coSched c) = (job, s')"
  using that by (simp add: rpc_SubmitJob_def)

end
