(* ===== verification/Runs.thy ===== *)
theory Runs
  imports Main
begin

section \<open>Runs of step relations\<close>

text \<open>
  What the components that are written as several goroutines share: a step relation whose every step lowers a weight has only
  finite runs, and when a state that keeps an invariant is either final or has a step, every run of it can only stop in a final
  state. The components prove the laws for their own steps and use the lemmas through an interpretation.
\<close>

subsection \<open>Weights of lists of goroutines\<close>

lemma sum_list_swap:
  fixes f :: "'a \<Rightarrow> 'b :: comm_monoid_add"
  shows "i < length xs \<Longrightarrow> sum_list (map f (xs[i := x])) + f (xs ! i) = sum_list (map f xs) + f x"
proof (induction xs arbitrary: i)
  case (Cons y ys)
  show ?case
  proof (cases i)
    case 0
    then show ?thesis by (simp add: add_ac)
  next
    case (Suc j)
    with Cons have "sum_list (map f (ys[j := x])) + f (ys ! j) = sum_list (map f ys) + f x" by simp
    with Suc show ?thesis by (simp add: add.assoc)
  qed
qed simp

subsection \<open>Steps that lower a weight\<close>

locale weighted_steps =
  fixes step :: "'s \<Rightarrow> 's \<Rightarrow> bool" and weight :: "'s \<Rightarrow> nat"
  assumes lowers: "step s s' \<Longrightarrow> weight s' < weight s"
begin

lemma finite_runs: "wfp (\<lambda>s' s. step s s')"
  by (rule wfp_if_convertible_to_nat [where f = weight]) (rule lowers)

lemma run_to_end: "\<exists>s'. step\<^sup>*\<^sup>* s s' \<and> (\<nexists>t. step s' t)"
  using finite_runs
proof (induction s rule: wfp_induct_rule)
  case (less s)
  then show ?case by (metis converse_rtranclp_into_rtranclp rtranclp.rtrancl_refl)
qed

end

subsection \<open>Invariants and progress\<close>

locale live_steps = weighted_steps step weight for step :: "'s \<Rightarrow> 's \<Rightarrow> bool" and weight +
  fixes inv :: "'s \<Rightarrow> bool" and final :: "'s \<Rightarrow> bool"
  assumes keeps: "step s s' \<Longrightarrow> inv s \<Longrightarrow> inv s'"
    and moves: "inv s \<Longrightarrow> \<not> final s \<Longrightarrow> \<exists>s'. step s s'"
begin

lemma run_keeps: "step\<^sup>*\<^sup>* s s' \<Longrightarrow> inv s \<Longrightarrow> inv s'"
  by (induction rule: rtranclp_induct) (auto intro: keeps)

lemma stops_final: "step\<^sup>*\<^sup>* s s' \<Longrightarrow> inv s \<Longrightarrow> (\<nexists>t. step s' t) \<Longrightarrow> final s'"
  using run_keeps moves by blast

lemma reaches_final: "inv s \<Longrightarrow> \<exists>s'. step\<^sup>*\<^sup>* s s' \<and> final s'"
  using run_to_end [of s] stops_final by blast

end

end
