(* ===== verification/Multipart.thy ===== *)
theory Multipart
  imports Prelude Runs "HOL-Library.Multiset" "HOL-Library.Word"
begin

section \<open>Multipart uploads\<close>

text \<open>
  \<^verbatim>\<open>internal/storage/multipart.go\<close>: a reader is cut into parts that several goroutines upload; the calling goroutine first reads and
  queues every part and only then collects the results. The goroutines and their three buffered channels are a step relation: one
  step is one channel operation, one call of the store or one read. The store is a parameter. A reader is the bytes it
  still gives and the error it ends with, \<open>None\<close> for \<^verbatim>\<open>io.EOF\<close>. The concurrency is a natural number (a negative one panics in \<^verbatim>\<open>make\<close>);
  the part number is an \<^verbatim>\<open>int32\<close>.
\<close>

subsection \<open>Readers\<close>

record reader =
  rdBytes :: "8 word list"
  rdErr :: "string option"

datatype read_status = More | AtEOF | ReadFailed string

text \<open>\<^verbatim>\<open>io.ReadFull\<close> into a buffer of the given length; \<open>AtEOF\<close> stands for \<^verbatim>\<open>io.EOF\<close> and \<^verbatim>\<open>io.ErrUnexpectedEOF\<close>.\<close>

definition ReadFull :: "nat \<Rightarrow> reader \<Rightarrow> 8 word list \<times> read_status \<times> reader" where
  "ReadFull n r =
     (if n \<le> length (rdBytes r) then (take n (rdBytes r), More, r\<lparr>rdBytes := drop n (rdBytes r)\<rparr>)
      else (rdBytes r, (case rdErr r of None \<Rightarrow> AtEOF | Some e \<Rightarrow> ReadFailed e), r\<lparr>rdBytes := []\<rparr>))"

text \<open>\<^verbatim>\<open>bytesReader\<close>, the body of a part. A read of at most \<open>n\<close> bytes gives \<open>None\<close> at the end.\<close>

record bytesReader =
  brData :: "8 word list"
  brPos :: nat

definition newBytesReader :: "8 word list \<Rightarrow> bytesReader" where
  "newBytesReader data = \<lparr>brData = data, brPos = 0\<rparr>"

definition bytesReader_Read :: "nat \<Rightarrow> bytesReader \<Rightarrow> 8 word list option \<times> bytesReader" where
  "bytesReader_Read n b =
     (if brPos b \<ge> length (brData b) then (None, b)
      else let got = take n (drop (brPos b) (brData b)) in (Some got, b\<lparr>brPos := brPos b + length got\<rparr>))"

subsection \<open>State\<close>

datatype worker =
    Idle
  | Uploading int "8 word list"
  | SendPart int string
  | SendErr string
  | Exited

datatype main_pc =
    Reading
  | Sending "8 word list" read_status
  | Failing string
  | Closing
  | Selecting
  | Collecting
  | Returned "string option"

record part_service =
  svCreate :: "string option"
  svUpload :: "int \<Rightarrow> 8 word list \<Rightarrow> string outcome"
  svComplete :: "(int \<times> string) list \<Rightarrow> string option"

record Upload =
  upReader :: reader
  upPc :: main_pc
  upPart :: int
  upWork :: "(int \<times> 8 word list) list"
  upClosed :: bool
  upWorkers :: "worker list"
  upResults :: "(int \<times> string) list"
  upErrs :: "string list"
  upParts :: "(int \<times> string) list"
  upAborts :: nat
  upCompleted :: "(int \<times> string) list option"

definition MultipartUpload :: "part_service \<Rightarrow> nat \<Rightarrow> reader \<Rightarrow> Upload" where
  "MultipartUpload svc concurrency r =
     \<lparr>upReader = r, upPc = (case svCreate svc of None \<Rightarrow> Reading | Some e \<Rightarrow> Returned (Some (''create multipart upload: '' @ e))),
      upPart = 1, upWork = [], upClosed = False, upWorkers = replicate concurrency Idle, upResults = [], upErrs = [], upParts = [],
      upAborts = 0, upCompleted = None\<rparr>"

subsection \<open>Steps\<close>

definition after_read :: "read_status \<Rightarrow> main_pc" where
  "after_read st = (case st of More \<Rightarrow> Reading | AtEOF \<Rightarrow> Closing | ReadFailed e \<Rightarrow> Failing e)"

definition do_read :: "nat \<Rightarrow> Upload \<Rightarrow> Upload" where
  "do_read chunkSize u =
     (case ReadFull chunkSize (upReader u) of
        (chunk, st, r) \<Rightarrow> u\<lparr>upReader := r, upPc := if chunk \<noteq> [] then Sending chunk st else after_read st\<rparr>)"

definition do_send :: "8 word list \<Rightarrow> read_status \<Rightarrow> Upload \<Rightarrow> Upload" where
  "do_send chunk st u = u\<lparr>upWork := upWork u @ [(upPart u, chunk)], upPart := i32 (upPart u + 1), upPc := after_read st\<rparr>"

definition do_complete :: "part_service \<Rightarrow> Upload \<Rightarrow> Upload" where
  "do_complete svc u =
     (let completed = sort_key fst (upParts u)
      in (case svComplete svc completed of
            Some e \<Rightarrow> u\<lparr>upAborts := upAborts u + 1, upPc := Returned (Some (''complete multipart upload: '' @ e))\<rparr>
          | None \<Rightarrow> u\<lparr>upCompleted := Some completed, upPc := Returned None\<rparr>))"

definition set_worker :: "nat \<Rightarrow> worker \<Rightarrow> Upload \<Rightarrow> Upload" where
  "set_worker i w u = u\<lparr>upWorkers := (upWorkers u)[i := w]\<rparr>"

definition part_error :: "int \<Rightarrow> string \<Rightarrow> string" where
  "part_error num e = ''upload part '' @ fmt_d num @ '': '' @ e"

inductive up_step :: "part_service \<Rightarrow> nat \<Rightarrow> nat \<Rightarrow> Upload \<Rightarrow> Upload \<Rightarrow> bool" for svc chunkSize c where
  read: "upPc u = Reading \<Longrightarrow> up_step svc chunkSize c u (do_read chunkSize u)"
| send: "upPc u = Sending chunk st \<Longrightarrow> length (upWork u) < c \<Longrightarrow> up_step svc chunkSize c u (do_send chunk st u)"
| fail: "upPc u = Failing e \<Longrightarrow>
    up_step svc chunkSize c u (u\<lparr>upClosed := True, upAborts := upAborts u + 1, upPc := Returned (Some (''read input: '' @ e))\<rparr>)"
| close: "upPc u = Closing \<Longrightarrow> up_step svc chunkSize c u (u\<lparr>upClosed := True, upPc := Selecting\<rparr>)"
| select_err: "upPc u = Selecting \<Longrightarrow> upErrs u = e # es \<Longrightarrow>
    up_step svc chunkSize c u (u\<lparr>upErrs := es, upAborts := upAborts u + 1, upPc := Returned (Some e)\<rparr>)"
| select_default: "upPc u = Selecting \<Longrightarrow> upErrs u = [] \<Longrightarrow> up_step svc chunkSize c u (u\<lparr>upPc := Collecting\<rparr>)"
| collect: "upPc u = Collecting \<Longrightarrow> upResults u = p # ps \<Longrightarrow>
    up_step svc chunkSize c u (u\<lparr>upResults := ps, upParts := upParts u @ [p]\<rparr>)"
| finish: "upPc u = Collecting \<Longrightarrow> upResults u = [] \<Longrightarrow> \<forall>w \<in> set (upWorkers u). w = Exited \<Longrightarrow>
    up_step svc chunkSize c u (do_complete svc u)"
| recv: "i < length (upWorkers u) \<Longrightarrow> upWorkers u ! i = Idle \<Longrightarrow> upWork u = (num, data) # ws \<Longrightarrow>
    up_step svc chunkSize c u (set_worker i (Uploading num data) (u\<lparr>upWork := ws\<rparr>))"
| leave: "i < length (upWorkers u) \<Longrightarrow> upWorkers u ! i = Idle \<Longrightarrow> upWork u = [] \<Longrightarrow> upClosed u \<Longrightarrow>
    up_step svc chunkSize c u (set_worker i Exited u)"
| upload_ok: "i < length (upWorkers u) \<Longrightarrow> upWorkers u ! i = Uploading num data \<Longrightarrow> svUpload svc num data = Ok etag \<Longrightarrow>
    up_step svc chunkSize c u (set_worker i (SendPart num etag) u)"
| upload_err: "i < length (upWorkers u) \<Longrightarrow> upWorkers u ! i = Uploading num data \<Longrightarrow> svUpload svc num data = Err e \<Longrightarrow>
    up_step svc chunkSize c u (set_worker i (SendErr (part_error num e)) u)"
| send_part: "i < length (upWorkers u) \<Longrightarrow> upWorkers u ! i = SendPart num etag \<Longrightarrow> length (upResults u) < c \<Longrightarrow>
    up_step svc chunkSize c u (set_worker i Idle (u\<lparr>upResults := upResults u @ [(num, etag)]\<rparr>))"
| send_err: "i < length (upWorkers u) \<Longrightarrow> upWorkers u ! i = SendErr e \<Longrightarrow> length (upErrs u) < c \<Longrightarrow>
    up_step svc chunkSize c u (set_worker i Exited (u\<lparr>upErrs := upErrs u @ [e]\<rparr>))"

lemmas step_defs = do_read_def do_send_def do_complete_def set_worker_def

subsection \<open>Parts\<close>

text \<open>The parts of an input, as a reference.\<close>

function chunks :: "nat \<Rightarrow> 'a list \<Rightarrow> 'a list list" where
  "chunks n xs = (if n = 0 \<or> xs = [] then [] else take n xs # chunks n (drop n xs))"
  by auto
termination by (relation "measure (\<lambda>(n, xs). length xs)") auto

declare chunks.simps [simp del]

lemma chunks_Nil [simp]: "chunks n [] = []"
  by (simp add: chunks.simps)

lemma chunks_step: "0 < n \<Longrightarrow> xs \<noteq> [] \<Longrightarrow> chunks n xs = take n xs # chunks n (drop n xs)"
  by (subst chunks.simps) simp

lemma concat_chunks: "0 < n \<Longrightarrow> concat (chunks n xs) = xs"
  by (induction n xs rule: chunks.induct) (subst chunks.simps, auto)

lemma chunks_eq_Nil [simp]: "0 < n \<Longrightarrow> chunks n xs = [] \<longleftrightarrow> xs = []"
  by (subst chunks.simps) simp

lemma ReadFull_chunks:
  assumes "0 < n" and "ReadFull n r = (chunk, st, r')"
  shows "chunk \<noteq> [] \<Longrightarrow> chunks n (rdBytes r) = chunk # chunks n (rdBytes r')"
    and "chunk = [] \<Longrightarrow> rdBytes r = [] \<and> st \<noteq> More"
    and "st \<noteq> More \<Longrightarrow> rdBytes r' = []"
    and "rdErr r' = rdErr r" and "rdErr r = None \<Longrightarrow> st \<in> {More, AtEOF}"
  using assms by (auto simp: ReadFull_def chunks_step split: if_splits option.splits)

text \<open>Every byte of a part reaches the store, whatever the sizes of its reads.\<close>

lemma take_rest: "take n xs @ drop (length (take n xs)) xs = xs"
  by (cases "n \<le> length xs") simp_all

lemma bytesReader_progress:
  assumes "bytesReader_Read n b = (Some got, b')"
  shows "brData b' = brData b \<and> drop (brPos b) (brData b) = got @ drop (brPos b') (brData b')"
proof -
  let ?rest = "drop (brPos b) (brData b)"
  have "got = take n ?rest" and b': "b' = b\<lparr>brPos := brPos b + length got\<rparr>"
    using assms by (auto simp: bytesReader_Read_def Let_def split: if_splits)
  with take_rest [of n ?rest] show ?thesis by (simp add: b' add.commute)
qed

subsection \<open>Every run ends\<close>

text \<open>Every step moves a part, a goroutine or the caller closer to its end.\<close>

fun worker_weight :: "worker \<Rightarrow> nat" where
  "worker_weight Idle = 1"
| "worker_weight (Uploading _ _) = 4"
| "worker_weight (SendPart _ _) = 3"
| "worker_weight (SendErr _) = 2"
| "worker_weight Exited = 0"

fun pc_weight :: "main_pc \<Rightarrow> nat" where
  "pc_weight Reading = 6"
| "pc_weight (Sending _ _) = 20"
| "pc_weight (Failing _) = 5"
| "pc_weight Closing = 5"
| "pc_weight Selecting = 4"
| "pc_weight Collecting = 3"
| "pc_weight (Returned _) = 0"

definition weight :: "nat \<Rightarrow> Upload \<Rightarrow> nat" where
  "weight n u = 20 * length (chunks n (rdBytes (upReader u))) + pc_weight (upPc u) + 5 * length (upWork u)
     + sum_list (map worker_weight (upWorkers u)) + length (upResults u)"

lemma worker_weight_swap:
  "i < length ws \<Longrightarrow> ws ! i = w0 \<Longrightarrow> sum_list (map worker_weight (ws[i := w])) + worker_weight w0 = sum_list (map worker_weight ws) + worker_weight w"
  using sum_list_swap [of i ws worker_weight w] by simp

lemma after_read_weight: "pc_weight (after_read st) \<le> 6"
  by (cases st) (simp_all add: after_read_def)

lemma up_step_weight:
  assumes "up_step svc n c u u'" "0 < n"
  shows "weight n u' < weight n u"
  using assms(1)
proof cases
  case read
  obtain chunk st r where f: "ReadFull n (upReader u) = (chunk, st, r)" by (metis prod_cases3)
  note rf = ReadFull_chunks [OF assms(2) f]
  show ?thesis
  proof (cases "chunk = []")
    case True
    then have "st \<noteq> More" using rf(2) by blast
    with True rf read f show ?thesis by (cases st) (simp_all add: weight_def do_read_def after_read_def)
  next
    case False
    with rf(1) read f show ?thesis by (simp add: weight_def do_read_def)
  qed
next
  case (send chunk st)
  then show ?thesis using after_read_weight [of st] by (simp add: weight_def do_send_def)
next
  case finish
  then show ?thesis by (simp add: weight_def do_complete_def Let_def split: option.split)
next
  case (recv i num data ws)
  with worker_weight_swap [OF this(2,3), of "Uploading num data"] show ?thesis by (simp add: weight_def set_worker_def)
next
  case (leave i)
  with worker_weight_swap [OF this(2,3), of Exited] show ?thesis by (simp add: weight_def set_worker_def)
next
  case (upload_ok i num data etag)
  with worker_weight_swap [OF this(2,3), of "SendPart num etag"] show ?thesis by (simp add: weight_def set_worker_def)
next
  case (upload_err i num data e)
  with worker_weight_swap [OF this(2,3), of "SendErr (part_error num e)"] show ?thesis by (simp add: weight_def set_worker_def)
next
  case (send_part i num etag)
  with worker_weight_swap [OF this(2,3), of Idle] show ?thesis by (simp add: weight_def set_worker_def)
next
  case (send_err i e)
  with worker_weight_swap [OF this(2,3), of Exited] show ?thesis by (simp add: weight_def set_worker_def)
qed (simp_all add: weight_def)

interpretation up: weighted_steps "up_step svc (Suc n) c" "weight (Suc n)" for svc n c
  by unfold_locales (rule up_step_weight, assumption, simp)

lemma up_run_to_end:
  assumes "0 < n"
  shows "\<exists>u'. (up_step svc n c)\<^sup>*\<^sup>* u u' \<and> (\<nexists>v. up_step svc n c u' v)"
  using up.run_to_end assms by (cases n) simp_all

lemma up_step_wf:
  assumes "0 < n"
  shows "wfp (\<lambda>u' u. up_step svc n c u u')"
  using up.finite_runs assms by (cases n) simp_all

subsection \<open>Too many parts\<close>

fun engaged :: "worker \<Rightarrow> nat" where
  "engaged Idle = 0"
| "engaged _ = 1"

lemma engaged_le: "sum_list (map engaged ws) \<le> length ws"
proof (induction ws)
  case (Cons w ws)
  have "engaged w \<le> 1" by (cases w) simp_all
  with Cons show ?case by simp
qed simp

lemma engaged_swap:
  "i < length ws \<Longrightarrow> ws ! i = w0 \<Longrightarrow> sum_list (map engaged (ws[i := w])) + engaged w0 = sum_list (map engaged ws) + engaged w"
  using sum_list_swap [of i ws engaged w] by simp

text \<open>Before the queue is closed the parts that were sent are in the queue, with a goroutine or in the buffer of results.\<close>

definition queued :: "Upload \<Rightarrow> nat" where
  "queued u = length (upWork u) + length (upResults u) + sum_list (map engaged (upWorkers u))"

definition jammed :: "nat \<Rightarrow> 8 word list list \<Rightarrow> nat \<Rightarrow> Upload \<Rightarrow> bool" where
  "jammed c cs n u \<longleftrightarrow> length (upWorkers u) = c \<and> \<not> upClosed u \<and> length (upResults u) \<le> c \<and> length (upWork u) \<le> c
     \<and> (upPc u = Reading \<and> drop (queued u) cs = chunks n (rdBytes (upReader u))
        \<or> (\<exists>chunk st. upPc u = Sending chunk st \<and> drop (queued u) cs = chunk # chunks n (rdBytes (upReader u))
             \<and> (st \<noteq> More \<longrightarrow> rdBytes (upReader u) = [])))"

lemma jammed_queued: "jammed c cs n u \<Longrightarrow> queued u \<le> 3 * c"
  using engaged_le [of "upWorkers u"] by (simp add: jammed_def queued_def)

lemma jammed_worker:
  assumes "jammed c cs n u" "queued u' = queued u" "length (upWorkers u') = length (upWorkers u)" "upClosed u' = upClosed u"
    "upPc u' = upPc u" "upReader u' = upReader u" "length (upResults u') \<le> c" "length (upWork u') \<le> c"
  shows "jammed c cs n u'"
  using assms by (simp add: jammed_def)

lemma jammed_step:
  assumes j: "jammed c cs n u" and big: "3 * c < length cs" and n: "0 < n" and "up_step svc n c u u'"
  shows "jammed c cs n u'"
  using assms(4)
proof cases
  case read
  obtain chunk st r where f: "ReadFull n (upReader u) = (chunk, st, r)" by (metis prod_cases3)
  note rf = ReadFull_chunks [OF n f]
  have "drop (queued u) cs = chunks n (rdBytes (upReader u))" using j read by (simp add: jammed_def)
  moreover have "drop (queued u) cs \<noteq> []" using jammed_queued [OF j] big by simp
  ultimately have "chunk \<noteq> []" "drop (queued u) cs = chunk # chunks n (rdBytes r)" using rf(1,2) n by (auto simp del: drop_eq_Nil)
  with j read f rf(3) show ?thesis by (simp add: jammed_def do_read_def queued_def)
next
  case (send chunk st)
  have d: "drop (queued u) cs = chunk # chunks n (rdBytes (upReader u))" "st \<noteq> More \<Longrightarrow> rdBytes (upReader u) = []"
    using j send by (simp_all add: jammed_def)
  have q: "queued u' = Suc (queued u)" using send by (simp add: do_send_def queued_def)
  have d': "drop (queued u') cs = chunks n (rdBytes (upReader u))" using d(1) by (simp add: q drop_Suc tl_drop [symmetric])
  have "queued u' \<le> 3 * c" using j send engaged_le [of "upWorkers u"] by (simp add: jammed_def do_send_def queued_def)
  then have "chunks n (rdBytes (upReader u)) \<noteq> []" unfolding d' [symmetric] using big by simp
  with d(2) have "st = More" by (metis chunks_Nil)
  with j send d' show ?thesis by (simp add: jammed_def do_send_def after_read_def)
next
  case (recv i num data ws)
  with engaged_swap [OF this(2,3), of "Uploading num data"] j show ?thesis
    by (intro jammed_worker [OF j]) (simp_all add: queued_def set_worker_def jammed_def)
next
  case (upload_ok i num data etag)
  with engaged_swap [OF this(2,3), of "SendPart num etag"] j show ?thesis
    by (intro jammed_worker [OF j]) (simp_all add: queued_def set_worker_def jammed_def)
next
  case (upload_err i num data e)
  with engaged_swap [OF this(2,3), of "SendErr (part_error num e)"] j show ?thesis
    by (intro jammed_worker [OF j]) (simp_all add: queued_def set_worker_def jammed_def)
next
  case (send_part i num etag)
  with engaged_swap [OF this(2,3), of Idle] j show ?thesis
    by (intro jammed_worker [OF j]) (simp_all add: queued_def set_worker_def jammed_def)
next
  case (send_err i e)
  with engaged_swap [OF this(2,3), of Exited] j show ?thesis
    by (intro jammed_worker [OF j]) (simp_all add: queued_def set_worker_def jammed_def)
qed (use j in \<open>auto simp: jammed_def\<close>)

lemma jammed_start:
  "svCreate svc = None \<Longrightarrow> cs = chunks n (rdBytes r) \<Longrightarrow> jammed c cs n (MultipartUpload svc c r)"
  by (simp add: jammed_def MultipartUpload_def queued_def sum_list_replicate)

text \<open>C35. An upload of too many parts never returns. The results of the goroutines go to a channel with room for one result per goroutine, and
  the caller reads that channel only after it has queued the last part. With more than three parts per goroutine (one queued, one in hand, one
  in the results) the call deadlocks, whatever the store answers: no reachable state has returned, and every run gets to a state
  in which no goroutine can move.\<close>

theorem multipart_deadlocks:
  assumes "0 < n" and "svCreate svc = None" and "3 * c < length (chunks n (rdBytes r))"
    and "(up_step svc n c)\<^sup>*\<^sup>* (MultipartUpload svc c r) u"
  shows "(\<forall>res. upPc u \<noteq> Returned res) \<and> (\<exists>u'. (up_step svc n c)\<^sup>*\<^sup>* u u' \<and> (\<nexists>v. up_step svc n c u' v))"
proof -
  have "jammed c (chunks n (rdBytes r)) n u" using assms(4)
    by (induction rule: rtranclp_induct) (use jammed_start [OF assms(2) refl] jammed_step [OF _ assms(3,1)] in blast)+
  then have "\<forall>res. upPc u \<noteq> Returned res" by (auto simp: jammed_def)
  with up_run_to_end [OF assms(1)] show ?thesis by blast
qed

text \<open>Four parts of one byte, one uploading goroutine.\<close>

definition ok_service :: part_service where
  "ok_service = \<lparr>svCreate = None, svUpload = (\<lambda>num data. Ok ''etag''), svComplete = (\<lambda>ps. None)\<rparr>"

definition four_bytes :: reader where
  "four_bytes = \<lparr>rdBytes = [1, 2, 3, 4], rdErr = None\<rparr>"

lemma chunks_four_bytes: "chunks 1 (rdBytes four_bytes) = [[1], [2], [3], [4]]"
  by (simp add: four_bytes_def chunks_step)

theorem multipart_deadlocks_witness:
  "\<exists>u'. (up_step ok_service 1 1)\<^sup>*\<^sup>* (MultipartUpload ok_service 1 four_bytes) u' \<and> (\<nexists>v. up_step ok_service 1 1 u' v)
     \<and> (\<forall>res. upPc u' \<noteq> Returned res)"
proof -
  have hyps: "0 < (1 :: nat)" "svCreate ok_service = None" "3 * 1 < length (chunks 1 (rdBytes four_bytes))"
    by (simp_all add: ok_service_def chunks_four_bytes [unfolded One_nat_def])
  obtain u' where u': "(up_step ok_service 1 1)\<^sup>*\<^sup>* (MultipartUpload ok_service 1 four_bytes) u'" "\<nexists>v. up_step ok_service 1 1 u' v"
    using multipart_deadlocks [OF hyps rtranclp.rtrancl_refl] by blast
  with multipart_deadlocks [OF hyps u'(1)] show ?thesis by blast
qed

subsection \<open>Few enough parts\<close>

text \<open>The part numbers a goroutine holds.\<close>

fun held :: "worker \<Rightarrow> int multiset" where
  "held (Uploading num _) = {#num#}"
| "held (SendPart num _) = {#num#}"
| "held _ = {#}"

lemma held_swap:
  "i < length ws \<Longrightarrow> ws ! i = w0 \<Longrightarrow> sum_list (map held (ws[i := w])) + held w0 = sum_list (map held ws) + held w"
  using sum_list_swap [of i ws held w] by simp

lemma held_replicate [simp]: "sum_list (replicate c {#}) = ({#} :: int multiset)"
  by (induction c) simp_all

lemma held_exited: "\<forall>w \<in> set ws. w = Exited \<Longrightarrow> sum_list (map held ws) = {#}"
  by (induction ws) simp_all

definition tokens :: "Upload \<Rightarrow> int multiset" where
  "tokens u = mset (map fst (upParts u)) + mset (map fst (upResults u)) + sum_list (map held (upWorkers u)) + mset (map fst (upWork u))"

text \<open>What is right about a part, by its number.\<close>

definition right_etag :: "part_service \<Rightarrow> 8 word list list \<Rightarrow> int \<times> string \<Rightarrow> bool" where
  "right_etag svc cs = (\<lambda>(num, etag). svUpload svc num (cs ! nat (num - 1)) = Ok etag)"

definition right_worker :: "part_service \<Rightarrow> 8 word list list \<Rightarrow> bool \<Rightarrow> worker \<Rightarrow> bool" where
  "right_worker svc cs may_leave w = (case w of
      Idle \<Rightarrow> True
    | Uploading num data \<Rightarrow> data = cs ! nat (num - 1)
    | SendPart num etag \<Rightarrow> right_etag svc cs (num, etag)
    | SendErr _ \<Rightarrow> False
    | Exited \<Rightarrow> may_leave)"

fun phase_ok :: "nat \<Rightarrow> 8 word list list \<Rightarrow> nat \<Rightarrow> Upload \<Rightarrow> main_pc \<Rightarrow> bool" where
  "phase_ok n cs k u Reading \<longleftrightarrow> \<not> upClosed u \<and> drop k cs = chunks n (rdBytes (upReader u))"
| "phase_ok n cs k u (Sending chunk st) \<longleftrightarrow>
     \<not> upClosed u \<and> drop k cs = chunk # chunks n (rdBytes (upReader u)) \<and> st \<in> {More, AtEOF} \<and> (st = AtEOF \<longrightarrow> rdBytes (upReader u) = [])"
| "phase_ok n cs k u (Failing e) \<longleftrightarrow> False"
| "phase_ok n cs k u Closing \<longleftrightarrow> \<not> upClosed u \<and> k = length cs"
| "phase_ok n cs k u Selecting \<longleftrightarrow> upClosed u \<and> k = length cs"
| "phase_ok n cs k u Collecting \<longleftrightarrow> upClosed u \<and> k = length cs"
| "phase_ok n cs k u (Returned res) \<longleftrightarrow> upClosed u \<and> k = length cs \<and> res = None \<and> upResults u = [] \<and> upWork u = []
     \<and> (\<forall>w \<in> set (upWorkers u). w = Exited) \<and> upCompleted u = Some (sort_key fst (upParts u))"

definition smooth :: "part_service \<Rightarrow> nat \<Rightarrow> 8 word list list \<Rightarrow> nat \<Rightarrow> nat \<Rightarrow> Upload \<Rightarrow> bool" where
  "smooth svc c cs n k u \<longleftrightarrow> length (upWorkers u) = c \<and> upErrs u = [] \<and> rdErr (upReader u) = None \<and> upAborts u = 0
     \<and> upPart u = int k + 1 \<and> k \<le> length cs \<and> tokens u = mset [1..int k] \<and> length (upWork u) \<le> c
     \<and> (upPc u \<noteq> Collecting \<and> upPc u \<noteq> Returned None \<longrightarrow> upParts u = [])
     \<and> (\<forall>w \<in> set (upWorkers u). right_worker svc cs (upClosed u \<and> upWork u = []) w)
     \<and> (\<forall>(num, data) \<in> set (upWork u). data = cs ! nat (num - 1))
     \<and> (\<forall>p \<in> set (upResults u) \<union> set (upParts u). right_etag svc cs p)
     \<and> phase_ok n cs k u (upPc u)"

lemma smoothD:
  assumes "smooth svc c cs n k u"
  shows "length (upWorkers u) = c" "upErrs u = []" "rdErr (upReader u) = None" "upAborts u = 0" "upPart u = int k + 1" "k \<le> length cs"
    "tokens u = mset [1..int k]" "length (upWork u) \<le> c" "upPc u \<noteq> Collecting \<Longrightarrow> upPc u \<noteq> Returned None \<Longrightarrow> upParts u = []"
    "\<And>w. w \<in> set (upWorkers u) \<Longrightarrow> right_worker svc cs (upClosed u \<and> upWork u = []) w"
    "\<And>num data. (num, data) \<in> set (upWork u) \<Longrightarrow> data = cs ! nat (num - 1)"
    "\<And>p. p \<in> set (upResults u) \<Longrightarrow> right_etag svc cs p" "\<And>p. p \<in> set (upParts u) \<Longrightarrow> right_etag svc cs p"
    "phase_ok n cs k u (upPc u)"
  using assms by (auto simp: smooth_def)

lemma smooth_start:
  assumes "svCreate svc = None" "rdErr r = None" "cs = chunks n (rdBytes r)"
  shows "smooth svc c cs n 0 (MultipartUpload svc c r)"
  using assms by (simp add: smooth_def MultipartUpload_def tokens_def right_worker_def set_replicate_conv_if)

lemma set_update_right:
  assumes "\<And>x. x \<in> set xs \<Longrightarrow> P x" "P y"
  shows "x \<in> set (xs[i := y]) \<Longrightarrow> P x"
  using assms set_update_subset_insert [of xs i y] by auto

lemma right_worker_mono: "right_worker svc cs b w \<Longrightarrow> (b \<Longrightarrow> b') \<Longrightarrow> right_worker svc cs b' w"
  by (cases w) (auto simp: right_worker_def)

text \<open>A step of a goroutine keeps the phase of the caller.\<close>

lemma smooth_worker:
  assumes s: "smooth svc c cs n k u"
    and same: "upErrs u' = []" "upReader u' = upReader u" "upAborts u' = upAborts u" "upPart u' = upPart u" "upPc u' = upPc u" "upParts u' = upParts u"
      "upClosed u' = upClosed u" "upCompleted u' = upCompleted u"
    and ws: "upWorkers u' = (upWorkers u)[i := w]" "right_worker svc cs (upClosed u \<and> upWork u' = []) w"
    and work: "length (upWork u') \<le> length (upWork u)" "set (upWork u') \<subseteq> set (upWork u)"
    and res: "\<And>p. p \<in> set (upResults u') \<Longrightarrow> right_etag svc cs p"
    and tok: "tokens u' = tokens u" and live: "upPc u \<noteq> Returned None"
  shows "smooth svc c cs n k u'"
proof -
  note d = smoothD [OF s]
  have "upWork u = [] \<Longrightarrow> upWork u' = []" using work(1) by simp
  then have "right_worker svc cs (upClosed u' \<and> upWork u' = []) x" if "x \<in> set (upWorkers u')" for x
    using set_update_right [of "upWorkers u" "right_worker svc cs (upClosed u \<and> upWork u' = [])" w x i] d(10) ws that same(7)
    by (auto intro: right_worker_mono)
  moreover have "phase_ok n cs k u' (upPc u')" using d(14) same live by (cases "upPc u") auto
  moreover have "\<forall>(num, data) \<in> set (upWork u'). data = cs ! nat (num - 1)" using d(11) work(2) by auto
  ultimately show ?thesis using d same ws(1) work(1) res tok unfolding smooth_def by auto
qed

lemma smooth_live: "smooth svc c cs n k u \<Longrightarrow> up_step svc n c u u' \<Longrightarrow> upPc u \<noteq> Returned None"
proof
  assume s: "smooth svc c cs n k u" and st: "up_step svc n c u u'" and pc: "upPc u = Returned None"
  have "\<And>i. i < length (upWorkers u) \<Longrightarrow> upWorkers u ! i = Exited" using smoothD(14) [OF s] pc by auto
  with st pc show False by cases auto
qed

lemma smooth_nth:
  "smooth svc c cs n k u \<Longrightarrow> i < length (upWorkers u) \<Longrightarrow> upWorkers u ! i = w \<Longrightarrow> right_worker svc cs (upClosed u \<and> upWork u = []) w"
  using smoothD(10) nth_mem by blast

lemma smooth_step:
  assumes s: "smooth svc c cs n k u" and n: "0 < n" and small: "length cs < 2 ^ 31 - 1"
    and ok: "\<And>num data. \<exists>etag. svUpload svc num data = Ok etag" "\<And>ps. svComplete svc ps = None"
    and st: "up_step svc n c u u'"
  shows "\<exists>k'. smooth svc c cs n k' u'"
  using st
proof cases
  case read
  obtain chunk rs r where f: "ReadFull n (upReader u) = (chunk, rs, r)" by (metis prod_cases3)
  note rf = ReadFull_chunks [OF n f] and d = smoothD [OF s]
  have rs: "rs \<in> {More, AtEOF}" and r: "rdErr r = None" using rf(4,5) d(3) by auto
  have ph: "\<not> upClosed u" "drop k cs = chunks n (rdBytes (upReader u))" using d(14) read by auto
  have u': "u' = u\<lparr>upReader := r, upPc := if chunk \<noteq> [] then Sending chunk rs else after_read rs\<rparr>" using read f by (simp add: do_read_def)
  show ?thesis
  proof (cases "chunk = []")
    case True
    then have "k = length cs" "rs = AtEOF" using rf(2) ph(2) rs d(6) by auto
    with True s ph(1) r read(2) u' show ?thesis by (intro exI [of _ k]) (auto simp: smooth_def tokens_def after_read_def)
  next
    case False
    with rf(1,3) ph rs r s read(2) u' show ?thesis by (intro exI [of _ k]) (auto simp: smooth_def tokens_def)
  qed
next
  case (send chunk rs)
  note d = smoothD [OF s]
  have ph: "\<not> upClosed u" "drop k cs = chunk # chunks n (rdBytes (upReader u))" "rs \<in> {More, AtEOF}" "rs = AtEOF \<Longrightarrow> rdBytes (upReader u) = []"
    using d(14) send by auto
  have k: "k < length cs" using ph(2) by (metis drop_all list.distinct(1) not_less)
  have chunk: "chunk = cs ! k" and rest: "drop (Suc k) cs = chunks n (rdBytes (upReader u))"
    using ph(2) Cons_nth_drop_Suc [OF k] by simp_all
  have part: "i32 (upPart u + 1) = int (Suc k) + 1" using d(5) k small by simp
  have "[1..int (Suc k)] = [1..int k] @ [int k + 1]" by (simp add: upto_rec2)
  then have "tokens u' = mset [1..int (Suc k)]" using d(5,7) send by (simp add: tokens_def do_send_def)
  moreover have "phase_ok n cs (Suc k) u' (upPc u')"
    using ph(1,3,4) rest k send by (auto simp: do_send_def after_read_def)
  moreover have "right_worker svc cs (upClosed u' \<and> upWork u' = []) w" if "w \<in> set (upWorkers u')" for w
    using d(10) [of w] that send ph(1) by (auto intro: right_worker_mono simp: do_send_def)
  moreover have "\<forall>(num, data) \<in> set (upWork u'). data = cs ! nat (num - 1)" using d(5,11) send chunk by (auto simp: do_send_def)
  ultimately show ?thesis using d part k send by (intro exI [of _ "Suc k"]) (auto simp: smooth_def do_send_def)
next
  case finish
  have "upWork u = []"
  proof (cases "upWorkers u")
    case Nil
    then show ?thesis using smoothD(1,8) [OF s] by simp
  next
    case (Cons w ws)
    then have "right_worker svc cs (upClosed u \<and> upWork u = []) w" "w = Exited" using smoothD(10) [OF s] finish by simp_all
    then show ?thesis by (simp add: right_worker_def)
  qed
  with s finish ok(2) show ?thesis by (intro exI [of _ k]) (auto simp: smooth_def do_complete_def Let_def tokens_def)
next
  case (recv i num data ws)
  have "smooth svc c cs n k u'"
  proof (rule smooth_worker [OF s])
    show "tokens u' = tokens u" using recv held_swap [OF recv(2,3), of "Uploading num data"] by (simp add: tokens_def set_worker_def)
  qed (use recv smoothD [OF s] smooth_live [OF s st] in \<open>auto simp: set_worker_def right_worker_def\<close>)
  then show ?thesis ..
next
  case (leave i)
  have "smooth svc c cs n k u'"
  proof (rule smooth_worker [OF s])
    show "tokens u' = tokens u" using leave held_swap [OF leave(2,3), of Exited] by (simp add: tokens_def set_worker_def)
  qed (use leave smoothD [OF s] smooth_live [OF s st] in \<open>auto simp: set_worker_def right_worker_def\<close>)
  then show ?thesis ..
next
  case (upload_ok i num data etag)
  have "right_worker svc cs (upClosed u \<and> upWork u = []) (Uploading num data)" by (rule smooth_nth [OF s upload_ok(2,3)])
  then have data: "data = cs ! nat (num - 1)" by (simp add: right_worker_def)
  have "smooth svc c cs n k u'"
  proof (rule smooth_worker [OF s])
    show "tokens u' = tokens u" using upload_ok held_swap [OF upload_ok(2,3), of "SendPart num etag"] by (simp add: tokens_def set_worker_def)
  qed (use upload_ok data smoothD [OF s] smooth_live [OF s st] in \<open>auto simp: set_worker_def right_worker_def right_etag_def\<close>)
  then show ?thesis ..
next
  case (upload_err i num data e)
  then show ?thesis using ok(1) [of num data] by auto
next
  case (send_part i num etag)
  have "right_worker svc cs (upClosed u \<and> upWork u = []) (SendPart num etag)" by (rule smooth_nth [OF s send_part(2,3)])
  then have etag: "right_etag svc cs (num, etag)" by (simp add: right_worker_def)
  have "smooth svc c cs n k u'"
  proof (rule smooth_worker [OF s])
    show "tokens u' = tokens u" using send_part held_swap [OF send_part(2,3), of Idle] by (simp add: tokens_def set_worker_def)
  qed (use send_part etag smoothD [OF s] smooth_live [OF s st] in \<open>auto simp: set_worker_def right_worker_def\<close>)
  then show ?thesis ..
next
  case (send_err i e)
  then show ?thesis using smooth_nth [OF s send_err(2,3)] by (simp add: right_worker_def)
qed (use s in \<open>auto simp: smooth_def tokens_def intro: right_worker_mono\<close>)


lemma size_held:
  assumes "\<And>w. w \<in> set ws \<Longrightarrow> \<exists>num x. w = Uploading num x \<or> (\<exists>etag. w = SendPart num etag)"
  shows "size (sum_list (map held ws)) = length ws"
  using assms by (induction ws) fastforce+

lemma smooth_progress:
  assumes s: "smooth svc c cs n k u" and c: "0 < c" and few: "length cs \<le> 3 * c"
    and ok: "\<And>num data. \<exists>etag. svUpload svc num data = Ok etag" and pc: "upPc u \<noteq> Returned None"
  shows "\<exists>u'. up_step svc n c u u'"
proof -
  note d = smoothD [OF s]
  have move: "\<exists>u'. up_step svc n c u u'"
    if i: "i < length (upWorkers u)" and w: "upWorkers u ! i = w"
      and can: "w = Idle \<and> (upWork u \<noteq> [] \<or> upClosed u) \<or> (\<exists>num x. w = Uploading num x) \<or> (\<exists>num e. w = SendPart num e) \<and> length (upResults u) < c" for i w
  proof (cases w)
    case Idle
    with can i w show ?thesis by (cases "upWork u") (auto intro: up_step.recv up_step.leave)
  next
    case (Uploading num x)
    with ok [of num x] i w show ?thesis by (blast intro: up_step.upload_ok)
  next
    case (SendPart num e)
    with can i w show ?thesis by (blast intro: up_step.send_part)
  qed (use can in auto)
  show ?thesis
  proof (cases "upPc u")
    case (Sending chunk st)
    show ?thesis
    proof (cases "length (upWork u) < c")
      case True
      with Sending show ?thesis by (blast intro: up_step.send)
    next
      case False
      then have full: "length (upWork u) = c" "upWork u \<noteq> []" using d(8) c by auto
      have ph: "\<not> upClosed u" "drop k cs \<noteq> []" "upParts u = []" using d(9,14) Sending by auto
      have "size (tokens u) = k" unfolding d(7) by simp
      then have "length (upResults u) + size (sum_list (map held (upWorkers u))) + c = k" using ph(3) full(1) by (simp add: tokens_def)
      moreover have "k < 3 * c" using ph(2) few by simp
      ultimately have room: "length (upResults u) + size (sum_list (map held (upWorkers u))) < 2 * c" by simp
      show ?thesis
      proof (cases "Idle \<in> set (upWorkers u)")
        case True
        then obtain i where "i < length (upWorkers u)" "upWorkers u ! i = Idle" by (auto simp: in_set_conv_nth)
        with full(2) show ?thesis by (intro move [of i Idle]) simp_all
      next
        case False
        have busy: "\<exists>num x. w = Uploading num x \<or> (\<exists>etag. w = SendPart num etag)" if "w \<in> set (upWorkers u)" for w
          using d(10) [OF that] ph(1) False that by (cases w) (auto simp: right_worker_def)
        have "length (upResults u) < c" using size_held [of "upWorkers u"] busy room d(1) by fastforce
        moreover obtain w where "upWorkers u ! 0 = w" "0 < length (upWorkers u)" using c d(1) by simp
        ultimately show ?thesis using busy [of w] nth_mem [of 0 "upWorkers u"] by (intro move [of 0 w]) auto
      qed
    qed
  next
    case Collecting
    show ?thesis
    proof (cases "upResults u = [] \<and> (\<exists>w \<in> set (upWorkers u). w \<noteq> Exited)")
      case True
      then obtain i where i: "i < length (upWorkers u)" "upWorkers u ! i \<noteq> Exited" by (auto simp: in_set_conv_nth)
      have "right_worker svc cs (upClosed u \<and> upWork u = []) (upWorkers u ! i)" using d(10) i(1) by simp
      then show ?thesis using i d(14) Collecting True c by (intro move [OF i(1) refl]) (cases "upWorkers u ! i", auto simp: right_worker_def)
    next
      case False
      then show ?thesis using Collecting by (cases "upResults u") (auto intro: up_step.collect up_step.finish)
    qed
  qed (use d(2,14) pc in \<open>auto intro: up_step.read up_step.close up_step.select_default\<close>)
qed

lemma sorted_parts:
  assumes "mset (map fst ps) = mset [1..int n]" "\<And>p. p \<in> set ps \<Longrightarrow> snd p = f (fst p)"
  shows "sort_key fst ps = map (\<lambda>i. (i, f i)) [1..int n]"
proof -
  have "sort [1..int n] = map fst (sort_key fst ps)" by (rule properties_for_sort) (use assms(1) in simp_all)
  moreover have "sort [1..int n] = [1..int n]" by (simp add: sort_key_id_if_sorted)
  ultimately have "map (\<lambda>i. (i, f i)) [1..int n] = map (\<lambda>i. (i, f i)) (map fst (sort_key fst ps))" by simp
  also have "\<dots> = map (\<lambda>p. (fst p, f (fst p))) (sort_key fst ps)" by simp
  also have "\<dots> = sort_key fst ps" by (rule map_idI) (use assms(2) in \<open>simp add: prod_eq_iff\<close>)
  finally show ?thesis ..
qed


text \<open>C34. With at most three parts per goroutine and a store that accepts every part, an upload always returns: every run is finite and ends in
  success, the upload is completed with all parts of the input in ascending order, each with the tag the store gave for exactly its bytes, and
  nothing is aborted.\<close>

theorem multipart_uploads_everything:
  assumes "0 < n" "0 < c" and "svCreate svc = None" "\<And>num data. \<exists>etag. svUpload svc num data = Ok etag" "\<And>ps. svComplete svc ps = None"
    and "rdErr r = None" and "length (chunks n (rdBytes r)) \<le> 3 * c" "length (chunks n (rdBytes r)) < 2 ^ 31 - 1"
    and "(up_step svc n c)\<^sup>*\<^sup>* (MultipartUpload svc c r) u"
  shows "((\<nexists>u'. up_step svc n c u u') \<longrightarrow> upPc u = Returned None)
     \<and> (upPc u = Returned None \<longrightarrow> upAborts u = 0
          \<and> upCompleted u = Some (map (\<lambda>i. (i, (case svUpload svc i (chunks n (rdBytes r) ! nat (i - 1)) of Ok etag \<Rightarrow> etag)))
               [1..int (length (chunks n (rdBytes r)))]))
     \<and> concat (chunks n (rdBytes r)) = rdBytes r
     \<and> wfp (\<lambda>v' v. up_step svc n c v v')"
proof -
  define cs where "cs = chunks n (rdBytes r)"
  have "\<exists>k. smooth svc c cs n k u" using assms(9)
  proof (induction rule: rtranclp_induct)
    case base
    then show ?case using smooth_start [OF assms(3,6)] cs_def by blast
  next
    case (step u u')
    then show ?case using smooth_step [OF _ assms(1) _ assms(4,5)] assms(8) cs_def by blast
  qed
  then obtain k where s: "smooth svc c cs n k u" ..
  have prog: "upPc u = Returned None" if "\<nexists>u'. up_step svc n c u u'"
    using smooth_progress [OF s assms(2) _ assms(4)] that assms(7) cs_def by blast
  have fin: "upAborts u = 0 \<and> upCompleted u = Some (map (\<lambda>i. (i, (case svUpload svc i (cs ! nat (i - 1)) of Ok etag \<Rightarrow> etag))) [1..int (length cs)])"
    if "upPc u = Returned None"
  proof -
    note d = smoothD [OF s]
    have ph: "k = length cs" "upResults u = []" "upWork u = []" "\<forall>w \<in> set (upWorkers u). w = Exited" "upCompleted u = Some (sort_key fst (upParts u))"
      using d(14) that by simp_all
    have "mset (map fst (upParts u)) = mset [1..int (length cs)]" using d(7) ph held_exited [OF ph(4)] by (simp add: tokens_def)
    then have "sort_key fst (upParts u) = map (\<lambda>i. (i, (case svUpload svc i (cs ! nat (i - 1)) of Ok etag \<Rightarrow> etag))) [1..int (length cs)]"
      by (rule sorted_parts) (use d(13) in \<open>auto simp: right_etag_def\<close>)
    with ph(5) d(4) show ?thesis by simp
  qed
  show ?thesis using prog fin concat_chunks [OF assms(1)] up_step_wf [OF assms(1)] unfolding cs_def by blast
qed


theorem multipart_uploads_everything_witness:
  "\<exists>u. (up_step ok_service 2 1)\<^sup>*\<^sup>* (MultipartUpload ok_service 1 four_bytes) u \<and> upPc u = Returned None
     \<and> upCompleted u = Some [(1, ''etag''), (2, ''etag'')]"
proof -
  have cs: "chunks 2 (rdBytes four_bytes) = [[1, 2], [3, 4]]" by (simp add: four_bytes_def chunks_step)
  have hyps: "0 < (2 :: nat)" "0 < (1 :: nat)" "svCreate ok_service = None" "\<And>num data. \<exists>etag. svUpload ok_service num data = Ok etag"
    "\<And>ps. svComplete ok_service ps = None" "rdErr four_bytes = None" "length (chunks 2 (rdBytes four_bytes)) \<le> 3 * 1"
    "length (chunks 2 (rdBytes four_bytes)) < 2 ^ 31 - 1"
    by (simp_all add: ok_service_def cs) (simp add: four_bytes_def)
  obtain u where u: "(up_step ok_service 2 1)\<^sup>*\<^sup>* (MultipartUpload ok_service 1 four_bytes) u" "\<nexists>v. up_step ok_service 2 1 u v"
    using up_run_to_end [OF hyps(1)] by blast
  note t = multipart_uploads_everything [OF hyps u(1)]
  then have "upPc u = Returned None" using u(2) by blast
  moreover have "[1..2 :: int] = [1, 2]" by code_simp
  ultimately show ?thesis using t u(1) unfolding cs by (intro exI [of _ u]) (simp add: ok_service_def)
qed

subsection \<open>A part that fails late\<close>

text \<open>The caller looks at the errors once, right after it has queued the last part. A part that fails after that look is left out of the
  list that is completed, and the call succeeds: here with a store that refuses part 2.\<close>

definition bad_second :: part_service where
  "bad_second = ok_service\<lparr>svUpload := \<lambda>num data. if num = 2 then Err ''refused'' else Ok ''etag''\<rparr>"

lemma lost_part_is_reported_as_success:
  "\<exists>u. (up_step bad_second 2 1)\<^sup>*\<^sup>* (MultipartUpload bad_second 1 four_bytes) u \<and> upPc u = Returned None
     \<and> upErrs u \<noteq> [] \<and> upCompleted u = Some [(1, ''etag'')]"
proof -
  let ?s = "up_step bad_second 2 1"
  define u0 where "u0 = MultipartUpload bad_second 1 four_bytes"
  define u1 where "u1 = do_read 2 u0"
  define u2 where "u2 = do_send [1, 2] More u1"
  define u3 where "u3 = set_worker 0 (Uploading 1 [1, 2]) (u2\<lparr>upWork := []\<rparr>)"
  define u4 where "u4 = set_worker 0 (SendPart 1 ''etag'') u3"
  define u5 where "u5 = set_worker 0 Idle (u4\<lparr>upResults := upResults u4 @ [(1, ''etag'')]\<rparr>)"
  define u6 where "u6 = do_read 2 u5"
  define u7 where "u7 = do_send [3, 4] More u6"
  define u8 where "u8 = do_read 2 u7"
  define u9 where "u9 = u8\<lparr>upClosed := True, upPc := Selecting\<rparr>"
  define u10 where "u10 = u9\<lparr>upPc := Collecting\<rparr>"
  define u11 where "u11 = set_worker 0 (Uploading 2 [3, 4]) (u10\<lparr>upWork := []\<rparr>)"
  define u12 where "u12 = set_worker 0 (SendErr (part_error 2 ''refused'')) u11"
  define u13 where "u13 = set_worker 0 Exited (u12\<lparr>upErrs := upErrs u12 @ [part_error 2 ''refused'']\<rparr>)"
  define u14 where "u14 = u13\<lparr>upResults := [], upParts := upParts u13 @ [(1, ''etag'')]\<rparr>"
  define u15 where "u15 = do_complete bad_second u14"
  note defs = u0_def u1_def u2_def u3_def u4_def u5_def u6_def u7_def u8_def u9_def u10_def u11_def u12_def u13_def u14_def u15_def
    step_defs MultipartUpload_def ReadFull_def after_read_def four_bytes_def bad_second_def ok_service_def
  have "?s\<^sup>*\<^sup>* u0 u0" ..
  moreover have "?s u0 u1" unfolding u1_def by (rule up_step.read) (simp_all add: defs)
  moreover have "?s u1 u2" unfolding u2_def by (rule up_step.send) (simp_all add: defs)
  moreover have "?s u2 u3" unfolding u3_def by (rule up_step.recv) (simp_all add: defs)
  moreover have "?s u3 u4" unfolding u4_def by (rule up_step.upload_ok [where num = 1 and data = "[1, 2]"]) (simp_all add: defs)
  moreover have "?s u4 u5" unfolding u5_def by (rule up_step.send_part) (simp_all add: defs)
  moreover have "?s u5 u6" unfolding u6_def by (rule up_step.read) (simp_all add: defs)
  moreover have "?s u6 u7" unfolding u7_def by (rule up_step.send) (simp_all add: defs)
  moreover have "?s u7 u8" unfolding u8_def by (rule up_step.read) (simp_all add: defs)
  moreover have "?s u8 u9" unfolding u9_def by (rule up_step.close) (simp_all add: defs)
  moreover have "?s u9 u10" unfolding u10_def by (rule up_step.select_default) (simp_all add: defs)
  moreover have "?s u10 u11" unfolding u11_def by (rule up_step.recv) (simp_all add: defs)
  moreover have "?s u11 u12" unfolding u12_def by (rule up_step.upload_err [where num = 2 and data = "[3, 4]"]) (simp_all add: defs)
  moreover have "?s u12 u13" unfolding u13_def by (rule up_step.send_err) (simp_all add: defs)
  moreover have "?s u13 u14" unfolding u14_def by (rule up_step.collect) (simp_all add: defs)
  moreover have "?s u14 u15" unfolding u15_def by (rule up_step.finish) (simp_all add: defs)
  ultimately have "?s\<^sup>*\<^sup>* u0 u15" by (meson rtranclp.rtrancl_into_rtrancl)
  then show ?thesis unfolding u0_def by (intro exI [of _ u15]) (simp add: defs)
qed

end
