(* ===== verification/Prefetch.thy ===== *)
theory Prefetch
  imports Prelude "HOL-Library.Word"
begin

section \<open>Prefetching\<close>

text \<open>
  \<^verbatim>\<open>internal/pipeline/prefetcher.go\<close>: one goroutine starts a fetch per key behind a semaphore and queues a future for it, another
  drains the futures in order. A step is one channel operation or one fetch; the consumer receives whenever the
  emitter offers an item, and may cancel the context at any time. A future is known by the index of its key. The function that
  reads an object is a parameter that may look at whether the context is cancelled; its inner result is that of
  \<^verbatim>\<open>io.ReadAll\<close>.
\<close>

subsection \<open>Items\<close>

record Item =
  itKey :: string
  itData :: "8 word list"
  itErr :: "string option"

type_synonym get_func = "bool \<Rightarrow> string \<Rightarrow> 8 word list outcome outcome"

definition fetch :: "get_func \<Rightarrow> bool \<Rightarrow> string \<Rightarrow> Item" where
  "fetch get cancelled key =
     (case get cancelled key of
        Ok (Ok data) \<Rightarrow> \<lparr>itKey = key, itData = data, itErr = None\<rparr>
      | Ok (Err e) \<Rightarrow> \<lparr>itKey = key, itData = [], itErr = Some (''prefetch read '' @ key @ '': '' @ e)\<rparr>
      | Err e \<Rightarrow> \<lparr>itKey = key, itData = [], itErr = Some (''prefetch '' @ key @ '': '' @ e)\<rparr>
      | _ \<Rightarrow> \<lparr>itKey = key, itData = [], itErr = Some []\<rparr>)"

lemma itKey_fetch [simp]: "itKey (fetch get b key) = key"
  by (auto simp: fetch_def split: outcome.splits)

subsection \<open>State\<close>

datatype producer = PAcquire | PSend | PDone

datatype emitter = EWait | EHave nat | ESend Item | EDone

record Prefetcher =
  pfDepth :: nat
  pfProducer :: producer
  pfNext :: nat
  pfSem :: nat
  pfFutures :: "nat list"
  pfSlots :: "nat \<rightharpoonup> Item"
  pfRunning :: "nat list"
  pfReleasing :: nat
  pfEmitter :: emitter
  pfOut :: "Item list"
  pfCancelled :: bool

text \<open>\<^verbatim>\<open>NewPrefetcher\<close> and the start of \<^verbatim>\<open>Stream\<close>.\<close>

definition NewPrefetcher :: "int \<Rightarrow> nat" where
  "NewPrefetcher depth = (if depth < 1 then 1 else nat depth)"

definition Stream :: "nat \<Rightarrow> Prefetcher" where
  "Stream depth = \<lparr>pfDepth = depth, pfProducer = PAcquire, pfNext = 0, pfSem = 0, pfFutures = [], pfSlots = Map.empty, pfRunning = [],
     pfReleasing = 0, pfEmitter = EWait, pfOut = [], pfCancelled = False\<rparr>"

subsection \<open>Steps\<close>

inductive pf_step :: "get_func \<Rightarrow> string list \<Rightarrow> Prefetcher \<Rightarrow> Prefetcher \<Rightarrow> bool" for get keys where
  acquire: "pfProducer p = PAcquire \<Longrightarrow> pfNext p < length keys \<Longrightarrow> pfSem p < pfDepth p \<Longrightarrow>
    pf_step get keys p (p\<lparr>pfSem := pfSem p + 1, pfProducer := PSend\<rparr>)"
| acquire_cancel: "pfProducer p = PAcquire \<Longrightarrow> pfNext p < length keys \<Longrightarrow> pfCancelled p \<Longrightarrow> pf_step get keys p (p\<lparr>pfProducer := PDone\<rparr>)"
| produced: "pfProducer p = PAcquire \<Longrightarrow> pfNext p = length keys \<Longrightarrow> pf_step get keys p (p\<lparr>pfProducer := PDone\<rparr>)"
| send: "pfProducer p = PSend \<Longrightarrow> length (pfFutures p) < pfDepth p \<Longrightarrow>
    pf_step get keys p (p\<lparr>pfFutures := pfFutures p @ [pfNext p], pfRunning := pfNext p # pfRunning p, pfNext := pfNext p + 1, pfProducer := PAcquire\<rparr>)"
| send_cancel: "pfProducer p = PSend \<Longrightarrow> pfCancelled p \<Longrightarrow> pf_step get keys p (p\<lparr>pfSem := pfSem p - 1, pfProducer := PDone\<rparr>)"
| deliver: "i \<in> set (pfRunning p) \<Longrightarrow>
    pf_step get keys p (p\<lparr>pfSlots := (pfSlots p)(i \<mapsto> fetch get (pfCancelled p) (keys ! i)), pfRunning := remove1 i (pfRunning p),
      pfReleasing := pfReleasing p + 1\<rparr>)"
| release: "0 < pfReleasing p \<Longrightarrow> pf_step get keys p (p\<lparr>pfReleasing := pfReleasing p - 1, pfSem := pfSem p - 1\<rparr>)"
| take_future: "pfEmitter p = EWait \<Longrightarrow> pfFutures p = f # fs \<Longrightarrow> pf_step get keys p (p\<lparr>pfEmitter := EHave f, pfFutures := fs\<rparr>)"
| drained: "pfEmitter p = EWait \<Longrightarrow> pfFutures p = [] \<Longrightarrow> pfProducer p = PDone \<Longrightarrow> pf_step get keys p (p\<lparr>pfEmitter := EDone\<rparr>)"
| receive: "pfEmitter p = EHave f \<Longrightarrow> pfSlots p f = Some it \<Longrightarrow> pf_step get keys p (p\<lparr>pfEmitter := ESend it\<rparr>)"
| receive_cancel: "pfEmitter p = EHave f \<Longrightarrow> pfCancelled p \<Longrightarrow> pf_step get keys p (p\<lparr>pfEmitter := EDone\<rparr>)"
| emit_item: "pfEmitter p = ESend it \<Longrightarrow> pf_step get keys p (p\<lparr>pfOut := pfOut p @ [it], pfEmitter := EWait\<rparr>)"
| emit_cancel: "pfEmitter p = ESend it \<Longrightarrow> pfCancelled p \<Longrightarrow> pf_step get keys p (p\<lparr>pfEmitter := EDone\<rparr>)"
| cancel: "\<not> pfCancelled p \<Longrightarrow> pf_step get keys p (p\<lparr>pfCancelled := True\<rparr>)"

subsection \<open>The invariant\<close>

text \<open>An item of a key, as fetched before or (when the context was cancelled) after the cancellation.\<close>

definition item_of :: "get_func \<Rightarrow> string list \<Rightarrow> bool \<Rightarrow> nat \<Rightarrow> Item \<Rightarrow> bool" where
  "item_of get keys cancelled i it \<longleftrightarrow> (\<exists>b. (b \<longrightarrow> cancelled) \<and> it = fetch get b (keys ! i))"

text \<open>The futures between the consumer and the producer are consecutive.\<close>

fun in_line :: "get_func \<Rightarrow> string list \<Rightarrow> Prefetcher \<Rightarrow> emitter \<Rightarrow> bool" where
  "in_line get keys p EWait \<longleftrightarrow> pfFutures p = [length (pfOut p)..<pfNext p]"
| "in_line get keys p (EHave f) \<longleftrightarrow> f # pfFutures p = [length (pfOut p)..<pfNext p]"
| "in_line get keys p (ESend it) \<longleftrightarrow> length (pfOut p) < pfNext p \<and> pfFutures p = [Suc (length (pfOut p))..<pfNext p]
     \<and> item_of get keys (pfCancelled p) (length (pfOut p)) it"
| "in_line get keys p EDone \<longleftrightarrow> pfCancelled p \<or> pfProducer p = PDone \<and> length (pfOut p) = pfNext p"

definition pf_sem_ok :: "Prefetcher \<Rightarrow> bool" where
  "pf_sem_ok p \<longleftrightarrow> pfSem p = (if pfProducer p = PSend then 1 else 0) + length (pfRunning p) + pfReleasing p \<and> pfSem p \<le> pfDepth p
     \<and> length (pfFutures p) \<le> pfDepth p"

definition pf_data_ok :: "get_func \<Rightarrow> string list \<Rightarrow> Prefetcher \<Rightarrow> bool" where
  "pf_data_ok get keys p \<longleftrightarrow> distinct (pfRunning p) \<and> set (pfRunning p) \<subseteq> {..<pfNext p}
     \<and> (\<forall>i \<ge> pfNext p. pfSlots p i = None)
     \<and> (\<forall>i < pfNext p. if i \<in> set (pfRunning p) then pfSlots p i = None else \<exists>it. pfSlots p i = Some it \<and> item_of get keys (pfCancelled p) i it)
     \<and> length (pfOut p) \<le> pfNext p \<and> (\<forall>i < length (pfOut p). item_of get keys (pfCancelled p) i (pfOut p ! i))"

definition pf_order_ok :: "get_func \<Rightarrow> string list \<Rightarrow> Prefetcher \<Rightarrow> bool" where
  "pf_order_ok get keys p \<longleftrightarrow> in_line get keys p (pfEmitter p) \<and> pfNext p \<le> length keys \<and> (pfProducer p = PSend \<longrightarrow> pfNext p < length keys)
     \<and> (pfProducer p = PDone \<and> \<not> pfCancelled p \<longrightarrow> pfNext p = length keys)"

lemmas pf_ok_defs = pf_sem_ok_def pf_data_ok_def pf_order_ok_def

lemma item_of_cancel: "item_of get keys b i it \<Longrightarrow> item_of get keys True i it"
  by (auto simp: item_of_def)

lemma item_of_fetch: "item_of get keys b i (fetch get b (keys ! i))"
  by (auto simp: item_of_def)

lemma pf_start: "pf_sem_ok (Stream d)" "pf_data_ok get keys (Stream d)" "pf_order_ok get keys (Stream d)"
  by (simp_all add: pf_ok_defs Stream_def)

lemma pf_sem_step: "pf_step get keys p p' \<Longrightarrow> pf_sem_ok p \<Longrightarrow> pf_sem_ok p'"
proof (induction rule: pf_step.induct)
  case (deliver i p)
  then show ?case using length_pos_if_in_set [OF deliver(1)] by (simp add: pf_sem_ok_def length_remove1)
qed (auto simp: pf_sem_ok_def split: if_splits)

lemma pf_data_step: "pf_step get keys p p' \<Longrightarrow> pf_data_ok get keys p \<Longrightarrow> pf_order_ok get keys p \<Longrightarrow> pf_data_ok get keys p'"
proof (induction rule: pf_step.induct)
  case (deliver i p)
  then show ?case by (auto simp: pf_data_ok_def item_of_fetch dest: notin_set_remove1)
next
  case (emit_item p it)
  then show ?case by (auto simp: pf_data_ok_def pf_order_ok_def nth_append less_Suc_eq)
next
  case (cancel p)
  then show ?case unfolding pf_data_ok_def by simp (metis item_of_cancel)
qed (auto simp: pf_data_ok_def less_Suc_eq)

lemma in_line_same:
  "in_line get keys p e \<Longrightarrow> pfFutures p' = pfFutures p \<Longrightarrow> pfOut p' = pfOut p \<Longrightarrow> pfNext p' = pfNext p \<Longrightarrow> pfCancelled p' = pfCancelled p \<Longrightarrow>
     (pfProducer p = PDone \<Longrightarrow> pfProducer p' = PDone) \<Longrightarrow> in_line get keys p' e"
  by (cases e) auto

lemma pf_order_step: "pf_step get keys p p' \<Longrightarrow> pf_data_ok get keys p \<Longrightarrow> pf_order_ok get keys p \<Longrightarrow> pf_order_ok get keys p'"
proof (induction rule: pf_step.induct)
  case (receive p f it)
  then have line: "f # pfFutures p = [length (pfOut p)..<pfNext p]" by (simp add: pf_order_ok_def)
  then have lt: "length (pfOut p) < pfNext p" by (metis list.distinct(1) upt_eq_Nil_conv not_less)
  with line have f: "f = length (pfOut p)" "pfFutures p = [Suc (length (pfOut p))..<pfNext p]" by (simp_all add: upt_conv_Cons)
  with receive lt have "item_of get keys (pfCancelled p) (length (pfOut p)) it" by (auto simp: pf_data_ok_def split: if_splits)
  with receive lt f show ?case by (simp add: pf_order_ok_def)
next
  case (send p)
  then show ?case by (cases "pfEmitter p") (auto simp: pf_order_ok_def pf_data_ok_def)
next
  case (cancel p)
  then show ?case by (cases "pfEmitter p") (auto simp: pf_order_ok_def intro: item_of_cancel)
next
  case (drained p)
  then have "[length (pfOut p)..<pfNext p] = []" by (simp add: pf_order_ok_def)
  then have "pfNext p \<le> length (pfOut p)" by (simp only: upt_eq_Nil_conv) linarith
  with drained show ?case by (simp add: pf_order_ok_def pf_data_ok_def)
next
  case (take_future p f fs)
  then show ?case by (simp add: pf_order_ok_def)
next
  case (emit_item p it)
  then show ?case by (simp add: pf_order_ok_def)
next
  case (receive_cancel p f)
  then show ?case by (simp add: pf_order_ok_def)
next
  case (emit_cancel p it)
  then show ?case by (simp add: pf_order_ok_def)
qed (auto simp: pf_order_ok_def intro: in_line_same)

subsection \<open>Every run ends\<close>

definition pf_weight :: "nat \<Rightarrow> Prefetcher \<Rightarrow> nat" where
  "pf_weight n p = 20 * (n - pfNext p) + (case pfProducer p of PAcquire \<Rightarrow> 2 | PSend \<Rightarrow> 1 | PDone \<Rightarrow> 0) + 2 * length (pfRunning p) + pfReleasing p
     + 4 * length (pfFutures p) + (case pfEmitter p of EWait \<Rightarrow> 1 | EHave _ \<Rightarrow> 4 | ESend _ \<Rightarrow> 3 | EDone \<Rightarrow> 0) + (if pfCancelled p then 0 else 1)"

lemma pf_step_weight: "pf_step get keys p p' \<Longrightarrow> pf_order_ok get keys p \<Longrightarrow> pf_weight (length keys) p' < pf_weight (length keys) p"
proof (induction rule: pf_step.induct)
  case (deliver i p)
  then obtain n where "length (pfRunning p) = Suc n" using length_pos_if_in_set gr0_conv_Suc by metis
  with deliver show ?case by (simp add: pf_weight_def length_remove1)
next
  case (send p)
  then have "length keys - pfNext p = Suc (length keys - Suc (pfNext p))" by (simp add: pf_order_ok_def Suc_diff_Suc)
  with send show ?case by (simp add: pf_weight_def)
qed (simp_all add: pf_weight_def)

lemma pf_reach:
  assumes "(pf_step get keys)\<^sup>*\<^sup>* (Stream d) p"
  shows "pf_sem_ok p" "pf_data_ok get keys p" "pf_order_ok get keys p" "pfDepth p = d"
proof -
  have "pf_sem_ok p \<and> pf_data_ok get keys p \<and> pf_order_ok get keys p \<and> pfDepth p = d" using assms
  proof (induction rule: rtranclp_induct)
    case base
    then show ?case by (simp add: pf_start) (simp add: Stream_def)
  next
    case (step p p')
    moreover have "pfDepth p' = pfDepth p" using step(2) by (induction rule: pf_step.induct) simp_all
    ultimately show ?case using pf_sem_step pf_data_step pf_order_step by metis
  qed
  then show "pf_sem_ok p" "pf_data_ok get keys p" "pf_order_ok get keys p" "pfDepth p = d" by simp_all
qed

text \<open>When nothing but a cancellation can happen, both goroutines and every fetch have ended and the semaphore is free.\<close>

lemma pf_stuck:
  assumes ok: "pf_sem_ok p" "pf_data_ok get keys p" "pf_order_ok get keys p" and d: "0 < pfDepth p"
    and stuck: "\<And>p'. pf_step get keys p p' \<Longrightarrow> pfCancelled p' \<noteq> pfCancelled p"
  shows "pfProducer p = PDone \<and> pfEmitter p = EDone \<and> pfRunning p = [] \<and> pfReleasing p = 0 \<and> pfSem p = 0"
proof -
  have run: "pfRunning p = []"
  proof (rule ccontr)
    assume "pfRunning p \<noteq> []"
    then have "hd (pfRunning p) \<in> set (pfRunning p)" by simp
    from stuck [OF pf_step.deliver [OF this]] show False by simp
  qed
  have rel: "pfReleasing p = 0" using stuck [OF pf_step.release] by (cases "pfReleasing p") auto
  have sem: "pfSem p = (if pfProducer p = PSend then 1 else 0)" using ok(1) run rel by (simp add: pf_sem_ok_def)
  have line: "in_line get keys p (pfEmitter p)" "pfNext p \<le> length keys" using ok(3) by (simp_all add: pf_order_ok_def)
  have emit: "pfEmitter p = EDone \<or> pfEmitter p = EWait \<and> pfFutures p = [] \<and> pfProducer p \<noteq> PDone"
  proof (cases "pfEmitter p")
    case EWait
    with stuck [OF pf_step.take_future [OF EWait]] stuck [OF pf_step.drained [OF EWait]] show ?thesis by (cases "pfFutures p") auto
  next
    case (EHave f)
    with line(1) have "f \<in> set [length (pfOut p)..<pfNext p]" by (metis in_line.simps(2) list.set_intros(1))
    then have "f < pfNext p" by simp
    with ok(2) run obtain it where "pfSlots p f = Some it" by (auto simp: pf_data_ok_def)
    from stuck [OF pf_step.receive [OF EHave this]] show ?thesis by simp
  next
    case (ESend it)
    from stuck [OF pf_step.emit_item [OF this]] show ?thesis by simp
  qed simp
  have prod: "pfProducer p = PDone"
  proof (cases "pfProducer p")
    case PAcquire
    show ?thesis
    proof (cases "pfNext p = length keys")
      case True
      from stuck [OF pf_step.produced [OF PAcquire this]] show ?thesis by simp
    next
      case False
      with line(2) have "pfNext p < length keys" by simp
      from stuck [OF pf_step.acquire [OF PAcquire this]] sem d PAcquire show ?thesis by simp
    qed
  next
    case PSend
    from emit show ?thesis
    proof
      assume "pfEmitter p = EDone"
      with line(1) PSend have "pfCancelled p" by simp
      from stuck [OF pf_step.send_cancel [OF PSend this]] show ?thesis by simp
    next
      assume "pfEmitter p = EWait \<and> pfFutures p = [] \<and> pfProducer p \<noteq> PDone"
      with stuck [OF pf_step.send [OF PSend]] d show ?thesis by simp
    qed
  qed
  with emit run rel sem show ?thesis by simp
qed

text \<open>C36. Prefetching. In every state of every run the consumer has received the items of the first keys, in the order of the keys, each the
  outcome of its fetch; at most the configured number of fetches run and of futures wait. Every step is progress, so a run ends; and when
  nothing is left to do both goroutines and all fetches have ended with the semaphore free, and unless the context was cancelled the
  consumer has the item of every key.\<close>

theorem prefetch_in_order:
  assumes "(pf_step get keys)\<^sup>*\<^sup>* (Stream (NewPrefetcher depth)) p"
  shows "map itKey (pfOut p) = take (length (pfOut p)) keys
     \<and> (\<not> pfCancelled p \<longrightarrow> pfOut p = take (length (pfOut p)) (map (fetch get False) keys))
     \<and> length (pfRunning p) \<le> NewPrefetcher depth
     \<and> length (pfFutures p) \<le> NewPrefetcher depth
     \<and> ((\<forall>p'. pf_step get keys p p' \<longrightarrow> pfCancelled p' \<noteq> pfCancelled p) \<longrightarrow>
          pfProducer p = PDone \<and> pfEmitter p = EDone \<and> pfRunning p = [] \<and> pfReleasing p = 0 \<and> pfSem p = 0
          \<and> (\<not> pfCancelled p \<longrightarrow> pfOut p = map (fetch get False) keys))
     \<and> (\<forall>p'. pf_step get keys p p' \<longrightarrow> pf_weight (length keys) p' < pf_weight (length keys) p)"
proof -
  note ok = pf_reach [OF assms]
  let ?m = "length (pfOut p)"
  have m: "?m \<le> length keys" and out: "\<And>i. i < ?m \<Longrightarrow> item_of get keys (pfCancelled p) i (pfOut p ! i)"
    using ok(2,3) by (auto simp: pf_data_ok_def pf_order_ok_def)
  have "itKey (pfOut p ! i) = keys ! i" if "i < ?m" for i using out [OF that] by (auto simp: item_of_def)
  with m have keys: "map itKey (pfOut p) = take ?m keys" by (simp add: list_eq_iff_nth_eq)
  have "pfOut p ! i = fetch get False (keys ! i)" if "i < ?m" "\<not> pfCancelled p" for i using out [OF that(1)] that(2) by (auto simp: item_of_def)
  with m have items: "pfOut p = take ?m (map (fetch get False) keys)" if "\<not> pfCancelled p" using that by (simp add: list_eq_iff_nth_eq)
  have run: "length (pfRunning p) \<le> NewPrefetcher depth" "length (pfFutures p) \<le> NewPrefetcher depth"
    using ok(1,4) by (auto simp: pf_sem_ok_def)
  have ends: "pfProducer p = PDone \<and> pfEmitter p = EDone \<and> pfRunning p = [] \<and> pfReleasing p = 0 \<and> pfSem p = 0
          \<and> (\<not> pfCancelled p \<longrightarrow> pfOut p = map (fetch get False) keys)"
    if "\<forall>p'. pf_step get keys p p' \<longrightarrow> pfCancelled p' \<noteq> pfCancelled p"
  proof -
    have "0 < pfDepth p" by (simp add: ok(4) NewPrefetcher_def)
    with pf_stuck [OF ok(1-3)] that have st: "pfProducer p = PDone \<and> pfEmitter p = EDone \<and> pfRunning p = [] \<and> pfReleasing p = 0 \<and> pfSem p = 0" by blast
    then have "?m = length keys" if "\<not> pfCancelled p" using ok(3) that by (simp add: pf_order_ok_def)
    with st items show ?thesis by auto
  qed
  show ?thesis using keys items run ends pf_step_weight ok(3) by blast
qed

lemma pf_run_out:
  assumes "(pf_step get keys)\<^sup>*\<^sup>* (Stream d) p" "\<not> pfCancelled p"
  shows "\<exists>p'. (pf_step get keys)\<^sup>*\<^sup>* (Stream d) p' \<and> \<not> pfCancelled p' \<and> (\<forall>q. pf_step get keys p' q \<longrightarrow> pfCancelled q \<noteq> pfCancelled p')"
  using assms
proof (induction "pf_weight (length keys) p" arbitrary: p rule: less_induct)
  case less
  show ?case
  proof (cases "\<exists>q. pf_step get keys p q \<and> pfCancelled q = pfCancelled p")
    case True
    then obtain q where q: "pf_step get keys p q" "\<not> pfCancelled q" using less.prems(2) by auto
    show ?thesis using pf_step_weight [OF q(1) pf_reach(3) [OF less.prems(1)]] rtranclp.rtrancl_into_rtrancl [OF less.prems(1) q(1)] q(2)
      by (rule less.hyps)
  next
    case False
    with less.prems show ?thesis by blast
  qed
qed

definition demo_get :: get_func where
  "demo_get cancelled key = (if key = ''a'' then Ok (Ok [1, 2]) else Err ''gone'')"

theorem prefetch_in_order_witness:
  "\<exists>p. (pf_step demo_get [''a'', ''b''])\<^sup>*\<^sup>* (Stream (NewPrefetcher 0)) p \<and> pfEmitter p = EDone
     \<and> pfOut p = [\<lparr>itKey = ''a'', itData = [1, 2], itErr = None\<rparr>, \<lparr>itKey = ''b'', itData = [], itErr = Some ''prefetch b: gone''\<rparr>]"
proof -
  have "\<not> pfCancelled (Stream (NewPrefetcher 0))" by (simp add: Stream_def)
  then obtain p where p: "(pf_step demo_get [''a'', ''b''])\<^sup>*\<^sup>* (Stream (NewPrefetcher 0)) p" "\<not> pfCancelled p"
    "\<forall>q. pf_step demo_get [''a'', ''b''] p q \<longrightarrow> pfCancelled q \<noteq> pfCancelled p"
    using pf_run_out [OF rtranclp.rtrancl_refl] by blast
  then have "pfEmitter p = EDone \<and> pfOut p = map (fetch demo_get False) [''a'', ''b'']" using prefetch_in_order [OF p(1)] by blast
  with p(1) show ?thesis by (intro exI [of _ p]) (simp add: fetch_def demo_get_def)
qed

end
