(* ===== verification/Package.thy ===== *)
theory Package
  imports Auth Keys "HOL-Library.List_Lexorder" "HOL-Library.Char_ord"
begin

section \<open>Algorithm packages\<close>

text \<open>
  The admission of user code: \<^verbatim>\<open>internal/sandbox/manifest.go\<close>, \<^verbatim>\<open>package.go\<close>, \<^verbatim>\<open>result.go\<close>, the image reference of
  \<^verbatim>\<open>builder.go\<close>, \<^verbatim>\<open>internal/registry/validator.go\<close>, and the registration handler of \<^verbatim>\<open>cmd/server/algorithms.go\<close>. The zip reader, the JSON
  decoder and the registry database are parameters. \<^verbatim>\<open>path.Clean\<close> works on the components between slashes, as documented; on the
  platform \<^verbatim>\<open>filepath.Clean\<close> is the same function. Texts of wrapped errors are left out; quoted strings are not escaped.
\<close>

subsection \<open>Clean paths\<close>

fun clean_loop :: "bool \<Rightarrow> string list \<Rightarrow> string list \<Rightarrow> string list" where
  "clean_loop rooted out [] = rev out"
| "clean_loop rooted out (c # cs) =
     (if c = [] \<or> c = ''.'' then clean_loop rooted out cs
      else if c = ''..'' then
        (case out of
           [] \<Rightarrow> if rooted then clean_loop rooted [] cs else clean_loop rooted [''..''] cs
         | t # ts \<Rightarrow> if t \<noteq> ''..'' then clean_loop rooted ts cs else clean_loop rooted (''..'' # out) cs)
      else clean_loop rooted (c # out) cs)"

fun join_slash :: "string list \<Rightarrow> string" where
  "join_slash [] = []"
| "join_slash [c] = c"
| "join_slash (c # cs) = c @ CHR ''/'' # join_slash cs"

definition IsAbs :: "string \<Rightarrow> bool" where
  "IsAbs p \<longleftrightarrow> p \<noteq> [] \<and> hd p = CHR ''/''"

definition Clean :: "string \<Rightarrow> string" where
  "Clean p =
     (let out = clean_loop (IsAbs p) [] (split_on (CHR ''/'') p)
      in if IsAbs p then CHR ''/'' # join_slash out
         else if out = [] then ''.'' else join_slash out)"

text \<open>The test of \<^verbatim>\<open>ParsePackage\<close> and \<^verbatim>\<open>CollectOutput\<close> on a cleaned path.\<close>

definition unsafe_path :: "string \<Rightarrow> bool" where
  "unsafe_path name \<longleftrightarrow> IsAbs name \<or> name = ''..'' \<or> (length name \<ge> 3 \<and> take 3 name = ''../'')"

subsection \<open>Manifests\<close>

datatype ParallelismMode = DataParallel | Pipeline | AllReduce | MapReduce | OtherMode string

definition valid_mode :: "ParallelismMode \<Rightarrow> bool" where
  "valid_mode m = (case m of OtherMode _ \<Rightarrow> False | _ \<Rightarrow> True)"

fun mode_string :: "ParallelismMode \<Rightarrow> string" where
  "mode_string DataParallel = ''data_parallel''"
| "mode_string Pipeline = ''pipeline''"
| "mode_string AllReduce = ''all_reduce''"
| "mode_string MapReduce = ''map_reduce''"
| "mode_string (OtherMode s) = s"

record Manifest =
  mfName :: string
  mfVersion :: string
  mfBaseImage :: string
  mfEntrypoint :: string
  mfGPURequired :: bool
  mfGPUCount :: int
  mfMemoryGB :: int
  mfTimeoutSec :: int
  mfParallelism :: ParallelismMode

definition checkShape :: "Manifest \<Rightarrow> string option" where
  "checkShape m =
     (if mfName m = [] then Some ''manifest: name is required''
      else if mfVersion m = [] then Some ''manifest: version is required''
      else if mfEntrypoint m = [] then Some ''manifest: entrypoint is required''
      else if mfMemoryGB m \<le> 0 then Some ''manifest: memory_gb must be positive''
      else if mfTimeoutSec m \<le> 0 then Some ''manifest: timeout_s must be positive''
      else if mfGPURequired m \<and> mfGPUCount m < 1 then Some (''manifest: gpu_required set but gpu_count is '' @ fmt_d (mfGPUCount m))
      else if \<not> valid_mode (mfParallelism m) then Some (''manifest: unknown parallelism mode '' @ quote (mode_string (mfParallelism m)))
      else None)"

subsection \<open>Packages\<close>

definition fileDockerfile :: string where "fileDockerfile = ''Dockerfile''"
definition fileEntrypoint :: string where "fileEntrypoint = ''main.py''"
definition fileRequirements :: string where "fileRequirements = ''requirements.txt''"
definition fileManifest :: string where "fileManifest = ''manifest.json''"

definition maxPackageBytes :: nat where
  "maxPackageBytes = 256 * 2 ^ 20"

record Package =
  pkManifest :: Manifest
  pkFiles :: "(string, byte list) gomap"
  pkDigest :: string

text \<open>An entry of the archive: what it decompresses to and the error that ends it, if any.\<close>

record zip_entry =
  zeName :: string
  zeIsDir :: bool
  zeOpenErr :: "string option"
  zeBytes :: "byte list"
  zeReadErr :: "string option"

text \<open>\<^verbatim>\<open>io.ReadAll\<close> of an \<^verbatim>\<open>io.LimitReader\<close>.\<close>

definition read_limited :: "nat \<Rightarrow> byte list \<Rightarrow> string option \<Rightarrow> byte list outcome" where
  "read_limited limit bs err =
     (if limit \<le> length bs then Ok (take limit bs) else case err of None \<Rightarrow> Ok bs | Some e \<Rightarrow> Err e)"

fun package_files :: "zip_entry list \<Rightarrow> nat \<Rightarrow> (string, byte list) gomap \<Rightarrow> (string, byte list) gomap outcome" where
  "package_files [] total_read files = Ok files"
| "package_files (f # fs) total_read files =
     (if zeIsDir f then package_files fs total_read files
      else let name = Clean (zeName f)
           in if unsafe_path name then Err (''package: unsafe path '' @ quote (zeName f))
              else case zeOpenErr f of
                     Some e \<Rightarrow> Err (''open '' @ name @ '': '' @ e)
                   | None \<Rightarrow>
                       (case read_limited (maxPackageBytes - total_read + 1) (zeBytes f) (zeReadErr f) of
                          Ok data \<Rightarrow>
                            (if total_read + length data > maxPackageBytes
                             then Err (''package exceeds '' @ dec_nat maxPackageBytes @ '' bytes uncompressed'')
                             else package_files fs (total_read + length data) (AList.update name data files))
                        | Err e \<Rightarrow> Err (''read '' @ name @ '': '' @ e)
                        | Panic \<Rightarrow> Panic))"

text \<open>What \<^verbatim>\<open>contentDigest\<close> hashes, and the digest.\<close>

definition digest_entry :: "string \<times> byte list \<Rightarrow> byte list" where
  "digest_entry = (\<lambda>(name, data). bytes_of name @ [0] @ bytes_of (dec_nat (length data)) @ [0] @ data)"

definition digest_input :: "(string, byte list) gomap \<Rightarrow> byte list" where
  "digest_input files = concat (map (\<lambda>name. digest_entry (name, lookup0 [] files name)) (sort (map fst files)))"

definition contentDigest :: "(string, byte list) gomap \<Rightarrow> string" where
  "contentDigest files = hex_encode (sha256_sum (digest_input files))"

fun missing_file :: "string list \<Rightarrow> (string, byte list) gomap \<Rightarrow> string option" where
  "missing_file [] files = None"
| "missing_file (r # rs) files = (if map_of files r = None then Some r else missing_file rs files)"

definition ParsePackage ::
  "(byte list \<Rightarrow> zip_entry list outcome) \<Rightarrow> (byte list \<Rightarrow> Manifest outcome) \<Rightarrow> byte list \<Rightarrow> Package outcome" where
  "ParsePackage openZip unmarshal archive =
     (case openZip archive of
        Err e \<Rightarrow> Err (''open package zip: '' @ e)
      | Panic \<Rightarrow> Panic
      | Ok entries \<Rightarrow>
          (case package_files entries 0 [] of
             Err e \<Rightarrow> Err e
           | Panic \<Rightarrow> Panic
           | Ok files \<Rightarrow>
               (case missing_file [fileDockerfile, fileEntrypoint, fileRequirements, fileManifest] files of
                  Some r \<Rightarrow> Err (''package missing required file '' @ quote r)
                | None \<Rightarrow>
                    (case unmarshal (lookup0 [] files fileManifest) of
                       Err e \<Rightarrow> Err (''decode manifest.json: '' @ e)
                     | Panic \<Rightarrow> Panic
                     | Ok m \<Rightarrow>
                         (case checkShape m of
                            Some e \<Rightarrow> Err e
                          | None \<Rightarrow> Ok \<lparr>pkManifest = m, pkFiles = files, pkDigest = contentDigest files\<rparr>)))))"

subsection \<open>Images, quotas and registration\<close>

definition ImageRef :: "string \<Rightarrow> Package \<Rightarrow> string" where
  "ImageRef registry p = registry @ ''/'' @ mfName (pkManifest p) @ '':'' @ take 12 (pkDigest p)"

record Quota =
  qtMaxCPUCores :: real
  qtMaxMemoryGB :: int
  qtMaxGPUCount :: int
  qtMaxTimeoutSec :: int

definition DefaultQuota :: Quota where
  "DefaultQuota = \<lparr>qtMaxCPUCores = 16, qtMaxMemoryGB = 128, qtMaxGPUCount = 4, qtMaxTimeoutSec = 3600\<rparr>"

definition allowedBaseImages :: "string list" where
  "allowedBaseImages = [''nvidia/cuda:'', ''pytorch/pytorch:'', ''tensorflow/tensorflow:'', ''python:'', ''petabyte/base:'']"

definition HasPrefix :: "string \<Rightarrow> string \<Rightarrow> bool" where
  "HasPrefix s p \<longleftrightarrow> take (length p) s = p"

fun any_prefix :: "string \<Rightarrow> string list \<Rightarrow> bool" where
  "any_prefix img [] = False"
| "any_prefix img (p # ps) = (if HasPrefix img p then True else any_prefix img ps)"

definition baseImageAllowed :: "string \<Rightarrow> bool" where
  "baseImageAllowed img = any_prefix img allowedBaseImages"

definition Validate :: "Manifest \<Rightarrow> Quota \<Rightarrow> string option" where
  "Validate m q =
     (if mfMemoryGB m > qtMaxMemoryGB q then Some (''memory_gb '' @ fmt_d (mfMemoryGB m) @ '' exceeds quota '' @ fmt_d (qtMaxMemoryGB q))
      else if mfGPUCount m > qtMaxGPUCount q then Some (''gpu_count '' @ fmt_d (mfGPUCount m) @ '' exceeds quota '' @ fmt_d (qtMaxGPUCount q))
      else if mfTimeoutSec m > qtMaxTimeoutSec q then Some (''timeout_s '' @ fmt_d (mfTimeoutSec m) @ '' exceeds quota '' @ fmt_d (qtMaxTimeoutSec q))
      else if \<not> baseImageAllowed (mfBaseImage m) then Some (''base image '' @ quote (mfBaseImage m) @ '' not in allowlist'')
      else None)"

record Algorithm =
  alName :: string
  alVersion :: string
  alOwner :: string
  alImageRef :: string
  alDigest :: string
  alManifest :: Manifest

definition imageRegistry :: string where
  "imageRegistry = ''registry.internal/petabyte''"

definition maxUploadBytes :: nat where
  "maxUploadBytes = 128 * 2 ^ 20"

text \<open>\<^verbatim>\<open>readPackage\<close>: the body is cut at the upload limit. The result carries the HTTP status.\<close>

definition readPackage ::
  "(byte list \<Rightarrow> zip_entry list outcome) \<Rightarrow> (byte list \<Rightarrow> Manifest outcome) \<Rightarrow> byte list \<Rightarrow> string option \<Rightarrow> Package outcome \<times> int" where
  "readPackage openZip unmarshal body bodyErr =
     (case read_limited maxUploadBytes body bodyErr of
        Ok bs \<Rightarrow> (case ParsePackage openZip unmarshal bs of Ok p \<Rightarrow> (Ok p, 200) | r \<Rightarrow> (r, 400))
      | Err e \<Rightarrow> (Err e, 400)
      | Panic \<Rightarrow> (Panic, 500))"

text \<open>\<^verbatim>\<open>POST /v1/algorithms\<close>: the status, the registered algorithm or the error, and the registry after the call.\<close>

definition post_algorithm ::
  "(byte list \<Rightarrow> zip_entry list outcome) \<Rightarrow> (byte list \<Rightarrow> Manifest outcome) \<Rightarrow> (Algorithm \<Rightarrow> 'r \<Rightarrow> 'r \<times> string option) \<Rightarrow> Quota
     \<Rightarrow> string \<Rightarrow> byte list \<Rightarrow> string option \<Rightarrow> 'r \<Rightarrow> (int \<times> Algorithm outcome) \<times> 'r" where
  "post_algorithm openZip unmarshal register q tenant body bodyErr reg =
     (case readPackage openZip unmarshal body bodyErr of
        (Err e, code) \<Rightarrow> ((code, Err e), reg)
      | (Panic, code) \<Rightarrow> ((code, Panic), reg)
      | (Ok pkg, _) \<Rightarrow>
          (case Validate (pkManifest pkg) q of
             Some e \<Rightarrow> ((422, Err e), reg)
           | None \<Rightarrow>
               let algo = \<lparr>alName = mfName (pkManifest pkg), alVersion = mfVersion (pkManifest pkg),
                     alOwner = (if tenant = [] then ''default'' else tenant), alImageRef = ImageRef imageRegistry pkg,
                     alDigest = pkDigest pkg, alManifest = pkManifest pkg\<rparr>
               in (case register algo reg of
                     (reg', Some e) \<Rightarrow> ((409, Err e), reg')
                   | (reg', None) \<Rightarrow> ((201, Ok algo), reg'))))"

subsection \<open>The output of an algorithm\<close>

record AlgorithmOutput =
  aoImagesProcessed :: int
  aoImagesFailed :: int
  aoArtifacts :: "string list"
  aoMetrics :: "(string, real) gomap"

fun check_artifacts :: "string list \<Rightarrow> string option" where
  "check_artifacts [] = None"
| "check_artifacts (a # as) =
     (if unsafe_path (Clean a) then Some (''artifact path escapes output volume: '' @ quote a) else check_artifacts as)"

text \<open>\<open>file\<close> is the content of \<^verbatim>\<open>result.json\<close>, \<open>Ok None\<close> when it does not exist.\<close>

definition CollectOutput :: "(byte list \<Rightarrow> AlgorithmOutput outcome) \<Rightarrow> byte list option outcome \<Rightarrow> AlgorithmOutput outcome" where
  "CollectOutput unmarshal file =
     (case file of
        Ok None \<Rightarrow> Err ''algorithm produced no result.json''
      | Err e \<Rightarrow> Err (''read result.json: '' @ e)
      | Panic \<Rightarrow> Panic
      | Ok (Some data) \<Rightarrow>
          (case unmarshal data of
             Err e \<Rightarrow> Err (''decode result.json: '' @ e)
           | Panic \<Rightarrow> Panic
           | Ok out \<Rightarrow> (case check_artifacts (aoArtifacts out) of Some e \<Rightarrow> Err e | None \<Rightarrow> Ok out)))"

subsection \<open>Paths that stay inside\<close>

text \<open>Walking a path from a directory: does it ever climb above the start? This is the reference for the test on cleaned paths.\<close>

fun escapes :: "nat \<Rightarrow> string list \<Rightarrow> bool" where
  "escapes d [] = False"
| "escapes d (c # cs) =
     (if c = [] \<or> c = ''.'' then escapes d cs
      else if c = ''..'' then d = 0 \<or> escapes (d - 1) cs
      else escapes (d + 1) cs)"

definition plain_comp :: "string \<Rightarrow> bool" where
  "plain_comp c \<longleftrightarrow> c \<noteq> [] \<and> c \<noteq> ''.'' \<and> c \<noteq> ''..'' \<and> CHR ''/'' \<notin> set c"

lemma split_on_free: "p \<in> set (split_on c s) \<Longrightarrow> c \<notin> set p"
  by (induction s arbitrary: p) (auto split: if_splits list.splits)

lemma split_on_join_slash: "cs \<noteq> [] \<Longrightarrow> \<forall>c \<in> set cs. CHR ''/'' \<notin> set c \<Longrightarrow> split_on (CHR ''/'') (join_slash cs) = cs"
  by (induction cs rule: join_slash.induct) (simp_all add: split_on_dot_free split_on_append)

text \<open>The stack of the loop is plain components over the parents that could not be resolved.\<close>

lemma clean_loop_shape:
  assumes "\<forall>c \<in> set ns. plain_comp c" "\<forall>c \<in> set cs. CHR ''/'' \<notin> set c"
  shows "\<exists>j ms. clean_loop False (ns @ replicate k ''..'') cs = replicate j ''..'' @ ms \<and> (\<forall>c \<in> set ms. plain_comp c)
     \<and> (j = 0 \<longleftrightarrow> k = 0 \<and> \<not> escapes (length ns) cs)"
  using assms
proof (induction cs arbitrary: ns k)
  case Nil
  then show ?case by (intro exI [of _ k] exI [of _ "rev ns"]) simp
next
  case (Cons c cs)
  consider "c = [] \<or> c = ''.''" | "c = ''..''" "ns = []" | n ns' where "c = ''..''" "ns = n # ns'" | "plain_comp c"
    using Cons.prems(2) unfolding plain_comp_def by (cases ns) auto
  then show ?case
  proof cases
    case 1
    then show ?thesis using Cons.IH [of ns k] Cons.prems by auto
  next
    case 2
    have "clean_loop False (ns @ replicate k ''..'') (c # cs) = clean_loop False ([] @ replicate (Suc k) ''..'') cs"
      using 2 by (cases k) simp_all
    then show ?thesis using Cons.IH [of "[]" "Suc k"] Cons.prems 2 by auto
  next
    case 3
    then have "n \<noteq> ''..''" using Cons.prems(1) by (simp add: plain_comp_def)
    then show ?thesis using Cons.IH [of ns' k] Cons.prems 3 by auto
  next
    case 4
    then show ?thesis using Cons.IH [of "c # ns" k] Cons.prems by (auto simp: plain_comp_def)
  qed
qed

lemma unsafe_iff_first: "unsafe_path p \<longleftrightarrow> IsAbs p \<or> hd (split_on (CHR ''/'') p) = ''..''"
proof (cases "\<exists>a b c q. p = a # b # c # q")
  case True
  then obtain a b c q where p: "p = a # b # c # q" by blast
  obtain h t where "split_on (CHR ''/'') q = h # t" by (cases "split_on (CHR ''/'') q") (auto simp: split_on_not_Nil)
  with p show ?thesis by (auto simp: unsafe_path_def IsAbs_def)
next
  case False
  then have "p = [] \<or> (\<exists>a. p = [a]) \<or> (\<exists>a b. p = [a, b])" by (metis neq_Nil_conv)
  then show ?thesis by (auto simp: unsafe_path_def IsAbs_def split: if_splits)
qed

definition inside :: "string \<Rightarrow> bool" where
  "inside p \<longleftrightarrow> \<not> IsAbs p \<and> ''..'' \<notin> set (split_on (CHR ''/'') p)"

lemma Clean_relative:
  assumes "\<not> IsAbs p"
  shows "unsafe_path (Clean p) \<longleftrightarrow> escapes 0 (split_on (CHR ''/'') p)" and "\<not> unsafe_path (Clean p) \<Longrightarrow> inside (Clean p)"
proof -
  let ?cs = "split_on (CHR ''/'') p"
  obtain j ms where l: "clean_loop False [] ?cs = replicate j ''..'' @ ms" and ms: "\<forall>c \<in> set ms. plain_comp c" and j: "j = 0 \<longleftrightarrow> \<not> escapes 0 ?cs"
    using clean_loop_shape [of "[]" ?cs 0] split_on_free by auto
  let ?out = "replicate j ''..'' @ ms"
  have "unsafe_path (Clean p) \<longleftrightarrow> j \<noteq> 0" and "j = 0 \<Longrightarrow> inside (Clean p)"
  proof (atomize (full), cases "?out = []")
    case True
    then have "Clean p = ''.''" using assms l by (simp add: Clean_def)
    then show "(unsafe_path (Clean p) \<longleftrightarrow> j \<noteq> 0) \<and> (j = 0 \<longrightarrow> inside (Clean p))"
      using True by (simp add: unsafe_path_def inside_def IsAbs_def)
  next
    case False
    then have cl: "Clean p = join_slash ?out" using assms l by (simp add: Clean_def)
    have "\<forall>c \<in> set ?out. CHR ''/'' \<notin> set c" using ms by (simp add: plain_comp_def ball_Un set_replicate_conv_if)
    from split_on_join_slash [OF False this] have sp: "split_on (CHR ''/'') (Clean p) = ?out" unfolding cl .
    have "\<not> IsAbs (Clean p)"
    proof
      assume "IsAbs (Clean p)"
      then have "hd (split_on (CHR ''/'') (Clean p)) = []" by (cases "Clean p") (simp_all add: IsAbs_def)
      moreover have "hd ?out \<noteq> []" using False ms by (cases j; cases ms; simp add: plain_comp_def)
      ultimately show False using sp by simp
    qed
    moreover have "hd ?out = ''..'' \<longleftrightarrow> j \<noteq> 0" using False ms by (cases j; cases ms; simp add: plain_comp_def)
    moreover have "''..'' \<notin> set ms" using ms by (auto simp: plain_comp_def)
    ultimately show "(unsafe_path (Clean p) \<longleftrightarrow> j \<noteq> 0) \<and> (j = 0 \<longrightarrow> inside (Clean p))"
      using sp unfolding unsafe_iff_first inside_def by simp
  qed
  with j show "unsafe_path (Clean p) \<longleftrightarrow> escapes 0 ?cs" "\<not> unsafe_path (Clean p) \<Longrightarrow> inside (Clean p)" by blast+
qed

lemma Clean_absolute: "IsAbs p \<Longrightarrow> unsafe_path (Clean p)"
  by (simp add: Clean_def unsafe_path_def IsAbs_def Let_def)

lemma Clean_test: "unsafe_path (Clean p) \<longleftrightarrow> IsAbs p \<or> escapes 0 (split_on (CHR ''/'') p)"
  using Clean_relative(1) Clean_absolute by blast

lemma Clean_inside: "\<not> unsafe_path (Clean p) \<Longrightarrow> inside (Clean p)"
  using Clean_relative(2) Clean_absolute by blast

subsection \<open>Accepted packages\<close>

definition plain_files :: "zip_entry list \<Rightarrow> zip_entry list" where
  "plain_files es = filter (\<lambda>e. \<not> zeIsDir e) es"

lemma read_limited_Ok: "read_limited limit bs err = Ok data \<Longrightarrow> length data < limit \<Longrightarrow> data = bs \<and> err = None"
  by (auto simp: read_limited_def split: if_splits option.splits)

text \<open>The loop succeeds exactly on safe names, readable entries and a total within the limit; the files are then the entries under their
  cleaned names, later ones first.\<close>

lemma package_files_Ok:
  assumes "n \<le> maxPackageBytes"
  shows "package_files es n files = Ok files' \<longleftrightarrow>
     (\<forall>e \<in> set (plain_files es). \<not> IsAbs (zeName e) \<and> \<not> escapes 0 (split_on (CHR ''/'') (zeName e)) \<and> zeOpenErr e = None \<and> zeReadErr e = None)
     \<and> n + sum_list (map (length \<circ> zeBytes) (plain_files es)) \<le> maxPackageBytes
     \<and> files' = foldl (\<lambda>m e. AList.update (Clean (zeName e)) (zeBytes e) m) files (plain_files es)"
  using assms
proof (induction es arbitrary: n files)
  case (Cons e es)
  show ?case
  proof (cases "zeIsDir e")
    case True
    with Cons show ?thesis by (simp add: plain_files_def)
  next
    case False
    note test = Clean_test [of "zeName e"]
    let ?good = "\<not> unsafe_path (Clean (zeName e)) \<and> zeOpenErr e = None \<and> zeReadErr e = None \<and> n + length (zeBytes e) \<le> maxPackageBytes"
    have step: "package_files (e # es) n files = Ok files' \<longleftrightarrow>
        ?good \<and> package_files es (n + length (zeBytes e)) (AList.update (Clean (zeName e)) (zeBytes e) files) = Ok files'"
      using False Cons.prems
      by (auto simp: Let_def read_limited_def split: outcome.splits option.splits if_splits)
    show ?thesis
    proof (cases ?good)
      case True
      then show ?thesis unfolding step using Cons.IH [of "n + length (zeBytes e)" "AList.update (Clean (zeName e)) (zeBytes e) files"] test False
        by (simp add: plain_files_def add.assoc)
    next
      case no: False
      then show ?thesis unfolding step using test False by (auto simp: plain_files_def)
    qed
  qed
qed (auto simp: plain_files_def)

lemma foldl_update_dom:
  "map_of (foldl (\<lambda>m e. AList.update (f e) (g e) m) files es) k = Some v \<Longrightarrow> map_of files k = Some v \<or> (\<exists>e \<in> set es. k = f e \<and> v = g e)"
  by (induction es arbitrary: files) (fastforce simp: update_conv' split: if_splits)+

lemma missing_file_None: "missing_file rs files = None \<longleftrightarrow> (\<forall>r \<in> set rs. map_of files r \<noteq> None)"
  by (induction rs) auto

text \<open>C37. Admission of packages. A package is accepted only when no entry of its archive, directories apart, is absolute or climbs above the
  directory it is unpacked in at any point of its path, the archive decompresses to at most 256 MiB, the four required files are there, and
  the manifest has a valid shape; every file of the package then lies inside the build directory under its cleaned name, with the bytes
  of an entry of the archive.\<close>

theorem accepted_package_is_safe:
  assumes "ParsePackage openZip unmarshal archive = Ok pkg"
  shows "\<exists>entries. openZip archive = Ok entries
     \<and> (\<forall>e \<in> set (plain_files entries). \<not> IsAbs (zeName e) \<and> \<not> escapes 0 (split_on (CHR ''/'') (zeName e)))
     \<and> sum_list (map (length \<circ> zeBytes) (plain_files entries)) \<le> 256 * 2 ^ 20
     \<and> (\<forall>name data. map_of (pkFiles pkg) name = Some data \<longrightarrow>
          inside name \<and> (\<exists>e \<in> set (plain_files entries). name = Clean (zeName e) \<and> data = zeBytes e))
     \<and> (\<forall>r \<in> {''Dockerfile'', ''main.py'', ''requirements.txt'', ''manifest.json''}. \<exists>data. map_of (pkFiles pkg) r = Some data)
     \<and> (\<exists>data. map_of (pkFiles pkg) ''manifest.json'' = Some data \<and> unmarshal data = Ok (pkManifest pkg))
     \<and> checkShape (pkManifest pkg) = None \<and> pkDigest pkg = contentDigest (pkFiles pkg)"
proof -
  from assms obtain entries files m where o: "openZip archive = Ok entries" and pf: "package_files entries 0 [] = Ok files"
    and miss: "missing_file [fileDockerfile, fileEntrypoint, fileRequirements, fileManifest] files = None"
    and um: "unmarshal (lookup0 [] files fileManifest) = Ok m" and sh: "checkShape m = None"
    and pkg: "pkg = \<lparr>pkManifest = m, pkFiles = files, pkDigest = contentDigest files\<rparr>"
    by (auto simp: ParsePackage_def split: outcome.splits option.splits)
  note ok = pf [unfolded package_files_Ok [OF le0]]
  have req: "\<exists>data. map_of files r = Some data" if "r \<in> {''Dockerfile'', ''main.py'', ''requirements.txt'', ''manifest.json''}" for r
    using miss [unfolded missing_file_None] that
    by (auto simp: fileDockerfile_def fileEntrypoint_def fileRequirements_def fileManifest_def)
  have files: "inside name \<and> (\<exists>e \<in> set (plain_files entries). name = Clean (zeName e) \<and> data = zeBytes e)" if "map_of files name = Some data" for name data
  proof -
    from that ok obtain e where e: "e \<in> set (plain_files entries)" "name = Clean (zeName e)" "data = zeBytes e"
      using foldl_update_dom [where f = "\<lambda>e. Clean (zeName e)" and g = zeBytes and files = "[]"] by fastforce
    with ok Clean_test Clean_inside [of "zeName e"] show ?thesis by blast
  qed
  have "\<exists>data. map_of files ''manifest.json'' = Some data \<and> unmarshal data = Ok m"
    using req [of "''manifest.json''"] um by (auto simp: lookup0_def fileManifest_def)
  then show ?thesis using o ok req files sh unfolding pkg by (intro exI [of _ entries]) (simp add: maxPackageBytes_def)
qed

definition demo_manifest :: Manifest where
  "demo_manifest = \<lparr>mfName = ''blur'', mfVersion = ''1'', mfBaseImage = ''python:3'', mfEntrypoint = ''main.py'', mfGPURequired = False,
     mfGPUCount = 0, mfMemoryGB = 2, mfTimeoutSec = 60, mfParallelism = DataParallel\<rparr>"

definition demo_entry :: "string \<Rightarrow> zip_entry" where
  "demo_entry name = \<lparr>zeName = name, zeIsDir = False, zeOpenErr = None, zeBytes = [1], zeReadErr = None\<rparr>"

definition demo_zip :: "byte list \<Rightarrow> zip_entry list outcome" where
  "demo_zip archive = Ok (map demo_entry [''Dockerfile'', ''a/../main.py'', ''./requirements.txt'', ''manifest.json''])"

theorem accepted_package_is_safe_witness:
  "\<exists>pkg. ParsePackage demo_zip (\<lambda>_. Ok demo_manifest) [] = Ok pkg \<and> (\<exists>data. map_of (pkFiles pkg) ''main.py'' = Some data)"
proof -
  have clean: "Clean ''Dockerfile'' = ''Dockerfile''" "Clean ''a/../main.py'' = ''main.py''" "Clean ''./requirements.txt'' = ''requirements.txt''"
    "Clean ''manifest.json'' = ''manifest.json''" by code_simp+
  have "package_files (map demo_entry [''Dockerfile'', ''a/../main.py'', ''./requirements.txt'', ''manifest.json'']) 0 [] =
      Ok [(''Dockerfile'', [1]), (''main.py'', [1]), (''requirements.txt'', [1]), (''manifest.json'', [1])]"
    by (simp add: demo_entry_def clean unsafe_path_def IsAbs_def read_limited_def maxPackageBytes_def)
  moreover have "checkShape demo_manifest = None" by (simp add: checkShape_def demo_manifest_def valid_mode_def)
  ultimately obtain pkg where pkg: "ParsePackage demo_zip (\<lambda>_. Ok demo_manifest) [] = Ok pkg"
    by (simp add: ParsePackage_def demo_zip_def fileDockerfile_def fileEntrypoint_def fileRequirements_def fileManifest_def)
  have "\<exists>data. map_of (pkFiles pkg) ''main.py'' = Some data" using accepted_package_is_safe [OF pkg] by blast
  with pkg show ?thesis by blast
qed

text \<open>A traversal in the middle of a path is refused, and a path that only goes down and back up is not.\<close>

lemma traversal_examples:
  "unsafe_path (Clean ''a/../../etc/passwd'')" "unsafe_path (Clean ''/etc/passwd'')" "\<not> unsafe_path (Clean ''a/b/../../c'')"
  by code_simp+

subsection \<open>The content digest\<close>

lemma of_char_word_inject: "(of_char c :: byte) = of_char d \<longleftrightarrow> c = d"
proof
  assume a: "(of_char c :: byte) = of_char d"
  have w: "(of_char x :: byte) = of_nat (of_char x)" for x by (simp add: of_char_def)
  have "(of_char x :: nat) < 2 ^ LENGTH(8)" for x using nat_of_char_less_256 [of x] by simp
  then have "unat (of_char x :: byte) = of_char x" for x unfolding w by (simp add: unsigned_of_nat take_bit_nat_eq_self)
  with a have "(of_char c :: nat) = of_char d" by metis
  then show "c = d" by simp
qed simp

lemma bytes_of_inject: "bytes_of s = bytes_of t \<longleftrightarrow> s = t"
  unfolding bytes_of_def by (rule inj_map_eq_map) (auto intro: injI simp: of_char_word_inject)

text \<open>A name without a NUL has no zero byte.\<close>

definition nul_free :: "string \<Rightarrow> bool" where
  "nul_free s \<longleftrightarrow> CHR 0x00 \<notin> set s"

lemma nul_free_bytes: "nul_free s \<Longrightarrow> 0 \<notin> set (bytes_of s)"
proof -
  have z: "(0 :: byte) = of_char (CHR 0x00)" by (simp add: of_char_def)
  assume s: "nul_free s"
  show "0 \<notin> set (bytes_of s)"
  proof
    assume "0 \<in> set (bytes_of s)"
    then obtain c where "c \<in> set s" "0 = (of_char c :: byte)" unfolding bytes_of_def set_map by blast
    with s show False unfolding z of_char_word_inject nul_free_def by blast
  qed
qed

lemma nul_free_dec: "nul_free (dec_nat n)"
  using is_digit_dec_nat [of n] by (auto simp: nul_free_def is_digit_def of_char_def)

lemma first_zero_unique:
  "0 \<notin> set xs \<Longrightarrow> 0 \<notin> set xs' \<Longrightarrow> xs @ (0 :: byte) # ys = xs' @ 0 # ys' \<Longrightarrow> xs = xs' \<and> ys = ys'"
  by (induction xs arbitrary: xs') (auto simp: Cons_eq_append_conv append_eq_Cons_conv)

text \<open>The hashed text can be read back entry by entry.\<close>

lemma digest_entries_inject:
  assumes "\<forall>(n, d) \<in> set es. nul_free n" "\<forall>(n, d) \<in> set es'. nul_free n"
    and "concat (map digest_entry es) = concat (map digest_entry es')"
  shows "es = es'"
  using assms
proof (induction es arbitrary: es')
  case Nil
  then show ?case by (cases es') (auto simp: digest_entry_def)
next
  case (Cons e es)
  obtain n d where e: "e = (n, d)" by (cases e)
  from Cons.prems(3) obtain n' d' es'' where es': "es' = (n', d') # es''" by (cases es') (auto simp: digest_entry_def e)
  have "bytes_of n @ 0 # bytes_of (dec_nat (length d)) @ 0 # d @ concat (map digest_entry es) =
      bytes_of n' @ 0 # bytes_of (dec_nat (length d')) @ 0 # d' @ concat (map digest_entry es'')"
    using Cons.prems(3) by (simp add: e es' digest_entry_def)
  moreover have "0 \<notin> set (bytes_of n)" "0 \<notin> set (bytes_of n')" using Cons.prems(1,2) by (auto simp: e es' nul_free_bytes)
  ultimately have n: "bytes_of n = bytes_of n'"
    and r: "bytes_of (dec_nat (length d)) @ 0 # d @ concat (map digest_entry es) = bytes_of (dec_nat (length d')) @ 0 # d' @ concat (map digest_entry es'')"
    using first_zero_unique by blast+
  from first_zero_unique [OF nul_free_bytes [OF nul_free_dec] nul_free_bytes [OF nul_free_dec] r]
  have l: "length d = length d'" and t: "d @ concat (map digest_entry es) = d' @ concat (map digest_entry es'')"
    by (simp_all add: bytes_of_inject)
  from t l have "d = d'" "concat (map digest_entry es) = concat (map digest_entry es'')" by simp_all
  with Cons.IH [of es''] Cons.prems(1,2) n show ?case by (simp add: e es' bytes_of_inject)
qed

lemma digest_input_inject:
  assumes "distinct (map fst fs)" "distinct (map fst fs')" "\<forall>n \<in> set (map fst fs). nul_free n" "\<forall>n \<in> set (map fst fs'). nul_free n"
  shows "digest_input fs = digest_input fs' \<longleftrightarrow> map_of fs = map_of fs'"
proof
  let ?es = "\<lambda>m. map (\<lambda>n. (n, lookup0 [] m n)) (sort (map fst m))"
  have input: "digest_input m = concat (map digest_entry (?es m))" for m by (simp add: digest_input_def comp_def)
  assume "digest_input fs = digest_input fs'"
  then have es: "?es fs = ?es fs'" unfolding input
    by (intro digest_entries_inject) (use assms(3,4) in \<open>auto simp: digest_input_def comp_def\<close>)
  have names: "set (map fst fs) = set (map fst fs')" using arg_cong [OF es, of "\<lambda>l. set (map fst l)"] by (simp add: image_comp comp_def)
  show "map_of fs = map_of fs'"
  proof
    fix n
    show "map_of fs n = map_of fs' n"
    proof (cases "n \<in> set (map fst fs)")
      case True
      then have "(n, lookup0 [] fs n) \<in> set (?es fs)" "(n, lookup0 [] fs' n) \<in> set (?es fs')" using names by auto
      then have "lookup0 [] fs n = lookup0 [] fs' n" using es by auto
      moreover have "map_of fs n \<noteq> None" "map_of fs' n \<noteq> None" using True names by (auto simp: map_of_eq_None_iff)
      ultimately show ?thesis by (auto simp: lookup0_def)
    next
      case False
      then show ?thesis using names by (metis map_of_eq_None_iff set_map)
    qed
  qed
next
  assume eq: "map_of fs = map_of fs'"
  then have "set (map fst fs) = set (map fst fs')" by (metis dom_map_of_conv_image_fst set_map)
  then have "sort (map fst fs) = sort (map fst fs')"
    using assms(1,2) by (metis distinct_sort sorted_distinct_set_unique sorted_sort set_sort)
  with eq show "digest_input fs = digest_input fs'" by (simp add: digest_input_def lookup0_def)
qed

lemma hex_encode_inject: "hex_encode bs = hex_encode bs' \<Longrightarrow> bs = bs'"
proof (induction bs arbitrary: bs')
  case Nil
  then have "length (hex_encode bs') = 0" by (simp add: hex_encode_def [of "[]"])
  then show ?case unfolding length_hex_encode by simp
next
  case (Cons b bs)
  then obtain b' bs'' where bs': "bs' = b' # bs''" using length_hex_encode [of "b # bs"] length_hex_encode [of bs'] by (cases bs') simp_all
  have "fmt_02x (unat b) @ hex_encode bs = fmt_02x (unat b') @ hex_encode bs''" using Cons.prems by (simp add: bs' hex_encode_def)
  moreover have "length (fmt_02x (unat b)) = length (fmt_02x (unat b'))" by (simp add: fmt_02x_def)
  ultimately have "fmt_02x (unat b) = fmt_02x (unat b')" "hex_encode bs = hex_encode bs''" by simp_all
  with Cons.IH [of bs''] fmt_02x_inject [of "unat b" "unat b'"] show ?case by (simp add: bs' word_unat_eq_iff)
qed

text \<open>The content digest names the content. For packages whose file names hold no NUL byte, the text that is hashed is the same exactly
  when both packages have the same files with the same bytes, whatever the order of the archive: so equal packages share one digest and one
  image, and different packages with one digest would be a collision of SHA-256.\<close>

lemma digest_names_content:
  assumes "distinct (map fst fs)" "distinct (map fst fs')" "\<forall>n \<in> set (map fst fs). nul_free n" "\<forall>n \<in> set (map fst fs'). nul_free n"
  shows "(map_of fs = map_of fs' \<longrightarrow> contentDigest fs = contentDigest fs')
     \<and> (contentDigest fs = contentDigest fs' \<and> map_of fs \<noteq> map_of fs' \<longrightarrow>
          digest_input fs \<noteq> digest_input fs' \<and> sha256_sum (digest_input fs) = sha256_sum (digest_input fs'))"
  using digest_input_inject [OF assms] hex_encode_inject unfolding contentDigest_def by metis

theorem digest_names_content_witness:
  "contentDigest [(''a'', [1, 2]), (''b'', [3])] = contentDigest [(''b'', [3]), (''a'', [1, 2])]
   \<and> digest_input [(''a'', [1, 2]), (''b'', [3])] \<noteq> digest_input [(''a'', [1]), (''b'', [2, 3])]"
proof -
  let ?f = "[(''a'', [1, 2]), (''b'', [3])] :: (string, byte list) gomap" and ?g = "[(''b'', [3]), (''a'', [1, 2])]" and ?h = "[(''a'', [1]), (''b'', [2, 3])]"
  have "map_of ?f = map_of ?g" by (simp add: fun_eq_iff)
  then have "contentDigest ?f = contentDigest ?g" using digest_names_content [of ?f ?g] by (simp add: nul_free_def)
  moreover have "map_of ?f ''a'' \<noteq> map_of ?h ''a''" by simp
  then have "map_of ?f \<noteq> map_of ?h" by metis
  then have "digest_input ?f \<noteq> digest_input ?h" using digest_input_inject [of ?f ?h] by (simp add: nul_free_def)
  ultimately show ?thesis ..
qed

subsection \<open>Registration\<close>

text \<open>What reaches the registry has passed every check.\<close>

lemma registered_algorithm_is_valid:
  assumes "post_algorithm openZip unmarshal register q tenant body err reg = ((201, Ok algo), reg')"
  shows "\<exists>pkg bs. ParsePackage openZip unmarshal bs = Ok pkg \<and> length bs \<le> maxUploadBytes \<and> Validate (pkManifest pkg) q = None
     \<and> alManifest algo = pkManifest pkg \<and> alDigest algo = contentDigest (pkFiles pkg) \<and> register algo reg = (reg', None)"
proof -
  obtain r code where rp: "readPackage openZip unmarshal body err = (r, code)" by fastforce
  with assms obtain pkg where r: "r = Ok pkg" by (cases r) (auto simp: post_algorithm_def readPackage_def split: outcome.splits)
  from rp r obtain bs where bs: "read_limited maxUploadBytes body err = Ok bs" "ParsePackage openZip unmarshal bs = Ok pkg"
    by (auto simp: readPackage_def split: outcome.splits)
  have "length bs \<le> maxUploadBytes" using bs(1) by (auto simp: read_limited_def split: if_splits option.splits)
  moreover have "pkDigest pkg = contentDigest (pkFiles pkg)" using bs(2) by (auto simp: ParsePackage_def split: outcome.splits option.splits)
  ultimately show ?thesis using assms rp r bs(2)
    by (intro exI [of _ pkg] exI [of _ bs]) (auto simp: post_algorithm_def Let_def split: option.splits prod.splits)
qed

text \<open>Artifacts that a worker uploads stay inside the output volume.\<close>

lemma collected_artifacts_inside:
  assumes "CollectOutput unmarshal file = Ok out" "a \<in> set (aoArtifacts out)"
  shows "\<not> IsAbs a \<and> \<not> escapes 0 (split_on (CHR ''/'') a)"
proof -
  have "check_artifacts as = None \<Longrightarrow> a \<in> set as \<Longrightarrow> \<not> unsafe_path (Clean a)" for as by (induction as) (auto split: if_splits)
  then show ?thesis using assms Clean_test [of a] by (auto simp: CollectOutput_def split: outcome.splits option.splits)
qed

end
