(* ===== verification/Phi.thy ===== *)
theory Phi
  imports Prelude Complex_Main
begin

section \<open>The accrual failure detector\<close>

text \<open>
  \<^verbatim>\<open>internal/cluster/phi_accrual.go\<close>: a sliding window of heartbeat intervals with running sums, and the suspicion level computed from
  it. \<^verbatim>\<open>float64\<close> values are real numbers; the zero time is \<open>None\<close>; times are nanoseconds.
\<close>

subsection \<open>The window\<close>

record intervalWindow =
  iwValues :: "real list"
  iwCap :: nat
  iwIdx :: nat
  iwFilled :: bool
  iwSum :: real
  iwSumSq :: real

definition newIntervalWindow :: "nat \<Rightarrow> intervalWindow" where
  "newIntervalWindow capacity = \<lparr>iwValues = replicate capacity 0, iwCap = capacity, iwIdx = 0, iwFilled = False, iwSum = 0, iwSumSq = 0\<rparr>"

definition push :: "real \<Rightarrow> intervalWindow \<Rightarrow> intervalWindow" where
  "push v w =
     (let old = iwValues w ! iwIdx w;
          w1 = (if iwFilled w then w\<lparr>iwSum := iwSum w - old, iwSumSq := iwSumSq w - old * old\<rparr> else w);
          w2 = w1\<lparr>iwValues := (iwValues w1)[iwIdx w1 := v], iwSum := iwSum w1 + v, iwSumSq := iwSumSq w1 + v * v, iwIdx := iwIdx w1 + 1\<rparr>
      in if iwIdx w2 = iwCap w2 then w2\<lparr>iwIdx := 0, iwFilled := True\<rparr> else w2)"

definition iw_len :: "intervalWindow \<Rightarrow> nat" where
  "iw_len w = (if iwFilled w then iwCap w else iwIdx w)"

definition iw_mean :: "intervalWindow \<Rightarrow> real" where
  "iw_mean w = (let n = iw_len w in if n = 0 then 0 else iwSum w / real n)"

definition stdDev :: "intervalWindow \<Rightarrow> real" where
  "stdDev w =
     (let n = iw_len w
      in if n = 0 then 0
         else let mean = iwSum w / real n;
                  variance = iwSumSq w / real n - mean * mean
              in sqrt (if variance < 0 then 0 else variance))"

subsection \<open>The detector\<close>

record PhiAccrual =
  phWindow :: intervalWindow
  phMinStdDev :: real
  phFirstInterval :: real
  phLastTs :: "int option"

definition NewPhiAccrual :: "int \<Rightarrow> int \<Rightarrow> int \<Rightarrow> PhiAccrual" where
  "NewPhiAccrual windowSize minStdDev firstInterval =
     \<lparr>phWindow = newIntervalWindow (nat (if windowSize \<le> 0 then 100 else windowSize)),
      phMinStdDev = of_int (if minStdDev \<le> 0 then 100 * 10 ^ 6 else minStdDev),
      phFirstInterval = of_int (if firstInterval \<le> 0 then 10 ^ 9 else firstInterval),
      phLastTs = None\<rparr>"

definition Heartbeat :: "int \<Rightarrow> PhiAccrual \<Rightarrow> PhiAccrual" where
  "Heartbeat now p =
     (case phLastTs p of
        None \<Rightarrow> p\<lparr>phWindow := push (phFirstInterval p) (push (phFirstInterval p) (phWindow p)), phLastTs := Some now\<rparr>
      | Some prev \<Rightarrow>
          let interval = of_int (now - prev) :: real
          in p\<lparr>phWindow := if interval > 0 then push interval (phWindow p) else phWindow p, phLastTs := Some now\<rparr>)"

definition phi :: "real \<Rightarrow> real \<Rightarrow> real \<Rightarrow> real" where
  "phi elapsed mean sd =
     (let y = (elapsed - mean) / sd;
          e = exp (- y * (1.5976 + 0.070566 * y * y))
      in if elapsed > mean then - log 10 (e / (1 + e)) else - log 10 (1 - 1 / (1 + e)))"

definition Phi :: "int \<Rightarrow> PhiAccrual \<Rightarrow> real" where
  "Phi now p =
     (case phLastTs p of
        None \<Rightarrow> 0
      | Some prev \<Rightarrow> phi (of_int (now - prev)) (iw_mean (phWindow p)) (max (stdDev (phWindow p)) (phMinStdDev p)))"

definition Available :: "int \<Rightarrow> real \<Rightarrow> PhiAccrual \<Rightarrow> bool" where
  "Available now threshold p \<longleftrightarrow> Phi now p < threshold"

subsection \<open>The window holds the last samples\<close>

definition recent :: "nat \<Rightarrow> 'a list \<Rightarrow> 'a list" where
  "recent c xs = drop (length xs - c) xs"

lemma recent_snoc_short: "length xs < c \<Longrightarrow> recent c (xs @ [x]) = recent c xs @ [x]"
  by (simp add: recent_def)

lemma recent_snoc_full:
  assumes "c \<le> length xs" "0 < c"
  shows "recent c xs = xs ! (length xs - c) # drop (Suc (length xs - c)) xs" "recent c (xs @ [x]) = drop (Suc (length xs - c)) xs @ [x]"
  using assms by (simp_all add: recent_def Cons_nth_drop_Suc Suc_diff_le)

lemma length_recent: "length (recent c xs) = min (length xs) c"
  by (simp add: recent_def)

text \<open>The window as a circular buffer over the list of everything that was pushed.\<close>

definition holds :: "real list \<Rightarrow> intervalWindow \<Rightarrow> bool" where
  "holds xs w \<longleftrightarrow> length (iwValues w) = iwCap w \<and> 0 < iwCap w \<and> iwIdx w = length xs mod iwCap w \<and> (iwFilled w \<longleftrightarrow> iwCap w \<le> length xs)
     \<and> (\<forall>j < length xs. length xs \<le> j + iwCap w \<longrightarrow> iwValues w ! (j mod iwCap w) = xs ! j)
     \<and> iwSum w = sum_list (recent (iwCap w) xs) \<and> iwSumSq w = sum_list (map (\<lambda>x. x * x) (recent (iwCap w) xs))"

lemma holds_new: "0 < c \<Longrightarrow> holds [] (newIntervalWindow c)"
  by (simp add: holds_def newIntervalWindow_def recent_def)

lemma mod_eq_in_window:
  fixes j n c :: nat
  assumes "j < n" "n < j + c" 
  shows "j mod c \<noteq> n mod c"
proof
  assume "j mod c = n mod c"
  then have "c dvd n - j" using mod_eq_dvd_iff_nat [of j n c] assms(1) by simp
  then show False using assms by (auto dest: dvd_imp_le)
qed

lemma push_holds:
  assumes h: "holds xs w"
  shows "holds (xs @ [v]) (push v w)"
proof -
  let ?c = "iwCap w" and ?n = "length xs"
  have c: "0 < ?c" "length (iwValues w) = ?c" and idx: "iwIdx w = ?n mod ?c" and fl: "iwFilled w \<longleftrightarrow> ?c \<le> ?n"
    and vals: "\<And>j. j < ?n \<Longrightarrow> ?n \<le> j + ?c \<Longrightarrow> iwValues w ! (j mod ?c) = xs ! j"
    and sums: "iwSum w = sum_list (recent ?c xs)" "iwSumSq w = sum_list (map (\<lambda>x. x * x) (recent ?c xs))"
    using h by (auto simp: holds_def)
  have lt: "iwIdx w < ?c" using c idx by simp
  have old: "iwValues w ! iwIdx w = xs ! (?n - ?c)" if "?c \<le> ?n"
  proof -
    have "?n mod ?c = (?n - ?c) mod ?c" using that by (simp add: mod_if)
    then show ?thesis using vals [of "?n - ?c"] that c(1) idx by simp
  qed
  have idx': "iwIdx (push v w) = Suc ?n mod ?c" "iwFilled (push v w) \<longleftrightarrow> ?c \<le> Suc ?n" "iwCap (push v w) = ?c"
    "iwValues (push v w) = (iwValues w)[iwIdx w := v]"
  proof -
    have m: "Suc ?n mod ?c = (if Suc (iwIdx w) = ?c then 0 else Suc (iwIdx w))" unfolding idx by (rule mod_Suc)
    show "iwIdx (push v w) = Suc ?n mod ?c" unfolding m by (simp add: push_def Let_def)
    have "Suc (iwIdx w) = ?c \<Longrightarrow> ?c \<le> Suc ?n" unfolding idx by (metis Suc_le_mono mod_less_eq_dividend)
    moreover have "?c \<le> Suc ?n \<Longrightarrow> \<not> ?c \<le> ?n \<Longrightarrow> Suc (iwIdx w) = ?c" unfolding idx by simp
    ultimately show "iwFilled (push v w) \<longleftrightarrow> ?c \<le> Suc ?n" using fl by (auto simp: push_def Let_def)
    show "iwCap (push v w) = ?c" "iwValues (push v w) = (iwValues w)[iwIdx w := v]" by (simp_all add: push_def Let_def)
  qed
  have v': "iwValues (push v w) ! (j mod ?c) = (xs @ [v]) ! j" if j: "j < Suc ?n" "Suc ?n \<le> j + ?c" for j
  proof (cases "j = ?n")
    case True
    then show ?thesis unfolding idx'(4) using lt c(2) idx by simp
  next
    case False
    then have "j < ?n" "?n < j + ?c" using j by simp_all
    with mod_eq_in_window [OF this] vals [of j] show ?thesis unfolding idx'(4) idx by (simp add: nth_append)
  qed
  have s': "iwSum (push v w) = sum_list (recent ?c (xs @ [v]))" "iwSumSq (push v w) = sum_list (map (\<lambda>x. x * x) (recent ?c (xs @ [v])))"
  proof -
    have "iwSum (push v w) = sum_list (recent ?c (xs @ [v])) \<and> iwSumSq (push v w) = sum_list (map (\<lambda>x. x * x) (recent ?c (xs @ [v])))"
    proof (cases "?c \<le> ?n")
      case True
      with fl old sums recent_snoc_full [OF True c(1)] show ?thesis by (simp add: push_def Let_def)
    next
      case False
      with fl sums recent_snoc_short [of xs ?c v] show ?thesis by (simp add: push_def Let_def)
    qed
    then show "iwSum (push v w) = sum_list (recent ?c (xs @ [v]))" "iwSumSq (push v w) = sum_list (map (\<lambda>x. x * x) (recent ?c (xs @ [v])))" by simp_all
  qed
  show ?thesis unfolding holds_def idx'(3) using c idx' v' s' by (simp del: append_assoc) 
qed

lemma holds_len: "holds xs w \<Longrightarrow> iw_len w = length (recent (iwCap w) xs)"
  by (auto simp: holds_def iw_len_def length_recent)

text \<open>Mean and standard deviation are those of the last samples, by definition.\<close>

definition average :: "real list \<Rightarrow> real" where
  "average xs = sum_list xs / real (length xs)"

definition deviation :: "real list \<Rightarrow> real" where
  "deviation xs = sqrt (sum_list (map (\<lambda>x. (x - average xs)\<^sup>2) xs) / real (length xs))"

lemma sum_list_square_dev:
  "sum_list (map (\<lambda>x. (x - a)\<^sup>2) xs) = sum_list (map (\<lambda>x. x * x) xs) - 2 * a * sum_list xs + real (length xs) * a\<^sup>2"
  for a :: real
  by (induction xs) (simp_all add: power2_eq_square algebra_simps)

lemma variance_eq:
  assumes "xs \<noteq> []"
  shows "sum_list (map (\<lambda>x. (x - average xs)\<^sup>2) xs) / real (length xs) = sum_list (map (\<lambda>x. x * x) xs) / real (length xs) - average xs * average xs"
proof -
  have n: "real (length xs) \<noteq> 0" using assms by simp
  have s: "sum_list xs = average xs * real (length xs)" using n by (simp add: average_def)
  show ?thesis unfolding sum_list_square_dev s using n by (simp add: field_simps power2_eq_square)
qed

lemma window_statistics:
  assumes h: "holds xs w" and "xs \<noteq> []"
  shows "iw_mean w = average (recent (iwCap w) xs)" "stdDev w = deviation (recent (iwCap w) xs)"
proof -
  let ?r = "recent (iwCap w) xs"
  have r: "?r \<noteq> []" using assms by (auto simp: recent_def holds_def)
  have sums: "iwSum w = sum_list ?r" "iwSumSq w = sum_list (map (\<lambda>x. x * x) ?r)" using h by (auto simp: holds_def)
  show m: "iw_mean w = average ?r" using r by (simp add: iw_mean_def average_def holds_len [OF h] sums)
  have "0 \<le> sum_list (map (\<lambda>x. (x - average ?r)\<^sup>2) ?r) / real (length ?r)" by (intro divide_nonneg_nonneg sum_list_nonneg) auto
  then have v: "\<not> sum_list (map (\<lambda>x. x * x) ?r) / real (length ?r) - average ?r * average ?r < 0" unfolding variance_eq [OF r] by simp
  have a: "iwSum w / real (length ?r) = average ?r" by (simp add: average_def sums)
  show "stdDev w = deviation ?r" unfolding stdDev_def deviation_def Let_def holds_len [OF h] a sums(2) variance_eq [OF r] using v r by simp
qed

subsection \<open>Suspicion\<close>

definition steepness :: "real \<Rightarrow> real" where
  "steepness y = y * (1.5976 + 0.070566 * y * y)"

lemma steepness_mono: "x \<le> y \<Longrightarrow> steepness x \<le> steepness y"
proof -
  assume "x \<le> y"
  moreover have "x * x * x \<le> y * y * y" using \<open>x \<le> y\<close> power_mono_odd [of 3 x y] by (simp add: power3_eq_cube)
  ultimately show ?thesis by (simp add: steepness_def algebra_simps)
qed

text \<open>Over the reals the two branches are one formula.\<close>

lemma phi_eq: "phi elapsed mean sd = log 10 (1 + exp (steepness ((elapsed - mean) / sd)))"
proof -
  define y where "y = (elapsed - mean) / sd"
  define e where "e = exp (- y * (1.5976 + 0.070566 * y * y))"
  have e: "0 < e" "e = 1 / exp (steepness y)" by (simp_all add: e_def steepness_def exp_minus inverse_eq_divide)
  have "1 - 1 / (1 + e) = e / (1 + e)" using e(1) by (simp add: field_simps)
  then have "phi elapsed mean sd = - log 10 (e / (1 + e))" unfolding phi_def Let_def y_def [symmetric] e_def [symmetric] by simp
  also have "\<dots> = log 10 ((1 + e) / e)" using e(1) by (simp add: log_divide)
  also have "(1 + e) / e = 1 + exp (steepness y)" unfolding e(2) by (simp add: field_simps)
  finally show ?thesis by (simp add: y_def)
qed

lemma phi_mono: "0 < sd \<Longrightarrow> a \<le> b \<Longrightarrow> phi a mean sd \<le> phi b mean sd"
proof -
  assume "0 < sd" "a \<le> b"
  then have "steepness ((a - mean) / sd) \<le> steepness ((b - mean) / sd)" by (intro steepness_mono divide_right_mono) simp_all
  then show ?thesis unfolding phi_eq by (subst log_le_cancel_iff) (auto intro: add_pos_pos)
qed

lemma phi_pos: "0 < phi a mean sd"
  unfolding phi_eq by (subst zero_less_log_cancel_iff) (auto intro: add_pos_pos)

lemma phi_at_mean: "phi mean mean sd = log 10 2"
  by (simp add: phi_eq steepness_def)

subsection \<open>After any heartbeats\<close>

definition intervals :: "int list \<Rightarrow> real list" where
  "intervals hbs = filter (\<lambda>x. 0 < x) (map (\<lambda>(a, b). of_int (b - a)) (zip hbs (tl hbs)))"

definition samples :: "real \<Rightarrow> int list \<Rightarrow> real list" where
  "samples first hbs = (if hbs = [] then [] else first # first # intervals hbs)"

lemma zip_tl_snoc: "hbs \<noteq> [] \<Longrightarrow> zip (hbs @ [t]) (tl (hbs @ [t])) = zip hbs (tl hbs) @ [(List.last hbs, t)]"
proof (induction hbs)
  case (Cons a hbs)
  then show ?case by (cases hbs) simp_all
qed simp

lemma intervals_snoc: "hbs \<noteq> [] \<Longrightarrow> intervals (hbs @ [t]) = intervals hbs @ (if List.last hbs < t then [of_int (t - List.last hbs)] else [])"
  unfolding intervals_def by (subst zip_tl_snoc) simp_all

definition after :: "int list \<Rightarrow> PhiAccrual \<Rightarrow> PhiAccrual" where
  "after hbs p = foldl (\<lambda>q t. Heartbeat t q) p hbs"

lemma iwCap_push [simp]: "iwCap (push v w) = iwCap w"
  by (simp add: push_def Let_def)

lemma after_heartbeats:
  assumes "p = NewPhiAccrual ws sd fi"
  shows "holds (samples (phFirstInterval p) hbs) (phWindow (after hbs p)) \<and> iwCap (phWindow (after hbs p)) = iwCap (phWindow p)
     \<and> phLastTs (after hbs p) = (if hbs = [] then None else Some (List.last hbs))
     \<and> phMinStdDev (after hbs p) = phMinStdDev p \<and> phFirstInterval (after hbs p) = phFirstInterval p"
proof (induction hbs rule: rev_induct)
  case Nil
  have "0 < nat (if ws \<le> 0 then 100 else ws)" by simp
  from holds_new [OF this] assms show ?case by (simp add: after_def samples_def NewPhiAccrual_def)
next
  case (snoc t hbs)
  let ?q = "after hbs p"
  have q: "after (hbs @ [t]) p = Heartbeat t ?q" by (simp add: after_def)
  show ?case
  proof (cases "hbs = []")
    case True
    with snoc have h: "holds [] (phWindow ?q)" by (simp add: samples_def)
    have "holds (([] @ [phFirstInterval p]) @ [phFirstInterval p]) (push (phFirstInterval p) (push (phFirstInterval p) (phWindow ?q)))"
      by (intro push_holds h)
    with True snoc q show ?thesis by (simp add: Heartbeat_def samples_def intervals_def)
  next
    case False
    have s: "samples (phFirstInterval p) (hbs @ [t]) = samples (phFirstInterval p) hbs @ (if List.last hbs < t then [of_int (t - List.last hbs)] else [])"
      using False intervals_snoc [OF False, of t] by (simp add: samples_def)
    show ?thesis
    proof (cases "List.last hbs < t")
      case True
      then have pos: "0 < real_of_int (t - List.last hbs)" by simp
      from snoc have "holds (samples (phFirstInterval p) hbs) (phWindow ?q)" by blast
      from push_holds [OF this, of "real_of_int (t - List.last hbs)"] snoc False True pos q s show ?thesis
        by (simp add: Heartbeat_def Let_def del: of_int_diff of_int_0_less_iff)
    next
      case no: False
      then have "\<not> 0 < real_of_int (t - List.last hbs)" by simp
      with snoc False no q s show ?thesis by (simp add: Heartbeat_def Let_def del: of_int_diff of_int_0_less_iff)
    qed
  qed
qed

text \<open>The accrual detector. After any non-empty sequence of heartbeats, mean and deviation of the circular window, kept by running sums,
  are those of the last samples as a list: the seeded intervals and then the positive gaps between consecutive heartbeats. The suspicion is
  positive, never falls while no heartbeat arrives, is \<open>log 2\<close> to base 10 when the mean interval has passed, and a node that
  became unavailable stays so until it is heard again.\<close>

lemma phi_accrual_is_exact:
  assumes "hbs \<noteq> []" and "p = NewPhiAccrual ws sd fi" and "q = after hbs p"
    and "r = recent (iwCap (phWindow p)) (samples (phFirstInterval p) hbs)"
  shows "iw_mean (phWindow q) = average r \<and> stdDev (phWindow q) = deviation r
     \<and> Phi now q = phi (of_int (now - List.last hbs)) (average r) (max (deviation r) (phMinStdDev p))
     \<and> 0 < Phi now q \<and> (now \<le> now' \<longrightarrow> Phi now q \<le> Phi now' q \<and> (Available now' th q \<longrightarrow> Available now th q))
     \<and> (real_of_int (now - List.last hbs) = average r \<longrightarrow> Phi now q = log 10 2)"
proof -
  note a = after_heartbeats [OF assms(2), of hbs, folded assms(3)]
  have w: "iw_mean (phWindow q) = average r" "stdDev (phWindow q) = deviation r"
    using window_statistics [of "samples (phFirstInterval p) hbs" "phWindow q"] a assms(1,4) by (simp_all add: samples_def)
  have phi: "Phi t q = phi (of_int (t - List.last hbs)) (average r) (max (deviation r) (phMinStdDev p))" for t
    using a assms(1) by (simp add: Phi_def w)
  have "0 < phMinStdDev p" unfolding assms(2) NewPhiAccrual_def by simp
  then have sd: "0 < max (deviation r) (phMinStdDev p)" by simp
  have mono: "Phi now q \<le> Phi now' q" if "now \<le> now'" unfolding phi using that by (intro phi_mono [OF sd]) simp
  then have "Available now' th q \<longrightarrow> Available now th q" if "now \<le> now'" using that by (auto simp: Available_def)
  with w phi mono phi_pos [of _ _ "max (deviation r) (phMinStdDev p)"] phi_at_mean show ?thesis by metis
qed

theorem phi_accrual_is_exact_witness:
  "(let q = after [0, 2 * 10 ^ 9, 4 * 10 ^ 9] (NewPhiAccrual 2 0 0)
    in iw_mean (phWindow q) = 2 * 10 ^ 9 \<and> Phi (6 * 10 ^ 9) q = log 10 2 \<and> Phi (6 * 10 ^ 9) q \<le> Phi (7 * 10 ^ 9) q)"
proof -
  let ?p = "NewPhiAccrual 2 0 0" and ?h = "[0, 2 * 10 ^ 9, 4 * 10 ^ 9] :: int list"
  have r: "recent (iwCap (phWindow ?p)) (samples (phFirstInterval ?p) ?h) = [2 * 10 ^ 9, 2 * 10 ^ 9]"
    by (simp add: recent_def samples_def intervals_def NewPhiAccrual_def newIntervalWindow_def)
  have av: "average [2 * 10 ^ 9, 2 * 10 ^ 9] = 2 * 10 ^ 9" by (simp add: average_def)
  have "?h \<noteq> []" by simp
  note t = phi_accrual_is_exact [OF this refl refl refl, where now = "6 * 10 ^ 9" and now' = "7 * 10 ^ 9", of 2 0 0, unfolded r av]
  have "real_of_int (6 * 10 ^ 9 - List.last ?h) = 2 * 10 ^ 9" "(6 * 10 ^ 9 :: int) \<le> 7 * 10 ^ 9" by simp_all
  with t show ?thesis unfolding Let_def by blast
qed

end
