(* ===== verification/Formats.thy ===== *)
theory Formats
  imports Go_Hash Multipart Auth "HOL-Library.List_Lexorder" "HOL-Library.Char_ord"
begin

section \<open>Output formats\<close>

text \<open>
  \<^verbatim>\<open>internal/formats/tfrecord.go\<close>, byte for byte, and \<^verbatim>\<open>webdataset.go\<close> over a tar writer that is a parameter. A write to the
  underlying \<^verbatim>\<open>io.Writer\<close> may fail after any number of bytes (\<open>tf_fault\<close>). \<open>mem\<close> is the largest slice that \<^verbatim>\<open>make\<close> can allocate: a
  longer one panics.
\<close>

unbundle bit_operations_syntax

subsection \<open>Checksums\<close>

definition castagnoli :: "32 word" where
  "castagnoli = poly_castagnoli"

definition crc32c :: "byte list \<Rightarrow> 32 word" where
  "crc32c bs = crc32_checksum castagnoli bs"

definition maskCRC :: "32 word \<Rightarrow> 32 word" where
  "maskCRC crc = (drop_bit 15 crc OR push_bit 17 crc) + 0xa282ead8"

subsection \<open>TFRecord\<close>

record TFRecordWriter =
  tfOut :: "byte list"
  tfCount :: int

definition NewTFRecordWriter :: TFRecordWriter where
  "NewTFRecordWriter = \<lparr>tfOut = [], tfCount = 0\<rparr>"

datatype tf_fault = TfOk | TfHeader nat string | TfPayload nat string | TfFoot nat string

definition tf_header :: "byte list \<Rightarrow> byte list" where
  "tf_header payload =
     (let len = put_le 8 (word_of_nat (length payload) :: 64 word) in len @ put_le 4 (maskCRC (crc32c len)))"

definition tf_foot :: "byte list \<Rightarrow> byte list" where
  "tf_foot payload = put_le 4 (maskCRC (crc32c payload))"

definition TFRecord_Write :: "tf_fault \<Rightarrow> byte list \<Rightarrow> TFRecordWriter \<Rightarrow> TFRecordWriter \<times> string option" where
  "TFRecord_Write flt payload t =
     (let hdr = tf_header payload; foot = tf_foot payload
      in (case flt of
            TfHeader k e \<Rightarrow> (t\<lparr>tfOut := tfOut t @ take k hdr\<rparr>, Some (''tfrecord: write header: '' @ e))
          | TfPayload k e \<Rightarrow> (t\<lparr>tfOut := tfOut t @ hdr @ take k payload\<rparr>, Some (''tfrecord: write payload: '' @ e))
          | TfFoot k e \<Rightarrow> (t\<lparr>tfOut := tfOut t @ hdr @ payload @ take k foot\<rparr>, Some (''tfrecord: write data crc: '' @ e))
          | TfOk \<Rightarrow> (t\<lparr>tfOut := tfOut t @ hdr @ payload @ foot, tfCount := i64 (tfCount t + 1)\<rparr>, None)))"

datatype tf_result = Record "byte list" | EndOfFile | TfError string | TfPanic

text \<open>The error of an \<^verbatim>\<open>io.ReadFull\<close> that did not fill its buffer.\<close>

definition short_read :: "byte list \<Rightarrow> read_status \<Rightarrow> string" where
  "short_read got st = (case st of ReadFailed e \<Rightarrow> e | _ \<Rightarrow> if got = [] then ''EOF'' else ''unexpected EOF'')"

definition TFRecord_Read :: "nat \<Rightarrow> reader \<Rightarrow> tf_result \<times> reader" where
  "TFRecord_Read mem r =
     (case ReadFull 12 r of
        (hdr, st, r1) \<Rightarrow>
          if st \<noteq> More then
            (if st = AtEOF \<and> hdr = [] then (EndOfFile, r1) else (TfError (''tfrecord: read header: '' @ short_read hdr st), r1))
          else if unat (maskCRC (crc32c (take 8 hdr))) \<noteq> get_le (drop 8 hdr) then (TfError ''tfrecord: length crc mismatch'', r1)
          else let len = get_le (take 8 hdr)
               in if len > mem then (TfPanic, r1)
                  else (case ReadFull len r1 of
                          (payload, st, r2) \<Rightarrow>
                            if st \<noteq> More
                            then (TfError (''tfrecord: read payload ('' @ dec_nat len @ '' bytes): '' @ short_read payload st), r2)
                            else (case ReadFull 4 r2 of
                                    (foot, st, r3) \<Rightarrow>
                                      if st \<noteq> More then (TfError (''tfrecord: read data crc: '' @ short_read foot st), r3)
                                      else if unat (maskCRC (crc32c payload)) \<noteq> get_le foot then (TfError ''tfrecord: data crc mismatch'', r3)
                                      else (Record payload, r3))))"

subsection \<open>WebDataset\<close>

record Component =
  cpExt :: string
  cpData :: "byte list"

record ShardWriter =
  swEntries :: "(string \<times> byte list) list"
  swSamples :: int
  swSeen :: "string list"

definition NewShardWriter :: ShardWriter where
  "NewShardWriter = \<lparr>swEntries = [], swSamples = 0, swSeen = []\<rparr>"

text \<open>\<open>tar\<close> gives the error of writing an entry, if any. The components are sorted by extension; \<^verbatim>\<open>sort.Slice\<close> leaves the order of equal
  extensions open, here it is that of the arguments.\<close>

fun write_components :: "(string \<Rightarrow> byte list \<Rightarrow> string option) \<Rightarrow> string \<Rightarrow> Component list \<Rightarrow> ShardWriter \<Rightarrow> ShardWriter \<times> string option" where
  "write_components tar key [] s = (s, None)"
| "write_components tar key (c # cs) s =
     (if cpExt c = [] then (s, Some (''webdataset: sample '' @ quote key @ '' has a component with no extension''))
      else let name = key @ ''.'' @ cpExt c
           in (case tar name (cpData c) of
                 Some e \<Rightarrow> (s, Some (''webdataset: write '' @ name @ '': '' @ e))
               | None \<Rightarrow> write_components tar key cs (s\<lparr>swEntries := swEntries s @ [(name, cpData c)]\<rparr>)))"

definition WriteSample :: "(string \<Rightarrow> byte list \<Rightarrow> string option) \<Rightarrow> string \<Rightarrow> Component list \<Rightarrow> ShardWriter \<Rightarrow> ShardWriter \<times> string option" where
  "WriteSample tar key comps s =
     (if key = [] then (s, Some ''webdataset: empty sample key'')
      else if comps = [] then (s, Some (''webdataset: sample '' @ quote key @ '' has no components''))
      else if key \<in> set (swSeen s) then (s, Some (''webdataset: duplicate sample key '' @ quote key))
      else (case write_components tar key (sort_key cpExt comps) s of
              (s1, Some e) \<Rightarrow> (s1, Some e)
            | (s1, None) \<Rightarrow> (s1\<lparr>swSeen := key # swSeen s1, swSamples := swSamples s1 + 1\<rparr>, None)))"

subsection \<open>A cyclic redundancy check sees every changed byte\<close>

lemma xor_cancel:
  fixes a b c :: "'a::len word"
  shows "a XOR c = b XOR c \<longleftrightarrow> a = b" "c XOR a = c XOR b \<longleftrightarrow> a = b"
proof -
  have *: "a = b" if "a XOR c = b XOR c"
  proof (rule bit_word_eqI)
    fix n
    show "bit a n = bit b n" using arg_cong [OF that, of "\<lambda>w. bit w n"] by (auto simp: bit_xor_iff)
  qed
  then show "a XOR c = b XOR c \<longleftrightarrow> a = b" by blast
  with * show "c XOR a = c XOR b \<longleftrightarrow> a = b" by (simp add: xor.commute)
qed

lemma crc_bit_inj:
  assumes "bit poly 31" "crc_bit poly c = crc_bit poly d"
  shows "c = d"
proof -
  have top: "bit (crc_bit poly x) 31 = bit x 0" for x using assms(1)
    by (auto simp: crc_bit_def bit_simps bit_0 odd_iff_mod_2_eq_one and_one_eq dest: bit_imp_le_length)
  from assms(2) top have b0: "bit c 0 = bit d 0" by metis
  then have odd: "(c AND 1 = 1) = (d AND 1 = 1)" by (auto simp: and_one_eq bit_0 odd_iff_mod_2_eq_one)
  then have "drop_bit 1 c = drop_bit 1 d"
    using assms(2) by (auto simp: crc_bit_def xor_cancel split: if_splits)
  then have "bit c (Suc n) = bit d (Suc n)" for n by (metis bit_drop_bit_eq comp_apply plus_1_eq_Suc)
  with b0 show ?thesis by (intro bit_word_eqI) (metis not0_implies_Suc)
qed

lemma crc_byte_inj:
  assumes "bit poly 31"
  shows "crc_byte poly c b = crc_byte poly d b \<Longrightarrow> c = d" and "crc_byte poly c b = crc_byte poly c b' \<Longrightarrow> b = b'"
proof -
  have pow: "(crc_bit poly ^^ n) x = (crc_bit poly ^^ n) y \<Longrightarrow> x = y" for n x y
    by (induction n) (auto dest: crc_bit_inj [OF assms])
  show "crc_byte poly c b = crc_byte poly d b \<Longrightarrow> c = d" unfolding crc_byte_def by (drule pow) (simp add: xor_cancel)
  assume "crc_byte poly c b = crc_byte poly c b'"
  then have "c XOR ucast b = c XOR ucast b'" unfolding crc_byte_def by (rule pow)
  then have eq: "(ucast b :: 32 word) = ucast b'" by (simp add: xor_cancel)
  show "b = b'"
  proof (rule bit_word_eqI)
    fix n
    assume "n < LENGTH(8)"
    then show "bit b n = bit b' n" using arg_cong [OF eq, of "\<lambda>w. bit w n"] by (auto simp: bit_ucast_iff)
  qed
qed

lemma crc_fold_inj: "bit poly 31 \<Longrightarrow> foldl (crc_byte poly) c bs = foldl (crc_byte poly) d bs \<Longrightarrow> c = d"
  by (induction bs arbitrary: c d) (auto dest: crc_byte_inj)

text \<open>Two texts that differ in one byte have different checksums.\<close>

lemma crc32_sees_byte:
  assumes "bit poly 31" "i < length bs" "b \<noteq> bs ! i"
  shows "crc32_checksum poly (bs[i := b]) \<noteq> crc32_checksum poly bs"
proof
  assume "crc32_checksum poly (bs[i := b]) = crc32_checksum poly bs"
  then have "foldl (crc_byte poly) (NOT 0) (bs[i := b]) = foldl (crc_byte poly) (NOT 0) bs" by (simp add: crc32_checksum_def)
  moreover have "bs[i := b] = take i bs @ b # drop (Suc i) bs" by (rule upd_conv_take_nth_drop [OF assms(2)])
  moreover have "bs = take i bs @ bs ! i # drop (Suc i) bs" by (rule id_take_nth_drop [OF assms(2)])
  ultimately have "foldl (crc_byte poly) (crc_byte poly (foldl (crc_byte poly) (NOT 0) (take i bs)) b) (drop (Suc i) bs)
      = foldl (crc_byte poly) (crc_byte poly (foldl (crc_byte poly) (NOT 0) (take i bs)) (bs ! i)) (drop (Suc i) bs)"
    by (metis foldl_append foldl_Cons)
  then have "b = bs ! i" using crc_fold_inj [OF assms(1)] crc_byte_inj(2) [OF assms(1)] by blast
  with assms(3) show False ..
qed

lemma maskCRC_inj: "maskCRC a = maskCRC b \<longleftrightarrow> a = b"
proof
  assume "maskCRC a = maskCRC b"
  then have r: "drop_bit 15 a OR push_bit 17 a = drop_bit 15 b OR push_bit 17 b" by (simp add: maskCRC_def)
  show "a = b"
  proof (rule bit_word_eqI)
    fix n
    assume n: "n < LENGTH(32)"
    show "bit a n = bit b n"
    proof (cases "n < 15")
      case True
      then show ?thesis using arg_cong [OF r, of "\<lambda>w. bit w (n + 17)"] n by (auto simp: bit_simps dest: bit_imp_le_length)
    next
      case False
      then show ?thesis using arg_cong [OF r, of "\<lambda>w. bit w (n - 15)"] n by (auto simp: bit_simps dest: bit_imp_le_length)
    qed
  qed
qed simp

subsection \<open>Records are read back\<close>

definition tf_frame :: "byte list \<Rightarrow> byte list" where
  "tf_frame payload = tf_header payload @ payload @ tf_foot payload"

lemma Write_frame: "fst (TFRecord_Write TfOk payload t) = t\<lparr>tfOut := tfOut t @ tf_frame payload, tfCount := i64 (tfCount t + 1)\<rparr>"
  by (simp add: TFRecord_Write_def tf_frame_def Let_def)

lemma length_tf [simp]: "length (tf_header p) = 12" "length (tf_foot p) = 4" "length (tf_frame p) = 16 + length p"
  by (simp_all add: tf_header_def tf_foot_def tf_frame_def Let_def)

lemma length_field: "length p < 2 ^ 64 \<Longrightarrow> unat (word_of_nat (length p) :: 64 word) = length p"
  by (simp add: unsigned_of_nat take_bit_nat_eq_self)

text \<open>What one call of the reader does, over the bytes that are left.\<close>

lemma Read_frame:
  assumes "length p < 2 ^ 64" "length p \<le> mem" "rdBytes r = tf_frame p @ rest"
  shows "TFRecord_Read mem r = (Record p, r\<lparr>rdBytes := rest\<rparr>)"
proof -
  define len where "len = put_le 8 (word_of_nat (length p) :: 64 word)"
  have hdr: "tf_header p = len @ put_le 4 (maskCRC (crc32c len))" by (simp add: tf_header_def len_def Let_def)
  have len: "length len = 8" "get_le len = length p" by (simp_all add: len_def length_field [OF assms(1)])
  have r1: "ReadFull 12 r = (tf_header p, More, r\<lparr>rdBytes := p @ tf_foot p @ rest\<rparr>)"
    using assms(3) by (simp add: ReadFull_def tf_frame_def)
  have r2: "ReadFull (length p) (r\<lparr>rdBytes := p @ tf_foot p @ rest\<rparr>) = (p, More, r\<lparr>rdBytes := tf_foot p @ rest\<rparr>)" by (simp add: ReadFull_def)
  have r3: "ReadFull 4 (r\<lparr>rdBytes := tf_foot p @ rest\<rparr>) = (tf_foot p, More, r\<lparr>rdBytes := rest\<rparr>)" by (simp add: ReadFull_def)
  have "take 8 (tf_header p) = len" "drop 8 (tf_header p) = put_le 4 (maskCRC (crc32c len))" by (simp_all add: hdr len(1))
  with r1 r2 r3 assms(2) len(2) show ?thesis by (simp add: TFRecord_Read_def Let_def tf_foot_def)
qed

text \<open>The end of the stream, or of what is left of a record.\<close>

lemma Read_end: "rdBytes r = [] \<Longrightarrow> rdErr r = None \<Longrightarrow> TFRecord_Read mem r = (EndOfFile, r)"
  by (simp add: TFRecord_Read_def ReadFull_def)

definition failed :: "tf_result \<Rightarrow> bool" where
  "failed res \<longleftrightarrow> (\<exists>e. res = TfError e)"

lemma Read_torn:
  assumes "length p < 2 ^ 64" "length p \<le> mem" "0 < k" "k < length (tf_frame p)" "rdBytes r = take k (tf_frame p)"
  shows "failed (fst (TFRecord_Read mem r))"
proof -
  define len where "len = put_le 8 (word_of_nat (length p) :: 64 word)"
  have hdr: "tf_header p = len @ put_le 4 (maskCRC (crc32c len))" by (simp add: tf_header_def len_def Let_def)
  have len: "length len = 8" "get_le len = length p" by (simp_all add: len_def length_field [OF assms(1)])
  have hp: "take 8 (tf_header p) = len" "drop 8 (tf_header p) = put_le 4 (maskCRC (crc32c len))" by (simp_all add: hdr len(1))
  consider "k < 12" | "12 \<le> k" "k < 12 + length p" | "12 + length p \<le> k" by linarith
  then show ?thesis
  proof cases
    case 1
    have "length (rdBytes r) = k" using assms(4,5) by simp
    moreover from this have "rdBytes r \<noteq> []" using assms(3) by auto
    ultimately show ?thesis using 1 by (auto simp: TFRecord_Read_def ReadFull_def failed_def split: option.split)
  next
    case 2
    then have b: "rdBytes r = tf_header p @ take (k - 12) p" using assms(5) by (simp add: tf_frame_def)
    have r1: "ReadFull 12 r = (tf_header p, More, r\<lparr>rdBytes := take (k - 12) p\<rparr>)" by (simp add: ReadFull_def b)
    have "\<not> length p \<le> length (take (k - 12) p)" using 2 by simp
    then show ?thesis using r1 hp len(2) assms(2)
      by (auto simp: TFRecord_Read_def Let_def ReadFull_def [of "length p"] failed_def split: option.split)
  next
    case 3
    then have b: "rdBytes r = tf_header p @ p @ take (k - 12 - length p) (tf_foot p)" using assms(5) by (simp add: tf_frame_def)
    have r1: "ReadFull 12 r = (tf_header p, More, r\<lparr>rdBytes := p @ take (k - 12 - length p) (tf_foot p)\<rparr>)" by (simp add: ReadFull_def b)
    have r2: "ReadFull (length p) (r\<lparr>rdBytes := p @ take (k - 12 - length p) (tf_foot p)\<rparr>) = (p, More, r\<lparr>rdBytes := take (k - 12 - length p) (tf_foot p)\<rparr>)"
      by (simp add: ReadFull_def)
    have "\<not> 4 \<le> length (take (k - 12 - length p) (tf_foot p))" using assms(4) 3 by simp
    then show ?thesis using r1 r2 hp len(2) assms(2)
      by (auto simp: TFRecord_Read_def Let_def ReadFull_def [of 4] failed_def split: option.split)
  qed
qed

subsection \<open>Corruption is detected\<close>

lemma get_be_less: "get_be bs < 256 ^ length bs"
proof (induction bs)
  case (Cons b bs)
  have "unat b * 256 ^ length bs + get_be bs < (unat b + 1) * 256 ^ length bs" using Cons by simp
  also have "\<dots> \<le> 256 * 256 ^ length bs" by (intro mult_right_mono) (simp_all add: Suc_le_eq)
  finally show ?case by simp
qed simp

lemma get_be_inj: "length xs = length ys \<Longrightarrow> get_be xs = get_be ys \<Longrightarrow> xs = ys"
proof (induction xs ys rule: list_induct2)
  case (Cons x xs y ys)
  have "unat x = get_be (x # xs) div 256 ^ length xs" "get_be xs = get_be (x # xs) mod 256 ^ length xs"
    using get_be_less [of xs] by simp_all
  moreover have "unat y = get_be (y # ys) div 256 ^ length ys" "get_be ys = get_be (y # ys) mod 256 ^ length ys"
    using get_be_less [of ys] by simp_all
  ultimately have "unat x = unat y" "get_be xs = get_be ys" using Cons.prems Cons.hyps by (simp_all only:)
  with Cons.IH show ?case by (simp add: word_unat_eq_iff)
qed simp

lemma get_le_inj: "length xs = length ys \<Longrightarrow> get_le xs = get_le ys \<Longrightarrow> xs = ys"
  using get_be_inj [of "rev xs" "rev ys"] by (simp add: get_le_def)

lemma castagnoli_top: "bit castagnoli 31"
  by (simp add: castagnoli_def poly_castagnoli_def bit_numeral_rec)

lemma update_append_left: "i < length xs \<Longrightarrow> (xs @ ys)[i := v] = xs[i := v] @ ys"
  by (simp add: list_update_append)

lemma update_append_right: "length xs \<le> i \<Longrightarrow> (xs @ ys)[i := v] = xs @ ys[i - length xs := v]"
  by (simp add: list_update_append)

text \<open>A stored checksum in which a byte was changed, or whose text was changed in one byte, no longer fits.\<close>

lemma changed_text:
  assumes "i < length bs" "b \<noteq> bs ! i"
  shows "unat (maskCRC (crc32c (bs[i := b]))) \<noteq> get_le (put_le 4 (maskCRC (crc32c bs)))"
  using crc32_sees_byte [OF castagnoli_top assms] by (simp add: crc32c_def maskCRC_inj word_unat_eq_iff [symmetric])

lemma changed_sum:
  assumes "i < 4" "b \<noteq> put_le 4 w ! i"
  shows "unat w \<noteq> get_le ((put_le 4 (w :: 32 word))[i := b])"
proof
  assume "unat w = get_le ((put_le 4 w)[i := b])"
  then have "get_le ((put_le 4 w)[i := b]) = get_le (put_le 4 w)" by simp
  then have "(put_le 4 w)[i := b] = put_le 4 w" by (rule get_le_inj [rotated]) simp
  then show False using assms by (metis length_put_le nth_list_update_eq)
qed

lemma Read_corrupt:
  assumes "length p < 2 ^ 64" "length p \<le> mem" "i < length (tf_frame p)" "b \<noteq> tf_frame p ! i" "rdBytes r = (tf_frame p)[i := b] @ rest"
  shows "failed (fst (TFRecord_Read mem r))"
proof -
  define len where "len = put_le 8 (word_of_nat (length p) :: 64 word)"
  define sum where "sum = put_le 4 (maskCRC (crc32c len))"
  have fr: "tf_frame p = len @ sum @ p @ tf_foot p" by (simp add: tf_frame_def tf_header_def len_def sum_def Let_def)
  have l: "length len = 8" "length sum = 4" "get_le len = length p" by (simp_all add: len_def sum_def length_field [OF assms(1)])
  have head: "failed (fst (TFRecord_Read mem r))"
    if "rdBytes r = ln @ sm @ p @ tf_foot p @ rest" "length ln = 8" "length sm = 4" "unat (maskCRC (crc32c ln)) \<noteq> get_le sm" for ln sm
  proof -
    have "ReadFull 12 r = (ln @ sm, More, r\<lparr>rdBytes := p @ tf_foot p @ rest\<rparr>)" using that(1-3) by (simp add: ReadFull_def)
    then show ?thesis using that(2-4) by (simp add: TFRecord_Read_def failed_def)
  qed
  have tail: "failed (fst (TFRecord_Read mem r))"
    if "rdBytes r = len @ sum @ q @ ft @ rest" "length q = length p" "length ft = 4" "unat (maskCRC (crc32c q)) \<noteq> get_le ft" for q ft
  proof -
    have r1: "ReadFull 12 r = (len @ sum, More, r\<lparr>rdBytes := q @ ft @ rest\<rparr>)" using that(1) l by (simp add: ReadFull_def)
    have r2: "ReadFull (length p) (r\<lparr>rdBytes := q @ ft @ rest\<rparr>) = (q, More, r\<lparr>rdBytes := ft @ rest\<rparr>)" using that(2) by (simp add: ReadFull_def)
    have r3: "ReadFull 4 (r\<lparr>rdBytes := ft @ rest\<rparr>) = (ft, More, r\<lparr>rdBytes := rest\<rparr>)" using that(3) by (simp add: ReadFull_def)
    show ?thesis using r1 r2 r3 that(4) l assms(2) by (simp add: TFRecord_Read_def failed_def Let_def sum_def)
  qed
  consider "i < 8" | "8 \<le> i" "i < 12" | "12 \<le> i" "i < 12 + length p" | "12 + length p \<le> i" by linarith
  then show ?thesis
  proof cases
    case 1
    then have "rdBytes r = len[i := b] @ sum @ p @ tf_foot p @ rest" using assms(5) l by (simp add: fr update_append_left)
    moreover have "b \<noteq> len ! i" using assms(4) 1 l by (simp add: fr nth_append)
    then have "unat (maskCRC (crc32c (len[i := b]))) \<noteq> get_le sum" using changed_text [of i len b] 1 l by (simp add: sum_def)
    ultimately show ?thesis using l by (intro head [of "len[i := b]" sum]) simp_all
  next
    case 2
    then have "rdBytes r = len @ sum[i - 8 := b] @ p @ tf_foot p @ rest" using assms(5) l by (simp add: fr update_append_left update_append_right)
    moreover have "i - 8 < 4" using 2 by simp
    then have "b \<noteq> sum ! (i - 8)" using assms(4) 2(1) l by (simp add: fr nth_append)
    then have "unat (maskCRC (crc32c len)) \<noteq> get_le (sum[i - 8 := b])" unfolding sum_def using 2 by (intro changed_sum) simp_all
    ultimately show ?thesis using l by (intro head [of len "sum[i - 8 := b]"]) simp_all
  next
    case 3
    define j where "j = i - 12"
    have j: "j < length p" "i = 8 + (4 + j)" using 3 by (simp_all add: j_def)
    have "rdBytes r = len @ sum @ p[j := b] @ tf_foot p @ rest" using assms(5) l j by (simp add: fr update_append_left update_append_right)
    moreover have "b \<noteq> p ! j" using assms(4) j l by (simp add: fr nth_append)
    then have "unat (maskCRC (crc32c (p[j := b]))) \<noteq> get_le (tf_foot p)" using changed_text [of j p b] j(1) by (simp add: tf_foot_def)
    ultimately show ?thesis by (intro tail [of "p[j := b]" "tf_foot p"]) simp_all
  next
    case 4
    define j where "j = i - 12 - length p"
    have j: "j < 4" "i = 8 + (4 + (length p + j))" using 4 assms(3) by (simp_all add: j_def)
    have "rdBytes r = len @ sum @ p @ (tf_foot p)[j := b] @ rest" using assms(5) l j by (simp add: fr update_append_right)
    moreover have "b \<noteq> tf_foot p ! j" using assms(4) j l by (simp add: fr nth_append)
    then have "unat (maskCRC (crc32c p)) \<noteq> get_le ((tf_foot p)[j := b])" unfolding tf_foot_def using j(1) by (intro changed_sum) simp_all
    ultimately show ?thesis by (intro tail [of p "(tf_foot p)[j := b]"]) simp_all
  qed
qed

text \<open>Reading until something else than a record comes back.\<close>

lemma Read_progress: "TFRecord_Read mem r = (Record p, r') \<Longrightarrow> length (rdBytes r') < length (rdBytes r)"
  by (auto simp: TFRecord_Read_def ReadFull_def Let_def split: if_splits option.splits)

function read_all :: "nat \<Rightarrow> reader \<Rightarrow> byte list list \<times> tf_result" where
  "read_all mem r =
     (case TFRecord_Read mem r of
        (Record p, r') \<Rightarrow> (case read_all mem r' of (ps, res) \<Rightarrow> (p # ps, res))
      | (res, r') \<Rightarrow> ([], res))"
  by auto
termination by (relation "measure (\<lambda>(mem, r). length (rdBytes r))") (auto dest: Read_progress [OF sym])

declare read_all.simps [simp del]

lemma read_all_frame:
  "length p < 2 ^ 64 \<Longrightarrow> length p \<le> mem \<Longrightarrow> rdBytes r = tf_frame p @ rest \<Longrightarrow>
     read_all mem r = (case read_all mem (r\<lparr>rdBytes := rest\<rparr>) of (ps, res) \<Rightarrow> (p # ps, res))"
  by (subst read_all.simps) (simp add: Read_frame)

definition write_all :: "byte list list \<Rightarrow> TFRecordWriter" where
  "write_all ps = foldl (\<lambda>t p. fst (TFRecord_Write TfOk p t)) NewTFRecordWriter ps"

lemma write_all_bytes: "tfOut (write_all ps) = concat (map tf_frame ps)"
proof -
  have "tfOut (foldl (\<lambda>t p. fst (TFRecord_Write TfOk p t)) t ps) = tfOut t @ concat (map tf_frame ps)" for t
    by (induction ps arbitrary: t) (simp_all add: Write_frame)
  then show ?thesis by (simp add: write_all_def NewTFRecordWriter_def)
qed

lemma read_all_frames:
  assumes "\<forall>p \<in> set ps. length p < 2 ^ 64 \<and> length p \<le> mem"
  shows "read_all mem \<lparr>rdBytes = concat (map tf_frame ps) @ rest, rdErr = None\<rparr>
     = (case read_all mem \<lparr>rdBytes = rest, rdErr = None\<rparr> of (qs, res) \<Rightarrow> (ps @ qs, res))"
  using assms
proof (induction ps)
  case (Cons p ps)
  then show ?case by (subst read_all_frame [of p]) (auto split: prod.split)
qed simp

lemma read_all_end: "read_all mem \<lparr>rdBytes = [], rdErr = None\<rparr> = ([], EndOfFile)"
  by (subst read_all.simps) (simp add: Read_end)

lemma read_all_failed: "failed (fst (TFRecord_Read mem r)) \<Longrightarrow> \<exists>e. read_all mem r = ([], TfError e)"
  by (subst read_all.simps) (auto simp: failed_def split: prod.splits)

text \<open>C38. TFRecord files. What was written is read back record by record, and then the end of the file; from a file that was cut off inside a
  record the complete records are read back and then an error; and from a file in which one byte of a record, be it of its length, of its
  payload or of a checksum, was changed, the records before it are read back and then an error.\<close>

theorem tfrecord_round_trip:
  assumes "\<forall>q \<in> set (ps @ p # qs). length q < 2 ^ 64 \<and> length q \<le> mem"
  shows "read_all mem \<lparr>rdBytes = tfOut (write_all (ps @ p # qs)), rdErr = None\<rparr> = (ps @ p # qs, EndOfFile)
     \<and> (0 < k \<and> k < length (tf_frame p) \<longrightarrow>
          (\<exists>e. read_all mem \<lparr>rdBytes = take (length (tfOut (write_all ps)) + k) (tfOut (write_all (ps @ p # qs))), rdErr = None\<rparr> = (ps, TfError e)))
     \<and> (k < length (tf_frame p) \<and> b \<noteq> tf_frame p ! k \<longrightarrow>
          (\<exists>e. read_all mem \<lparr>rdBytes = (tfOut (write_all (ps @ p # qs)))[length (tfOut (write_all ps)) + k := b], rdErr = None\<rparr> = (ps, TfError e)))"
proof -
  have ps: "\<forall>q \<in> set ps. length q < 2 ^ 64 \<and> length q \<le> mem" and p: "length p < 2 ^ 64" "length p \<le> mem" using assms by auto
  note frames = read_all_frames [OF ps]
  have 1: "read_all mem \<lparr>rdBytes = tfOut (write_all (ps @ p # qs)), rdErr = None\<rparr> = (ps @ p # qs, EndOfFile)"
    using read_all_frames [OF assms, of "[]"] by (simp add: write_all_bytes read_all_end)
  have 2: "\<exists>e. read_all mem \<lparr>rdBytes = concat (map tf_frame ps) @ take k (tf_frame p), rdErr = None\<rparr> = (ps, TfError e)"
    if "0 < k" "k < length (tf_frame p)"
  proof -
    have "failed (fst (TFRecord_Read mem \<lparr>rdBytes = take k (tf_frame p), rdErr = None\<rparr>))" by (rule Read_torn [OF p that]) simp
    from read_all_failed [OF this] show ?thesis unfolding frames by auto
  qed
  have 3: "\<exists>e. read_all mem \<lparr>rdBytes = concat (map tf_frame ps) @ (tf_frame p)[k := b] @ concat (map tf_frame qs), rdErr = None\<rparr> = (ps, TfError e)"
    if "k < length (tf_frame p)" "b \<noteq> tf_frame p ! k"
  proof -
    have "failed (fst (TFRecord_Read mem \<lparr>rdBytes = (tf_frame p)[k := b] @ concat (map tf_frame qs), rdErr = None\<rparr>))" by (rule Read_corrupt [OF p that]) simp
    from read_all_failed [OF this] show ?thesis unfolding frames by auto
  qed
  show ?thesis using 1 2 3 by (simp add: write_all_bytes update_append_left update_append_right)
qed

theorem tfrecord_round_trip_witness:
  "read_all 5 \<lparr>rdBytes = tfOut (write_all [[1, 2], [3]]), rdErr = None\<rparr> = ([[1, 2], [3]], EndOfFile)
   \<and> (\<exists>e. read_all 5 \<lparr>rdBytes = take (length (tfOut (write_all [[1, 2]])) + 3) (tfOut (write_all [[1, 2], [3]])), rdErr = None\<rparr> = ([[1, 2]], TfError e))"
proof -
  have "\<forall>q \<in> set ([[1, 2]] @ [3] # []). length q < 2 ^ 64 \<and> length q \<le> (5 :: nat)" by simp
  from tfrecord_round_trip [where ps = "[[1, 2]]" and p = "[3]" and qs = "[]" and k = 3, OF this] show ?thesis by simp
qed

subsection \<open>Samples of a shard\<close>

text \<open>How a loader reads a shard: consecutive entries with the same name up to the first dot are one sample.\<close>

definition entry_key :: "string \<Rightarrow> string" where
  "entry_key name = takeWhile (\<lambda>c. c \<noteq> CHR ''.'') name"

definition entry_ext :: "string \<Rightarrow> string" where
  "entry_ext name = drop 1 (dropWhile (\<lambda>c. c \<noteq> CHR ''.'') name)"

fun group_samples :: "(string \<times> byte list) list \<Rightarrow> (string \<times> (string \<times> byte list) list) list" where
  "group_samples [] = []"
| "group_samples ((name, data) # es) =
     (case group_samples es of
        [] \<Rightarrow> [(entry_key name, [(entry_ext name, data)])]
      | (k, cs) # gs \<Rightarrow>
          if k = entry_key name then (k, (entry_ext name, data) # cs) # gs
          else (entry_key name, [(entry_ext name, data)]) # (k, cs) # gs)"

definition sample_entries :: "string \<Rightarrow> Component list \<Rightarrow> (string \<times> byte list) list" where
  "sample_entries key cs = map (\<lambda>c. (key @ ''.'' @ cpExt c, cpData c)) cs"

definition dot_free :: "string \<Rightarrow> bool" where
  "dot_free s \<longleftrightarrow> CHR ''.'' \<notin> set s"

lemma entry_of [simp]: "dot_free key \<Longrightarrow> entry_key (key @ CHR ''.'' # ext) = key" "dot_free key \<Longrightarrow> entry_ext (key @ CHR ''.'' # ext) = ext"
proof -
  assume "dot_free key"
  then have "\<forall>c \<in> set key. c \<noteq> CHR ''.''" by (auto simp: dot_free_def)
  then show "entry_key (key @ CHR ''.'' # ext) = key" "entry_ext (key @ CHR ''.'' # ext) = ext"
    unfolding entry_key_def entry_ext_def by (simp_all add: takeWhile_append2 dropWhile_append2)
qed

lemma group_sample:
  assumes "dot_free key" "cs \<noteq> []" "\<forall>g \<in> set (group_samples rest). fst g \<noteq> key"
  shows "group_samples (sample_entries key cs @ rest) = (key, map (\<lambda>c. (cpExt c, cpData c)) cs) # group_samples rest"
  using assms(2)
proof (induction cs rule: list_nonempty_induct)
  case (single c)
  then show ?case using assms(1,3) by (cases "group_samples rest") (auto simp: sample_entries_def)
next
  case (cons c cs)
  then show ?case using assms(1) by (simp add: sample_entries_def)
qed

lemma write_components_ok:
  "\<forall>c \<in> set cs. cpExt c \<noteq> [] \<and> tar (key @ ''.'' @ cpExt c) (cpData c) = None \<Longrightarrow>
     write_components tar key cs s = (s\<lparr>swEntries := swEntries s @ sample_entries key cs\<rparr>, None)"
  by (induction cs arbitrary: s) (simp_all add: sample_entries_def)

text \<open>A shard of samples with distinct keys without dots is read back as these samples, their components sorted by extension.\<close>

lemma webdataset_round_trip:
  assumes "distinct (map fst ss)" "\<forall>(key, cs) \<in> set ss. dot_free key \<and> cs \<noteq> []"
  shows "group_samples (concat (map (\<lambda>(key, cs). sample_entries key (sort_key cpExt cs)) ss))
     = map (\<lambda>(key, cs). (key, map (\<lambda>c. (cpExt c, cpData c)) (sort_key cpExt cs))) ss"
  using assms
proof (induction ss)
  case (Cons s ss)
  obtain key cs where s: "s = (key, cs)" by (cases s)
  have "cs \<noteq> []" "dot_free key" using Cons.prems(2) s by simp_all
  then have "sort_key cpExt cs \<noteq> []" by (metis length_0_conv length_sort)
  moreover have "\<forall>g \<in> set (group_samples (concat (map (\<lambda>(key, cs). sample_entries key (sort_key cpExt cs)) ss))). fst g \<noteq> key"
    using Cons.IH Cons.prems s by (simp add: image_iff split: prod.splits) (metis fst_conv)
  ultimately show ?case using Cons.IH Cons.prems s group_sample [of key "sort_key cpExt cs"] by simp
qed simp

lemma WriteSample_ok:
  assumes "key \<noteq> []" "cs \<noteq> []" "key \<notin> set (swSeen s)" "\<forall>c \<in> set cs. cpExt c \<noteq> [] \<and> tar (key @ ''.'' @ cpExt c) (cpData c) = None"
  shows "WriteSample tar key cs s = (s\<lparr>swEntries := swEntries s @ sample_entries key (sort_key cpExt cs), swSeen := key # swSeen s, swSamples := swSamples s + 1\<rparr>, None)"
  using assms write_components_ok [of "sort_key cpExt cs" tar key s] by (simp add: WriteSample_def)

text \<open>A dot in a key breaks the grouping: the samples \<^verbatim>\<open>a\<close> and \<^verbatim>\<open>a.b\<close> are accepted as different keys and write the same name.\<close>

lemma dotted_keys_collide:
  "swEntries (fst (WriteSample (\<lambda>_ _. None) ''a.b'' [\<lparr>cpExt = ''c'', cpData = [2]\<rparr>]
     (fst (WriteSample (\<lambda>_ _. None) ''a'' [\<lparr>cpExt = ''b.c'', cpData = [1]\<rparr>] NewShardWriter)))) = [(''a.b.c'', [1]), (''a.b.c'', [2])]"
  by (simp add: WriteSample_def NewShardWriter_def)

end
