(* ===== verification/Metadata.thy ===== *)
theory Metadata
  imports Keys "HOL-Library.List_Lexorder" "HOL-Library.Char_ord"
begin

section \<open>The metadata index\<close>

text \<open>
  \<^verbatim>\<open>internal/metadata\<close>: the table of objects and the SQL statements over it. The table is the list of its rows in insertion
  order and a statement is a function on it, as the SQL of the source says: \<^verbatim>\<open>INSERT OR REPLACE\<close> drops the rows that conflict on the
  primary key or on the unique \<^verbatim>\<open>s3_key\<close>; \<^verbatim>\<open>SUM\<close> over no rows is \<^verbatim>\<open>NULL\<close>; \<^verbatim>\<open>LIKE\<close> ignores the case of ASCII letters. Every
  statement can fail (the first argument), which leaves the table as it was. The JSON of labels and metadata is a parameter;
  times are nanoseconds.
\<close>

subsection \<open>Records\<close>

record DataRecord =
  drID :: string
  drFilename :: string
  drS3Key :: string
  drShard :: string
  drDataset :: string
  drSizeBytes :: int
  drChecksum :: string
  drLabels :: "string list"
  drMeta :: "(string, string) gomap"
  drTier :: StorageTier
  drVersion :: string
  drIndexedAt :: int

record json_codec =
  jsLabels :: "string list \<Rightarrow> string"
  jsUnLabels :: "string \<Rightarrow> string list option"
  jsMeta :: "(string, string) gomap \<Rightarrow> string"
  jsUnMeta :: "string \<Rightarrow> (string, string) gomap option"

record Row =
  rwID :: string
  rwFilename :: string
  rwS3Key :: string
  rwShard :: string
  rwDataset :: string
  rwSizeBytes :: int
  rwChecksum :: string
  rwLabels :: string
  rwMeta :: string
  rwTier :: StorageTier
  rwVersion :: string
  rwIndexedAt :: int

record ShardManifest =
  smShard :: string
  smDataset :: string
  smRecords :: "DataRecord list"
  smCount :: int
  smSizeBytes :: int

record ShardStats =
  ssShard :: string
  ssCount :: int
  ssSizeBytes :: int

record DatasetStats =
  dsDataset :: string
  dsTotalImages :: int
  dsTotalBytes :: int
  dsShardCount :: int
  dsLabelCount :: "(string, int) gomap"
  dsTierBreakdown :: "(StorageTier, int) gomap"

type_synonym Index = "Row list"

subsection \<open>Writing\<close>

definition to_row :: "json_codec \<Rightarrow> DataRecord \<Rightarrow> Row" where
  "to_row js r = \<lparr>rwID = drID r, rwFilename = drFilename r, rwS3Key = drS3Key r, rwShard = drShard r, rwDataset = drDataset r,
     rwSizeBytes = drSizeBytes r, rwChecksum = drChecksum r, rwLabels = jsLabels js (drLabels r), rwMeta = jsMeta js (drMeta r),
     rwTier = drTier r, rwVersion = drVersion r, rwIndexedAt = drIndexedAt r\<rparr>"

definition replace_row :: "Row \<Rightarrow> Index \<Rightarrow> Index" where
  "replace_row x tbl = filter (\<lambda>y. rwID y \<noteq> rwID x \<and> rwS3Key y \<noteq> rwS3Key x) tbl @ [x]"

definition Insert :: "json_codec \<Rightarrow> string option \<Rightarrow> DataRecord \<Rightarrow> Index \<Rightarrow> Index \<times> string option" where
  "Insert js err r tbl =
     (case err of Some e \<Rightarrow> (tbl, Some (''insert record: '' @ e)) | None \<Rightarrow> (replace_row (to_row js r) tbl, None))"

datatype batch_fault = BatchOk | BatchBegin string | BatchPrepare string | BatchExec nat string | BatchCommit string

text \<open>\<^verbatim>\<open>InsertBatch\<close>: one transaction. The statement of the \<open>k\<close>-th record may fail.\<close>

definition InsertBatch :: "json_codec \<Rightarrow> batch_fault \<Rightarrow> DataRecord list \<Rightarrow> Index \<Rightarrow> Index \<times> string option" where
  "InsertBatch js flt recs tbl =
     (if recs = [] then (tbl, None)
      else let done = (fold (\<lambda>r t. replace_row (to_row js r) t) recs tbl, None)
           in (case flt of
                 BatchBegin e \<Rightarrow> (tbl, Some (''begin batch: '' @ e))
               | BatchPrepare e \<Rightarrow> (tbl, Some (''prepare batch: '' @ e))
               | BatchExec k e \<Rightarrow> if k < length recs then (tbl, Some (''batch exec: '' @ e)) else done
               | BatchCommit e \<Rightarrow> (tbl, Some (''commit batch: '' @ e))
               | BatchOk \<Rightarrow> done))"

definition UpdateTier :: "string option \<Rightarrow> string \<Rightarrow> StorageTier \<Rightarrow> Index \<Rightarrow> Index \<times> string option" where
  "UpdateTier err s3Key tier tbl =
     (case err of
        Some e \<Rightarrow> (tbl, Some (''update tier: '' @ e))
      | None \<Rightarrow> (map (\<lambda>x. if rwS3Key x = s3Key then x\<lparr>rwTier := tier\<rparr> else x) tbl, None))"

subsection \<open>Reading\<close>

definition or_empty :: "'a list option \<Rightarrow> 'a list" where
  "or_empty x = (case x of None \<Rightarrow> [] | Some y \<Rightarrow> y)"

definition scanRecord :: "json_codec \<Rightarrow> Row \<Rightarrow> DataRecord" where
  "scanRecord js x = \<lparr>drID = rwID x, drFilename = rwFilename x, drS3Key = rwS3Key x, drShard = rwShard x, drDataset = rwDataset x,
     drSizeBytes = rwSizeBytes x, drChecksum = rwChecksum x, drLabels = or_empty (jsUnLabels js (rwLabels x)),
     drMeta = or_empty (jsUnMeta js (rwMeta x)), drTier = rwTier x, drVersion = rwVersion x, drIndexedAt = rwIndexedAt x\<rparr>"

text \<open>A query fails at the statement, at the scan of a row or at the end of the iteration.\<close>

datatype db_fault = DbOk | DbQuery string | DbScan string | DbRows string

definition query :: "string \<Rightarrow> string \<Rightarrow> db_fault \<Rightarrow> 'a \<Rightarrow> 'a outcome" where
  "query what scan flt res =
     (case flt of DbOk \<Rightarrow> Ok res | DbQuery e \<Rightarrow> Err (what @ e) | DbScan e \<Rightarrow> Err (scan @ e) | DbRows e \<Rightarrow> Err e)"

definition GetShardManifest :: "json_codec \<Rightarrow> db_fault \<Rightarrow> string \<Rightarrow> string \<Rightarrow> Index \<Rightarrow> ShardManifest outcome" where
  "GetShardManifest js err shard dataset tbl =
     (let rs = map (scanRecord js) (sort_key rwFilename (filter (\<lambda>x. rwShard x = shard \<and> rwDataset x = dataset) tbl))
      in query ''query shard manifest: '' ''scan record: '' err
           \<lparr>smShard = shard, smDataset = dataset, smRecords = rs, smCount = int (length rs), smSizeBytes = i64 (sum_list (map drSizeBytes rs))\<rparr>)"

definition lower :: "char \<Rightarrow> char" where
  "lower c = (let n = of_char c :: nat in if 65 \<le> n \<and> n \<le> 90 then char_of (n + 32) else c)"

definition ToLower :: "string \<Rightarrow> string" where
  "ToLower s = map lower s"

text \<open>\<^verbatim>\<open>LIKE\<close>: a percent sign stands for any text and an underscore for any character.\<close>

fun like :: "string \<Rightarrow> string \<Rightarrow> bool" where
  "like [] [] \<longleftrightarrow> True"
| "like [] (c # cs) \<longleftrightarrow> False"
| "like (p # ps) [] \<longleftrightarrow> p = CHR ''%'' \<and> like ps []"
| "like (p # ps) (c # cs) \<longleftrightarrow>
     (if p = CHR ''%'' then like ps (c # cs) \<or> like (p # ps) cs
      else (p = CHR ''_'' \<or> lower p = lower c) \<and> like ps cs)"

definition SearchByLabel :: "json_codec \<Rightarrow> db_fault \<Rightarrow> string \<Rightarrow> string \<Rightarrow> int \<Rightarrow> Index \<Rightarrow> DataRecord list outcome" where
  "SearchByLabel js err label dataset limit tbl =
     (let rs = filter (\<lambda>x. rwDataset x = dataset \<and> like (''%'' @ label @ ''%'') (rwLabels x)) tbl
      in query ''search by label: '' ''scan record: '' err (map (scanRecord js) (if limit < 0 then rs else take (nat limit) rs)))"

definition Shard_stats :: "db_fault \<Rightarrow> string \<Rightarrow> Index \<Rightarrow> ShardStats list outcome" where
  "Shard_stats err dataset tbl =
     (let rs = filter (\<lambda>x. rwDataset x = dataset) tbl
      in query ''shard stats: '' [] err
           (map (\<lambda>sh. let ys = filter (\<lambda>x. rwShard x = sh) rs
                      in \<lparr>ssShard = sh, ssCount = int (length ys), ssSizeBytes = sum_list (map rwSizeBytes ys)\<rparr>)
             (sort (remdups (map rwShard rs)))))"

definition count_labels :: "string list \<Rightarrow> (string, int) gomap \<Rightarrow> (string, int) gomap" where
  "count_labels ls m = foldl (\<lambda>m l. AList.update l (lookup0 0 m l + 1) m) m ls"

definition LabelCounts :: "json_codec \<Rightarrow> db_fault \<Rightarrow> string \<Rightarrow> Index \<Rightarrow> (string, int) gomap outcome" where
  "LabelCounts js err dataset tbl =
     query ''label counts: '' [] err
       (foldl (\<lambda>m x. case jsUnLabels js (rwLabels x) of None \<Rightarrow> m | Some ls \<Rightarrow> count_labels ls m) [] (filter (\<lambda>x. rwDataset x = dataset) tbl))"

text \<open>The sum over no rows is \<^verbatim>\<open>NULL\<close>, which cannot be scanned into an integer. The three queries of \<^verbatim>\<open>DatasetStats\<close> may each
  fail; an error of the iteration over the tiers is not looked at.\<close>

definition Dataset_stats :: "json_codec \<Rightarrow> string option \<Rightarrow> db_fault \<Rightarrow> db_fault \<Rightarrow> string \<Rightarrow> Index \<Rightarrow> DatasetStats outcome" where
  "Dataset_stats js err terr lerr dataset tbl =
     (let rs = filter (\<lambda>x. rwDataset x = dataset) tbl;
          tiers = map (\<lambda>t. (t, int (length (filter (\<lambda>x. rwTier x = t) rs)))) (remdups (map rwTier rs))
      in (case err of
            Some e \<Rightarrow> Err (''dataset stats: '' @ e)
          | None \<Rightarrow>
              if rs = [] then Err ''dataset stats: sql: Scan error on column index 1, name SUM(size_bytes): converting NULL to int64 is unsupported''
              else (case terr of
                      DbQuery e \<Rightarrow> Err e
                    | DbScan e \<Rightarrow> Err e
                    | _ \<Rightarrow> (case LabelCounts js lerr dataset tbl of
                              Ok counts \<Rightarrow>
                                Ok \<lparr>dsDataset = dataset, dsTotalImages = int (length rs), dsTotalBytes = sum_list (map rwSizeBytes rs),
                                    dsShardCount = int (length (remdups (map rwShard rs))), dsLabelCount = counts, dsTierBreakdown = tiers\<rparr>
                            | Err e \<Rightarrow> Err e
                            | Panic \<Rightarrow> Panic))))"

definition RecordsByTierAge :: "json_codec \<Rightarrow> db_fault \<Rightarrow> StorageTier \<Rightarrow> int \<Rightarrow> Index \<Rightarrow> DataRecord list outcome" where
  "RecordsByTierAge js err tier before tbl =
     query ''records by tier age: '' ''scan record: '' err (map (scanRecord js) (filter (\<lambda>x. rwTier x = tier \<and> rwIndexedAt x < before) tbl))"

subsection \<open>The table is well formed\<close>

definition index_ok :: "Index \<Rightarrow> bool" where
  "index_ok tbl \<longleftrightarrow> distinct (map rwID tbl) \<and> distinct (map rwS3Key tbl)"

lemma replace_row_ok: "index_ok tbl \<Longrightarrow> index_ok (replace_row x tbl)"
  by (auto simp: index_ok_def replace_row_def distinct_map_filter)

lemma fold_replace_ok: "index_ok tbl \<Longrightarrow> index_ok (fold (\<lambda>r t. replace_row (to_row js r) t) recs tbl)"
  by (induction recs arbitrary: tbl) (simp_all add: replace_row_ok)

lemma InsertBatch_ok: "index_ok tbl \<Longrightarrow> index_ok (fst (InsertBatch js flt recs tbl))"
  by (simp add: InsertBatch_def Let_def fold_replace_ok split: batch_fault.split)

lemma UpdateTier_keys: "map rwID (fst (UpdateTier err k t tbl)) = map rwID tbl" "map rwS3Key (fst (UpdateTier err k t tbl)) = map rwS3Key tbl"
  by (auto simp: UpdateTier_def comp_def split: option.split)

lemma UpdateTier_ok: "index_ok tbl \<Longrightarrow> index_ok (fst (UpdateTier err k t tbl))"
  by (simp add: index_ok_def UpdateTier_keys)

lemma InsertBatch_atomic: "snd (InsertBatch js flt recs tbl) = Some e \<Longrightarrow> fst (InsertBatch js flt recs tbl) = tbl"
  by (auto simp: InsertBatch_def Let_def split: batch_fault.splits if_splits)

lemma replace_row_keys: "set (map rwS3Key (replace_row x tbl)) \<subseteq> insert (rwS3Key x) (set (map rwS3Key tbl))" "x \<in> set (replace_row x tbl)"
  by (auto simp: replace_row_def)

text \<open>With distinct ids an insertion keeps the keys that are there: it replaces a row only by one with the same key.\<close>

lemma replace_row_grows:
  assumes "rwID x \<notin> set (map rwID tbl)"
  shows "set (map rwS3Key (replace_row x tbl)) = insert (rwS3Key x) (set (map rwS3Key tbl))"
proof -
  have "y \<in> set (replace_row x tbl) \<or> rwS3Key y = rwS3Key x" if "y \<in> set tbl" for y
    using that assms by (auto simp: replace_row_def image_iff)
  then show ?thesis using replace_row_keys [of x tbl] by fastforce
qed

lemma fold_replace_grows:
  assumes "distinct (map drID recs)" "\<forall>r \<in> set recs. drID r \<notin> set (map rwID tbl)"
  shows "set (map rwS3Key (fold (\<lambda>r t. replace_row (to_row js r) t) recs tbl)) = set (map rwS3Key tbl) \<union> set (map drS3Key recs)"
  using assms
proof (induction recs arbitrary: tbl)
  case (Cons r recs)
  have "rwID (to_row js r) \<notin> set (map rwID tbl)" using Cons.prems by (simp add: to_row_def)
  note g = replace_row_grows [OF this]
  have "\<forall>q \<in> set recs. drID q \<notin> set (map rwID (replace_row (to_row js r) tbl))"
    using Cons.prems by (simp add: replace_row_def to_row_def image_iff) metis
  with Cons.IH [of "replace_row (to_row js r) tbl"] Cons.prems g show ?case by (auto simp: to_row_def)
qed simp

text \<open>An inserted record is read back, when the JSON of its labels and metadata decodes.\<close>

lemma scan_to_row:
  assumes "jsUnLabels js (jsLabels js (drLabels r)) = Some (drLabels r)" "jsUnMeta js (jsMeta js (drMeta r)) = Some (drMeta r)"
  shows "scanRecord js (to_row js r) = r"
  using assms by (simp add: scanRecord_def to_row_def or_empty_def)

subsection \<open>Searching\<close>

definition plain_label :: "string \<Rightarrow> bool" where
  "plain_label l \<longleftrightarrow> CHR ''%'' \<notin> set l \<and> CHR ''_'' \<notin> set l"

lemma like_percent: "like (CHR ''%'' # p) t \<longleftrightarrow> (\<exists>u v. t = u @ v \<and> like p v)"
proof (induction t)
  case (Cons c t)
  have "like (CHR ''%'' # p) (c # t) \<longleftrightarrow> like p (c # t) \<or> (\<exists>u v. t = u @ v \<and> like p v)" using Cons by simp
  also have "\<dots> \<longleftrightarrow> (\<exists>u v. c # t = u @ v \<and> like p v)" by (auto simp: Cons_eq_append_conv)
  finally show ?case .
qed simp

lemma like_plain: "plain_label l \<Longrightarrow> like (l @ p) t \<longleftrightarrow> (\<exists>u v. t = u @ v \<and> map lower u = map lower l \<and> like p v)"
proof (induction l arbitrary: t)
  case (Cons a l)
  then have a: "a \<noteq> CHR ''%''" "a \<noteq> CHR ''_''" and l: "plain_label l" by (auto simp: plain_label_def)
  show ?case
  proof (cases t)
    case Nil
    then show ?thesis using a by simp
  next
    case t: (Cons c t')
    have "like ((a # l) @ p) t \<longleftrightarrow> lower a = lower c \<and> (\<exists>u v. t' = u @ v \<and> map lower u = map lower l \<and> like p v)"
      using a Cons.IH [OF l] t by simp
    also have "\<dots> \<longleftrightarrow> (\<exists>u v. t = u @ v \<and> map lower u = map lower (a # l) \<and> like p v)"
      unfolding t by (auto simp: Cons_eq_append_conv map_eq_Cons_conv) metis+
    finally show ?thesis .
  qed
qed simp

text \<open>A label without wildcards is found where it occurs in the text of the labels, up to case.\<close>

lemma search_is_substring:
  "plain_label l \<Longrightarrow> like (''%'' @ l @ ''%'') t \<longleftrightarrow> (\<exists>u m v. t = u @ m @ v \<and> map lower m = map lower l)"
proof -
  assume l: "plain_label l"
  have nil: "like ''%'' v" for v by (simp add: like_percent) (metis append_Nil2 like.simps(1))
  have "like (''%'' @ l @ ''%'') t \<longleftrightarrow> (\<exists>u w. t = u @ w \<and> like (l @ ''%'') w)" by (simp add: like_percent)
  also have "\<dots> \<longleftrightarrow> (\<exists>u m v. t = u @ m @ v \<and> map lower m = map lower l)" unfolding like_plain [OF l] using nil by blast
  finally show ?thesis .
qed

end
