(* ===== verification/Storage.thy ===== *)
theory Storage
  imports Keys
begin

section \<open>The object store client\<close>

text \<open>
  \<^verbatim>\<open>internal/storage/client.go\<close>: the calls of the client on one bucket. The bucket is the map from keys to objects that the
  documentation of S3 describes: a put or a copy replaces the whole object, a copy without a storage class gives the class
  \<^verbatim>\<open>STANDARD\<close>, deleting a key that is not there succeeds. Every call can fail (its \<^verbatim>\<open>err\<close> argument), which leaves the bucket as it was.
  The pages of a listing are given by the service, a parameter.
\<close>

subsection \<open>Objects and calls\<close>

datatype StorageClass = StorageClassStandard | StorageClassStandardIa | StorageClassGlacierIr | StorageClassDeepArchive

record S3Object =
  obBody :: "byte list"
  obType :: string
  obClass :: StorageClass

type_synonym bucket = "(string, S3Object) gomap"

definition s3StorageClass :: "string \<Rightarrow> StorageClass" where
  "s3StorageClass cls =
     (if cls = ''STANDARD_IA'' then StorageClassStandardIa
      else if cls = ''GLACIER_IR'' then StorageClassGlacierIr
      else if cls = ''DEEP_ARCHIVE'' then StorageClassDeepArchive
      else StorageClassStandard)"

definition Put :: "string option \<Rightarrow> string \<Rightarrow> byte list \<Rightarrow> string \<Rightarrow> bucket \<Rightarrow> bucket \<times> string option" where
  "Put err key body contentType b =
     (case err of
        Some e \<Rightarrow> (b, Some (''put '' @ key @ '': '' @ e))
      | None \<Rightarrow> (AList.update key \<lparr>obBody = body, obType = contentType, obClass = StorageClassStandard\<rparr> b, None))"

text \<open>The size of a fetched object is the \<^verbatim>\<open>Content-Length\<close> the service sends with it, or zero.\<close>

definition Get :: "string option \<Rightarrow> int option \<Rightarrow> string \<Rightarrow> bucket \<Rightarrow> (byte list \<times> int) outcome" where
  "Get err clen key b =
     (case err of
        Some e \<Rightarrow> Err (''get '' @ key @ '': '' @ e)
      | None \<Rightarrow> (case map_of b key of
                  None \<Rightarrow> Err (''get '' @ key @ '': NoSuchKey'')
                | Some ob \<Rightarrow> Ok (obBody ob, case clen of None \<Rightarrow> 0 | Some n \<Rightarrow> n)))"

definition Delete :: "string option \<Rightarrow> string \<Rightarrow> bucket \<Rightarrow> bucket \<times> string option" where
  "Delete err key b =
     (case err of
        Some e \<Rightarrow> (b, Some (''delete '' @ key @ '': '' @ e))
      | None \<Rightarrow> (AList.delete key b, None))"

definition Copy :: "string option \<Rightarrow> string \<Rightarrow> string \<Rightarrow> bucket \<Rightarrow> bucket \<times> string option" where
  "Copy err src dst b =
     (let bad = (\<lambda>e. (b, Some (''copy '' @ src @ '' -> '' @ dst @ '': '' @ e)))
      in (case err of
            Some e \<Rightarrow> bad e
          | None \<Rightarrow> (case map_of b src of
                      None \<Rightarrow> bad ''NoSuchKey''
                    | Some ob \<Rightarrow> (AList.update dst (ob\<lparr>obClass := StorageClassStandard\<rparr>) b, None))))"

definition CopyStorageClass :: "string option \<Rightarrow> string \<Rightarrow> string \<Rightarrow> bucket \<Rightarrow> bucket \<times> string option" where
  "CopyStorageClass err key storageClass b =
     (let bad = (\<lambda>e. (b, Some (''copy storage class for '' @ key @ '': '' @ e)))
      in (case err of
            Some e \<Rightarrow> bad e
          | None \<Rightarrow> (case map_of b key of
                      None \<Rightarrow> bad ''NoSuchKey''
                    | Some ob \<Rightarrow> (AList.update key (ob\<lparr>obClass := s3StorageClass storageClass\<rparr>) b, None))))"

subsection \<open>Listing\<close>

record list_page =
  lpContents :: "string list"
  lpTruncated :: bool
  lpNext :: "string option"

text \<open>\<^verbatim>\<open>ListPrefix\<close> follows the continuation tokens. A service that never stops truncating makes it run forever, the value \<open>None\<close>.\<close>

partial_function (option) list_loop ::
  "(string option \<Rightarrow> list_page outcome) \<Rightarrow> string \<Rightarrow> string list \<Rightarrow> string option \<Rightarrow> string list outcome option" where
  "list_loop svc prefix keys token =
     (case svc token of
        Ok page \<Rightarrow>
          (let keys' = keys @ lpContents page
           in if lpTruncated page then list_loop svc prefix keys' (lpNext page) else Some (Ok keys'))
      | Err e \<Rightarrow> Some (Err (''list prefix '' @ prefix @ '': '' @ e))
      | Panic \<Rightarrow> Some Panic)"

definition ListPrefix :: "(string \<Rightarrow> string option \<Rightarrow> list_page outcome) \<Rightarrow> string \<Rightarrow> string list outcome option" where
  "ListPrefix svc prefix = list_loop (svc prefix) prefix [] None"

subsection \<open>Lemmas\<close>

lemma Put_then_Get: "Get None (Some n) key (fst (Put None key body ct b)) = Ok (body, n)"
  by (simp add: Get_def Put_def)

lemma Put_other: "k \<noteq> key \<Longrightarrow> map_of (fst (Put err key body ct b)) k = map_of b k"
  by (simp add: Put_def map_of_update_apply split: option.split)

lemma Put_keys: "snd (Put err key body ct b) = None \<Longrightarrow> fst ` set (fst (Put err key body ct b)) = insert key (fst ` set b)"
  by (simp add: Put_def keys_update split: option.splits)

text \<open>Copying different sources to one destination leaves one object there, the last one.\<close>

lemma Copy_keeps_body:
  assumes "map_of b src = Some ob" "Copy None src dst b = (b', r)"
  shows "r = None \<and> (\<exists>ob'. map_of b' dst = Some ob' \<and> obBody ob' = obBody ob) \<and> (\<forall>k. k \<noteq> dst \<longrightarrow> map_of b' k = map_of b k)"
  using assms by (auto simp: Copy_def map_of_update_apply)

lemma CopyStorageClass_only_class:
  assumes "CopyStorageClass err key cls b = (b', r)"
  shows "map_option obBody (map_of b' k) = map_option obBody (map_of b k)"
    and "k \<noteq> key \<Longrightarrow> map_of b' k = map_of b k"
    and "r \<noteq> None \<Longrightarrow> b' = b"
    and "r = None \<Longrightarrow> map_option obClass (map_of b' key) = Some (s3StorageClass cls)"
  using assms by (auto simp: CopyStorageClass_def Let_def map_of_update_apply split: option.splits)

text \<open>The class of a tier: the two translations, by name in \<^verbatim>\<open>shard.go\<close> and back in \<^verbatim>\<open>client.go\<close>, fit together.\<close>

fun class_of :: "StorageTier \<Rightarrow> StorageClass" where
  "class_of TierHot = StorageClassStandard"
| "class_of TierWarm = StorageClassStandardIa"
| "class_of TierCold = StorageClassGlacierIr"
| "class_of TierArchive = StorageClassDeepArchive"
| "class_of (TierOther _) = StorageClassStandard"

lemma tier_class: "s3StorageClass (S3StorageClass t) = class_of t"
  by (cases t) (simp_all add: s3StorageClass_def)

text \<open>The pages of a listing: what the service gives when it is asked again with the token of the page before.\<close>

fun serves :: "(string option \<Rightarrow> list_page outcome) \<Rightarrow> string option \<Rightarrow> string list list \<Rightarrow> bool" where
  "serves svc token [] \<longleftrightarrow> False"
| "serves svc token [p] \<longleftrightarrow> (\<exists>nx. svc token = Ok \<lparr>lpContents = p, lpTruncated = False, lpNext = nx\<rparr>)"
| "serves svc token (p # q # ps) \<longleftrightarrow>
     (\<exists>nx. svc token = Ok \<lparr>lpContents = p, lpTruncated = True, lpNext = nx\<rparr> \<and> serves svc nx (q # ps))"

lemma list_loop_pages: "serves svc token pages \<Longrightarrow> list_loop svc prefix keys token = Some (Ok (keys @ concat pages))"
  by (induction svc token pages arbitrary: keys rule: serves.induct) (auto simp: list_loop.simps)

lemma ListPrefix_all: "serves (svc prefix) None pages \<Longrightarrow> ListPrefix svc prefix = Some (Ok (concat pages))"
  by (simp add: ListPrefix_def list_loop_pages)

end
