(* ===== verification/Tiering.thy ===== *)
theory Tiering
  imports Metadata Storage Complex_Main
begin

section \<open>Tiering\<close>

text \<open>
  \<^verbatim>\<open>internal/tiering/engine.go\<close>: a pass over the index that moves objects to colder tiers by age. The engine works on the index
  and on the bucket; every call of either may fail. The calendar (\<^verbatim>\<open>AddDate\<close> in the local time zone) is the function \<^verbatim>\<open>addDays\<close>.
\<close>

subsection \<open>The engine\<close>

record Policy =
  plHotDays :: int
  plWarmDays :: int
  plColdDays :: int

record TransitionResult =
  trFrom :: StorageTier
  trTo :: StorageTier
  trCount :: int
  trBytes :: int

record TierReport =
  rpStartedAt :: int
  rpFinishedAt :: int
  rpTotal :: int
  rpTransitions :: "TransitionResult list"

record tier_site =
  tsIndex :: Index
  tsBucket :: bucket

text \<open>The faults of one transition: of the query, of the copy of a key and of the update of a key.\<close>

record tier_faults =
  tfQuery :: db_fault
  tfCopy :: "string \<Rightarrow> string option"
  tfUpdate :: "string \<Rightarrow> string option"

definition tier_record :: "tier_faults \<Rightarrow> StorageTier \<Rightarrow> DataRecord \<Rightarrow> tier_site \<times> int \<times> int \<Rightarrow> tier_site \<times> int \<times> int" where
  "tier_record flt tier r = (\<lambda>(s, n, bytes).
     (case CopyStorageClass (tfCopy flt (drS3Key r)) (drS3Key r) (S3StorageClass tier) (tsBucket s) of
        (b, Some e) \<Rightarrow> (s\<lparr>tsBucket := b\<rparr>, n, bytes)
      | (b, None) \<Rightarrow>
          (case UpdateTier (tfUpdate flt (drS3Key r)) (drS3Key r) tier (tsIndex s) of
             (t, Some e) \<Rightarrow> (s\<lparr>tsBucket := b, tsIndex := t\<rparr>, n, bytes)
           | (t, None) \<Rightarrow> (s\<lparr>tsBucket := b, tsIndex := t\<rparr>, n + 1, i64 (bytes + drSizeBytes r)))))"

definition transition ::
  "json_codec \<Rightarrow> tier_faults \<Rightarrow> StorageTier \<Rightarrow> StorageTier \<Rightarrow> int \<Rightarrow> tier_site \<Rightarrow> tier_site \<times> (int \<times> int) outcome" where
  "transition js flt frm tier before s =
     (case RecordsByTierAge js (tfQuery flt) frm before (tsIndex s) of
        Ok records \<Rightarrow> (case fold (tier_record flt tier) records (s, 0, 0) of (s', n, bytes) \<Rightarrow> (s', Ok (n, bytes)))
      | Err e \<Rightarrow> (s, Err e)
      | Panic \<Rightarrow> (s, Panic))"

fun tier_string :: "StorageTier \<Rightarrow> string" where
  "tier_string TierHot = ''HOT''"
| "tier_string TierWarm = ''WARM''"
| "tier_string TierCold = ''COLD''"
| "tier_string TierArchive = ''ARCHIVE''"
| "tier_string (TierOther s) = s"

fun run_transitions ::
  "json_codec \<Rightarrow> (StorageTier \<times> StorageTier \<times> int \<times> tier_faults) list \<Rightarrow> TierReport \<Rightarrow> tier_site
    \<Rightarrow> tier_site \<times> TierReport \<times> string option" where
  "run_transitions js [] rep s = (s, rep, None)"
| "run_transitions js ((frm, tier, before, flt) # ts) rep s =
     (case transition js flt frm tier before s of
        (s', Ok (n, bytes)) \<Rightarrow>
          run_transitions js ts
            (rep\<lparr>rpTransitions := rpTransitions rep @ [\<lparr>trFrom = frm, trTo = tier, trCount = n, trBytes = bytes\<rparr>], rpTotal := rpTotal rep + n\<rparr>) s'
      | (s', Err e) \<Rightarrow> (s', rep, Some (''transition '' @ tier_string frm @ ''->'' @ tier_string tier @ '': '' @ e))
      | (s', Panic) \<Rightarrow> (s', rep, Some ''panic''))"

definition tier_plan ::
  "(int \<Rightarrow> int \<Rightarrow> int) \<Rightarrow> int \<Rightarrow> Policy \<Rightarrow> tier_faults \<Rightarrow> tier_faults \<Rightarrow> tier_faults
    \<Rightarrow> (StorageTier \<times> StorageTier \<times> int \<times> tier_faults) list" where
  "tier_plan addDays now p f1 f2 f3 =
     [(TierHot, TierWarm, addDays now (- plHotDays p), f1),
      (TierWarm, TierCold, addDays now (- plWarmDays p), f2),
      (TierCold, TierArchive, addDays now (- plColdDays p), f3)]"

definition Run ::
  "json_codec \<Rightarrow> (int \<Rightarrow> int \<Rightarrow> int) \<Rightarrow> Policy \<Rightarrow> int \<Rightarrow> int \<Rightarrow> tier_faults \<Rightarrow> tier_faults \<Rightarrow> tier_faults \<Rightarrow> tier_site
    \<Rightarrow> tier_site \<times> TierReport \<times> string option" where
  "Run js addDays p now fin f1 f2 f3 s =
     (case run_transitions js (tier_plan addDays now p f1 f2 f3) \<lparr>rpStartedAt = now, rpFinishedAt = 0, rpTotal = 0, rpTransitions = []\<rparr> s of
        (s', rep, None) \<Rightarrow> (s', rep\<lparr>rpFinishedAt := fin\<rparr>, None)
      | (s', rep, Some e) \<Rightarrow> (s', rep, Some e))"

definition pricePerGB :: "(StorageTier, real) gomap" where
  "pricePerGB = [(TierHot, 0.023), (TierWarm, 0.0125), (TierCold, 0.004), (TierArchive, 0.00099)]"

definition CostProjection :: "(StorageTier, int) gomap \<Rightarrow> (StorageTier, real) gomap" where
  "CostProjection stats = map (\<lambda>(tier, bytes). (tier, of_int bytes / (1024 * 1024 * 1024) * lookup0 0 pricePerGB tier)) stats"

subsection \<open>What a transition does\<close>

definition retier :: "string set \<Rightarrow> StorageTier \<Rightarrow> Index \<Rightarrow> Index" where
  "retier K t tbl = map (\<lambda>x. if rwS3Key x \<in> K then x\<lparr>rwTier := t\<rparr> else x) tbl"

lemma retier_retier [simp]: "retier K t (retier L t tbl) = retier (K \<union> L) t tbl"
  by (simp add: retier_def)

lemma retier_empty [simp]: "retier {} t tbl = tbl"
  by (simp add: retier_def)

lemma UpdateTier_retier: "UpdateTier None k t tbl = (retier {k} t tbl, None)"
  by (simp add: UpdateTier_def retier_def)

text \<open>The keys that are copied, and those of them whose row is updated too.\<close>

definition copied :: "tier_faults \<Rightarrow> bucket \<Rightarrow> DataRecord list \<Rightarrow> string set" where
  "copied flt b rs = {k \<in> set (map drS3Key rs). tfCopy flt k = None \<and> map_of b k \<noteq> None}"

definition updated :: "tier_faults \<Rightarrow> bucket \<Rightarrow> DataRecord list \<Rightarrow> string set" where
  "updated flt b rs = {k \<in> copied flt b rs. tfUpdate flt k = None}"

definition reclass :: "string set \<Rightarrow> StorageTier \<Rightarrow> bucket \<Rightarrow> string \<Rightarrow> S3Object option" where
  "reclass K t b k = (if k \<in> K then map_option (\<lambda>ob. ob\<lparr>obClass := class_of t\<rparr>) (map_of b k) else map_of b k)"

lemma copied_one: "copied flt b [r] = (if tfCopy flt (drS3Key r) = None \<and> map_of b (drS3Key r) \<noteq> None then {drS3Key r} else {})"
  by (auto simp: copied_def)

lemma updated_one:
  "updated flt b [r] = (if tfCopy flt (drS3Key r) = None \<and> map_of b (drS3Key r) \<noteq> None \<and> tfUpdate flt (drS3Key r) = None
     then {drS3Key r} else {})"
  by (auto simp: updated_def copied_one)

lemma tier_record_spec:
  assumes "tier_record flt t r (s, n, m) = (s', n', m')"
  shows "tsIndex s' = retier (updated flt (tsBucket s) [r]) t (tsIndex s)"
    and "map_of (tsBucket s') = reclass (copied flt (tsBucket s) [r]) t (tsBucket s)"
    and "n' = n + (if drS3Key r \<in> updated flt (tsBucket s) [r] then 1 else 0)"
  using assms
  by (auto simp: tier_record_def CopyStorageClass_def UpdateTier_def Let_def updated_one copied_one reclass_def tier_class
      map_of_update_apply fun_eq_iff retier_def split: option.splits)

lemma reclass_dom: "reclass K t b k = None \<longleftrightarrow> map_of b k = None"
  by (simp add: reclass_def)

lemma fold_tier_record:
  assumes "fold (tier_record flt t) rs (s, n, m) = (s', n', m')"
  shows "tsIndex s' = retier (updated flt (tsBucket s) rs) t (tsIndex s)
    \<and> map_of (tsBucket s') = reclass (copied flt (tsBucket s) rs) t (tsBucket s)
    \<and> n' = n + int (length (filter (\<lambda>r. drS3Key r \<in> updated flt (tsBucket s) rs) rs))"
  using assms
proof (induction rs arbitrary: s n m)
  case Nil
  then show ?case by (auto simp: updated_def copied_def reclass_def)
next
  case (Cons r rs)
  obtain s1 n1 m1 where one: "tier_record flt t r (s, n, m) = (s1, n1, m1)" by (metis prod_cases3)
  note sp = tier_record_spec [OF one]
  have rest: "fold (tier_record flt t) rs (s1, n1, m1) = (s', n', m')" using Cons.prems one by simp
  note ih = Cons.IH [OF rest]
  have c: "copied flt (tsBucket s1) rs = copied flt (tsBucket s) rs" by (simp add: copied_def sp(2) reclass_dom)
  then have u: "updated flt (tsBucket s1) rs = updated flt (tsBucket s) rs" by (simp add: updated_def)
  have cc: "copied flt (tsBucket s) (r # rs) = copied flt (tsBucket s) rs \<union> copied flt (tsBucket s) [r]"
    and uu: "updated flt (tsBucket s) (r # rs) = updated flt (tsBucket s) rs \<union> updated flt (tsBucket s) [r]"
    by (auto simp: copied_def updated_def)
  have same: "filter (\<lambda>q. drS3Key q \<in> updated flt (tsBucket s) (r # rs)) rs = filter (\<lambda>q. drS3Key q \<in> updated flt (tsBucket s) rs) rs"
    by (rule filter_cong) (auto simp: updated_def copied_def)
  have hd: "drS3Key r \<in> updated flt (tsBucket s) (r # rs) \<longleftrightarrow> drS3Key r \<in> updated flt (tsBucket s) [r]"
    by (auto simp: updated_def copied_def)
  have "tsIndex s' = retier (updated flt (tsBucket s) (r # rs)) t (tsIndex s)" using ih u uu sp(1) by simp
  moreover have "map_of (tsBucket s') = reclass (copied flt (tsBucket s) (r # rs)) t (tsBucket s)"
    using ih c cc by (auto simp: reclass_def fun_eq_iff sp(2) option.map_comp comp_def)
  moreover have "n' = n + int (length (filter (\<lambda>q. drS3Key q \<in> updated flt (tsBucket s) (r # rs)) (r # rs)))"
    using ih u sp(3) hd same by simp
  ultimately show ?case by blast
qed

text \<open>The rows of a tier that are due.\<close>

definition due_rows :: "StorageTier \<Rightarrow> int \<Rightarrow> Index \<Rightarrow> Row list" where
  "due_rows frm before tbl = filter (\<lambda>x. rwTier x = frm \<and> rwIndexedAt x < before) tbl"

lemma transition_spec:
  assumes "transition js flt frm t before s = (s', res)"
  defines "rows \<equiv> due_rows frm before (tsIndex s)"
  defines "recs \<equiv> map (scanRecord js) rows"
  shows "(\<exists>e. res = Err e \<and> tfQuery flt \<noteq> DbOk \<and> s' = s)
    \<or> (\<exists>n m. res = Ok (n, m) \<and> tsIndex s' = retier (updated flt (tsBucket s) recs) t (tsIndex s)
          \<and> map_of (tsBucket s') = reclass (copied flt (tsBucket s) recs) t (tsBucket s)
          \<and> n = int (length (filter (\<lambda>x. rwS3Key x \<in> updated flt (tsBucket s) recs) rows)))"
proof (cases "tfQuery flt")
  case DbOk
  then have q: "RecordsByTierAge js (tfQuery flt) frm before (tsIndex s) = Ok recs"
    by (simp add: RecordsByTierAge_def query_def recs_def rows_def due_rows_def)
  obtain s1 n m where f: "fold (tier_record flt t) recs (s, 0, 0) = (s1, n, m)" by (metis prod_cases3)
  have "transition js flt frm t before s = (s1, Ok (n, m))" by (simp add: transition_def q f)
  moreover have "filter (\<lambda>r. drS3Key r \<in> K) recs = map (scanRecord js) (filter (\<lambda>x. rwS3Key x \<in> K) rows)" for K
    by (simp add: recs_def filter_map comp_def scanRecord_def)
  ultimately show ?thesis using fold_tier_record [OF f] assms(1) by auto
qed (use assms(1) in \<open>auto simp: transition_def RecordsByTierAge_def query_def\<close>)

subsection \<open>The index and the bucket stay together\<close>

fun next_tier :: "StorageTier \<Rightarrow> StorageTier" where
  "next_tier TierHot = TierWarm"
| "next_tier TierWarm = TierCold"
| "next_tier TierCold = TierArchive"
| "next_tier t = t"

text \<open>Every row has its object, whose class is that of the row's tier or, after an update that failed, one step ahead.\<close>

definition agrees :: "tier_site \<Rightarrow> bool" where
  "agrees s \<longleftrightarrow> index_ok (tsIndex s) \<and>
     (\<forall>x \<in> set (tsIndex s). \<exists>ob. map_of (tsBucket s) (rwS3Key x) = Some ob \<and> obClass ob \<in> {class_of (rwTier x), class_of (next_tier (rwTier x))})"

definition exact :: "tier_site \<Rightarrow> bool" where
  "exact s \<longleftrightarrow> (\<forall>x \<in> set (tsIndex s). map_option obClass (map_of (tsBucket s) (rwS3Key x)) = Some (class_of (rwTier x)))"

definition never_warmer :: "Index \<Rightarrow> Index \<Rightarrow> bool" where
  "never_warmer tbl tbl' \<longleftrightarrow> list_all2 (\<lambda>x x'. \<exists>n t. t = (next_tier ^^ n) (rwTier x) \<and> x' = x\<lparr>rwTier := t\<rparr>) tbl tbl'"

definition same_bodies :: "bucket \<Rightarrow> bucket \<Rightarrow> bool" where
  "same_bodies b b' \<longleftrightarrow> (\<forall>k. map_option obBody (map_of b' k) = map_option obBody (map_of b k))"

lemma never_warmer_refl: "never_warmer tbl tbl"
  unfolding never_warmer_def by (rule list_all2_refl) (auto intro: exI [of _ 0])

lemma never_warmer_trans: "never_warmer a b \<Longrightarrow> never_warmer b c \<Longrightarrow> never_warmer a c"
  unfolding never_warmer_def
proof (erule (1) list_all2_trans [rotated], clarify)
  fix x :: Row and n m
  have "x\<lparr>rwTier := (next_tier ^^ n) (rwTier x)\<rparr>\<lparr>rwTier := (next_tier ^^ m) (rwTier (x\<lparr>rwTier := (next_tier ^^ n) (rwTier x)\<rparr>))\<rparr>
     = x\<lparr>rwTier := (next_tier ^^ (m + n)) (rwTier x)\<rparr>" by (simp add: funpow_add)
  then show "\<exists>k t. t = (next_tier ^^ k) (rwTier x) \<and>
      x\<lparr>rwTier := (next_tier ^^ n) (rwTier x),
        rwTier := (next_tier ^^ m) (rwTier (x\<lparr>rwTier := (next_tier ^^ n) (rwTier x)\<rparr>))\<rparr> = x\<lparr>rwTier := t\<rparr>" by blast
qed

lemma due_key:
  assumes "index_ok tbl" "x \<in> set tbl" "rwS3Key x \<in> set (map drS3Key (map (scanRecord js) (due_rows frm before tbl)))"
  shows "rwTier x = frm \<and> rwIndexedAt x < before"
proof -
  obtain y where y: "y \<in> set tbl" "rwTier y = frm" "rwIndexedAt y < before" "rwS3Key y = rwS3Key x"
    using assms(3) by (auto simp: due_rows_def scanRecord_def)
  with assms have "y = x" by (metis index_ok_def distinct_map inj_on_def)
  with y show ?thesis by simp
qed

lemma retier_ok: "index_ok tbl \<Longrightarrow> index_ok (retier K t tbl)"
proof -
  have "map rwID (retier K t tbl) = map rwID tbl" "map rwS3Key (retier K t tbl) = map rwS3Key tbl"
    by (simp_all add: retier_def)
  then show "index_ok tbl \<Longrightarrow> index_ok (retier K t tbl)" by (simp add: index_ok_def)
qed

lemma retier_warmer:
  assumes "\<And>x. x \<in> set tbl \<Longrightarrow> rwS3Key x \<in> K \<Longrightarrow> t = next_tier (rwTier x)"
  shows "never_warmer tbl (retier K t tbl)"
proof -
  have "\<exists>n. (next_tier ^^ n) (rwTier x) = rwTier (if rwS3Key x \<in> K then x\<lparr>rwTier := t\<rparr> else x)" if "x \<in> set tbl" for x
    using assms [OF that] by (cases "rwS3Key x \<in> K") (auto intro: exI [of _ 1] exI [of _ 0])
  then show ?thesis unfolding never_warmer_def retier_def list_all2_map2 list_all2_same by fastforce
qed

lemma reclass_bodies: "map_of b' = reclass K t b \<Longrightarrow> same_bodies b b'"
  by (auto simp: same_bodies_def reclass_def option.map_comp comp_def)

lemma transition_keeps:
  assumes tr: "transition js flt frm t before s = (s', res)" and ag: "agrees s" and t: "t = next_tier frm"
  shows "agrees s' \<and> never_warmer (tsIndex s) (tsIndex s') \<and> same_bodies (tsBucket s) (tsBucket s')"
  using transition_spec [OF tr]
proof (elim disjE exE conjE)
  assume "s' = s"
  with ag show ?thesis by (simp add: never_warmer_refl same_bodies_def)
next
  let ?recs = "map (scanRecord js) (due_rows frm before (tsIndex s))"
  let ?C = "copied flt (tsBucket s) ?recs" and ?U = "updated flt (tsBucket s) ?recs"
  assume i: "tsIndex s' = retier ?U t (tsIndex s)" and b: "map_of (tsBucket s') = reclass ?C t (tsBucket s)"
  have ok: "index_ok (tsIndex s)" using ag by (simp add: agrees_def)
  have sub: "?U \<subseteq> ?C" "?C \<subseteq> set (map drS3Key ?recs)" by (auto simp: updated_def copied_def)
  have frm: "rwTier x = frm" if "x \<in> set (tsIndex s)" "rwS3Key x \<in> ?C" for x
    using due_key [OF ok that(1)] that(2) sub by blast
  have "\<exists>ob. map_of (tsBucket s') (rwS3Key x') = Some ob \<and> obClass ob \<in> {class_of (rwTier x'), class_of (next_tier (rwTier x'))}"
    if x': "x' \<in> set (tsIndex s')" for x'
  proof -
    obtain x where x: "x \<in> set (tsIndex s)" and x'x: "x' = (if rwS3Key x \<in> ?U then x\<lparr>rwTier := t\<rparr> else x)"
      using x' i by (auto simp: retier_def)
    obtain ob where ob: "map_of (tsBucket s) (rwS3Key x) = Some ob" "obClass ob \<in> {class_of (rwTier x), class_of (next_tier (rwTier x))}"
      using ag x by (auto simp: agrees_def)
    show ?thesis
    proof (cases "rwS3Key x \<in> ?C")
      case True
      with frm [OF x] ob b t x'x show ?thesis by (auto simp: reclass_def)
    next
      case False
      with sub x'x ob b show ?thesis by (auto simp: reclass_def)
    qed
  qed
  moreover have "never_warmer (tsIndex s) (tsIndex s')" unfolding i by (rule retier_warmer) (use frm sub t in blast)
  ultimately show ?thesis using b i retier_ok [OF ok] by (auto simp: agrees_def intro: reclass_bodies)
qed

lemma same_bodies_trans: "same_bodies a b \<Longrightarrow> same_bodies b c \<Longrightarrow> same_bodies a c"
  by (simp add: same_bodies_def)

lemma run_transitions_keep:
  assumes "run_transitions js ts rep s = (s', rep', err)" "agrees s" "\<forall>(frm, t, before, flt) \<in> set ts. t = next_tier frm"
  shows "agrees s' \<and> never_warmer (tsIndex s) (tsIndex s') \<and> same_bodies (tsBucket s) (tsBucket s')"
  using assms
proof (induction ts arbitrary: rep s)
  case Nil
  then show ?case by (simp add: never_warmer_refl same_bodies_def)
next
  case (Cons a ts)
  obtain frm t before flt where a: "a = (frm, t, before, flt)" by (metis prod_cases4)
  obtain s1 res where tr: "transition js flt frm t before s = (s1, res)" by fastforce
  have t: "t = next_tier frm" and ts: "\<forall>(frm, t, before, flt) \<in> set ts. t = next_tier frm" using Cons.prems a by auto
  note one = transition_keeps [OF tr Cons.prems(2) t]
  show ?case
  proof (cases res)
    case (Ok nm)
    obtain n m where nm: "nm = (n, m)" by fastforce
    have "run_transitions js ts
        (rep\<lparr>rpTransitions := rpTransitions rep @ [\<lparr>trFrom = frm, trTo = t, trCount = n, trBytes = m\<rparr>], rpTotal := rpTotal rep + n\<rparr>) s1 = (s', rep', err)"
      using Cons.prems(1) a tr Ok nm by simp
    from Cons.IH [OF this _ ts] one show ?thesis using never_warmer_trans same_bodies_trans by blast
  qed (use Cons.prems(1) a tr one in auto)
qed

subsection \<open>A pass without faults settles every row\<close>

definition no_faults :: tier_faults where
  "no_faults = \<lparr>tfQuery = DbOk, tfCopy = (\<lambda>_. None), tfUpdate = (\<lambda>_. None)\<rparr>"

definition move :: "StorageTier \<Rightarrow> int \<Rightarrow> Row \<Rightarrow> Row" where
  "move frm before x = (if rwTier x = frm \<and> rwIndexedAt x < before then x\<lparr>rwTier := next_tier frm\<rparr> else x)"

fun tier_rank :: "StorageTier \<Rightarrow> int" where
  "tier_rank TierHot = 0"
| "tier_rank TierWarm = 1"
| "tier_rank TierCold = 2"
| "tier_rank TierArchive = 3"
| "tier_rank (TierOther _) = 0"

definition ranks :: "Index \<Rightarrow> int" where
  "ranks tbl = sum_list (map (\<lambda>x. tier_rank (rwTier x)) tbl)"

definition due :: "(int \<Rightarrow> int \<Rightarrow> int) \<Rightarrow> int \<Rightarrow> Policy \<Rightarrow> Row \<Rightarrow> bool" where
  "due addDays now p x \<longleftrightarrow>
     (case rwTier x of
        TierHot \<Rightarrow> rwIndexedAt x < addDays now (- plHotDays p)
      | TierWarm \<Rightarrow> rwIndexedAt x < addDays now (- plWarmDays p)
      | TierCold \<Rightarrow> rwIndexedAt x < addDays now (- plColdDays p)
      | _ \<Rightarrow> False)"

lemma move_ranks:
  assumes "frm \<in> {TierHot, TierWarm, TierCold}"
  shows "ranks (map (move frm before) tbl) = ranks tbl + int (length (due_rows frm before tbl))"
proof (induction tbl)
  case (Cons x tbl)
  have "tier_rank (next_tier frm) = tier_rank frm + 1" using assms by auto
  with Cons show ?case by (auto simp: ranks_def due_rows_def move_def)
qed (simp add: ranks_def due_rows_def)

lemma transition_no_faults:
  assumes "agrees s" "frm \<in> {TierHot, TierWarm, TierCold}"
  obtains s' m where "transition js no_faults frm (next_tier frm) before s = (s', Ok (ranks (tsIndex s') - ranks (tsIndex s), m))"
    and "tsIndex s' = map (move frm before) (tsIndex s)" and "exact s \<Longrightarrow> exact s'" and "agrees s'"
proof -
  obtain s' res where tr: "transition js no_faults frm (next_tier frm) before s = (s', res)" by fastforce
  let ?rows = "due_rows frm before (tsIndex s)"
  let ?recs = "map (scanRecord js) ?rows"
  let ?C = "copied no_faults (tsBucket s) ?recs"
  have ok: "index_ok (tsIndex s)" using assms by (simp add: agrees_def)
  have U: "updated no_faults (tsBucket s) ?recs = ?C" by (simp add: updated_def no_faults_def)
  have C: "rwS3Key x \<in> ?C \<longleftrightarrow> rwTier x = frm \<and> rwIndexedAt x < before" if "x \<in> set (tsIndex s)" for x
  proof
    assume "rwS3Key x \<in> ?C"
    then show "rwTier x = frm \<and> rwIndexedAt x < before" using due_key [OF ok that] by (auto simp: copied_def)
  next
    assume "rwTier x = frm \<and> rwIndexedAt x < before"
    with that have "rwS3Key x \<in> set (map drS3Key ?recs)" by (auto simp: due_rows_def scanRecord_def)
    moreover have "map_of (tsBucket s) (rwS3Key x) \<noteq> None" using assms(1) that by (auto simp: agrees_def)
    ultimately show "rwS3Key x \<in> ?C" by (auto simp: copied_def no_faults_def)
  qed
  then have mv: "retier ?C (next_tier frm) (tsIndex s) = map (move frm before) (tsIndex s)"
    by (auto simp: retier_def move_def)
  have all: "filter (\<lambda>x. rwS3Key x \<in> ?C) ?rows = ?rows" by (rule filter_True) (use C in \<open>auto simp: due_rows_def\<close>)
  obtain n m where res: "res = Ok (n, m)" and i: "tsIndex s' = map (move frm before) (tsIndex s)"
    and b: "map_of (tsBucket s') = reclass ?C (next_tier frm) (tsBucket s)" and n: "n = int (length ?rows)"
    using transition_spec [OF tr] all by (auto simp: U mv) (simp add: no_faults_def)
  have "n = ranks (tsIndex s') - ranks (tsIndex s)" unfolding i n move_ranks [OF assms(2)] by simp
  moreover have "exact s'" if ex: "exact s"
  proof -
    have "map_option obClass (map_of (tsBucket s') (rwS3Key (move frm before x))) = Some (class_of (rwTier (move frm before x)))"
      if x: "x \<in> set (tsIndex s)" for x
      using ex x C [OF x] by (auto simp: exact_def b reclass_def move_def)
    then show ?thesis by (auto simp: exact_def i)
  qed
  moreover have "agrees s'" using transition_keeps [OF tr assms(1) refl] by simp
  ultimately show thesis using that tr res i by blast
qed

lemma moved_not_due:
  "\<not> due addDays now p (move TierCold (addDays now (- plColdDays p)) (move TierWarm (addDays now (- plWarmDays p))
     (move TierHot (addDays now (- plHotDays p)) x)))"
  by (cases "rwTier x") (auto simp: due_def move_def)

subsection \<open>The properties\<close>

definition demo_js :: json_codec where
  "demo_js = \<lparr>jsLabels = concat, jsUnLabels = (\<lambda>s. Some [s]), jsMeta = (\<lambda>_. []), jsUnMeta = (\<lambda>_. None)\<rparr>"

definition utc_days :: "int \<Rightarrow> int \<Rightarrow> int" where
  "utc_days t d = t + d * 86400000000000"

definition demo_policy :: Policy where
  "demo_policy = \<lparr>plHotDays = 30, plWarmDays = 90, plColdDays = 365\<rparr>"

definition demo_row :: Row where
  "demo_row = \<lparr>rwID = ''u1'', rwFilename = ''cat.png'', rwS3Key = ''k1'', rwShard = ''aa'', rwDataset = ''pets'', rwSizeBytes = 3,
     rwChecksum = [], rwLabels = ''cat'', rwMeta = [], rwTier = TierHot, rwVersion = [], rwIndexedAt = 0\<rparr>"

definition demo_site :: tier_site where
  "demo_site = \<lparr>tsIndex = [demo_row], tsBucket = [(''k1'', \<lparr>obBody = [1, 2, 3], obType = ''image/png'', obClass = StorageClassStandard\<rparr>)]\<rparr>"

lemma demo_agrees: "agrees demo_site"
  by (simp add: agrees_def demo_site_def demo_row_def index_ok_def)

lemma demo_exact: "exact demo_site"
  by (simp add: exact_def demo_site_def demo_row_def)

lemmas demo_run_defs = Run_def tier_plan_def transition_def RecordsByTierAge_def query_def tier_record_def CopyStorageClass_def
  UpdateTier_def scanRecord_def demo_site_def demo_row_def demo_policy_def utc_days_def no_faults_def s3StorageClass_def demo_js_def

text \<open>C32. Whatever calls fail, a tiering pass (\<^verbatim>\<open>Engine.Run\<close>) keeps the index and the object store together: every row keeps its object with
  the same content, the object's storage class is that of the row's tier or one step ahead of it, and rows only move towards colder
  tiers, nothing else of them changing.\<close>

theorem tiering_keeps_index_and_store_together:
  assumes "agrees s" "Run js addDays p now fin f1 f2 f3 s = (s', rep, err)"
  shows "agrees s' \<and> never_warmer (tsIndex s) (tsIndex s') \<and> same_bodies (tsBucket s) (tsBucket s')"
proof -
  obtain rep' where "run_transitions js (tier_plan addDays now p f1 f2 f3) \<lparr>rpStartedAt = now, rpFinishedAt = 0, rpTotal = 0, rpTransitions = []\<rparr> s
      = (s', rep', err)"
    using assms(2) by (auto simp: Run_def split: prod.splits option.splits)
  then show ?thesis by (rule run_transitions_keep [OF _ assms(1)]) (simp add: tier_plan_def)
qed

theorem tiering_keeps_index_and_store_together_witness:
  "\<exists>s' rep. Run demo_js utc_days demo_policy (utc_days 0 100) 0 (no_faults\<lparr>tfUpdate := \<lambda>_. Some ''database is locked''\<rparr>) no_faults no_faults demo_site
      = (s', rep, None) \<and> agrees s' \<and> never_warmer (tsIndex demo_site) (tsIndex s') \<and> same_bodies (tsBucket demo_site) (tsBucket s')
      \<and> map rwTier (tsIndex s') = [TierHot] \<and> map (obClass \<circ> snd) (tsBucket s') = [StorageClassStandardIa]"
proof -
  let ?run = "Run demo_js utc_days demo_policy (utc_days 0 100) 0 (no_faults\<lparr>tfUpdate := \<lambda>_. Some ''database is locked''\<rparr>) no_faults no_faults demo_site"
  have "snd (snd ?run) = None" "map rwTier (tsIndex (fst ?run)) = [TierHot]" "map (obClass \<circ> snd) (tsBucket (fst ?run)) = [StorageClassStandardIa]"
    by (simp_all add: demo_run_defs)
  moreover obtain s' rep err where r: "?run = (s', rep, err)" by (metis prod_cases3)
  ultimately show ?thesis using tiering_keeps_index_and_store_together [OF demo_agrees r] by auto
qed

text \<open>A tiering pass in which no call fails moves every row as far as its age says, through several tiers at once if need be: no row is
  due afterwards, the storage classes stay those of the tiers, and the report counts exactly the steps made.\<close>

lemma tiering_settles_every_row:
  assumes "agrees s" "exact s"
  shows "\<exists>s' rep. Run js addDays p now fin no_faults no_faults no_faults s = (s', rep, None)
    \<and> (\<forall>x' \<in> set (tsIndex s'). \<not> due addDays now p x') \<and> exact s' \<and> agrees s'
    \<and> rpTotal rep = ranks (tsIndex s') - ranks (tsIndex s) \<and> map rwS3Key (tsIndex s') = map rwS3Key (tsIndex s)"
proof -
  let ?c = "\<lambda>d. addDays now (- d)"
  obtain s1 m1 where 1: "transition js no_faults TierHot (next_tier TierHot) (?c (plHotDays p)) s = (s1, Ok (ranks (tsIndex s1) - ranks (tsIndex s), m1))"
    "tsIndex s1 = map (move TierHot (?c (plHotDays p))) (tsIndex s)" "exact s \<Longrightarrow> exact s1" "agrees s1"
    by (rule transition_no_faults [OF assms(1), of TierHot js "?c (plHotDays p)"]) (simp, blast)
  obtain s2 m2 where 2: "transition js no_faults TierWarm (next_tier TierWarm) (?c (plWarmDays p)) s1 = (s2, Ok (ranks (tsIndex s2) - ranks (tsIndex s1), m2))"
    "tsIndex s2 = map (move TierWarm (?c (plWarmDays p))) (tsIndex s1)" "exact s1 \<Longrightarrow> exact s2" "agrees s2"
    by (rule transition_no_faults [OF 1(4), of TierWarm js "?c (plWarmDays p)"]) (simp, blast)
  obtain s3 m3 where 3: "transition js no_faults TierCold (next_tier TierCold) (?c (plColdDays p)) s2 = (s3, Ok (ranks (tsIndex s3) - ranks (tsIndex s2), m3))"
    "tsIndex s3 = map (move TierCold (?c (plColdDays p))) (tsIndex s2)" "exact s2 \<Longrightarrow> exact s3" "agrees s3"
    by (rule transition_no_faults [OF 2(4), of TierCold js "?c (plColdDays p)"]) (simp, blast)
  have "\<exists>rep. Run js addDays p now fin no_faults no_faults no_faults s = (s3, rep, None) \<and> rpTotal rep = ranks (tsIndex s3) - ranks (tsIndex s)"
    using 1(1) 2(1) 3(1) by (simp add: Run_def tier_plan_def)
  moreover have "\<forall>x' \<in> set (tsIndex s3). \<not> due addDays now p x'" using moved_not_due by (auto simp: 3(2) 2(2) 1(2))
  moreover have "map rwS3Key (tsIndex s3) = map rwS3Key (tsIndex s)" by (simp add: 3(2) 2(2) 1(2) move_def)
  ultimately show ?thesis using assms 1(3) 2(3) 3(3,4) by blast
qed

theorem tiering_settles_every_row_witness:
  "\<exists>s' rep. Run demo_js utc_days demo_policy (utc_days 0 100) 0 no_faults no_faults no_faults demo_site = (s', rep, None)
    \<and> (\<forall>x' \<in> set (tsIndex s'). \<not> due utc_days (utc_days 0 100) demo_policy x') \<and> exact s' \<and> rpTotal rep = 2
    \<and> map rwTier (tsIndex s') = [TierCold]"
proof -
  let ?run = "Run demo_js utc_days demo_policy (utc_days 0 100) 0 no_faults no_faults no_faults demo_site"
  have "map rwTier (tsIndex (fst ?run)) = [TierCold]" "rpTotal (fst (snd ?run)) = 2"
    by (simp_all add: demo_run_defs)
  then show ?thesis
    using tiering_settles_every_row [OF demo_agrees demo_exact, of demo_js utc_days demo_policy "utc_days 0 100" 0] by auto
qed

end
