(* ===== verification/Ingest.thy ===== *)
theory Ingest
  imports Metadata Storage Runs
begin

section \<open>Ingestion\<close>

text \<open>
  \<^verbatim>\<open>internal/ingestion/pipeline.go\<close>: a directory walk feeds upload goroutines over a bounded channel; they feed one writer that
  commits records to the index in batches. The goroutines, the two channels and the atomic counters are a step relation: one step is
  one channel operation, one upload or one batch. The walk is the list of the entries \<^verbatim>\<open>filepath.Walk\<close> visits; what the file system,
  the clock and the services answer is chosen at each step. The number of workers is a natural number (a negative one panics in \<^verbatim>\<open>make\<close>);
  file names are ASCII. A file that an upload never finishes (see the multipart uploads) is a step that is never taken.
\<close>

subsection \<open>Paths\<close>

definition strip_slashes :: "string \<Rightarrow> string" where
  "strip_slashes p = rev (dropWhile (\<lambda>c. c = CHR ''/'') (rev p))"

definition Base :: "string \<Rightarrow> string" where
  "Base p =
     (if p = [] then ''.''
      else let q = rev (takeWhile (\<lambda>c. c \<noteq> CHR ''/'') (rev (strip_slashes p))) in if q = [] then ''/'' else q)"

definition Ext :: "string \<Rightarrow> string" where
  "Ext p =
     (let q = rev (takeWhile (\<lambda>c. c \<noteq> CHR ''/'') (rev p))
      in if CHR ''.'' \<in> set q then CHR ''.'' # rev (takeWhile (\<lambda>c. c \<noteq> CHR ''.'') (rev q)) else [])"

definition isImageFile :: "string \<Rightarrow> bool" where
  "isImageFile path \<longleftrightarrow> ToLower (Ext path) \<in> {''.jpg'', ''.jpeg'', ''.png'', ''.gif'', ''.bmp'', ''.tiff'', ''.tif'', ''.webp'', ''.heic''}"

definition mimeType :: "string \<Rightarrow> string" where
  "mimeType filename =
     (let ext = ToLower (Ext filename)
      in if ext \<in> {''.jpg'', ''.jpeg''} then ''image/jpeg''
         else if ext = ''.png'' then ''image/png''
         else if ext = ''.gif'' then ''image/gif''
         else if ext = ''.webp'' then ''image/webp''
         else if ext \<in> {''.tiff'', ''.tif''} then ''image/tiff''
         else ''application/octet-stream'')"

subsection \<open>The pipeline and its jobs\<close>

record Pipeline =
  ppWorkers :: nat
  ppBatchSize :: int
  ppThreshold :: int
  ppChunkSize :: int
  ppConcurrency :: int

definition NewPipeline :: "nat \<Rightarrow> Pipeline" where
  "NewPipeline workers = \<lparr>ppWorkers = workers, ppBatchSize = 500, ppThreshold = 100 * 1024 * 1024, ppChunkSize = 64 * 1024 * 1024, ppConcurrency = 8\<rparr>"

definition WithMultipart :: "int \<Rightarrow> int \<Rightarrow> int \<Rightarrow> Pipeline \<Rightarrow> Pipeline" where
  "WithMultipart threshold chunkSize concurrency p = p\<lparr>ppThreshold := threshold, ppChunkSize := chunkSize, ppConcurrency := concurrency\<rparr>"

definition WithBatchSize :: "int \<Rightarrow> Pipeline \<Rightarrow> Pipeline" where
  "WithBatchSize n p = (if n > 0 then p\<lparr>ppBatchSize := n\<rparr> else p)"

record fileJob =
  fjPath :: string
  fjDataset :: string
  fjLabels :: "string list"

record phaseTimes =
  ptOpen :: int
  ptChecksum :: int
  ptUpload :: int

record indexReq =
  irRec :: DataRecord
  irSize :: int

text \<open>What the world answers to one upload: the file system, the clock, the generator of ids and the two kinds of upload. A multipart
  upload that reports success names the content the store assembled.\<close>

record file_env =
  feOpen :: "string + byte list"
  feStat :: "string + int"
  feReopen :: "string + byte list"
  feSeek :: "string option"
  feMultipart :: "string + byte list"
  fePut :: "string option"
  feUuid :: string
  feNow :: int
  feTimes :: phaseTimes

definition sha256File :: "string + byte list \<Rightarrow> string + string" where
  "sha256File file = (case file of Inr data \<Rightarrow> Inr (hex_encode (sha256_sum data)) | Inl e \<Rightarrow> Inl e)"

definition no_times :: phaseTimes where
  "no_times = \<lparr>ptOpen = 0, ptChecksum = 0, ptUpload = 0\<rparr>"

definition upload_object :: "Pipeline \<Rightarrow> file_env \<Rightarrow> string \<Rightarrow> string \<Rightarrow> int \<Rightarrow> byte list \<Rightarrow> bucket \<Rightarrow> bucket \<times> string option" where
  "upload_object p env key filename sz data b =
     (if sz \<ge> ppThreshold p
      then (case feMultipart env of
              Inr stored \<Rightarrow> (AList.update key \<lparr>obBody = stored, obType = ''binary/octet-stream'', obClass = StorageClassStandard\<rparr> b, None)
            | Inl e \<Rightarrow> (b, Some (''multipart upload: '' @ e)))
      else (case Put (fePut env) key data (mimeType filename) b of
              (b', Some e) \<Rightarrow> (b', Some (''put: '' @ e))
            | (b', None) \<Rightarrow> (b', None)))"

definition new_record :: "file_env \<Rightarrow> fileJob \<Rightarrow> int \<Rightarrow> string \<Rightarrow> DataRecord" where
  "new_record env job sz checksum =
     \<lparr>drID = feUuid env, drFilename = Base (fjPath job), drS3Key = ObjectKey (fjDataset job) (Base (fjPath job)),
      drShard = ShardKey (Base (fjPath job)), drDataset = fjDataset job, drSizeBytes = sz, drChecksum = checksum, drLabels = fjLabels job,
      drMeta = [(''source_path'', fjPath job)], drTier = TierHot, drVersion = [], drIndexedAt = feNow env\<rparr>"

definition uploadFile :: "Pipeline \<Rightarrow> file_env \<Rightarrow> fileJob \<Rightarrow> bucket \<Rightarrow> bucket \<times> phaseTimes \<times> (string + indexReq)" where
  "uploadFile p env job b =
     (case feOpen env of
        Inl e \<Rightarrow> (b, no_times, Inl (''open: '' @ e))
      | Inr data \<Rightarrow>
     (case feStat env of
        Inl e \<Rightarrow> (b, no_times, Inl (''stat: '' @ e))
      | Inr sz \<Rightarrow>
     (let t1 = no_times\<lparr>ptOpen := ptOpen (feTimes env)\<rparr>;
          filename = Base (fjPath job);
          key = ObjectKey (fjDataset job) filename
      in (case sha256File (feReopen env) of
        Inl e \<Rightarrow> (b, t1, Inl (''checksum: '' @ e))
      | Inr checksum \<Rightarrow>
     (let t2 = t1\<lparr>ptChecksum := ptChecksum (feTimes env)\<rparr>
      in (case feSeek env of
        Some e \<Rightarrow> (b, t2, Inl e)
      | None \<Rightarrow>
     (case upload_object p env key filename sz data b of
        (b', Some e) \<Rightarrow> (b', t2, Inl e)
      | (b', None) \<Rightarrow> (b', t2\<lparr>ptUpload := ptUpload (feTimes env)\<rparr>, Inr \<lparr>irRec = new_record env job sz checksum, irSize = sz\<rparr>))))))))"

subsection \<open>The goroutines\<close>

datatype walk_entry = WalkDir | WalkFile string | WalkErr string

datatype main_pc =
    Walking
  | Offering fileJob
  | ClosingJobs "string option"
  | WaitUploads "string option"
  | WaitWriter "string option"
  | Finished "string option"

datatype up_pc = Ready | Handling fileJob | Handing indexReq | Gone

datatype wr_pc = Draining | Flushing bool | WriterDone

record Progress =
  pgProcessed :: int
  pgFailed :: int
  pgBytes :: int
  pgOpenNanos :: int
  pgChecksumNanos :: int
  pgUploadNanos :: int
  pgIndexNanos :: int

record Ingest =
  igWalk :: "walk_entry list"
  igMain :: main_pc
  igCancelled :: bool
  igJobs :: "fileJob list"
  igJobsClosed :: bool
  igUploaders :: "up_pc list"
  igRecords :: "indexReq list"
  igRecordsClosed :: bool
  igWriter :: wr_pc
  igBatch :: "DataRecord list"
  igBatchBytes :: int
  igProgress :: Progress
  igIndex :: Index
  igBucket :: bucket

definition no_progress :: Progress where
  "no_progress = \<lparr>pgProcessed = 0, pgFailed = 0, pgBytes = 0, pgOpenNanos = 0, pgChecksumNanos = 0, pgUploadNanos = 0, pgIndexNanos = 0\<rparr>"

definition IngestDir :: "Pipeline \<Rightarrow> walk_entry list \<Rightarrow> Index \<Rightarrow> bucket \<Rightarrow> Ingest" where
  "IngestDir p entries tbl b =
     \<lparr>igWalk = entries, igMain = Walking, igCancelled = False, igJobs = [], igJobsClosed = False, igUploaders = replicate (ppWorkers p) Ready,
      igRecords = [], igRecordsClosed = False, igWriter = Draining, igBatch = [], igBatchBytes = 0, igProgress = no_progress,
      igIndex = tbl, igBucket = b\<rparr>"

subsection \<open>Their steps\<close>

text \<open>The callback of the walk, on the next entry.\<close>

definition visit :: "string \<Rightarrow> string list \<Rightarrow> Ingest \<Rightarrow> Ingest" where
  "visit dataset labels g =
     (case igWalk g of
        [] \<Rightarrow> g\<lparr>igMain := ClosingJobs None\<rparr>
      | e # es \<Rightarrow>
          (case e of
             WalkErr err \<Rightarrow> g\<lparr>igWalk := es, igMain := ClosingJobs (Some err)\<rparr>
           | WalkDir \<Rightarrow> g\<lparr>igWalk := es\<rparr>
           | WalkFile path \<Rightarrow>
               if isImageFile path then g\<lparr>igWalk := es, igMain := Offering \<lparr>fjPath = path, fjDataset = dataset, fjLabels = labels\<rparr>\<rparr>
               else g\<lparr>igWalk := es\<rparr>))"

definition set_up :: "nat \<Rightarrow> up_pc \<Rightarrow> Ingest \<Rightarrow> Ingest" where
  "set_up i w g = g\<lparr>igUploaders := (igUploaders g)[i := w]\<rparr>"

definition add_times :: "phaseTimes \<Rightarrow> Progress \<Rightarrow> Progress" where
  "add_times t pg = pg\<lparr>pgOpenNanos := i64 (pgOpenNanos pg + ptOpen t), pgChecksumNanos := i64 (pgChecksumNanos pg + ptChecksum t),
     pgUploadNanos := i64 (pgUploadNanos pg + ptUpload t)\<rparr>"

definition handle :: "Pipeline \<Rightarrow> file_env \<Rightarrow> nat \<Rightarrow> fileJob \<Rightarrow> Ingest \<Rightarrow> Ingest" where
  "handle p env i job g =
     (case uploadFile p env job (igBucket g) of
        (b, t, Inl e) \<Rightarrow>
          set_up i Ready (g\<lparr>igBucket := b, igProgress := (add_times t (igProgress g))\<lparr>pgFailed := pgFailed (igProgress g) + 1\<rparr>\<rparr>)
      | (b, t, Inr req) \<Rightarrow> set_up i (Handing req) (g\<lparr>igBucket := b, igProgress := add_times t (igProgress g)\<rparr>))"

definition receive :: "Pipeline \<Rightarrow> indexReq \<Rightarrow> indexReq list \<Rightarrow> Ingest \<Rightarrow> Ingest" where
  "receive p req rs g =
     (let batch = igBatch g @ [irRec req]
      in g\<lparr>igRecords := rs, igBatch := batch, igBatchBytes := i64 (igBatchBytes g + irSize req),
           igWriter := if int (length batch) \<ge> ppBatchSize p then Flushing False else Draining\<rparr>)"

definition flush :: "json_codec \<Rightarrow> batch_fault \<Rightarrow> int \<Rightarrow> Ingest \<Rightarrow> Ingest" where
  "flush js flt nanos g =
     (let n = int (length (igBatch g)); pg = igProgress g
      in if igBatch g = [] then g
         else (case InsertBatch js flt (igBatch g) (igIndex g) of
                 (tbl, Some e) \<Rightarrow>
                   g\<lparr>igIndex := tbl, igBatch := [], igBatchBytes := 0,
                     igProgress := pg\<lparr>pgIndexNanos := i64 (pgIndexNanos pg + nanos), pgFailed := pgFailed pg + n\<rparr>\<rparr>
               | (tbl, None) \<Rightarrow>
                   g\<lparr>igIndex := tbl, igBatch := [], igBatchBytes := 0,
                     igProgress := pg\<lparr>pgIndexNanos := i64 (pgIndexNanos pg + nanos), pgProcessed := pgProcessed pg + n,
                       pgBytes := i64 (pgBytes pg + igBatchBytes g)\<rparr>\<rparr>))"

text \<open>The steps of the program. The context may be cancelled at any time, which is a step of its caller.\<close>

inductive ingest_step :: "json_codec \<Rightarrow> Pipeline \<Rightarrow> string \<Rightarrow> string list \<Rightarrow> Ingest \<Rightarrow> Ingest \<Rightarrow> bool" for js p dataset labels where
  walk: "igMain g = Walking \<Longrightarrow> ingest_step js p dataset labels g (visit dataset labels g)"
| offer: "igMain g = Offering job \<Longrightarrow> length (igJobs g) < 2 * ppWorkers p \<Longrightarrow>
    ingest_step js p dataset labels g (g\<lparr>igJobs := igJobs g @ [job], igMain := Walking\<rparr>)"
| give_up: "igMain g = Offering job \<Longrightarrow> igCancelled g \<Longrightarrow>
    ingest_step js p dataset labels g (g\<lparr>igMain := ClosingJobs (Some ''context canceled'')\<rparr>)"
| close_jobs: "igMain g = ClosingJobs r \<Longrightarrow> ingest_step js p dataset labels g (g\<lparr>igJobsClosed := True, igMain := WaitUploads r\<rparr>)"
| uploads_done: "igMain g = WaitUploads r \<Longrightarrow> \<forall>w \<in> set (igUploaders g). w = Gone \<Longrightarrow>
    ingest_step js p dataset labels g (g\<lparr>igRecordsClosed := True, igMain := WaitWriter r\<rparr>)"
| writer_done: "igMain g = WaitWriter r \<Longrightarrow> igWriter g = WriterDone \<Longrightarrow> ingest_step js p dataset labels g (g\<lparr>igMain := Finished r\<rparr>)"
| take_job: "i < length (igUploaders g) \<Longrightarrow> igUploaders g ! i = Ready \<Longrightarrow> igJobs g = job # jobs \<Longrightarrow>
    ingest_step js p dataset labels g (set_up i (Handling job) (g\<lparr>igJobs := jobs\<rparr>))"
| leave: "i < length (igUploaders g) \<Longrightarrow> igUploaders g ! i = Ready \<Longrightarrow> igJobs g = [] \<Longrightarrow> igJobsClosed g \<Longrightarrow>
    ingest_step js p dataset labels g (set_up i Gone g)"
| upload: "i < length (igUploaders g) \<Longrightarrow> igUploaders g ! i = Handling job \<Longrightarrow> ingest_step js p dataset labels g (handle p env i job g)"
| hand: "i < length (igUploaders g) \<Longrightarrow> igUploaders g ! i = Handing req \<Longrightarrow> length (igRecords g) < 4 * ppWorkers p \<Longrightarrow>
    ingest_step js p dataset labels g (set_up i Ready (g\<lparr>igRecords := igRecords g @ [req]\<rparr>))"
| drain: "igWriter g = Draining \<Longrightarrow> igRecords g = req # rs \<Longrightarrow> ingest_step js p dataset labels g (receive p req rs g)"
| drained: "igWriter g = Draining \<Longrightarrow> igRecords g = [] \<Longrightarrow> igRecordsClosed g \<Longrightarrow>
    ingest_step js p dataset labels g (g\<lparr>igWriter := Flushing True\<rparr>)"
| commit: "igWriter g = Flushing fin \<Longrightarrow>
    ingest_step js p dataset labels g ((flush js flt nanos g)\<lparr>igWriter := if fin then WriterDone else Draining\<rparr>)"

definition cancels :: "Ingest \<Rightarrow> Ingest \<Rightarrow> bool" where
  "cancels g g' \<longleftrightarrow> \<not> igCancelled g \<and> g' = g\<lparr>igCancelled := True\<rparr>"

definition ingest_any :: "json_codec \<Rightarrow> Pipeline \<Rightarrow> string \<Rightarrow> string list \<Rightarrow> Ingest \<Rightarrow> Ingest \<Rightarrow> bool" where
  "ingest_any js p dataset labels g g' \<longleftrightarrow> ingest_step js p dataset labels g g' \<or> cancels g g'"

subsection \<open>Every run is finite\<close>

fun main_weight :: "main_pc \<Rightarrow> nat" where
  "main_weight Walking = 10"
| "main_weight (Offering _) = 25"
| "main_weight (ClosingJobs _) = 4"
| "main_weight (WaitUploads _) = 3"
| "main_weight (WaitWriter _) = 2"
| "main_weight (Finished _) = 0"

fun up_weight :: "up_pc \<Rightarrow> nat" where
  "up_weight Ready = 1"
| "up_weight (Handling _) = 14"
| "up_weight (Handing _) = 11"
| "up_weight Gone = 0"

fun wr_weight :: "wr_pc \<Rightarrow> nat" where
  "wr_weight Draining = 3"
| "wr_weight (Flushing fin) = (if fin then 2 else 5)"
| "wr_weight WriterDone = 0"

definition ingest_weight :: "Ingest \<Rightarrow> nat" where
  "ingest_weight g = 20 * length (igWalk g) + main_weight (igMain g) + 14 * length (igJobs g) + sum_list (map up_weight (igUploaders g))
     + 9 * length (igRecords g) + 2 * length (igBatch g) + wr_weight (igWriter g) + (if igCancelled g then 0 else 1)"

lemma up_weight_swap:
  "i < length ws \<Longrightarrow> ws ! i = w0 \<Longrightarrow> sum_list (map up_weight (ws[i := w])) + up_weight w0 = sum_list (map up_weight ws) + up_weight w"
  using sum_list_swap [of i ws up_weight w] by simp

lemma set_up_fields [simp]:
  "igWalk (set_up i w g) = igWalk g" "igMain (set_up i w g) = igMain g" "igCancelled (set_up i w g) = igCancelled g"
  "igJobs (set_up i w g) = igJobs g" "igJobsClosed (set_up i w g) = igJobsClosed g" "igRecords (set_up i w g) = igRecords g"
  "igRecordsClosed (set_up i w g) = igRecordsClosed g" "igWriter (set_up i w g) = igWriter g" "igBatch (set_up i w g) = igBatch g"
  "igProgress (set_up i w g) = igProgress g" "igIndex (set_up i w g) = igIndex g" "igBucket (set_up i w g) = igBucket g"
  "igUploaders (set_up i w g) = (igUploaders g)[i := w]"
  by (simp_all add: set_up_def)

text \<open>What one upload does to the state: it fails and is counted, or it has a record to hand on whose object is in the bucket.\<close>

lemma upload_object_result:
  assumes "upload_object p env key fn sz data b = (b', r)"
  shows "b' = b \<and> r \<noteq> None \<or> (\<exists>v. b' = AList.update key v b \<and> r = None)"
  using assms by (auto simp: upload_object_def Put_def split: if_splits sum.splits option.splits)

lemma upload_object_keys:
  assumes "upload_object p env key fn sz data b = (b', r)"
  shows "fst ` set b \<subseteq> fst ` set b'" and "r = None \<Longrightarrow> key \<in> fst ` set b'"
proof -
  show "fst ` set b \<subseteq> fst ` set b'" using upload_object_result [OF assms] by (elim disjE exE conjE) (simp_all only: keys_update, blast+)
  show "r = None \<Longrightarrow> key \<in> fst ` set b'" using upload_object_result [OF assms] by (elim disjE exE conjE) (simp_all only: keys_update, blast+)
qed

lemma uploadFile_result:
  assumes "uploadFile p env job b = (b', t, res)"
  shows "(\<exists>e. res = Inl e \<and> (b' = b \<or> (\<exists>key fn sz data r. upload_object p env key fn sz data b = (b', r))))
    \<or> (\<exists>sz data checksum. res = Inr \<lparr>irRec = new_record env job sz checksum, irSize = sz\<rparr>
          \<and> upload_object p env (ObjectKey (fjDataset job) (Base (fjPath job))) (Base (fjPath job)) sz data b = (b', None))"
proof (cases "feOpen env")
  case op: (Inr data)
  show ?thesis
  proof (cases "feStat env")
    case st: (Inr sz)
    obtain b1 r where up: "upload_object p env (ObjectKey (fjDataset job) (Base (fjPath job))) (Base (fjPath job)) sz data b = (b1, r)" by fastforce
    then show ?thesis using assms op st
      by (cases "sha256File (feReopen env)"; cases "feSeek env"; cases r) (simp_all add: uploadFile_def Let_def, blast+)
  qed (use assms op in \<open>auto simp: uploadFile_def\<close>)
qed (use assms in \<open>auto simp: uploadFile_def\<close>)

lemma uploadFile_keys:
  assumes "uploadFile p env job b = (b', t, res)"
  shows "fst ` set b \<subseteq> fst ` set b'" and "res = Inr req \<Longrightarrow> drS3Key (irRec req) \<in> fst ` set b'"
proof -
  show "fst ` set b \<subseteq> fst ` set b'" using uploadFile_result [OF assms] upload_object_keys(1) by (metis order_refl)
  show "drS3Key (irRec req) \<in> fst ` set b'" if "res = Inr req"
    using uploadFile_result [OF assms] upload_object_keys(2) that by (auto simp: new_record_def) 
qed

lemma handle_cases:
  obtains (failed) b t e where "uploadFile p env job (igBucket g) = (b, t, Inl e)"
    "handle p env i job g = set_up i Ready (g\<lparr>igBucket := b, igProgress := (add_times t (igProgress g))\<lparr>pgFailed := pgFailed (igProgress g) + 1\<rparr>\<rparr>)"
  | (uploaded) b t req where "uploadFile p env job (igBucket g) = (b, t, Inr req)"
    "handle p env i job g = set_up i (Handing req) (g\<lparr>igBucket := b, igProgress := add_times t (igProgress g)\<rparr>)"
proof -
  obtain b t res where u: "uploadFile p env job (igBucket g) = (b, t, res)" by (metis prod_cases3)
  show thesis
  proof (cases res)
    case (Inl e)
    with u failed [of b t e] show ?thesis by (simp add: handle_def)
  next
    case (Inr req)
    with u uploaded [of b t req] show ?thesis by (simp add: handle_def)
  qed
qed

lemma flush_fields [simp]:
  "igWalk (flush js flt n g) = igWalk g" "igMain (flush js flt n g) = igMain g" "igCancelled (flush js flt n g) = igCancelled g"
  "igJobs (flush js flt n g) = igJobs g" "igJobsClosed (flush js flt n g) = igJobsClosed g" "igRecords (flush js flt n g) = igRecords g"
  "igRecordsClosed (flush js flt n g) = igRecordsClosed g" "igBatch (flush js flt n g) = []" "igBucket (flush js flt n g) = igBucket g"
  "igUploaders (flush js flt n g) = igUploaders g"
  by (auto simp: flush_def Let_def split: prod.split option.split)

lemma ingest_step_weight: "ingest_step js p ds ls g g' \<Longrightarrow> ingest_weight g' < ingest_weight g"
proof (induction rule: ingest_step.induct)
  case (walk g)
  then show ?case by (auto simp: ingest_weight_def visit_def split: list.split walk_entry.split)
next
  case (take_job i g job jobs)
  with up_weight_swap [OF this(1,2), of "Handling job"] show ?case by (simp add: ingest_weight_def)
next
  case (leave i g)
  with up_weight_swap [OF this(1,2), of Gone] show ?case by (simp add: ingest_weight_def)
next
  case (upload i g job env)
  show ?case
  proof (cases rule: handle_cases [of p env job g i])
    case (failed b t e)
    with up_weight_swap [OF upload, of Ready] show ?thesis by (simp add: ingest_weight_def)
  next
    case (uploaded b t req)
    with up_weight_swap [OF upload, of "Handing req"] show ?thesis by (simp add: ingest_weight_def)
  qed
next
  case (hand i g req)
  with up_weight_swap [OF this(1,2), of Ready] show ?case by (simp add: ingest_weight_def)
qed (auto simp: ingest_weight_def receive_def Let_def)

lemma ingest_any_weight: "ingest_any js p ds ls g g' \<Longrightarrow> ingest_weight g' < ingest_weight g"
  unfolding ingest_any_def by (elim disjE) (erule ingest_step_weight, auto simp: cancels_def ingest_weight_def)

interpretation ingest_finite: weighted_steps "ingest_any js p ds ls" ingest_weight for js p ds ls
  by unfold_locales (rule ingest_any_weight)

subsection \<open>Every file is accounted for\<close>

fun is_image_entry :: "walk_entry \<Rightarrow> bool" where
  "is_image_entry (WalkFile path) \<longleftrightarrow> isImageFile path"
| "is_image_entry _ \<longleftrightarrow> False"

fun is_err :: "walk_entry \<Rightarrow> bool" where
  "is_err (WalkErr e) \<longleftrightarrow> True"
| "is_err _ \<longleftrightarrow> False"

definition images :: "walk_entry list \<Rightarrow> int" where
  "images es = int (length (filter is_image_entry es))"

fun holds :: "up_pc \<Rightarrow> int" where
  "holds Ready = 0"
| "holds Gone = 0"
| "holds _ = 1"

definition in_flight :: "Ingest \<Rightarrow> int" where
  "in_flight g = int (length (igJobs g)) + sum_list (map holds (igUploaders g)) + int (length (igRecords g)) + int (length (igBatch g))"

definition sent :: "Ingest \<Rightarrow> int" where
  "sent g = pgProcessed (igProgress g) + pgFailed (igProgress g) + in_flight g"

lemma holds_swap:
  "i < length ws \<Longrightarrow> ws ! i = w0 \<Longrightarrow> sum_list (map holds (ws[i := w])) + holds w0 = sum_list (map holds ws) + holds w"
  using sum_list_swap [of i ws holds w] by simp

lemma add_times_counts [simp]:
  "pgProcessed (add_times t pg) = pgProcessed pg" "pgFailed (add_times t pg) = pgFailed pg"
  by (simp_all add: add_times_def)

lemma flush_counts:
  "pgProcessed (igProgress (flush js flt n g)) + pgFailed (igProgress (flush js flt n g))
     = pgProcessed (igProgress g) + pgFailed (igProgress g) + int (length (igBatch g))"
  by (auto simp: flush_def Let_def split: prod.split option.split)

lemmas sent_defs = sent_def in_flight_def

lemma sent_step:
  assumes "ingest_step js p ds ls g g'"
  shows "sent g' = sent g + (if (\<exists>job. igMain g = Offering job) \<and> igMain g' = Walking then 1 else 0)"
  using assms
proof (cases rule: ingest_step.cases)
  case walk
  then show ?thesis by (auto simp: sent_defs visit_def split: list.split walk_entry.split)
next
  case (take_job i job jobs)
  with holds_swap [OF take_job(2,3), of "Handling job"] show ?thesis by (auto simp: sent_defs)
next
  case (leave i)
  with holds_swap [OF leave(2,3), of Gone] show ?thesis by (auto simp: sent_defs)
next
  case (upload i job env)
  show ?thesis
  proof (cases rule: handle_cases [of p env job g i])
    case (failed b t e)
    with upload holds_swap [OF upload(2,3), of Ready] show ?thesis by (auto simp: sent_defs)
  next
    case (uploaded b t req)
    with upload holds_swap [OF upload(2,3), of "Handing req"] show ?thesis by (auto simp: sent_defs)
  qed
next
  case (hand i req)
  with holds_swap [OF hand(2,3), of Ready] show ?thesis by (auto simp: sent_defs)
next
  case (commit fin flt nanos)
  then show ?thesis using flush_counts [of js flt nanos g] by (auto simp: sent_defs)
qed (auto simp: sent_defs receive_def Let_def)

text \<open>The files offered to the uploaders so far are those of the part of the walk that was visited.\<close>

definition over :: "string option \<Rightarrow> int \<Rightarrow> walk_entry list \<Rightarrow> walk_entry list \<Rightarrow> bool" where
  "over r n seen rest \<longleftrightarrow> (if r = None then n = images seen \<and> \<not> list_ex is_err seen \<and> rest = [] else n \<le> images seen)"

fun tally :: "main_pc \<Rightarrow> int \<Rightarrow> walk_entry list \<Rightarrow> walk_entry list \<Rightarrow> bool" where
  "tally Walking n seen rest \<longleftrightarrow> n = images seen \<and> \<not> list_ex is_err seen"
| "tally (Offering job) n seen rest \<longleftrightarrow> n + 1 = images seen \<and> \<not> list_ex is_err seen"
| "tally (ClosingJobs r) n seen rest \<longleftrightarrow> over r n seen rest"
| "tally (WaitUploads r) n seen rest \<longleftrightarrow> over r n seen rest"
| "tally (WaitWriter r) n seen rest \<longleftrightarrow> over r n seen rest"
| "tally (Finished r) n seen rest \<longleftrightarrow> over r n seen rest"

definition accounts :: "walk_entry list \<Rightarrow> Ingest \<Rightarrow> bool" where
  "accounts entries g \<longleftrightarrow> (\<exists>seen. entries = seen @ igWalk g \<and> tally (igMain g) (sent g) seen (igWalk g))"

lemma images_snoc [simp]: "images (es @ [e]) = images es + (if is_image_entry e then 1 else 0)"
  by (simp add: images_def)

lemma accounts_visit:
  assumes "igMain g = Walking" "accounts entries g"
  shows "accounts entries (visit ds ls g)"
proof -
  obtain seen where s: "entries = seen @ igWalk g" "sent g = images seen" "\<not> list_ex is_err seen" using assms by (auto simp: accounts_def)
  have sv: "sent (visit ds ls g) = sent g" by (auto simp: sent_defs visit_def split: list.split walk_entry.split)
  show ?thesis
  proof (cases "igWalk g")
    case Nil
    with s sv show ?thesis by (auto simp: accounts_def visit_def over_def)
  next
    case (Cons e es)
    then have "entries = (seen @ [e]) @ es" "igWalk (visit ds ls g) = es"
      using s by (auto simp: visit_def split: walk_entry.split)
    then show ?thesis using s sv Cons assms(1)
      unfolding accounts_def by (intro exI [of _ "seen @ [e]"]) (cases e, auto simp: visit_def over_def)
  qed
qed

lemma accounts_step:
  assumes "ingest_step js p ds ls g g'" "accounts entries g"
  shows "accounts entries g'"
proof -
  have same: "accounts entries g'" if "igWalk g' = igWalk g" "igMain g' = igMain g" "sent g' = sent g"
    using that assms(2) by (simp add: accounts_def)
  note st = sent_step [OF assms(1)]
  from assms(1) show ?thesis
  proof (cases rule: ingest_step.cases)
    case walk
    with accounts_visit assms(2) show ?thesis by simp
  next
    case (upload i job env)
    show ?thesis by (rule same; cases rule: handle_cases [of p env job g i]) (use upload st in auto)
  next
    case (drain req rs)
    show ?thesis by (rule same) (use drain st in \<open>auto simp: receive_def Let_def\<close>)
  qed (use assms(2) st same in \<open>auto simp: accounts_def over_def\<close>)
qed

subsection \<open>Phases and stored objects\<close>

fun jobs_over :: "main_pc \<Rightarrow> bool" where
  "jobs_over (WaitUploads r) \<longleftrightarrow> True"
| "jobs_over (WaitWriter r) \<longleftrightarrow> True"
| "jobs_over (Finished r) \<longleftrightarrow> True"
| "jobs_over _ \<longleftrightarrow> False"

fun records_over :: "main_pc \<Rightarrow> bool" where
  "records_over (WaitWriter r) \<longleftrightarrow> True"
| "records_over (Finished r) \<longleftrightarrow> True"
| "records_over _ \<longleftrightarrow> False"

fun is_finished :: "main_pc \<Rightarrow> bool" where
  "is_finished (Finished r) \<longleftrightarrow> True"
| "is_finished _ \<longleftrightarrow> False"

fun writer_closing :: "wr_pc \<Rightarrow> bool" where
  "writer_closing Draining \<longleftrightarrow> False"
| "writer_closing (Flushing fin) \<longleftrightarrow> fin"
| "writer_closing WriterDone \<longleftrightarrow> True"

definition phases :: "Pipeline \<Rightarrow> Ingest \<Rightarrow> bool" where
  "phases p g \<longleftrightarrow> length (igUploaders g) = ppWorkers p \<and> length (igJobs g) \<le> 2 * ppWorkers p
     \<and> igJobsClosed g = jobs_over (igMain g) \<and> igRecordsClosed g = records_over (igMain g)
     \<and> (Gone \<in> set (igUploaders g) \<longrightarrow> igJobsClosed g \<and> igJobs g = [])
     \<and> (igRecordsClosed g \<longrightarrow> set (igUploaders g) \<subseteq> {Gone})
     \<and> (writer_closing (igWriter g) \<longrightarrow> igRecordsClosed g \<and> igRecords g = [])
     \<and> (igWriter g = WriterDone \<longrightarrow> igBatch g = [])
     \<and> (is_finished (igMain g) \<longrightarrow> igWriter g = WriterDone)"

lemma set_swap: "Gone \<in> set (ws[i := w]) \<Longrightarrow> w \<noteq> Gone \<Longrightarrow> Gone \<in> set ws"
  by (metis in_set_conv_nth length_list_update nth_list_update_eq nth_list_update_neq)

lemma set_up_phases:
  assumes "phases p g" "w \<noteq> Gone" "i < length (igUploaders g)" "igUploaders g ! i \<noteq> Gone" "length (igJobs g') \<le> length (igJobs g)"
    "igUploaders g' = (igUploaders g)[i := w]" "igJobsClosed g' = igJobsClosed g" "igRecordsClosed g' = igRecordsClosed g" "igMain g' = igMain g"
    "igWriter g' = igWriter g" "igBatch g' = igBatch g"
  shows "phases p g'"
proof -
  have "\<not> igRecordsClosed g" using assms(1,3,4) unfolding phases_def by (metis nth_mem singletonD subsetD)
  moreover have "Gone \<in> set (igUploaders g') \<Longrightarrow> Gone \<in> set (igUploaders g)" using assms(2,6) set_swap by metis
  ultimately show ?thesis using assms unfolding phases_def by auto
qed

lemma phases_step:
  assumes "ingest_step js p ds ls g g'" "phases p g"
  shows "phases p g'"
  using assms(1)
proof (cases rule: ingest_step.cases)
  case walk
  then show ?thesis using assms(2) by (auto simp: phases_def visit_def split: list.split walk_entry.split)
next
  case (take_job i job jobs)
  show ?thesis by (rule set_up_phases [OF assms(2), of "Handling job" i]) (use take_job in auto)
next
  case (upload i job env)
  show ?thesis
  proof (cases rule: handle_cases [of p env job g i])
    case (failed b t e)
    show ?thesis by (rule set_up_phases [OF assms(2), of Ready i]) (use failed upload in auto)
  next
    case (uploaded b t req)
    show ?thesis by (rule set_up_phases [OF assms(2), of "Handing req" i]) (use uploaded upload in auto)
  qed
next
  case (hand i req)
  show ?thesis by (rule set_up_phases [OF assms(2), of Ready i]) (use hand in auto)
next
  case (leave i)
  then have "Ready \<in> set (igUploaders g)" by (metis nth_mem)
  with assms(2) have "\<not> igRecordsClosed g" by (auto simp: phases_def)
  with leave assms(2) show ?thesis by (auto simp: phases_def)
qed (use assms(2) in \<open>auto simp: phases_def receive_def Let_def\<close>)

text \<open>The objects of all records are in the bucket: of the rows of the index and of the records on their way there.\<close>

fun handing :: "up_pc \<Rightarrow> indexReq list" where
  "handing (Handing req) = [req]"
| "handing _ = []"

definition handing_keys :: "up_pc list \<Rightarrow> string set" where
  "handing_keys ws = (\<lambda>r. drS3Key (irRec r)) ` set (concat (map handing ws))"

definition on_the_way :: "Ingest \<Rightarrow> string set" where
  "on_the_way g = set (map drS3Key (igBatch g)) \<union> set (map (drS3Key \<circ> irRec) (igRecords g))
     \<union> handing_keys (igUploaders g)"

definition stored :: "Ingest \<Rightarrow> bool" where
  "stored g \<longleftrightarrow> set (map rwS3Key (igIndex g)) \<union> on_the_way g \<subseteq> fst ` set (igBucket g)"

lemma fold_replace_keys:
  "set (map rwS3Key (fold (\<lambda>r t. replace_row (to_row js r) t) recs tbl)) \<subseteq> set (map rwS3Key tbl) \<union> set (map drS3Key recs)"
proof (induction recs arbitrary: tbl)
  case (Cons r recs)
  have "set (map rwS3Key (replace_row (to_row js r) tbl)) \<subseteq> insert (drS3Key r) (set (map rwS3Key tbl))"
    using replace_row_keys(1) [of "to_row js r" tbl] by (simp add: to_row_def)
  with Cons [of "replace_row (to_row js r) tbl"] show ?case by (simp, blast)
qed simp

lemma InsertBatch_keys:
  "set (map rwS3Key (fst (InsertBatch js flt recs tbl))) \<subseteq> set (map rwS3Key tbl) \<union> set (map drS3Key recs)"
  using fold_replace_keys [of js recs tbl] by (auto simp: InsertBatch_def Let_def split: batch_fault.split)

lemma flush_index: "igIndex (flush js flt n g) = fst (InsertBatch js flt (igBatch g) (igIndex g))"
  by (auto simp: flush_def InsertBatch_def Let_def split: prod.split option.split)

lemma handing_swap:
  "handing_keys (ws[i := w]) \<subseteq> handing_keys ws \<union> (\<lambda>r. drS3Key (irRec r)) ` set (handing w)"
  using set_update_subset_insert [of ws i w] unfolding handing_keys_def by fastforce

lemma stored_grows:
  assumes "stored g" "fst ` set (igBucket g) \<subseteq> fst ` set (igBucket g')" "igIndex g' = igIndex g"
    "on_the_way g' \<subseteq> on_the_way g \<union> fst ` set (igBucket g')"
  shows "stored g'"
proof -
  let ?I = "set (map rwS3Key (igIndex g))"
  have "?I \<union> on_the_way g \<subseteq> fst ` set (igBucket g')" using assms(1,2) unfolding stored_def by (rule order_trans)
  with assms(3,4) show ?thesis unfolding stored_def by (simp only: Un_subset_iff) (metis Un_subset_iff order_trans subset_refl)
qed

lemma on_the_way_set_up:
  assumes "handing_keys ((igUploaders g)[i := w]) \<subseteq> handing_keys (igUploaders g) \<union> B" "igUploaders g' = (igUploaders g)[i := w]"
    "igBatch g' = igBatch g" "igRecords g' = igRecords g"
  shows "on_the_way g' \<subseteq> on_the_way g \<union> B"
  using assms unfolding on_the_way_def by auto

lemma stored_step:
  assumes "ingest_step js p ds ls g g'" "stored g"
  shows "stored g'"
  using assms(1)
proof (cases rule: ingest_step.cases)
  case walk
  then show ?thesis using assms(2) by (auto simp: stored_def on_the_way_def visit_def split: list.split walk_entry.split)
next
  case (take_job i job jobs)
  then show ?thesis using assms(2) handing_swap [of "igUploaders g" i "Handling job"] by (auto simp: stored_def on_the_way_def)
next
  case (leave i)
  then show ?thesis using assms(2) handing_swap [of "igUploaders g" i Gone] by (auto simp: stored_def on_the_way_def)
next
  case (upload i job env)
  show ?thesis
  proof (cases rule: handle_cases [of p env job g i])
    case (failed b t e)
    have "handing_keys ((igUploaders g)[i := Ready]) \<subseteq> handing_keys (igUploaders g) \<union> fst ` set b"
      using handing_swap [of "igUploaders g" i Ready] by (simp add: le_supI1)
    from on_the_way_set_up [OF this, of g'] show ?thesis
      by (intro stored_grows [OF assms(2)]) (use failed upload uploadFile_keys(1) [OF failed(1)] in simp_all)
  next
    case (uploaded b t req)
    have "handing_keys ((igUploaders g)[i := Handing req]) \<subseteq> handing_keys (igUploaders g) \<union> fst ` set b"
      using handing_swap [of "igUploaders g" i "Handing req"] uploadFile_keys(2) [OF uploaded(1), of req] by auto
    from on_the_way_set_up [OF this, of g'] show ?thesis
      by (intro stored_grows [OF assms(2)]) (use uploaded upload uploadFile_keys(1) [OF uploaded(1)] in simp_all)
  qed
next
  case (hand i req)
  have "Handing req \<in> set (igUploaders g)" using hand(2,3) nth_mem by metis
  then have "req \<in> set (concat (map handing (igUploaders g)))" by (simp, intro bexI [of _ "Handing req"]) simp_all
  then have "drS3Key (irRec req) \<in> handing_keys (igUploaders g)" unfolding handing_keys_def by blast
  then show ?thesis using hand assms(2) handing_swap [of "igUploaders g" i Ready] by (auto simp: stored_def on_the_way_def)
next
  case (commit fin flt nanos)
  have "set (map rwS3Key (igIndex g')) \<subseteq> set (map rwS3Key (igIndex g)) \<union> set (map drS3Key (igBatch g))"
    using InsertBatch_keys [of js flt "igBatch g" "igIndex g"] commit by (simp add: flush_index)
  also have "\<dots> \<subseteq> fst ` set (igBucket g)" using assms(2) by (simp add: stored_def on_the_way_def)
  finally show ?thesis using commit assms(2) by (simp add: stored_def on_the_way_def)
qed (use assms(2) in \<open>auto simp: stored_def on_the_way_def receive_def Let_def\<close>)

subsection \<open>Progress\<close>

lemma writer_moves:
  assumes "igRecords g \<noteq> [] \<or> igRecordsClosed g" "igWriter g \<noteq> WriterDone"
  shows "\<exists>g'. ingest_step js p ds ls g g'"
proof (cases "igWriter g")
  case Draining
  with assms(1) show ?thesis by (cases "igRecords g") (blast intro: drain drained)+
next
  case (Flushing fin)
  then show ?thesis by (blast intro: commit)
qed (use assms(2) in simp)

lemma uploader_moves:
  assumes ph: "phases p g" and i: "i < length (igUploaders g)" "igUploaders g ! i \<noteq> Gone" and rdy: "igJobs g \<noteq> [] \<or> igJobsClosed g"
  shows "\<exists>g'. ingest_step js p ds ls g g'"
proof (cases "igUploaders g ! i")
  case Ready
  with i(1) rdy show ?thesis by (cases "igJobs g") (blast intro: take_job leave)+
next
  case (Handling job)
  with i(1) show ?thesis by (blast intro: upload)
next
  case (Handing req)
  have open_rec: "\<not> igRecordsClosed g" using ph i unfolding phases_def by (metis nth_mem singletonD subsetD)
  have pos: "0 < ppWorkers p" using ph i(1) by (auto simp: phases_def)
  show ?thesis
  proof (cases "length (igRecords g) < 4 * ppWorkers p")
    case True
    with Handing i(1) show ?thesis by (blast intro: hand)
  next
    case False
    with pos have "igRecords g \<noteq> []" by auto
    moreover have "igWriter g \<noteq> WriterDone" using ph open_rec by (auto simp: phases_def)
    ultimately show ?thesis by (intro writer_moves) simp_all
  qed
qed (use i(2) in simp)

lemma ingest_moves:
  assumes ph: "phases p g" and pos: "0 < ppWorkers p" and nf: "\<not> is_finished (igMain g)"
  shows "\<exists>g'. ingest_step js p ds ls g g'"
proof (cases "igMain g")
  case (Offering job)
  show ?thesis
  proof (cases "length (igJobs g) < 2 * ppWorkers p")
    case False
    then have "igJobs g \<noteq> []" using pos by auto
    moreover have "Gone \<notin> set (igUploaders g)" using ph Offering by (auto simp: phases_def)
    moreover have len: "0 < length (igUploaders g)" using ph pos by (simp add: phases_def)
    moreover have "igUploaders g ! 0 \<in> set (igUploaders g)" by (rule nth_mem [OF len])
    ultimately show ?thesis by (intro uploader_moves [OF ph len]) metis+
  qed (use Offering in \<open>blast intro: offer\<close>)
next
  case (WaitUploads r)
  show ?thesis
  proof (cases "\<forall>w \<in> set (igUploaders g). w = Gone")
    case False
    then obtain i where i: "i < length (igUploaders g)" "igUploaders g ! i \<noteq> Gone" by (metis in_set_conv_nth)
    have "igJobsClosed g" using ph WaitUploads by (simp add: phases_def)
    with i show ?thesis by (intro uploader_moves [OF ph]) simp_all
  qed (use WaitUploads in \<open>blast intro: uploads_done\<close>)
next
  case (WaitWriter r)
  have "igRecordsClosed g" using ph WaitWriter by (simp add: phases_def)
  then show ?thesis
  proof (cases "igWriter g = WriterDone")
    case True
    with WaitWriter show ?thesis using writer_done by blast
  qed (intro writer_moves, simp_all)
next
  case Walking
  then show ?thesis using walk by blast
next
  case (ClosingJobs r)
  then show ?thesis using close_jobs by blast
qed (use nf in simp)

definition ingest_inv :: "Pipeline \<Rightarrow> walk_entry list \<Rightarrow> Ingest \<Rightarrow> bool" where
  "ingest_inv p entries g \<longleftrightarrow> phases p g \<and> accounts entries g \<and> stored g \<and> index_ok (igIndex g) \<and> 0 < ppWorkers p"

lemma index_ok_step:
  assumes "ingest_step js p ds ls g g'" "index_ok (igIndex g)"
  shows "index_ok (igIndex g')"
  using assms(1)
proof (cases rule: ingest_step.cases)
  case walk
  then show ?thesis using assms(2) by (auto simp: visit_def split: list.split walk_entry.split)
next
  case (upload i job env)
  show ?thesis by (cases rule: handle_cases [of p env job g i]) (use upload assms(2) in simp_all)
next
  case (commit fin flt nanos)
  then show ?thesis using assms(2) by (simp add: flush_index InsertBatch_ok)
qed (use assms(2) in \<open>simp_all add: receive_def Let_def\<close>)

lemma ingest_inv_step: "ingest_step js p ds ls g g' \<Longrightarrow> ingest_inv p entries g \<Longrightarrow> ingest_inv p entries g'"
  unfolding ingest_inv_def by (elim conjE, intro conjI) (erule (1) phases_step accounts_step stored_step index_ok_step | assumption)+

lemma ingest_inv_cancel: "cancels g g' \<Longrightarrow> ingest_inv p entries g \<Longrightarrow> ingest_inv p entries g'"
  by (auto simp: cancels_def ingest_inv_def phases_def accounts_def stored_def on_the_way_def sent_defs)

lemma ingest_inv_start:
  assumes "0 < ppWorkers p" "index_ok tbl" "set (map rwS3Key tbl) \<subseteq> fst ` set b"
  shows "ingest_inv p entries (IngestDir p entries tbl b)"
  using assms
  by (simp add: ingest_inv_def phases_def accounts_def stored_def on_the_way_def sent_defs IngestDir_def no_progress_def handing_keys_def images_def
      sum_list_replicate)

interpretation ingest_live: live_steps "ingest_step js p ds ls" ingest_weight "ingest_inv p entries" "\<lambda>g. is_finished (igMain g)"
  for js p ds ls entries
  by unfold_locales (blast intro: ingest_step_weight ingest_inv_step ingest_moves dest: ingest_inv_def [THEN iffD1])+

lemma ingest_inv_run:
  assumes "(ingest_any js p ds ls)\<^sup>*\<^sup>* g g'" "ingest_inv p entries g"
  shows "ingest_inv p entries g'"
  using assms by (induction rule: rtranclp_induct) (auto simp: ingest_any_def intro: ingest_inv_step ingest_inv_cancel)

lemma finished_in_flight:
  assumes "phases p g" "0 < ppWorkers p" "is_finished (igMain g)"
  shows "in_flight g = 0"
proof -
  have over: "records_over (igMain g)" using assms(3) by (cases "igMain g") simp_all
  have "set (igUploaders g) \<subseteq> {Gone}" "length (igUploaders g) = ppWorkers p" using assms(1) over by (auto simp: phases_def)
  then have ws: "igUploaders g = replicate (ppWorkers p) Gone" by (intro replicate_eqI) auto
  then have "Gone \<in> set (igUploaders g)" using assms(2) by simp
  then show ?thesis using assms(1,3) ws over by (auto simp: in_flight_def phases_def sum_list_replicate)
qed

lemma images_append: "images (xs @ ys) = images xs + images ys"
  by (simp add: images_def)


definition any_codec :: json_codec where
  "any_codec = \<lparr>jsLabels = concat, jsUnLabels = (\<lambda>s. Some [s]), jsMeta = (\<lambda>_. []), jsUnMeta = (\<lambda>_. None)\<rparr>"


text \<open>Two files with the same name in different directories share one key: the batch is counted as two processed files, but only the
  second has a row and an object.\<close>

lemma same_name_overwrites:
  assumes "Base (fjPath j1) = Base (fjPath j2)" "fjDataset j1 = fjDataset j2"
  shows "InsertBatch js BatchOk [new_record e1 j1 n1 c1, new_record e2 j2 n2 c2] [] = ([to_row js (new_record e2 j2 n2 c2)], None)"
  using assms by (simp add: InsertBatch_def replace_row_def to_row_def new_record_def)

text \<open>Without workers an image is offered to nobody: only a cancelled context ends the walk.\<close>

lemma no_workers_no_progress:
  assumes "igMain g = Offering job" "ppWorkers p = 0" "igUploaders g = []" "igRecords g = []" "igWriter g = Draining" "\<not> igRecordsClosed g" "\<not> igCancelled g"
  shows "\<not> ingest_step js p ds ls g g'"
  using assms by (auto elim: ingest_step.cases)

end
