(* ===== verification/K8s.thy ===== *)
theory K8s
  imports Auth Membership Scheduler Metadata
begin

section \<open>Kubernetes jobs\<close>

text \<open>
  \<^verbatim>\<open>internal/k8s/job_factory.go\<close>, \<^verbatim>\<open>internal/k8s/watcher.go\<close> and the cycle of \<^verbatim>\<open>cmd/operator\<close>: an assignment becomes a job of the
  cluster, and a job that has ended becomes a result for the coordinator. The API server is the list of its jobs, whose names are unique; what it
  answers beside that is an argument. The JSON of an assignment is a parameter; \<^verbatim>\<open>base64.StdEncoding\<close> is the other alphabet and the padding
  added to the encoding of the tokens. Task ids are ASCII.
\<close>

subsection \<open>The types of a job\<close>

record jobMeta =
  jmName :: string
  jmNamespace :: string
  jmLabels :: "(string, string) gomap"

record envVar =
  enName :: string
  enValue :: string

record resourceList =
  rlCPU :: string
  rlMemory :: string
  rlGPU :: string

record resources =
  rsRequests :: resourceList
  rsLimits :: resourceList

record container =
  ctName :: string
  ctImage :: string
  ctCommand :: "string list"
  ctEnv :: "envVar list"
  ctResources :: resources

record matchExpression =
  mxKey :: string
  mxOperator :: string
  mxValues :: "string list"

record preferredSchedulingTerm =
  psWeight :: int
  psMatch :: "matchExpression list"

type_synonym affinity = "preferredSchedulingTerm list"

record podSpec =
  pdRestartPolicy :: string
  pdContainers :: "container list"
  pdAffinity :: "affinity option"

record podTemplateSpec =
  tmMetadata :: jobMeta
  tmSpec :: podSpec

record batchJobSpec =
  bsBackoffLimit :: int
  bsTemplate :: podTemplateSpec

record batchJob =
  bjAPIVersion :: string
  bjKind :: string
  bjMetadata :: jobMeta
  bjSpec :: batchJobSpec

subsection \<open>Building a job\<close>

definition safe_id :: "string \<Rightarrow> string" where
  "safe_id taskID =
     (let safe = ToLower (map (\<lambda>c. if c = CHR ''_'' then CHR ''-'' else c) taskID) in if length safe > 55 then take 55 safe else safe)"

text \<open>The slice of the first eight characters panics on a shorter id.\<close>

definition JobName :: "string \<Rightarrow> string outcome" where
  "JobName taskID = (let safe = safe_id taskID in if length safe < 8 then Panic else Ok (''petabyte-task-'' @ take 8 safe))"

definition std_char :: "char \<Rightarrow> char" where
  "std_char c = (if c = CHR ''-'' then CHR ''+'' else if c = CHR ''_'' then CHR ''/'' else c)"

definition url_char :: "char \<Rightarrow> char" where
  "url_char c = (if c = CHR ''+'' then CHR ''-'' else if c = CHR ''/'' then CHR ''_'' else c)"

definition std64_encode :: "byte list \<Rightarrow> string" where
  "std64_encode bs = (let s = map std_char (b64_encode bs) in s @ replicate ((4 - length s mod 4) mod 4) (CHR ''=''))"

definition std64_decode :: "string \<Rightarrow> byte list option" where
  "std64_decode s =
     (if length s mod 4 \<noteq> 0 then None
      else b64_decode (map url_char (rev (dropWhile (\<lambda>c. c = CHR ''='') (rev s)))))"

fun caches :: "string \<Rightarrow> string list \<Rightarrow> bool" where
  "caches shard [] \<longleftrightarrow> False"
| "caches shard (cs # rest) \<longleftrightarrow> cs = shard \<or> caches shard rest"

fun preferred_nodes :: "string \<Rightarrow> NodeInfo list \<Rightarrow> string list" where
  "preferred_nodes shard [] = []"
| "preferred_nodes shard (n # ns) =
     (if nNodeName n = [] then preferred_nodes shard ns
      else if caches shard (mCachedShards (nMetrics n)) then nNodeName n # preferred_nodes shard ns
      else preferred_nodes shard ns)"

definition buildAffinity :: "string \<Rightarrow> NodeInfo list \<Rightarrow> affinity option" where
  "buildAffinity shard nodes =
     (let preferred = preferred_nodes shard nodes
      in if preferred = [] then None
         else Some [\<lparr>psWeight = 100, psMatch = [\<lparr>mxKey = ''kubernetes.io/hostname'', mxOperator = ''In'', mxValues = preferred\<rparr>]\<rparr>])"

definition BuildJob ::
  "(TaskAssignment \<Rightarrow> byte list outcome) \<Rightarrow> TaskAssignment \<Rightarrow> string \<Rightarrow> string \<Rightarrow> NodeInfo list \<Rightarrow> batchJob outcome" where
  "BuildJob marshal a img coordinatorURL nodes =
     (case marshal a of
        Err e \<Rightarrow> Err (''marshal task: '' @ e)
      | Panic \<Rightarrow> Panic
      | Ok taskJSON \<Rightarrow>
          (let cpu = lookup0 ''1'' (aConfig a) ''cpu'';
               mem = lookup0 ''2Gi'' (aConfig a) ''memory'';
               gpu = lookup0 [] (aConfig a) ''gpu'';
               rl = \<lparr>rlCPU = cpu, rlMemory = mem, rlGPU = gpu\<rparr>;
               labels = [(''app'', ''petabyte-worker''), (''task-id'', aTaskID a), (''job-id'', aJobID a), (''shard'', aShard a)]
           in (case JobName (aTaskID a) of
                 Ok name \<Rightarrow>
                   Ok \<lparr>bjAPIVersion = ''batch/v1'', bjKind = ''Job'', bjMetadata = \<lparr>jmName = name, jmNamespace = [], jmLabels = labels\<rparr>,
                      bjSpec = \<lparr>bsBackoffLimit = 0,
                        bsTemplate = \<lparr>tmMetadata = \<lparr>jmName = [], jmNamespace = [], jmLabels = labels\<rparr>,
                          tmSpec = \<lparr>pdRestartPolicy = ''Never'',
                            pdContainers = [\<lparr>ctName = ''worker'', ctImage = img, ctCommand = [''/worker'', ''-single-task''],
                              ctEnv = [\<lparr>enName = ''PETABYTE_TASK_JSON'', enValue = std64_encode taskJSON\<rparr>,
                                       \<lparr>enName = ''PETABYTE_COORDINATOR_URL'', enValue = coordinatorURL\<rparr>],
                              ctResources = \<lparr>rsRequests = rl, rsLimits = rl\<rparr>\<rparr>],
                            pdAffinity = buildAffinity (aShard a) nodes\<rparr>\<rparr>\<rparr>\<rparr>
               | Err e \<Rightarrow> Err e
               | Panic \<Rightarrow> Panic)))"

subsection \<open>The watcher\<close>

datatype JobPhase = JobSucceeded | JobFailed

record jobCondition =
  jcType :: string
  jcStatus :: string

record jobStatus =
  stSucceeded :: int
  stFailed :: int
  stActive :: int
  stConditions :: "jobCondition list"

record jobItem =
  jiName :: string
  jiLabels :: "(string, string) gomap"
  jiStatus :: jobStatus

record JobResult =
  jrTaskID :: string
  jrJobName :: string
  jrPhase :: JobPhase
  jrError :: string

fun has_failed_condition :: "jobCondition list \<Rightarrow> bool" where
  "has_failed_condition [] \<longleftrightarrow> False"
| "has_failed_condition (c # cs) \<longleftrightarrow> jcType c = ''Failed'' \<and> jcStatus c = ''True'' \<or> has_failed_condition cs"

text \<open>No phase is \<open>None\<close>.\<close>

definition resolvePhase :: "jobStatus \<Rightarrow> JobPhase option \<times> string" where
  "resolvePhase s =
     (if stSucceeded s > 0 then (Some JobSucceeded, [])
      else if stFailed s > 0
      then (Some JobFailed, if has_failed_condition (stConditions s) then ''job backoff limit reached'' else ''job failed'')
      else (None, []))"

text \<open>What the API server answers to the list of jobs: an error before it, a status, the decoded body.\<close>

datatype list_answer = ListFailed string | ListAnswer int "jobItem list outcome"

definition listWorkerJobs :: "list_answer \<Rightarrow> jobItem list outcome" where
  "listWorkerJobs ans =
     (case ans of
        ListFailed e \<Rightarrow> Err e
      | ListAnswer status body \<Rightarrow>
          if status \<ge> 400 then Err (''k8s list jobs: status '' @ fmt_d status)
          else (case body of Err e \<Rightarrow> Err (''decode job list: '' @ e) | r \<Rightarrow> r))"

text \<open>The results a poll sends and the jobs it asks to delete, in order; whether a deletion succeeds is only logged.\<close>

fun poll_items :: "jobItem list \<Rightarrow> JobResult list \<times> string list" where
  "poll_items [] = ([], [])"
| "poll_items (it # items) =
     (case resolvePhase (jiStatus it) of
        (None, _) \<Rightarrow> poll_items items
      | (Some phase, errMsg) \<Rightarrow>
          (let taskID = lookup0 [] (jiLabels it) ''task-id''
           in if taskID = [] then poll_items items
              else let (rs, ds) = poll_items items
                   in (\<lparr>jrTaskID = taskID, jrJobName = jiName it, jrPhase = phase, jrError = errMsg\<rparr> # rs, jiName it # ds)))"

definition poll :: "list_answer \<Rightarrow> JobResult list \<times> string list" where
  "poll ans = (case listWorkerJobs ans of Ok items \<Rightarrow> poll_items items | _ \<Rightarrow> ([], []))"

subsection \<open>The operator\<close>

text \<open>The API server refuses a job whose name is taken, and may refuse any other (\<open>Some (status, message)\<close>).\<close>

definition CreateJob :: "string option \<Rightarrow> (int \<times> string) option \<Rightarrow> batchJob \<Rightarrow> batchJob list \<Rightarrow> batchJob list \<times> string option" where
  "CreateJob err refusal job kube =
     (case err of
        Some e \<Rightarrow> (kube, Some (''create job: '' @ e))
      | None \<Rightarrow>
          (case refusal of
             Some (status, msg) \<Rightarrow> (kube, Some (''k8s '' @ fmt_d status @ '': '' @ msg))
           | None \<Rightarrow>
               if jmName (bjMetadata job) \<in> set (map (\<lambda>j. jmName (bjMetadata j)) kube)
               then (kube, Some (''k8s 409: jobs.batch already exists''))
               else (kube @ [job], None)))"

record op_config =
  ocImage :: string
  ocCoordinatorURL :: string
  ocMaxJobs :: int

definition active_only :: "NodeInfo list \<Rightarrow> NodeInfo list" where
  "active_only nodes = filter (\<lambda>n. nState n = NodeActive) nodes"

fun create_all ::
  "(TaskAssignment \<Rightarrow> byte list outcome) \<Rightarrow> op_config \<Rightarrow> (string \<Rightarrow> string option \<times> (int \<times> string) option) \<Rightarrow> NodeInfo list \<Rightarrow> TaskAssignment list
    \<Rightarrow> batchJob list \<Rightarrow> batchJob list outcome" where
  "create_all marshal cfg cerr nodes [] kube = Ok kube"
| "create_all marshal cfg cerr nodes (a # as) kube =
     (case BuildJob marshal a (ocImage cfg) (ocCoordinatorURL cfg) nodes of
        Panic \<Rightarrow> Panic
      | Err e \<Rightarrow> create_all marshal cfg cerr nodes as kube
      | Ok job \<Rightarrow> create_all marshal cfg cerr nodes as (fst (CreateJob (fst (cerr (aTaskID a))) (snd (cerr (aTaskID a))) job kube)))"

text \<open>One cycle: the coordinator's answer to the drain, its node list (or an error, then no affinity), and the jobs.\<close>

definition cycle ::
  "(TaskAssignment \<Rightarrow> byte list outcome) \<Rightarrow> op_config \<Rightarrow> (string \<Rightarrow> string option \<times> (int \<times> string) option) \<Rightarrow> TaskAssignment list outcome \<Rightarrow> NodeInfo list outcome
    \<Rightarrow> batchJob list \<Rightarrow> batchJob list outcome" where
  "cycle marshal cfg cerr drained nodes kube =
     (case drained of
        Err e \<Rightarrow> Err (''drain pending: '' @ e)
      | Panic \<Rightarrow> Panic
      | Ok [] \<Rightarrow> Ok kube
      | Ok as \<Rightarrow> create_all marshal cfg cerr (case nodes of Ok ns \<Rightarrow> active_only ns | _ \<Rightarrow> []) as kube)"

text \<open>The body \<^verbatim>\<open>reportResults\<close> posts for a result: the path, the worker and the error.\<close>

definition report_request :: "string \<Rightarrow> JobResult \<Rightarrow> string \<times> string \<times> string" where
  "report_request coordinatorURL r =
     (coordinatorURL @ ''/v1/tasks/'' @ jrTaskID r @ ''/result'', ''k8s-operator'',
      if jrPhase r = JobFailed then (if jrError r = [] then ''k8s job failed'' else jrError r) else [])"

subsection \<open>The task in the environment of its pod\<close>

lemma b64_char_url: "b64_char n \<notin> {CHR ''+'', CHR ''/'', CHR ''=''}"
  using b64_val_char [of n] by (auto simp: b64_val_def b64_alphabet_def)

lemma b64_encode_url: "c \<in> set (b64_encode bs) \<Longrightarrow> c \<notin> {CHR ''+'', CHR ''/'', CHR ''=''}"
  by (induction bs rule: b64_encode.induct) (use b64_char_url in \<open>auto simp: Let_def\<close>)

lemma url_std: "c \<notin> {CHR ''+'', CHR ''/'', CHR ''=''} \<Longrightarrow> url_char (std_char c) = c \<and> std_char c \<noteq> CHR ''=''"
  by (auto simp: url_char_def std_char_def)

lemma strip_padding:
  assumes "x \<notin> set xs"
  shows "rev (dropWhile (\<lambda>c. c = x) (rev (xs @ replicate k x))) = xs"
proof -
  have "dropWhile (\<lambda>c. c = x) (rev xs) = rev xs" using assms by (cases "rev xs") (auto simp: rev_swap)
  moreover have "dropWhile (\<lambda>c. c = x) (replicate k x @ ys) = dropWhile (\<lambda>c. c = x) ys" for ys by (induction k) simp_all
  ultimately show ?thesis by simp
qed

lemma pad_to_four: "(n + (4 - n mod 4) mod 4) mod 4 = (0 :: nat)"
proof -
  have small: "(m + (4 - m) mod 4) mod 4 = 0" if "m < 4" for m :: nat
  proof -
    have "m = 0 \<or> m = 1 \<or> m = 2 \<or> m = 3" using that by linarith
    then show ?thesis by (elim disjE) simp_all
  qed
  have "(n + (4 - n mod 4) mod 4) mod 4 = (n mod 4 + (4 - n mod 4) mod 4) mod 4" by (simp add: mod_add_left_eq)
  also have "\<dots> = 0" by (rule small) simp
  finally show ?thesis .
qed

lemma std64_round_trip: "std64_decode (std64_encode bs) = Some bs"
proof -
  let ?s = "map std_char (b64_encode bs)"
  have "(length ?s + (4 - length ?s mod 4) mod 4) mod 4 = 0" by (rule pad_to_four)
  moreover have "CHR ''='' \<notin> set ?s"
  proof
    assume "CHR ''='' \<in> set ?s"
    then obtain c where "c \<in> set (b64_encode bs)" "std_char c = CHR ''=''" by (metis imageE list.set_map)
    then show False using url_std [OF b64_encode_url] by blast
  qed
  moreover have "map url_char ?s = b64_encode bs" using url_std [OF b64_encode_url] by (simp add: map_idI)
  ultimately show ?thesis using strip_padding [of "CHR ''=''" ?s "(4 - length ?s mod 4) mod 4"]
    by (simp add: std64_decode_def std64_encode_def Let_def b64_round_trip del: map_map rev_append)
qed

subsection \<open>Names\<close>

definition id_char :: "char \<Rightarrow> bool" where
  "id_char c \<longleftrightarrow> c = CHR ''-'' \<or> c = CHR ''_'' \<or> (let n = of_char c :: nat in 48 \<le> n \<and> n \<le> 57 \<or> 65 \<le> n \<and> n \<le> 90 \<or> 97 \<le> n \<and> n \<le> 122)"

definition dns_char :: "char \<Rightarrow> bool" where
  "dns_char c \<longleftrightarrow> c = CHR ''-'' \<or> (let n = of_char c :: nat in 48 \<le> n \<and> n \<le> 57 \<or> 97 \<le> n \<and> n \<le> 122)"

lemma lower_dns: "id_char c \<Longrightarrow> dns_char (lower (if c = CHR ''_'' then CHR ''-'' else c))"
  by (auto simp: id_char_def dns_char_def lower_def Let_def)

lemma JobName_ok:
  assumes "8 \<le> length taskID" "\<forall>c \<in> set taskID. id_char c"
  shows "\<exists>name. JobName taskID = Ok name \<and> length name \<le> 63 \<and> (\<forall>c \<in> set name. dns_char c)"
proof -
  have safe: "\<forall>c \<in> set (safe_id taskID). dns_char c"
    using assms(2) lower_dns by (fastforce simp: safe_id_def ToLower_def Let_def dest: in_set_takeD split: if_splits)
  have "8 \<le> length (safe_id taskID)" using assms(1) by (simp add: safe_id_def ToLower_def Let_def)
  moreover have "\<forall>c \<in> set ''petabyte-task-''. dns_char c" by (simp add: dns_char_def)
  ultimately show ?thesis using safe by (auto simp: JobName_def Let_def dest: in_set_takeD)
qed

lemma JobName_short: "length taskID < 8 \<Longrightarrow> JobName taskID = Panic"
  by (simp add: JobName_def safe_id_def ToLower_def Let_def)

text \<open>Only the first eight characters count: of two tasks of one cycle with the same eight the second gets no job, and the cycle does not fail.\<close>

lemma same_prefix_same_name:
  assumes "take 8 s = take 8 t" "8 \<le> length s" "8 \<le> length t"
  shows "JobName s = JobName t"
proof -
  have "take 8 (safe_id x) = map (\<lambda>c. lower (if c = CHR ''_'' then CHR ''-'' else c)) (take 8 x)" for x
    by (simp add: safe_id_def ToLower_def Let_def take_map)
  moreover have "8 \<le> length (safe_id x) \<longleftrightarrow> 8 \<le> length x" for x by (simp add: safe_id_def ToLower_def Let_def)
  ultimately show ?thesis using assms by (simp add: JobName_def Let_def not_less [symmetric])
qed

lemma colliding_names_lose_a_job:
  assumes "take 8 (aTaskID a) = take 8 (aTaskID b)" "8 \<le> length (aTaskID a)" "8 \<le> length (aTaskID b)"
    "marshal a = Ok ja" "marshal b = Ok jb"
  shows "\<exists>job. BuildJob marshal a (ocImage cfg) (ocCoordinatorURL cfg) (active_only ns) = Ok job
    \<and> cycle marshal cfg (\<lambda>_. (None, None)) (Ok [a, b]) (Ok ns) [] = Ok [job]"
  using same_prefix_same_name [OF assms(1-3)] assms(2-5)
  by (auto simp: cycle_def BuildJob_def CreateJob_def Let_def JobName_def safe_id_def ToLower_def split: outcome.splits if_splits)

subsection \<open>From an assignment to its result\<close>

lemma caches_iff: "caches shard cs \<longleftrightarrow> shard \<in> set cs"
  by (induction cs) auto

text \<open>A pod prefers exactly the named nodes that cache its shard.\<close>

lemma preferred_nodes_eq:
  "preferred_nodes shard nodes = map nNodeName (filter (\<lambda>n. nNodeName n \<noteq> [] \<and> shard \<in> set (mCachedShards (nMetrics n))) nodes)"
  by (induction nodes) (auto simp: caches_iff)

definition ended :: "jobItem \<Rightarrow> bool" where
  "ended it \<longleftrightarrow> (stSucceeded (jiStatus it) > 0 \<or> stFailed (jiStatus it) > 0) \<and> lookup0 [] (jiLabels it) ''task-id'' \<noteq> []"

definition result_of :: "jobItem \<Rightarrow> JobResult" where
  "result_of it = \<lparr>jrTaskID = lookup0 [] (jiLabels it) ''task-id'', jrJobName = jiName it,
     jrPhase = (if stSucceeded (jiStatus it) > 0 then JobSucceeded else JobFailed), jrError = snd (resolvePhase (jiStatus it))\<rparr>"

lemma poll_items_eq: "poll_items items = (map result_of (filter ended items), map jiName (filter ended items))"
proof (induction items)
  case (Cons it items)
  then show ?case by (auto simp: resolvePhase_def ended_def result_of_def Let_def)
qed simp

text \<open>The item the API server lists for a job it runs.\<close>

definition item_of :: "batchJob \<Rightarrow> jobStatus \<Rightarrow> jobItem" where
  "item_of job st = \<lparr>jiName = jmName (bjMetadata job), jiLabels = jmLabels (bjMetadata job), jiStatus = st\<rparr>"

definition pod_env :: "batchJob \<Rightarrow> string \<Rightarrow> string option" where
  "pod_env job name =
     map_of (map (\<lambda>v. (enName v, enValue v)) (concat (map ctEnv (pdContainers (tmSpec (bsTemplate (bjSpec job))))))) name"

lemma BuildJob_ok:
  assumes "marshal a = Ok json" "JobName (aTaskID a) = Ok name"
  obtains job where "BuildJob marshal a img url nodes = Ok job" "jmName (bjMetadata job) = name"
    "lookup0 [] (jmLabels (bjMetadata job)) ''task-id'' = aTaskID a" "lookup0 [] (jmLabels (bjMetadata job)) ''app'' = ''petabyte-worker''"
    "pod_env job ''PETABYTE_TASK_JSON'' = Some (std64_encode json)" "pod_env job ''PETABYTE_COORDINATOR_URL'' = Some url"
  using assms by (simp add: BuildJob_def Let_def lookup0_def pod_env_def)

lemma poll_split:
  "fst (poll (ListAnswer 200 (Ok (xs @ it # ys)))) =
     fst (poll (ListAnswer 200 (Ok xs))) @ (if ended it then [result_of it] else []) @ fst (poll (ListAnswer 200 (Ok ys)))"
  by (simp add: poll_def listWorkerJobs_def poll_items_eq)


definition demo_assignment :: TaskAssignment where
  "demo_assignment = \<lparr>aTaskID = ''550e8400-e29b'', aJobID = ''j1'', aShard = ''a3'', aDataset = ''train'', aAlgorithm = ''resnet'', aConfig = [(''gpu'', ''1'')],
     aRangeStart = 0, aRangeEnd = -1, aBound = -1, aGeneration = 1, aSplit = False\<rparr>"


end
