(* ===== verification/Ring_Buffer.thy ===== *)
theory Ring_Buffer
  imports Main
begin

section \<open>Rings of recent entries\<close>

text \<open>
  The trace events (\<^verbatim>\<open>internal/trace\<close>) and the violations (\<^verbatim>\<open>internal/diag\<close>) are kept the same way: an array of fixed size, the index of the next
  write and a counter of all writes. Both use these operations; the lemmas are proved once for a ring of any size.
\<close>

definition ring_store :: "nat \<Rightarrow> 'a \<Rightarrow> 'a list \<times> nat \<Rightarrow> 'a list \<times> nat" where
  "ring_store cap e = (\<lambda>(ring, nx). (ring[nx := e], (nx + 1) mod cap))"

definition ring_latest :: "nat \<Rightarrow> int \<Rightarrow> 'a list \<times> nat \<Rightarrow> 'a list" where
  "ring_latest cap cnt = (\<lambda>(ring, nx).
     (let n = (if cnt > int cap then cap else nat cnt);
          start = (if cnt > int cap then nx else 0)
      in map (\<lambda>i. ring ! ((start + i) mod cap)) [0..<n]))"

definition ring_holds :: "nat \<Rightarrow> 'a list \<Rightarrow> 'a list \<times> nat \<Rightarrow> bool" where
  "ring_holds cap xs = (\<lambda>(ring, nx). length ring = cap \<and> nx = length xs mod cap
     \<and> (\<forall>i < length xs. length xs \<le> i + cap \<longrightarrow> ring ! (i mod cap) = xs ! i))"

lemma ring_holds_empty: "length ring = n \<Longrightarrow> ring_holds n [] (ring, 0)"
  by (simp add: ring_holds_def)

lemma mod_close:
  fixes i j n :: nat
  assumes "i mod n = j mod n" "i < j" "j < i + n"
  shows False
proof -
  have "n dvd j - i" using assms(1,2) by (metis less_imp_le mod_eq_dvd_iff_nat)
  then have "n \<le> j - i" using assms(2) by (intro dvd_imp_le) simp_all
  with assms(2,3) show False by linarith
qed

lemma ring_store_holds:
  assumes "ring_holds n xs r" "0 < n"
  shows "ring_holds n (xs @ [e]) (ring_store n e r)"
proof -
  obtain ring nx where r: "r = (ring, nx)" by fastforce
  let ?m = "length xs"
  have len: "length ring = n" and nx: "nx = ?m mod n" using assms r by (auto simp: ring_holds_def)
  have "ring[?m mod n := e] ! (i mod n) = (xs @ [e]) ! i" if i: "i < Suc ?m" "Suc ?m \<le> i + n" for i
  proof (cases "i = ?m")
    case True
    then show ?thesis using len assms(2) by simp
  next
    case False
    with i have "i < ?m" by simp
    moreover have "i mod n \<noteq> ?m mod n" using mod_close [of i n ?m] i \<open>i < ?m\<close> by auto
    ultimately show ?thesis using assms(1) i r by (simp add: ring_holds_def nth_append)
  qed
  then show ?thesis using len nx r by (simp add: ring_holds_def ring_store_def mod_Suc_eq)
qed

lemma ring_latest_holds:
  assumes "ring_holds n xs r" "cnt = int (length xs)" "0 < n"
  shows "ring_latest n cnt r = drop (length xs - n) xs"
proof (rule nth_equalityI)
  obtain ring nx where r: "r = (ring, nx)" by fastforce
  show len: "length (ring_latest n cnt r) = length (drop (length xs - n) xs)" using assms r by (simp add: ring_latest_def Let_def)
  fix i
  assume "i < length (ring_latest n cnt r)"
  then have i: "i < length xs - (length xs - n)" using len by simp
  let ?k = "length xs - n + i"
  have "?k < length xs" "length xs \<le> ?k + n" using i by auto
  then have "ring ! (?k mod n) = xs ! ?k" using assms(1) r by (simp add: ring_holds_def)
  moreover have "((if length xs > n then nx else 0) + i) mod n = ?k mod n"
  proof (cases "length xs > n")
    case True
    then have "length xs + i = ?k + n" by simp
    then have "(length xs + i) mod n = ?k mod n" by (metis mod_add_self2)
    then show ?thesis using True assms(1) r by (simp add: ring_holds_def mod_add_left_eq)
  qed simp
  ultimately show "ring_latest n cnt r ! i = drop (length xs - n) xs ! i" using assms(2) i r by (auto simp: ring_latest_def Let_def)
qed

end
