(* ===== verification/Trace.thy ===== *)
theory Trace
  imports Package Ring_Buffer
begin

section \<open>Event tracing\<close>

text \<open>
  \<^verbatim>\<open>internal/trace\<close>: the ring of recent events, the identity of a unit of work and the grouping of the debug endpoint. Emitting
  an event is two steps, as in the code: the counter is atomic and raised before the lock of the ring is taken. A zero time is \<open>None\<close>.
\<close>

subsection \<open>The ring\<close>

record Event =
  evTime :: "int option"
  evKind :: string
  evTraceID :: string
  evTaskID :: string
  evJobID :: string
  evShard :: string
  evGeneration :: int
  evWorkerID :: string
  evParent :: string
  evAttrs :: "(string, string) gomap"

definition zero_event :: Event where
  "zero_event = \<lparr>evTime = None, evKind = [], evTraceID = [], evTaskID = [], evJobID = [], evShard = [], evGeneration = 0, evWorkerID = [], evParent = [],
     evAttrs = []\<rparr>"

definition maxEvents :: nat where
  "maxEvents = 4096"

record Tracer =
  tcOn :: bool
  tcCount :: int
  tcRing :: "Event list"
  tcNext :: nat

definition reset :: "Tracer \<Rightarrow> Tracer" where
  "reset t = t\<lparr>tcCount := 0, tcNext := 0, tcRing := replicate maxEvents zero_event\<rparr>"

definition Enable :: "Tracer \<Rightarrow> Tracer" where "Enable t = t\<lparr>tcOn := True\<rparr>"
definition Disable :: "Tracer \<Rightarrow> Tracer" where "Disable t = t\<lparr>tcOn := False\<rparr>"

definition truthy :: "string \<Rightarrow> bool" where
  "truthy s \<longleftrightarrow> s \<in> {''1'', ''true'', ''TRUE'', ''True'', ''yes'', ''on''}"

definition EnableFromEnv :: "string \<Rightarrow> Tracer \<Rightarrow> bool \<times> Tracer" where
  "EnableFromEnv env t = (if truthy env then (True, Enable t) else (False, t))"

definition stamp :: "int \<Rightarrow> Event \<Rightarrow> Event" where
  "stamp now e = (if evTime e = None then e\<lparr>evTime := Some now\<rparr> else e)"

definition emit_count :: "Tracer \<Rightarrow> Tracer" where
  "emit_count t = t\<lparr>tcCount := i64 (tcCount t + 1)\<rparr>"

definition emit_store :: "Event \<Rightarrow> Tracer \<Rightarrow> Tracer" where
  "emit_store e t = (case ring_store maxEvents e (tcRing t, tcNext t) of (r, nx) \<Rightarrow> t\<lparr>tcRing := r, tcNext := nx\<rparr>)"

definition Emit :: "int \<Rightarrow> Event \<Rightarrow> Tracer \<Rightarrow> Tracer" where
  "Emit now e t = (if \<not> tcOn t then t else emit_store (stamp now e) (emit_count t))"

definition Events :: "Tracer \<Rightarrow> Event list" where
  "Events t = ring_latest maxEvents (tcCount t) (tcRing t, tcNext t)"

definition trace_input :: "string \<Rightarrow> string \<Rightarrow> int \<Rightarrow> int \<Rightarrow> byte list" where
  "trace_input jobID shard start end' =
     bytes_of jobID @ [0] @ bytes_of shard @ [0] @ bytes_of (fmt_d start) @ [0] @ bytes_of (fmt_d end')"

definition TraceID :: "string \<Rightarrow> string \<Rightarrow> int \<Rightarrow> int \<Rightarrow> string" where
  "TraceID jobID shard start end' = ''tr-'' @ hex_encode (take 12 (sha256_sum (trace_input jobID shard start end')))"

subsection \<open>The debug endpoint\<close>

record TraceGroup =
  tgTraceID :: string
  tgJobID :: string
  tgShard :: string
  tgParents :: "string list"
  tgEvents :: "Event list"

record TraceReport =
  tpEnabled :: bool
  tpCount :: int
  tpEvents :: "Event list"
  tpTraces :: "TraceGroup list"

definition add_to_group :: "Event \<Rightarrow> TraceGroup \<Rightarrow> TraceGroup" where
  "add_to_group e g =
     g\<lparr>tgJobID := (if tgJobID g = [] then evJobID e else tgJobID g),
       tgShard := (if tgShard g = [] then evShard e else tgShard g),
       tgParents := (if evParent e \<noteq> [] \<and> evParent e \<notin> set (tgParents g) then tgParents g @ [evParent e] else tgParents g),
       tgEvents := tgEvents g @ [e]\<rparr>"

fun group_add :: "Event \<Rightarrow> TraceGroup list \<Rightarrow> TraceGroup list" where
  "group_add e [] = [add_to_group e \<lparr>tgTraceID = evTraceID e, tgJobID = evJobID e, tgShard = evShard e, tgParents = [], tgEvents = []\<rparr>]"
| "group_add e (g # gs) = (if tgTraceID g = evTraceID e then add_to_group e g # gs else g # group_add e gs)"

text \<open>A zero time is before every other.\<close>

fun before :: "Event \<Rightarrow> Event \<Rightarrow> bool" where
  "before a b \<longleftrightarrow> (case evTime b of None \<Rightarrow> False | Some tb \<Rightarrow> (case evTime a of None \<Rightarrow> True | Some ta \<Rightarrow> ta < tb))"

text \<open>\<^verbatim>\<open>sort.SliceStable\<close> by the first event of a group.\<close>

fun insert_group :: "TraceGroup \<Rightarrow> TraceGroup list \<Rightarrow> TraceGroup list" where
  "insert_group g [] = [g]"
| "insert_group g (h # hs) = (if before (hd (tgEvents h)) (hd (tgEvents g)) then h # insert_group g hs else g # h # hs)"

definition sort_groups :: "TraceGroup list \<Rightarrow> TraceGroup list" where
  "sort_groups gs = foldr insert_group gs []"

definition group :: "Event list \<Rightarrow> TraceGroup list" where
  "group events = sort_groups (fold group_add events [])"

definition Handler :: "string \<Rightarrow> string \<Rightarrow> string \<Rightarrow> Tracer \<Rightarrow> TraceReport" where
  "Handler task tr causal t =
     (let filtered = filter (\<lambda>e. \<not> (task \<noteq> [] \<and> evTaskID e \<noteq> task) \<and> \<not> (tr \<noteq> [] \<and> evTraceID e \<noteq> tr)) (Events t)
      in \<lparr>tpEnabled = tcOn t, tpCount = tcCount t,
          tpEvents = (if truthy causal then [] else filtered), tpTraces = (if truthy causal then group filtered else [])\<rparr>)"

subsection \<open>The ring holds the latest events\<close>

definition trace_holds :: "Event list \<Rightarrow> Tracer \<Rightarrow> bool" where
  "trace_holds xs t \<longleftrightarrow> ring_holds maxEvents xs (tcRing t, tcNext t)"

lemma maxEvents_pos [simp]: "0 < maxEvents"
  by (simp add: maxEvents_def)

lemma emit_store_holds: "trace_holds xs t \<Longrightarrow> trace_holds (xs @ [e]) (emit_store e t)"
  using ring_store_holds [of maxEvents xs "(tcRing t, tcNext t)" e] by (auto simp: trace_holds_def emit_store_def split: prod.split)

lemma Events_latest: "trace_holds xs t \<Longrightarrow> tcCount t = int (length xs) \<Longrightarrow> Events t = drop (length xs - maxEvents) xs"
  by (simp add: trace_holds_def Events_def ring_latest_holds)

definition emit_all :: "(int \<times> Event) list \<Rightarrow> Tracer \<Rightarrow> Tracer" where
  "emit_all es t = fold (\<lambda>(now, e). Emit now e) es t"

lemma emit_all_holds:
  assumes "int (length es) < 2 ^ 63"
  shows "trace_holds (map (\<lambda>(now, e). stamp now e) es) (emit_all es (Enable (reset t)))
    \<and> tcCount (emit_all es (Enable (reset t))) = int (length es) \<and> tcOn (emit_all es (Enable (reset t)))"
  using assms
proof (induction es rule: rev_induct)
  case Nil
  then show ?case by (simp add: emit_all_def trace_holds_def ring_holds_empty Enable_def reset_def)
next
  case (snoc p es)
  obtain now e where p: "p = (now, e)" by fastforce
  let ?t = "emit_all es (Enable (reset t))"
  have ih: "trace_holds (map (\<lambda>(now, e). stamp now e) es) ?t" "tcCount ?t = int (length es)" "tcOn ?t" using snoc by auto
  have "trace_holds (map (\<lambda>(now, e). stamp now e) es) (emit_count ?t)" using ih(1) by (simp add: trace_holds_def emit_count_def)
  note st = emit_store_holds [OF this, of "stamp now e"]
  have "emit_all (es @ [p]) (Enable (reset t)) = emit_store (stamp now e) (emit_count ?t)" using ih(3) p by (simp add: emit_all_def Emit_def)
  then show ?case using st ih snoc.prems p by (simp add: emit_store_def emit_count_def split: prod.split)
qed

text \<open>The trace ring (\<^verbatim>\<open>Events\<close>) returns exactly the latest 4096 events in the order they were emitted, each stamped with its time, however
  many were emitted before; the counter counts all of them, and a tracer that is off records nothing.\<close>

lemma trace_ring_keeps_latest:
  assumes "int (length es) < 2 ^ 63"
  shows "Events (emit_all es (Enable (reset t))) = drop (length es - 4096) (map (\<lambda>(now, e). stamp now e) es)
    \<and> tcCount (emit_all es (Enable (reset t))) = int (length es)
    \<and> emit_all es (Disable t) = Disable t"
proof (intro conjI)
  note h = emit_all_holds [OF assms, of t]
  show "Events (emit_all es (Enable (reset t))) = drop (length es - 4096) (map (\<lambda>(now, e). stamp now e) es)"
    using Events_latest [of "map (\<lambda>(now, e). stamp now e) es" "emit_all es (Enable (reset t))"] h by (simp add: maxEvents_def)
  show "tcCount (emit_all es (Enable (reset t))) = int (length es)" using h by simp
  show "emit_all es (Disable t) = Disable t" unfolding emit_all_def by (induction es) (auto simp: Emit_def Disable_def)
qed

definition new_tracer :: Tracer where
  "new_tracer = \<lparr>tcOn = False, tcCount = 0, tcRing = [], tcNext = 0\<rparr>"

theorem trace_ring_keeps_latest_witness:
  "Events (emit_all [(5, zero_event\<lparr>evKind := ''assigned''\<rparr>), (7, zero_event\<lparr>evKind := ''committed''\<rparr>)] (Enable (reset new_tracer)))
     = [zero_event\<lparr>evKind := ''assigned'', evTime := Some 5\<rparr>, zero_event\<lparr>evKind := ''committed'', evTime := Some 7\<rparr>]"
  using trace_ring_keeps_latest [of "[(5, zero_event\<lparr>evKind := ''assigned''\<rparr>), (7, zero_event\<lparr>evKind := ''committed''\<rparr>)]" new_tracer]
  by (simp add: stamp_def zero_event_def)

text \<open>The counter is raised before the event is stored: in between, the list ends with an empty event.\<close>

lemma events_between_count_and_store:
  "\<exists>e \<in> set (Events (emit_count (Enable (reset t)))). e = zero_event"
  by (simp add: Events_def ring_latest_def emit_count_def Enable_def reset_def Let_def)

subsection \<open>Identities of work\<close>

lemma fmt_d_inject: "fmt_d a = fmt_d b \<Longrightarrow> a = b"
proof -
  have "dec_nat n \<noteq> CHR ''-'' # s" for n s using is_digit_dec_nat [of n] by (auto simp: is_digit_def)
  then show "fmt_d a = fmt_d b \<Longrightarrow> a = b" by (auto simp: fmt_d_def split: if_splits) (metis)+
qed

lemma nul_free_fmt_d: "nul_free (fmt_d a)"
  using nul_free_dec [of "nat a"] nul_free_dec [of "nat (- a)"] by (auto simp: fmt_d_def nul_free_def)

text \<open>What is hashed determines the work: two units of work share it only if they are the same, when ids and shards have no zero byte.\<close>

lemma trace_input_inject:
  assumes "trace_input j s a b = trace_input j' s' a' b'" "nul_free j" "nul_free j'" "nul_free s" "nul_free s'"
  shows "j = j' \<and> s = s' \<and> a = a' \<and> b = b'"
proof -
  note z = nul_free_bytes [OF assms(2)] nul_free_bytes [OF assms(3)] nul_free_bytes [OF assms(4)] nul_free_bytes [OF assms(5)]
    nul_free_bytes [OF nul_free_fmt_d]
  have "bytes_of j @ 0 # bytes_of s @ 0 # bytes_of (fmt_d a) @ 0 # bytes_of (fmt_d b)
      = bytes_of j' @ 0 # bytes_of s' @ 0 # bytes_of (fmt_d a') @ 0 # bytes_of (fmt_d b')"
    using assms(1) by (simp only: trace_input_def append_Cons append_Nil)
  note j = split_at_first [OF this z(1,2)]
  note s = split_at_first [OF j(2) z(3,4)]
  note a = split_at_first [OF s(2) z(5,5)]
  show ?thesis using j(1) s(1) a fmt_d_inject by (simp only: bytes_of_inject)
qed

subsection \<open>Groups\<close>

definition groups_ok :: "Event list \<Rightarrow> TraceGroup list \<Rightarrow> bool" where
  "groups_ok es gs \<longleftrightarrow> distinct (map tgTraceID gs) \<and> set (map tgTraceID gs) = set (map evTraceID es)
     \<and> (\<forall>g \<in> set gs. tgEvents g = filter (\<lambda>e. evTraceID e = tgTraceID g) es)"

definition new_group :: "Event \<Rightarrow> TraceGroup" where
  "new_group e = add_to_group e \<lparr>tgTraceID = evTraceID e, tgJobID = evJobID e, tgShard = evShard e, tgParents = [], tgEvents = []\<rparr>"

lemma group_add_eq:
  "distinct (map tgTraceID gs) \<Longrightarrow>
     group_add e gs = (if evTraceID e \<in> set (map tgTraceID gs) then map (\<lambda>g. if tgTraceID g = evTraceID e then add_to_group e g else g) gs
                       else gs @ [new_group e])"
proof (induction gs)
  case (Cons g gs)
  show ?case
  proof (cases "tgTraceID g = evTraceID e")
    case True
    with Cons.prems have "map (\<lambda>h. if tgTraceID h = evTraceID e then add_to_group e h else h) gs = gs"
      by (intro map_idI) (auto simp: image_iff)
    with True show ?thesis by simp
  next
    case False
    then show ?thesis using Cons by auto
  qed
qed (simp add: new_group_def)

lemma add_to_group_fields [simp]: "tgTraceID (add_to_group e g) = tgTraceID g" "tgEvents (add_to_group e g) = tgEvents g @ [e]"
  by (simp_all add: add_to_group_def)

lemma groups_ok_add:
  assumes "groups_ok es gs"
  shows "groups_ok (es @ [e]) (group_add e gs)"
proof -
  have d: "distinct (map tgTraceID gs)" and s: "set (map tgTraceID gs) = set (map evTraceID es)"
    and g: "\<And>g. g \<in> set gs \<Longrightarrow> tgEvents g = filter (\<lambda>x. evTraceID x = tgTraceID g) es" using assms by (auto simp: groups_ok_def)
  show ?thesis
  proof (cases "evTraceID e \<in> set (map tgTraceID gs)")
    case True
    have "map tgTraceID (map (\<lambda>g. if tgTraceID g = evTraceID e then add_to_group e g else g) gs) = map tgTraceID gs" by simp
    then have ids: "map tgTraceID (group_add e gs) = map tgTraceID gs" using True group_add_eq [OF d] by presburger
    have "tgEvents h = filter (\<lambda>x. evTraceID x = tgTraceID h) (es @ [e])" if h: "h \<in> set (group_add e gs)" for h
    proof -
      have "h \<in> (\<lambda>g. if tgTraceID g = evTraceID e then add_to_group e g else g) ` set gs"
        using h True group_add_eq [OF d, of e] by (simp only: if_True set_map)
      then obtain f where "f \<in> set gs" "h = (if tgTraceID f = evTraceID e then add_to_group e f else f)" by blast
      then show ?thesis using g by (cases "tgTraceID f = evTraceID e") simp_all
    qed
    moreover have "set (map evTraceID (es @ [e])) = set (map evTraceID es)" using True s by auto
    ultimately show ?thesis unfolding groups_ok_def ids using d s by blast
  next
    case False
    then have none: "filter (\<lambda>x. evTraceID x = evTraceID e) es = []" unfolding s filter_empty_conv by (metis image_eqI list.set_map)
    have "group_add e gs = gs @ [new_group e]" using False group_add_eq [OF d] by simp
    then show ?thesis using False d s g none by (auto simp: groups_ok_def new_group_def)
  qed
qed

lemma groups_ok_fold: "groups_ok es gs \<Longrightarrow> groups_ok (es @ es') (fold group_add es' gs)"
proof (induction es' arbitrary: es gs)
  case (Cons e es')
  from Cons.IH [OF groups_ok_add [OF Cons.prems, of e]] show ?case by simp
qed simp

definition not_later :: "TraceGroup \<Rightarrow> TraceGroup \<Rightarrow> bool" where
  "not_later g h \<longleftrightarrow> \<not> before (hd (tgEvents h)) (hd (tgEvents g))"

lemma not_later_trans: "not_later f g \<Longrightarrow> not_later g h \<Longrightarrow> not_later f h"
  by (auto simp: not_later_def split: option.splits)

lemma insert_group_mset [simp]: "mset (insert_group g hs) = add_mset g (mset hs)"
  by (induction hs) auto

lemma insert_group_sorted: "sorted_wrt not_later hs \<Longrightarrow> sorted_wrt not_later (insert_group g hs)"
proof (induction hs)
  case (Cons h hs)
  have s: "set (insert_group g hs) = insert g (set hs)" using insert_group_mset [of g hs] by (metis set_mset_add_mset_insert set_mset_mset)
  show ?case
  proof (cases "before (hd (tgEvents h)) (hd (tgEvents g))")
    case True
    then have "not_later h g" by (auto simp: not_later_def split: option.splits)
    with True Cons s show ?thesis by auto
  next
    case False
    then have "not_later g h" by (simp add: not_later_def)
    with False Cons.prems show ?thesis using not_later_trans by auto
  qed
qed simp

lemma sort_groups_props: "mset (sort_groups gs) = mset gs" "sorted_wrt not_later (sort_groups gs)"
  unfolding sort_groups_def by (induction gs) (simp_all add: insert_group_sorted)

lemma groups_ok_mset:
  assumes "mset gs' = mset gs"
  shows "groups_ok es gs' = groups_ok es gs"
proof -
  have "mset (map tgTraceID gs') = mset (map tgTraceID gs)" using assms by simp
  then have "distinct (map tgTraceID gs') = distinct (map tgTraceID gs)" "set (map tgTraceID gs') = set (map tgTraceID gs)"
    using mset_eq_imp_distinct_iff mset_eq_setD by blast+
  moreover have "set gs' = set gs" using assms by (rule mset_eq_setD)
  ultimately show ?thesis by (simp add: groups_ok_def)
qed

text \<open>The causal view shows each unit of work once, with exactly its events in order, the groups by the time of their first event.\<close>

lemma group_by_trace: "groups_ok es (group es) \<and> sorted_wrt not_later (group es)"
proof -
  have "groups_ok [] []" by (simp add: groups_ok_def)
  from groups_ok_fold [OF this, of es] have "groups_ok es (fold group_add es [])" by simp
  then show ?thesis using sort_groups_props [of "fold group_add es []"] groups_ok_mset unfolding group_def by blast
qed

end
