(* ===== verification/Go_Heap.thy ===== *)
theory Go_Heap
  imports "HOL-Library.Multiset"
begin

section \<open>Binary heaps\<close>

text \<open>
  \<^verbatim>\<open>container/heap\<close> of the standard library, as its users call it: a heap is a slice ordered by the caller's \<^verbatim>\<open>Less\<close>, with the
  least element at index 0. The lemmas are proved once for every strict linear order, the locale \<open>ranking\<close>.
\<close>

subsection \<open>Operations\<close>

definition parent :: "nat \<Rightarrow> nat" where
  "parent j = (j - 1) div 2"

definition swap_at :: "nat \<Rightarrow> nat \<Rightarrow> 'a list \<Rightarrow> 'a list" where
  "swap_at i j h = h[i := h ! j, j := h ! i]"

function heap_up :: "('a \<Rightarrow> 'a \<Rightarrow> bool) \<Rightarrow> nat \<Rightarrow> 'a list \<Rightarrow> 'a list" where
  "heap_up lt j h = (let i = parent j in if i = j \<or> \<not> lt (h ! j) (h ! i) then h else heap_up lt i (swap_at i j h))"
  by pat_completeness auto
termination by (relation "measure (\<lambda>(lt, j, h). j)") (auto simp: parent_def)

definition least_child :: "('a \<Rightarrow> 'a \<Rightarrow> bool) \<Rightarrow> nat \<Rightarrow> nat \<Rightarrow> 'a list \<Rightarrow> nat" where
  "least_child lt n i h = (let j1 = 2 * i + 1 in if j1 + 1 < n \<and> lt (h ! (j1 + 1)) (h ! j1) then j1 + 1 else j1)"

text \<open>The second result is the index the element ends at.\<close>

function heap_down :: "('a \<Rightarrow> 'a \<Rightarrow> bool) \<Rightarrow> nat \<Rightarrow> nat \<Rightarrow> 'a list \<Rightarrow> 'a list \<times> nat" where
  "heap_down lt n i h =
     (if 2 * i + 1 \<ge> n then (h, i)
      else let j = least_child lt n i h
           in if \<not> lt (h ! j) (h ! i) then (h, i) else heap_down lt n j (swap_at i j h))"
  by pat_completeness auto
termination by (relation "measure (\<lambda>(lt, n, i, h). n - i)") (auto simp: least_child_def Let_def)

declare heap_up.simps [simp del] heap_down.simps [simp del]

definition heap_Push :: "('a \<Rightarrow> 'a \<Rightarrow> bool) \<Rightarrow> 'a \<Rightarrow> 'a list \<Rightarrow> 'a list" where
  "heap_Push lt x h = heap_up lt (length h) (h @ [x])"

definition heap_Pop :: "('a \<Rightarrow> 'a \<Rightarrow> bool) \<Rightarrow> 'a list \<Rightarrow> 'a \<times> 'a list" where
  "heap_Pop lt h = (let n = length h - 1; h1 = fst (heap_down lt n 0 (swap_at 0 n h)) in (h1 ! n, take n h1))"

definition heap_Fix :: "('a \<Rightarrow> 'a \<Rightarrow> bool) \<Rightarrow> nat \<Rightarrow> 'a list \<Rightarrow> 'a list" where
  "heap_Fix lt i h = (case heap_down lt (length h) i h of (h', i') \<Rightarrow> if i' > i then h' else heap_up lt i h')"

subsection \<open>Indices and swaps\<close>

lemma parent_less: "0 < k \<Longrightarrow> parent k < k"
  by (simp add: parent_def)

lemma parent_eq: "0 < k \<Longrightarrow> parent k = i \<longleftrightarrow> k = 2 * i + 1 \<or> k = 2 * i + 2"
  by (auto simp: parent_def)

lemma parent_fix: "parent j = j \<longleftrightarrow> j = 0"
  by (auto simp: parent_def)

lemma length_swap [simp]: "length (swap_at i j h) = length h"
  by (simp add: swap_at_def)

lemma swap_nth: "i < length h \<Longrightarrow> j < length h \<Longrightarrow> swap_at i j h ! k = (if k = i then h ! j else if k = j then h ! i else h ! k)"
  by (auto simp: swap_at_def nth_list_update)

lemma mset_swap_at: "i < length h \<Longrightarrow> j < length h \<Longrightarrow> mset (swap_at i j h) = mset h"
  by (simp add: swap_at_def mset_swap)

lemma heap_up_mset: "j < length h \<Longrightarrow> mset (heap_up lt j h) = mset h \<and> length (heap_up lt j h) = length h"
proof (induction lt j h rule: heap_up.induct)
  case (1 lt j h)
  show ?case
  proof (cases "parent j = j \<or> \<not> lt (h ! j) (h ! parent j)")
    case True
    then show ?thesis by (simp add: heap_up.simps Let_def)
  next
    case False
    then have "parent j < length h" using 1(2) parent_less [of j] by (simp add: parent_fix)
    with False 1 show ?thesis by (simp add: heap_up.simps [of lt j h] Let_def mset_swap_at)
  qed
qed

lemma least_child: "2 * i + 1 < n \<Longrightarrow> least_child lt n i h < n \<and> least_child lt n i h \<in> {2 * i + 1, 2 * i + 2}"
  by (simp add: least_child_def Let_def)

lemma heap_down_stop: "n \<le> 2 * i + 1 \<or> \<not> lt (h ! least_child lt n i h) (h ! i) \<Longrightarrow> heap_down lt n i h = (h, i)"
  by (subst heap_down.simps) (auto simp: Let_def)

lemma heap_down_move:
  "2 * i + 1 < n \<Longrightarrow> lt (h ! least_child lt n i h) (h ! i) \<Longrightarrow>
     heap_down lt n i h = heap_down lt n (least_child lt n i h) (swap_at i (least_child lt n i h) h)"
  by (subst heap_down.simps) (simp add: Let_def)

lemma heap_down_induct [case_names stop move]:
  assumes "\<And>i h. n \<le> 2 * i + 1 \<or> \<not> lt (h ! least_child lt n i h) (h ! i) \<Longrightarrow> P i h"
    and "\<And>i h. 2 * i + 1 < n \<Longrightarrow> lt (h ! least_child lt n i h) (h ! i) \<Longrightarrow>
           P (least_child lt n i h) (swap_at i (least_child lt n i h) h) \<Longrightarrow> P i h"
  shows "P i h"
proof (induction "n - i" arbitrary: i h rule: less_induct)
  case (less i h)
  show ?case
  proof (cases "n \<le> 2 * i + 1 \<or> \<not> lt (h ! least_child lt n i h) (h ! i)")
    case True
    then show ?thesis by (rule assms(1))
  next
    case False
    then have "n - least_child lt n i h < n - i" using least_child [of i n lt h] by auto
    with False less assms(2) show ?thesis by (metis linorder_not_less)
  qed
qed

lemma heap_down_mset:
  "i < n \<or> n = 0 \<Longrightarrow> n \<le> length h \<Longrightarrow> mset (fst (heap_down lt n i h)) = mset h \<and> length (fst (heap_down lt n i h)) = length h
     \<and> (\<forall>k \<ge> n. fst (heap_down lt n i h) ! k = h ! k)"
proof (induction i h rule: heap_down_induct [where n = n and lt = lt])
  case (stop i h)
  then show ?case by (simp add: heap_down_stop)
next
  case (move i h)
  let ?j = "least_child lt n i h"
  have j: "?j < n" "i < length h" "?j < length h" "i < n" using least_child [OF move(1), of lt h] move(1,5) by auto
  then have "swap_at i ?j h ! k = h ! k" if "k \<ge> n" for k using that by (simp add: swap_nth)
  with move j show ?case by (simp add: heap_down_move mset_swap_at)
qed

subsection \<open>The heap order\<close>

definition is_heap :: "('a \<Rightarrow> 'a \<Rightarrow> bool) \<Rightarrow> nat \<Rightarrow> 'a list \<Rightarrow> bool" where
  "is_heap lt n h \<longleftrightarrow> (\<forall>k. 0 < k \<and> k < n \<longrightarrow> \<not> lt (h ! k) (h ! parent k))"

text \<open>A heap but for the element at one index, which may be too small for its parent or too large for its children.\<close>

definition up_ok :: "('a \<Rightarrow> 'a \<Rightarrow> bool) \<Rightarrow> nat \<Rightarrow> nat \<Rightarrow> 'a list \<Rightarrow> bool" where
  "up_ok lt n j h \<longleftrightarrow> (\<forall>k. 0 < k \<and> k < n \<longrightarrow>
     (k \<noteq> j \<longrightarrow> \<not> lt (h ! k) (h ! parent k)) \<and> (parent k = j \<and> 0 < j \<longrightarrow> \<not> lt (h ! k) (h ! parent j)))"

definition down_ok :: "('a \<Rightarrow> 'a \<Rightarrow> bool) \<Rightarrow> nat \<Rightarrow> nat \<Rightarrow> 'a list \<Rightarrow> bool" where
  "down_ok lt n i h \<longleftrightarrow> (\<forall>k. 0 < k \<and> k < n \<longrightarrow>
     (parent k \<noteq> i \<longrightarrow> \<not> lt (h ! k) (h ! parent k)) \<and> (parent k = i \<and> 0 < i \<longrightarrow> \<not> lt (h ! k) (h ! parent i)))"

locale ranking =
  fixes lt :: "'a \<Rightarrow> 'a \<Rightarrow> bool"
  assumes irrefl: "\<not> lt x x"
    and trans: "lt x y \<Longrightarrow> lt y z \<Longrightarrow> lt x z"
    and linear: "x \<noteq> y \<Longrightarrow> lt x y \<or> lt y x"
begin

lemma asym: "lt x y \<Longrightarrow> \<not> lt y x"
  using irrefl trans by blast

lemma le_trans: "\<not> lt y x \<Longrightarrow> \<not> lt z y \<Longrightarrow> \<not> lt z x"
  using linear trans by metis

lemma less_le: "lt x y \<Longrightarrow> \<not> lt z y \<Longrightarrow> lt x z"
  using linear trans by metis

lemma sift_up_step:
  assumes ok: "up_ok lt n j h" and j: "0 < j" "j < n" "n \<le> length h" and lt: "lt (h ! j) (h ! parent j)"
  shows "up_ok lt n (parent j) (swap_at (parent j) j h)"
  unfolding up_ok_def
proof (intro allI impI)
  fix k assume k: "0 < k \<and> k < n"
  let ?i = "parent j" and ?h = "swap_at (parent j) j h"
  have ij: "?i < j" by (rule parent_less [OF j(1)])
  have nth: "?h ! m = (if m = ?i then h ! j else if m = j then h ! ?i else h ! m)" for m using swap_nth [of ?i h j] ij j by simp
  have pk: "parent k < k" using parent_less k by blast
  have par: "\<not> lt (h ! m) (h ! parent m)" if "0 < m" "m < n" "m \<noteq> j" for m using ok that by (simp add: up_ok_def)
  have grand: "\<not> lt (h ! m) (h ! ?i)" if "0 < m" "m < n" "parent m = j" for m using ok that j(1) by (simp add: up_ok_def)
  show "(k \<noteq> ?i \<longrightarrow> \<not> lt (?h ! k) (?h ! parent k)) \<and> (parent k = ?i \<and> 0 < ?i \<longrightarrow> \<not> lt (?h ! k) (?h ! parent ?i))"
  proof (intro conjI impI)
    assume ki: "k \<noteq> ?i"
    consider "k = j" | "k \<noteq> j" "parent k = j" | "k \<noteq> j" "parent k = ?i" | "k \<noteq> j" "parent k \<noteq> j" "parent k \<noteq> ?i" by blast
    then show "\<not> lt (?h ! k) (?h ! parent k)"
    proof cases
      case 1
      then show ?thesis using ij asym [OF lt] by (simp add: nth)
    next
      case 2
      then show ?thesis using ki ij k grand by (simp add: nth)
    next
      case 3
      then have "\<not> lt (h ! k) (h ! ?i)" using par [of k] k by simp
      then have "\<not> lt (h ! k) (h ! j)" using lt trans by blast
      with 3 ki show ?thesis by (simp add: nth)
    next
      case 4
      then show ?thesis using par [of k] k ki by (simp add: nth)
    qed
  next
    assume pi: "parent k = ?i \<and> 0 < ?i"
    have ppi: "parent ?i < ?i" using pi parent_less by blast
    have up: "\<not> lt (h ! ?i) (h ! parent ?i)" using par [of ?i] pi ij j by simp
    have h': "?h ! parent ?i = h ! parent ?i" using ppi ij by (simp add: nth)
    show "\<not> lt (?h ! k) (?h ! parent ?i)"
    proof (cases "k = j")
      case True
      then show ?thesis using up h' ij by (simp add: nth)
    next
      case False
      then have "\<not> lt (h ! k) (h ! ?i)" using par [of k] k pi by simp
      then have "\<not> lt (h ! k) (h ! parent ?i)" using up le_trans by blast
      with False h' pi pk show ?thesis by (simp add: nth)
    qed
  qed
qed

lemma heap_up_heap: "up_ok lt n j h \<Longrightarrow> j < n \<Longrightarrow> n \<le> length h \<Longrightarrow> is_heap lt n (heap_up lt j h)"
proof (induction j arbitrary: h rule: less_induct)
  case (less j)
  show ?case
  proof (cases "j = 0 \<or> \<not> lt (h ! j) (h ! parent j)")
    case True
    then have "heap_up lt j h = h" by (subst heap_up.simps) (auto simp: Let_def parent_def)
    moreover have "is_heap lt n h" using less.prems(1) True by (auto simp: is_heap_def up_ok_def)
    ultimately show ?thesis by simp
  next
    case False
    then have j: "0 < j" "parent j < j" using parent_less by auto
    have "heap_up lt j h = heap_up lt (parent j) (swap_at (parent j) j h)" using False j by (subst heap_up.simps) (simp add: Let_def)
    with less.IH [OF j(2) sift_up_step [OF less.prems(1) j(1) less.prems(2,3)]] False less.prems j show ?thesis by simp
  qed
qed

end

context ranking
begin

lemma least_child_least:
  assumes "2 * i + 1 < n" "0 < k" "k < n" "parent k = i"
  shows "\<not> lt (h ! k) (h ! least_child lt n i h)"
  using assms asym irrefl by (auto simp: least_child_def Let_def parent_eq)

lemma down_step:
  assumes ok: "down_ok lt n i h" and i: "2 * i + 1 < n" "n \<le> length h" and lt: "lt (h ! least_child lt n i h) (h ! i)"
  shows "down_ok lt n (least_child lt n i h) (swap_at i (least_child lt n i h) h)"
  unfolding down_ok_def
proof (intro allI impI)
  fix k assume k: "0 < k \<and> k < n"
  let ?j = "least_child lt n i h"
  let ?h = "swap_at i ?j h"
  have j: "?j < n" "?j \<in> {2 * i + 1, 2 * i + 2}" using least_child [OF i(1)] by auto
  then have ij: "i < ?j" "parent ?j = i" by (auto simp: parent_eq)
  have nth: "?h ! m = (if m = i then h ! ?j else if m = ?j then h ! i else h ! m)" for m using swap_nth [of i h ?j] ij j i by simp
  have pk: "parent k < k" using parent_less k by blast
  have par: "\<not> lt (h ! m) (h ! parent m)" if "0 < m" "m < n" "parent m \<noteq> i" for m using ok that by (simp add: down_ok_def)
  have grand: "\<not> lt (h ! ?j) (h ! parent i)" if "0 < i" using ok that ij j by (simp add: down_ok_def)
  show "(parent k \<noteq> ?j \<longrightarrow> \<not> lt (?h ! k) (?h ! parent k)) \<and> (parent k = ?j \<and> 0 < ?j \<longrightarrow> \<not> lt (?h ! k) (?h ! parent ?j))"
  proof (intro conjI impI)
    assume kj: "parent k \<noteq> ?j"
    consider "k = ?j" | "k = i" | "k \<noteq> ?j" "k \<noteq> i" "parent k = i" | "k \<noteq> ?j" "k \<noteq> i" "parent k \<noteq> i" by blast
    then show "\<not> lt (?h ! k) (?h ! parent k)"
    proof cases
      case 1
      then show ?thesis using ij asym [OF lt] by (simp add: nth)
    next
      case 2
      then have "parent k < i" "\<not> lt (h ! ?j) (h ! parent k)" using grand k pk by auto
      with 2 ij show ?thesis by (simp add: nth)
    next
      case 3
      then show ?thesis using least_child_least [OF i(1), of k] k by (simp add: nth)
    next
      case 4
      then show ?thesis using par [of k] k kj by (simp add: nth)
    qed
  next
    assume pj: "parent k = ?j \<and> 0 < ?j"
    have "\<not> lt (h ! k) (h ! ?j)" using par [of k] k pj ij by simp
    then show "\<not> lt (?h ! k) (?h ! parent ?j)" using pj pk ij by (simp add: nth)
  qed
qed

lemma heap_down_heap: "down_ok lt n i h \<Longrightarrow> n \<le> length h \<Longrightarrow> is_heap lt n (fst (heap_down lt n i h))"
proof (induction i h rule: heap_down_induct [where n = n and lt = lt])
  case (stop i h)
  have "\<not> lt (h ! k) (h ! parent k)" if k: "0 < k" "k < n" for k
  proof (cases "parent k = i")
    case True
    then have "2 * i + 1 < n" using k parent_eq [OF k(1), of i] by auto
    then have "\<not> lt (h ! least_child lt n i h) (h ! i)" "\<not> lt (h ! k) (h ! least_child lt n i h)"
      using stop(1) least_child_least k True by auto
    then show ?thesis using le_trans True by blast
  next
    case False
    then show ?thesis using stop(2) k by (simp add: down_ok_def)
  qed
  then show ?case using stop(1) by (simp add: heap_down_stop is_heap_def)
next
  case (move i h)
  then show ?case using down_step [OF move(4,1,5,2)] by (simp add: heap_down_move)
qed

lemma root_least: "is_heap lt n h \<Longrightarrow> k < n \<Longrightarrow> \<not> lt (h ! k) (h ! 0)"
proof (induction k rule: less_induct)
  case (less k)
  show ?case
  proof (cases "k = 0")
    case False
    then have "\<not> lt (h ! k) (h ! parent k)" "parent k < k" using less.prems parent_less by (auto simp: is_heap_def)
    with less.IH [of "parent k"] less.prems le_trans show ?thesis by (metis order.strict_trans)
  qed (simp add: irrefl)
qed

subsection \<open>The operations keep the order\<close>

lemma Push_ok:
  assumes "is_heap lt (length h) h"
  shows "is_heap lt (Suc (length h)) (heap_Push lt x h) \<and> mset (heap_Push lt x h) = add_mset x (mset h) \<and> length (heap_Push lt x h) = Suc (length h)"
proof -
  have "up_ok lt (Suc (length h)) (length h) (h @ [x])"
    unfolding up_ok_def
  proof (intro allI impI)
    fix k assume k: "0 < k \<and> k < Suc (length h)"
    then have "parent k < k" using parent_less by blast
    with k assms show "(k \<noteq> length h \<longrightarrow> \<not> lt ((h @ [x]) ! k) ((h @ [x]) ! parent k)) \<and>
        (parent k = length h \<and> 0 < length h \<longrightarrow> \<not> lt ((h @ [x]) ! k) ((h @ [x]) ! parent (length h)))"
      by (auto simp: is_heap_def nth_append)
  qed
  then show ?thesis using heap_up_heap [of "Suc (length h)" "length h" "h @ [x]"] heap_up_mset [of "length h" "h @ [x]" lt]
    by (simp add: heap_Push_def)
qed

lemma down_ok_root:
  assumes "\<And>k. 0 < k \<Longrightarrow> k < n \<Longrightarrow> 0 < parent k \<Longrightarrow> \<not> lt (h ! k) (h ! parent k)"
  shows "down_ok lt n 0 h"
  using assms by (simp add: down_ok_def)

lemma Fix_root_ok:
  assumes "is_heap lt (length h) h" "h \<noteq> []"
  shows "is_heap lt (length h) (heap_Fix lt 0 (h[0 := x])) \<and> mset (heap_Fix lt 0 (h[0 := x])) = add_mset x (mset h - {#h ! 0#})
    \<and> length (heap_Fix lt 0 (h[0 := x])) = length h"
proof -
  let ?g = "h[0 := x]"
  have d: "down_ok lt (length h) 0 ?g" by (rule down_ok_root) (use assms(1) in \<open>simp add: is_heap_def\<close>)
  obtain h' i' where hd: "heap_down lt (length h) 0 ?g = (h', i')" by fastforce
  have "is_heap lt (length h) h'" "mset h' = mset ?g" "length h' = length h"
    using heap_down_heap [OF d] heap_down_mset [of 0 "length h" ?g lt] assms(2) hd by auto
  moreover have "heap_up lt 0 h' = h'" by (subst heap_up.simps) (simp add: parent_def)
  moreover have "mset ?g = add_mset x (mset h - {#h ! 0#})" using assms(2) by (simp add: mset_update)
  ultimately show ?thesis using hd by (simp add: heap_Fix_def)
qed

lemma Pop_ok:
  assumes "is_heap lt (length h) h" "h \<noteq> []" "heap_Pop lt h = (x, h')"
  shows "x = h ! 0 \<and> is_heap lt (length h') h' \<and> mset h = add_mset x (mset h') \<and> length h = Suc (length h')"
proof -
  obtain n where n: "length h = Suc n" using assms(2) by (cases h) auto
  let ?g = "swap_at 0 n h"
  have nth: "?g ! k = (if k = 0 then h ! n else if k = n then h ! 0 else h ! k)" for k using swap_nth [of 0 h n] n by simp
  have d: "down_ok lt n 0 ?g"
  proof (rule down_ok_root)
    fix k assume "0 < k" "k < n" "0 < parent k"
    moreover have "parent k < k" using parent_less calculation by blast
    ultimately show "\<not> lt (?g ! k) (?g ! parent k)" using assms(1) n by (simp add: nth is_heap_def)
  qed
  let ?d = "fst (heap_down lt n 0 ?g)"
  have m: "mset ?d = mset h" "length ?d = Suc n" "?d ! n = ?g ! n"
    using heap_down_mset [of 0 n ?g lt] n mset_swap_at [of 0 h n] by auto
  have x: "x = ?d ! n" "h' = take n ?d" using assms(3) n by (auto simp: heap_Pop_def Let_def)
  have split: "?d = take n ?d @ [?d ! n]" using m(2) take_Suc_conv_app_nth [of n ?d] by simp
  have "mset ?d = mset (take n ?d @ [?d ! n])" by (rule arg_cong [OF split])
  also have "\<dots> = add_mset (?d ! n) (mset (take n ?d))" by simp
  finally have "mset ?d = add_mset (?d ! n) (mset (take n ?d))" .
  moreover have "is_heap lt n h'"
    unfolding is_heap_def
  proof (intro allI impI)
    fix k assume k: "0 < k \<and> k < n"
    then have "parent k < n" using parent_less [of k] by linarith
    moreover have "\<not> lt (?d ! k) (?d ! parent k)" using heap_down_heap [OF d] k n by (simp add: is_heap_def)
    ultimately show "\<not> lt (h' ! k) (h' ! parent k)" using k by (simp add: x(2))
  qed
  moreover have "?d ! n = h ! 0" using m(3) nth by (cases "n = 0") auto
  ultimately show ?thesis using x m n by simp
qed

end

subsection \<open>Selecting the strongest\<close>

text \<open>The reference: all elements sorted, the strongest first.\<close>

fun rank_insert :: "('a \<Rightarrow> 'a \<Rightarrow> bool) \<Rightarrow> 'a \<Rightarrow> 'a list \<Rightarrow> 'a list" where
  "rank_insert lt x [] = [x]"
| "rank_insert lt x (y # ys) = (if lt y x then x # y # ys else y # rank_insert lt x ys)"

definition rank_sort :: "('a \<Rightarrow> 'a \<Rightarrow> bool) \<Rightarrow> 'a list \<Rightarrow> 'a list" where
  "rank_sort lt xs = fold (rank_insert lt) xs []"

text \<open>A heap of bounded size that keeps the strongest elements of a stream, and its emptying.\<close>

definition keep_strongest :: "('a \<Rightarrow> 'a \<Rightarrow> bool) \<Rightarrow> nat \<Rightarrow> 'a \<Rightarrow> 'a list \<Rightarrow> 'a list" where
  "keep_strongest lt k x h =
     (if length h < k then heap_Push lt x h else if lt (h ! 0) x then heap_Fix lt 0 (h[0 := x]) else h)"

function drain :: "('a \<Rightarrow> 'a \<Rightarrow> bool) \<Rightarrow> 'a list \<Rightarrow> 'a list \<Rightarrow> 'a list" where
  "drain lt h out = (if h = [] then out else case heap_Pop lt h of (x, h') \<Rightarrow> drain lt h' (x # out))"
  by pat_completeness auto
termination by (relation "measure (\<lambda>(lt, h, out). length h)") (auto simp: heap_Pop_def Let_def min_less_iff_disj)

declare drain.simps [simp del]

lemma rank_insert_mset [simp]: "mset (rank_insert lt x ys) = add_mset x (mset ys)"
  by (induction ys) auto

lemma rank_insert_length [simp]: "length (rank_insert lt x ys) = Suc (length ys)"
  by (induction ys) auto

lemma rank_sort_mset [simp]: "mset (rank_sort lt xs) = mset xs"
proof -
  have "mset (fold (rank_insert lt) xs ys) = mset xs + mset ys" for ys by (induction xs arbitrary: ys) auto
  then show ?thesis by (simp add: rank_sort_def)
qed

lemma rank_sort_snoc: "rank_sort lt (xs @ [x]) = rank_insert lt x (rank_sort lt xs)"
  by (simp add: rank_sort_def)

lemma take_rank_insert: "take k (rank_insert lt x ys) = take k (rank_insert lt x (take k ys))"
proof (induction ys arbitrary: k)
  case (Cons y ys)
  then show ?case by (cases k) (auto simp: take_Cons')
qed simp

context ranking
begin

lemma rank_insert_sorted: "sorted_wrt (\<lambda>a b. \<not> lt a b) ys \<Longrightarrow> sorted_wrt (\<lambda>a b. \<not> lt a b) (rank_insert lt x ys)"
proof (induction ys)
  case (Cons y ys)
  have s: "set (rank_insert lt x ys) = insert x (set ys)" using rank_insert_mset [of lt x ys] by (metis set_mset_add_mset_insert set_mset_mset)
  show ?case
  proof (cases "lt y x")
    case True
    then have "\<not> lt x y" by (rule asym)
    with True Cons.prems show ?thesis using le_trans by auto
  next
    case False
    with Cons s show ?thesis by auto
  qed
qed simp

lemma rank_sort_sorted: "sorted_wrt (\<lambda>a b. \<not> lt a b) (rank_sort lt xs)"
proof -
  have "sorted_wrt (\<lambda>a b. \<not> lt a b) ys \<Longrightarrow> sorted_wrt (\<lambda>a b. \<not> lt a b) (fold (rank_insert lt) xs ys)" for ys
    by (induction xs arbitrary: ys) (simp_all add: rank_insert_sorted)
  then show ?thesis by (simp add: rank_sort_def)
qed

lemma sorted_unique:
  assumes "sorted_wrt (\<lambda>a b. \<not> lt a b) xs" "sorted_wrt (\<lambda>a b. \<not> lt a b) ys" "mset xs = mset ys"
  shows "xs = ys"
  using assms
proof (induction xs arbitrary: ys)
  case (Cons x xs)
  then obtain y zs where ys: "ys = y # zs" by (cases ys) auto
  have "x \<in> set ys" "y \<in> set (x # xs)" using mset_eq_setD [OF Cons.prems(3)] ys by auto
  then have "x = y" using Cons.prems(1,2) ys linear by auto
  with Cons.IH [of zs] Cons.prems ys show ?case by auto
qed simp

lemma rank_insert_last: "ys \<noteq> [] \<Longrightarrow> lt (last ys) x \<Longrightarrow> last (rank_insert lt x ys) = last ys"
proof (induction ys)
  case (Cons y ys)
  have "rank_insert lt x ys \<noteq> []" using rank_insert_length [of lt x ys] by force
  with Cons show ?case by auto
qed simp

lemma keep_strongest_ok:
  fixes x :: 'a
  assumes "is_heap lt (length h) h" "mset h = mset (take k (rank_sort lt xs))" "0 < k"
  defines "g \<equiv> keep_strongest lt k x h"
  shows "is_heap lt (length g) g \<and> mset g = mset (take k (rank_sort lt (xs @ [x])))"
proof -
  define zs where "zs = take k (rank_sort lt xs)"
  have len: "length h = length zs" "length zs \<le> k" using assms(2) by (auto simp: zs_def dest: mset_eq_length)
  have ref: "take k (rank_sort lt (xs @ [x])) = take k (rank_insert lt x zs)" unfolding zs_def rank_sort_snoc by (rule take_rank_insert)
  have sz: "sorted_wrt (\<lambda>a b. \<not> lt a b) zs" unfolding zs_def by (rule sorted_wrt_take [OF rank_sort_sorted])
  show ?thesis
  proof (cases "length h < k")
    case True
    with Push_ok [OF assms(1), of x] assms(2) len ref show ?thesis by (simp add: g_def keep_strongest_def zs_def [symmetric])
  next
    case False
    then have full: "length zs = k" "h \<noteq> []" "zs \<noteq> []" using len assms(3) by auto
    have root: "h ! 0 = last zs"
    proof (rule ccontr)
      assume ne: "h ! 0 \<noteq> last zs"
      have s: "set h = set zs" using assms(2) zs_def by (metis mset_eq_setD)
      then obtain i where i: "i < length h" "h ! i = last zs" using full(3) by (metis in_set_conv_nth last_in_set)
      have 1: "\<not> lt (last zs) (h ! 0)" using root_least [OF assms(1) i(1)] i(2) by simp
      have zs: "zs = butlast zs @ [last zs]" using full(3) by simp
      have "h ! 0 \<in> set (butlast zs @ [last zs])" using s full(2) zs by (metis length_greater_0_conv nth_mem)
      then have "h ! 0 \<in> set (butlast zs)" using ne by auto
      then have "\<not> lt (h ! 0) (last zs)" using sz zs by (metis last_in_set list.set_intros(1) sorted_wrt_append)
      with 1 ne linear show False by blast
    qed
    show ?thesis
    proof (cases "lt (h ! 0) x")
      case True
      have b: "take k (rank_insert lt x zs) = butlast (rank_insert lt x zs)" "last (rank_insert lt x zs) = last zs"
        using full True root rank_insert_last by (simp_all add: butlast_conv_take)
      have "rank_insert lt x zs \<noteq> []" using rank_insert_length [of lt x zs] by force
      then have "mset (rank_insert lt x zs) = mset (butlast (rank_insert lt x zs) @ [last zs])" using b(2) by (metis append_butlast_last_id)
      then have "mset (butlast (rank_insert lt x zs)) = add_mset x (mset zs) - {#last zs#}" by simp
      moreover have "last zs \<in># mset zs" using full(3) by simp
      moreover have "mset h = mset zs" using assms(2) zs_def by simp
      ultimately have "mset (take k (rank_insert lt x zs)) = add_mset x (mset h - {#h ! 0#})"
        unfolding b(1) root by (auto simp: multiset_eq_iff)
      with Fix_root_ok [OF assms(1) full(2), of x] False True ref show ?thesis by (simp add: g_def keep_strongest_def)
    next
      case weak: False
      have "\<forall>z \<in> set zs. \<not> lt z x"
      proof
        fix z assume "z \<in> set zs"
        then obtain i where "i < length h" "h ! i = z" using assms(2) zs_def by (metis in_set_conv_nth mset_eq_setD)
        then show "\<not> lt z x" using root_least [OF assms(1)] weak le_trans by blast
      qed
      then have "rank_insert lt x zs = zs @ [x]" by (induction zs) auto
      with full ref weak False assms(1,2) show ?thesis by (simp add: g_def keep_strongest_def zs_def [symmetric])
    qed
  qed
qed

end

context ranking
begin

lemma drain_step: "h \<noteq> [] \<Longrightarrow> heap_Pop lt h = (x, h') \<Longrightarrow> drain lt h out = drain lt h' (x # out)"
  by (subst drain.simps) simp

lemma drain_sorted:
  assumes "is_heap lt (length h) h" "sorted_wrt (\<lambda>a b. \<not> lt a b) out" "\<forall>x \<in> set h. \<forall>y \<in> set out. \<not> lt x y"
  shows "sorted_wrt (\<lambda>a b. \<not> lt a b) (drain lt h out) \<and> mset (drain lt h out) = mset h + mset out"
  using assms
proof (induction "length h" arbitrary: h out)
  case 0
  then show ?case by (simp add: drain.simps)
next
  case (Suc n)
  obtain x h' where pop: "heap_Pop lt h = (x, h')" by fastforce
  have ne: "h \<noteq> []" using Suc(2) by auto
  note p = Pop_ok [OF Suc(3) ne pop]
  have sub: "set h = insert x (set h')" using p by (metis set_mset_add_mset_insert set_mset_mset)
  have least: "\<not> lt y x" if "y \<in> set h'" for y
    using that sub root_least [OF Suc(3)] p by (metis in_set_conv_nth insert_iff)
  have "sorted_wrt (\<lambda>a b. \<not> lt a b) (drain lt h' (x # out)) \<and> mset (drain lt h' (x # out)) = mset h' + mset (x # out)"
    by (rule Suc(1)) (use p Suc sub least in auto)
  with p show ?case by (simp add: drain_step [OF ne pop])
qed

text \<open>The bounded heap returns the strongest elements of the stream, the strongest first.\<close>

lemma strongest:
  assumes "0 < k"
  shows "drain lt (fold (keep_strongest lt k) xs []) [] = take k (rank_sort lt xs)"
proof -
  have "is_heap lt (length (fold (keep_strongest lt k) xs [])) (fold (keep_strongest lt k) xs [])
      \<and> mset (fold (keep_strongest lt k) xs []) = mset (take k (rank_sort lt xs))"
  proof (induction xs rule: rev_induct)
    case Nil
    then show ?case by (simp add: is_heap_def rank_sort_def)
  next
    case (snoc x xs)
    with keep_strongest_ok [of "fold (keep_strongest lt k) xs []" k xs x] assms show ?case by simp
  qed
  then have "sorted_wrt (\<lambda>a b. \<not> lt a b) (drain lt (fold (keep_strongest lt k) xs []) [])"
    "mset (drain lt (fold (keep_strongest lt k) xs []) []) = mset (take k (rank_sort lt xs))"
    using drain_sorted [of "fold (keep_strongest lt k) xs []" "[]"] by auto
  then show ?thesis using sorted_unique sorted_wrt_take [OF rank_sort_sorted] by blast
qed

end

end
