(* ===== verification/Vsearch.thy ===== *)
theory Vsearch
  imports Go_Heap K8s Complex_Main
begin

section \<open>Similarity search\<close>

text \<open>
  \<^verbatim>\<open>internal/vsearch/index.go\<close>, \<^verbatim>\<open>internal/vsearch/query.go\<close> and the endpoint of \<^verbatim>\<open>cmd/server/similar.go\<close>: exact nearest neighbours by cosine
  similarity, kept in a bounded heap. Vectors and scores are real numbers (\<^verbatim>\<open>float32\<close> without rounding); the encoder, the loading of the
  files and the decoding of requests are parameters.
\<close>

subsection \<open>The index\<close>

record Embedding =
  emID :: string
  emDataset :: string
  emVector :: "real list"

record Result =
  rsID :: string
  rsScore :: real

record VIndex =
  vxDim :: int
  vxIds :: "string list"
  vxData :: "real list"

definition vec_norm :: "real list \<Rightarrow> real" where
  "vec_norm v = sqrt (sum_list (map (\<lambda>x. x * x) v))"

definition normalize :: "real list \<Rightarrow> real list outcome" where
  "normalize v =
     (let norm = vec_norm v
      in if norm = 0 then Err ''zero-magnitude vector cannot be normalised'' else Ok (map (\<lambda>x. x * (1 / norm)) v))"

definition dot :: "real list \<Rightarrow> real list \<Rightarrow> real" where
  "dot a b = sum_list (map2 (*) a b)"

definition vec_len_error :: "nat \<Rightarrow> Embedding \<Rightarrow> int \<Rightarrow> string" where
  "vec_len_error i r d =
     ''vsearch: row '' @ dec_nat i @ '' ('' @ quote (emID r) @ '') has vector len '' @ dec_nat (length (emVector r)) @ '', want dim '' @ fmt_d d"

fun load_rows :: "int \<Rightarrow> nat \<Rightarrow> Embedding list \<Rightarrow> VIndex \<Rightarrow> VIndex outcome" where
  "load_rows d i [] ix = Ok ix"
| "load_rows d i (r # rows) ix =
     (if int (length (emVector r)) \<noteq> d then Err (vec_len_error i r d)
      else case normalize (emVector r) of
             Ok unit \<Rightarrow> load_rows d (i + 1) rows (ix\<lparr>vxIds := vxIds ix @ [emID r], vxData := vxData ix @ unit\<rparr>)
           | Err e \<Rightarrow> Err (''vsearch: row '' @ dec_nat i @ '' ('' @ quote (emID r) @ ''): '' @ e)
           | Panic \<Rightarrow> Panic)"

definition NewIndex :: "int \<Rightarrow> Embedding list \<Rightarrow> VIndex outcome" where
  "NewIndex d rows =
     (if d \<le> 0 then Err (''vsearch: dim must be positive, got '' @ fmt_d d)
      else load_rows d 0 rows \<lparr>vxDim = d, vxIds = [], vxData = []\<rparr>)"

definition row :: "VIndex \<Rightarrow> nat \<Rightarrow> real list" where
  "row ix i = take (nat (vxDim ix)) (drop (i * nat (vxDim ix)) (vxData ix))"

fun lookup_from :: "nat \<Rightarrow> string \<Rightarrow> string list \<Rightarrow> VIndex \<Rightarrow> real list option" where
  "lookup_from i key [] ix = None"
| "lookup_from i key (got # ids) ix = (if got = key then Some (row ix i) else lookup_from (i + 1) key ids ix)"

definition Lookup :: "string \<Rightarrow> VIndex \<Rightarrow> real list option" where
  "Lookup key ix = lookup_from 0 key (vxIds ix) ix"

definition less_result :: "Result \<Rightarrow> Result \<Rightarrow> bool" where
  "less_result a b \<longleftrightarrow> (if rsScore a \<noteq> rsScore b then rsScore a < rsScore b else rsID a > rsID b)"

text \<open>The candidates in the order of the scan.\<close>

definition candidates :: "real list \<Rightarrow> string list \<Rightarrow> VIndex \<Rightarrow> Result list" where
  "candidates q exclude ix =
     map (\<lambda>i. \<lparr>rsID = vxIds ix ! i, rsScore = dot q (row ix i)\<rparr>) (filter (\<lambda>i. vxIds ix ! i \<notin> set exclude) [0..<length (vxIds ix)])"

definition Search :: "real list \<Rightarrow> int \<Rightarrow> string list \<Rightarrow> VIndex \<Rightarrow> Result list outcome" where
  "Search q k exclude ix =
     (if int (length q) \<noteq> vxDim ix then Err (''vsearch: query has len '' @ dec_nat (length q) @ '', want dim '' @ fmt_d (vxDim ix))
      else if k \<le> 0 then Err (''vsearch: k must be positive, got '' @ fmt_d k)
      else case normalize q of
             Err e \<Rightarrow> Err (''vsearch: query: '' @ e)
           | Panic \<Rightarrow> Panic
           | Ok unit \<Rightarrow> Ok (drain less_result (fold (keep_strongest less_result (nat k)) (candidates unit exclude ix) []) []))"

subsection \<open>Queries\<close>

record Query =
  qyID :: string
  qyVector :: "real list"
  qyText :: string
  qyImage :: "byte list"
  qyK :: int

datatype EncodeRequest = EncodeText string | EncodeImage string

definition ResolveVector ::
  "(EncodeRequest \<Rightarrow> real list outcome) option \<Rightarrow> Query \<Rightarrow> VIndex \<Rightarrow> (real list \<times> string list) outcome" where
  "ResolveVector enc q ix =
     (let encode = (\<lambda>what req. case enc of
            None \<Rightarrow> Err (''vsearch: '' @ what @ '' query needs an encoder, none configured'')
          | Some f \<Rightarrow> (case f req of Ok v \<Rightarrow> Ok (v, []) | Err e \<Rightarrow> Err e | Panic \<Rightarrow> Panic))
      in if qyID q \<noteq> [] then
           (case Lookup (qyID q) ix of
              None \<Rightarrow> Err (''vsearch: id '' @ quote (qyID q) @ '' not in index'')
            | Some v \<Rightarrow> Ok (v, [qyID q]))
         else if qyVector q \<noteq> [] then Ok (qyVector q, [])
         else if qyText q \<noteq> [] then encode ''text'' (EncodeText (qyText q))
         else if qyImage q \<noteq> [] then encode ''image'' (EncodeImage (std64_encode (qyImage q)))
         else Err ''vsearch: empty query (set one of id/vector/text/image)'')"

definition Run_query :: "(EncodeRequest \<Rightarrow> real list outcome) option \<Rightarrow> Query \<Rightarrow> VIndex \<Rightarrow> Result list outcome" where
  "Run_query enc q ix =
     (let k = (if qyK q \<le> 0 then 10 else qyK q)
      in (case ResolveVector enc q ix of Ok (vec, exclude) \<Rightarrow> Search vec k exclude ix | Err e \<Rightarrow> Err e | Panic \<Rightarrow> Panic))"

subsection \<open>The endpoint\<close>

record similarRequest =
  srK :: int
  srID :: string
  srVector :: "real list"
  srText :: string
  srImageB64 :: string

datatype similar_reply = SimilarError nat string | SimilarResults "Result list"

text \<open>The index is loaded once: the first request's answer, an error too, is the answer of all (the second component of the state).\<close>

definition similar ::
  "bool \<Rightarrow> (EncodeRequest \<Rightarrow> real list outcome) option \<Rightarrow> string \<Rightarrow> similarRequest outcome \<Rightarrow> VIndex outcome \<Rightarrow> VIndex outcome option
    \<Rightarrow> similar_reply \<times> VIndex outcome option" where
  "similar configured enc meth body loaded once =
     (if \<not> configured then (SimilarError 501 ''vector search not configured (set server.search.index_key)'', once)
      else if meth \<noteq> ''POST'' then (SimilarError 405 ''POST required'', once)
      else case body of
        Err e \<Rightarrow> (SimilarError 400 e, once)
      | Panic \<Rightarrow> (SimilarError 400 ''panic'', once)
      | Ok req \<Rightarrow>
          (let ans = (case once of None \<Rightarrow> loaded | Some r \<Rightarrow> r)
           in (case ans of
                 Err e \<Rightarrow> (SimilarError 500 (''load index: '' @ e), Some ans)
               | Panic \<Rightarrow> (SimilarError 500 ''panic'', Some ans)
               | Ok ix \<Rightarrow>
                   (case (if srImageB64 req = [] then Some [] else std64_decode (srImageB64 req)) of
                      None \<Rightarrow> (SimilarError 400 ''image_b64: illegal base64 data'', Some ans)
                    | Some raw \<Rightarrow>
                        (case Run_query enc \<lparr>qyID = srID req, qyVector = srVector req, qyText = srText req, qyImage = raw, qyK = srK req\<rparr> ix of
                           Ok rs \<Rightarrow> (SimilarResults rs, Some ans)
                         | Err e \<Rightarrow> (SimilarError 400 e, Some ans)
                         | Panic \<Rightarrow> (SimilarError 500 ''panic'', Some ans))))))"

subsection \<open>Loading an index and encoding a query\<close>

text \<open>
  \<^verbatim>\<open>internal/vsearch/load.go\<close> and \<^verbatim>\<open>encode.go\<close>. The local file system, the store (its \<^verbatim>\<open>Get\<close>, then the reading of the body), the Parquet decoder
  and the answer of the encoding service are arguments.
\<close>

definition loadBytes :: "(string \<Rightarrow> byte list outcome) \<Rightarrow> (string \<Rightarrow> byte list outcome outcome) option \<Rightarrow> string \<Rightarrow> byte list outcome" where
  "loadBytes readFile objs ref =
     (let key = (if take 5 ref = ''s3://'' then drop 5 ref else ref);
          forceObject = (key \<noteq> ref);
          fromStore = (case objs of
              None \<Rightarrow> Err (''vsearch: index '' @ quote ref @ '' needs object storage but none configured'')
            | Some getObj \<Rightarrow>
                (case getObj key of
                   Err e \<Rightarrow> Err (''vsearch: get index '' @ quote key @ '' from storage: '' @ e)
                 | Panic \<Rightarrow> Panic
                 | Ok (Err e) \<Rightarrow> Err (''vsearch: read index '' @ quote key @ '' from storage: '' @ e)
                 | Ok r \<Rightarrow> r))
      in if forceObject then fromStore
         else (case readFile ref of
                 Ok data \<Rightarrow> Ok data
               | Err e \<Rightarrow> if objs = None then Err (''vsearch: read index '' @ quote ref @ '': '' @ e) else fromStore
               | Panic \<Rightarrow> Panic))"

definition LoadIndex ::
  "(byte list \<Rightarrow> (int \<times> Embedding list) outcome) \<Rightarrow> (string \<Rightarrow> byte list outcome) \<Rightarrow> (string \<Rightarrow> byte list outcome outcome) option \<Rightarrow> string
    \<Rightarrow> VIndex outcome" where
  "LoadIndex readParquet readFile objs ref =
     (case loadBytes readFile objs ref of
        Ok data \<Rightarrow> (case readParquet data of Ok (d, rows) \<Rightarrow> NewIndex d rows | Err e \<Rightarrow> Err e | Panic \<Rightarrow> Panic)
      | Err e \<Rightarrow> Err e
      | Panic \<Rightarrow> Panic)"

datatype encoder_answer = NoAnswer string | BadStatus string string | Vectors "real list outcome"

definition Encode :: "string \<Rightarrow> (EncodeRequest \<Rightarrow> encoder_answer) \<Rightarrow> EncodeRequest \<Rightarrow> real list outcome" where
  "Encode base service req =
     (let url = base @ ''/encode''
      in if req = EncodeText [] \<or> req = EncodeImage [] then Err ''vsearch: encode request has neither text nor image''
         else case service req of
           NoAnswer e \<Rightarrow> Err (''vsearch: call encoder '' @ url @ '': '' @ e)
         | BadStatus status msg \<Rightarrow> Err (''vsearch: encoder '' @ url @ '' returned '' @ status @ '': '' @ msg)
         | Vectors (Err e) \<Rightarrow> Err (''vsearch: decode encoder response: '' @ e)
         | Vectors Panic \<Rightarrow> Panic
         | Vectors (Ok v) \<Rightarrow> if v = [] then Err ''vsearch: encoder returned empty vector'' else Ok v)"

text \<open>A reference with a scheme never reads a local file; one without prefers it.\<close>

lemma loadBytes_scheme: "take 5 ref = ''s3://'' \<Longrightarrow> loadBytes rd objs ref = loadBytes rd' objs ref"
proof -
  assume a: "take 5 ref = ''s3://''"
  then have "drop 5 ref \<noteq> ref" by (metis append_self_conv2 append_take_drop_id list.distinct(1))
  with a show ?thesis by (simp add: loadBytes_def)
qed

lemma loadBytes_local: "take 5 ref \<noteq> ''s3://'' \<Longrightarrow> rd ref = Ok d \<Longrightarrow> loadBytes rd objs ref = Ok d"
  by (simp add: loadBytes_def)

text \<open>A corpus without rows has no dimension, and its index cannot be loaded.\<close>

lemma empty_corpus_fails: "loadBytes rd objs ref = Ok d \<Longrightarrow> rp d = Ok (0, []) \<Longrightarrow> LoadIndex rp rd objs ref = Err ''vsearch: dim must be positive, got 0''"
proof -
  assume "loadBytes rd objs ref = Ok d" "rp d = Ok (0, [])"
  moreover have "fmt_d 0 = ''0''" by code_simp
  ultimately show ?thesis by (simp add: LoadIndex_def NewIndex_def)
qed

subsection \<open>The ranking is exact\<close>

interpretation rank: ranking less_result
proof unfold_locales
  show "\<not> less_result x x" for x by (simp add: less_result_def)
  show "less_result x y \<Longrightarrow> less_result y z \<Longrightarrow> less_result x z" for x y z
    by (auto simp: less_result_def split: if_splits)
  show "x \<noteq> y \<Longrightarrow> less_result x y \<or> less_result y x" for x y
    by (cases x; cases y) (auto simp: less_result_def)
qed

definition cosine :: "real list \<Rightarrow> real list \<Rightarrow> real" where
  "cosine u v = dot u v / (vec_norm u * vec_norm v)"

definition unit_of :: "real list \<Rightarrow> real list" where
  "unit_of v = map (\<lambda>x. x * (1 / vec_norm v)) v"

lemma normalize_unit: "normalize v = (if vec_norm v = 0 then Err ''zero-magnitude vector cannot be normalised'' else Ok (unit_of v))"
  by (simp add: normalize_def unit_of_def Let_def)

lemma length_unit [simp]: "length (unit_of v) = length v"
  by (simp add: unit_of_def)

lemma dot_scale: "dot (map (\<lambda>x. x * a) u) (map (\<lambda>x. x * b) v) = a * b * dot u v"
proof (induction u arbitrary: v)
  case (Cons x u)
  show ?case by (cases v) (use Cons in \<open>simp_all add: dot_def algebra_simps\<close>)
qed (simp add: dot_def)

lemma dot_units: "dot (unit_of u) (unit_of v) = cosine u v"
  unfolding unit_of_def dot_scale by (simp add: cosine_def)

lemma load_rows_ok:
  assumes "load_rows d i rows ix = Ok ix'"
  shows "vxIds ix' = vxIds ix @ map emID rows \<and> vxData ix' = vxData ix @ concat (map (unit_of \<circ> emVector) rows)
    \<and> vxDim ix' = vxDim ix \<and> (\<forall>r \<in> set rows. int (length (emVector r)) = d)"
  using assms
proof (induction d i rows ix rule: load_rows.induct)
  case (2 d i r rows ix)
  then show ?case by (auto simp: normalize_unit split: if_splits)
qed simp

lemma nth_block:
  assumes "i < length xss" "\<forall>xs \<in> set xss. length xs = n"
  shows "take n (drop (i * n) (concat xss)) = xss ! i"
  using assms
proof (induction xss arbitrary: i)
  case (Cons xs xss)
  show ?case
  proof (cases i)
    case (Suc j)
    then have "drop (i * n) (concat (xs # xss)) = drop (j * n) (concat xss)" using Cons.prems(2) by (simp add: drop_append)
    with Cons Suc show ?thesis by simp
  qed (use Cons.prems(2) in simp)
qed simp

lemma candidates_cosine:
  assumes "NewIndex d rows = Ok ix"
  shows "candidates (unit_of q) exclude ix =
    map (\<lambda>r. \<lparr>rsID = emID r, rsScore = cosine q (emVector r)\<rparr>) (filter (\<lambda>r. emID r \<notin> set exclude) rows)"
proof -
  have l: "load_rows d 0 rows \<lparr>vxDim = d, vxIds = [], vxData = []\<rparr> = Ok ix" using assms by (simp add: NewIndex_def split: if_splits)
  note s = load_rows_ok [OF l, simplified]
  have r: "row ix i = unit_of (emVector (rows ! i))" if "i < length rows" for i
  proof -
    have "\<forall>xs \<in> set (map (unit_of \<circ> emVector) rows). length xs = nat d" using s by auto
    from nth_block [OF _ this, of i] that s show ?thesis by (simp add: row_def)
  qed
  let ?f = "\<lambda>r. \<lparr>rsID = emID r, rsScore = cosine q (emVector r)\<rparr>" and ?P = "\<lambda>r. emID r \<notin> set exclude"
  have "filter ?P rows = filter ?P (map ((!) rows) [0..<length rows])" by (simp add: map_nth)
  then have "filter ?P rows = map ((!) rows) (filter (\<lambda>i. ?P (rows ! i)) [0..<length rows])" by (simp add: filter_map comp_def)
  moreover have "filter (\<lambda>i. vxIds ix ! i \<notin> set exclude) [0..<length (vxIds ix)] = filter (\<lambda>i. ?P (rows ! i)) [0..<length rows]"
    using s by (intro filter_cong) auto
  then have "candidates (unit_of q) exclude ix = map (\<lambda>i. ?f (rows ! i)) (filter (\<lambda>i. ?P (rows ! i)) [0..<length rows])"
    unfolding candidates_def using s r by (simp add: dot_units)
  ultimately show ?thesis by simp
qed


definition demo_corpus :: "Embedding list" where
  "demo_corpus = [\<lparr>emID = ''a'', emDataset = [], emVector = [1, 0]\<rparr>, \<lparr>emID = ''b'', emDataset = [], emVector = [0, 1]\<rparr>,
     \<lparr>emID = ''c'', emDataset = [], emVector = [-1, 0]\<rparr>]"


text \<open>A failed load of the index is kept: every later request fails with it, whatever the loader would say by then.\<close>

lemma failed_load_sticks: "fst (similar True enc ''POST'' (Ok req) loaded (Some (Err e))) = SimilarError 500 (''load index: '' @ e)"
  by (simp add: similar_def Let_def)

text \<open>An image is never its own neighbour: a query by id leaves it out.\<close>

lemma id_query_excludes_itself:
  assumes "NewIndex d rows = Ok ix" "qyID q \<noteq> []" "Run_query enc q ix = Ok rs"
  shows "qyID q \<notin> rsID ` set rs"
proof -
  let ?k = "if qyK q \<le> 0 then 10 else qyK q"
  obtain v where s: "Search v ?k [qyID q] ix = Ok rs"
    using assms(2,3) by (auto simp: Run_query_def ResolveVector_def Let_def split: outcome.splits option.splits)
  then obtain u where u: "normalize v = Ok u" by (auto simp: Search_def split: if_splits outcome.splits)
  have "0 < nat ?k" by simp
  note st = rank.strongest [OF this]
  have "rs = take (nat ?k) (rank_sort less_result (candidates u [qyID q] ix))"
    using s u by (simp add: Search_def st split: if_splits)
  then have "set rs \<subseteq> set (candidates u [qyID q] ix)" using set_take_subset rank_sort_mset mset_eq_setD by metis
  then show ?thesis by (auto simp: candidates_def)
qed

end
