(* ===== verification/Registry.thy ===== *)
theory Registry
  imports Package Metadata
begin

section \<open>The algorithm registry\<close>

text \<open>
  \<^verbatim>\<open>internal/registry/store.go\<close>: the table of registered algorithm versions, whose primary key is the name with the version. The table is the list
  of its rows in insertion order; \<^verbatim>\<open>INSERT\<close> fails on a key that is there. The JSON of manifests is a parameter; no caller sets a creation
  time, so a row gets the time of the call.
\<close>

subsection \<open>The store\<close>

record AlgoRow =
  arName :: string
  arVersion :: string
  arOwner :: string
  arImageRef :: string
  arDigest :: string
  arManifest :: string
  arCreatedAt :: int

type_synonym Registry = "AlgoRow list"

record manifest_codec =
  mcMarshal :: "Manifest \<Rightarrow> string outcome"
  mcUnmarshal :: "string \<Rightarrow> Manifest outcome"

definition at_version :: "string \<Rightarrow> string \<Rightarrow> AlgoRow \<Rightarrow> bool" where
  "at_version name version x \<longleftrightarrow> arName x = name \<and> arVersion x = version"

definition Register :: "manifest_codec \<Rightarrow> string option \<Rightarrow> int \<Rightarrow> Algorithm \<Rightarrow> Registry \<Rightarrow> Registry \<times> string option" where
  "Register mc err now a tbl =
     (let fail = (\<lambda>e. (tbl, Some (''register '' @ alName a @ ''@'' @ alVersion a @ '': '' @ e)))
      in (case mcMarshal mc (alManifest a) of
            Err e \<Rightarrow> (tbl, Some (''marshal manifest: '' @ e))
          | Panic \<Rightarrow> (tbl, Some ''panic'')
          | Ok json \<Rightarrow>
              (case err of
                 Some e \<Rightarrow> fail e
               | None \<Rightarrow>
                   if list_ex (at_version (alName a) (alVersion a)) tbl
                   then fail ''UNIQUE constraint failed: algorithms.name, algorithms.version''
                   else (tbl @ [\<lparr>arName = alName a, arVersion = alVersion a, arOwner = alOwner a, arImageRef = alImageRef a, arDigest = alDigest a,
                           arManifest = json, arCreatedAt = now\<rparr>], None))))"

definition scanAlgorithm :: "manifest_codec \<Rightarrow> AlgoRow \<Rightarrow> Algorithm outcome" where
  "scanAlgorithm mc x =
     (case mcUnmarshal mc (arManifest x) of
        Ok m \<Rightarrow> Ok \<lparr>alName = arName x, alVersion = arVersion x, alOwner = arOwner x, alImageRef = arImageRef x, alDigest = arDigest x, alManifest = m\<rparr>
      | Err e \<Rightarrow> Err (''decode stored manifest: '' @ e)
      | Panic \<Rightarrow> Panic)"

definition Get_algorithm :: "manifest_codec \<Rightarrow> string option \<Rightarrow> string \<Rightarrow> string \<Rightarrow> Registry \<Rightarrow> Algorithm outcome" where
  "Get_algorithm mc err name version tbl =
     (case err of
        Some e \<Rightarrow> Err e
      | None \<Rightarrow> (case List.find (at_version name version) tbl of
                  None \<Rightarrow> Err (''algorithm '' @ name @ ''@'' @ version @ '' not found'')
                | Some x \<Rightarrow> scanAlgorithm mc x))"

fun scan_all :: "manifest_codec \<Rightarrow> AlgoRow list \<Rightarrow> Algorithm list outcome" where
  "scan_all mc [] = Ok []"
| "scan_all mc (x # xs) =
     (case scanAlgorithm mc x of
        Ok a \<Rightarrow> (case scan_all mc xs of Ok as \<Rightarrow> Ok (a # as) | Err e \<Rightarrow> Err e | Panic \<Rightarrow> Panic)
      | Err e \<Rightarrow> Err e
      | Panic \<Rightarrow> Panic)"

definition newest_first :: "AlgoRow list \<Rightarrow> AlgoRow list" where
  "newest_first = sort_key (\<lambda>x. - arCreatedAt x)"

definition List_algorithms :: "manifest_codec \<Rightarrow> db_fault \<Rightarrow> Registry \<Rightarrow> Algorithm list outcome" where
  "List_algorithms mc flt tbl =
     (case query ''list algorithms: '' [] flt (newest_first tbl) of Ok xs \<Rightarrow> scan_all mc xs | Err e \<Rightarrow> Err e | Panic \<Rightarrow> Panic)"

definition ListVersions :: "manifest_codec \<Rightarrow> db_fault \<Rightarrow> string \<Rightarrow> Registry \<Rightarrow> Algorithm list outcome" where
  "ListVersions mc flt name tbl =
     (case query (''list versions of '' @ name @ '': '') [] flt (newest_first (filter (\<lambda>x. arName x = name) tbl)) of
        Ok xs \<Rightarrow> scan_all mc xs | Err e \<Rightarrow> Err e | Panic \<Rightarrow> Panic)"

subsection \<open>Versions are immutable\<close>

lemma Register_extends: "\<exists>ys. fst (Register mc err now a tbl) = tbl @ ys"
  by (auto simp: Register_def Let_def split: outcome.split option.split)

lemma Register_other:
  assumes "Register mc err now a tbl = (tbl', None)"
  shows "\<not> list_ex (at_version (alName a) (alVersion a)) tbl"
    and "\<exists>json. mcMarshal mc (alManifest a) = Ok json \<and> tbl' = tbl @ [\<lparr>arName = alName a, arVersion = alVersion a, arOwner = alOwner a,
           arImageRef = alImageRef a, arDigest = alDigest a, arManifest = json, arCreatedAt = now\<rparr>]"
  using assms by (auto simp: Register_def Let_def split: outcome.splits option.splits if_splits)

lemma find_append: "List.find P (xs @ ys) = (case List.find P xs of None \<Rightarrow> List.find P ys | Some x \<Rightarrow> Some x)"
  by (induction xs) auto

lemma find_ex: "List.find P xs = None \<longleftrightarrow> \<not> list_ex P xs"
  by (induction xs) auto

lemma Get_extends:
  assumes "Get_algorithm mc None name version tbl = Ok a"
  shows "Get_algorithm mc None name version (tbl @ ys) = Ok a"
  using assms by (auto simp: Get_algorithm_def find_append split: option.splits)

text \<open>A registered algorithm is read back as it was registered.\<close>

lemma Register_then_Get:
  assumes "Register mc err now a tbl = (tbl', None)" "\<forall>m json. mcMarshal mc m = Ok json \<longrightarrow> mcUnmarshal mc json = Ok m"
  shows "Get_algorithm mc None (alName a) (alVersion a) tbl' = Ok a"
proof -
  obtain json where j: "mcMarshal mc (alManifest a) = Ok json" and t: "tbl' = tbl @ [\<lparr>arName = alName a, arVersion = alVersion a, arOwner = alOwner a,
           arImageRef = alImageRef a, arDigest = alDigest a, arManifest = json, arCreatedAt = now\<rparr>]"
    using Register_other(2) [OF assms(1)] by blast
  have "List.find (at_version (alName a) (alVersion a)) tbl = None" using Register_other(1) [OF assms(1)] by (simp add: find_ex)
  then show ?thesis using t assms(2) j by (simp add: Get_algorithm_def find_append at_version_def scanAlgorithm_def)
qed

record upload_request =
  urTenant :: string
  urBody :: "byte list"
  urBodyErr :: "string option"
  urDbErr :: "string option"
  urNow :: int

definition serve_upload ::
  "(byte list \<Rightarrow> zip_entry list outcome) \<Rightarrow> (byte list \<Rightarrow> Manifest outcome) \<Rightarrow> manifest_codec \<Rightarrow> Quota \<Rightarrow> upload_request \<Rightarrow> Registry
    \<Rightarrow> (int \<times> Algorithm outcome) \<times> Registry" where
  "serve_upload openZip unmarshal mc q r tbl =
     post_algorithm openZip unmarshal (Register mc (urDbErr r) (urNow r)) q (urTenant r) (urBody r) (urBodyErr r) tbl"

lemma serve_upload_extends: "\<exists>ys. snd (serve_upload openZip unmarshal mc q r tbl) = tbl @ ys"
proof -
  obtain p code where rp: "readPackage openZip unmarshal (urBody r) (urBodyErr r) = (p, code)" by fastforce
  show ?thesis
  proof (cases p)
    case (Ok pkg)
    show ?thesis
    proof (cases "Validate (pkManifest pkg) q")
      case None
      let ?a = "\<lparr>alName = mfName (pkManifest pkg), alVersion = mfVersion (pkManifest pkg),
                     alOwner = (if urTenant r = [] then ''default'' else urTenant r), alImageRef = ImageRef imageRegistry pkg,
                     alDigest = pkDigest pkg, alManifest = pkManifest pkg\<rparr>"
      obtain tbl' res where reg: "Register mc (urDbErr r) (urNow r) ?a tbl = (tbl', res)" by fastforce
      then obtain ys where "tbl' = tbl @ ys" using Register_extends [of mc "urDbErr r" "urNow r" ?a tbl] by auto
      moreover have "snd (serve_upload openZip unmarshal mc q r tbl) = tbl'"
        using rp Ok None reg by (cases res) (simp_all add: serve_upload_def post_algorithm_def Let_def)
      ultimately show ?thesis by blast
    qed (use rp Ok in \<open>simp add: serve_upload_def post_algorithm_def\<close>)
  qed (use rp in \<open>simp_all add: serve_upload_def post_algorithm_def\<close>)
qed

text \<open>C15. A registered version of an algorithm never changes: whatever packages are uploaded afterwards, by any tenant and with any failures of
  the database, looking the version up gives the algorithm that was registered first.\<close>

theorem registered_version_never_changes:
  assumes "Register mc err now a tbl = (tbl', None)" "\<forall>m json. mcMarshal mc m = Ok json \<longrightarrow> mcUnmarshal mc json = Ok m"
  shows "Get_algorithm mc None (alName a) (alVersion a) (fold (\<lambda>r t. snd (serve_upload openZip unmarshal mc q r t)) reqs tbl') = Ok a"
proof -
  have "Get_algorithm mc None (alName a) (alVersion a) (fold (\<lambda>r t. snd (serve_upload openZip unmarshal mc q r t)) reqs t) = Ok a"
    if "Get_algorithm mc None (alName a) (alVersion a) t = Ok a" for t
    using that
  proof (induction reqs arbitrary: t)
    case (Cons r reqs)
    obtain ys where "snd (serve_upload openZip unmarshal mc q r t) = t @ ys" using serve_upload_extends by blast
    with Cons.IH Get_extends [OF Cons.prems] show ?case by simp
  qed simp
  then show ?thesis using Register_then_Get [OF assms] by blast
qed

definition demo_codec :: manifest_codec where
  "demo_codec = \<lparr>mcMarshal = (\<lambda>m. if m = demo_manifest then Ok ''demo'' else Err ''unsupported''), mcUnmarshal = (\<lambda>s. Ok demo_manifest)\<rparr>"

definition demo_algorithm :: Algorithm where
  "demo_algorithm = \<lparr>alName = ''resize'', alVersion = ''1'', alOwner = ''t1'', alImageRef = ''reg/resize:1'', alDigest = ''d1'', alManifest = demo_manifest\<rparr>"

theorem registered_version_never_changes_witness:
  "Get_algorithm demo_codec None ''resize'' ''1''
     (fold (\<lambda>r t. snd (serve_upload demo_zip (\<lambda>_. Ok demo_manifest) demo_codec DefaultQuota r t))
       [\<lparr>urTenant = ''t2'', urBody = [], urBodyErr = None, urDbErr = None, urNow = 8\<rparr>] (fst (Register demo_codec None 7 demo_algorithm []))) = Ok demo_algorithm"
proof -
  have "Register demo_codec None 7 demo_algorithm [] = (fst (Register demo_codec None 7 demo_algorithm []), None)"
    by (simp add: Register_def demo_codec_def demo_algorithm_def)
  moreover have "\<forall>m json. mcMarshal demo_codec m = Ok json \<longrightarrow> mcUnmarshal demo_codec json = Ok m"
    by (simp add: demo_codec_def split: if_splits)
  ultimately have "Get_algorithm demo_codec None (alName demo_algorithm) (alVersion demo_algorithm)
     (fold (\<lambda>r t. snd (serve_upload demo_zip (\<lambda>_. Ok demo_manifest) demo_codec DefaultQuota r t))
       [\<lparr>urTenant = ''t2'', urBody = [], urBodyErr = None, urDbErr = None, urNow = 8\<rparr>] (fst (Register demo_codec None 7 demo_algorithm []))) = Ok demo_algorithm"
    by (rule registered_version_never_changes)
  moreover have "alName demo_algorithm = ''resize''" "alVersion demo_algorithm = ''1''" by (simp_all add: demo_algorithm_def)
  ultimately show ?thesis by metis
qed

end
