(* ===== verification/Diag.thy ===== *)
theory Diag
  imports Lock_Order Ring_Buffer
begin

section \<open>Runtime diagnostics\<close>

text \<open>
  \<^verbatim>\<open>internal/diag/assert.go\<close>, \<^verbatim>\<open>diag.go\<close> and \<^verbatim>\<open>http.go\<close>: the switch and its thresholds, the assertions with their ring of violations and the
  report of the debug endpoint. The clock, the goroutine header and the stack texts are arguments; the values of an assertion are already
  printed.
\<close>

subsection \<open>Switch and thresholds\<close>

record DiagConfig =
  dcWaitWarn :: int
  dcHoldWarn :: int

record Violation =
  vlTime :: int
  vlMsg :: string
  vlDetail :: string
  vlGoid :: int
  vlStack :: string

definition zero_violation :: Violation where
  "zero_violation = \<lparr>vlTime = 0, vlMsg = [], vlDetail = [], vlGoid = 0, vlStack = []\<rparr>"

record DiagState =
  dgOn :: bool
  dgConfig :: DiagConfig
  dgCount :: int
  dgRing :: "Violation list"
  dgNext :: nat

definition maxViolations :: nat where
  "maxViolations = 128"

definition defaultConfig :: DiagConfig where
  "defaultConfig = \<lparr>dcWaitWarn = 250000000, dcHoldWarn = 250000000\<rparr>"

definition diag_Enable :: "DiagConfig \<Rightarrow> DiagState \<Rightarrow> DiagState" where
  "diag_Enable c d =
     d\<lparr>dgOn := True,
       dgConfig := \<lparr>dcWaitWarn = (if dcWaitWarn c > 0 then dcWaitWarn c else dcWaitWarn (dgConfig d)),
                    dcHoldWarn = (if dcHoldWarn c > 0 then dcHoldWarn c else dcHoldWarn (dgConfig d))\<rparr>\<rparr>"

definition diag_truthy :: "string \<Rightarrow> bool" where
  "diag_truthy s \<longleftrightarrow> s \<in> {''1'', ''true'', ''TRUE'', ''True'', ''yes'', ''on''}"

definition diag_EnableFromEnv :: "string \<Rightarrow> DiagState \<Rightarrow> bool \<times> DiagState" where
  "diag_EnableFromEnv env d =
     (if diag_truthy env then (True, diag_Enable \<lparr>dcWaitWarn = 0, dcHoldWarn = 0\<rparr> d) else (False, d))"

definition diag_Disable :: "DiagState \<Rightarrow> DiagState" where
  "diag_Disable d = d\<lparr>dgOn := False\<rparr>"

text \<open>The id in the header of a goroutine's stack, zero when there is none.\<close>

definition goid :: "string \<Rightarrow> int" where
  "goid header =
     (let b = (if take 10 header = ''goroutine '' then drop 10 header else header);
          num = takeWhile (\<lambda>c. c \<noteq> CHR '' '') b
      in if length num < length b \<and> num \<noteq> [] \<and> list_all is_digit num \<and> dec_val 0 num < 2 ^ 63 then int (dec_val 0 num) else 0)"

subsection \<open>Assertions\<close>

fun kv_pairs :: "string list \<Rightarrow> string list" where
  "kv_pairs [] = []"
| "kv_pairs [k] = [k]"
| "kv_pairs (k # v # rest) = (k @ ''='' @ v) # kv_pairs rest"

fun join_space :: "string list \<Rightarrow> string" where
  "join_space [] = []"
| "join_space [x] = x"
| "join_space (x # y # ys) = x @ '' '' @ join_space (y # ys)"

definition kvString :: "string list \<Rightarrow> string" where
  "kvString args = join_space (kv_pairs args)"

definition record_violation :: "int \<Rightarrow> string \<Rightarrow> string \<Rightarrow> string \<Rightarrow> string \<Rightarrow> DiagState \<Rightarrow> DiagState" where
  "record_violation now header stack msg detail d =
     (let v = \<lparr>vlTime = now, vlMsg = msg, vlDetail = detail, vlGoid = goid header, vlStack = stack\<rparr>
      in (case ring_store maxViolations v (dgRing d, dgNext d) of
            (r, nx) \<Rightarrow> d\<lparr>dgCount := i64 (dgCount d + 1), dgRing := r, dgNext := nx\<rparr>))"

definition Assert :: "int \<Rightarrow> string \<Rightarrow> string \<Rightarrow> bool \<Rightarrow> string \<Rightarrow> string list \<Rightarrow> DiagState \<Rightarrow> DiagState" where
  "Assert now header stack cond msg detailArgs d =
     (if cond \<or> \<not> dgOn d then d else record_violation now header stack msg (kvString detailArgs) d)"

definition Assertf :: "int \<Rightarrow> string \<Rightarrow> string \<Rightarrow> bool \<Rightarrow> string \<Rightarrow> string \<Rightarrow> DiagState \<Rightarrow> DiagState" where
  "Assertf now header stack cond msg detail d =
     (if cond \<or> \<not> dgOn d then d else record_violation now header stack msg detail d)"

definition RecentViolations :: "DiagState \<Rightarrow> Violation list" where
  "RecentViolations d = ring_latest maxViolations (dgCount d) (dgRing d, dgNext d)"

definition resetViolations :: "DiagState \<Rightarrow> DiagState" where
  "resetViolations d = d\<lparr>dgCount := 0, dgNext := 0, dgRing := replicate maxViolations zero_violation\<rparr>"

subsection \<open>The violations that are kept\<close>

lemma record_holds:
  fixes now :: int and header stack msg detail :: string
  assumes "ring_holds maxViolations vs (dgRing d, dgNext d)" "dgCount d = int (length vs)" "int (length vs) + 1 < 2 ^ 63"
  defines "d' \<equiv> record_violation now header stack msg detail d"
  shows "ring_holds maxViolations (vs @ [\<lparr>vlTime = now, vlMsg = msg, vlDetail = detail, vlGoid = goid header, vlStack = stack\<rparr>]) (dgRing d', dgNext d')
    \<and> dgCount d' = int (length vs) + 1 \<and> dgOn d' = dgOn d"
proof -
  let ?v = "\<lparr>vlTime = now, vlMsg = msg, vlDetail = detail, vlGoid = goid header, vlStack = stack\<rparr>"
  have "ring_holds maxViolations (vs @ [?v]) (ring_store maxViolations ?v (dgRing d, dgNext d))"
    by (rule ring_store_holds [OF assms(1)]) (simp add: maxViolations_def)
  then show ?thesis using assms(2,3) by (auto simp: d'_def record_violation_def Let_def split: prod.split)
qed

record assertion =
  asNow :: int
  asHeader :: string
  asStack :: string
  asCond :: bool
  asMsg :: string
  asArgs :: "string list"

definition run_assert :: "assertion \<Rightarrow> DiagState \<Rightarrow> DiagState" where
  "run_assert a d = Assert (asNow a) (asHeader a) (asStack a) (asCond a) (asMsg a) (asArgs a) d"

definition violation_of :: "assertion \<Rightarrow> Violation" where
  "violation_of a = \<lparr>vlTime = asNow a, vlMsg = asMsg a, vlDetail = kvString (asArgs a), vlGoid = goid (asHeader a), vlStack = asStack a\<rparr>"

text \<open>With diagnostics on, exactly the assertions that do not hold are recorded, and the latest 128 of them are reported in order.\<close>

lemma violations_latest:
  assumes "dgOn d" "int (length as) < 2 ^ 63"
  defines "bad \<equiv> map violation_of (filter (\<lambda>a. \<not> asCond a) as)"
  defines "d' \<equiv> fold run_assert as (resetViolations d)"
  shows "RecentViolations d' = drop (length bad - 128) bad \<and> dgCount d' = int (length bad)"
proof -
  have "ring_holds maxViolations bad (dgRing d', dgNext d') \<and> dgCount d' = int (length bad) \<and> dgOn d'"
    unfolding bad_def d'_def using assms(2)
  proof (induction as rule: rev_induct)
    case Nil
    then show ?case using assms(1) by (simp add: resetViolations_def ring_holds_empty)
  next
    case (snoc a as)
    define D where "D = fold run_assert as (resetViolations d)"
    let ?bad = "map violation_of (filter (\<lambda>a. \<not> asCond a) as)"
    have ih: "ring_holds maxViolations ?bad (dgRing D, dgNext D)" "dgCount D = int (length ?bad)" "dgOn D" using snoc by (auto simp: D_def)
    have next_state: "fold run_assert (as @ [a]) (resetViolations d) = run_assert a D" by (simp add: D_def)
    show ?case
    proof (cases "asCond a")
      case True
      with ih show ?thesis unfolding next_state by (simp add: run_assert_def Assert_def)
    next
      case False
      have "int (length ?bad) + 1 < 2 ^ 63"
        using snoc.prems order.strict_trans1 [OF length_filter_le [of "\<lambda>a. \<not> asCond a" as]] by simp
      note rec = record_holds [OF ih(1,2) this, of "asNow a" "asMsg a" "kvString (asArgs a)" "asHeader a" "asStack a", folded violation_of_def]
      have "run_assert a D = record_violation (asNow a) (asHeader a) (asStack a) (asMsg a) (kvString (asArgs a)) D"
        using False ih(3) by (simp add: run_assert_def Assert_def)
      with rec ih(3) False show ?thesis unfolding next_state by simp
    qed
  qed
  then show ?thesis using ring_latest_holds [of maxViolations bad "(dgRing d', dgNext d')" "dgCount d'"] by (simp add: RecentViolations_def maxViolations_def)
qed

lemma assert_off: "\<not> dgOn d \<Longrightarrow> Assert now h st c msg args d = d"
  by (simp add: Assert_def)

subsection \<open>The debug endpoint\<close>

record Snapshot =
  snEnabled :: bool
  snNumGoroutines :: int
  snViolationCount :: int
  snViolations :: "Violation list"
  snLocks :: "LockStat list"
  snLockOrderIssues :: "(string \<times> string) list"
  snGoroutineDump :: string

text \<open>\<^verbatim>\<open>runtime.Stack\<close> fills the buffer as far as it goes; the text of all stacks may be another at each attempt. The buffer starts at \<open>2 ^ 20\<close> bytes and
  doubles while it is full.\<close>

partial_function (option) dump_loop :: "(nat \<Rightarrow> string) \<Rightarrow> nat \<Rightarrow> string option" where
  "dump_loop stacks k =
     (let len = 2 ^ 20 * 2 ^ k; n = min len (length (stacks k))
      in if n < len then Some (take n (stacks k)) else dump_loop stacks (k + 1))"

definition goroutineDump :: "(nat \<Rightarrow> string) \<Rightarrow> string option" where
  "goroutineDump stacks = dump_loop stacks 0"

definition diag_Report :: "bool \<Rightarrow> int \<Rightarrow> (nat \<Rightarrow> string) \<Rightarrow> DiagState \<Rightarrow> Diag \<Rightarrow> Snapshot option" where
  "diag_Report withStacks goroutines stacks d locks =
     (let s = \<lparr>snEnabled = dgOn d, snNumGoroutines = goroutines, snViolationCount = dgCount d, snViolations = RecentViolations d,
               snLocks = LockStats locks, snLockOrderIssues = LockOrderWarnings locks, snGoroutineDump = []\<rparr>
      in if withStacks then map_option (\<lambda>t. s\<lparr>snGoroutineDump := t\<rparr>) (goroutineDump stacks) else Some s)"

definition diag_Handler :: "string \<Rightarrow> int \<Rightarrow> (nat \<Rightarrow> string) \<Rightarrow> DiagState \<Rightarrow> Diag \<Rightarrow> Snapshot option" where
  "diag_Handler stacksParam goroutines stacks d locks = diag_Report (diag_truthy stacksParam) goroutines stacks d locks"

text \<open>The dump is complete: it is the whole text of the first attempt that leaves room in the buffer, and it returns as soon as there is one.\<close>

lemma dump_from:
  assumes "length (stacks j) < 2 ^ 20 * 2 ^ j" "k \<le> j" "\<forall>i. k \<le> i \<longrightarrow> i < j \<longrightarrow> 2 ^ 20 * 2 ^ i \<le> length (stacks i)"
  shows "dump_loop stacks k = Some (stacks j)"
  using assms(2,3)
proof (induction "j - k" arbitrary: k)
  case 0
  then have "k = j" by simp
  with assms(1) show ?case by (subst dump_loop.simps) (simp add: Let_def)
next
  case (Suc m)
  then have "2 ^ 20 * 2 ^ k \<le> length (stacks k)" "dump_loop stacks (k + 1) = Some (stacks j)" by simp_all
  then show ?case by (subst dump_loop.simps) (simp add: Let_def)
qed

lemma goroutineDump_complete:
  assumes "\<exists>j. length (stacks j) < 2 ^ 20 * 2 ^ j"
  shows "\<exists>j. goroutineDump stacks = Some (stacks j) \<and> length (stacks j) < 2 ^ 20 * 2 ^ j"
proof -
  let ?j = "LEAST j. length (stacks j) < 2 ^ 20 * 2 ^ j"
  have "length (stacks ?j) < 2 ^ 20 * 2 ^ ?j" using assms by (rule LeastI_ex)
  moreover have "2 ^ 20 * 2 ^ i \<le> length (stacks i)" if "i < ?j" for i using not_less_Least [OF that] by simp
  ultimately show ?thesis unfolding goroutineDump_def using dump_from [of stacks ?j 0] by blast
qed

text \<open>The endpoint answers also when diagnostics are off, and reports the latest violations.\<close>

lemma handler_reports:
  "\<not> diag_truthy q \<Longrightarrow> \<exists>s. diag_Handler q g stacks d locks = Some s \<and> snEnabled s = dgOn d \<and> snViolations s = RecentViolations d \<and> snGoroutineDump s = []"
  by (simp add: diag_Handler_def diag_Report_def Let_def)

end
