(* ===== verification/Raft_Node.thy ===== *)
theory Raft_Node
  imports Consensus
begin

section \<open>The Raft node and its network\<close>

text \<open>
  \<^verbatim>\<open>internal/consensus/node.go\<close> and \<^verbatim>\<open>transport.go\<close>: a node's configuration, one turn of its loop for every kind of event, the bounded inbox and
  the in-process network. The Raft library is a parameter: what it hands out as ready, and its storage, of which only \<open>stAppend\<close> (the documented
  append to the in-memory log) and the last hard state and snapshot are kept. Messages are of any type.
\<close>

subsection \<open>Configuration\<close>

record RaftNodeConfig =
  ncID :: nat
  ncHasFSM :: bool
  ncTickInterval :: int
  ncElectionTicks :: int
  ncHeartbeatTicks :: int

definition start_config :: "RaftNodeConfig \<Rightarrow> RaftNodeConfig outcome" where
  "start_config cfg =
     (if ncID cfg = 0 then Err ''consensus: node id must be non-zero''
      else if \<not> ncHasFSM cfg then Err ''consensus: FSM is required''
      else Ok (cfg\<lparr>ncTickInterval := (if ncTickInterval cfg \<le> 0 then 100000000 else ncTickInterval cfg),
                   ncElectionTicks := (if ncElectionTicks cfg \<le> 0 then 10 else ncElectionTicks cfg),
                   ncHeartbeatTicks := (if ncHeartbeatTicks cfg \<le> 0 then 1 else ncHeartbeatTicks cfg)\<rparr>))"

subsection \<open>The loop\<close>

record ('m, 'b, 'h) Ready =
  rdHardState :: "'h option"
  rdEntries :: "'b Entry list"
  rdSnapshot :: "'h option"
  rdMessages :: "'m list"
  rdCommitted :: "'b Entry list"

datatype ('m, 'b, 'h) effect =
    SetHardState 'h
  | Append "'b Entry list"
  | ApplySnapshot 'h
  | Send "'m list"
  | ApplyEntry "'b Entry"
  | Advance
  | TickRaft
  | StepRaft 'm
  | StopRaft

text \<open>What one turn does, in order.\<close>

definition ready_effects :: "('m, 'b, 'h) Ready \<Rightarrow> ('m, 'b, 'h) effect list" where
  "ready_effects rd =
     (case rdHardState rd of None \<Rightarrow> [] | Some h \<Rightarrow> [SetHardState h])
     @ (if rdEntries rd \<noteq> [] then [Append (rdEntries rd)] else [])
     @ (case rdSnapshot rd of None \<Rightarrow> [] | Some sn \<Rightarrow> [ApplySnapshot sn])
     @ [Send (rdMessages rd)] @ map ApplyEntry (rdCommitted rd) @ [Advance]"

datatype ('m, 'b, 'h) event = TickEvent | RecvEvent | ReadyEvent "('m, 'b, 'h) Ready" | StopEvent

record ('m, 's) RaftNode =
  rnNode :: "'s Node"
  rnInbox :: "'m list"
  rnStopped :: bool

definition recv_cap :: nat where
  "recv_cap = 1024"

definition run_turn ::
  "('b list \<Rightarrow> 's \<Rightarrow> 's outcome) \<Rightarrow> ('m, 'b, 'h) event \<Rightarrow> ('m, 's) RaftNode \<Rightarrow> ('m, 's) RaftNode \<times> ('m, 'b, 'h) effect list" where
  "run_turn apply_fsm ev n =
     (if rnStopped n then (n, [])
      else case ev of
        TickEvent \<Rightarrow> (n, [TickRaft])
      | RecvEvent \<Rightarrow> (case rnInbox n of [] \<Rightarrow> (n, []) | m # ms \<Rightarrow> (n\<lparr>rnInbox := ms\<rparr>, [StepRaft m]))
      | ReadyEvent rd \<Rightarrow> (n\<lparr>rnNode := apply_log apply_fsm (rdCommitted rd) (rnNode n)\<rparr>, ready_effects rd)
      | StopEvent \<Rightarrow> (n\<lparr>rnStopped := True\<rparr>, [StopRaft]))"

text \<open>\<^verbatim>\<open>receive\<close> drops a message when the inbox is full.\<close>

definition receive :: "'m \<Rightarrow> ('m, 's) RaftNode \<Rightarrow> ('m, 's) RaftNode" where
  "receive m n = (if length (rnInbox n) < recv_cap then n\<lparr>rnInbox := rnInbox n @ [m]\<rparr> else n)"

subsection \<open>The in-process network\<close>

record ('m, 's) InmemNetwork =
  nwNodes :: "(nat, ('m, 's) RaftNode) gomap"
  nwDown :: "(nat, bool) gomap"

definition NewInmemNetwork :: "('m, 's) InmemNetwork" where
  "NewInmemNetwork = \<lparr>nwNodes = [], nwDown = []\<rparr>"

definition add :: "nat \<Rightarrow> ('m, 's) RaftNode \<Rightarrow> ('m, 's) InmemNetwork \<Rightarrow> ('m, 's) InmemNetwork" where
  "add nid n nw = nw\<lparr>nwNodes := AList.update nid n (nwNodes nw)\<rparr>"

definition SetDown :: "nat \<Rightarrow> bool \<Rightarrow> ('m, 's) InmemNetwork \<Rightarrow> ('m, 's) InmemNetwork" where
  "SetDown nid down nw = nw\<lparr>nwDown := AList.update nid down (nwDown nw)\<rparr>"

definition deliver :: "('m \<Rightarrow> nat option) \<Rightarrow> 'm \<Rightarrow> ('m, 's) InmemNetwork \<Rightarrow> ('m, 's) InmemNetwork" where
  "deliver to m nw =
     (case to m of
        None \<Rightarrow> nw
      | Some t \<Rightarrow>
          if lookup0 False (nwDown nw) t then nw
          else (case map_of (nwNodes nw) t of None \<Rightarrow> nw | Some n \<Rightarrow> nw\<lparr>nwNodes := AList.update t (receive m n) (nwNodes nw)\<rparr>))"

definition route :: "('m \<Rightarrow> nat option) \<Rightarrow> nat \<Rightarrow> 'm list \<Rightarrow> ('m, 's) InmemNetwork \<Rightarrow> ('m, 's) InmemNetwork" where
  "route to frm msgs nw = (if lookup0 False (nwDown nw) frm then nw else fold (deliver to) msgs nw)"

subsection \<open>The gRPC transport\<close>

text \<open>
  \<^verbatim>\<open>raftgrpc/transport.go\<close> and \<^verbatim>\<open>server.go\<close>: a bounded queue per peer, drained by its own goroutine, which dials on demand and drops its
  connection after a failed delivery. Marshalling is a parameter.
\<close>

record peerConn =
  pcAddr :: string
  pcQueue :: "byte list list"
  pcConnected :: bool

record GrpcTransport =
  gtFrom :: nat
  gtPeers :: "(nat, peerConn) gomap"
  gtStopped :: bool

definition peerQueue :: nat where
  "peerQueue = 1024"

definition NewTransport :: "nat \<Rightarrow> (nat, string) gomap \<Rightarrow> GrpcTransport" where
  "NewTransport frm peers =
     \<lparr>gtFrom = frm, gtPeers = map (\<lambda>(i, a). (i, \<lparr>pcAddr = a, pcQueue = [], pcConnected = False\<rparr>)) (filter (\<lambda>(i, a). i \<noteq> frm) peers), gtStopped = False\<rparr>"

definition send_one :: "('m \<Rightarrow> nat option) \<Rightarrow> ('m \<Rightarrow> byte list option) \<Rightarrow> 'm \<Rightarrow> GrpcTransport \<Rightarrow> GrpcTransport" where
  "send_one to marshal m t =
     (case to m of
        None \<Rightarrow> t
      | Some i \<Rightarrow>
          (case map_of (gtPeers t) i of
             None \<Rightarrow> t
           | Some pc \<Rightarrow>
               (case marshal m of
                  None \<Rightarrow> t
                | Some data \<Rightarrow>
                    if length (pcQueue pc) < peerQueue
                    then t\<lparr>gtPeers := AList.update i (pc\<lparr>pcQueue := pcQueue pc @ [data]\<rparr>) (gtPeers t)\<rparr>
                    else t)))"

definition Send_grpc :: "('m \<Rightarrow> nat option) \<Rightarrow> ('m \<Rightarrow> byte list option) \<Rightarrow> 'm list \<Rightarrow> GrpcTransport \<Rightarrow> GrpcTransport" where
  "Send_grpc to marshal msgs t = fold (send_one to marshal) msgs t"

definition Close_grpc :: "GrpcTransport \<Rightarrow> GrpcTransport" where
  "Close_grpc t = t\<lparr>gtStopped := True\<rparr>"

text \<open>One turn of the goroutine of a peer: the connection after it and the bytes handed to the peer, if any. A message is lost when the dial fails.\<close>

definition send_turn :: "bool \<Rightarrow> bool \<Rightarrow> bool \<Rightarrow> peerConn \<Rightarrow> peerConn \<times> byte list option" where
  "send_turn stopped dial_ok step_ok pc =
     (if stopped then (pc, None)
      else case pcQueue pc of
        [] \<Rightarrow> (pc, None)
      | data # rest \<Rightarrow>
          if \<not> pcConnected pc \<and> \<not> dial_ok then (pc\<lparr>pcQueue := rest\<rparr>, None)
          else (pc\<lparr>pcQueue := rest, pcConnected := step_ok\<rparr>, Some data))"

definition Step_server :: "(byte list \<Rightarrow> 'm outcome) \<Rightarrow> byte list \<Rightarrow> ('m, 's) RaftNode \<Rightarrow> ('m, 's) RaftNode \<times> string option" where
  "Step_server unmarshal data n =
     (case unmarshal data of Ok m \<Rightarrow> (receive m n, None) | Err e \<Rightarrow> (n, Some e) | Panic \<Rightarrow> (n, Some ''panic''))"

subsection \<open>Lemmas\<close>

text \<open>What a ready stores is stored before its messages leave, and entries are applied after.\<close>

lemma stored_before_sent:
  fixes rd :: "('m, 'b, 'h) Ready"
  assumes "ready_effects rd = xs @ Send ms # ys"
  shows "(\<forall>h. rdHardState rd = Some h \<longrightarrow> SetHardState h \<in> set xs) \<and> (rdEntries rd \<noteq> [] \<longrightarrow> Append (rdEntries rd) \<in> set xs)
    \<and> (\<forall>e \<in> set xs. \<forall>ent. e \<noteq> ApplyEntry ent) \<and> ms = rdMessages rd"
proof -
  let ?pre = "(case rdHardState rd of None \<Rightarrow> [] | Some h \<Rightarrow> [SetHardState h]) @ (if rdEntries rd \<noteq> [] then [Append (rdEntries rd)] else [])
     @ (case rdSnapshot rd of None \<Rightarrow> [] | Some sn \<Rightarrow> [ApplySnapshot sn])"
  let ?post = "map ApplyEntry (rdCommitted rd) @ [Advance] :: ('m, 'b, 'h) effect list"
  have no: "\<forall>e \<in> set ?pre \<union> set ?post. \<forall>m. e \<noteq> Send m" by (auto split: option.splits)
  have eq: "?pre @ Send (rdMessages rd) # ?post = xs @ Send ms # ys" using assms by (simp add: ready_effects_def)
  have "xs = ?pre \<and> ms = rdMessages rd"
  proof -
    have "takeWhile (\<lambda>e. \<forall>m. e \<noteq> Send m) (?pre @ Send (rdMessages rd) # ?post) = ?pre" using no by (subst takeWhile_append2) auto
    moreover obtain zs where "takeWhile (\<lambda>e. \<forall>m. e \<noteq> Send m) (xs @ Send ms # ys) = zs" "zs = takeWhile (\<lambda>e. \<forall>m. e \<noteq> Send m) xs"
      by (metis (mono_tags, lifting) takeWhile.simps(2) takeWhile_append append_Nil2 takeWhile_eq_all_conv)
    ultimately have pre: "?pre = takeWhile (\<lambda>e. \<forall>m. e \<noteq> Send m) xs" using eq by simp
    show ?thesis
    proof (cases "\<forall>e \<in> set xs. \<forall>m. e \<noteq> Send m")
      case True
      then have "takeWhile (\<lambda>e. \<forall>m. e \<noteq> Send m) xs = xs" by (simp add: takeWhile_eq_all_conv)
      with pre eq show ?thesis by simp
    next
      case False
      then obtain us m vs where xs: "xs = us @ Send m # vs" "\<forall>e \<in> set us. \<forall>m. e \<noteq> Send m" using split_list_first_prop [of xs "\<lambda>e. \<exists>m. e = Send m"] by metis
      then have "?pre = us" using pre by simp
      with eq xs(1) have "vs @ Send ms # ys = ?post" by simp
      then have "Send ms \<in> set ?post" by (metis in_set_conv_decomp)
      with no show ?thesis by blast
    qed
  qed
  then show ?thesis by (auto split: option.splits)
qed

text \<open>A node's machine is the fold over all entries handed to it, whatever the batches and the events between them.\<close>

fun committed_of :: "('m, 'b, 'h) event list \<Rightarrow> 'b Entry list" where
  "committed_of [] = []"
| "committed_of (ReadyEvent rd # es) = rdCommitted rd @ committed_of es"
| "committed_of (StopEvent # es) = []"
| "committed_of (_ # es) = committed_of es"

lemma apply_log_append: "apply_log f (xs @ ys) n = apply_log f ys (apply_log f xs n)"
  by (simp add: apply_log_def)

lemma run_stopped: "rnStopped n \<Longrightarrow> fold (\<lambda>e n. fst (run_turn f e n)) es n = n"
  by (induction es) (simp_all add: run_turn_def)

lemma run_applies_committed:
  "\<not> rnStopped n \<Longrightarrow> rnNode (fold (\<lambda>e n. fst (run_turn f e n)) es n) = apply_log f (committed_of es) (rnNode n)"
proof (induction es arbitrary: n)
  case Nil
  then show ?case by (simp add: apply_log_def)
next
  case (Cons e es)
  show ?case
  proof (cases e)
    case TickEvent
    with Cons show ?thesis by (simp add: run_turn_def)
  next
    case RecvEvent
    with Cons show ?thesis by (cases "rnInbox n") (simp_all add: run_turn_def)
  next
    case (ReadyEvent rd)
    with Cons show ?thesis by (simp add: run_turn_def apply_log_append)
  next
    case StopEvent
    then have "fst (run_turn f e n) = n\<lparr>rnStopped := True\<rparr>" using Cons.prems by (simp add: run_turn_def)
    with StopEvent show ?thesis using run_stopped [of "n\<lparr>rnStopped := True\<rparr>" f es] by (simp add: apply_log_def)
  qed
qed

lemma receive_bounded: "length (rnInbox n) \<le> recv_cap \<Longrightarrow> length (rnInbox (receive m n)) \<le> recv_cap"
  by (simp add: receive_def)

lemma route_partition: "lookup0 False (nwDown nw) frm \<Longrightarrow> route to frm msgs nw = nw"
  by (simp add: route_def)

lemma deliver_down: "nwDown (deliver to m nw) = nwDown nw"
  by (simp add: deliver_def split: option.split)

text \<open>A partitioned node receives nothing.\<close>

lemma route_isolated:
  assumes "lookup0 False (nwDown nw) t"
  shows "map_of (nwNodes (route to frm msgs nw)) t = map_of (nwNodes nw) t"
proof -
  have iso: "map_of (nwNodes (fold (deliver to) msgs w)) t = map_of (nwNodes w) t" if "lookup0 False (nwDown w) t" for w
    using that
  proof (induction msgs arbitrary: w)
    case (Cons m msgs)
    have "map_of (nwNodes (deliver to m w)) t = map_of (nwNodes w) t"
      using Cons.prems by (auto simp: deliver_def map_of_update_apply split: option.split)
    with Cons show ?case by (simp add: deliver_down)
  qed simp
  show ?thesis using iso [OF assms] by (simp add: route_def)
qed

text \<open>Queues stay bounded, and what one peer is sent does not depend on the others.\<close>

lemma send_one_queue:
  "map_option pcQueue (map_of (gtPeers (send_one to marshal m t)) i)
   = map_option (\<lambda>pc. pcQueue pc @ (if to m = Some i \<and> length (pcQueue pc) < peerQueue then (case marshal m of None \<Rightarrow> [] | Some d \<Rightarrow> [d]) else []))
       (map_of (gtPeers t) i)"
  by (cases "map_of (gtPeers t) i") (auto simp: send_one_def map_of_update_apply split: option.split)

lemma Send_grpc_queue:
  fixes to :: "'m \<Rightarrow> nat option" and marshal :: "'m \<Rightarrow> byte list option" and msgs :: "'m list"
  assumes "map_of (gtPeers t) i = Some pc" "length (pcQueue pc) \<le> peerQueue"
  defines "mine \<equiv> List.map_filter marshal (filter (\<lambda>m. to m = Some i) msgs)"
  shows "map_option pcQueue (map_of (gtPeers (Send_grpc to marshal msgs t)) i) = Some (pcQueue pc @ take (peerQueue - length (pcQueue pc)) mine)"
  unfolding mine_def Send_grpc_def using assms(1,2)
proof (induction msgs arbitrary: t pc)
  case (Cons m msgs)
  let ?q = "pcQueue pc @ (if to m = Some i \<and> length (pcQueue pc) < peerQueue then (case marshal m of None \<Rightarrow> [] | Some d \<Rightarrow> [d]) else [])"
  obtain pc' where pc': "map_of (gtPeers (send_one to marshal m t)) i = Some pc'" "pcQueue pc' = ?q"
    using send_one_queue [of to marshal m t i] Cons.prems(1) by (auto simp: map_option_case split: option.splits)
  then have "length (pcQueue pc') \<le> peerQueue" using Cons.prems(2) by (auto split: option.splits)
  from Cons.IH [OF pc'(1) this] pc'(2) show ?case
    by (cases "marshal m") (auto simp: List.map_filter_simps take_Cons' split: if_splits)
qed (simp add: List.map_filter_simps)

text \<open>The bytes a peer is handed leave its queue in order.\<close>

lemma send_turn_order:
  "send_turn stopped dial_ok step_ok pc = (pc', Some data) \<Longrightarrow> pcQueue pc = data # pcQueue pc' \<and> \<not> stopped"
  by (auto simp: send_turn_def split: list.splits if_splits)

subsection \<open>Start and stop of a node\<close>

text \<open>What the library is started with: a leader that loses its majority steps down, and a node that was cut off asks before it starts an election.\<close>

record library_config =
  lcID :: nat
  lcElectionTick :: int
  lcHeartbeatTick :: int
  lcMaxSizePerMsg :: nat
  lcMaxInflightMsgs :: nat
  lcPreVote :: bool
  lcCheckQuorum :: bool
  lcPeers :: "nat list"

definition library_config_of :: "RaftNodeConfig \<Rightarrow> nat list \<Rightarrow> library_config" where
  "library_config_of cfg peers =
     \<lparr>lcID = ncID cfg, lcElectionTick = ncElectionTicks cfg, lcHeartbeatTick = ncHeartbeatTicks cfg, lcMaxSizePerMsg = 2 ^ 20, lcMaxInflightMsgs = 256,
      lcPreVote = True, lcCheckQuorum = True, lcPeers = peers\<rparr>"

definition Start_node ::
  "RaftNodeConfig \<Rightarrow> nat list \<Rightarrow> 's Node \<Rightarrow> ('m, 's) InmemNetwork option
    \<Rightarrow> (('m, 's) RaftNode \<times> library_config \<times> ('m, 's) InmemNetwork option) outcome" where
  "Start_node cfg peers nd net =
     (case start_config cfg of
        Err e \<Rightarrow> Err e
      | Panic \<Rightarrow> Panic
      | Ok cfg \<Rightarrow>
          (let n = \<lparr>rnNode = nd, rnInbox = [], rnStopped = False\<rparr>
           in Ok (n, library_config_of cfg peers, map_option (add (ncID cfg) n) net)))"

text \<open>\<^verbatim>\<open>Stop\<close> of several callers: each looks at the channel, closes it if it was open, and waits for the loop, which ends once the channel is closed. Closing a closed
  channel panics.\<close>

datatype stop_pc = StopCheck | StopClose | StopWait | StopDone | StopPanic

record stop_state =
  soClosed :: bool
  soLoopDone :: bool
  soCallers :: "stop_pc list"

inductive stop_step :: "stop_state \<Rightarrow> stop_state \<Rightarrow> bool" where
  stop_check: "i < length (soCallers s) \<Longrightarrow> soCallers s ! i = StopCheck \<Longrightarrow>
    stop_step s (s\<lparr>soCallers := (soCallers s)[i := if soClosed s then StopWait else StopClose]\<rparr>)"
| stop_close: "i < length (soCallers s) \<Longrightarrow> soCallers s ! i = StopClose \<Longrightarrow>
    stop_step s (s\<lparr>soClosed := True, soCallers := (soCallers s)[i := if soClosed s then StopPanic else StopWait]\<rparr>)"
| stop_loop: "soClosed s \<Longrightarrow> \<not> soLoopDone s \<Longrightarrow> stop_step s (s\<lparr>soLoopDone := True\<rparr>)"
| stop_wait: "i < length (soCallers s) \<Longrightarrow> soCallers s ! i = StopWait \<Longrightarrow> soLoopDone s \<Longrightarrow> stop_step s (s\<lparr>soCallers := (soCallers s)[i := StopDone]\<rparr>)"

definition stop_start :: "nat \<Rightarrow> stop_state" where
  "stop_start n = \<lparr>soClosed = False, soLoopDone = False, soCallers = replicate n StopCheck\<rparr>"

text \<open>The checked library configuration never disables an election or a heartbeat.\<close>

lemma Start_node_config:
  assumes "Start_node cfg peers nd net = Ok (n, lc, net')"
  shows "lcID lc \<noteq> 0 \<and> lcElectionTick lc > 0 \<and> lcHeartbeatTick lc > 0 \<and> lcPreVote lc \<and> lcCheckQuorum lc \<and> rnInbox n = [] \<and> \<not> rnStopped n"
  using assms by (auto simp: Start_node_def start_config_def library_config_of_def Let_def split: if_splits)

text \<open>One caller never panics, and when nothing can move it has returned and the loop has ended.\<close>

lemma single_stop_safe:
  assumes "stop_step\<^sup>*\<^sup>* (stop_start 1) s"
  shows "(soCallers s \<in> {[StopCheck], [StopClose]} \<and> \<not> soClosed s \<and> \<not> soLoopDone s) \<or> (soCallers s = [StopWait] \<and> soClosed s) \<or> (soCallers s = [StopDone] \<and> soClosed s \<and> soLoopDone s)"
  using assms
proof (induction rule: rtranclp_induct)
  case base
  then show ?case by (simp add: stop_start_def)
next
  case (step s s')
  from step(2) step.IH show ?case by cases auto
qed

lemma single_stop_returns:
  assumes "stop_step\<^sup>*\<^sup>* (stop_start 1) s" "\<nexists>s'. stop_step s s'"
  shows "soCallers s = [StopDone] \<and> soLoopDone s"
proof -
  from single_stop_safe [OF assms(1)] consider "soCallers s = [StopCheck]" | "soCallers s = [StopClose]" | "soCallers s = [StopWait]" "soClosed s" | "soCallers s = [StopDone]" "soLoopDone s" by auto
  then show ?thesis
  proof cases
    case 1
    with stop_check [of 0 s] assms(2) show ?thesis by auto
  next
    case 2
    with stop_close [of 0 s] assms(2) show ?thesis by auto
  next
    case 3
    with stop_loop [of s] stop_wait [of 0 s] assms(2) show ?thesis by auto
  qed simp
qed

text \<open>Two callers at once can both see the channel open, and the second close panics.\<close>

lemma double_stop_panics: "\<exists>s. stop_step\<^sup>*\<^sup>* (stop_start 2) s \<and> StopPanic \<in> set (soCallers s)"
proof -
  let ?a = "stop_start 2"
  let ?b = "?a\<lparr>soCallers := [StopClose, StopCheck]\<rparr>"
  let ?c = "?a\<lparr>soCallers := [StopClose, StopClose]\<rparr>"
  let ?d = "?c\<lparr>soClosed := True, soCallers := [StopWait, StopClose]\<rparr>"
  let ?e = "?d\<lparr>soCallers := [StopWait, StopPanic]\<rparr>"
  have "stop_step ?a ?b" using stop_check [of 0 ?a] by (simp add: stop_start_def numeral_2_eq_2)
  moreover have "stop_step ?b ?c" using stop_check [of 1 ?b] by (simp add: stop_start_def)
  moreover have "stop_step ?c ?d" using stop_close [of 0 ?c] by (simp add: stop_start_def)
  moreover have "stop_step ?d ?e" using stop_close [of 1 ?d] by (simp add: stop_start_def)
  ultimately have "stop_step\<^sup>*\<^sup>* ?a ?e" by (meson converse_rtranclp_into_rtranclp rtranclp.rtrancl_refl)
  then show ?thesis by (intro exI [of _ ?e]) simp
qed

end
