(* ===== verification/Config.thy ===== *)
theory Config
  imports Ingest Multipart Tiering Rpc
begin

section \<open>Configuration and what the commands make of it\<close>

text \<open>
  \<^verbatim>\<open>internal/config/config.go\<close> with its defaults, and the decisions the commands take from a configuration: the ingestion pipeline of
  \<^verbatim>\<open>cmd/ingest/main.go\<close>, the gRPC server and the peers of the Raft node of \<^verbatim>\<open>cmd/coordinator/main.go\<close>, the overrides of \<^verbatim>\<open>cmd/worker/main.go\<close>.
  Durations are in nanoseconds. The YAML decoder is a parameter: it is given the defaults and returns what the file makes of them.
\<close>

subsection \<open>Sections\<close>

record StorageConfig =
  scEndpoint :: string
  scRegion :: string
  scBucket :: string
  scAccessKeyID :: string
  scSecretAccessKey :: string
  scUsePathStyle :: bool
  scMultipartThreshold :: int
  scMultipartChunkSize :: int
  scMultipartConcurrency :: int

record MetadataConfig =
  mcDBPath :: string

record RaftPeer =
  rpID :: nat
  rpAddress :: string

record RaftConfig =
  rcID :: nat
  rcPort :: int
  rcPeers :: "RaftPeer list"

definition Enabled :: "RaftConfig \<Rightarrow> bool" where
  "Enabled r \<longleftrightarrow> rcID r > 0 \<and> rcPeers r \<noteq> []"

record CoordinatorConfig =
  ccHost :: string
  ccPort :: int
  ccSuspectTimeout :: int
  ccDeadTimeout :: int
  ccHeartbeatInterval :: int
  ccDispatchInterval :: int
  ccVnodesPerNode :: int
  ccTaskMaxRetries :: int
  ccLeaseChunk :: int
  ccWALDir :: string
  ccCheckpointInterval :: int
  ccMaxInFlightJobs :: int
  ccRaft :: RaftConfig
  ccGRPCPort :: int
  ccJWTSecret :: string
  ccRateLimitPerSec :: real
  ccRateLimitBurst :: int

record WorkerConfig =
  wcID :: string
  wcCoordinatorURL :: string
  wcHost :: string
  wcPort :: int
  wcConcurrency :: int
  wcPollInterval :: int
  wcHeartbeatInterval :: int

record SearchConfig =
  shIndexKey :: string
  shEncoderURL :: string

record ServerConfig =
  svHost :: string
  svPort :: int
  svMetadataDBPath :: string
  svRegistryDBPath :: string
  svSearch :: SearchConfig

record IngestionConfig =
  icWorkers :: int
  icBatchSize :: int
  icMaxFileSizeMB :: int

record TieringConfig =
  tcHotDaysThreshold :: int
  tcWarmDaysThreshold :: int
  tcColdDaysThreshold :: int

record MetricsConfig =
  mtEnabled :: bool
  mtPort :: int
  mtPath :: string

record OperatorConfig =
  ocNamespace :: string
  ocWorkerImage :: string
  ocCoordinatorURL :: string
  ocPollInterval :: int
  ocMaxJobsPerCycle :: int
  ocRayDashboardURL :: string
  ocKubeconfigPath :: string

record LoggingConfig =
  lcLevel :: string
  lcFormat :: string

record Config =
  cfStorage :: StorageConfig
  cfMetadata :: MetadataConfig
  cfCoordinator :: CoordinatorConfig
  cfWorker :: WorkerConfig
  cfOperator :: OperatorConfig
  cfServer :: ServerConfig
  cfIngestion :: IngestionConfig
  cfTiering :: TieringConfig
  cfMetrics :: MetricsConfig
  cfLogging :: LoggingConfig

subsection \<open>Defaults and loading\<close>

abbreviation second :: int where
  "second \<equiv> 1000000000"

definition DefaultConfig :: Config where
  "DefaultConfig =
     \<lparr>cfStorage = \<lparr>scEndpoint = ''http://localhost:9000'', scRegion = ''us-east-1'', scBucket = ''petabyte-images'',
        scAccessKeyID = ''minioadmin'', scSecretAccessKey = ''minioadmin'', scUsePathStyle = True,
        scMultipartThreshold = 100 * 1024 * 1024, scMultipartChunkSize = 64 * 1024 * 1024, scMultipartConcurrency = 8\<rparr>,
      cfMetadata = \<lparr>mcDBPath = ''./metadata.db''\<rparr>,
      cfCoordinator = \<lparr>ccHost = ''0.0.0.0'', ccPort = 8090, ccSuspectTimeout = 10 * second, ccDeadTimeout = 20 * second,
        ccHeartbeatInterval = 5 * second, ccDispatchInterval = 1 * second, ccVnodesPerNode = 150, ccTaskMaxRetries = 3, ccLeaseChunk = 0,
        ccWALDir = ''./coordinator-wal'', ccCheckpointInterval = 30 * second, ccMaxInFlightJobs = 0,
        ccRaft = \<lparr>rcID = 0, rcPort = 0, rcPeers = []\<rparr>, ccGRPCPort = 0, ccJWTSecret = [], ccRateLimitPerSec = 50, ccRateLimitBurst = 100\<rparr>,
      cfWorker = \<lparr>wcID = [], wcCoordinatorURL = ''http://localhost:8090'', wcHost = ''0.0.0.0'', wcPort = 9001, wcConcurrency = 4,
        wcPollInterval = 2 * second, wcHeartbeatInterval = 5 * second\<rparr>,
      cfOperator = \<lparr>ocNamespace = ''petabyte'', ocWorkerImage = ''petabyte-worker:latest'', ocCoordinatorURL = ''http://coordinator:8090'',
        ocPollInterval = 5 * second, ocMaxJobsPerCycle = 10, ocRayDashboardURL = [], ocKubeconfigPath = []\<rparr>,
      cfServer = \<lparr>svHost = ''0.0.0.0'', svPort = 8080, svMetadataDBPath = ''./metadata.db'', svRegistryDBPath = ''./registry.db'',
        svSearch = \<lparr>shIndexKey = [], shEncoderURL = []\<rparr>\<rparr>,
      cfIngestion = \<lparr>icWorkers = 16, icBatchSize = 100, icMaxFileSizeMB = 500\<rparr>,
      cfTiering = \<lparr>tcHotDaysThreshold = 30, tcWarmDaysThreshold = 90, tcColdDaysThreshold = 365\<rparr>,
      cfMetrics = \<lparr>mtEnabled = True, mtPort = 9090, mtPath = ''/metrics''\<rparr>,
      cfLogging = \<lparr>lcLevel = ''info'', lcFormat = ''text''\<rparr>\<rparr>"

datatype read_file = FileData "byte list" | FileMissing | FileError string

definition Load :: "(byte list \<Rightarrow> Config \<Rightarrow> Config outcome) \<Rightarrow> read_file \<Rightarrow> Config outcome" where
  "Load yaml f =
     (case f of
        FileMissing \<Rightarrow> Ok DefaultConfig
      | FileError e \<Rightarrow> Err (''read config: '' @ e)
      | FileData d \<Rightarrow> (case yaml d DefaultConfig of Ok c \<Rightarrow> Ok c | Err e \<Rightarrow> Err (''parse config: '' @ e) | Panic \<Rightarrow> Panic))"

subsection \<open>What the commands build\<close>

text \<open>The channels of \<^verbatim>\<open>IngestDir\<close> cannot be made for a negative number of workers.\<close>

definition ingest_pipeline :: "Config \<Rightarrow> Pipeline outcome" where
  "ingest_pipeline cfg =
     (if icWorkers (cfIngestion cfg) < 0 then Panic
      else Ok (WithBatchSize (icBatchSize (cfIngestion cfg))
             (WithMultipart (scMultipartThreshold (cfStorage cfg)) (scMultipartChunkSize (cfStorage cfg)) (scMultipartConcurrency (cfStorage cfg))
               (NewPipeline (nat (icWorkers (cfIngestion cfg)))))))"

fun trim_left :: "string \<Rightarrow> string" where
  "trim_left [] = []"
| "trim_left (c # s) = (if c \<in> {CHR '' '', CHR 0x09, CHR 0x0A, CHR 0x0B, CHR 0x0C, CHR 0x0D} then trim_left s else c # s)"

definition TrimSpace :: "string \<Rightarrow> string" where
  "TrimSpace s = rev (trim_left (rev (trim_left s)))"

definition tag_list :: "string \<Rightarrow> string list" where
  "tag_list labels = (if labels = [] then [] else filter (\<lambda>t. t \<noteq> []) (map TrimSpace (split_on (CHR '','') labels)))"

definition startGRPC :: "string option \<Rightarrow> Config \<Rightarrow> AuthInterceptor option outcome" where
  "startGRPC listen_error cfg =
     (let cc = cfCoordinator cfg in
      if ccGRPCPort cc \<le> 0 then Ok None
      else if ccJWTSecret cc = [] then Err ''grpc_port set but jwt_secret is empty; refusing to serve an unauthenticated API''
      else case listen_error of
        Some e \<Rightarrow> Err (''listen grpc '' @ ccHost cc @ '':'' @ fmt_d (ccGRPCPort cc) @ '': '' @ e)
      | None \<Rightarrow> Ok (Some (NewAuthInterceptor (NewVerifier (bytes_of (ccJWTSecret cc)) (30 * second)) DefaultPolicy
                            (Some (Quota.New (ccRateLimitPerSec cc) (ccRateLimitBurst cc))))))"

definition raft_peers :: "RaftConfig \<Rightarrow> (nat, string) gomap \<times> nat list" where
  "raft_peers rc = fold (\<lambda>p (peers, ids). (AList.update (rpID p) (rpAddress p) peers, ids @ [rpID p])) (rcPeers rc) ([], [])"

definition worker_overrides :: "string \<Rightarrow> int \<Rightarrow> string \<Rightarrow> Config \<Rightarrow> Config" where
  "worker_overrides wid port url cfg =
     cfg\<lparr>cfWorker := (cfWorker cfg)\<lparr>wcID := (if wid \<noteq> [] then wid else wcID (cfWorker cfg)),
                                    wcPort := (if port > 0 then port else wcPort (cfWorker cfg)),
                                    wcCoordinatorURL := (if url \<noteq> [] then url else wcCoordinatorURL (cfWorker cfg))\<rparr>\<rparr>"

subsection \<open>Lemmas\<close>

lemma length_chunks: "0 < n \<Longrightarrow> length (chunks n xs) = (length xs + n - 1) div n"
proof (induction n xs rule: chunks.induct)
  case (1 n xs)
  show ?case
  proof (cases "xs = []")
    case True
    with 1(2) show ?thesis by simp
  next
    case False
    with 1 have "length (chunks n xs) = Suc ((length xs - n + n - 1) div n)" by (simp add: chunks_step)
    also have "\<dots> = (length xs + n - 1) div n"
    proof (cases "length xs \<le> n")
      case True
      with False 1(2) have "(length xs + n - 1) div n = 1" by (cases xs) (auto intro: div_nat_eqI)
      with True 1(2) show ?thesis by simp
    next
      case large: False
      then have "length xs + n - 1 = (length xs - n + n - 1) + n" using 1(2) by simp
      with 1(2) show ?thesis by (metis div_add_self2 less_nat_zero_code Suc_eq_plus1)
    qed
    finally show ?thesis .
  qed
qed

text \<open>
  With the default settings an upload has as many parts as its goroutines can finish exactly up to 1.5 GiB; the limit of 500 MB, which nothing
  reads, would keep every file below that.
\<close>

lemma default_upload_limit:
  assumes "ingest_pipeline DefaultConfig = Ok p"
  shows "length (chunks (nat (ppChunkSize p)) xs) \<le> 3 * nat (ppConcurrency p) \<longleftrightarrow> length xs \<le> 1536 * 1024 * 1024"
    and "int (length xs) \<le> icMaxFileSizeMB (cfIngestion DefaultConfig) * 1024 * 1024 \<Longrightarrow> length (chunks (nat (ppChunkSize p)) xs) \<le> 3 * nat (ppConcurrency p)"
proof -
  have p: "ppChunkSize p = 67108864" "ppConcurrency p = 8"
    using assms by (auto simp: ingest_pipeline_def DefaultConfig_def WithBatchSize_def WithMultipart_def NewPipeline_def)
  have "(length xs + 67108864 - 1) div 67108864 \<le> 24 \<longleftrightarrow> length xs \<le> 1610612736" by linarith
  with p show iff: "length (chunks (nat (ppChunkSize p)) xs) \<le> 3 * nat (ppConcurrency p) \<longleftrightarrow> length xs \<le> 1536 * 1024 * 1024"
    by (simp add: length_chunks)
  show "length (chunks (nat (ppChunkSize p)) xs) \<le> 3 * nat (ppConcurrency p)"
    if "int (length xs) \<le> icMaxFileSizeMB (cfIngestion DefaultConfig) * 1024 * 1024"
    using that unfolding iff by (simp add: DefaultConfig_def)
qed

text \<open>A gRPC server is never started without a secret, and always checks permissions and rates.\<close>

lemma grpc_never_open:
  assumes "startGRPC le cfg = Ok (Some ic)"
  shows "ccJWTSecret (cfCoordinator cfg) \<noteq> [] \<and> vfSecret (icVerifier ic) = bytes_of (ccJWTSecret (cfCoordinator cfg))
     \<and> icPolicy ic = DefaultPolicy \<and> icLimiter ic \<noteq> None"
  using assms by (auto simp: startGRPC_def Let_def NewAuthInterceptor_def NewVerifier_def split: if_splits option.splits)

lemma grpc_off_by_default: "Load yaml FileMissing = Ok cfg \<Longrightarrow> startGRPC le cfg = Ok None \<and> \<not> Enabled (ccRaft (cfCoordinator cfg))"
  by (auto simp: Load_def startGRPC_def DefaultConfig_def Enabled_def)

text \<open>The identifiers keep their order and repetitions; of two peers with one identifier the last address counts.\<close>

lemma raft_peers_spec:
  "snd (raft_peers rc) = map rpID (rcPeers rc)
   \<and> map_of (fst (raft_peers rc)) i = map_of (rev (map (\<lambda>p. (rpID p, rpAddress p)) (rcPeers rc))) i"
proof -
  let ?f = "\<lambda>(p :: RaftPeer) (peers, ids). (AList.update (rpID p) (rpAddress p) peers, ids @ [rpID p])"
  have "snd (fold ?f ps a) = snd a @ map rpID ps
    \<and> map_of (fst (fold ?f ps a)) i = (map_of (fst a) ++ map_of (rev (map (\<lambda>p. (rpID p, rpAddress p)) ps))) i" for ps :: "RaftPeer list" and a
    by (induction ps arbitrary: a) (auto simp: map_add_def update_conv' split: option.splits prod.splits)
  then show ?thesis by (simp add: raft_peers_def)
qed

text \<open>With the default timeouts a node that misses a single heartbeat is not suspected.\<close>

lemma default_detector_is_patient:
  fixes cc :: CoordinatorConfig
  assumes "cc = cfCoordinator DefaultConfig" "distinct (map fst (mnodes m))" "suspectTimeout m = ccSuspectTimeout cc"
    and "map_of (mnodes m) k = Some n" "nState n = NodeActive" "now - nLastSeen n \<le> 2 * ccHeartbeatInterval cc"
  shows "map_of (mnodes (Tick now m)) k = Some n"
  using assms by (simp add: Tick_lookup tick_state_def DefaultConfig_def)

lemma tags_not_empty: "[] \<notin> set (tag_list s)"
  by (simp add: tag_list_def)

end
