(* ===== verification/Sandbox.thy ===== *)
theory Sandbox
  imports Package Storage
begin

section \<open>Running an algorithm in the sandbox\<close>

text \<open>
  \<^verbatim>\<open>internal/sandbox/executor.go\<close> and \<^verbatim>\<open>runner.go\<close>, and the limits of \<^verbatim>\<open>cmd/sandbox-runner/main.go\<close>: the arguments of the container, its
  result, and one task from the staging of its shard to the upload of its artifacts. The container runtime, the file system of the pod and the
  answers of the store are arguments; so are the JSON of the input manifest and the shortest decimal of a float. The environment of a
  container is listed in the order in which Go visits the map.
\<close>

subsection \<open>Limits and the docker command\<close>

record ResourceLimits =
  rlCPUCores :: real
  rlMemoryBytes :: int
  rlGPUCount :: int
  rlDiskBytes :: int
  rlNetworkMode :: string
  rlTimeoutSec :: int

definition LimitsFromManifest :: "Manifest \<Rightarrow> ResourceLimits" where
  "LimitsFromManifest m =
     \<lparr>rlCPUCores = of_int (max 1 (go_div (mfMemoryGB m) 8)), rlMemoryBytes = i64 (mfMemoryGB m * 2 ^ 30), rlGPUCount = mfGPUCount m,
      rlDiskBytes = 10 * 2 ^ 30, rlNetworkMode = ''none'', rlTimeoutSec = mfTimeoutSec m\<rparr>"

text \<open>The parsed environment variables are arguments, \<open>None\<close> when unset or not a number.\<close>

definition limitsFromEnv :: "real option \<Rightarrow> int option \<Rightarrow> int option \<Rightarrow> int option \<Rightarrow> ResourceLimits" where
  "limitsFromEnv cpu mem gpu timeout =
     \<lparr>rlCPUCores = (case cpu of Some c \<Rightarrow> c | None \<Rightarrow> 1), rlMemoryBytes = i64 ((case mem of Some m \<Rightarrow> m | None \<Rightarrow> 2) * 2 ^ 30),
      rlGPUCount = (case gpu of Some g \<Rightarrow> g | None \<Rightarrow> 0), rlDiskBytes = 10 * 2 ^ 30, rlNetworkMode = ''none'',
      rlTimeoutSec = (case timeout of Some t \<Rightarrow> t | None \<Rightarrow> 3600)\<rparr>"

record ExecutionSpec =
  esImage :: string
  esTaskID :: string
  esInputDir :: string
  esOutputDir :: string
  esArgs :: "string list"
  esEnv :: "(string, string) gomap"
  esLimits :: ResourceLimits

record ExecutionResult =
  erExitCode :: int
  erStdout :: string
  erStderr :: string
  erDuration :: int
  erTimedOut :: bool
  erOOMKilled :: bool

record RunscRuntime =
  rtDockerBin :: string
  rtRuntime :: string

definition docker_bin :: "RunscRuntime \<Rightarrow> string" where
  "docker_bin r = (if rtDockerBin r \<noteq> [] then rtDockerBin r else ''docker'')"

definition buildRunArgs :: "(real \<Rightarrow> string) \<Rightarrow> RunscRuntime \<Rightarrow> ExecutionSpec \<Rightarrow> string list" where
  "buildRunArgs fmtf r spec =
     (let runtime = (if rtRuntime r = [] then ''runsc'' else rtRuntime r);
          net = (if rlNetworkMode (esLimits spec) = [] then ''none'' else rlNetworkMode (esLimits spec))
      in [''run'', ''--rm'', ''--runtime'', runtime, ''--network'', net, ''--name'', ''petabyte-'' @ esTaskID spec]
         @ (if rlCPUCores (esLimits spec) > 0 then [''--cpus'', fmtf (rlCPUCores (esLimits spec))] else [])
         @ (if rlMemoryBytes (esLimits spec) > 0 then [''--memory'', fmt_d (rlMemoryBytes (esLimits spec))] else [])
         @ (if rlGPUCount (esLimits spec) > 0 then [''--gpus'', fmt_d (rlGPUCount (esLimits spec))] else [])
         @ (if esInputDir spec \<noteq> [] then [''-v'', esInputDir spec @ '':/input:ro''] else [])
         @ (if esOutputDir spec \<noteq> [] then [''-v'', esOutputDir spec @ '':/output''] else [])
         @ concat (map (\<lambda>(k, v). [''-e'', k @ ''='' @ v]) (esEnv spec))
         @ [esImage spec] @ esArgs spec)"

text \<open>How the command ended.\<close>

datatype cmd_end = CmdOk | CmdExit int | CmdError string

definition Run_container :: "ExecutionSpec \<Rightarrow> string \<Rightarrow> string \<Rightarrow> int \<Rightarrow> bool \<Rightarrow> cmd_end \<Rightarrow> ExecutionResult \<times> string option" where
  "Run_container spec out errs dur deadline ended =
     (let res = \<lparr>erExitCode = 0, erStdout = out, erStderr = errs, erDuration = dur, erTimedOut = False, erOOMKilled = False\<rparr>;
          fail = (\<lambda>e. Some (''run '' @ esTaskID spec @ '': '' @ e))
      in if deadline
         then (res\<lparr>erTimedOut := True, erExitCode := -1\<rparr>, fail (''timed out after '' @ fmt_d (rlTimeoutSec (esLimits spec)) @ ''s''))
         else case ended of
           CmdExit c \<Rightarrow> (res\<lparr>erExitCode := c, erOOMKilled := c = 137\<rparr>, fail (''exit '' @ fmt_d c))
         | CmdError e \<Rightarrow> (res, fail e)
         | CmdOk \<Rightarrow> (res, None))"

subsection \<open>One task\<close>

record RunnerSpec =
  rsTaskID :: string
  rsJobID :: string
  rsShard :: string
  rsDataset :: string
  rsImage :: string
  rsLimits :: ResourceLimits
  rsEnv :: "(string, string) gomap"
  rsIdempotencyKey :: string
  rsTraceID :: string

definition IdempotencyKeyEnv :: string where
  "IdempotencyKeyEnv = ''PETABYTE_IDEMPOTENCY_KEY''"

definition TraceIDEnv :: string where
  "TraceIDEnv = ''PETABYTE_TRACE_ID''"

record RunResult =
  rrImagesProcessed :: int
  rrBytesRead :: int
  rrOutputKey :: string
  rrExecution :: ExecutionResult

text \<open>The directories and files of the pod and the answers of the store: an error, or nothing.\<close>

record runner_env =
  rvInputDir :: "string option"
  rvOutputDir :: "string option"
  rvList :: "string \<Rightarrow> string list outcome"
  rvGet :: "string \<Rightarrow> (byte list \<times> int) outcome"
  rvCreate :: "string \<Rightarrow> string option"
  rvCopy :: "string \<Rightarrow> string option"
  rvManifest :: "string option"
  rvPut :: "string \<Rightarrow> string option"

text \<open>What a container leaves in its output volume.\<close>

record out_volume =
  ovResult :: "byte list option outcome"
  ovOpen :: "string \<Rightarrow> byte list outcome"

type_synonym volume = "(string, byte list) gomap"
type_synonym container_runtime = "ExecutionSpec \<Rightarrow> volume \<Rightarrow> out_volume \<times> ExecutionResult \<times> string option"
type_synonym input_json = "string \<Rightarrow> string \<Rightarrow> string list \<Rightarrow> byte list"

definition last_part :: "string \<Rightarrow> string" where
  "last_part key = rev (takeWhile (\<lambda>c. c \<noteq> CHR ''/'') (rev key))"

definition err_text :: "'a outcome \<Rightarrow> string" where
  "err_text r = (case r of Err e \<Rightarrow> e | _ \<Rightarrow> [])"

text \<open>The loop of \<^verbatim>\<open>stageShard\<close>: the files written so far, the bytes and the names.\<close>

fun stage_keys :: "runner_env \<Rightarrow> string list \<Rightarrow> volume \<times> int \<times> string list \<Rightarrow> (volume \<times> int \<times> string list) outcome" where
  "stage_keys env [] acc = Ok acc"
| "stage_keys env (key # keys) (files, tot, names) =
     (case rvGet env key of
        Ok (data, sz) \<Rightarrow>
          (let name = last_part key
           in case rvCreate env name of
                Some e \<Rightarrow> Err (''create '' @ name @ '': '' @ e)
              | None \<Rightarrow>
                  (case rvCopy env key of
                     Some e \<Rightarrow> Err (''stage '' @ name @ '': '' @ e)
                   | None \<Rightarrow> stage_keys env keys (AList.update name data files, i64 (tot + sz), names @ [name])))
      | r \<Rightarrow> Err (''get '' @ key @ '': '' @ err_text r))"

definition stageShard :: "input_json \<Rightarrow> runner_env \<Rightarrow> RunnerSpec \<Rightarrow> (volume \<times> int) outcome" where
  "stageShard js env spec =
     (case rvList env (rsDataset spec @ ''/'' @ rsShard spec @ ''/'') of
        Ok keys \<Rightarrow>
          (case stage_keys env keys ([], 0, []) of
             Ok (files, tot, names) \<Rightarrow>
               (case rvManifest env of
                  Some e \<Rightarrow> Err (''write input manifest: '' @ e)
                | None \<Rightarrow> Ok (AList.update ''manifest.json'' (js (rsShard spec) (rsDataset spec) names) files, tot))
           | r \<Rightarrow> Err (err_text r))
      | r \<Rightarrow> Err (''list shard '' @ rsShard spec @ '': '' @ err_text r))"

definition artifact_key :: "RunnerSpec \<Rightarrow> string \<Rightarrow> string" where
  "artifact_key spec a = ''results/'' @ rsJobID spec @ ''/'' @ rsShard spec @ ''/'' @ a"

fun uploadArtifacts :: "runner_env \<Rightarrow> RunnerSpec \<Rightarrow> out_volume \<Rightarrow> string list \<Rightarrow> bucket \<Rightarrow> bucket \<times> string option" where
  "uploadArtifacts env spec vol [] b = (b, None)"
| "uploadArtifacts env spec vol (a # as) b =
     (case ovOpen vol a of
        Ok data \<Rightarrow>
          (case Put (rvPut env (artifact_key spec a)) (artifact_key spec a) data ''application/octet-stream'' b of
             (b', Some e) \<Rightarrow> (b', Some (''upload artifact '' @ a @ '': '' @ e))
           | (b', None) \<Rightarrow> uploadArtifacts env spec vol as b')
      | r \<Rightarrow> (b, Some (''open artifact '' @ a @ '': '' @ err_text r)))"

definition run_environment :: "RunnerSpec \<Rightarrow> (string, string) gomap" where
  "run_environment spec =
     (let e1 = (if rsIdempotencyKey spec \<noteq> [] then AList.update IdempotencyKeyEnv (rsIdempotencyKey spec) (rsEnv spec) else rsEnv spec)
      in if rsTraceID spec \<noteq> [] then AList.update TraceIDEnv (rsTraceID spec) e1 else e1)"

text \<open>\<^verbatim>\<open>filepath.Join\<close> of two elements, the second not empty.\<close>

definition Join_dir :: "string \<Rightarrow> string \<Rightarrow> string" where
  "Join_dir d n = (if d = [] then Clean n else Clean (d @ ''/'' @ n))"

definition execution_spec :: "RunnerSpec \<Rightarrow> string \<Rightarrow> ExecutionSpec" where
  "execution_spec spec baseDir =
     \<lparr>esImage = rsImage spec, esTaskID = rsTaskID spec, esInputDir = Join_dir baseDir ''input'', esOutputDir = Join_dir baseDir ''output'',
      esArgs = [''/input/manifest.json''], esEnv = run_environment spec, esLimits = rsLimits spec\<rparr>"

definition Execute ::
  "container_runtime \<Rightarrow> input_json \<Rightarrow> (byte list \<Rightarrow> AlgorithmOutput outcome) \<Rightarrow> runner_env \<Rightarrow> RunnerSpec \<Rightarrow> string \<Rightarrow> bucket
    \<Rightarrow> bucket \<times> RunResult option \<times> string option" where
  "Execute rt js unmarshal env spec baseDir b =
     (case rvInputDir env of Some e \<Rightarrow> (b, None, Some (''input dir: '' @ e)) | None \<Rightarrow>
      case rvOutputDir env of Some e \<Rightarrow> (b, None, Some (''output dir: '' @ e)) | None \<Rightarrow>
      case stageShard js env spec of
        Ok (files, bytesRead) \<Rightarrow>
          (case rt (execution_spec spec baseDir) files of
             (vol, exec, execErr) \<Rightarrow>
               let result = \<lparr>rrImagesProcessed = 0, rrBytesRead = bytesRead, rrOutputKey = [], rrExecution = exec\<rparr>
               in case execErr of
                    Some e \<Rightarrow> (b, Some result, Some e)
                  | None \<Rightarrow>
                      (case CollectOutput unmarshal (ovResult vol) of
                         Ok out \<Rightarrow>
                           (let result1 = result\<lparr>rrImagesProcessed := aoImagesProcessed out\<rparr>
                            in case uploadArtifacts env spec vol (aoArtifacts out) b of
                                 (b', Some e) \<Rightarrow> (b', Some result1, Some e)
                               | (b', None) \<Rightarrow> (b', Some (result1\<lparr>rrOutputKey := artifact_key spec (rsTaskID spec @ ''.json'')\<rparr>), None))
                       | r \<Rightarrow> (b, Some result, Some (err_text r))))
      | r \<Rightarrow> (b, None, Some (err_text r)))"

subsection \<open>The command line as docker reads it\<close>

text \<open>Options, each with its value, up to the first word that is no option: the image, which is followed by the arguments of the container.\<close>

fun docker_options :: "string list \<Rightarrow> (string \<times> string) list \<times> string list" where
  "docker_options (x # y # zs) =
     (if x \<noteq> [] \<and> hd x = CHR ''-'' then (case docker_options zs of (os, rest) \<Rightarrow> ((x, y) # os, rest)) else ([], x # y # zs))"
| "docker_options xs = ([], xs)"

definition option_values :: "string \<Rightarrow> (string \<times> string) list \<Rightarrow> string list" where
  "option_values k os = map snd (filter (\<lambda>(x, v). x = k) os)"

definition run_options :: "(real \<Rightarrow> string) \<Rightarrow> RunscRuntime \<Rightarrow> ExecutionSpec \<Rightarrow> (string \<times> string) list" where
  "run_options fmtf r spec =
     [(''--runtime'', if rtRuntime r = [] then ''runsc'' else rtRuntime r),
      (''--network'', if rlNetworkMode (esLimits spec) = [] then ''none'' else rlNetworkMode (esLimits spec)),
      (''--name'', ''petabyte-'' @ esTaskID spec)]
     @ (if rlCPUCores (esLimits spec) > 0 then [(''--cpus'', fmtf (rlCPUCores (esLimits spec)))] else [])
     @ (if rlMemoryBytes (esLimits spec) > 0 then [(''--memory'', fmt_d (rlMemoryBytes (esLimits spec)))] else [])
     @ (if rlGPUCount (esLimits spec) > 0 then [(''--gpus'', fmt_d (rlGPUCount (esLimits spec)))] else [])
     @ (if esInputDir spec \<noteq> [] then [(''-v'', esInputDir spec @ '':/input:ro'')] else [])
     @ (if esOutputDir spec \<noteq> [] then [(''-v'', esOutputDir spec @ '':/output'')] else [])
     @ map (\<lambda>(k, v). (''-e'', k @ ''='' @ v)) (esEnv spec)"

definition is_option :: "string \<Rightarrow> bool" where
  "is_option x \<longleftrightarrow> x \<noteq> [] \<and> hd x = CHR ''-''"

lemma buildRunArgs_options:
  "buildRunArgs fmtf r spec = [''run'', ''--rm''] @ concat (map (\<lambda>(k, v). [k, v]) (run_options fmtf r spec)) @ esImage spec # esArgs spec"
proof -
  have "concat (map (\<lambda>(k, v). [k, v]) (map (\<lambda>(k, v). (''-e'', k @ ''='' @ v)) env)) = concat (map (\<lambda>(k, v). [''-e'', k @ ''='' @ v]) env)" for env :: "(string \<times> string) list"
    by (induction env) auto
  then show ?thesis by (simp add: buildRunArgs_def run_options_def Let_def)
qed

lemma docker_options_pairs:
  "\<forall>(k, v) \<in> set os. is_option k \<Longrightarrow> \<not> is_option img \<Longrightarrow> docker_options (concat (map (\<lambda>(k, v). [k, v]) os) @ img # args) = (os, img # args)"
proof (induction os)
  case Nil
  then show ?case by (cases args) (auto simp: is_option_def)
qed (auto simp: is_option_def)

lemma run_options_names:
  "\<forall>(k, v) \<in> set (run_options fmtf r spec). k \<in> {''--runtime'', ''--network'', ''--name'', ''--cpus'', ''--memory'', ''--gpus'', ''-v'', ''-e''}"
  by (auto simp: run_options_def split: if_splits)

lemma docker_reads_options:
  assumes "\<not> is_option (esImage spec)"
  shows "docker_options (drop 2 (buildRunArgs fmtf r spec)) = (run_options fmtf r spec, esImage spec # esArgs spec)"
proof -
  have "\<forall>(k, v) \<in> set (run_options fmtf r spec). is_option k" using run_options_names [of fmtf r spec] by (auto simp: is_option_def)
  from docker_options_pairs [OF this assms] show ?thesis by (simp add: buildRunArgs_options)
qed

lemma option_values_simps [simp]:
  "option_values k [] = []"
  "option_values k ((x, v) # os) = (if x = k then v # option_values k os else option_values k os)"
  "option_values k (os @ os') = option_values k os @ option_values k os'"
  by (simp_all add: option_values_def)

lemma option_values_env [simp]: "k \<noteq> ''-e'' \<Longrightarrow> option_values k (map (\<lambda>(x, v). (''-e'', f x v)) env) = []"
  by (auto simp: option_values_def filter_empty_conv)

subsection \<open>Uploads\<close>

lemma artifact_key_inject: "artifact_key spec a = artifact_key spec a' \<longleftrightarrow> a = a'"
  by (simp add: artifact_key_def)

lemma upload_frame: "\<forall>a. k \<noteq> artifact_key spec a \<or> a \<notin> set as \<Longrightarrow> map_of (fst (uploadArtifacts env spec vol as b)) k = map_of b k"
proof (induction as arbitrary: b)
  case (Cons a as)
  then show ?case by (auto simp: Put_def map_of_update_apply split: outcome.split option.split)
qed simp

lemma upload_stores:
  assumes "uploadArtifacts env spec vol as b = (b', None)" "a \<in> set as"
  shows "\<exists>data. ovOpen vol a = Ok data \<and> map_option obBody (map_of b' (artifact_key spec a)) = Some data"
  using assms
proof (induction as arbitrary: b)
  case (Cons x as)
  then obtain data where data: "ovOpen vol x = Ok data" "rvPut env (artifact_key spec x) = None"
    by (auto simp: Put_def split: outcome.splits option.splits)
  define b1 where "b1 = fst (Put None (artifact_key spec x) data ''application/octet-stream'' b)"
  have rest: "uploadArtifacts env spec vol as b1 = (b', None)" using Cons.prems(1) data by (simp add: Put_def b1_def)
  show ?case
  proof (cases "a \<in> set as")
    case True
    with Cons.IH rest show ?thesis by blast
  next
    case False
    with Cons.prems(2) have a: "a = x" by simp
    with False have "map_of b' (artifact_key spec a) = map_of b1 (artifact_key spec a)"
      using upload_frame [of "artifact_key spec a" spec as env vol b1] rest by (auto simp: artifact_key_inject)
    with data a show ?thesis by (simp add: b1_def Put_def)
  qed
qed simp

lemma clean_loop_parts: "[] \<notin> set out \<Longrightarrow> [] \<notin> set (clean_loop rooted out cs)"
proof (induction cs arbitrary: out)
  case Nil
  then show ?case by simp
next
  case (Cons c cs)
  show ?case
  proof (cases "c = ''..''")
    case True
    with Cons show ?thesis by (cases out; cases rooted) simp_all
  next
    case False
    with Cons.prems Cons.IH [of out] Cons.IH [of "c # out"] show ?thesis by auto
  qed
qed

lemma join_slash_not_empty: "xs \<noteq> [] \<Longrightarrow> [] \<notin> set xs \<Longrightarrow> join_slash xs \<noteq> []"
  by (cases xs rule: join_slash.cases) simp_all

lemma Clean_not_empty [simp]: "Clean p \<noteq> []"
  using clean_loop_parts [of "[]" "IsAbs p" "split_on (CHR ''/'') p"] join_slash_not_empty [of "clean_loop False [] (split_on (CHR ''/'') p)"] by (auto simp: Clean_def Let_def)

lemma Join_dir_not_empty [simp]: "Join_dir d n \<noteq> []"
  by (simp add: Join_dir_def)

subsection \<open>Executing a task\<close>

lemma Execute_success:
  assumes "Execute rt js unmarshal env spec baseDir b = (b', res, None)"
  shows "\<exists>files bytes vol exec out. stageShard js env spec = Ok (files, bytes) \<and> rt (execution_spec spec baseDir) files = (vol, exec, None)
    \<and> CollectOutput unmarshal (ovResult vol) = Ok out \<and> uploadArtifacts env spec vol (aoArtifacts out) b = (b', None)
    \<and> res = Some \<lparr>rrImagesProcessed = aoImagesProcessed out, rrBytesRead = bytes,
         rrOutputKey = artifact_key spec (rsTaskID spec @ ''.json''), rrExecution = exec\<rparr>"
  using assms by (auto simp: Execute_def Let_def split: option.splits outcome.splits prod.splits)

lemma Execute_frame:
  assumes "\<nexists>a. k = artifact_key spec a"
  shows "map_of (fst (Execute rt js unmarshal env spec baseDir b)) k = map_of b k"
proof -
  have "map_of (fst (uploadArtifacts env spec vol as b)) k = map_of b k" for vol as using upload_frame assms by metis
  then show ?thesis by (auto simp: Execute_def Let_def split: option.split outcome.split prod.split) (metis fst_conv)+
qed


text \<open>A shard of one object and an algorithm that writes one artifact.\<close>

definition demo_manifest :: Manifest where
  "demo_manifest = \<lparr>mfName = ''edges'', mfVersion = ''1'', mfBaseImage = ''python:3.11'', mfEntrypoint = ''main.py'', mfGPURequired = False,
     mfGPUCount = 0, mfMemoryGB = 4, mfTimeoutSec = 60, mfParallelism = DataParallel\<rparr>"

definition demo_run :: RunnerSpec where
  "demo_run = \<lparr>rsTaskID = ''t1'', rsJobID = ''j1'', rsShard = ''00'', rsDataset = ''train'', rsImage = ''registry/edges:1'',
     rsLimits = LimitsFromManifest demo_manifest, rsEnv = [], rsIdempotencyKey = [], rsTraceID = ''tr''\<rparr>"

definition demo_env :: runner_env where
  "demo_env = \<lparr>rvInputDir = None, rvOutputDir = None, rvList = (\<lambda>p. Ok [p @ ''a.png'']), rvGet = (\<lambda>k. Ok ([1, 2], 2)), rvCreate = (\<lambda>_. None),
     rvCopy = (\<lambda>_. None), rvManifest = None, rvPut = (\<lambda>_. None)\<rparr>"

definition demo_runtime :: container_runtime where
  "demo_runtime es files =
     (\<lparr>ovResult = Ok (Some []), ovOpen = (\<lambda>_. Ok [9])\<rparr>,
      \<lparr>erExitCode = 0, erStdout = [], erStderr = [], erDuration = 1, erTimedOut = False, erOOMKilled = False\<rparr>, None)"

definition demo_output :: AlgorithmOutput where
  "demo_output = \<lparr>aoImagesProcessed = 1, aoImagesFailed = 0, aoArtifacts = [''edges.bin''], aoMetrics = []\<rparr>"


subsection \<open>What the container sees, and the key that is reported\<close>

lemma stage_keys_files:
  assumes "stage_keys env keys (files, tot, names) = Ok (files', tot', names')"
  shows "names' = names @ map last_part keys
    \<and> (\<forall>n. map_of files' n = (map_of files ++ map_of (rev (map (\<lambda>k. (last_part k, case rvGet env k of Ok (d, _) \<Rightarrow> d | _ \<Rightarrow> [])) keys))) n)"
  using assms
proof (induction keys arbitrary: files tot names)
  case (Cons k keys)
  then obtain d sz where "rvGet env k = Ok (d, sz)"
    "stage_keys env keys (AList.update (last_part k) d files, i64 (tot + sz), names @ [last_part k]) = Ok (files', tot', names')"
    by (auto simp: Let_def split: outcome.splits option.splits)
  with Cons.IH [OF this(2)] show ?case by (auto simp: map_add_def update_conv' split: option.splits)
qed auto

text \<open>
  Every object of the shard is staged under the last part of its key, unless a later key has the same last part or it is
  \<^verbatim>\<open>manifest.json\<close>, the name of the generated manifest. The range of the task plays no role.
\<close>

lemma staged_objects:
  assumes "stageShard js env spec = Ok (files, bytes)" "rvList env (rsDataset spec @ ''/'' @ rsShard spec @ ''/'') = Ok keys"
    and "distinct (map last_part keys)" "k \<in> set keys" "last_part k \<noteq> ''manifest.json''" "rvGet env k = Ok (d, sz)"
  shows "map_of files (last_part k) = Some d"
proof -
  let ?m = "rev (map (\<lambda>k. (last_part k, case rvGet env k of Ok (d, _) \<Rightarrow> d | _ \<Rightarrow> [])) keys)"
  obtain files0 tot names where "stage_keys env keys ([], 0, []) = Ok (files0, tot, names)"
    and f: "files = AList.update ''manifest.json'' (js (rsShard spec) (rsDataset spec) names) files0"
    using assms(1,2) by (auto simp: stageShard_def split: outcome.splits option.splits)
  then have "map_of files0 (last_part k) = map_of ?m (last_part k)" using stage_keys_files by fastforce
  moreover have "(last_part k, d) \<in> set ?m" using assms(4,6) by force
  moreover have "distinct (map fst ?m)" using assms(3) by (simp add: rev_map [symmetric] comp_def)
  ultimately show ?thesis using assms(5) f by (simp add: update_conv')
qed

text \<open>The key reported for a task names an object that nothing uploads, unless the algorithm itself declares an artifact of that name.\<close>

lemma reported_key_is_not_uploaded:
  assumes "Execute rt js unmarshal env spec baseDir b = (b', Some res, None)"
    and "\<And>data out. unmarshal data = Ok out \<Longrightarrow> rsTaskID spec @ ''.json'' \<notin> set (aoArtifacts out)"
  shows "map_of b' (rrOutputKey res) = map_of b (rrOutputKey res)"
proof -
  obtain vol out' where x: "CollectOutput unmarshal (ovResult vol) = Ok out'" "uploadArtifacts env spec vol (aoArtifacts out') b = (b', None)"
    "rrOutputKey res = artifact_key spec (rsTaskID spec @ ''.json'')"
    using Execute_success [OF assms(1)] by auto
  then obtain data where "unmarshal data = Ok out'" by (auto simp: CollectOutput_def split: outcome.splits option.splits)
  with assms(2) have "rsTaskID spec @ ''.json'' \<notin> set (aoArtifacts out')" by blast
  with upload_frame [of "rrOutputKey res" spec "aoArtifacts out'" env vol b] x show ?thesis by (auto simp: artifact_key_inject)
qed

text \<open>A run that hits its deadline or is killed for memory is told apart from other failures.\<close>

lemma container_end:
  assumes "Run_container spec out errs dur deadline ended = (res, err)"
  shows "(err = None \<longleftrightarrow> \<not> deadline \<and> ended = CmdOk) \<and> (erTimedOut res \<longleftrightarrow> deadline) \<and> (erOOMKilled res \<longleftrightarrow> \<not> deadline \<and> ended = CmdExit 137)"
  using assms by (auto simp: Run_container_def Let_def split: if_splits cmd_end.splits)

end
