(* ===== verification/Server.thy ===== *)
theory Server
  imports Registry Tiering Coordinator
begin

section \<open>The query server\<close>

text \<open>
  \<^verbatim>\<open>cmd/server/main.go\<close> and the listing, lookup and dry-run routes of \<^verbatim>\<open>cmd/server/algorithms.go\<close>: one definition per handler over the index
  and the registry, and the dispatch on cleaned paths. Registering a package and similarity search have their own theories. The decoded body
  of a request and the failures of the databases are arguments.
\<close>

subsection \<open>Paths\<close>

text \<open>The loop of \<^verbatim>\<open>splitPath\<close>: at byte \<open>i\<close>, with the current part starting at \<open>start\<close>.\<close>

function split_from :: "string \<Rightarrow> nat \<Rightarrow> nat \<Rightarrow> string list \<Rightarrow> string list" where
  "split_from path start i parts =
     (if i < length path
      then if path ! i = CHR ''/''
           then split_from path (i + 1) (i + 1) (if i > start then parts @ [take (i - start) (drop start path)] else parts)
           else split_from path start (i + 1) parts
      else if start < length path then parts @ [drop start path] else parts)"
  by pat_completeness auto
termination by (relation "measure (\<lambda>(path, start, i, parts). length path - i)") auto

declare split_from.simps [simp del]

definition splitPath :: "string \<Rightarrow> string list" where
  "splitPath path = split_from path 0 0 []"

subsection \<open>Handlers\<close>

record http_request =
  hrMethod :: string
  hrPath :: string
  hrDataset :: string
  hrLabel :: string
  hrLimit :: string

datatype server_reply =
    ReplyError nat string
  | ReplyStatus string
  | ReplyStats DatasetStats
  | ReplyShards "ShardStats list"
  | ReplyManifest ShardManifest
  | ReplyRecords "DataRecord list"
  | ReplyLabels "(string, int) gomap"
  | ReplyCosts "(StorageTier, real) gomap"
  | ReplyAlgorithms "Algorithm list"
  | ReplyAlgorithm Algorithm
  | ReplyInvalid string
  | ReplyValid Manifest string
  | ReplyPanic

definition reply_or :: "nat \<Rightarrow> ('a \<Rightarrow> server_reply) \<Rightarrow> 'a outcome \<Rightarrow> server_reply" where
  "reply_or code f r = (case r of Ok x \<Rightarrow> f x | Err e \<Rightarrow> ReplyError code e | Panic \<Rightarrow> ReplyPanic)"

definition dataset_of :: "http_request \<Rightarrow> string" where
  "dataset_of r = (if hrDataset r = [] then ''train'' else hrDataset r)"

record server_db =
  sdCodec :: json_codec
  sdFault :: db_fault
  sdFailure :: "string option"
  sdIndex :: Index

definition serve_stats :: "server_db \<Rightarrow> http_request \<Rightarrow> server_reply" where
  "serve_stats db r = reply_or 500 ReplyStats (Dataset_stats (sdCodec db) (sdFailure db) (sdFault db) (sdFault db) (dataset_of r) (sdIndex db))"

definition serve_shards :: "server_db \<Rightarrow> http_request \<Rightarrow> server_reply" where
  "serve_shards db r = reply_or 500 ReplyShards (Shard_stats (sdFault db) (dataset_of r) (sdIndex db))"

definition serve_shard :: "server_db \<Rightarrow> http_request \<Rightarrow> server_reply" where
  "serve_shard db r =
     (let parts = splitPath (drop (length ''/v1/shards/'') (hrPath r))
      in if length parts \<noteq> 2 \<or> parts ! 1 \<noteq> ''manifest'' then ReplyError 400 ''use /v1/shards/{shard}/manifest''
         else reply_or 500 ReplyManifest (GetShardManifest (sdCodec db) (sdFault db) (parts ! 0) (dataset_of r) (sdIndex db)))"

definition search_limit :: "http_request \<Rightarrow> int" where
  "search_limit r = (if hrLimit r = [] then 100 else case atoi (hrLimit r) of Some n \<Rightarrow> n | None \<Rightarrow> 100)"

definition serve_search :: "server_db \<Rightarrow> http_request \<Rightarrow> server_reply" where
  "serve_search db r = reply_or 500 ReplyRecords (SearchByLabel (sdCodec db) (sdFault db) (hrLabel r) (hrDataset r) (search_limit r) (sdIndex db))"

definition serve_labels :: "server_db \<Rightarrow> http_request \<Rightarrow> server_reply" where
  "serve_labels db r = reply_or 500 ReplyLabels (LabelCounts (sdCodec db) (sdFault db) (dataset_of r) (sdIndex db))"

definition serve_estimate :: "(StorageTier, int) gomap outcome \<Rightarrow> http_request \<Rightarrow> server_reply" where
  "serve_estimate body r =
     (if hrMethod r \<noteq> ''POST'' then ReplyError 405 ''POST required''
      else reply_or 400 (\<lambda>input. ReplyCosts (CostProjection input)) body)"

definition serve_data :: "server_db \<Rightarrow> (StorageTier, int) gomap outcome \<Rightarrow> http_request \<Rightarrow> server_reply" where
  "serve_data db body r =
     (if hrPath r = ''/healthz'' then ReplyStatus ''ok''
      else if hrPath r = ''/v1/stats'' then serve_stats db r
      else if hrPath r = ''/v1/shards'' then serve_shards db r
      else if take 11 (hrPath r) = ''/v1/shards/'' then serve_shard db r
      else if hrPath r = ''/v1/search'' then serve_search db r
      else if hrPath r = ''/v1/labels'' then serve_labels db r
      else if hrPath r = ''/v1/tiering/estimate'' then serve_estimate body r
      else ReplyError 404 ''404 page not found'')"

definition validate_package :: "(byte list \<Rightarrow> zip_entry list outcome) \<Rightarrow> (byte list \<Rightarrow> Manifest outcome) \<Rightarrow> Quota \<Rightarrow> byte list \<Rightarrow> string option
    \<Rightarrow> http_request \<Rightarrow> server_reply" where
  "validate_package openZip unmarshal q body bodyErr r =
     (if hrMethod r \<noteq> ''POST'' then ReplyError 405 ''POST required''
      else case readPackage openZip unmarshal body bodyErr of
        (Err e, code) \<Rightarrow> ReplyError (nat code) e
      | (Panic, code) \<Rightarrow> ReplyPanic
      | (Ok pkg, _) \<Rightarrow> (case Validate (pkManifest pkg) q of
                           Some e \<Rightarrow> ReplyInvalid e
                         | None \<Rightarrow> ReplyValid (pkManifest pkg) (ImageRef imageRegistry pkg)))"

definition list_algorithms_route :: "manifest_codec \<Rightarrow> db_fault \<Rightarrow> Registry \<Rightarrow> server_reply" where
  "list_algorithms_route mc flt reg = reply_or 500 ReplyAlgorithms (List_algorithms mc flt reg)"

definition algorithm_by_path :: "manifest_codec \<Rightarrow> db_fault \<Rightarrow> string option \<Rightarrow> Registry \<Rightarrow> http_request \<Rightarrow> server_reply" where
  "algorithm_by_path mc flt err reg r =
     (let parts = splitPath (drop (length ''/v1/algorithms/'') (hrPath r))
      in if length parts = 1 then reply_or 500 ReplyAlgorithms (ListVersions mc flt (parts ! 0) reg)
         else if length parts = 2 then reply_or 404 ReplyAlgorithm (Get_algorithm mc err (parts ! 0) (parts ! 1) reg)
         else ReplyError 400 ''use /v1/algorithms/{name}[/{version}]'')"

subsection \<open>Paths are split at slashes\<close>

lemma split_on_first: "c \<notin> set u \<Longrightarrow> split_on c (u @ c # v) = u # split_on c v"
  by (induction u) auto

lemma split_on_none: "c \<notin> set u \<Longrightarrow> split_on c u = [u]"
  by (induction u) auto

lemma split_from_parts:
  assumes "start \<le> i" "i \<le> length path" "CHR ''/'' \<notin> set (take (i - start) (drop start path))"
  shows "split_from path start i parts = parts @ filter (\<lambda>p. p \<noteq> []) (split_on (CHR ''/'') (drop start path))"
  using assms
proof (induction path start i parts rule: split_from.induct)
  case (1 path start i parts)
  let ?u = "take (i - start) (drop start path)"
  show ?case
  proof (cases "i < length path")
    case True
    have rest: "drop start path = ?u @ path ! i # drop (i + 1) path"
      using True 1(3) by (metis Cons_nth_drop_Suc Suc_eq_plus1 append_take_drop_id drop_drop le_add_diff_inverse2)
    show ?thesis
    proof (cases "path ! i = CHR ''/''")
      case slash: True
      have "split_on (CHR ''/'') (drop start path) = ?u # split_on (CHR ''/'') (drop (i + 1) path)"
        using split_on_first [OF 1(5)] rest slash by metis
      moreover have "?u = [] \<longleftrightarrow> \<not> i > start" using True 1(3) by auto
      ultimately show ?thesis using 1(1) True slash by (subst split_from.simps) auto
    next
      case False
      have "take (i + 1 - start) (drop start path) = ?u @ [path ! i]" using True 1(3) by (simp add: Suc_diff_le take_Suc_conv_app_nth)
      with False 1(5) have "CHR ''/'' \<notin> set (take (i + 1 - start) (drop start path))" by auto
      with 1(2,3) True False show ?thesis by (subst split_from.simps) auto
    qed
  next
    case False
    with 1(3-5) have "split_on (CHR ''/'') (drop start path) = [drop start path]" by (intro split_on_none) auto
    with False show ?thesis by (subst split_from.simps) auto
  qed
qed

lemma splitPath_parts: "splitPath path = filter (\<lambda>p. p \<noteq> []) (split_on (CHR ''/'') path)"
  using split_from_parts [of 0 0 path "[]"] by (simp add: splitPath_def)

subsection \<open>What the routes answer\<close>

lemma one_part: "name \<noteq> [] \<Longrightarrow> CHR ''/'' \<notin> set name \<Longrightarrow> splitPath name = [name]"
  by (simp add: splitPath_parts split_on_none)

lemma two_parts: "a \<noteq> [] \<Longrightarrow> b \<noteq> [] \<Longrightarrow> CHR ''/'' \<notin> set a \<Longrightarrow> CHR ''/'' \<notin> set b \<Longrightarrow> splitPath (a @ CHR ''/'' # b) = [a, b]"
  by (simp add: splitPath_parts split_on_first split_on_none)

text \<open>A manifest is served under the name of its shard, and no other path below \<^verbatim>\<open>/v1/shards/\<close> reads the index.\<close>

lemma shard_route:
  assumes "shard \<noteq> []" "CHR ''/'' \<notin> set shard" "hrPath r = ''/v1/shards/'' @ shard @ ''/manifest''"
  shows "serve_data db body r = reply_or 500 ReplyManifest (GetShardManifest (sdCodec db) (sdFault db) shard (dataset_of r) (sdIndex db))"
  using two_parts [of shard "''manifest''"] assms by (simp add: serve_data_def serve_shard_def)

text \<open>An algorithm is found under its name and version, unless one of them is empty or has a slash.\<close>

lemma algorithm_route:
  assumes "name \<noteq> []" "ver \<noteq> []" "CHR ''/'' \<notin> set name" "CHR ''/'' \<notin> set ver" "hrPath r = ''/v1/algorithms/'' @ name @ ''/'' @ ver"
  shows "algorithm_by_path mc flt err reg r = reply_or 404 ReplyAlgorithm (Get_algorithm mc err name ver reg)"
  using two_parts [of name ver] assms by (simp add: algorithm_by_path_def)

text \<open>A dry run that says valid is a promise: registering the same package fails only if the registry refuses it.\<close>

lemma dry_run_agrees:
  assumes "validate_package openZip unmarshal q body bodyErr r = ReplyValid m img"
  shows "\<exists>digest owner. fst (post_algorithm openZip unmarshal register q tenant body bodyErr reg) \<in>
     {(201, Ok \<lparr>alName = mfName m, alVersion = mfVersion m, alOwner = owner, alImageRef = img, alDigest = digest, alManifest = m\<rparr>)}
       \<union> {(409, Err e) |e. True}"
  using assms by (auto simp: validate_package_def post_algorithm_def Let_def split: if_splits outcome.splits option.splits prod.splits)

lemma search_has_no_default_dataset:
  assumes "hrPath r = ''/v1/search''" "hrDataset r = []" "\<forall>x \<in> set (sdIndex db). rwDataset x \<noteq> []" "sdFault db = DbOk"
  shows "serve_data db body r = ReplyRecords []"
proof -
  have "filter (\<lambda>x. rwDataset x = [] \<and> P x) (sdIndex db) = []" for P using assms(3) by (simp add: filter_empty_conv)
  then show ?thesis using assms by (simp add: serve_data_def serve_search_def SearchByLabel_def reply_or_def query_def)
qed

end
