(* ===== verification/Collector.thy ===== *)
theory Collector
  imports Prelude
begin

section \<open>Metrics and the Ray client\<close>

text \<open>
  \<^verbatim>\<open>internal/metrics/metrics.go\<close>: counters, gauges and the histogram of task durations. \<^verbatim>\<open>internal/ray/submit.go\<close> and \<^verbatim>\<open>cluster.go\<close>: the calls of
  the Ray dashboard, whose answers are arguments (a failed request, or a status with the decoded body), and the polling loop of
  \<^verbatim>\<open>WaitForJob\<close>, which follows the stream of answers and may never end.
\<close>

subsection \<open>Counters and histograms\<close>

definition counter_Add :: "int \<Rightarrow> int \<Rightarrow> int" where
  "counter_Add n c = i64 (c + n)"

record Histogram =
  hgCount :: int
  hgSum :: int
  hgBuckets :: "int list"
  hgBounds :: "int list"

definition NewHistogram :: "int list \<Rightarrow> Histogram" where
  "NewHistogram bounds = \<lparr>hgCount = 0, hgSum = 0, hgBuckets = replicate (length bounds + 1) 0, hgBounds = bounds\<rparr>"

text \<open>The first bucket whose bound is not below the value, else the last.\<close>

fun bucket_of :: "int \<Rightarrow> int list \<Rightarrow> nat" where
  "bucket_of v [] = 0"
| "bucket_of v (b # bs) = (if v \<le> b then 0 else Suc (bucket_of v bs))"

definition Observe :: "int \<Rightarrow> Histogram \<Rightarrow> Histogram" where
  "Observe v h =
     (let i = bucket_of v (hgBounds h)
      in h\<lparr>hgCount := i64 (hgCount h + 1), hgSum := i64 (hgSum h + v), hgBuckets := (hgBuckets h)[i := i64 (hgBuckets h ! i + 1)]\<rparr>)"

definition Snapshot_histogram :: "Histogram \<Rightarrow> (string \<times> int) list" where
  "Snapshot_histogram h =
     [(''count'', hgCount h), (''sum'', hgSum h)]
     @ map (\<lambda>i. (''le_'' @ fmt_d (hgBounds h ! i), hgBuckets h ! i)) [0..<length (hgBounds h)]
     @ [(''le_inf'', hgBuckets h ! length (hgBounds h))]"

record Collector =
  clJobsSubmitted :: int
  clJobsCompleted :: int
  clJobsFailed :: int
  clTasksDispatched :: int
  clTasksCompleted :: int
  clTasksFailed :: int
  clBytesProcessed :: int
  clRecordsProcessed :: int
  clActiveWorkers :: int
  clActiveTasks :: int
  clPendingJobs :: int
  clTaskDuration :: Histogram

definition NewCollector :: Collector where
  "NewCollector = \<lparr>clJobsSubmitted = 0, clJobsCompleted = 0, clJobsFailed = 0, clTasksDispatched = 0, clTasksCompleted = 0, clTasksFailed = 0,
     clBytesProcessed = 0, clRecordsProcessed = 0, clActiveWorkers = 0, clActiveTasks = 0, clPendingJobs = 0,
     clTaskDuration = NewHistogram [100, 500, 1000, 5000, 10000, 30000, 60000, 300000]\<rparr>"

lemma bucket_of_le: "bucket_of v bs \<le> length bs"
  by (induction bs) auto

lemma bucket_of_bounds:
  "sorted bs \<Longrightarrow> (bucket_of v bs < length bs \<longrightarrow> v \<le> bs ! bucket_of v bs) \<and> (\<forall>j < bucket_of v bs. bs ! j < v)"
  by (induction bs) (auto simp: nth_Cons' split: if_splits)

text \<open>Every value is counted in exactly one bucket: each bucket holds the number of values that fall into it.\<close>

lemma histogram_counts:
  fixes bounds :: "int list"
  assumes "int (length vs) < 2 ^ 63"
  defines "h \<equiv> fold Observe vs (NewHistogram bounds)"
  shows "hgCount h = int (length vs) \<and> hgBounds h = bounds
    \<and> hgBuckets h = map (\<lambda>i. int (length (filter (\<lambda>v. bucket_of v bounds = i) vs))) [0..<length bounds + 1]"
  unfolding h_def using assms(1)
proof (induction vs rule: rev_induct)
  case Nil
  then show ?case by (simp add: NewHistogram_def map_replicate_const)
next
  case (snoc v vs)
  define h where "h = fold Observe vs (NewHistogram bounds)"
  have ih: "hgCount h = int (length vs)" "hgBounds h = bounds"
    "hgBuckets h = map (\<lambda>i. int (length (filter (\<lambda>v. bucket_of v bounds = i) vs))) [0..<length bounds + 1]"
    using snoc by (auto simp: h_def)
  let ?i = "bucket_of v bounds"
  have i: "?i < length bounds + 1" using bucket_of_le [of v bounds] by simp
  have len: "int (length (filter P vs)) + 1 < 2 ^ 63" for P using snoc.prems le_less_trans [OF length_filter_le [of P vs]] by simp
  have "(hgBuckets h)[?i := i64 (hgBuckets h ! ?i + 1)]
    = map (\<lambda>i. int (length (filter (\<lambda>v. bucket_of v bounds = i) (vs @ [v])))) [0..<length bounds + 1]"
    using i len by (intro nth_equalityI) (auto simp: ih(3) nth_list_update simp del: upt_Suc)
  then have "hgBuckets (Observe v h) = map (\<lambda>i. int (length (filter (\<lambda>v. bucket_of v bounds = i) (vs @ [v])))) [0..<length bounds + 1]"
    by (simp add: Observe_def ih(2) Let_def)
  moreover have "hgCount (Observe v h) = int (length (vs @ [v]))" "hgBounds (Observe v h) = bounds"
    using snoc.prems ih(1,2) by (simp_all add: Observe_def Let_def)
  moreover have "fold Observe (vs @ [v]) (NewHistogram bounds) = Observe v h" by (simp add: h_def)
  ultimately show ?case by (simp only:)
qed

subsection \<open>The Ray dashboard\<close>

datatype RayStatus = RayPending | RayRunning | RaySucceeded | RayFailed | RayStopped | RayOther string

record RayJobInfo =
  rjSubmissionID :: string
  rjStatus :: RayStatus
  rjMessage :: string

datatype 'a answer = Unreachable string | Answered int "'a outcome"

definition SubmitJob_ray :: "string answer \<Rightarrow> string \<Rightarrow> string outcome" where
  "SubmitJob_ray ans bodyText =
     (case ans of
        Unreachable e \<Rightarrow> Err (''submit ray job: '' @ e)
      | Answered code sid \<Rightarrow>
          if code \<ge> 400 then Err (''ray submit '' @ fmt_d code @ '': '' @ bodyText)
          else (case sid of Ok s \<Rightarrow> Ok s | Err e \<Rightarrow> Err (''decode submit response: '' @ e) | Panic \<Rightarrow> Panic))"

definition GetJob_ray :: "RayJobInfo answer \<Rightarrow> RayJobInfo outcome" where
  "GetJob_ray ans =
     (case ans of
        Unreachable e \<Rightarrow> Err (''get ray job: '' @ e)
      | Answered code info \<Rightarrow>
          if code \<ge> 400 then Err (''ray get job '' @ fmt_d code)
          else (case info of Ok s \<Rightarrow> Ok s | Err e \<Rightarrow> Err (''decode job info: '' @ e) | Panic \<Rightarrow> Panic))"

definition HealthCheck :: "'c answer \<Rightarrow> 'c outcome" where
  "HealthCheck ans =
     (case ans of
        Unreachable e \<Rightarrow> Err (''ray cluster unreachable: '' @ e)
      | Answered code info \<Rightarrow>
          if code \<ge> 400 then Err (''ray dashboard '' @ fmt_d code)
          else (case info of Ok s \<Rightarrow> Ok s | Err e \<Rightarrow> Err (''decode cluster_info: '' @ e) | Panic \<Rightarrow> Panic))"

definition ray_terminal :: "RayStatus \<Rightarrow> bool" where
  "ray_terminal s \<longleftrightarrow> s \<in> {RaySucceeded, RayFailed, RayStopped}"

text \<open>What the \<^verbatim>\<open>select\<close> of the loop sees at its \<open>n\<close>-th turn: a tick with the answer to its request, or the end of the context.\<close>

datatype ray_event = RayTick "RayJobInfo answer" | RayDone string

partial_function (option) wait_from :: "(nat \<Rightarrow> ray_event) \<Rightarrow> nat \<Rightarrow> RayJobInfo outcome option" where
  "wait_from ev n =
     (case ev n of
        RayDone e \<Rightarrow> Some (Err e)
      | RayTick ans \<Rightarrow>
          (case GetJob_ray ans of
             Ok info \<Rightarrow> if ray_terminal (rjStatus info) then Some (Ok info) else wait_from ev (n + 1)
           | r \<Rightarrow> Some r))"

definition WaitForJob :: "(nat \<Rightarrow> ray_event) \<Rightarrow> RayJobInfo outcome option" where
  "WaitForJob ev = wait_from ev 0"

definition still_running :: "ray_event \<Rightarrow> bool" where
  "still_running e = (case e of RayDone _ \<Rightarrow> False | RayTick ans \<Rightarrow> (case GetJob_ray ans of Ok info \<Rightarrow> \<not> ray_terminal (rjStatus info) | _ \<Rightarrow> False))"

lemma wait_from_skip: "still_running (ev n) \<Longrightarrow> wait_from ev n = wait_from ev (n + 1)"
  by (subst wait_from.simps) (auto simp: still_running_def split: ray_event.splits outcome.splits)

lemma wait_from_stop: "\<not> still_running (ev n) \<Longrightarrow> \<exists>r. wait_from ev n = Some r \<and> (\<forall>info. r = Ok info \<longrightarrow> ray_terminal (rjStatus info))"
  by (subst wait_from.simps) (auto simp: still_running_def split: ray_event.splits outcome.splits)

text \<open>The wait returns exactly when an answer is an error, a final status or the end of the context; a returned job has ended.\<close>

lemma wait_returns:
  assumes "\<not> still_running (ev k)"
  shows "\<exists>r. WaitForJob ev = Some r \<and> (\<forall>info. r = Ok info \<longrightarrow> ray_terminal (rjStatus info))"
proof -
  have "\<not> still_running (ev (n + d)) \<Longrightarrow> \<exists>r. wait_from ev n = Some r \<and> (\<forall>info. r = Ok info \<longrightarrow> ray_terminal (rjStatus info))" for n d
  proof (induction d arbitrary: n)
    case 0
    then show ?case using wait_from_stop by simp
  next
    case (Suc d)
    then show ?case using wait_from_stop [of ev n] wait_from_skip [of ev n] by (cases "still_running (ev n)") auto
  qed
  from this [of 0 k] assms show ?thesis by (simp add: WaitForJob_def)
qed

lemma wait_from_stops:
  assumes "wait_from ev n = Some y"
  shows "\<exists>k. \<not> still_running (ev k)"
proof (rule wait_from.raw_induct [OF _ assms])
  fix f :: "(nat \<Rightarrow> ray_event) \<Rightarrow> nat \<Rightarrow> RayJobInfo outcome option" and ev n y
  assume ih: "\<And>ev n y. f ev n = Some y \<Longrightarrow> \<exists>k. \<not> still_running (ev k)"
    and body: "(case ev n of RayTick ans \<Rightarrow> (case GetJob_ray ans of Ok info \<Rightarrow> if ray_terminal (rjStatus info) then Some (Ok info) else f ev (n + 1)
        | Err e \<Rightarrow> Some (Err e) | Panic \<Rightarrow> Some Panic) | RayDone e \<Rightarrow> Some (Err e)) = Some y"
  show "\<exists>k. \<not> still_running (ev k)"
  proof (cases "still_running (ev n)")
    case True
    with body have "f ev (n + 1) = Some y" by (auto simp: still_running_def split: ray_event.splits outcome.splits)
    then show ?thesis by (rule ih)
  qed blast
qed

lemma wait_runs_on: "\<forall>n. still_running (ev n) \<Longrightarrow> WaitForJob ev = None"
  using wait_from_stops [of ev 0] by (cases "WaitForJob ev") (auto simp: WaitForJob_def)

end
