(* ===== verification/Columnar.thy ===== *)
theory Columnar
  imports Vsearch "HOL-Library.Multiset"
begin

section \<open>Columnar files: task results, image batches, embeddings\<close>

text \<open>
  \<^verbatim>\<open>internal/formats/parquet.go\<close>, \<^verbatim>\<open>internal/formats/arrow_reader.go\<close> and \<^verbatim>\<open>internal/vsearch/embedding.go\<close>: rows are turned into columns, written by
  the Parquet or Arrow library, and read back batch by batch. Columns are the arrays of the Arrow format; the library's writer and reader
  are parameters. What is relied on is that the reader gives back the cells of each column, in batches of any size (\<open>stored\<close>). A type
  assertion that fails and an index out of range are panics.
\<close>

subsection \<open>Columns\<close>

datatype arrow_type = TString | TInt32 | TInt64 | TBinary | TFloat32 | TList arrow_type | TFixedSizeList int arrow_type | TOther string

text \<open>A list array holds offsets into its values; a fixed-size list array a number of skipped elements and a width.\<close>

datatype column =
    StringCol "string list"
  | Int32Col "int list"
  | Int64Col "int list"
  | BinaryCol "byte list list"
  | Float32Col "real list"
  | ListCol "nat list" column
  | FixedSizeListCol nat nat column
  | OtherCol string

record batch =
  numRows :: nat
  cols :: "column list"

definition and_then :: "'a outcome \<Rightarrow> ('a \<Rightarrow> 'b outcome) \<Rightarrow> 'b outcome" where
  "and_then m f = (case m of Ok x \<Rightarrow> f x | Err e \<Rightarrow> Err e | Panic \<Rightarrow> Panic)"

lemma and_then_simps [simp]:
  "and_then (Ok x) f = f x" "and_then (Err e) f = Err e" "and_then Panic f = Panic"
  by (simp_all add: and_then_def)

text \<open>\<^verbatim>\<open>rec.Column(c).(*array.String)\<close> and its siblings, then \<^verbatim>\<open>Value(i)\<close>.\<close>

definition Column :: "batch \<Rightarrow> nat \<Rightarrow> column outcome" where
  "Column b c = (if c < length (cols b) then Ok (cols b ! c) else Panic)"

fun as_String :: "column \<Rightarrow> string list outcome" where
  "as_String (StringCol xs) = Ok xs"
| "as_String _ = Panic"

fun as_Int64 :: "column \<Rightarrow> int list outcome" where
  "as_Int64 (Int64Col xs) = Ok xs"
| "as_Int64 _ = Panic"

fun as_Float32 :: "column \<Rightarrow> real list outcome" where
  "as_Float32 (Float32Col xs) = Ok xs"
| "as_Float32 _ = Panic"

definition Value :: "'a list \<Rightarrow> nat \<Rightarrow> 'a outcome" where
  "Value xs i = (if i < length xs then Ok (xs ! i) else Panic)"

text \<open>What the writer of the library answers for a batch, and what its reader makes of a file: the stage that fails, or the batches of
  the table and the error of the iteration.\<close>

datatype file_write = NoWriter string | WriteFailed string | CloseFailed string | Written "byte list"

datatype parquet_file = NotParquet string | NoArrowReader string | NoTable string | Table "batch list" "string option"

subsection \<open>Task results\<close>

record ResultRow =
  pqTaskID :: string
  pqShard :: string
  pqOutputKey :: string
  pqImagesProcessed :: int
  pqBytesRead :: int

definition resultSchema :: "(string \<times> arrow_type) list" where
  "resultSchema =
     [(''task_id'', TString), (''shard'', TString), (''output_key'', TString), (''images_processed'', TInt64), (''bytes_read'', TInt64)]"

text \<open>The five builders, and the loop that appends one row to each.\<close>

record result_builders =
  taskB :: "string list"
  shardB :: "string list"
  outB :: "string list"
  imgB :: "int list"
  bytesB :: "int list"

definition append_result :: "ResultRow \<Rightarrow> result_builders \<Rightarrow> result_builders" where
  "append_result r b =
     b\<lparr>taskB := taskB b @ [pqTaskID r], shardB := shardB b @ [pqShard r], outB := outB b @ [pqOutputKey r],
       imgB := imgB b @ [pqImagesProcessed r], bytesB := bytesB b @ [pqBytesRead r]\<rparr>"

definition result_batch :: "ResultRow list \<Rightarrow> batch" where
  "result_batch rows =
     (let b = fold append_result rows \<lparr>taskB = [], shardB = [], outB = [], imgB = [], bytesB = []\<rparr>
      in \<lparr>numRows = length (taskB b), cols = [StringCol (taskB b), StringCol (shardB b), StringCol (outB b), Int64Col (imgB b), Int64Col (bytesB b)]\<rparr>)"

definition WriteResultsParquet :: "((string \<times> arrow_type) list \<Rightarrow> batch \<Rightarrow> file_write) \<Rightarrow> ResultRow list \<Rightarrow> byte list outcome" where
  "WriteResultsParquet fileWriter rows =
     (case fileWriter resultSchema (result_batch rows) of
        NoWriter e \<Rightarrow> Err (''parquet: new writer: '' @ e)
      | WriteFailed e \<Rightarrow> Err (''parquet: write batch: '' @ e)
      | CloseFailed e \<Rightarrow> Err (''parquet: close: '' @ e)
      | Written bs \<Rightarrow> Ok bs)"

fun result_rows :: "string list \<Rightarrow> string list \<Rightarrow> string list \<Rightarrow> int list \<Rightarrow> int list \<Rightarrow> nat list \<Rightarrow> ResultRow list \<Rightarrow> ResultRow list outcome" where
  "result_rows task shard out img br [] rows = Ok rows"
| "result_rows task shard out img br (i # is) rows =
     and_then (Value task i) (\<lambda>t. and_then (Value shard i) (\<lambda>s. and_then (Value out i) (\<lambda>ok.
       and_then (Value img i) (\<lambda>n. and_then (Value br i) (\<lambda>b.
         result_rows task shard out img br is
           (rows @ [\<lparr>pqTaskID = t, pqShard = s, pqOutputKey = ok, pqImagesProcessed = n, pqBytesRead = b\<rparr>]))))))"

fun result_batches :: "batch list \<Rightarrow> ResultRow list \<Rightarrow> ResultRow list outcome" where
  "result_batches [] rows = Ok rows"
| "result_batches (rec # recs) rows =
     and_then (and_then (Column rec 0) as_String) (\<lambda>task. and_then (and_then (Column rec 1) as_String) (\<lambda>shard.
       and_then (and_then (Column rec 2) as_String) (\<lambda>out. and_then (and_then (Column rec 3) as_Int64) (\<lambda>img.
         and_then (and_then (Column rec 4) as_Int64) (\<lambda>br.
           and_then (result_rows task shard out img br [0..<numRows rec] rows) (result_batches recs))))))"

definition ReadResultsParquet :: "(byte list \<Rightarrow> parquet_file) \<Rightarrow> byte list \<Rightarrow> ResultRow list outcome" where
  "ReadResultsParquet openFile data =
     (case openFile data of
        NotParquet e \<Rightarrow> Err (''parquet: open: '' @ e)
      | NoArrowReader e \<Rightarrow> Err (''parquet: arrow reader: '' @ e)
      | NoTable e \<Rightarrow> Err (''parquet: read table: '' @ e)
      | Table batches err \<Rightarrow>
          and_then (result_batches batches []) (\<lambda>rows.
            case err of Some e \<Rightarrow> Err (''parquet: iterate table: '' @ e) | None \<Rightarrow> Ok rows))"

subsection \<open>Image batches\<close>

record ImageRecord =
  irKey :: string
  irWidth :: int
  irHeight :: int
  irLabel :: string
  irData :: "byte list"

definition imageBatchSchema :: "(string \<times> arrow_type) list" where
  "imageBatchSchema = [(''key'', TString), (''width'', TInt32), (''height'', TInt32), (''label'', TString), (''data'', TBinary)]"

record image_builders =
  keyB :: "string list"
  widthB :: "int list"
  heightB :: "int list"
  labelB :: "string list"
  dataB :: "byte list list"

definition append_image :: "ImageRecord \<Rightarrow> image_builders \<Rightarrow> image_builders" where
  "append_image im b =
     b\<lparr>keyB := keyB b @ [irKey im], widthB := widthB b @ [irWidth im], heightB := heightB b @ [irHeight im],
       labelB := labelB b @ [irLabel im], dataB := dataB b @ [irData im]\<rparr>"

definition BuildImageBatch :: "ImageRecord list \<Rightarrow> batch" where
  "BuildImageBatch imgs =
     (let b = fold append_image imgs \<lparr>keyB = [], widthB = [], heightB = [], labelB = [], dataB = []\<rparr>
      in \<lparr>numRows = length (keyB b), cols = [StringCol (keyB b), Int32Col (widthB b), Int32Col (heightB b), StringCol (labelB b), BinaryCol (dataB b)]\<rparr>)"

text \<open>The IPC stream: the writer fails at the batch or at the end; the reader cannot be made, or gives batches and ends with an error (\<^verbatim>\<open>io.EOF\<close> is the text
  \<^verbatim>\<open>EOF\<close>) or none. Decoding retains every batch for the caller, and releases them on an error: the second component is what is still held.\<close>

datatype ipc_write = IpcWriteFailed string | IpcCloseFailed string | IpcWritten "byte list"

datatype ipc_stream = NoStream string | IpcStream "batch list" "string option"

definition EncodeIPC :: "(batch \<Rightarrow> ipc_write) \<Rightarrow> batch \<Rightarrow> byte list outcome" where
  "EncodeIPC ipcWriter rec =
     (case ipcWriter rec of
        IpcWriteFailed e \<Rightarrow> Err (''arrow: ipc write: '' @ e)
      | IpcCloseFailed e \<Rightarrow> Err (''arrow: ipc close: '' @ e)
      | IpcWritten bs \<Rightarrow> Ok bs)"

fun retain_all :: "batch list \<Rightarrow> batch list \<Rightarrow> batch multiset \<Rightarrow> batch list \<times> batch multiset" where
  "retain_all [] out held = (out, held)"
| "retain_all (rec # recs) out held = retain_all recs (out @ [rec]) (add_mset rec held)"

fun release_all :: "batch list \<Rightarrow> batch multiset \<Rightarrow> batch multiset" where
  "release_all [] held = held"
| "release_all (rec # recs) held = release_all recs (held - {#rec#})"

definition DecodeIPC :: "(byte list \<Rightarrow> ipc_stream) \<Rightarrow> byte list \<Rightarrow> batch list outcome \<times> batch multiset" where
  "DecodeIPC ipcReader data =
     (case ipcReader data of
        NoStream e \<Rightarrow> (Err (''arrow: ipc reader: '' @ e), {#})
      | IpcStream recs err \<Rightarrow>
          (let (out, held) = retain_all recs [] {#}
           in case err of
                Some e \<Rightarrow> if e \<noteq> ''EOF'' then (Err (''arrow: ipc read: '' @ e), release_all out held) else (Ok out, held)
              | None \<Rightarrow> (Ok out, held)))"

subsection \<open>Embeddings\<close>

text \<open>\<^verbatim>\<open>arrow.FixedSizeListOf\<close> panics for a width that is not positive; the width is the dimension truncated to 32 bits.\<close>

definition embeddingSchema :: "int \<Rightarrow> (string \<times> arrow_type) list outcome" where
  "embeddingSchema dm =
     (if i32 dm \<le> 0 then Panic else Ok [(''id'', TString), (''dataset'', TString), (''vector'', TFixedSizeList (i32 dm) TFloat32)])"

record embedding_builders =
  idB :: "string list"
  dsB :: "string list"
  vecB :: nat
  valB :: "real list"

fun append_embeddings :: "int \<Rightarrow> nat \<Rightarrow> Embedding list \<Rightarrow> embedding_builders \<Rightarrow> embedding_builders outcome" where
  "append_embeddings dm i [] b = Ok b"
| "append_embeddings dm i (r # rows) b =
     (if int (length (emVector r)) \<noteq> dm then Err (vec_len_error i r dm)
      else append_embeddings dm (i + 1) rows
             (b\<lparr>idB := idB b @ [emID r], dsB := dsB b @ [emDataset r], vecB := vecB b + 1, valB := valB b @ emVector r\<rparr>))"

definition embedding_batch :: "int \<Rightarrow> embedding_builders \<Rightarrow> batch" where
  "embedding_batch dm b =
     \<lparr>numRows = length (idB b), cols = [StringCol (idB b), StringCol (dsB b), FixedSizeListCol 0 (nat (i32 dm)) (Float32Col (valB b))]\<rparr>"

definition WriteEmbeddingsParquet ::
  "((string \<times> arrow_type) list \<Rightarrow> batch \<Rightarrow> file_write) \<Rightarrow> int \<Rightarrow> Embedding list \<Rightarrow> byte list outcome" where
  "WriteEmbeddingsParquet fileWriter dm rows =
     (if dm \<le> 0 then Err (''vsearch: dim must be positive, got '' @ fmt_d dm)
      else and_then (embeddingSchema dm) (\<lambda>schema.
        and_then (append_embeddings dm 0 rows \<lparr>idB = [], dsB = [], vecB = 0, valB = []\<rparr>) (\<lambda>b.
          case fileWriter schema (embedding_batch dm b) of
            NoWriter e \<Rightarrow> Err (''vsearch: new parquet writer: '' @ e)
          | WriteFailed e \<Rightarrow> Err (''vsearch: write batch: '' @ e)
          | CloseFailed e \<Rightarrow> Err (''vsearch: close parquet: '' @ e)
          | Written bs \<Rightarrow> Ok bs)))"

text \<open>\<^verbatim>\<open>ValueOffsets(i)\<close> of both list arrays, and the slice of the values.\<close>

definition slice_values :: "real list \<Rightarrow> nat \<Rightarrow> nat \<Rightarrow> real list outcome" where
  "slice_values vals start stop = (if start \<le> stop \<and> stop \<le> length vals then Ok (take (stop - start) (drop start vals)) else Panic)"

fun vecAt :: "(column \<Rightarrow> string) \<Rightarrow> column \<Rightarrow> nat \<Rightarrow> real list outcome" where
  "vecAt typeName (ListCol offs child) i =
     and_then (as_Float32 child) (\<lambda>vals.
       and_then (Value offs i) (\<lambda>start. and_then (Value offs (i + 1)) (\<lambda>stop. slice_values vals start stop)))"
| "vecAt typeName (FixedSizeListCol off n child) i =
     and_then (as_Float32 child) (\<lambda>vals. slice_values vals ((off + i) * n) ((off + i + 1) * n))"
| "vecAt typeName col i = Err (''vsearch: vector column is '' @ typeName col @ '', want a float32 list'')"

definition ragged_error :: "nat \<Rightarrow> int \<Rightarrow> string" where
  "ragged_error n dm = ''vsearch: row has vector len '' @ dec_nat n @ '', want dim '' @ fmt_d dm @ '' (ragged corpus)''"

fun embedding_rows ::
  "(column \<Rightarrow> string) \<Rightarrow> string list \<Rightarrow> string list \<Rightarrow> column \<Rightarrow> nat list \<Rightarrow> int \<times> Embedding list \<Rightarrow> (int \<times> Embedding list) outcome" where
  "embedding_rows typeName ids ds vec [] acc = Ok acc"
| "embedding_rows typeName ids ds vec (i # is) (dm, rows) =
     and_then (vecAt typeName vec i) (\<lambda>v.
       if dm \<noteq> 0 \<and> int (length v) \<noteq> dm then Err (ragged_error (length v) dm)
       else and_then (Value ids i) (\<lambda>x. and_then (Value ds i) (\<lambda>d.
         embedding_rows typeName ids ds vec is
           (if dm = 0 then int (length v) else dm, rows @ [\<lparr>emID = x, emDataset = d, emVector = v\<rparr>]))))"

fun embedding_batches :: "(column \<Rightarrow> string) \<Rightarrow> batch list \<Rightarrow> int \<times> Embedding list \<Rightarrow> (int \<times> Embedding list) outcome" where
  "embedding_batches typeName [] acc = Ok acc"
| "embedding_batches typeName (rec # recs) acc =
     and_then (and_then (Column rec 0) as_String) (\<lambda>ids. and_then (and_then (Column rec 1) as_String) (\<lambda>ds.
       and_then (Column rec 2) (\<lambda>vec.
         and_then (embedding_rows typeName ids ds vec [0..<numRows rec] acc) (embedding_batches typeName recs))))"

definition ReadEmbeddingsParquet ::
  "(column \<Rightarrow> string) \<Rightarrow> (byte list \<Rightarrow> parquet_file) \<Rightarrow> byte list \<Rightarrow> (int \<times> Embedding list) outcome" where
  "ReadEmbeddingsParquet typeName openFile data =
     (case openFile data of
        NotParquet e \<Rightarrow> Err (''vsearch: open parquet: '' @ e)
      | NoArrowReader e \<Rightarrow> Err (''vsearch: arrow reader: '' @ e)
      | NoTable e \<Rightarrow> Err (''vsearch: read table: '' @ e)
      | Table batches err \<Rightarrow>
          and_then (embedding_batches typeName batches (0, [])) (\<lambda>res.
            case err of Some e \<Rightarrow> Err (''vsearch: iterate table: '' @ e) | None \<Rightarrow> Ok res))"

subsection \<open>What the library keeps\<close>

text \<open>The cells of a column. Vectors of a list column are the slices its offsets name.\<close>

datatype cell = CString string | CInt int | CBytes "byte list" | CVec "real list" | CNone

fun cells :: "nat \<Rightarrow> column \<Rightarrow> cell list" where
  "cells n (StringCol xs) = map CString xs"
| "cells n (Int32Col xs) = map CInt xs"
| "cells n (Int64Col xs) = map CInt xs"
| "cells n (BinaryCol xs) = map CBytes xs"
| "cells n (ListCol offs (Float32Col vs)) = map (\<lambda>i. CVec (take (offs ! (i + 1) - offs ! i) (drop (offs ! i) vs))) [0..<n]"
| "cells n (FixedSizeListCol off w (Float32Col vs)) = map (\<lambda>i. CVec (take w (drop ((off + i) * w) vs))) [0..<n]"
| "cells n _ = replicate n CNone"

text \<open>The type with which a column is read: the vectors of a fixed-size list come back as a list column.\<close>

fun read_type :: "column \<Rightarrow> arrow_type" where
  "read_type (StringCol _) = TString"
| "read_type (Int32Col _) = TInt32"
| "read_type (Int64Col _) = TInt64"
| "read_type (BinaryCol _) = TBinary"
| "read_type (Float32Col _) = TFloat32"
| "read_type (ListCol _ c) = TList (read_type c)"
| "read_type (FixedSizeListCol _ _ c) = TList (read_type c)"
| "read_type (OtherCol s) = TOther s"

fun wf_col :: "nat \<Rightarrow> column \<Rightarrow> bool" where
  "wf_col n (ListCol offs (Float32Col vs)) \<longleftrightarrow> length offs = n + 1 \<and> sorted offs \<and> last offs \<le> length vs"
| "wf_col n (FixedSizeListCol off w (Float32Col vs)) \<longleftrightarrow> (off + n) * w \<le> length vs"
| "wf_col n c \<longleftrightarrow> length (cells n c) = n"

definition wf_batch :: "batch \<Rightarrow> bool" where
  "wf_batch b \<longleftrightarrow> list_all (wf_col (numRows b)) (cols b)"

definition gather :: "batch list \<Rightarrow> nat \<Rightarrow> cell list" where
  "gather bs c = concat (map (\<lambda>b. cells (numRows b) (cols b ! c)) bs)"

lemma gather_simps [simp]: "gather [] c = []" "gather (b # bs) c = cells (numRows b) (cols b ! c) @ gather bs c"
  by (simp_all add: gather_def)

definition stored :: "batch \<Rightarrow> batch list \<Rightarrow> bool" where
  "stored rec bs \<longleftrightarrow>
     list_all (\<lambda>b. wf_batch b \<and> map read_type (cols b) = map read_type (cols rec)) bs
     \<and> (\<forall>c < length (cols rec). gather bs c = cells (numRows rec) (cols rec ! c))"

text \<open>The columns that the builders make of the rows.\<close>

lemma fold_append_result:
  "fold append_result rows b =
     b\<lparr>taskB := taskB b @ map pqTaskID rows, shardB := shardB b @ map pqShard rows, outB := outB b @ map pqOutputKey rows,
       imgB := imgB b @ map pqImagesProcessed rows, bytesB := bytesB b @ map pqBytesRead rows\<rparr>"
  by (induction rows arbitrary: b) (simp_all add: append_result_def)

lemma result_batch_cols:
  "result_batch rows = \<lparr>numRows = length rows, cols = [StringCol (map pqTaskID rows), StringCol (map pqShard rows), StringCol (map pqOutputKey rows),
     Int64Col (map pqImagesProcessed rows), Int64Col (map pqBytesRead rows)]\<rparr>"
  by (simp add: result_batch_def fold_append_result)

lemma read_type_string: "read_type c = TString \<longleftrightarrow> (\<exists>xs. c = StringCol xs)"
  by (cases c) simp_all

lemma read_type_int64: "read_type c = TInt64 \<longleftrightarrow> (\<exists>xs. c = Int64Col xs)"
  by (cases c) simp_all

lemma read_type_float: "read_type c = TFloat32 \<longleftrightarrow> (\<exists>xs. c = Float32Col xs)"
  by (cases c) simp_all

lemma read_type_list:
  "read_type c = TList TFloat32 \<longleftrightarrow> (\<exists>offs vs. c = ListCol offs (Float32Col vs)) \<or> (\<exists>off w vs. c = FixedSizeListCol off w (Float32Col vs))"
  by (cases c) (auto simp: read_type_float)

lemmas read_types = read_type_string read_type_int64 read_type_list

text \<open>Reading one batch of results gives the rows of its columns.\<close>

lemma result_rows_ok:
  "\<forall>i \<in> set is. i < length t \<and> i < length s \<and> i < length ks \<and> i < length n \<and> i < length b \<Longrightarrow>
   result_rows t s ks n b is rows =
     Ok (rows @ map (\<lambda>i. \<lparr>pqTaskID = t ! i, pqShard = s ! i, pqOutputKey = ks ! i, pqImagesProcessed = n ! i, pqBytesRead = b ! i\<rparr>) is)"
  by (induction "is" arbitrary: rows) (simp_all add: Value_def)

lemma map_nth_map: "length xs = n \<Longrightarrow> map ((\<lambda>i. f (xs ! i))) [0..<n] = map f xs"
  by (metis map_nth map_map comp_def map_cong)

text \<open>The cell of a row in a column; a row is determined by its cells.\<close>

definition result_cell :: "nat \<Rightarrow> ResultRow \<Rightarrow> cell" where
  "result_cell c r = [CString (pqTaskID r), CString (pqShard r), CString (pqOutputKey r), CInt (pqImagesProcessed r), CInt (pqBytesRead r)] ! c"

lemma all_less_5: "(\<forall>c < 5. P c) \<longleftrightarrow> P 0 \<and> P 1 \<and> P 2 \<and> P 3 \<and> P (4::nat)"
  by (auto simp: numeral_eq_Suc less_Suc_eq)

lemma result_cells_inj: "\<forall>c < 5. map (result_cell c) xs = map (result_cell c) ys \<Longrightarrow> xs = ys"
proof (induction xs arbitrary: ys)
  case Nil
  then show ?case by (metis zero_less_numeral list.map_disc_iff)
next
  case (Cons x xs)
  from Cons.prems have "map (result_cell 0) (x # xs) = map (result_cell 0) ys" by simp
  then obtain y zs where ys: "ys = y # zs" by (cases ys) auto
  with Cons have "xs = zs" by simp
  moreover have "x = y" using Cons.prems ys by (auto simp: all_less_5 result_cell_def intro: ResultRow.equality)
  ultimately show ?case using ys by simp
qed

lemma result_batch_read:
  assumes "wf_batch b" "map read_type (cols b) = [TString, TString, TString, TInt64, TInt64]"
  obtains new where "result_batches (b # bs) rows = result_batches bs (rows @ new)" "\<forall>c < 5. map (result_cell c) new = cells (numRows b) (cols b ! c)"
proof -
  from assms(2) obtain t s ks n r where c: "cols b = [StringCol t, StringCol s, StringCol ks, Int64Col n, Int64Col r]"
    by (auto simp: map_eq_Cons_conv read_types)
  with assms(1) have len: "length t = numRows b" "length s = numRows b" "length ks = numRows b" "length n = numRows b" "length r = numRows b"
    by (simp_all add: wf_batch_def)
  show thesis
    by (rule that [of "map (\<lambda>i. \<lparr>pqTaskID = t ! i, pqShard = s ! i, pqOutputKey = ks ! i, pqImagesProcessed = n ! i, pqBytesRead = r ! i\<rparr>) [0..<numRows b]"])
      (simp_all add: c Column_def result_rows_ok len comp_def map_nth_map all_less_5 result_cell_def)
qed

lemma result_batches_read:
  assumes "list_all (\<lambda>b. wf_batch b \<and> map read_type (cols b) = [TString, TString, TString, TInt64, TInt64]) bs"
  shows "\<exists>new. result_batches bs rows = Ok (rows @ new) \<and> (\<forall>c < 5. map (result_cell c) new = gather bs c)"
  using assms
proof (induction bs arbitrary: rows)
  case (Cons b bs)
  then have "wf_batch b" "map read_type (cols b) = [TString, TString, TString, TInt64, TInt64]" by simp_all
  from result_batch_read [OF this, of bs rows] obtain new where n: "result_batches (b # bs) rows = result_batches bs (rows @ new)"
    "\<forall>c < 5. map (result_cell c) new = cells (numRows b) (cols b ! c)" by blast
  from Cons.IH [of "rows @ new"] Cons.prems obtain more where m: "result_batches bs (rows @ new) = Ok ((rows @ new) @ more)"
    "\<forall>c < 5. map (result_cell c) more = gather bs c" unfolding list.pred_inject by blast
  show ?case by (rule exI [of _ "new @ more"]) (use n m in \<open>simp del: result_batches.simps\<close>)
qed simp

text \<open>Results that were written are read back, in whatever batches the reader returns them.\<close>

lemma results_round_trip:
  assumes "fileWriter resultSchema (result_batch rows) = Written data" "openFile data = Table bs None" "stored (result_batch rows) bs"
  shows "WriteResultsParquet fileWriter rows = Ok data \<and> ReadResultsParquet openFile data = Ok rows"
proof -
  have "list_all (\<lambda>b. wf_batch b \<and> map read_type (cols b) = [TString, TString, TString, TInt64, TInt64]) bs"
    using assms(3) by (simp add: stored_def result_batch_cols)
  from result_batches_read [OF this, of "[]"] obtain new where new: "result_batches bs [] = Ok new" "\<forall>c < 5. map (result_cell c) new = gather bs c" by auto
  have "gather bs c = map (result_cell c) rows" if "c < 5" for c
  proof -
    have "\<forall>c < 5. cells (length rows) (cols (result_batch rows) ! c) = map (result_cell c) rows"
      by (simp add: all_less_5 result_batch_cols result_cell_def)
    with assms(3) that show ?thesis by (simp add: stored_def result_batch_cols)
  qed
  with new(2) have "new = rows" by (intro result_cells_inj) simp
  with new(1) assms(1,2) show ?thesis by (simp add: WriteResultsParquet_def ReadResultsParquet_def)
qed

text \<open>A vector column that the library returns, in either encoding, gives its cells without a panic.\<close>

lemma vecAt_cell:
  assumes "wf_col n c" "read_type c = TList TFloat32" "i < n"
  obtains v where "vecAt tn c i = Ok v" "cells n c ! i = CVec v"
  using assms(2) unfolding read_type_list
proof (elim disjE exE)
  fix offs vs assume c: "c = ListCol offs (Float32Col vs)"
  with assms have len: "length offs = n + 1" and sorted: "sorted offs" "last offs \<le> length vs" by simp_all
  have "offs ! (i + 1) \<le> last offs" using len sorted assms(3) by (subst last_conv_nth) (auto intro: sorted_nth_mono)
  moreover have "offs ! i \<le> offs ! (i + 1)" using len sorted assms(3) by (auto intro: sorted_nth_mono)
  ultimately show thesis using len sorted assms(3) c
    by (intro that [of "take (offs ! (i + 1) - offs ! i) (drop (offs ! i) vs)"]) (simp_all add: Value_def slice_values_def)
next
  fix off w vs assume c: "c = FixedSizeListCol off w (Float32Col vs)"
  with assms have "(off + n) * w \<le> length vs" by simp
  moreover have "(off + i + 1) * w \<le> (off + n) * w" using assms(3) by (intro mult_le_mono1) simp
  ultimately have "(off + i + 1) * w \<le> length vs" by linarith
  then show thesis using assms(3) c
    by (intro that [of "take w (drop ((off + i) * w) vs)"]) (simp_all add: slice_values_def)
qed

text \<open>Rows of one width are read with that width; the width of a corpus without rows is zero.\<close>

definition dim_of :: "int \<Rightarrow> Embedding list \<Rightarrow> int" where
  "dim_of w rows = (if rows = [] then 0 else w)"

definition embedding_cell :: "nat \<Rightarrow> Embedding \<Rightarrow> cell" where
  "embedding_cell c r = [CString (emID r), CString (emDataset r), CVec (emVector r)] ! c"

lemma all_less_3: "(\<forall>c < 3. P c) \<longleftrightarrow> P 0 \<and> P 1 \<and> P (2::nat)"
  by (auto simp: numeral_eq_Suc less_Suc_eq)

lemma embedding_rows_ok:
  assumes "\<forall>i \<in> set is. i < length ids \<and> i < length ds \<and> vecAt tn vec i = Ok (v i) \<and> int (length (v i)) = w" "0 < w"
  shows "embedding_rows tn ids ds vec is (dim_of w rows, rows) =
    (let new = map (\<lambda>i. \<lparr>emID = ids ! i, emDataset = ds ! i, emVector = v i\<rparr>) is in Ok (dim_of w (rows @ new), rows @ new))"
  using assms
proof (induction "is" arbitrary: rows)
  case (Cons i "is")
  let ?x = "\<lparr>emID = ids ! i, emDataset = ds ! i, emVector = v i\<rparr>"
  have "embedding_rows tn ids ds vec (i # is) (dim_of w rows, rows) = embedding_rows tn ids ds vec is (dim_of w (rows @ [?x]), rows @ [?x])"
    using Cons.prems by (cases "rows = []") (simp_all add: dim_of_def Value_def)
  with Cons show ?case by (simp add: Let_def del: embedding_rows.simps)
qed simp

lemma embedding_batch_read:
  assumes "wf_batch b" "map read_type (cols b) = [TString, TString, TList TFloat32]" "0 < w"
    and "\<forall>x \<in> set (cells (numRows b) (cols b ! 2)). \<exists>v. x = CVec v \<and> int (length v) = w"
  obtains new where "embedding_batches tn (b # bs) (dim_of w rows, rows) = embedding_batches tn bs (dim_of w (rows @ new), rows @ new)"
    "\<forall>c < 3. map (embedding_cell c) new = cells (numRows b) (cols b ! c)"
proof -
  from assms(2) obtain ids ds vec where c: "cols b = [StringCol ids, StringCol ds, vec]" and vec: "read_type vec = TList TFloat32"
    by (auto simp: map_eq_Cons_conv read_type_string)
  with assms(1) have len: "length ids = numRows b" "length ds = numRows b" and wf: "wf_col (numRows b) vec" by (simp_all add: wf_batch_def)
  have lc: "length (cells (numRows b) vec) = numRows b" using vec wf unfolding read_type_list by auto
  define v where "v i = (SOME v. vecAt tn vec i = Ok v)" for i
  have v: "vecAt tn vec i = Ok (v i) \<and> cells (numRows b) vec ! i = CVec (v i)" if "i < numRows b" for i
  proof -
    from vecAt_cell [OF wf vec that] obtain u where "vecAt tn vec i = Ok u" "cells (numRows b) vec ! i = CVec u" by blast
    then show ?thesis by (simp add: v_def)
  qed
  have vl: "int (length (v i)) = w" if "i < numRows b" for i
  proof -
    have "cells (numRows b) vec ! i \<in> set (cells (numRows b) vec)" using that lc by simp
    with assms(4) c v [OF that] show ?thesis by auto
  qed
  have vm: "map (\<lambda>i. CVec (v i)) [0..<numRows b] = cells (numRows b) vec" using lc v by (intro nth_equalityI) simp_all
  show thesis
  proof (rule that [of "map (\<lambda>i. \<lparr>emID = ids ! i, emDataset = ds ! i, emVector = v i\<rparr>) [0..<numRows b]"])
    have "\<forall>i \<in> set [0..<numRows b]. i < length ids \<and> i < length ds \<and> vecAt tn vec i = Ok (v i) \<and> int (length (v i)) = w"
      using len v vl by simp
    from embedding_rows_ok [OF this assms(3), of rows]
    show "embedding_batches tn (b # bs) (dim_of w rows, rows) = embedding_batches tn bs (dim_of w (rows @ map (\<lambda>i. \<lparr>emID = ids ! i, emDataset = ds ! i, emVector = v i\<rparr>) [0..<numRows b]), rows @ map (\<lambda>i. \<lparr>emID = ids ! i, emDataset = ds ! i, emVector = v i\<rparr>) [0..<numRows b])"
      by (simp add: c Column_def Let_def)
    show "\<forall>c < 3. map (embedding_cell c) (map (\<lambda>i. \<lparr>emID = ids ! i, emDataset = ds ! i, emVector = v i\<rparr>) [0..<numRows b]) = cells (numRows b) (cols b ! c)"
      by (simp add: c all_less_3 embedding_cell_def comp_def len map_nth_map vm)
  qed
qed

lemma embedding_batches_read:
  assumes "list_all (\<lambda>b. wf_batch b \<and> map read_type (cols b) = [TString, TString, TList TFloat32]) bs" "0 < w"
    and "\<forall>x \<in> set (gather bs 2). \<exists>v. x = CVec v \<and> int (length v) = w"
  shows "\<exists>new. embedding_batches tn bs (dim_of w rows, rows) = Ok (dim_of w (rows @ new), rows @ new) \<and> (\<forall>c < 3. map (embedding_cell c) new = gather bs c)"
  using assms
proof (induction bs arbitrary: rows)
  case (Cons b bs)
  then have b: "wf_batch b" "map read_type (cols b) = [TString, TString, TList TFloat32]"
    and v: "\<forall>x \<in> set (cells (numRows b) (cols b ! 2)). \<exists>v. x = CVec v \<and> int (length v) = w" by simp_all
  from embedding_batch_read [OF b assms(2) v, of tn bs rows] obtain new where
    n: "embedding_batches tn (b # bs) (dim_of w rows, rows) = embedding_batches tn bs (dim_of w (rows @ new), rows @ new)"
    "\<forall>c < 3. map (embedding_cell c) new = cells (numRows b) (cols b ! c)" by blast
  from Cons.IH [of "rows @ new"] Cons.prems obtain more where
    m: "embedding_batches tn bs (dim_of w (rows @ new), rows @ new) = Ok (dim_of w ((rows @ new) @ more), (rows @ new) @ more)"
    "\<forall>c < 3. map (embedding_cell c) more = gather bs c" by auto
  show ?case by (rule exI [of _ "new @ more"]) (use n m in \<open>simp del: embedding_batches.simps\<close>)
qed simp

lemma append_embeddings_ok:
  "\<forall>r \<in> set rows. int (length (emVector r)) = w \<Longrightarrow> append_embeddings w i rows b =
     Ok (b\<lparr>idB := idB b @ map emID rows, dsB := dsB b @ map emDataset rows, vecB := vecB b + length rows, valB := valB b @ concat (map emVector rows)\<rparr>)"
  by (induction rows arbitrary: i b) simp_all

lemma append_embeddings_bad:
  "\<forall>r \<in> set rows. int (length (emVector r)) = w \<Longrightarrow> int (length (emVector x)) \<noteq> w \<Longrightarrow>
   append_embeddings w i (rows @ x # rest) b = Err (vec_len_error (i + length rows) x w)"
  by (induction rows arbitrary: i b) simp_all

text \<open>A corpus with a row of another width is not written: the error names the first one, and the library is not called.\<close>

lemma ragged_corpus_refused:
  assumes "0 < w" "w < 2 ^ 31" "\<forall>r \<in> set rows. int (length (emVector r)) = w" "int (length (emVector x)) \<noteq> w"
  shows "WriteEmbeddingsParquet fw w (rows @ x # rest) = Err (vec_len_error (length rows) x w)"
  using assms append_embeddings_bad [OF assms(3,4), of 0] by (simp add: WriteEmbeddingsParquet_def embeddingSchema_def)

definition corpus_batch :: "int \<Rightarrow> Embedding list \<Rightarrow> batch" where
  "corpus_batch w rows = \<lparr>numRows = length rows, cols = [StringCol (map emID rows), StringCol (map emDataset rows),
     FixedSizeListCol 0 (nat w) (Float32Col (concat (map emVector rows)))]\<rparr>"

lemma corpus_cells:
  assumes "\<forall>r \<in> set rows. int (length (emVector r)) = w"
  shows "\<forall>c < 3. cells (length rows) (cols (corpus_batch w rows) ! c) = map (embedding_cell c) rows"
proof -
  have "take (nat w) (drop (i * nat w) (concat (map emVector rows))) = emVector (rows ! i)" if "i < length rows" for i
    using nth_block [of i "map emVector rows" "nat w"] assms that by force
  then have "map (\<lambda>i. CVec (take (nat w) (drop (i * nat w) (concat (map emVector rows))))) [0..<length rows] = map (embedding_cell 2) rows"
    by (intro nth_equalityI) (simp_all add: embedding_cell_def)
  then show ?thesis by (simp add: all_less_3 corpus_batch_def embedding_cell_def)
qed

lemma embedding_cells_inj: "\<forall>c < 3. map (embedding_cell c) xs = map (embedding_cell c) ys \<Longrightarrow> xs = ys"
proof (induction xs arbitrary: ys)
  case Nil
  then show ?case by (metis zero_less_numeral list.map_disc_iff)
next
  case (Cons x xs)
  from Cons.prems have "map (embedding_cell 0) (x # xs) = map (embedding_cell 0) ys" by simp
  then obtain y zs where ys: "ys = y # zs" by (cases ys) auto
  with Cons have "xs = zs" by simp
  moreover have "x = y" using Cons.prems ys by (auto simp: all_less_3 embedding_cell_def intro: Embedding.equality)
  ultimately show ?case using ys by simp
qed

text \<open>A corpus that was written is read back with its rows; its width is the width of its rows, and zero when it has none, whatever width it
  was written with.\<close>

lemma embeddings_round_trip:
  assumes "0 < w" "w < 2 ^ 31" "\<forall>r \<in> set rows. int (length (emVector r)) = w"
    and "fw [(''id'', TString), (''dataset'', TString), (''vector'', TFixedSizeList w TFloat32)] (corpus_batch w rows) = Written data"
    and "openFile data = Table bs None" "stored (corpus_batch w rows) bs"
  shows "WriteEmbeddingsParquet fw w rows = Ok data \<and> ReadEmbeddingsParquet tn openFile data = Ok (dim_of w rows, rows)"
proof
  show "WriteEmbeddingsParquet fw w rows = Ok data" using assms(1,2,4) append_embeddings_ok [OF assms(3), of 0]
    by (simp add: WriteEmbeddingsParquet_def embeddingSchema_def embedding_batch_def corpus_batch_def)
  have g: "gather bs c = map (embedding_cell c) rows" if "c < 3" for c
    using corpus_cells [OF assms(3)] assms(6) that by (simp add: stored_def corpus_batch_def)
  have "\<forall>x \<in> set (gather bs 2). \<exists>v. x = CVec v \<and> int (length v) = w" using assms(3) by (auto simp: g embedding_cell_def)
  moreover have "list_all (\<lambda>b. wf_batch b \<and> map read_type (cols b) = [TString, TString, TList TFloat32]) bs"
    using assms(6) by (simp add: stored_def corpus_batch_def)
  ultimately obtain new where n: "embedding_batches tn bs (dim_of w [], []) = Ok (dim_of w new, new)" "\<forall>c < 3. map (embedding_cell c) new = gather bs c"
    using embedding_batches_read [OF _ assms(1), of bs tn "[]"] by auto
  have "new = rows" by (rule embedding_cells_inj) (simp add: n g)
  with n(1) assms(5) show "ReadEmbeddingsParquet tn openFile data = Ok (dim_of w rows, rows)"
    by (simp add: ReadEmbeddingsParquet_def dim_of_def)
qed

text \<open>So the index loaded from a stored corpus is the index of its rows; only a corpus without rows cannot be loaded.\<close>

lemma load_written_corpus:
  assumes "0 < w" "w < 2 ^ 31" "\<forall>r \<in> set rows. int (length (emVector r)) = w"
    and "fw [(''id'', TString), (''dataset'', TString), (''vector'', TFixedSizeList w TFloat32)] (corpus_batch w rows) = Written data"
    and "openFile data = Table bs None" "stored (corpus_batch w rows) bs" "loadBytes rd objs ref = Ok data"
  shows "LoadIndex (ReadEmbeddingsParquet tn openFile) rd objs ref = (if rows = [] then Err ''vsearch: dim must be positive, got 0'' else NewIndex w rows)"
proof -
  have "ReadEmbeddingsParquet tn openFile data = Ok (dim_of w rows, rows)" using embeddings_round_trip [of w rows fw data openFile bs tn] assms(1-6) by blast
  with assms(7) empty_corpus_fails [OF assms(7)] show ?thesis by (auto simp: LoadIndex_def dim_of_def)
qed

text \<open>The width zero stands for a width that is not known yet: rows without values at the start are not seen as ragged.\<close>

lemma empty_vectors_not_ragged:
  "embedding_rows tn [a, b] [c, d] (ListCol [0, 0, 2] (Float32Col [x, y])) [0, 1] (0, []) =
     Ok (2, [\<lparr>emID = a, emDataset = c, emVector = []\<rparr>, \<lparr>emID = b, emDataset = d, emVector = [x, y]\<rparr>])"
  by (simp add: Value_def slice_values_def)

text \<open>A width above \<open>2 ^ 31\<close> panics or is cut off.\<close>

lemma wide_corpus_panics: "2 ^ 31 \<le> w \<Longrightarrow> w < 2 ^ 32 \<Longrightarrow> WriteEmbeddingsParquet fw w rows = Panic"
proof -
  assume "2 ^ 31 \<le> w" "w < 2 ^ 32"
  then have "(w + 2 ^ 31) mod 2 ^ 32 = w + 2 ^ 31 - 2 ^ 32" using mod_pos_geq [of "2 ^ 32" "w + 2 ^ 31"] mod_pos_pos_trivial [of "w + 2 ^ 31 - 2 ^ 32" "2 ^ 32"] by simp
  with \<open>w < 2 ^ 32\<close> \<open>2 ^ 31 \<le> w\<close> show ?thesis by (simp add: WriteEmbeddingsParquet_def embeddingSchema_def i32_def)
qed

subsection \<open>Image batches column by column\<close>

lemma fold_append_image:
  "fold append_image imgs b =
     b\<lparr>keyB := keyB b @ map irKey imgs, widthB := widthB b @ map irWidth imgs, heightB := heightB b @ map irHeight imgs,
       labelB := labelB b @ map irLabel imgs, dataB := dataB b @ map irData imgs\<rparr>"
  by (induction imgs arbitrary: b) (simp_all add: append_image_def)

lemma image_batch_cols:
  "BuildImageBatch imgs = \<lparr>numRows = length imgs, cols = [StringCol (map irKey imgs), Int32Col (map irWidth imgs), Int32Col (map irHeight imgs),
     StringCol (map irLabel imgs), BinaryCol (map irData imgs)]\<rparr>"
  by (simp add: BuildImageBatch_def fold_append_image)

lemma image_batch_typed: "wf_batch (BuildImageBatch imgs) \<and> map read_type (cols (BuildImageBatch imgs)) = map snd imageBatchSchema"
  by (simp add: image_batch_cols wf_batch_def imageBatchSchema_def)

text \<open>The stream gives the batch back, and the caller holds exactly the batches that are returned: none after an error.\<close>

lemma retain_all_eq: "retain_all recs out held = (out @ recs, held + mset recs)"
  by (induction recs arbitrary: out held) simp_all

lemma release_all_eq: "release_all recs held = held - mset recs"
  by (induction recs arbitrary: held) simp_all

lemma ipc_round_trip:
  assumes "ipcWriter rec = IpcWritten data" "ipcReader data = IpcStream [rec] err" "err = None \<or> err = Some ''EOF''"
  shows "EncodeIPC ipcWriter rec = Ok data \<and> DecodeIPC ipcReader data = (Ok [rec], {#rec#})"
  using assms by (auto simp: EncodeIPC_def DecodeIPC_def retain_all_eq)

lemma decode_holds_what_it_returns:
  "snd (DecodeIPC ipcReader data) = (case fst (DecodeIPC ipcReader data) of Ok recs \<Rightarrow> mset recs | _ \<Rightarrow> {#})"
  by (auto simp: DecodeIPC_def retain_all_eq release_all_eq split: ipc_stream.splits option.splits)

end
