(* ===== verification/Gen_Images.thy ===== *)
theory Gen_Images
  imports Package Runs "HOL-Library.Multiset"
begin

section \<open>The generator of test images\<close>

text \<open>
  \<^verbatim>\<open>cmd/gen-images/main.go\<close>: one goroutine numbers the images and sends the numbers over a buffered channel, one goroutine per core writes
  them. One step of the relation is one channel operation or one file. The random numbers, the JPEG encoder and the files are
  arguments; a file that cannot be written is an error text. The counter is an \<^verbatim>\<open>int\<close> of 64 bits.
\<close>

subsection \<open>Names and files\<close>

definition classes :: "string list" where
  "classes = [''cat'', ''dog'', ''bird'', ''car'', ''tree'']"

text \<open>The index \<^verbatim>\<open>i%len(classes)\<close> is negative for a negative number that five does not divide.\<close>

definition nameFor :: "int \<Rightarrow> string outcome" where
  "nameFor i =
     (if i < 0 \<and> i mod 5 \<noteq> 0 then Panic
      else Ok (classes ! nat (i mod 5) @ ''_'' @ fmt_0d 6 i @ ''.jpg''))"

definition file_path :: "string \<Rightarrow> string \<Rightarrow> string" where
  "file_path out name = (if out = [] then Clean name else Clean (out @ ''/'' @ name))"

definition image_path :: "string \<Rightarrow> int \<Rightarrow> string outcome" where
  "image_path out i = (case nameFor i of Ok name \<Rightarrow> Ok (file_path out name) | Err e \<Rightarrow> Err e | Panic \<Rightarrow> Panic)"

record pixel =
  pxR :: nat
  pxG :: nat
  pxB :: nat
  pxA :: nat

fun noise :: "('r \<Rightarrow> nat \<times> 'r) \<Rightarrow> (int \<times> int) list \<Rightarrow> 'r \<Rightarrow> ((int \<times> int) \<times> pixel) list \<times> 'r" where
  "noise intn [] rng = ([], rng)"
| "noise intn (p # ps) rng =
     (let (r, rng) = intn rng; (g, rng) = intn rng; (b, rng) = intn rng; (img, rng) = noise intn ps rng
      in ((p, \<lparr>pxR = r, pxG = g, pxB = b, pxA = 255\<rparr>) # img, rng))"

definition positions :: "int \<Rightarrow> (int \<times> int) list" where
  "positions d = [(x, y). y \<leftarrow> [0..d - 1], x \<leftarrow> [0..d - 1]]"

text \<open>Creating the file, encoding into it and closing it can fail; the file then holds what the encoder had written, or is not there.\<close>

definition writeNoiseJPEG ::
  "('r \<Rightarrow> nat \<times> 'r) \<Rightarrow> string option \<Rightarrow> (int \<Rightarrow> ((int \<times> int) \<times> pixel) list \<Rightarrow> byte list \<times> string option) \<Rightarrow> string option
    \<Rightarrow> int \<Rightarrow> int \<Rightarrow> 'r \<Rightarrow> byte list option \<times> string option \<times> 'r" where
  "writeNoiseJPEG intn createErr encode closeErr d quality rng =
     (let (img, rng) = noise intn (positions d) rng
      in case createErr of
           Some e \<Rightarrow> (None, Some e, rng)
         | None \<Rightarrow>
             (case encode quality img of
                (data, Some e) \<Rightarrow> (Some data, Some e, rng)
              | (data, None) \<Rightarrow> (Some data, closeErr, rng)))"

subsection \<open>The goroutines\<close>

datatype gen_worker = Waiting | Writing int | GenDone

datatype gen_main = Producing | WaitGroup | GenReturned "string option" | GenPanicked

record Gen =
  gnNext :: int
  gnEmitted :: int
  gnJobs :: "int list"
  gnClosed :: bool
  gnWorkers :: "gen_worker list"
  gnErrs :: "string list"
  gnWritten :: "int list"
  gnMain :: gen_main

text \<open>\<^verbatim>\<open>run\<close> up to its loop: the directory exists, \<open>n\<close> goroutines are started.\<close>

definition gen_run :: "nat \<Rightarrow> string option \<Rightarrow> Gen" where
  "gen_run n mkdirErr =
     \<lparr>gnNext = 0, gnEmitted = 0, gnJobs = [], gnClosed = False, gnWorkers = (if mkdirErr = None then replicate n Waiting else []), gnErrs = [], gnWritten = [],
      gnMain = (case mkdirErr of None \<Rightarrow> Producing | Some e \<Rightarrow> GenReturned (Some (''create out dir: '' @ e)))\<rparr>"

text \<open>What the producing loop does next, without a shard and when it looks for names of one shard.\<close>

datatype produce = SendJob int | SkipJob | CloseJobs | ProducePanic

definition produce_next :: "string \<Rightarrow> int \<Rightarrow> Gen \<Rightarrow> produce" where
  "produce_next shard cnt g =
     (if shard = [] then (if gnNext g < cnt then SendJob (gnNext g) else CloseJobs)
      else if gnEmitted g < cnt then
        (case nameFor (gnNext g) of
           Ok nm \<Rightarrow> if ShardKey nm = shard then SendJob (gnNext g) else SkipJob
         | _ \<Rightarrow> ProducePanic)
      else CloseJobs)"

definition set_gen :: "nat \<Rightarrow> gen_worker \<Rightarrow> Gen \<Rightarrow> Gen" where
  "set_gen i w g = g\<lparr>gnWorkers := (gnWorkers g)[i := w]\<rparr>"

inductive gen_step :: "(string \<Rightarrow> string option) \<Rightarrow> string \<Rightarrow> string \<Rightarrow> int \<Rightarrow> Gen \<Rightarrow> Gen \<Rightarrow> bool" for wr out shard cnt where
  send_job: "gnMain g = Producing \<Longrightarrow> produce_next shard cnt g = SendJob x \<Longrightarrow> length (gnJobs g) < 2 * length (gnWorkers g) \<Longrightarrow>
    gen_step wr out shard cnt g (g\<lparr>gnJobs := gnJobs g @ [x], gnNext := i64 (gnNext g + 1), gnEmitted := i64 (gnEmitted g + 1)\<rparr>)"
| skip_job: "gnMain g = Producing \<Longrightarrow> produce_next shard cnt g = SkipJob \<Longrightarrow> gen_step wr out shard cnt g (g\<lparr>gnNext := i64 (gnNext g + 1)\<rparr>)"
| produce_panic: "gnMain g = Producing \<Longrightarrow> produce_next shard cnt g = ProducePanic \<Longrightarrow> gen_step wr out shard cnt g (g\<lparr>gnMain := GenPanicked\<rparr>)"
| close_jobs: "gnMain g = Producing \<Longrightarrow> produce_next shard cnt g = CloseJobs \<Longrightarrow>
    gen_step wr out shard cnt g (g\<lparr>gnClosed := True, gnMain := WaitGroup\<rparr>)"
| gen_return: "gnMain g = WaitGroup \<Longrightarrow> list_all (\<lambda>w. w = GenDone) (gnWorkers g) \<Longrightarrow>
    gen_step wr out shard cnt g (g\<lparr>gnMain := GenReturned (case gnErrs g of [] \<Rightarrow> None | e # _ \<Rightarrow> Some e)\<rparr>)"
| take_job: "gnMain g \<noteq> GenPanicked \<Longrightarrow> i < length (gnWorkers g) \<Longrightarrow> gnWorkers g ! i = Waiting \<Longrightarrow> gnJobs g = x # xs \<Longrightarrow>
    gen_step wr out shard cnt g (set_gen i (Writing x) (g\<lparr>gnJobs := xs\<rparr>))"
| no_more_jobs: "gnMain g \<noteq> GenPanicked \<Longrightarrow> i < length (gnWorkers g) \<Longrightarrow> gnWorkers g ! i = Waiting \<Longrightarrow> gnJobs g = [] \<Longrightarrow> gnClosed g \<Longrightarrow>
    gen_step wr out shard cnt g (set_gen i GenDone g)"
| wrote: "gnMain g \<noteq> GenPanicked \<Longrightarrow> i < length (gnWorkers g) \<Longrightarrow> gnWorkers g ! i = Writing x \<Longrightarrow> image_path out x = Ok p \<Longrightarrow> wr p = None \<Longrightarrow>
    gen_step wr out shard cnt g (set_gen i Waiting (g\<lparr>gnWritten := gnWritten g @ [x]\<rparr>))"
| write_failed: "gnMain g \<noteq> GenPanicked \<Longrightarrow> i < length (gnWorkers g) \<Longrightarrow> gnWorkers g ! i = Writing x \<Longrightarrow> image_path out x = Ok p \<Longrightarrow> wr p = Some e \<Longrightarrow>
    gen_step wr out shard cnt g (set_gen i GenDone (g\<lparr>gnErrs := if length (gnErrs g) < length (gnWorkers g) then gnErrs g @ [e] else gnErrs g\<rparr>))"

inductive_cases gen_stepE: "gen_step wr out shard cnt g g'"

subsection \<open>Every run is finite\<close>

text \<open>The counter of the loop cannot be followed forever: it wraps around after \<open>2 ^ 63\<close> numbers, and the name of the smallest one panics.\<close>

definition counter_ok :: "string \<Rightarrow> int \<Rightarrow> Gen \<Rightarrow> bool" where
  "counter_ok shard cnt g \<longleftrightarrow> cnt < 2 ^ 63 \<and> (0 \<le> gnNext g \<and> gnNext g < 2 ^ 63 \<or> shard \<noteq> [] \<and> gnNext g = - (2 ^ 63))"

fun gen_worker_weight :: "gen_worker \<Rightarrow> nat" where
  "gen_worker_weight Waiting = 1"
| "gen_worker_weight (Writing _) = 2"
| "gen_worker_weight GenDone = 0"

definition loop_weight :: "int \<Rightarrow> nat" where
  "loop_weight i = (if i < 0 then 2 else 3 * nat (2 ^ 63 - i) + 2)"

definition main_weight :: "Gen \<Rightarrow> nat" where
  "main_weight g = (case gnMain g of Producing \<Rightarrow> loop_weight (gnNext g) | WaitGroup \<Rightarrow> 1 | _ \<Rightarrow> 0)"

definition gen_weight :: "Gen \<Rightarrow> nat" where
  "gen_weight g = main_weight g + 2 * length (gnJobs g) + sum_list (map gen_worker_weight (gnWorkers g))"

definition gen_any :: "(string \<Rightarrow> string option) \<Rightarrow> string \<Rightarrow> string \<Rightarrow> int \<Rightarrow> Gen \<Rightarrow> Gen \<Rightarrow> bool" where
  "gen_any wr out shard cnt g g' \<longleftrightarrow> counter_ok shard cnt g \<and> gen_step wr out shard cnt g g'"

lemma nameFor_min: "nameFor (- (2 ^ 63)) = Panic"
  by (simp add: nameFor_def)

lemma i64_next: "0 \<le> i \<Longrightarrow> i < 2 ^ 63 \<Longrightarrow> i64 (i + 1) = (if i = 2 ^ 63 - 1 then - (2 ^ 63) else i + 1)"
  by (auto simp: i64_def)

lemma main_weight_cong: "gnMain g' = gnMain g \<Longrightarrow> gnNext g' = gnNext g \<Longrightarrow> main_weight g' = main_weight g"
  by (cases "gnMain g") (simp_all add: main_weight_def)

lemma set_gen_weight:
  assumes "i < length (gnWorkers g)" "gen_worker_weight w + 2 * length js < gen_worker_weight (gnWorkers g ! i) + 2 * length (gnJobs g)"
    "gnMain g' = gnMain g" "gnNext g' = gnNext g" "gnWorkers g' = gnWorkers g" "gnJobs g' = js"
  shows "gen_weight (set_gen i w g') < gen_weight g"
  using assms sum_list_swap [of i "gnWorkers g" gen_worker_weight w] main_weight_cong [of "set_gen i w g'" g] by (simp add: gen_weight_def set_gen_def)


lemma produce_next_bounds:
  assumes "counter_ok shard cnt g"
  shows "produce_next shard cnt g = SendJob x \<Longrightarrow> x = gnNext g \<and> 0 \<le> x" "produce_next shard cnt g = SkipJob \<Longrightarrow> 0 \<le> gnNext g"
  using assms nameFor_min by (auto simp: produce_next_def counter_ok_def split: if_splits outcome.splits)

lemma next_weight: "0 \<le> i \<Longrightarrow> i < 2 ^ 63 \<Longrightarrow> loop_weight (i64 (i + 1)) + 2 < loop_weight i"
proof -
  assume i: "0 \<le> i" "i < 2 ^ 63"
  show ?thesis
  proof (cases "i = 2 ^ 63 - 1")
    case True
    then show ?thesis by (simp add: loop_weight_def i64_def)
  next
    case False
    with i have "i64 (i + 1) = i + 1" "nat (2 ^ 63 - i) = nat (2 ^ 63 - (i + 1)) + 1" by (simp_all add: i64_next)
    with i show ?thesis by (simp only: loop_weight_def) simp
  qed
qed

lemma loop_weight_min: "2 \<le> loop_weight i"
  by (simp add: loop_weight_def)

lemma gen_any_weight:
  assumes "gen_any wr out shard cnt g g'"
  shows "gen_weight g' < gen_weight g"
proof -
  have ok: "counter_ok shard cnt g" and st: "gen_step wr out shard cnt g g'" using assms by (simp_all add: gen_any_def)
  have hi: "gnNext g < 2 ^ 63" using ok by (auto simp: counter_ok_def)
  from st show ?thesis
  proof cases
    case (send_job x)
    have "0 \<le> gnNext g" using produce_next_bounds(1) [OF ok send_job(3)] by simp
    with next_weight [OF this hi] send_job show ?thesis by (simp add: gen_weight_def main_weight_def)
  next
    case skip_job
    have "0 \<le> gnNext g" using produce_next_bounds(2) [OF ok skip_job(3)] by simp
    with next_weight [OF this hi] skip_job show ?thesis by (simp add: gen_weight_def main_weight_def)
  next
    case (take_job i x xs)
    then show ?thesis unfolding take_job(1) by (intro set_gen_weight) (simp_all add: main_weight_def set_gen_def)
  next
    case (no_more_jobs i)
    then show ?thesis unfolding no_more_jobs(1) by (intro set_gen_weight) (simp_all add: main_weight_def set_gen_def)
  next
    case (wrote i x p)
    then show ?thesis unfolding wrote(1) by (intro set_gen_weight) (simp_all add: main_weight_def set_gen_def)
  next
    case (write_failed i x p e)
    then show ?thesis unfolding write_failed(1) by (intro set_gen_weight) (simp_all add: main_weight_def set_gen_def)
  qed (use loop_weight_min [of "gnNext g"] in \<open>simp_all add: gen_weight_def main_weight_def\<close>)
qed

interpretation gen_finite: weighted_steps "gen_any wr out shard cnt" gen_weight for wr out shard cnt
  by unfold_locales (rule gen_any_weight)

text \<open>From the start the counter stays in range, so these are all runs of the program.\<close>

lemma counter_ok_step:
  assumes "gen_step wr out shard cnt g g'" "counter_ok shard cnt g"
  shows "counter_ok shard cnt g'"
  using assms(1)
proof cases
  case (send_job x)
  have n: "0 \<le> gnNext g" "gnNext g < 2 ^ 63" using produce_next_bounds(1) [OF assms(2) send_job(3)] assms(2) by (auto simp: counter_ok_def)
  have "shard = [] \<Longrightarrow> gnNext g + 1 < 2 ^ 63" using send_job(3) assms(2) by (auto simp: produce_next_def counter_ok_def split: if_splits)
  with n send_job assms(2) show ?thesis by (auto simp: counter_ok_def i64_next)
next
  case skip_job
  have n: "0 \<le> gnNext g" "gnNext g < 2 ^ 63" using produce_next_bounds(2) [OF assms(2) skip_job(3)] assms(2) by (auto simp: counter_ok_def)
  have "shard \<noteq> []" using skip_job(3) by (auto simp: produce_next_def split: if_splits)
  with n skip_job assms(2) show ?thesis by (auto simp: counter_ok_def i64_next)
qed (use assms(2) in \<open>simp_all add: counter_ok_def set_gen_def\<close>)

lemma gen_any_iff:
  assumes "cnt < 2 ^ 63"
  shows "(gen_any wr out shard cnt)\<^sup>*\<^sup>* (gen_run n me) g \<longleftrightarrow> (gen_step wr out shard cnt)\<^sup>*\<^sup>* (gen_run n me) g"
proof
  assume "(gen_any wr out shard cnt)\<^sup>*\<^sup>* (gen_run n me) g"
  then show "(gen_step wr out shard cnt)\<^sup>*\<^sup>* (gen_run n me) g" by (rule rtranclp_mono [THEN predicate2D, rotated]) (auto simp: gen_any_def)
next
  assume "(gen_step wr out shard cnt)\<^sup>*\<^sup>* (gen_run n me) g"
  then have "(gen_any wr out shard cnt)\<^sup>*\<^sup>* (gen_run n me) g \<and> counter_ok shard cnt g"
  proof (induction rule: rtranclp_induct)
    case base
    then show ?case using assms by (simp add: counter_ok_def gen_run_def)
  next
    case (step g g')
    then show ?case using counter_ok_step by (metis gen_any_def rtranclp.rtrancl_into_rtrancl)
  qed
  then show "(gen_any wr out shard cnt)\<^sup>*\<^sup>* (gen_run n me) g" by blast
qed

subsection \<open>Without errors every image is written\<close>

fun in_hand :: "gen_worker \<Rightarrow> int list" where
  "in_hand (Writing x) = [x]"
| "in_hand _ = []"

definition handed :: "Gen \<Rightarrow> int multiset" where
  "handed g = mset (gnWritten g) + mset (gnJobs g) + mset (concat (map in_hand (gnWorkers g)))"

lemma handed_set_gen:
  assumes "i < length (gnWorkers g)"
  shows "mset (concat (map in_hand ((gnWorkers g)[i := w]))) + mset (in_hand (gnWorkers g ! i)) = mset (concat (map in_hand (gnWorkers g))) + mset (in_hand w)"
proof -
  have m: "mset (concat (map in_hand ws)) = sum_list (map (\<lambda>w. mset (in_hand w)) ws)" for ws by (induction ws) simp_all
  show ?thesis unfolding m by (rule sum_list_swap [OF assms])
qed

text \<open>Every number below the counter that the loop selects is written, queued or in the hands of one goroutine.\<close>

definition selected :: "string \<Rightarrow> int \<Rightarrow> bool" where
  "selected shard i \<longleftrightarrow> shard = [] \<or> (\<exists>nm. nameFor i = Ok nm \<and> ShardKey nm = shard)"

definition counter :: "Gen \<Rightarrow> int" where
  "counter g = (if gnNext g < 0 then 2 ^ 63 else gnNext g)"

definition gen_data :: "string \<Rightarrow> Gen \<Rightarrow> bool" where
  "gen_data shard g \<longleftrightarrow> handed g = mset (filter (selected shard) [0..counter g - 1])"

definition gen_num :: "string \<Rightarrow> int \<Rightarrow> Gen \<Rightarrow> bool" where
  "gen_num shard cnt g \<longleftrightarrow> gnEmitted g = int (size (handed g)) \<and> (shard = [] \<longrightarrow> gnEmitted g = gnNext g)
     \<and> gnEmitted g \<le> max 0 cnt \<and> (gnMain g \<notin> {Producing, GenPanicked} \<longrightarrow> gnEmitted g = max 0 cnt)"

definition gen_ctl :: "nat \<Rightarrow> string \<Rightarrow> Gen \<Rightarrow> bool" where
  "gen_ctl n shard g \<longleftrightarrow> 0 < n \<and> length (gnWorkers g) = n \<and> gnErrs g = [] \<and> (gnMain g = WaitGroup \<longrightarrow> gnClosed g) \<and> (gnMain g = Producing \<longrightarrow> \<not> gnClosed g)
     \<and> (GenDone \<in> set (gnWorkers g) \<longrightarrow> gnClosed g \<and> gnJobs g = [])
     \<and> (\<forall>r. gnMain g = GenReturned r \<longrightarrow> r = None \<and> gnJobs g = [] \<and> list_all (\<lambda>w. w = GenDone) (gnWorkers g))
     \<and> (gnMain g = GenPanicked \<longrightarrow> shard \<noteq> [])"

lemma handed_upd [simp]:
  "handed (g\<lparr>gnMain := m\<rparr>) = handed g" "handed (g\<lparr>gnNext := k\<rparr>) = handed g" "handed (g\<lparr>gnClosed := c\<rparr>) = handed g"
  by (simp_all add: handed_def)

lemma set_gen_fields [simp]:
  "gnMain (set_gen i w g) = gnMain g" "gnNext (set_gen i w g) = gnNext g" "gnEmitted (set_gen i w g) = gnEmitted g" "gnJobs (set_gen i w g) = gnJobs g"
  "gnClosed (set_gen i w g) = gnClosed g" "gnErrs (set_gen i w g) = gnErrs g" "gnWorkers (set_gen i w g) = (gnWorkers g)[i := w]"
  by (simp_all add: set_gen_def)

lemma handed_take: "i < length (gnWorkers g) \<Longrightarrow> gnWorkers g ! i = Waiting \<Longrightarrow> gnJobs g = x # xs \<Longrightarrow> handed (set_gen i (Writing x) (g\<lparr>gnJobs := xs\<rparr>)) = handed g"
  using handed_set_gen [of i g "Writing x"] by (simp add: handed_def set_gen_def)

lemma handed_leave: "i < length (gnWorkers g) \<Longrightarrow> gnWorkers g ! i = Waiting \<Longrightarrow> handed (set_gen i GenDone g) = handed g"
  using handed_set_gen [of i g GenDone] by (simp add: handed_def set_gen_def)

lemma handed_wrote: "i < length (gnWorkers g) \<Longrightarrow> gnWorkers g ! i = Writing x \<Longrightarrow> handed (set_gen i Waiting (g\<lparr>gnWritten := gnWritten g @ [x]\<rparr>)) = handed g"
  using handed_set_gen [of i g Waiting] by (simp add: handed_def set_gen_def)

lemmas handed_moves = handed_take handed_leave handed_wrote

lemma counter_next: "0 \<le> gnNext g \<Longrightarrow> gnNext g < 2 ^ 63 \<Longrightarrow> gnNext g' = i64 (gnNext g + 1) \<Longrightarrow> counter g' = gnNext g + 1"
  by (simp add: counter_def i64_next)

lemma produce_selects:
  "produce_next shard cnt g = SendJob x \<Longrightarrow> selected shard (gnNext g)" "produce_next shard cnt g = SkipJob \<Longrightarrow> \<not> selected shard (gnNext g)"
  by (auto simp: produce_next_def selected_def split: if_splits outcome.splits)

lemma gen_data_step:
  assumes "gen_step wr out shard cnt g g'" "counter_ok shard cnt g" "gen_data shard g" "\<forall>p. wr p = None"
  shows "gen_data shard g'"
proof -
  have hi: "gnNext g < 2 ^ 63" using assms(2) by (auto simp: counter_ok_def)
  from assms(1) show ?thesis
  proof cases
    case (send_job x)
    have x: "x = gnNext g" "0 \<le> gnNext g" using produce_next_bounds(1) [OF assms(2) send_job(3)] by simp_all
    have "counter g' = gnNext g + 1" using counter_next [OF x(2) hi] send_job(1) by simp
    with x send_job assms(3) produce_selects(1) [OF send_job(3)] show ?thesis
      by (simp add: gen_data_def handed_def counter_def upto_rec2 [of 0 "gnNext g"])
  next
    case skip_job
    have x: "0 \<le> gnNext g" by (rule produce_next_bounds(2) [OF assms(2) skip_job(3)])
    have "counter g' = gnNext g + 1" using counter_next [OF x hi] skip_job(1) by simp
    with x skip_job assms(3) produce_selects(2) [OF skip_job(3)] show ?thesis
      by (simp add: gen_data_def handed_def counter_def upto_rec2 [of 0 "gnNext g"])
  qed (use assms in \<open>simp_all add: gen_data_def handed_moves counter_def\<close>)
qed

lemma gen_num_step:
  assumes "gen_step wr out shard cnt g g'" "counter_ok shard cnt g" "gen_num shard cnt g" "\<forall>p. wr p = None"
  shows "gen_num shard cnt g'"
proof -
  have c: "cnt < 2 ^ 63" using assms(2) by (simp add: counter_ok_def)
  from assms(1) show ?thesis
  proof cases
    case (send_job x)
    have x: "x = gnNext g" "0 \<le> gnNext g" using produce_next_bounds(1) [OF assms(2) send_job(3)] by simp_all
    have e: "gnEmitted g < cnt" "0 \<le> gnEmitted g" using send_job(3) assms(3) by (auto simp: produce_next_def gen_num_def split: if_splits)
    with c have "i64 (gnEmitted g + 1) = gnEmitted g + 1" by (intro i64_id) simp_all
    with e send_job assms(3) show ?thesis by (auto simp: gen_num_def handed_def)
  next
    case close_jobs
    then have "max 0 cnt \<le> gnEmitted g" using assms(3) by (auto simp: produce_next_def gen_num_def split: if_splits outcome.splits)
    with close_jobs assms(3) show ?thesis by (auto simp: gen_num_def handed_def)
  next
    case skip_job
    then have "shard \<noteq> []" by (auto simp: produce_next_def split: if_splits)
    with skip_job assms(3) show ?thesis by (simp add: gen_num_def handed_def)
  qed (use assms in \<open>auto simp: gen_num_def handed_moves\<close>)
qed

lemma done_after_update: "GenDone \<in> set (ws[i := w]) \<Longrightarrow> w \<noteq> GenDone \<Longrightarrow> GenDone \<in> set ws"
  by (auto dest!: set_update_subset_insert [THEN subsetD])

lemma gen_ctl_step:
  assumes "gen_step wr out shard cnt g g'" "gen_ctl n shard g" "\<forall>p. wr p = None"
  shows "gen_ctl n shard g'"
  using assms(1)
proof cases
  case produce_panic
  then have "shard \<noteq> []" by (auto simp: produce_next_def split: if_splits)
  with produce_panic assms(2) show ?thesis by (auto simp: gen_ctl_def)
next
  case send_job
  with assms(2) show ?thesis by (auto simp: gen_ctl_def)
next
  case gen_return
  have "gnWorkers g \<noteq> []" using assms(2) by (auto simp: gen_ctl_def)
  with gen_return(3) have "GenDone \<in> set (gnWorkers g)" by (cases "gnWorkers g") simp_all
  with gen_return assms(2) show ?thesis by (simp add: gen_ctl_def)
next
  case (take_job i x xs)
  then have "GenDone \<notin> set (gnWorkers g)" "\<not> (\<exists>r. gnMain g = GenReturned r)" using assms(2) by (auto simp: gen_ctl_def)
  with take_job assms(2) show ?thesis by (auto simp: gen_ctl_def set_gen_def dest: done_after_update)
next
  case (no_more_jobs i)
  then have "\<not> (\<exists>r. gnMain g = GenReturned r)" using assms(2) by (auto simp: gen_ctl_def list_all_length)
  with no_more_jobs assms(2) show ?thesis by (auto simp: gen_ctl_def set_gen_def)
next
  case (wrote i x p)
  then have "\<not> (\<exists>r. gnMain g = GenReturned r)" using assms(2) by (auto simp: gen_ctl_def list_all_length)
  with wrote assms(2) show ?thesis by (auto simp: gen_ctl_def set_gen_def dest: done_after_update)
qed (use assms(2,3) in \<open>auto simp: gen_ctl_def\<close>)

definition gen_inv :: "nat \<Rightarrow> string \<Rightarrow> int \<Rightarrow> Gen \<Rightarrow> bool" where
  "gen_inv n shard cnt g \<longleftrightarrow> counter_ok shard cnt g \<and> gen_data shard g \<and> gen_num shard cnt g \<and> gen_ctl n shard g \<and> (\<forall>x \<in># handed g. 0 \<le> x)"

lemma gen_inv_start: "0 < n \<Longrightarrow> cnt < 2 ^ 63 \<Longrightarrow> gen_inv n shard cnt (gen_run n None)"
  by (auto simp: gen_inv_def counter_ok_def gen_data_def gen_num_def gen_ctl_def gen_run_def handed_def counter_def)

lemma gen_inv_step:
  assumes "gen_step wr out shard cnt g g'" "gen_inv n shard cnt g" "\<forall>p. wr p = None"
  shows "gen_inv n shard cnt g'"
proof -
  have d: "gen_data shard g'" using gen_data_step assms by (auto simp: gen_inv_def)
  then have "\<forall>x \<in># handed g'. 0 \<le> x" by (auto simp: gen_data_def)
  moreover have "counter_ok shard cnt g'" "gen_num shard cnt g'" "gen_ctl n shard g'"
    using assms counter_ok_step [OF assms(1)] gen_num_step [OF assms(1)] gen_ctl_step [OF assms(1)] by (auto simp: gen_inv_def)
  ultimately show ?thesis using d by (simp add: gen_inv_def)
qed

text \<open>A goroutine that has not finished can move: it writes, takes a number, or leaves when there is none and the channel is closed.\<close>

lemma worker_moves:
  assumes "gen_inv n shard cnt g" "\<forall>p. wr p = None" "i < length (gnWorkers g)" "gnWorkers g ! i \<noteq> GenDone" "gnJobs g \<noteq> [] \<or> gnClosed g" "gnMain g \<noteq> GenPanicked"
  shows "\<exists>g'. gen_step wr out shard cnt g g'"
proof (cases "gnWorkers g ! i")
  case Waiting
  show ?thesis
  proof (cases "gnJobs g")
    case Nil
    then show ?thesis using no_more_jobs [OF assms(6,3) Waiting Nil] assms(5) by blast
  next
    case (Cons x xs)
    then show ?thesis using take_job [OF assms(6,3) Waiting] by blast
  qed
next
  case (Writing x)
  have "x \<in> set (in_hand (gnWorkers g ! i))" using Writing by simp
  then have "x \<in># handed g" using assms(3) nth_mem [OF assms(3)] by (auto simp: handed_def)
  then have "0 \<le> x" using assms(1) by (simp add: gen_inv_def)
  then obtain p where "image_path out x = Ok p" by (auto simp: image_path_def nameFor_def)
  then show ?thesis using wrote [OF assms(6,3) Writing] assms(2) by blast
qed (use assms in simp)

definition gen_over :: "Gen \<Rightarrow> bool" where
  "gen_over g \<longleftrightarrow> gnMain g = GenReturned None \<or> gnMain g = GenPanicked"

lemma gen_moves:
  assumes "gen_inv n shard cnt g" "\<forall>p. wr p = None" "0 < n" "\<not> gen_over g"
  shows "\<exists>g'. gen_step wr out shard cnt g g'"
proof (cases "gnMain g")
  case Producing
  then have nd: "GenDone \<notin> set (gnWorkers g)" and len: "length (gnWorkers g) = n" using assms(1) by (auto simp: gen_inv_def gen_ctl_def)
  show ?thesis
  proof (cases "produce_next shard cnt g")
    case (SendJob x)
    show ?thesis
    proof (cases "length (gnJobs g) < 2 * length (gnWorkers g)")
      case True
      then show ?thesis using send_job [OF Producing SendJob] by blast
    next
      case False
      with len assms(3) have "gnJobs g \<noteq> []" "0 < length (gnWorkers g)" by auto
      moreover from this nd have "gnWorkers g ! 0 \<noteq> GenDone" by (metis nth_mem)
      ultimately show ?thesis using worker_moves [OF assms(1,2), of 0] Producing by simp
    qed
  next
    case SkipJob
    then show ?thesis using skip_job [OF Producing] by blast
  next
    case CloseJobs
    then show ?thesis using close_jobs [OF Producing] by blast
  next
    case ProducePanic
    then show ?thesis using produce_panic [OF Producing] by blast
  qed
next
  case WaitGroup
  then have cl: "gnClosed g" using assms(1) by (auto simp: gen_inv_def gen_ctl_def)
  show ?thesis
  proof (cases "list_all (\<lambda>w. w = GenDone) (gnWorkers g)")
    case True
    then show ?thesis using gen_return [OF WaitGroup] by blast
  next
    case False
    then obtain i where "i < length (gnWorkers g)" "gnWorkers g ! i \<noteq> GenDone" by (auto simp: list_all_length)
    then show ?thesis using worker_moves [OF assms(1,2)] cl WaitGroup by simp
  qed
next
  case (GenReturned r)
  then have "r = None" using assms(1) by (auto simp: gen_inv_def gen_ctl_def)
  with GenReturned assms(4) show ?thesis by (simp add: gen_over_def)
qed (use assms(4) in \<open>simp add: gen_over_def\<close>)

lemma gen_inv_run:
  assumes "(gen_step wr out shard cnt)\<^sup>*\<^sup>* (gen_run n None) g" "0 < n" "cnt < 2 ^ 63" "\<forall>p. wr p = None"
  shows "gen_inv n shard cnt g"
  using assms(1)
proof (induction rule: rtranclp_induct)
  case base
  then show ?case using gen_inv_start assms(2,3) by blast
next
  case (step g g')
  then show ?case using gen_inv_step assms(4) by blast
qed

text \<open>When no file fails: every run is finite; it can only stop by returning without an error, or, with a shard whose names run out, in a panic; and
  when it returns, exactly the wanted number of images was written: the first ones of the shard.\<close>

lemma gen_writes_the_images:
  assumes "(gen_step wr out shard cnt)\<^sup>*\<^sup>* (gen_run n None) g" "0 < n" "cnt < 2 ^ 63" "\<forall>p. wr p = None"
  shows "wfp (\<lambda>s' s. gen_any wr out shard cnt s s')
    \<and> ((\<nexists>g'. gen_step wr out shard cnt g g') \<longrightarrow> gnMain g = GenReturned None \<or> gnMain g = GenPanicked \<and> shard \<noteq> [])
    \<and> (gnMain g = GenReturned None \<longrightarrow> length (gnWritten g) = nat cnt \<and> mset (gnWritten g) = mset (filter (selected shard) [0..counter g - 1]))"
proof (intro conjI impI)
  have inv: "gen_inv n shard cnt g" by (rule gen_inv_run [OF assms])
  show "wfp (\<lambda>s' s. gen_any wr out shard cnt s s')" by (rule gen_finite.finite_runs)
  show "gnMain g = GenReturned None \<or> gnMain g = GenPanicked \<and> shard \<noteq> []" if "\<nexists>g'. gen_step wr out shard cnt g g'"
    using gen_moves [OF inv assms(4,2)] that inv by (auto simp: gen_over_def gen_inv_def gen_ctl_def)
  assume r: "gnMain g = GenReturned None"
  then have d: "gnJobs g = []" "\<forall>w \<in> set (gnWorkers g). w = GenDone" using inv by (auto simp: gen_inv_def gen_ctl_def list_all_iff)
  then have "concat (map in_hand (gnWorkers g)) = []" by auto
  with d have h: "handed g = mset (gnWritten g)" by (simp add: handed_def)
  have "int (length (gnWritten g)) = max 0 cnt" using inv r by (simp add: gen_inv_def gen_num_def h)
  then show "length (gnWritten g) = nat cnt" by linarith
  show "mset (gnWritten g) = mset (filter (selected shard) [0..counter g - 1])" using inv by (simp add: gen_inv_def gen_data_def h)
qed

text \<open>Images get different names.\<close>

lemma nameFor_inj: "0 \<le> i \<Longrightarrow> 0 \<le> j \<Longrightarrow> nameFor i = nameFor j \<Longrightarrow> i = j"
proof -
  assume ij: "0 \<le> i" "0 \<le> j" "nameFor i = nameFor j"
  have split: "a = b" if "c \<in> set classes" "d \<in> set classes" "c @ ''_'' @ a = d @ ''_'' @ b" for a b c d :: string
    using that by (auto simp: classes_def)
  have "classes ! nat (k mod 5) \<in> set classes" for k :: int by (rule nth_mem) (simp add: classes_def nat_less_iff)
  from split [OF this [of i] this [of j], of "fmt_0d 6 i" "fmt_0d 6 j"] ij show ?thesis by (simp add: nameFor_def fmt_0d_inject)
qed

subsection \<open>When files fail\<close>

text \<open>Every goroutine leaves at its first error, and nobody takes numbers from the channel any more: with more than three images per goroutine
  the producer is blocked for good.\<close>

definition busy :: "Gen \<Rightarrow> nat" where
  "busy g = length (filter (\<lambda>w. w \<noteq> Waiting) (gnWorkers g))"

definition gen_failing :: "nat \<Rightarrow> Gen \<Rightarrow> bool" where
  "gen_failing n g \<longleftrightarrow> gnMain g = Producing \<and> \<not> gnClosed g \<and> length (gnWorkers g) = n \<and> length (gnJobs g) \<le> 2 * n
     \<and> gnNext g = int (length (gnJobs g) + busy g)"

lemma busy_update:
  assumes "i < length (gnWorkers g)"
  shows "length (filter (\<lambda>w. w \<noteq> Waiting) ((gnWorkers g)[i := w])) + (if gnWorkers g ! i = Waiting then 0 else 1) = busy g + (if w = Waiting then 0 else 1)"
proof -
  have m: "length (filter (\<lambda>w. w \<noteq> Waiting) ws) = sum_list (map (\<lambda>w. if w = Waiting then 0 else 1) ws)" for ws by (induction ws) auto
  show ?thesis unfolding busy_def m by (rule sum_list_swap [OF assms])
qed

lemma busy_le: "busy g \<le> length (gnWorkers g)"
  by (simp add: busy_def)

lemma gen_failing_step:
  assumes "gen_step wr out [] cnt g g'" "gen_failing n g" "\<forall>p. wr p \<noteq> None" "3 * int n < cnt" "cnt < 2 ^ 63"
  shows "gen_failing n g'"
proof -
  have n: "gnNext g \<le> 3 * int n" "0 \<le> gnNext g" using assms(2) busy_le [of g] by (auto simp: gen_failing_def)
  then have p: "produce_next [] cnt g = SendJob (gnNext g)" using assms(4) by (simp add: produce_next_def)
  from assms(1) show ?thesis
  proof cases
    case (send_job x)
    have "i64 (gnNext g + 1) = gnNext g + 1" using n assms(4,5) by (intro i64_id) simp_all
    with send_job assms(2) show ?thesis by (simp add: gen_failing_def busy_def)
  next
    case (take_job i x xs)
    with busy_update [OF take_job(3), of "Writing x"] assms(2) show ?thesis by (simp add: gen_failing_def busy_def)
  next
    case (write_failed i x q e)
    with busy_update [OF write_failed(3), of GenDone] assms(2) show ?thesis by (simp add: gen_failing_def busy_def)
  qed (use p assms(2,3) in \<open>simp_all add: gen_failing_def\<close>)
qed

lemma gen_blocks_when_files_fail:
  assumes "\<forall>p. wr p \<noteq> None" "3 * int n < cnt" "cnt < 2 ^ 63"
  shows "\<exists>g. (gen_step wr out [] cnt)\<^sup>*\<^sup>* (gen_run n None) g \<and> (\<nexists>g'. gen_step wr out [] cnt g g') \<and> gnMain g = Producing"
    and "(gen_step wr out [] cnt)\<^sup>*\<^sup>* (gen_run n None) g \<Longrightarrow> gnMain g = Producing"
proof -
  have inv: "gen_failing n g" if "(gen_step wr out [] cnt)\<^sup>*\<^sup>* (gen_run n None) g" for g
    using that
  proof (induction rule: rtranclp_induct)
    case base
    then show ?case by (simp add: gen_failing_def gen_run_def busy_def)
  next
    case (step g g')
    then show ?case using gen_failing_step assms by blast
  qed
  then show "(gen_step wr out [] cnt)\<^sup>*\<^sup>* (gen_run n None) g \<Longrightarrow> gnMain g = Producing" by (simp add: gen_failing_def)
  from gen_finite.run_to_end obtain g where g: "(gen_any wr out [] cnt)\<^sup>*\<^sup>* (gen_run n None) g" "\<nexists>t. gen_any wr out [] cnt g t" by blast
  have r: "(gen_step wr out [] cnt)\<^sup>*\<^sup>* (gen_run n None) g" using g(1) gen_any_iff [OF assms(3)] by blast
  from inv [OF r] have f: "gen_failing n g" .
  then have "gnNext g \<le> 3 * int n" "0 \<le> gnNext g" using busy_le [of g] by (auto simp: gen_failing_def)
  then have "counter_ok [] cnt g" using assms(2,3) by (simp add: counter_ok_def)
  with g(2) have "\<nexists>g'. gen_step wr out [] cnt g g'" by (auto simp: gen_any_def)
  with r f show "\<exists>g. (gen_step wr out [] cnt)\<^sup>*\<^sup>* (gen_run n None) g \<and> (\<nexists>g'. gen_step wr out [] cnt g g') \<and> gnMain g = Producing"
    by (auto simp: gen_failing_def)
qed

text \<open>A shard that no name hashes to (more than two digits, or upper case) is never refused: no image is generated and the command does not return; after \<open>2 ^ 63\<close>
  names it panics.\<close>

definition gen_idle :: "Gen \<Rightarrow> bool" where
  "gen_idle g \<longleftrightarrow> gnMain g \<in> {Producing, GenPanicked} \<and> gnEmitted g = 0 \<and> gnJobs g = [] \<and> gnWritten g = [] \<and> \<not> gnClosed g \<and> list_all (\<lambda>w. w = Waiting) (gnWorkers g)"

lemma gen_without_names:
  assumes "(gen_step wr out shard cnt)\<^sup>*\<^sup>* (gen_run n None) g" "shard \<notin> set AllShards" "shard \<noteq> []" "0 < cnt"
  shows "gen_idle g"
  using assms(1)
proof (induction rule: rtranclp_induct)
  case base
  then show ?case by (simp add: gen_idle_def gen_run_def list_all_iff)
next
  case (step g g')
  have "produce_next shard cnt g \<in> {SkipJob, ProducePanic}"
    using step.IH assms(2-4) ShardKey_in_AllShards by (auto simp: produce_next_def gen_idle_def split: outcome.splits)
  with step(2) step.IH show ?case by cases (auto simp: gen_idle_def list_all_length)
qed

subsection \<open>The pictures\<close>

lemma noise_shape:
  "noise intn ps rng = (img, rng') \<Longrightarrow> map fst img = ps \<and> list_all (\<lambda>x. pxA (snd x) = 255) img"
  by (induction ps arbitrary: rng img) (auto simp: Let_def split: prod.splits)

lemma positions_square: "length (positions d) = nat d * nat d"
proof -
  have "length (concat (map (\<lambda>y. map (\<lambda>x. (x, y)) xs) ys)) = length ys * length xs" for xs ys :: "int list" by (induction ys) simp_all
  then show ?thesis by (simp add: positions_def)
qed

end
