(* ===== verification/Kube.thy ===== *)
theory Kube
  imports K8s Coordinator "HOL-Library.Multiset"
begin

section \<open>The Kubernetes client and the operator's conversations\<close>

text \<open>
  \<^verbatim>\<open>internal/k8s/client.go\<close>: where the address and the token of the API server come from, and the requests made with them; the requests of
  \<^verbatim>\<open>watcher.go\<close> and \<^verbatim>\<open>job_factory.go\<close>; the HTTP calls of \<^verbatim>\<open>cmd/operator/main.go\<close>; and the operator as a whole: the loop of the watcher and the goroutine that
  reports results, with the channel between them, as a step relation. Files, environment variables, the YAML decoder and the HTTP
  exchanges are arguments.
\<close>

subsection \<open>The client\<close>

definition inClusterTokenPath :: string where
  "inClusterTokenPath = ''/var/run/secrets/kubernetes.io/serviceaccount/token''"

definition inClusterCAPath :: string where
  "inClusterCAPath = ''/var/run/secrets/kubernetes.io/serviceaccount/ca.crt''"

text \<open>The HTTP client is described by the certificates it trusts: those of a file, or the system's (\<open>None\<close>).\<close>

record Client =
  clApiserver :: string
  clToken :: string
  clRoots :: "string option"
  clNamespace :: string

text \<open>The file system and the environment a command sees; the PEM check is that of \<^verbatim>\<open>x509\<close>.\<close>

record os_env =
  osRead :: "string \<Rightarrow> string outcome"
  osGetenv :: "string \<Rightarrow> string"
  osPEM :: "string \<Rightarrow> bool"

definition fromInCluster :: "os_env \<Rightarrow> string \<Rightarrow> Client outcome" where
  "fromInCluster os namespace =
     (case osRead os inClusterTokenPath of
        Err e \<Rightarrow> Err (''read service account token: '' @ e)
      | Panic \<Rightarrow> Panic
      | Ok token \<Rightarrow>
          (case osRead os inClusterCAPath of
             Err e \<Rightarrow> Err (''read cluster CA: '' @ e)
           | Panic \<Rightarrow> Panic
           | Ok ca \<Rightarrow>
               if \<not> osPEM os ca then Err ''parse cluster CA cert''
               else let host = osGetenv os ''KUBERNETES_SERVICE_HOST''; port = osGetenv os ''KUBERNETES_SERVICE_PORT''
                    in if host = [] \<or> port = [] then Err ''KUBERNETES_SERVICE_HOST/PORT not set''
                       else Ok \<lparr>clApiserver = ''https://'' @ host @ '':'' @ port, clToken = token, clRoots = Some ca, clNamespace = namespace\<rparr>))"

definition fromEnv :: "os_env \<Rightarrow> string \<Rightarrow> Client outcome" where
  "fromEnv os namespace =
     (let apiserver = osGetenv os ''KUBE_APISERVER''; token = osGetenv os ''KUBE_TOKEN''
      in if apiserver = [] then Err ''not in-cluster and KUBE_APISERVER not set''
         else Ok \<lparr>clApiserver = apiserver, clToken = token, clRoots = None, clNamespace = namespace\<rparr>)"

record kube_cluster =
  kcName :: string
  kcServer :: string
  kcCAData :: string

record kube_user =
  kuName :: string
  kuToken :: string
  kuClientCert :: string
  kuClientKey :: string

record kube_context =
  kxName :: string
  kxCluster :: string
  kxUser :: string

record kubeconfig =
  kgClusters :: "kube_cluster list"
  kgUsers :: "kube_user list"
  kgContexts :: "kube_context list"
  kgCurrentContext :: string

text \<open>The loops stop at the first match; without one the variables stay empty.\<close>

definition current_context :: "kubeconfig \<Rightarrow> string \<times> string" where
  "current_context kc =
     (case List.find (\<lambda>x. kxName x = kgCurrentContext kc) (kgContexts kc) of None \<Rightarrow> ([], []) | Some x \<Rightarrow> (kxCluster x, kxUser x))"

definition cluster_server :: "kubeconfig \<Rightarrow> string \<Rightarrow> string" where
  "cluster_server kc clusterName = (case List.find (\<lambda>cl. kcName cl = clusterName) (kgClusters kc) of None \<Rightarrow> [] | Some cl \<Rightarrow> kcServer cl)"

definition user_token :: "kubeconfig \<Rightarrow> string \<Rightarrow> string" where
  "user_token kc userName = (case List.find (\<lambda>u. kuName u = userName) (kgUsers kc) of None \<Rightarrow> [] | Some u \<Rightarrow> kuToken u)"

definition fromKubeconfig :: "os_env \<Rightarrow> (string \<Rightarrow> kubeconfig outcome) \<Rightarrow> string \<Rightarrow> string \<Rightarrow> Client outcome" where
  "fromKubeconfig os yaml namespace path =
     (case osRead os path of
        Err e \<Rightarrow> Err (''read kubeconfig: '' @ e)
      | Panic \<Rightarrow> Panic
      | Ok data \<Rightarrow>
          (case yaml data of
             Err e \<Rightarrow> Err (''parse kubeconfig: '' @ e)
           | Panic \<Rightarrow> Panic
           | Ok kc \<Rightarrow>
               let (clusterName, userName) = current_context kc; server = cluster_server kc clusterName; token = user_token kc userName
               in if server = [] then Err (''kubeconfig: no server found for context '' @ quote (kgCurrentContext kc))
                  else Ok \<lparr>clApiserver = server, clToken = token, clRoots = None, clNamespace = namespace\<rparr>))"

text \<open>Whether \<^verbatim>\<open>os.Stat\<close> finds a file is an argument.\<close>

definition NewClient :: "os_env \<Rightarrow> (string \<Rightarrow> bool) \<Rightarrow> (string \<Rightarrow> kubeconfig outcome) \<Rightarrow> string \<Rightarrow> string \<Rightarrow> Client outcome" where
  "NewClient os stat yaml namespace kubeconfigPath =
     (if kubeconfigPath \<noteq> [] then fromKubeconfig os yaml namespace kubeconfigPath
      else if stat inClusterTokenPath then fromInCluster os namespace
      else fromEnv os namespace)"

subsection \<open>Requests\<close>

record kube_request =
  kqMethod :: string
  kqURL :: string
  kqHeader :: "(string, string) gomap"
  kqBody :: string

text \<open>\<^verbatim>\<open>http.NewRequest\<close> fails on an address that is no URL.\<close>

definition newRequest :: "(string \<Rightarrow> string option) \<Rightarrow> Client \<Rightarrow> string \<Rightarrow> string \<Rightarrow> kube_request outcome" where
  "newRequest badURL c meth path =
     (let url = clApiserver c @ path
      in case badURL url of
           Some e \<Rightarrow> Err e
         | None \<Rightarrow>
             Ok \<lparr>kqMethod = meth, kqURL = url,
                  kqHeader = (if clToken c \<noteq> [] then [(''Authorization'', ''Bearer '' @ clToken c)] else [])
                    @ [(''Content-Type'', ''application/json''), (''Accept'', ''application/json'')],
                  kqBody = []\<rparr>)"

definition jobs_path :: "string \<Rightarrow> string" where
  "jobs_path namespace = ''/apis/batch/v1/namespaces/'' @ namespace @ ''/jobs''"

definition list_request :: "(string \<Rightarrow> string option) \<Rightarrow> Client \<Rightarrow> kube_request outcome" where
  "list_request badURL c = newRequest badURL c ''GET'' (jobs_path (clNamespace c) @ ''?labelSelector=app%3Dpetabyte-worker'')"

definition create_request :: "(string \<Rightarrow> string option) \<Rightarrow> (batchJob \<Rightarrow> string outcome) \<Rightarrow> Client \<Rightarrow> batchJob \<Rightarrow> kube_request outcome" where
  "create_request badURL marshal c job =
     (case marshal job of
        Err e \<Rightarrow> Err (''marshal job: '' @ e)
      | Panic \<Rightarrow> Panic
      | Ok body \<Rightarrow> (case newRequest badURL c ''POST'' (jobs_path (clNamespace c)) of Ok q \<Rightarrow> Ok (q\<lparr>kqBody := body\<rparr>) | r \<Rightarrow> r))"

text \<open>A deletion is answered by an error of the exchange or by a status, which is not looked at.\<close>

definition deleteJob :: "(string \<Rightarrow> string option) \<Rightarrow> (kube_request \<Rightarrow> int outcome) \<Rightarrow> Client \<Rightarrow> string \<Rightarrow> string option outcome" where
  "deleteJob badURL exchange c name =
     (case newRequest badURL c ''DELETE'' (jobs_path (clNamespace c) @ ''/'' @ name) of
        Err e \<Rightarrow> Ok (Some e)
      | Panic \<Rightarrow> Panic
      | Ok q \<Rightarrow>
          (case exchange (q\<lparr>kqBody := ''{\"propagationPolicy\":\"Foreground\"}''\<rparr>) of
             Err e \<Rightarrow> Ok (Some e)
           | Panic \<Rightarrow> Panic
           | Ok status \<Rightarrow> Ok None))"

subsection \<open>The operator's calls of the coordinator\<close>

text \<open>An exchange: the method, the address and the body go out; an error, or a status and a body come back.\<close>

type_synonym 'b exchange = "string \<Rightarrow> string \<Rightarrow> 'b option \<Rightarrow> (int \<times> 'b) outcome"

definition drainPending :: "'b exchange \<Rightarrow> ('b \<Rightarrow> TaskAssignment list outcome) \<Rightarrow> string \<Rightarrow> int \<Rightarrow> TaskAssignment list outcome" where
  "drainPending call dec coordinatorURL n =
     (case call ''POST'' (coordinatorURL @ ''/v1/operator/drain?n='' @ fmt_d n) None of
        Err e \<Rightarrow> Err e
      | Panic \<Rightarrow> Panic
      | Ok (status, body) \<Rightarrow> (case dec body of Err e \<Rightarrow> Err (''decode drain response: '' @ e) | r \<Rightarrow> r))"

definition activeNodes :: "'b exchange \<Rightarrow> ('b \<Rightarrow> NodeInfo list outcome) \<Rightarrow> string \<Rightarrow> NodeInfo list outcome" where
  "activeNodes call dec coordinatorURL =
     (case call ''GET'' (coordinatorURL @ ''/v1/cluster/nodes'') None of
        Err e \<Rightarrow> Err e
      | Panic \<Rightarrow> Panic
      | Ok (status, body) \<Rightarrow> (case dec body of Ok nodes \<Rightarrow> Ok (active_only nodes) | r \<Rightarrow> r))"

definition postJSON_op :: "'b exchange \<Rightarrow> ('v \<Rightarrow> 'b outcome) \<Rightarrow> ('b \<Rightarrow> string) \<Rightarrow> string \<Rightarrow> 'v \<Rightarrow> unit outcome" where
  "postJSON_op call marshal errField url v =
     (case marshal v of
        Err e \<Rightarrow> Err e
      | Panic \<Rightarrow> Panic
      | Ok b \<Rightarrow>
          (case call ''POST'' url (Some b) of
             Err e \<Rightarrow> Err e
           | Panic \<Rightarrow> Panic
           | Ok (status, body) \<Rightarrow> if status \<ge> 400 then Err (''server '' @ fmt_d status @ '': '' @ errField body) else Ok ()))"

text \<open>One result taken from the channel: whether the coordinator accepted it; an error is only logged.\<close>

definition report_turn :: "'b exchange \<Rightarrow> (string \<times> string \<Rightarrow> 'b outcome) \<Rightarrow> ('b \<Rightarrow> string) \<Rightarrow> string \<Rightarrow> JobResult \<Rightarrow> bool outcome" where
  "report_turn call marshal errField coordinatorURL r =
     (let (url, worker, err) = report_request coordinatorURL r
      in case postJSON_op call marshal errField url (worker, err) of Ok _ \<Rightarrow> Ok True | Err _ \<Rightarrow> Ok False | Panic \<Rightarrow> Panic)"

subsection \<open>The operator as a whole\<close>

text \<open>
  The API server's jobs, the items a poll has still to look at, the channel of the watcher, the result that is being posted, and what became of the
  results. Jobs are created (a taken name is refused), change their status, and are polled, reported and deleted. The history of created
  names is kept for the statement.
\<close>

definition results_cap :: nat where
  "results_cap = 256"

record Operator =
  opJobs :: "jobItem list"
  opPolling :: "jobItem list"
  opResults :: "JobResult list"
  opPosting :: "JobResult option"
  opPosted :: "JobResult list"
  opLost :: "JobResult list"
  opCreated :: "string list"

definition op_start :: Operator where
  "op_start = \<lparr>opJobs = [], opPolling = [], opResults = [], opPosting = None, opPosted = [], opLost = [], opCreated = []\<rparr>"

inductive op_step :: "(string \<Rightarrow> bool) \<Rightarrow> Operator \<Rightarrow> Operator \<Rightarrow> bool" for deleted where
  create: "jiName it \<notin> jiName ` set (opJobs s) \<Longrightarrow> op_step deleted s (s\<lparr>opJobs := opJobs s @ [it], opCreated := opCreated s @ [jiName it]\<rparr>)"
| progress: "i < length (opJobs s) \<Longrightarrow> op_step deleted s (s\<lparr>opJobs := (opJobs s)[i := (opJobs s ! i)\<lparr>jiStatus := st\<rparr>]\<rparr>)"
| list_jobs: "opPolling s = [] \<Longrightarrow> op_step deleted s (s\<lparr>opPolling := opJobs s\<rparr>)"
| running_job: "opPolling s = it # its \<Longrightarrow> \<not> ended it \<Longrightarrow> op_step deleted s (s\<lparr>opPolling := its\<rparr>)"
| ended_job: "opPolling s = it # its \<Longrightarrow> ended it \<Longrightarrow> length (opResults s) < results_cap \<Longrightarrow>
    op_step deleted s (s\<lparr>opPolling := its, opResults := opResults s @ [result_of it],
      opJobs := if deleted (jiName it) then filter (\<lambda>j. jiName j \<noteq> jiName it) (opJobs s) else opJobs s\<rparr>)"
| take_result: "opPosting s = None \<Longrightarrow> opResults s = r # rs \<Longrightarrow> op_step deleted s (s\<lparr>opPosting := Some r, opResults := rs\<rparr>)"
| post_ok: "opPosting s = Some r \<Longrightarrow> op_step deleted s (s\<lparr>opPosting := None, opPosted := opPosted s @ [r]\<rparr>)"
| post_failed: "opPosting s = Some r \<Longrightarrow> op_step deleted s (s\<lparr>opPosting := None, opLost := opLost s @ [r]\<rparr>)"

text \<open>The names of the results under way and delivered.\<close>

definition reported :: "Operator \<Rightarrow> string multiset" where
  "reported s = mset (map jrJobName (opPosted s)) + mset (map jrJobName (opLost s)) + mset (map jrJobName (opResults s))
     + mset (map jrJobName (case opPosting s of None \<Rightarrow> [] | Some r \<Rightarrow> [r]))"

definition op_inv :: "Operator \<Rightarrow> bool" where
  "op_inv s \<longleftrightarrow> distinct (map jiName (opJobs s)) \<and> distinct (map jiName (opPolling s)) \<and> set (map jiName (opPolling s)) \<subseteq> set (map jiName (opJobs s))
     \<and> mset (opCreated s) = mset (map jiName (opJobs s)) + reported s \<and> length (opResults s) \<le> results_cap"

lemma mset_remove_name:
  "distinct (map f xs) \<Longrightarrow> f x \<in> f ` set xs \<Longrightarrow> mset (map f xs) = mset (map f (filter (\<lambda>y. f y \<noteq> f x) xs)) + {#f x#}"
proof (induction xs)
  case (Cons y ys)
  show ?case
  proof (cases "f y = f x")
    case True
    have "f z \<noteq> f x" if "z \<in> set ys" for z using Cons.prems(1) imageI [OF that, of f] True by auto
    then have "filter (\<lambda>z. f z \<noteq> f x) ys = ys" by (simp add: filter_True)
    with True show ?thesis by simp
  next
    case False
    with Cons show ?thesis by auto
  qed
qed simp

lemma map_update_same: "i < length xs \<Longrightarrow> f y = f (xs ! i) \<Longrightarrow> map f (xs[i := y]) = map f xs"
  by (simp add: map_update list_update_same_conv)

lemma op_inv_step:
  assumes "op_step deleted s s'" "op_inv s" "\<forall>n. deleted n"
  shows "op_inv s'"
  using assms(1)
proof cases
  case (create it)
  with assms(2) show ?thesis by (auto simp: op_inv_def reported_def)
next
  case (progress i st)
  have "map jiName ((opJobs s)[i := (opJobs s ! i)\<lparr>jiStatus := st\<rparr>]) = map jiName (opJobs s)" by (rule map_update_same [OF progress(2)]) simp
  with progress assms(2) show ?thesis by (simp add: op_inv_def reported_def)
next
  case (ended_job it its)
  then have "jiName it \<in> jiName ` set (opJobs s)" and d: "distinct (map jiName (opJobs s))" "jiName it \<notin> jiName ` set its"
    using assms(2) by (auto simp: op_inv_def)
  have "jiName ` set its \<subseteq> jiName ` set (filter (\<lambda>j. jiName j \<noteq> jiName it) (opJobs s))"
  proof
    fix m assume m: "m \<in> jiName ` set its"
    with d(2) have "m \<noteq> jiName it" by blast
    moreover have "m \<in> jiName ` set (opJobs s)" using m assms(2) ended_job(2) by (auto simp: op_inv_def)
    ultimately show "m \<in> jiName ` set (filter (\<lambda>j. jiName j \<noteq> jiName it) (opJobs s))" by auto
  qed
  with mset_remove_name [OF d(1) \<open>jiName it \<in> jiName ` set (opJobs s)\<close>] ended_job assms(2,3) d show ?thesis
    by (simp add: op_inv_def reported_def result_of_def distinct_map_filter)
qed (use assms(2) in \<open>auto simp: op_inv_def reported_def\<close>)

text \<open>While deletions take effect, every created job is either still there or has exactly one result: posted, lost, in the channel or being
  posted. A result is lost only when its post fails, and then its job is gone: the coordinator never hears of it.\<close>

lemma each_job_reported_once:
  assumes "(op_step deleted)\<^sup>*\<^sup>* op_start s" "\<forall>n. deleted n"
  shows "mset (opCreated s) = mset (map jiName (opJobs s)) + reported s \<and> length (opResults s) \<le> results_cap"
proof -
  from assms(1) have "op_inv s"
  proof (induction rule: rtranclp_induct)
    case base
    then show ?case by (simp add: op_inv_def op_start_def reported_def)
  next
    case (step s s')
    then show ?case using op_inv_step assms(2) by blast
  qed
  then show ?thesis by (simp add: op_inv_def)
qed

definition demo_item :: jobItem where
  "demo_item = \<lparr>jiName = ''petabyte-w'', jiLabels = [(''task-id'', ''t1'')], jiStatus = \<lparr>stSucceeded = 1, stFailed = 0, stActive = 0, stConditions = []\<rparr>\<rparr>"

lemma failed_post_loses_the_result:
  "\<exists>s. (op_step (\<lambda>_. True))\<^sup>*\<^sup>* op_start s \<and> opLost s = [result_of demo_item] \<and> opJobs s = [] \<and> opResults s = [] \<and> opPosting s = None \<and> opPosted s = []"
proof -
  let ?S = "op_step (\<lambda>_. True)" and ?r = "result_of demo_item"
  let ?a = "op_start\<lparr>opJobs := [demo_item], opCreated := [''petabyte-w'']\<rparr>"
  let ?b = "?a\<lparr>opPolling := [demo_item]\<rparr>"
  let ?c = "?b\<lparr>opPolling := [], opResults := [?r], opJobs := []\<rparr>"
  let ?d = "?c\<lparr>opPosting := Some ?r, opResults := []\<rparr>"
  let ?e = "?d\<lparr>opPosting := None, opLost := [?r]\<rparr>"
  have "?S op_start ?a" using create [of demo_item op_start] by (simp add: op_start_def demo_item_def)
  moreover have "?S ?a ?b" using list_jobs [of ?a] by (simp add: op_start_def)
  moreover have "ended demo_item" by (simp add: ended_def demo_item_def lookup0_def)
  then have "?S ?b ?c" using ended_job [of ?b demo_item "[]" "\<lambda>_. True"] by (simp add: op_start_def results_cap_def)
  moreover have "?S ?c ?d" using take_result [of ?c ?r "[]"] by (simp add: op_start_def)
  moreover have "?S ?d ?e" using post_failed [of ?d ?r] by (simp add: op_start_def)
  ultimately have "?S\<^sup>*\<^sup>* op_start ?e" by (meson converse_rtranclp_into_rtranclp rtranclp.rtrancl_refl)
  then show ?thesis by (intro exI [of _ ?e]) (simp add: op_start_def)
qed

subsection \<open>What the conversations show\<close>

text \<open>The coordinator drains as many tasks as the operator asks for; an operator told to create no jobs drains ten.\<close>

lemma atoi_fmt_d:
  assumes "0 \<le> n" "n < 2 ^ 63"
  shows "atoi (fmt_d n) = Some n"
proof -
  have d: "\<forall>c \<in> set (dec_nat (nat n)). is_digit c" by (rule is_digit_dec_nat)
  have "dec_nat (nat n) \<noteq> []" by (subst dec_nat.simps) simp
  then obtain c cs where c: "dec_nat (nat n) = c # cs" by (cases "dec_nat (nat n)") simp_all
  with d have "c \<noteq> CHR ''-''" "c \<noteq> CHR ''+''" by (auto simp: is_digit_def of_char_def)
  moreover have "dec_val 0 (c # cs) = nat n" using dec_val_dec_nat [of "nat n"] unfolding c .
  ultimately show ?thesis using c d assms by (simp add: atoi_def fmt_d_def list_all_iff del: dec_val.simps)
qed


lemma drain_of_operator:
  assumes "hqMethod r = ''POST''" "hqQuery r = [(''n'', fmt_d n)]" "n < 2 ^ 63" "0 \<le> n"
    and "DrainPending (inNow i) (if 0 < n then n else 10) (coSched c) = Ok (as, s)"
  shows "fst (handleOperatorDrain cdc i r c) = writeJSON 200 (JAssignments as)"
proof -
  have "fmt_d n \<noteq> []" using atoi_fmt_d [OF assms(4,3)] by (auto simp: atoi_def)
  then show ?thesis using assms by (simp add: handleOperatorDrain_def lookup0_def atoi_fmt_d)
qed

text \<open>A context that is not in the file falls back to a cluster and a user without a name; the certificates of a kubeconfig, for the server and
  for the user, have no effect on the client.\<close>

definition without_certs :: "kubeconfig \<Rightarrow> kubeconfig" where
  "without_certs kc = kc\<lparr>kgClusters := map (\<lambda>cl. cl\<lparr>kcCAData := []\<rparr>) (kgClusters kc),
     kgUsers := map (\<lambda>u. u\<lparr>kuClientCert := [], kuClientKey := []\<rparr>) (kgUsers kc)\<rparr>"

lemma find_map: "List.find P (map f xs) = map_option f (List.find (P \<circ> f) xs)"
  by (induction xs) simp_all

lemma certificates_ignored:
  assumes "yaml' = (\<lambda>d. case yaml d of Ok kc \<Rightarrow> Ok (without_certs kc) | r \<Rightarrow> r)"
  shows "fromKubeconfig os yaml' namespace path = fromKubeconfig os yaml namespace path"
proof -
  have "current_context (without_certs kc) = current_context kc" for kc by (simp add: current_context_def without_certs_def)
  moreover have "cluster_server (without_certs kc) n = cluster_server kc n" for kc n
    by (simp add: cluster_server_def without_certs_def find_map comp_def split: option.split)
  moreover have "user_token (without_certs kc) n = user_token kc n" for kc n
    by (simp add: user_token_def without_certs_def find_map comp_def split: option.split)
  moreover have "kgCurrentContext (without_certs kc) = kgCurrentContext kc" for kc by (simp add: without_certs_def)
  ultimately show ?thesis by (simp add: fromKubeconfig_def assms Let_def split: outcome.split prod.split)
qed

text \<open>Every client has an address, and every request of it goes there with its token.\<close>

lemma client_has_address: "NewClient os stat yaml namespace path = Ok c \<Longrightarrow> clApiserver c \<noteq> [] \<and> clNamespace c = namespace"
  by (auto simp: NewClient_def fromKubeconfig_def fromInCluster_def fromEnv_def Let_def split: if_splits outcome.splits prod.splits)

lemma requests_carry_the_token:
  "newRequest badURL c meth path = Ok q \<Longrightarrow> kqURL q = clApiserver c @ path \<and> map_of (kqHeader q) ''Authorization'' = (if clToken c = [] then None else Some (''Bearer '' @ clToken c))"
  by (auto simp: newRequest_def Let_def split: option.splits)

lemma delete_ignores_the_status:
  "newRequest badURL c ''DELETE'' (jobs_path (clNamespace c) @ ''/'' @ name) = Ok q \<Longrightarrow> exchange (q\<lparr>kqBody := ''{\"propagationPolicy\":\"Foreground\"}''\<rparr>) = Ok 403 \<Longrightarrow>
   deleteJob badURL exchange c name = Ok None"
  by (simp add: deleteJob_def)

end
