(* ===== verification/Image_Build.thy ===== *)
theory Image_Build
  imports Package "HOL-Library.Sublist"
begin

section \<open>Building images\<close>

text \<open>
  \<^verbatim>\<open>internal/sandbox/builder.go\<close>: the files of a package are written below an empty directory, in the order in which Go iterates over the map, and
  docker builds and pushes the image. The directory is a tree of paths (lists of components) with the documented behaviour of
  \<^verbatim>\<open>MkdirAll\<close> and \<^verbatim>\<open>WriteFile\<close>; other errors of the file system and the answers of docker are arguments.
\<close>

subsection \<open>The build directory\<close>

datatype node = Dir | File "byte list"

type_synonym tree = "string list \<Rightarrow> node option"

definition empty_dir :: tree where
  "empty_dir = [[] \<mapsto> Dir]"

text \<open>The components below the directory of \<^verbatim>\<open>filepath.Join(dir, name)\<close>, for a name that does not climb.\<close>

definition comps :: "string \<Rightarrow> string list" where
  "comps name = filter (\<lambda>c. c \<noteq> [] \<and> c \<noteq> ''.'') (split_on (CHR ''/'') name)"

fun MkdirAll :: "string list \<Rightarrow> string list \<Rightarrow> tree \<Rightarrow> tree outcome" where
  "MkdirAll pre [] t = Ok t"
| "MkdirAll pre (c # cs) t =
     (case t (pre @ [c]) of
        None \<Rightarrow> MkdirAll (pre @ [c]) cs (t(pre @ [c] \<mapsto> Dir))
      | Some Dir \<Rightarrow> MkdirAll (pre @ [c]) cs t
      | Some (File _) \<Rightarrow> Err ''not a directory'')"

definition WriteFile :: "string list \<Rightarrow> byte list \<Rightarrow> tree \<Rightarrow> tree outcome" where
  "WriteFile p data t = (if t p = Some Dir then Err ''is a directory'' else Ok (t(p \<mapsto> File data)))"

text \<open>One file: faults of the two calls are errors of the file system.\<close>

record fs_faults =
  ffMkdir :: "string \<Rightarrow> string option"
  ffWrite :: "string \<Rightarrow> string option"

definition write_entry :: "fs_faults \<Rightarrow> string \<times> byte list \<Rightarrow> tree \<Rightarrow> tree outcome" where
  "write_entry ff e t =
     (case e of (name, data) \<Rightarrow>
        (case (case ffMkdir ff name of Some x \<Rightarrow> Err x | None \<Rightarrow> MkdirAll [] (butlast (comps name)) t) of
           Err x \<Rightarrow> Err (''mkdir '' @ name @ '': '' @ x)
         | Panic \<Rightarrow> Panic
         | Ok t \<Rightarrow>
             (case (case ffWrite ff name of Some x \<Rightarrow> Err x | None \<Rightarrow> WriteFile (comps name) data t) of
                Err x \<Rightarrow> Err (''write '' @ name @ '': '' @ x)
              | r \<Rightarrow> r)))"

fun writeContext :: "fs_faults \<Rightarrow> (string \<times> byte list) list \<Rightarrow> tree \<Rightarrow> tree outcome" where
  "writeContext ff [] t = Ok t"
| "writeContext ff (e # es) t = (case write_entry ff e t of Ok t' \<Rightarrow> writeContext ff es t' | r \<Rightarrow> r)"

subsection \<open>Build and push\<close>

record BuildResult =
  brImageRef :: string
  brDigest :: string

definition builder_bin :: "string \<Rightarrow> string" where
  "builder_bin dockerBin = (if dockerBin \<noteq> [] then dockerBin else ''docker'')"

text \<open>The commands that were run, in order; docker answers with an error and the output of the command, or succeeds, given the files it sees.\<close>

definition Build ::
  "fs_faults \<Rightarrow> string outcome \<Rightarrow> (string list \<Rightarrow> tree \<Rightarrow> (string \<times> string) option) \<Rightarrow> string \<Rightarrow> Package \<Rightarrow> string
    \<Rightarrow> string list list \<times> BuildResult outcome" where
  "Build ff mkTemp docker dockerBin p registry =
     (case mkTemp of
        Err e \<Rightarrow> ([], Err (''build context: '' @ e))
      | Panic \<Rightarrow> ([], Panic)
      | Ok dir \<Rightarrow>
          (case writeContext ff (pkFiles p) empty_dir of
             Err e \<Rightarrow> ([], Err e)
           | Panic \<Rightarrow> ([], Panic)
           | Ok t \<Rightarrow>
               let ref = ImageRef registry p; build = [builder_bin dockerBin, ''build'', ''-t'', ref, dir]; push = [builder_bin dockerBin, ''push'', ref]
               in (case docker build t of
                     Some (e, out) \<Rightarrow> ([build], Err (''docker build '' @ ref @ '': '' @ e @ [CHR 0x0A] @ out))
                   | None \<Rightarrow>
                       (case docker push t of
                          Some (e, out) \<Rightarrow> ([build, push], Err (''docker push '' @ ref @ '': '' @ e @ [CHR 0x0A] @ out))
                        | None \<Rightarrow> ([build, push], Ok \<lparr>brImageRef = ref, brDigest = pkDigest p\<rparr>)))))"

subsection \<open>What the directory holds\<close>

text \<open>The tree of a list of files: their contents at their paths, directories above them, nothing else.\<close>

definition tree_of :: "(string list \<times> byte list) list \<Rightarrow> tree" where
  "tree_of es q = (case map_of (rev es) q of Some d \<Rightarrow> Some (File d) | None \<Rightarrow> if q = [] \<or> (\<exists>(p, d) \<in> set es. strict_prefix q p) then Some Dir else None)"

lemma tree_of_Nil: "tree_of [] = empty_dir"
  by (auto simp: tree_of_def empty_dir_def fun_eq_iff)

lemma MkdirAll_ok:
  assumes "\<forall>q. prefix q cs \<longrightarrow> (\<forall>d. t (pre @ q) \<noteq> Some (File d))"
  shows "MkdirAll pre cs t = Ok (\<lambda>q. if t q = None \<and> (\<exists>r. q = pre @ r \<and> r \<noteq> [] \<and> prefix r cs) then Some Dir else t q)"
  using assms
proof (induction cs arbitrary: pre t)
  case Nil
  then show ?case by (auto simp: fun_eq_iff)
next
  case (Cons c cs)
  let ?p = "pre @ [c]"
  let ?t = "if t ?p = None then t(?p \<mapsto> Dir) else t"
  have nf: "\<forall>d. t ?p \<noteq> Some (File d)" using Cons.prems [rule_format, of "[c]"] by simp
  then have step: "MkdirAll pre (c # cs) t = MkdirAll ?p cs ?t" by (cases "t ?p" rule: option.exhaust; cases "the (t ?p)") auto
  have "\<forall>q. prefix q cs \<longrightarrow> (\<forall>d. ?t (?p @ q) \<noteq> Some (File d))"
    using Cons.prems [rule_format, of "c # _"] by auto
  from Cons.IH [OF this] have "MkdirAll ?p cs ?t = Ok (\<lambda>q. if ?t q = None \<and> (\<exists>r. q = ?p @ r \<and> r \<noteq> [] \<and> prefix r cs) then Some Dir else ?t q)" .
  moreover have "(\<exists>r. q = pre @ r \<and> r \<noteq> [] \<and> prefix r (c # cs)) \<longleftrightarrow> q = ?p \<or> (\<exists>r. q = ?p @ r \<and> r \<noteq> [] \<and> prefix r cs)" for q
    by (auto simp: prefix_Cons)
  then have "(\<lambda>q. if ?t q = None \<and> (\<exists>r. q = ?p @ r \<and> r \<noteq> [] \<and> prefix r cs) then Some Dir else ?t q) =
    (\<lambda>q. if t q = None \<and> (\<exists>r. q = pre @ r \<and> r \<noteq> [] \<and> prefix r (c # cs)) then Some Dir else t q)"
    by (auto simp: fun_eq_iff)
  ultimately show ?case using step by simp
qed

lemma MkdirAll_blocked:
  assumes "t (pre @ q) = Some (File d)" "prefix q cs" "q \<noteq> []"
  shows "\<exists>e. MkdirAll pre cs t = Err e"
  using assms
proof (induction cs arbitrary: pre t q)
  case (Cons c cs)
  then obtain q' where q: "q = c # q'" "prefix q' cs" by (cases q) auto
  show ?case
  proof (cases "q' = []")
    case True
    then show ?thesis using Cons.prems q by simp
  next
    case False
    let ?t = "t(pre @ [c] \<mapsto> Dir)"
    have "?t ((pre @ [c]) @ q') = Some (File d)" "t ((pre @ [c]) @ q') = Some (File d)" using Cons.prems(1) q False by auto
    then show ?thesis using Cons.IH [of ?t "pre @ [c]" q'] Cons.IH [of t "pre @ [c]" q'] q(2) False
      by (simp del: fun_upd_apply split: option.split node.split)
  qed
qed simp


lemma strict_prefix_snoc: "strict_prefix q (ps @ [x]) \<longleftrightarrow> prefix q ps"
  by (auto simp: strict_prefix_def)

text \<open>Two paths are in conflict when one is a prefix of the other: a file cannot also be a directory.\<close>

definition clash :: "string list \<Rightarrow> string list \<Rightarrow> bool" where
  "clash p q \<longleftrightarrow> prefix p q \<or> prefix q p"

lemma tree_of_free:
  assumes "\<forall>(q, d) \<in> set es. \<not> clash p q" "p \<noteq> []"
  shows "map_of (rev es) q = None \<or> \<not> prefix q p" "tree_of es p = None"
proof -
  show "map_of (rev es) q = None \<or> \<not> prefix q p" using assms(1) by (auto simp: clash_def dest!: map_of_SomeD)
  have "map_of (rev es) p = None" using assms(1) by (auto simp: clash_def map_of_eq_None_iff)
  then show "tree_of es p = None" using assms by (auto simp: tree_of_def clash_def strict_prefix_def)
qed

lemma write_entry_ok:
  assumes "ffMkdir ff name = None" "ffWrite ff name = None" "comps name \<noteq> []" "\<forall>(q, d) \<in> set es. \<not> clash (comps name) q"
  shows "write_entry ff (name, data) (tree_of es) = Ok (tree_of (es @ [(comps name, data)]))"
proof -
  let ?p = "comps name"
  have nofile: "tree_of es q \<noteq> Some (File d)" if "prefix q ?p" for q d
    using tree_of_free(1) [OF assms(4,3), of q] that by (auto simp: tree_of_def)
  have bl: "prefix q (butlast ?p) \<Longrightarrow> prefix q ?p" for q using prefixeq_butlast prefix_order.trans by blast
  have sp: "prefix q (butlast ?p) \<longleftrightarrow> strict_prefix q ?p" for q
    using assms(3) strict_prefix_snoc [of q "butlast ?p" "last ?p"] by simp
  let ?t = "\<lambda>q. if tree_of es q = None \<and> (\<exists>r. q = [] @ r \<and> r \<noteq> [] \<and> prefix r (butlast ?p)) then Some Dir else tree_of es q"
  have m: "MkdirAll [] (butlast ?p) (tree_of es) = Ok ?t" by (rule MkdirAll_ok) (use nofile bl in auto)
  have "?t ?p = None" using tree_of_free(2) [OF assms(4,3)] sp by auto
  then have w: "WriteFile ?p data ?t = Ok (?t(?p \<mapsto> File data))" by (simp add: WriteFile_def)
  have "?t(?p \<mapsto> File data) = tree_of (es @ [(?p, data)])"
  proof
    fix q
    show "(?t(?p \<mapsto> File data)) q = tree_of (es @ [(?p, data)]) q"
      using sp [of q] by (auto simp: tree_of_def split: option.split)
  qed
  with m w assms(1,2) show ?thesis by (simp add: write_entry_def)
qed

text \<open>The paths of a package whose files can all be written: none is the directory itself, none lies below another.\<close>

definition clash_free :: "string list list \<Rightarrow> bool" where
  "clash_free ps \<longleftrightarrow> distinct ps \<and> [] \<notin> set ps \<and> (\<forall>p \<in> set ps. \<forall>q \<in> set ps. p \<noteq> q \<longrightarrow> \<not> prefix p q)"

lemma clash_free_snoc: "clash_free (ps @ [p]) \<longleftrightarrow> clash_free ps \<and> p \<noteq> [] \<and> (\<forall>q \<in> set ps. \<not> clash p q)"
  by (auto simp: clash_free_def clash_def)

lemma clash_free_append: "clash_free (ps @ qs) \<Longrightarrow> clash_free ps"
  by (auto simp: clash_free_def)

definition placed :: "(string \<times> byte list) list \<Rightarrow> (string list \<times> byte list) list" where
  "placed files = map (\<lambda>(name, data). (comps name, data)) files"

lemma placed_simps [simp]: "placed [] = []" "placed ((n, d) # fs) = (comps n, d) # placed fs" "placed (fs @ gs) = placed fs @ placed gs"
  by (simp_all add: placed_def)

lemma writeContext_ok:
  assumes "\<forall>n. ffMkdir ff n = None \<and> ffWrite ff n = None" "clash_free (map fst (es @ placed files))"
  shows "writeContext ff files (tree_of es) = Ok (tree_of (es @ placed files))"
  using assms(2)
proof (induction files arbitrary: es)
  case (Cons f files)
  obtain n d where f: "f = (n, d)" by (cases f)
  have cf: "clash_free (map fst es @ [comps n])" using Cons.prems clash_free_append [of "map fst es @ [comps n]" "map fst (placed files)"] f by simp
  then have "write_entry ff (n, d) (tree_of es) = Ok (tree_of (es @ [(comps n, d)]))"
    using assms(1) by (intro write_entry_ok) (auto simp: clash_free_snoc)
  then show ?case using Cons.IH [of "es @ [(comps n, d)]"] Cons.prems f by simp
qed simp

lemma tree_of_root: "clash_free (map fst es) \<Longrightarrow> tree_of es [] = Some Dir"
proof -
  assume "clash_free (map fst es)"
  then have "map_of (rev es) [] = None" by (simp add: clash_free_def map_of_eq_None_iff)
  then show ?thesis by (simp add: tree_of_def)
qed

lemma write_entry_clash:
  assumes "\<forall>n. ffMkdir ff n = None \<and> ffWrite ff n = None" "clash_free (map fst es)"
    and "comps name = [] \<or> (\<exists>(q, d) \<in> set es. clash (comps name) q \<and> q \<noteq> comps name)"
  shows "\<exists>e. write_entry ff (name, data) (tree_of es) = Err e"
proof -
  let ?p = "comps name"
  have at: "tree_of es q = Some (File d)" if "(q, d) \<in> set es" for q d
    using that assms(2) map_of_is_SomeI [of "rev es" q d] by (simp add: tree_of_def clash_free_def rev_map [symmetric])
  have blocked: ?thesis if "\<exists>e. MkdirAll [] (butlast ?p) (tree_of es) = Err e" using that assms(1) by (auto simp: write_entry_def)
  have onto_dir: ?thesis if "tree_of es ?p = Some Dir"
  proof (cases "\<exists>q d. prefix q (butlast ?p) \<and> tree_of es ([] @ q) = Some (File d)")
    case True
    then obtain q d where "prefix q (butlast ?p)" "tree_of es ([] @ q) = Some (File d)" by blast
    moreover have "tree_of es [] = Some Dir" by (rule tree_of_root [OF assms(2)])
    ultimately show ?thesis using MkdirAll_blocked [of "tree_of es" "[]" q d "butlast ?p"] blocked by (cases "q = []") auto
  next
    case False
    then have "MkdirAll [] (butlast ?p) (tree_of es) = Ok (\<lambda>q. if tree_of es q = None \<and> (\<exists>r. q = [] @ r \<and> r \<noteq> [] \<and> prefix r (butlast ?p)) then Some Dir else tree_of es q)"
      by (intro MkdirAll_ok) auto
    with that assms(1) show ?thesis by (simp add: write_entry_def WriteFile_def)
  qed
  from assms(3) consider "?p = []" | q d where "(q, d) \<in> set es" "strict_prefix q ?p" | q d where "(q, d) \<in> set es" "strict_prefix ?p q" "?p \<noteq> []"
    by (auto simp: clash_def strict_prefix_def)
  then show ?thesis
  proof cases
    case 1
    with tree_of_root [OF assms(2)] onto_dir show ?thesis by simp
  next
    case (2 q d)
    then have "?p \<noteq> []" "q \<noteq> []" using assms(2) by (auto simp: clash_free_def)
    then have "prefix q (butlast ?p)" using 2 strict_prefix_snoc [of q "butlast ?p" "last ?p"] by simp
    with \<open>q \<noteq> []\<close> show ?thesis using MkdirAll_blocked [of "tree_of es" "[]" q d "butlast ?p"] at [OF 2(1)] blocked by simp
  next
    case (3 q d)
    have "map_of (rev es) ?p = None"
    proof (rule ccontr)
      assume "map_of (rev es) ?p \<noteq> None"
      then obtain d' where "(?p, d') \<in> set es" by (auto dest!: map_of_SomeD)
      with 3 assms(2) show False by (force simp: clash_free_def strict_prefix_def)
    qed
    then have "tree_of es ?p = Some Dir" using 3 by (auto simp: tree_of_def)
    then show ?thesis by (rule onto_dir)
  qed
qed

text \<open>Without faults of the file system the directory is written exactly when no path lies below another, whatever the order of the map; it then
  holds the files of the package, the directories above them, and nothing else.\<close>

lemma build_directory:
  assumes "\<forall>n. ffMkdir ff n = None \<and> ffWrite ff n = None" "distinct (map (comps \<circ> fst) files)"
  shows "(if clash_free (map (comps \<circ> fst) files) then writeContext ff files empty_dir = Ok (tree_of (placed files))
          else \<exists>e. writeContext ff files empty_dir = Err e)"
proof -
  have pl: "map fst (placed fs) = map (comps \<circ> fst) fs" for fs by (simp add: placed_def comp_def case_prod_unfold)
  have bad: "\<exists>e. writeContext ff fs (tree_of es) = Err e" if "clash_free (map fst es)" "\<not> clash_free (map fst (es @ placed fs))" "distinct (map fst (es @ placed fs))" for es fs
    using that
  proof (induction fs arbitrary: es)
    case (Cons f fs)
    obtain n d where f: "f = (n, d)" by (cases f)
    show ?case
    proof (cases "clash_free (map fst (es @ [(comps n, d)]))")
      case True
      then have "write_entry ff (n, d) (tree_of es) = Ok (tree_of (es @ [(comps n, d)]))"
        using assms(1) by (intro write_entry_ok) (auto simp: clash_free_snoc)
      then show ?thesis using Cons.IH [OF True] Cons.prems f by simp
    next
      case False
      then have "comps n = [] \<or> (\<exists>(q, e) \<in> set es. clash (comps n) q \<and> q \<noteq> comps n)"
        using Cons.prems f by (force simp: clash_free_snoc)
      from write_entry_clash [OF assms(1) Cons.prems(1) this, of d] f show ?thesis by auto
    qed
  qed simp
  show ?thesis
  proof (cases "clash_free (map (comps \<circ> fst) files)")
    case True
    then show ?thesis using writeContext_ok [OF assms(1), of "[]" files] by (simp add: pl tree_of_Nil)
  next
    case False
    then show ?thesis using bad [of "[]" files] assms(2) by (simp add: pl tree_of_Nil clash_free_def [of "[]"])
  qed
qed

lemma tree_of_file: "clash_free (map fst es) \<Longrightarrow> tree_of es p = Some (File d) \<longleftrightarrow> (p, d) \<in> set es"
proof -
  assume cf: "clash_free (map fst es)"
  have "tree_of es p = Some (File d) \<longleftrightarrow> map_of (rev es) p = Some d" by (simp add: tree_of_def split: option.split)
  also have "\<dots> \<longleftrightarrow> (p, d) \<in> set es" using cf map_of_eq_Some_iff [of "rev es" p d] by (simp add: clash_free_def rev_map [symmetric])
  finally show ?thesis .
qed

text \<open>Docker sees the files of the package: the image that is pushed under the name of the digest was built from exactly them. The digest returned is
  that of the package.\<close>

lemma build_of_package:
  assumes "\<forall>n. ffMkdir ff n = None \<and> ffWrite ff n = None" "clash_free (map (comps \<circ> fst) (pkFiles p))"
    "Build ff (Ok dir) docker bin p registry = (cmds, Ok r)"
  shows "cmds = [[builder_bin bin, ''build'', ''-t'', ImageRef registry p, dir], [builder_bin bin, ''push'', ImageRef registry p]]
    \<and> r = \<lparr>brImageRef = ImageRef registry p, brDigest = pkDigest p\<rparr>
    \<and> docker (hd cmds) (tree_of (placed (pkFiles p))) = None \<and> docker (cmds ! 1) (tree_of (placed (pkFiles p))) = None"
proof -
  have "distinct (map (comps \<circ> fst) (pkFiles p))" using assms(2) by (simp add: clash_free_def)
  from build_directory [OF assms(1) this] assms(2) have "writeContext ff (pkFiles p) empty_dir = Ok (tree_of (placed (pkFiles p)))" by simp
  with assms(3) show ?thesis by (auto simp: Build_def Let_def split: option.splits prod.splits)
qed

end
