(* ===== verification/Boot.thy ===== *)
theory Boot
  imports Coord_Props Coord_Durable Config Raft_Node
begin

section \<open>Start and shutdown of a coordinator\<close>

text \<open>
  \<^verbatim>\<open>cmd/coordinator/main.go\<close>: the order in which the parts of a coordinator are put together from the configuration, the start of the Raft node
  with its transport and listener, and the order of a shutdown. Opening the log, the storage client, the Raft library and the listeners
  can fail: their answers are arguments.
\<close>

subsection \<open>The Raft parts\<close>

datatype raft_part = RTransport | RNode | RListener

text \<open>The parts that run, and the result. \<^verbatim>\<open>consensus.Start\<close> checks its configuration and can fail in the library.\<close>

definition startRaft :: "string option \<Rightarrow> string option \<Rightarrow> Config.Config \<Rightarrow> raft_part list \<times> unit outcome" where
  "startRaft nodeErr listenErr cfg =
     (let rc = ccRaft (cfCoordinator cfg);
          running = [RTransport]
      in case (case start_config \<lparr>ncID = rcID rc, ncHasFSM = True, ncTickInterval = 0, ncElectionTicks = 0, ncHeartbeatTicks = 0\<rparr> of
                 Ok _ \<Rightarrow> nodeErr | Err e \<Rightarrow> Some e | Panic \<Rightarrow> None) of
           Some e \<Rightarrow> (removeAll RTransport running, Err (''start raft node: '' @ e))
         | None \<Rightarrow>
             let running = RNode # running
             in (case listenErr of
                   Some e \<Rightarrow> (removeAll RTransport (removeAll RNode running),
                               Err (''listen raft '' @ ccHost (cfCoordinator cfg) @ '':'' @ fmt_d (rcPort rc) @ '': '' @ e))
                 | None \<Rightarrow> (RListener # running, Ok ())))"

text \<open>The returned stop function.\<close>

definition stopRaft :: "raft_part list \<Rightarrow> raft_part list" where
  "stopRaft running = removeAll RTransport (removeAll RNode (removeAll RListener running))"

subsection \<open>Boot\<close>

text \<open>What \<^verbatim>\<open>coordinator.New\<close> reads of the configuration.\<close>

definition coordinator_config :: "Config.Config \<Rightarrow> Coordinator.Config" where
  "coordinator_config cfg =
     (let cc = cfCoordinator cfg
      in \<lparr>cfVnodesPerNode = ccVnodesPerNode cc, cfSuspectTimeout = ccSuspectTimeout cc, cfDeadTimeout = ccDeadTimeout cc,
          cfTaskMaxRetries = ccTaskMaxRetries cc, cfLeaseChunk = ccLeaseChunk cc\<rparr>)"

record ('o, 'd) boot_env =
  btNodeErr :: "string option"
  btRaftListenErr :: "string option"
  btDecide :: "CommitDecision \<Rightarrow> 'd \<Rightarrow> 'd \<times> CommitDecision outcome"
  btStorageErr :: "string option"
  btCopy :: "string \<Rightarrow> string \<Rightarrow> 'o \<Rightarrow> 'o \<times> string option"
  btDelete :: "string \<Rightarrow> 'o \<Rightarrow> 'o \<times> string option"
  btOpenFault :: open_fault
  btDisk :: disk
  btGRPCListenErr :: "string option"

definition with_admission :: "Config.Config \<Rightarrow> ('o, 'd, 'e) Coordinator \<Rightarrow> ('o, 'd, 'e) Coordinator" where
  "with_admission cfg c =
     (if ccMaxInFlightJobs (cfCoordinator cfg) > 0
      then EnableAdmission (SetClass ''default'' 1 (Admission.New (ccMaxInFlightJobs (cfCoordinator cfg)))) c
      else c)"

definition with_raft :: "('o, 'd) boot_env \<Rightarrow> Config.Config \<Rightarrow> ('o, 'd, 'e) Coordinator \<Rightarrow> (('o, 'd, 'e) Coordinator \<times> raft_part list) outcome" where
  "with_raft env cfg c =
     (if Enabled (ccRaft (cfCoordinator cfg)) then
        (case startRaft (btNodeErr env) (btRaftListenErr env) cfg of
           (running, Ok _) \<Rightarrow> Ok (EnableRaftCommit (btDecide env) c, running)
         | (_, Err e) \<Rightarrow> Err (''start raft: '' @ e)
         | (_, Panic) \<Rightarrow> Panic)
      else Ok (c, []))"

definition with_results :: "('o, 'd) boot_env \<Rightarrow> Config.Config \<Rightarrow> ('o, 'd, 'e) Coordinator \<Rightarrow> ('o, 'd, 'e) Coordinator outcome" where
  "with_results env cfg c =
     (if scBucket (cfStorage cfg) \<noteq> [] then
        (case btStorageErr env of
           Some e \<Rightarrow> Err (''init storage: '' @ e)
         | None \<Rightarrow> Ok (EnableResultCommit (btCopy env) (btDelete env) c))
      else Ok c)"

definition with_log :: "'b codec \<Rightarrow> ('o, 'd) boot_env \<Rightarrow> Config.Config \<Rightarrow> ('o, 'd, 'e) Coordinator \<Rightarrow> ('o, 'd, 'e) Coordinator outcome" where
  "with_log cdc env cfg c =
     (if ccWALDir (cfCoordinator cfg) \<noteq> []
      then EnablePersistence cdc (btOpenFault env) (btDisk env) (ccCheckpointInterval (cfCoordinator cfg)) c
      else Ok c)"

text \<open>An error of any part ends the process.\<close>

definition boot ::
  "'b codec \<Rightarrow> ('o, 'd) boot_env \<Rightarrow> Config.Config \<Rightarrow> ('o, 'd, 'e) World \<Rightarrow> (('o, 'd, 'e) Coordinator \<times> raft_part list \<times> AuthInterceptor option) outcome" where
  "boot cdc env cfg w =
     (case with_raft env cfg (with_admission cfg (Coordinator.New (coordinator_config cfg) w)) of
        Err e \<Rightarrow> Err e
      | Panic \<Rightarrow> Panic
      | Ok (c1, running) \<Rightarrow>
          (case with_results env cfg c1 of
             Err e \<Rightarrow> Err e
           | Panic \<Rightarrow> Panic
           | Ok c2 \<Rightarrow>
               (case with_log cdc env cfg c2 of
                  Err e \<Rightarrow> Err (''enable persistence: '' @ e)
                | Panic \<Rightarrow> Panic
                | Ok c3 \<Rightarrow>
                    (case startGRPC (btGRPCListenErr env) cfg of
                       Err e \<Rightarrow> Err (''start grpc: '' @ e)
                     | Panic \<Rightarrow> Panic
                     | Ok ic \<Rightarrow> Ok (c3, running, ic)))))"

subsection \<open>Shutdown\<close>

text \<open>After the signal: the loops are cancelled, the HTTP server is given 15 seconds for the requests in flight, then the gRPC server, the Raft parts and the
  coordinator are stopped. The requests served in that time are an argument.\<close>

definition shutdown ::
  "'b codec \<Rightarrow> ckpt_fault \<Rightarrow> (input \<times> 'b request) list \<Rightarrow> (('o, 'd, 'e) Coordinator \<times> raft_part list) \<Rightarrow> ('o, 'd, 'e) Coordinator \<times> raft_part list" where
  "shutdown cdc fc served = (\<lambda>(c, running).
     (Stop cdc fc (fold (\<lambda>(i, r) c. snd (serve cdc i r c)) served c), stopRaft running))"

subsection \<open>What a start and a shutdown leave\<close>

text \<open>The Raft parts run all or not at all, and the stop function stops what a start left running.\<close>

lemma stopRaft_all: "stopRaft running = []"
proof (induction running)
  case (Cons x xs)
  then show ?case by (cases x) (simp_all add: stopRaft_def)
qed (simp add: stopRaft_def)

lemma raft_all_or_nothing:
  "startRaft ne le cfg = (running, r) \<Longrightarrow> running = (if is_ok r then [RListener, RNode, RTransport] else [])"
  by (auto simp: startRaft_def Let_def split: option.splits)

text \<open>Attaching the other parts does not touch the state that the log restores.\<close>

lemma Restore_same:
  assumes "Restore dec sn rs s = Ok t" "jobs s' = jobs s" "tasks s' = tasks s" "pendingQ s' = pendingQ s"
  shows "\<exists>t'. Restore dec sn rs s' = Ok t' \<and> same_state t' t"
  using assms by (cases "if rs \<noteq> [] then Some (last rs) else sn") (auto simp: Restore_def same_state_def split: option.splits)

lemma EnablePersistence_same:
  assumes "EnablePersistence cdc flt d iv c = Ok c1" "jobs (coSched c') = jobs (coSched c)" "tasks (coSched c') = tasks (coSched c)" "pendingQ (coSched c') = pendingQ (coSched c)"
    and "EnablePersistence cdc flt d iv' c' = Ok c2"
  shows "same_state (coSched c2) (coSched c1)"
proof -
  obtain w rec d1 s where o: "OpenWAL flt d = Ok (w, rec, d1)" "Restore (decState cdc) (recSnapshot rec) (recRecords rec) (coSched c) = Ok s" "coSched c1 = AttachStore s"
    using assms(1) by (auto simp: EnablePersistence_def split: outcome.splits)
  from Restore_same [OF o(2) assms(2-4)] obtain s' where s': "Restore (decState cdc) (recSnapshot rec) (recRecords rec) (coSched c') = Ok s'" "same_state s' s" by blast
  with assms(5) o have "coSched c2 = AttachStore s'" by (auto simp: EnablePersistence_def)
  with s'(2) o(3) show ?thesis by (simp add: same_state_def AttachStore_def)
qed

lemma boot_parts:
  fixes w :: "('o, 'd, 'e) World"
  assumes "boot cdc env cfg w = Ok (c, running, ic)" "ccWALDir (cfCoordinator cfg) \<noteq> []"
  obtains c2 :: "('o, 'd, 'e) Coordinator" where "EnablePersistence cdc (btOpenFault env) (btDisk env) (ccCheckpointInterval (cfCoordinator cfg)) c2 = Ok c"
    "coSched c2 = coSched (with_admission cfg (Coordinator.New (coordinator_config cfg) w))"
    "coAdmission c2 = coAdmission (with_admission cfg (Coordinator.New (coordinator_config cfg) w))" "coTickets c2 = []" "coIssued c2 = []"
proof -
  let ?c0 = "with_admission cfg (Coordinator.New (coordinator_config cfg) w)"
  have z: "coTickets ?c0 = []" "coIssued ?c0 = []" by (simp_all add: with_admission_def EnableAdmission_def Coordinator.New_def)
  from assms(1) obtain c1 where c1: "with_raft env cfg ?c0 = Ok (c1, running)" by (auto simp: boot_def split: outcome.splits)
  then have f1: "coSched c1 = coSched ?c0" "coAdmission c1 = coAdmission ?c0" "coTickets c1 = coTickets ?c0" "coIssued c1 = coIssued ?c0"
    by (auto simp: with_raft_def EnableRaftCommit_def split: if_splits outcome.splits prod.splits)
  from assms(1) c1 obtain c2 where c2: "with_results env cfg c1 = Ok c2" by (auto simp: boot_def split: outcome.splits)
  then have f2: "coSched c2 = coSched c1" "coAdmission c2 = coAdmission c1" "coTickets c2 = coTickets c1" "coIssued c2 = coIssued c1"
    by (auto simp: with_results_def EnableResultCommit_def split: if_splits option.splits)
  from assms(1) c1 c2 have "with_log cdc env cfg c2 = Ok c" by (auto simp: boot_def split: outcome.splits)
  with assms(2) f1 f2 z that show thesis by (simp add: with_log_def)
qed

text \<open>A coordinator that is started on a directory has the scheduler state of the log, whatever other parts are switched on. Behind an admission controller, it starts
  with no occupied slot: the jobs it restored are not counted, and finishing them frees nothing. More jobs than the cap can then be in flight.\<close>

lemma boot_restores_but_forgets_slots:
  fixes w :: "('o, 'd, 'e) World"
  assumes "boot cdc env cfg w = Ok (c, running, ic)" "ccWALDir (cfCoordinator cfg) \<noteq> []"
    and "EnablePersistence cdc (btOpenFault env) (btDisk env) interval (Coordinator.New (coordinator_config cfg) w) = Ok c''"
  shows "same_state (coSched c) (coSched c'')"
    and "ccMaxInFlightJobs (cfCoordinator cfg) > 0 \<Longrightarrow> (\<exists>ctrl. coAdmission c = Some ctrl \<and> total ctrl = 0) \<and> coTickets c = []"
    and "map_of (coTickets c) j = None"
proof -
  let ?n = "Coordinator.New (coordinator_config cfg) w"
  from boot_parts [OF assms(1,2)] obtain c2 :: "('o, 'd, 'e) Coordinator" where
    c2: "EnablePersistence cdc (btOpenFault env) (btDisk env) (ccCheckpointInterval (cfCoordinator cfg)) c2 = Ok c"
    "coSched c2 = coSched (with_admission cfg ?n)" "coAdmission c2 = coAdmission (with_admission cfg ?n)" "coTickets c2 = []" .
  have e: "jobs (coSched c2) = jobs (coSched ?n)" "tasks (coSched c2) = tasks (coSched ?n)" "pendingQ (coSched c2) = pendingQ (coSched ?n)"
    by (simp_all add: c2(2) with_admission_def EnableAdmission_def SetJobDoneHook_def)
  show "same_state (coSched c) (coSched c'')" by (rule EnablePersistence_same [OF assms(3) e c2(1)])
  have k: "coAdmission c = coAdmission c2" "coTickets c = coTickets c2"
    using c2(1) by (auto simp: EnablePersistence_def split: outcome.splits)
  then show "map_of (coTickets c) j = None" by (simp add: c2(4))
  show "(\<exists>ctrl. coAdmission c = Some ctrl \<and> total ctrl = 0) \<and> coTickets c = []" if "ccMaxInFlightJobs (cfCoordinator cfg) > 0"
    using that by (simp add: k c2(3,4) with_admission_def EnableAdmission_def SetClass_def Admission.New_def Let_def)
qed

text \<open>A shutdown that finishes its requests leaves a directory from which a start rebuilds the same jobs, tasks and queue, and no Raft part runs on.\<close>

lemma clean_restart_keeps_state:
  fixes w :: "('o, 'd, 'e) World"
  assumes "in_step cdc c" "codes cdc (coSched c)" "seq_room c" "shutdown cdc CkOk [] (c, running) = (c', running')"
    and "boot cdc env cfg w = Ok (cb, rb, ic)" "ccWALDir (cfCoordinator cfg) \<noteq> []" "btOpenFault env = OpenOk" "coWal c' = Some (btDisk env, wl)"
  shows "same_state (coSched cb) (coSched c) \<and> running' = []"
proof
  from checkpoint_in_step [OF assms(1-3)] obtain d wl' snap es where k: "coWal (checkpoint cdc CkOk c) = Some (d, wl')" "wal_inv (d, wl') snap es"
    "log_state cdc (wal_abs snap es) = Some (encodeStateLocked (coSched (checkpoint cdc CkOk c)))" by (auto simp: in_step_def)
  have s: "coSched (checkpoint cdc CkOk c) = coSched c" by (simp add: checkpoint_def split: option.split)
  have d: "btDisk env = d" using assms(4,8) k(1) by (auto simp: shutdown_def Coordinator.Stop_def Let_def)
  have h: "holds_log d snap es []" using k(2) by (simp add: wal_inv_def)
  have wf: "sched_wf (coSched c)" using assms(1) by (simp add: in_step_def)
  from restart_rebuilds [OF h k(3) [unfolded s] wf, where cfg = "coordinator_config cfg" and world = w and interval = 0] obtain c'' where
    c'': "EnablePersistence cdc OpenOk d 0 (Coordinator.New (coordinator_config cfg) w) = Ok c''" "same_state (coSched c'') (coSched c)" by blast
  from boot_restores_but_forgets_slots(1) [OF assms(5,6), of 0 c''] c'' assms(7) d show "same_state (coSched cb) (coSched c)"
    by (simp add: same_state_def)
  show "running' = []" using assms(4) by (simp add: shutdown_def stopRaft_all)
qed

end
