(* ===== verification/Commands.thy ===== *)
theory Commands
  imports Sandbox Columnar Kube Worker Config Trace
begin

section \<open>The command-line programs\<close>

text \<open>
  \<^verbatim>\<open>cmd/sandbox-runner\<close>, the single-task mode of \<^verbatim>\<open>cmd/worker\<close>, \<^verbatim>\<open>cmd/vsearch\<close> and the end of \<^verbatim>\<open>cmd/ingest\<close>: what the processes read from flags and the
  environment, what they send, and their exit codes. The environment is a function; JSON and YAML decoders, files and
  HTTP exchanges are arguments. Log output is left out.
\<close>

subsection \<open>Environment\<close>

definition envOr :: "(string \<Rightarrow> string) \<Rightarrow> string \<Rightarrow> string \<Rightarrow> string" where
  "envOr getenv key fallback = (let v = getenv key in if v \<noteq> [] then v else fallback)"

definition envInt :: "(string \<Rightarrow> string) \<Rightarrow> string \<Rightarrow> int \<Rightarrow> int" where
  "envInt getenv key fallback =
     (let v = getenv key in if v \<noteq> [] then (case atoi v of Some n \<Rightarrow> n | None \<Rightarrow> fallback) else fallback)"

definition envFloat :: "(string \<Rightarrow> real option) \<Rightarrow> (string \<Rightarrow> string) \<Rightarrow> string \<Rightarrow> real \<Rightarrow> real" where
  "envFloat parse getenv key fallback =
     (let v = getenv key in if v \<noteq> [] then (case parse v of Some x \<Rightarrow> x | None \<Rightarrow> fallback) else fallback)"

definition runner_limits :: "(string \<Rightarrow> real option) \<Rightarrow> (string \<Rightarrow> string) \<Rightarrow> ResourceLimits" where
  "runner_limits parse getenv =
     \<lparr>rlCPUCores = envFloat parse getenv ''PETABYTE_CPU_CORES'' 1, rlMemoryBytes = i64 (envInt getenv ''PETABYTE_MEMORY_GB'' 2 * 2 ^ 30),
      rlGPUCount = envInt getenv ''PETABYTE_GPU_COUNT'' 0, rlDiskBytes = 10 * 2 ^ 30, rlNetworkMode = ''none'',
      rlTimeoutSec = envInt getenv ''PETABYTE_TIMEOUT_SEC'' 3600\<rparr>"

definition decodeAssignment :: "(byte list \<Rightarrow> TaskAssignment outcome) \<Rightarrow> string \<Rightarrow> TaskAssignment outcome" where
  "decodeAssignment unmarshal encoded = (case std64_decode encoded of None \<Rightarrow> Err ''illegal base64 data'' | Some raw \<Rightarrow> unmarshal raw)"

subsection \<open>The sandbox runner\<close>

datatype runner_post = PostStart string string | PostResult string ResultRequest

text \<open>A process: what it posted, the bucket it leaves, its exit code, and whether its scratch directory is left behind (\<^verbatim>\<open>os.Exit\<close> runs no deferred call).\<close>

record runner_end =
  reePosts :: "runner_post list"
  reeBucket :: Storage.bucket
  reeExit :: int
  reeScratch :: bool

record runner_world =
  rwConfig :: "Config.Config outcome"
  rwGetenv :: "string \<Rightarrow> string"
  rwParseFloat :: "string \<Rightarrow> real option"
  rwUnmarshal :: "byte list \<Rightarrow> TaskAssignment outcome"
  rwStorageErr :: "string option"
  rwMkdirTemp :: "string outcome"
  rwElapsed :: int

definition runner_spec :: "runner_world \<Rightarrow> TaskAssignment \<Rightarrow> string \<Rightarrow> RunnerSpec" where
  "runner_spec rw a img =
     \<lparr>rsTaskID = aTaskID a, rsJobID = aJobID a, rsShard = aShard a, rsDataset = aDataset a, rsImage = img,
      rsLimits = runner_limits (rwParseFloat rw) (rwGetenv rw),
      rsEnv = [(''PETABYTE_SHARD'', aShard a), (''PETABYTE_DATASET'', aDataset a)], rsIdempotencyKey = [],
      rsTraceID = TraceID (aJobID a) (aShard a) (aRangeStart a) (aRangeEnd a)\<rparr>"

definition runner_result :: "string \<Rightarrow> int \<Rightarrow> RunResult option \<Rightarrow> string option \<Rightarrow> ResultRequest" where
  "runner_result workerID elapsed result execErr =
     (let req = \<lparr>rqWorkerID = workerID, rqImagesProcessed = 0, rqBytesRead = 0, rqOutputKey = [], rqDuration = elapsed, rqError = []\<rparr>;
          req = (case result of
                   None \<Rightarrow> req
                 | Some r \<Rightarrow> req\<lparr>rqImagesProcessed := rrImagesProcessed r, rqBytesRead := rrBytesRead r, rqOutputKey := rrOutputKey r\<rparr>)
      in case execErr of Some e \<Rightarrow> req\<lparr>rqError := e\<rparr> | None \<Rightarrow> req)"

definition runner_fails :: "Storage.bucket \<Rightarrow> runner_end" where
  "runner_fails b = \<lparr>reePosts = [], reeBucket = b, reeExit = 1, reeScratch = False\<rparr>"

definition runner_main ::
  "container_runtime \<Rightarrow> input_json \<Rightarrow> (byte list \<Rightarrow> AlgorithmOutput outcome) \<Rightarrow> runner_env \<Rightarrow> runner_world \<Rightarrow> Storage.bucket \<Rightarrow> runner_end" where
  "runner_main rt js unmarshal env rw b =
     (case rwConfig rw of
        Ok cfg \<Rightarrow>
          (case decodeAssignment (rwUnmarshal rw) (rwGetenv rw ''PETABYTE_TASK_JSON'') of
             Ok a \<Rightarrow>
               (let img = rwGetenv rw ''PETABYTE_ALGORITHM_IMAGE''
                in if img = [] then runner_fails b
                   else let coordinator = envOr (rwGetenv rw) ''PETABYTE_COORDINATOR_URL'' (wcCoordinatorURL (cfWorker cfg));
                            workerID = envOr (rwGetenv rw) ''PETABYTE_WORKER_ID'' (wcID (cfWorker cfg))
                        in if rwStorageErr rw \<noteq> None then runner_fails b
                           else (case rwMkdirTemp rw of
                                   Ok scratch \<Rightarrow>
                                     (case Execute rt js unmarshal env (runner_spec rw a img) scratch b of
                                        (b', result, execErr) \<Rightarrow>
                                          \<lparr>reePosts = [PostStart (coordinator @ ''/v1/tasks/'' @ aTaskID a @ ''/start'') workerID,
                                                        PostResult (coordinator @ ''/v1/tasks/'' @ aTaskID a @ ''/result'')
                                                          (runner_result workerID (rwElapsed rw) result execErr)],
                                           reeBucket = b', reeExit = (if execErr \<noteq> None then 1 else 0), reeScratch = execErr \<noteq> None\<rparr>)
                                 | _ \<Rightarrow> runner_fails b))
           | _ \<Rightarrow> runner_fails b)
      | _ \<Rightarrow> runner_fails b)"

subsection \<open>A worker with one task\<close>

definition single_task ::
  "'w outside \<Rightarrow> (byte list \<Rightarrow> TaskAssignment outcome) \<Rightarrow> Worker \<Rightarrow> string \<Rightarrow> 'w \<Rightarrow> 'w \<times> int outcome" where
  "single_task out unmarshal wk encoded w =
     (if encoded = [] then (w, Ok 1)
      else case std64_decode encoded of
             None \<Rightarrow> (w, Ok 1)
           | Some raw \<Rightarrow>
               (case unmarshal raw of
                  Ok a \<Rightarrow> (case RunTask out wk a w of (w', Ok _) \<Rightarrow> (w', Ok 0) | (w', Err _) \<Rightarrow> (w', Ok 1) | (w', Panic) \<Rightarrow> (w', Panic))
                | Err e \<Rightarrow> (w, Ok 1)
                | Panic \<Rightarrow> (w, Panic)))"

text \<open>The mode is chosen by the flag or by the variable; otherwise the worker registers and serves.\<close>

definition worker_mode :: "bool \<Rightarrow> string \<Rightarrow> bool" where
  "worker_mode singleTask encoded \<longleftrightarrow> singleTask \<or> encoded \<noteq> []"

subsection \<open>Similarity search from the command line\<close>

definition buildQuery ::
  "(string \<Rightarrow> real list outcome) \<Rightarrow> (string \<Rightarrow> byte list outcome) \<Rightarrow> int \<Rightarrow> string \<Rightarrow> string \<Rightarrow> string \<Rightarrow> string \<Rightarrow> Query outcome" where
  "buildQuery unmarshal readFile k qid vector text imagePath =
     (case (if vector \<noteq> [] then unmarshal vector else Ok []) of
        Err e \<Rightarrow> Err (''parse -vector as JSON array: '' @ e)
      | Panic \<Rightarrow> Panic
      | Ok vec \<Rightarrow>
          (case (if imagePath \<noteq> [] then readFile imagePath else Ok []) of
             Err e \<Rightarrow> Err (''read -image: '' @ e)
           | Panic \<Rightarrow> Panic
           | Ok data \<Rightarrow>
               let modes = length (filter (\<lambda>s. s \<noteq> []) [qid, vector, text, imagePath])
               in if modes \<noteq> 1 then Err (''provide exactly one query: -id, -vector, -text, or -image (got '' @ dec_nat modes @ '')'')
                  else Ok \<lparr>qyID = qid, qyVector = vec, qyText = text, qyImage = data, qyK = k\<rparr>))"

text \<open>The store is used when the configuration loads and the client can be made; the index is loaded after the query was checked.\<close>

definition vsearch_run ::
  "(string \<Rightarrow> real list outcome) \<Rightarrow> (string \<Rightarrow> byte list outcome) \<Rightarrow> Config.Config outcome \<Rightarrow> (string \<Rightarrow> byte list outcome outcome) outcome
    \<Rightarrow> (byte list \<Rightarrow> (int \<times> Embedding list) outcome) \<Rightarrow> (EncodeRequest \<Rightarrow> real list outcome)
    \<Rightarrow> string \<Rightarrow> int \<Rightarrow> string \<Rightarrow> string \<Rightarrow> string \<Rightarrow> string \<Rightarrow> Result list outcome" where
  "vsearch_run unmarshal readFile cfg newStore readParquet encoder index k qid vector text imagePath =
     and_then (buildQuery unmarshal readFile k qid vector text imagePath) (\<lambda>q.
       and_then (LoadIndex readParquet readFile (case cfg of Ok _ \<Rightarrow> (case newStore of Ok get \<Rightarrow> Some get | _ \<Rightarrow> None) | _ \<Rightarrow> None) index) (\<lambda>ix.
         Run_query (Some encoder) q ix))"

subsection \<open>The end of an ingestion\<close>

text \<open>Shares of the time of all workers, and the exit code: nothing landed, or more than one percent failed.\<close>

definition phase_share :: "Progress \<Rightarrow> int \<Rightarrow> real" where
  "phase_share p n =
     (let phaseTotal = i64 (pgOpenNanos p + pgChecksumNanos p + pgUploadNanos p + pgIndexNanos p)
      in if phaseTotal = 0 then 0 else 100 * real_of_int n / real_of_int phaseTotal)"

definition ingest_exit :: "Progress \<Rightarrow> int" where
  "ingest_exit p =
     (if pgProcessed p = 0 \<or> real_of_int (pgFailed p) > 1 / 100 * real_of_int (pgProcessed p + pgFailed p) then 1 else 0)"

subsection \<open>What the processes guarantee\<close>

text \<open>Users cannot choose the network, and the limits are those the operator stamped on the pod.\<close>

lemma runner_limits_env:
  "runner_limits parse getenv = limitsFromEnv (if getenv ''PETABYTE_CPU_CORES'' = [] then None else parse (getenv ''PETABYTE_CPU_CORES''))
     (if getenv ''PETABYTE_MEMORY_GB'' = [] then None else atoi (getenv ''PETABYTE_MEMORY_GB''))
     (if getenv ''PETABYTE_GPU_COUNT'' = [] then None else atoi (getenv ''PETABYTE_GPU_COUNT''))
     (if getenv ''PETABYTE_TIMEOUT_SEC'' = [] then None else atoi (getenv ''PETABYTE_TIMEOUT_SEC''))"
  by (simp add: runner_limits_def limitsFromEnv_def envInt_def envFloat_def Let_def split: option.split)

text \<open>The assignment that the operator put into the environment of the pod is the one the runner and the worker decode.\<close>

lemma pod_decodes_assignment:
  assumes "BuildJob marshal a img url nodes = Ok job" "marshal a = Ok json" "pod_env job ''PETABYTE_TASK_JSON'' = Some (std64_encode json)" "unmarshal json = Ok a"
    and "getenv ''PETABYTE_TASK_JSON'' = the (pod_env job ''PETABYTE_TASK_JSON'')"
  shows "decodeAssignment unmarshal (getenv ''PETABYTE_TASK_JSON'') = Ok a"
  using assms by (simp add: decodeAssignment_def std64_round_trip)

text \<open>A runner that gets as far as the task posts a start and exactly one result for it; the result carries an error exactly when the task failed, which is also the exit
  code, and then the scratch directory is left behind. Before that it posts nothing: the coordinator does not hear of a runner that cannot start.\<close>

lemma runner_posts:
  "(\<exists>e. runner_main rt js unmarshal env rw b = e \<and> reePosts e = [] \<and> reeExit e = 1 \<and> reeBucket e = b)
   \<or> (\<exists>a img scratch b' result execErr url wid. Execute rt js unmarshal env (runner_spec rw a img) scratch b = (b', result, execErr)
       \<and> decodeAssignment (rwUnmarshal rw) (rwGetenv rw ''PETABYTE_TASK_JSON'') = Ok a \<and> img \<noteq> []
       \<and> reePosts (runner_main rt js unmarshal env rw b) =
           [PostStart (url @ ''/v1/tasks/'' @ aTaskID a @ ''/start'') wid,
            PostResult (url @ ''/v1/tasks/'' @ aTaskID a @ ''/result'') (runner_result wid (rwElapsed rw) result execErr)]
       \<and> reeBucket (runner_main rt js unmarshal env rw b) = b'
       \<and> reeExit (runner_main rt js unmarshal env rw b) = (if execErr = None then 0 else 1)
       \<and> (reeScratch (runner_main rt js unmarshal env rw b) \<longleftrightarrow> execErr \<noteq> None))"
  by (simp add: runner_main_def runner_fails_def Let_def split: outcome.split prod.split) blast

lemma runner_result_error: "rqError (runner_result wid t r e) = (case e of None \<Rightarrow> [] | Some x \<Rightarrow> x)"
  by (simp add: runner_result_def Let_def split: option.split)

text \<open>A query is built from exactly one of the four flags.\<close>

lemma buildQuery_one_mode:
  assumes "buildQuery unmarshal readFile k qid vector text imagePath = Ok q"
  shows "length (filter (\<lambda>s. s \<noteq> []) [qid, vector, text, imagePath]) = 1 \<and> qyK q = k \<and> qyID q = qid \<and> qyText q = text
    \<and> (vector = [] \<longrightarrow> qyVector q = []) \<and> (imagePath = [] \<longrightarrow> qyImage q = [])"
  using assms by (auto simp: buildQuery_def Let_def split: outcome.splits if_splits)

text \<open>An empty vector or an empty file counts as a query, and then fails as none.\<close>

lemma empty_vector_query:
  assumes "unmarshal ''[]'' = Ok []"
  shows "\<exists>q. buildQuery unmarshal readFile k [] ''[]'' [] [] = Ok q \<and> Run_query enc q ix = Err ''vsearch: empty query (set one of id/vector/text/image)''"
  using assms by (simp add: buildQuery_def Run_query_def ResolveVector_def)

text \<open>A command without a usable configuration still searches a local index.\<close>

lemma vsearch_local_needs_no_store:
  assumes "take 5 index \<noteq> ''s3://''" "readFile index = Ok d"
  shows "vsearch_run unmarshal readFile cfg st rp enc index k qid vector text imagePath = vsearch_run unmarshal readFile cfg' st' rp enc index k qid vector text imagePath"
  using loadBytes_local [of index readFile d] assms by (simp add: vsearch_run_def LoadIndex_def)

text \<open>An ingestion succeeds exactly when something landed and at most one file in a hundred failed.\<close>

lemma ingest_exit_iff:
  assumes "0 \<le> pgProcessed p" "0 \<le> pgFailed p"
  shows "ingest_exit p = 0 \<longleftrightarrow> 0 < pgProcessed p \<and> 99 * pgFailed p \<le> pgProcessed p"
proof -
  have "1 / 100 * real_of_int (pgProcessed p + pgFailed p) < real_of_int (pgFailed p) \<longleftrightarrow> pgProcessed p < 99 * pgFailed p"
  proof -
    have "1 / 100 * real_of_int (pgProcessed p + pgFailed p) < real_of_int (pgFailed p) \<longleftrightarrow> real_of_int (pgProcessed p) < real_of_int (99 * pgFailed p)"
      by (simp add: field_simps)
    then show ?thesis by (simp only: of_int_less_iff)
  qed
  with assms show ?thesis by (auto simp: ingest_exit_def)
qed

end
