(* ===== verification/Spec2Isabelle.thy ===== *)
theory Spec2Isabelle
  imports Sched_Life Sched_Live Report_Props Wal Admission Quota Cache_Props Membership Coord_Props Worker_Props Coord_Durable Coord_Failover Lock_Order Auth Rpc Multipart Prefetch Package Phi Formats Metadata Storage Tiering Ingest K8s Trace Vsearch Registry Diag Raft_Node Config Sandbox Server Collector Columnar Gen_Images Kube Image_Build Boot Commands
begin

text \<open>
  Verification of the petabyte-scale image processing platform.

  \<^bold>\<open>The program.\<close> A dataset is a bucket of objects in 256 shards. \<^verbatim>\<open>cmd/ingest\<close> uploads files and indexes them; \<^verbatim>\<open>cmd/server\<close> answers queries
  over the index, registers algorithms and searches by similarity; \<^verbatim>\<open>cmd/coordinator\<close> accepts jobs over HTTP and gRPC, splits them into one task per
  shard, hands tasks out under leases and commits their results once; \<^verbatim>\<open>cmd/worker\<close> polls for tasks, reads objects through a cache, stages
  results and reports them; \<^verbatim>\<open>cmd/operator\<close> turns tasks into Kubernetes jobs; \<^verbatim>\<open>cmd/sandbox-runner\<close> runs untrusted algorithms in a container. State is a
  Go structure under a lock: each operation is one definition from the state before to the state after and an answer, in the order of its
  branches. Where goroutines meet (uploads, the prefetcher, ingestion, the tracer, the lock graph) the model has their interleaved steps.

  \<^bold>\<open>Conventions\<close> (theory Prelude). A Go call is an \<open>outcome\<close>: a value, an error with its text, or a panic. \<^verbatim>\<open>int64\<close> is \<open>int\<close> with the
  wrap-around \<open>i64\<close> written where it is used, bytes and hashes are words, \<^verbatim>\<open>float64\<close> and \<^verbatim>\<open>float32\<close> are \<open>real\<close>, times are nanoseconds, a Go map is an
  association list whose order is the order of an iteration, so that every theorem holds for every order. Errors of files, networks and databases are arguments: theorems
  hold for every pattern of failures. JSON, YAML, zip, tar, Parquet, SQL, S3, docker, gRPC and the Raft library are parameters, or the documented
  effect of the statements and calls that the source uses; hypotheses on a parameter are round trips (decoding what was encoded) and are met
  by a concrete instance in the witness of the theorem.

  \<^bold>\<open>Components, theories and sources\<close> (under \<^verbatim>\<open>src/internal\<close> unless named otherwise):

  \<^item> Go_Hash, Keys, Job: SHA-256, the keys of objects and results, jobs, tasks and ranges (\<^verbatim>\<open>storage/shard.go\<close>, \<^verbatim>\<open>scheduler/commit.go\<close>, \<^verbatim>\<open>scheduler/job.go\<close>).
  \<^item> Scheduler, Sched_Wf, Sched_Steps, Sched_Inv, Sched_Props, Sched_Life, Sched_Live: \<^verbatim>\<open>scheduler/scheduler.go\<close>. The operations, their step relation, the
    well-formedness and tiling invariants by rule induction, then the properties: shards are tiled by the ranges of their tasks, a completed
    job has processed every shard, leases are bounded, steals take only what was not granted, a poll never leaves a worker idle, restoring
    a state gives it back, and every job settles after an amount of work that a potential function bounds.
  \<^item> Report, Report_Props, Consensus, Raft_Node: committing a result (\<^verbatim>\<open>scheduler/commit.go\<close>, \<^verbatim>\<open>coordinator/effect.go\<close>, \<^verbatim>\<open>effect/\<close>), the replicated machines and the node that
    applies them (\<^verbatim>\<open>consensus/\<close>). The interfaces are the locales \<open>replicated_fsm\<close>, \<open>effect_ledger\<close> and \<open>commit_decider\<close>, interpreted on the model's own
    machines. A task is done only after the decision is in the ledger, deciders agree, effects happen at most once.
  \<^item> Wal, Coordinator, Coord_Props, Coord_Durable, Coord_Failover, Boot, Metrics: the log (\<^verbatim>\<open>pipeline/checkpoint.go\<close>) byte by byte with torn writes, the
    coordinator and its HTTP handlers (\<^verbatim>\<open>coordinator/\<close>): recovery gives the last acknowledged state, admission slots follow jobs,
    a dead node loses its arcs and its tasks; the start and the shutdown of \<^verbatim>\<open>cmd/coordinator\<close>.
  \<^item> Ring, Membership, Phi: \<^verbatim>\<open>cluster/\<close>: consistent hashing, the failure detector and the accrual detector.
  \<^item> Admission, Quota, Auth, Rpc: \<^verbatim>\<open>admission/\<close>, \<^verbatim>\<open>quota/\<close>, \<^verbatim>\<open>ratelimit/\<close>, \<^verbatim>\<open>auth/\<close>, \<^verbatim>\<open>rpc/\<close>: shares, budgets, token buckets, tokens, roles and the
    interceptors.
  \<^item> Worker, Worker_Props: \<^verbatim>\<open>worker/\<close>. The worker is proved against the locale \<open>lease_service\<close> and composed with the coordinator's handlers by its interpretation.
  \<^item> Eviction, Cache, Cache_Props: \<^verbatim>\<open>cache/\<close>; the locale \<open>eviction_policy\<close> is interpreted on LRU, Clock and S3-FIFO.
  \<^item> Runs, Multipart, Prefetch, Ingest: runs of interleaved goroutines that must end (locales \<open>weighted_steps\<close> and \<open>live_steps\<close>), the multipart upload
    (\<^verbatim>\<open>storage/multipart.go\<close>), the prefetcher (\<^verbatim>\<open>pipeline/prefetcher.go\<close>) and ingestion (\<^verbatim>\<open>ingestion/pipeline.go\<close>).
  \<^item> Storage, Metadata, Tiering, Registry, Server: the client of the bucket (\<^verbatim>\<open>storage/client.go\<close>), the index (\<^verbatim>\<open>metadata/\<close>), tiering
    (\<^verbatim>\<open>tiering/engine.go\<close>), registered algorithms (\<^verbatim>\<open>registry/store.go\<close>) and the routes of \<^verbatim>\<open>cmd/server\<close>.
  \<^item> Package, Image_Build, Sandbox: packages of algorithms and their validation, the build directory of an image, the docker command and the run of a task
    (\<^verbatim>\<open>sandbox/\<close>, \<^verbatim>\<open>registry/validator.go\<close>).
  \<^item> Go_Heap, Vsearch: Go's \<^verbatim>\<open>container/heap\<close> (locale \<open>ranking\<close>) and similarity search (\<^verbatim>\<open>vsearch/\<close>).
  \<^item> Formats, Columnar: TFRecord and WebDataset files, rows as the columns of Parquet and Arrow files and back (\<^verbatim>\<open>formats/\<close>, \<^verbatim>\<open>vsearch/embedding.go\<close>).
  \<^item> K8s, Kube: jobs, watcher, client and operator (\<^verbatim>\<open>k8s/\<close>, \<^verbatim>\<open>cmd/operator\<close>): every job is reported once, and a report that fails is lost.
  \<^item> Commands, Gen_Images: the processes of \<^verbatim>\<open>cmd/sandbox-runner\<close>, \<^verbatim>\<open>cmd/worker\<close> (one task), \<^verbatim>\<open>cmd/vsearch\<close>, \<^verbatim>\<open>cmd/ingest\<close> and \<^verbatim>\<open>cmd/gen-images\<close>.
  \<^item> Lock_Order, Diag, Ring_Buffer, Trace, Collector, Config: lock diagnostics, assertions, tracing (\<^verbatim>\<open>diag/\<close>, \<^verbatim>\<open>trace/\<close>), metrics and the Ray client
    (\<^verbatim>\<open>metrics/\<close>, \<^verbatim>\<open>ray/\<close>), and the configuration with what the commands make of it (\<^verbatim>\<open>config/\<close>).

  \<^bold>\<open>What the theorems show.\<close> Invariants of every reachable state (scheduler, admission, quotas, membership, tiering), refinement of durable
  storage by the log, equivalence with a reference (ring lookup, search, heap), termination and progress of every loop and of every
  interleaving, round trips (tokens, records, Kubernetes jobs, scheduler state), bounds, and the error branches. Some theorems
  state what the code does wrong: uploads with too many parts deadlock, and the lemmas next to a definition show smaller cases.

  \<^bold>\<open>Bounds and fuel.\<close> There is no fuel. Loops that end are recursive functions with a measure; loops that may run forever (following a listing, waiting
  for a decision or for a Ray job, growing a buffer) are \<open>partial_function (option)\<close> with lemmas on when they return. Interleavings end because every step lowers a
  weight. Counters are bounded by \<open>2 ^ 63\<close> only where a statement counts with them. SHA-256 is defined and never evaluated on long inputs.

  \<^bold>\<open>Not modelled.\<close> Generated protobuf code, the Python and shell scripts, the construction of SDK clients, TLS, listeners, signals and tickers, log records and printed output, the
  texts of JSON and YAML, and the rounding of floating-point numbers. Parquet, Arrow, the JPEG encoder and docker are parameters.
\<close>

end
